(* ===== verification/C_Prelude.thy ===== *)
theory C_Prelude
  imports Main "HOL-Library.Word"
begin

text \<open>
  Shared vocabulary of the development: the C and C++ machine model the components are
  written in. Integers follow the LLP64 data model of the Visual Studio build that compiles
  \<^verbatim>\<open>src/win/hiredis\<close>: \<open>int\<close> and \<open>long\<close> have 32 bits, \<open>long long\<close> and \<open>size_t\<close> have 64.
  Signed conversions wrap around, as that compiler does. A block of memory is the list of its
  bytes, and every access is checked: an access outside a block is the value
  \<^verbatim>\<open>Fault OutOfBounds\<close>, a failed \<^verbatim>\<open>assert\<close> is \<^verbatim>\<open>Fault AssertFailed\<close>, a use of
  the null pointer is \<^verbatim>\<open>Fault NullDeref\<close>, a variadic argument that is missing or of
  another type is \<^verbatim>\<open>Fault BadVarArg\<close>, a use of an object that was freed is
  \<^verbatim>\<open>Fault UseAfterFree\<close>, and a function that returns \<^verbatim>\<open>NULL\<close>
  because an allocation failed returns \<open>Null\<close>. Whether an allocation succeeds and what fresh
  memory holds are given by an environment, over which every theorem quantifies. A loop with no
  bound of its own runs on fuel and is \<^verbatim>\<open>Fault OutOfFuel\<close> when that is spent; the
  theorems show that it never is. A system call that does not return is \<^verbatim>\<open>Fault Blocked\<close>.
\<close>

named_theorems cres_simps \<open>evaluation of the checked memory operations\<close>
named_theorems sds_simps \<open>rewriting for the sds component\<close>
named_theorems dict_simps \<open>rewriting for the hash table component\<close>

section \<open>Results\<close>

datatype fault = OutOfBounds | AssertFailed | NullDeref | BadVarArg | UseAfterFree | OutOfFuel | Blocked

datatype 'a cres = Ok 'a | Null | Fault fault

fun cbind :: "'a cres \<Rightarrow> ('a \<Rightarrow> 'b cres) \<Rightarrow> 'b cres" where
  "cbind (Ok x) f = f x"
| "cbind Null f = Null"
| "cbind (Fault e) f = Fault e"

text \<open>Code that uses a returned pointer without a test for \<^verbatim>\<open>NULL\<close>.\<close>

fun cderef :: "'a cres \<Rightarrow> ('a \<Rightarrow> 'b cres) \<Rightarrow> 'b cres" where
  "cderef (Ok x) f = f x"
| "cderef Null f = Fault NullDeref"
| "cderef (Fault e) f = Fault e"

text \<open>A returned pointer kept as a value: \<open>None\<close> is \<^verbatim>\<open>NULL\<close>.\<close>

fun nullable :: "'a cres \<Rightarrow> 'a option cres" where
  "nullable (Ok x) = Ok (Some x)"
| "nullable Null = Ok None"
| "nullable (Fault e) = Fault e"

fun is_fault :: "'a cres \<Rightarrow> bool" where
  "is_fault (Fault _) = True"
| "is_fault _ = False"

lemma cbind_eq_Ok [simp]: "cbind m f = Ok y \<longleftrightarrow> (\<exists>x. m = Ok x \<and> f x = Ok y)"
  by (cases m) auto

lemma cbind_eq_Null: "cbind m f = Null \<longleftrightarrow> m = Null \<or> (\<exists>x. m = Ok x \<and> f x = Null)"
  by (cases m) auto

lemma cbind_assoc: "cbind (cbind m f) g = cbind m (\<lambda>x. cbind (f x) g)"
  by (cases m) auto

lemma cbind_cong [fundef_cong]:
  "m = m' \<Longrightarrow> (\<And>x. m' = Ok x \<Longrightarrow> f x = g x) \<Longrightarrow> cbind m f = cbind m' g"
  by (cases m') auto

lemma cderef_eq_Ok [simp]: "cderef m f = Ok y \<longleftrightarrow> (\<exists>x. m = Ok x \<and> f x = Ok y)"
  by (cases m) auto

section \<open>Integer conversions\<close>

definition to_i32 :: "int \<Rightarrow> int" where
  "to_i32 x = (x + 2147483648) mod 4294967296 - 2147483648"

definition to_i64 :: "int \<Rightarrow> int" where
  "to_i64 x = (x + 9223372036854775808) mod 18446744073709551616 - 9223372036854775808"

definition to_size :: "int \<Rightarrow> nat" where
  "to_size x = nat (x mod 18446744073709551616)"

lemma to_i32_id [simp]: "- 2147483648 \<le> x \<Longrightarrow> x \<le> 2147483647 \<Longrightarrow> to_i32 x = x"
  by (simp add: to_i32_def)

lemma to_i64_id [simp]:
  "- 9223372036854775808 \<le> x \<Longrightarrow> x \<le> 9223372036854775807 \<Longrightarrow> to_i64 x = x"
  by (simp add: to_i64_def)

lemma to_size_id [simp]: "0 \<le> x \<Longrightarrow> x < 18446744073709551616 \<Longrightarrow> to_size x = nat x"
  by (simp add: to_size_def)

lemma to_i32_bounds: "- 2147483648 \<le> to_i32 x \<and> to_i32 x \<le> 2147483647"
proof -
  have "0 \<le> (x + 2147483648) mod 4294967296" "(x + 2147483648) mod 4294967296 < 4294967296"
    by simp_all
  then show ?thesis unfolding to_i32_def by linarith
qed

lemma to_size_bound: "to_size x < 18446744073709551616"
  by (simp add: to_size_def nat_less_iff)

section \<open>Checked memory\<close>

abbreviation NUL :: char where "NUL \<equiv> CHR 0x00"

type_synonym mem = "char list"

record env =
  can_alloc :: "nat \<Rightarrow> bool"
  junk :: "nat \<Rightarrow> char"

definition plenty :: env where
  "plenty = \<lparr>can_alloc = (\<lambda>_. True), junk = (\<lambda>_. CHR ''?'')\<rparr>"

definition starved :: env where
  "starved = \<lparr>can_alloc = (\<lambda>_. False), junk = (\<lambda>_. CHR ''?'')\<rparr>"

definition fresh :: "env \<Rightarrow> nat \<Rightarrow> mem" where
  "fresh e n = map (junk e) [0..<n]"

definition realloc_bytes :: "env \<Rightarrow> mem \<Rightarrow> nat \<Rightarrow> mem" where
  "realloc_bytes e m n = take n m @ fresh e (n - length m)"

definition mem_read :: "mem \<Rightarrow> int \<Rightarrow> char cres" where
  "mem_read m i = (if 0 \<le> i \<and> i < int (length m) then Ok (m ! nat i) else Fault OutOfBounds)"

definition mem_slice :: "mem \<Rightarrow> int \<Rightarrow> nat \<Rightarrow> mem cres" where
  "mem_slice m i n =
     (if n = 0 then Ok []
      else if 0 \<le> i \<and> i + int n \<le> int (length m) then Ok (take n (drop (nat i) m))
      else Fault OutOfBounds)"

definition mem_write :: "mem \<Rightarrow> int \<Rightarrow> mem \<Rightarrow> mem cres" where
  "mem_write m i d =
     (if d = [] then Ok m
      else if 0 \<le> i \<and> i + int (length d) \<le> int (length m)
      then Ok (take (nat i) m @ d @ drop (nat i + length d) m)
      else Fault OutOfBounds)"

definition c_strlen :: "mem \<Rightarrow> nat cres" where
  "c_strlen m =
     (if NUL \<in> set m then Ok (length (takeWhile (\<lambda>c. c \<noteq> NUL) m)) else Fault OutOfBounds)"

definition cstr :: "string \<Rightarrow> mem" where
  "cstr t = t @ [NUL]"

definition c_isprint :: "char \<Rightarrow> bool" where
  "c_isprint c \<longleftrightarrow> (32 :: nat) \<le> of_char c \<and> (of_char c :: nat) \<le> 126"

definition c_isspace :: "char \<Rightarrow> bool" where
  "c_isspace c \<longleftrightarrow> c = CHR '' '' \<or> (9 :: nat) \<le> of_char c \<and> (of_char c :: nat) \<le> 13"

definition c_isdigit :: "char \<Rightarrow> bool" where
  "c_isdigit c \<longleftrightarrow> (48 :: nat) \<le> of_char c \<and> (of_char c :: nat) \<le> 57"

definition c_strchr :: "string \<Rightarrow> char \<Rightarrow> bool" where
  \<comment> \<open>\<open>strchr(set, c) != NULL\<close>: the terminator of the set is found too\<close>
  "c_strchr cset c \<longleftrightarrow> c \<in> set cset \<or> c = NUL"

subsection \<open>Laws of the checked memory\<close>

lemma length_fresh [simp]: "length (fresh e n) = n"
  by (simp add: fresh_def)

lemma length_realloc_bytes [simp]: "length (realloc_bytes e m n) = n"
  by (simp add: realloc_bytes_def)

lemma nth_realloc_bytes: "i < n \<Longrightarrow> i < length m \<Longrightarrow> realloc_bytes e m n ! i = m ! i"
  by (simp add: realloc_bytes_def nth_append)

lemma take_realloc_bytes: "k \<le> n \<Longrightarrow> k \<le> length m \<Longrightarrow> take k (realloc_bytes e m n) = take k m"
  by (simp add: realloc_bytes_def min_def)

lemma mem_read_Ok [cres_simps]:
  "0 \<le> i \<Longrightarrow> i < int (length m) \<Longrightarrow> mem_read m i = Ok (m ! nat i)"
  by (simp add: mem_read_def)

lemma mem_slice_Ok [cres_simps]:
  "0 \<le> i \<Longrightarrow> i + int n \<le> int (length m) \<Longrightarrow> mem_slice m i n = Ok (take n (drop (nat i) m))"
  by (simp add: mem_slice_def)

lemma mem_write_Ok [cres_simps]:
  "0 \<le> i \<Longrightarrow> i + int (length d) \<le> int (length m) \<Longrightarrow>
   mem_write m i d = Ok (take (nat i) m @ d @ drop (nat i + length d) m)"
  by (auto simp: mem_write_def)

lemma mem_write_length: "mem_write m i d = Ok m' \<Longrightarrow> length m' = length m"
  by (auto simp: mem_write_def split: if_splits)

lemma c_strlen_cstr [cres_simps]:
  assumes "NUL \<notin> set t"
  shows "c_strlen (cstr t) = Ok (length t)"
proof -
  have "takeWhile (\<lambda>c. c \<noteq> NUL) (t @ [NUL]) = t"
    using assms by (subst takeWhile_append2) auto
  then show ?thesis by (simp add: c_strlen_def cstr_def)
qed

lemma c_strlen_Ok_bound: "c_strlen m = Ok n \<Longrightarrow> n < length m"
proof -
  assume "c_strlen m = Ok n"
  then have n: "n = length (takeWhile (\<lambda>c. c \<noteq> NUL) m)" and "NUL \<in> set m"
    by (auto simp: c_strlen_def split: if_splits)
  then have "takeWhile (\<lambda>c. c \<noteq> NUL) m \<noteq> m"
    by (metis set_takeWhileD)
  then show ?thesis
    using n by (metis length_takeWhile_le nat_less_le takeWhile_eq_take take_all_iff le_refl)
qed

lemma take_cstr [simp]: "take (length t) (cstr t) = t"
  by (simp add: cstr_def)

lemma length_cstr [simp]: "length (cstr t) = Suc (length t)"
  by (simp add: cstr_def)

section \<open>Lists\<close>

lemma take_length_append [simp]: "take (length xs) (xs @ ys) = xs"
  by simp

lemma take_Suc_snoc: "i < length xs \<Longrightarrow> take i xs @ [xs ! i] = take (Suc i) xs"
  by (simp add: take_Suc_conv_app_nth)

lemma take_Suc_eqD:
  assumes "take (Suc n) xs = take (Suc n) ys"
  shows "xs ! n = ys ! n" "take n xs = take n ys"
proof -
  show "xs ! n = ys ! n" by (metis assms lessI nth_take)
  have "take n (take (Suc n) xs) = take n (take (Suc n) ys)" by (simp only: assms)
  then show "take n xs = take n ys" by (simp add: min_def)
qed

lemma window_append:
  assumes "i \<le> j" "j \<le> l"
  shows "take (j - i) (drop i s) @ drop j (take l s) = drop i (take l s)"
proof -
  have "drop i (take l s) = take ((j - i) + (l - j)) (drop i s)" using assms by (simp add: drop_take)
  also have "\<dots> = take (j - i) (drop i s) @ take (l - j) (drop (j - i) (drop i s))" by (rule take_add)
  finally show ?thesis using assms by (simp add: drop_take)
qed

lemma nth_write_end: "i \<le> length m \<Longrightarrow> (take i m @ [x] @ ys) ! i = x"
  by (simp add: nth_append)

lemma slice_of_terminated:
  assumes "take (Suc (length d)) m = d @ [x]"
  shows "mem_slice m 0 (length d) = Ok d"
proof -
  have "length (take (Suc (length d)) m) = Suc (length d)" by (simp only: assms) simp
  then have "length d \<le> length m" by (simp add: min_def split: if_splits)
  moreover have "take (length d) m = d"
    using take_Suc_eqD(2) [of "length d" m "d @ [x]"] assms by simp
  ultimately show ?thesis by (simp add: mem_slice_Ok)
qed

section \<open>Decimal numerals\<close>

definition digit_char :: "nat \<Rightarrow> char" where
  "digit_char d = char_of (48 + d)"

text \<open>The decimal numeral, most significant digit first.\<close>

fun dec_nat :: "nat \<Rightarrow> string" where
  "dec_nat n = (if n < 10 then [digit_char n] else dec_nat (n div 10) @ [digit_char (n mod 10)])"

declare dec_nat.simps [simp del]

definition dec_int :: "int \<Rightarrow> string" where
  "dec_int v = (if v < 0 then CHR ''-'' # dec_nat (nat (- v)) else dec_nat (nat v))"

lemma digit_char_numeral:
  "digit_char 0 = CHR ''0''" "digit_char 1 = CHR ''1''" "digit_char 2 = CHR ''2''" "digit_char 3 = CHR ''3''"
  "digit_char 4 = CHR ''4''" "digit_char 5 = CHR ''5''" "digit_char 6 = CHR ''6''" "digit_char 7 = CHR ''7''"
  "digit_char 8 = CHR ''8''" "digit_char 9 = CHR ''9''" "digit_char (Suc 0) = CHR ''1''"
  by (simp_all add: digit_char_def char_of_def bit_0)

lemma digit_char_facts:
  assumes "d < 10"
  shows "(of_char (digit_char d) :: nat) = 48 + d" "c_isdigit (digit_char d)" "\<not> c_isspace (digit_char d)"
    "digit_char d \<noteq> CHR ''-''" "digit_char d \<noteq> CHR ''+''" "digit_char d \<noteq> NUL" "digit_char d \<noteq> CHR ''$''"
proof -
  show o: "(of_char (digit_char d) :: nat) = 48 + d" using assms by (simp add: digit_char_def)
  then show "c_isdigit (digit_char d)" using assms by (simp add: c_isdigit_def)
  have "digit_char d \<noteq> x" if "(of_char x :: nat) < 48" for x using that o by auto
  then show "\<not> c_isspace (digit_char d)" "digit_char d \<noteq> CHR ''-''" "digit_char d \<noteq> CHR ''+''" "digit_char d \<noteq> NUL" "digit_char d \<noteq> CHR ''$''"
    using o by (auto simp: c_isspace_def)
qed

lemmas dec_eval = dec_int_def dec_nat.simps digit_char_numeral

section \<open>Total correctness of checked computations\<close>

text \<open>
  \<open>returns ok m P\<close>: the computation \<open>m\<close> never faults, it returns \<^verbatim>\<open>NULL\<close> only
  when memory is not guaranteed (\<open>ok\<close> is false), and otherwise its result satisfies \<open>P\<close>.
\<close>

fun returns :: "bool \<Rightarrow> 'a cres \<Rightarrow> ('a \<Rightarrow> bool) \<Rightarrow> bool" where
  "returns ok (Ok x) P = P x"
| "returns ok Null P = (\<not> ok)"
| "returns ok (Fault f) P = False"

definition alloc_ok :: "env \<Rightarrow> bool" where
  "alloc_ok e \<longleftrightarrow> (\<forall>n. can_alloc e n)"

lemma alloc_ok_plenty [simp]: "alloc_ok plenty"
  by (simp add: alloc_ok_def plenty_def)

lemma returns_bind:
  "returns ok m P \<Longrightarrow> (\<And>x. P x \<Longrightarrow> returns ok (f x) Q) \<Longrightarrow> returns ok (cbind m f) Q"
  by (cases m) auto

lemma returns_deref:
  "returns True m P \<Longrightarrow> (\<And>x. P x \<Longrightarrow> returns ok (f x) Q) \<Longrightarrow> returns ok (cderef m f) Q"
  by (cases m) auto

lemma returns_weaken:
  "returns ok m P \<Longrightarrow> (ok' \<Longrightarrow> ok) \<Longrightarrow> (\<And>x. P x \<Longrightarrow> Q x) \<Longrightarrow> returns ok' m Q"
  by (cases m) auto

lemma returns_OkD: "returns ok m P \<Longrightarrow> m = Ok x \<Longrightarrow> P x"
  by simp

lemma returns_ex: "returns ok m P \<Longrightarrow> ok \<Longrightarrow> \<exists>x. m = Ok x \<and> P x"
  by (cases m) auto

lemma returns_no_fault: "returns ok m P \<Longrightarrow> \<not> is_fault m"
  by (cases m) auto

end
