(* ===== verification/Interfaces.thy ===== *)
theory Interfaces
  imports C_Prelude
begin

text \<open>
  The interfaces between the components, as locales: what a client relies on and what the
  provider has to show. \<open>byte_buffer\<close> is the contract of a growing byte string, on which the
  reader's input buffer and the context's output buffer rest; \<open>finite_map\<close> is the contract of
  a table with lookup, insertion, replacement and removal, on which the callback tables of the
  asynchronous interface rest. The lemmas a client needs are proved here once, from the laws.
\<close>

section \<open>Growing byte strings\<close>

text \<open>Appending one piece after the other; the \<open>k\<close>th append allocates in the \<open>k\<close>th environment.\<close>

fun cat_pieces :: "(env \<Rightarrow> 'b \<Rightarrow> mem \<Rightarrow> nat \<Rightarrow> 'b cres) \<Rightarrow> (nat \<Rightarrow> env) \<Rightarrow> nat \<Rightarrow> 'b \<Rightarrow> mem list \<Rightarrow> 'b cres" where
  "cat_pieces cat es k b [] = Ok b"
| "cat_pieces cat es k b (t # ts) = cbind (cat (es k) b t (length t)) (\<lambda>b'. cat_pieces cat es (Suc k) b' ts)"

locale byte_buffer =
  fixes inv :: "'b \<Rightarrow> bool"
    and content :: "'b \<Rightarrow> string"
    and fits :: "nat \<Rightarrow> bool"
    and empty_buffer :: "env \<Rightarrow> 'b cres"
    and cat :: "env \<Rightarrow> 'b \<Rightarrow> mem \<Rightarrow> nat \<Rightarrow> 'b cres"
  assumes empty_law: "returns (alloc_ok e) (empty_buffer e) (\<lambda>b. inv b \<and> content b = [])"
    and cat_law: "inv b \<Longrightarrow> n \<le> length t \<Longrightarrow> fits (length (content b) + n) \<Longrightarrow>
      returns (alloc_ok e) (cat e b t n) (\<lambda>b'. inv b' \<and> content b' = content b @ take n t)"
    and fits_mono: "fits n \<Longrightarrow> m \<le> n \<Longrightarrow> fits m"
begin

lemma cat_pieces_concat:
  "inv b \<Longrightarrow> fits (length (content b) + length (concat ts)) \<Longrightarrow>
   returns (\<forall>k. alloc_ok (es k)) (cat_pieces cat es k b ts) (\<lambda>b'. inv b' \<and> content b' = content b @ concat ts)"
proof (induction ts arbitrary: b k)
  case (Cons t ts)
  have "returns (alloc_ok (es k)) (cat (es k) b t (length t)) (\<lambda>b'. inv b' \<and> content b' = content b @ t)"
    using cat_law [of b "length t" t "es k"] Cons.prems fits_mono [OF Cons.prems(2)] by simp
  then have "returns (\<forall>k. alloc_ok (es k)) (cat (es k) b t (length t)) (\<lambda>b'. inv b' \<and> content b' = content b @ t)"
    by (rule returns_weaken) auto
  then show ?case unfolding cat_pieces.simps
  proof (rule returns_bind)
    fix b' assume b': "inv b' \<and> content b' = content b @ t"
    then have "fits (length (content b') + length (concat ts))" using Cons.prems(2) by (simp add: add.assoc)
    from Cons.IH [OF conjunct1 [OF b'] this, of "Suc k"] show "returns (\<forall>k. alloc_ok (es k)) (cat_pieces cat es (Suc k) b' ts)
        (\<lambda>b''. inv b'' \<and> content b'' = content b @ concat (t # ts))" using b' by simp
  qed
qed simp

lemma cat_pieces_split:
  assumes "inv b" "fits (length (content b) + length (concat ts))" "concat ts = concat us"
    "\<forall>k. alloc_ok (es k)" "\<forall>k. alloc_ok (fs k)"
  shows "\<exists>b1 b2. cat_pieces cat es 0 b ts = Ok b1 \<and> cat_pieces cat fs 0 b us = Ok b2 \<and> content b1 = content b2"
proof -
  have "fits (length (content b) + length (concat us))" using assms(2,3) by simp
  then show ?thesis
    using returns_ex [OF cat_pieces_concat [OF assms(1,2), of es 0]]
      returns_ex [OF cat_pieces_concat [OF assms(1), of us fs 0]] assms(3-5) by auto
qed

end

section \<open>Tables\<close>

datatype ('k, 'v) table_op = Put 'k 'v | Del 'k

fun map_op :: "('k, 'v) table_op \<Rightarrow> ('k \<rightharpoonup> 'v) \<Rightarrow> ('k \<rightharpoonup> 'v)" where
  "map_op (Put k v) m = m(k \<mapsto> v)"
| "map_op (Del k) m = m(k := None)"

fun table_run :: "('d \<Rightarrow> 'k \<Rightarrow> 'v \<Rightarrow> 'd cres) \<Rightarrow> ('d \<Rightarrow> 'k \<Rightarrow> 'd cres) \<Rightarrow> 'd \<Rightarrow> ('k, 'v) table_op list \<Rightarrow> 'd cres" where
  "table_run put del d [] = Ok d"
| "table_run put del d (Put k v # ops) = cbind (put d k v) (\<lambda>d'. table_run put del d' ops)"
| "table_run put del d (Del k # ops) = cbind (del d k) (\<lambda>d'. table_run put del d' ops)"

locale finite_map =
  fixes inv :: "'d \<Rightarrow> bool"
    and amap :: "'d \<Rightarrow> 'k \<rightharpoonup> 'v"
    and count :: "'d \<Rightarrow> nat"
    and cap :: nat
    and empty_table :: 'd
    and find :: "'d \<Rightarrow> 'k \<Rightarrow> 'v option cres"
    and put :: "'d \<Rightarrow> 'k \<Rightarrow> 'v \<Rightarrow> 'd cres"
    and del :: "'d \<Rightarrow> 'k \<Rightarrow> 'd cres"
  assumes empty_table_law: "inv empty_table" "amap empty_table = Map.empty" "count empty_table = 0"
    and find_law: "inv d \<Longrightarrow> find d k = Ok (amap d k)"
    and put_law: "inv d \<Longrightarrow> count d < cap \<Longrightarrow>
      \<exists>d'. put d k v = Ok d' \<and> inv d' \<and> amap d' = (amap d)(k \<mapsto> v) \<and> count d' \<le> Suc (count d)"
    and del_law: "inv d \<Longrightarrow> \<exists>d'. del d k = Ok d' \<and> inv d' \<and> amap d' = (amap d)(k := None) \<and> count d' \<le> count d"
begin

lemma find_after_put:
  assumes "inv d" "count d < cap"
  shows "cbind (put d k v) (\<lambda>d'. find d' k') = Ok (if k' = k then Some v else amap d k')"
  using put_law [OF assms, of k v] find_law by auto

lemma find_after_del:
  assumes "inv d"
  shows "cbind (del d k) (\<lambda>d'. find d' k') = Ok (if k' = k then None else amap d k')"
  using del_law [OF assms, of k] find_law by auto

lemma run_simulates:
  "inv d \<Longrightarrow> count d + length ops \<le> cap \<Longrightarrow>
   \<exists>d'. table_run put del d ops = Ok d' \<and> inv d' \<and> amap d' = fold map_op ops (amap d)"
proof (induction ops arbitrary: d)
  case (Cons oper ops)
  have "\<exists>d1. table_run put del d (oper # ops) = table_run put del d1 ops \<and> inv d1 \<and>
      amap d1 = map_op oper (amap d) \<and> count d1 \<le> Suc (count d)"
  proof (cases oper)
    case (Put k v)
    then show ?thesis using put_law [of d k v] Cons.prems by fastforce
  next
    case (Del k)
    then show ?thesis using del_law [of d k] Cons.prems by fastforce
  qed
  then show ?case using Cons.IH Cons.prems(2) by fastforce
qed simp

lemma run_from_empty:
  assumes "length ops \<le> cap"
  shows "\<exists>d'. table_run put del empty_table ops = Ok d' \<and> inv d' \<and> (\<forall>k. find d' k = Ok (fold map_op ops Map.empty k))"
proof -
  obtain d' where "table_run put del empty_table ops = Ok d'" "inv d'" "amap d' = fold map_op ops Map.empty"
    using run_simulates [OF empty_table_law(1), of ops] assms empty_table_law by auto
  then show ?thesis using find_law by auto
qed

end

end
