(* ===== verification/Sds.thy ===== *)
theory Sds
  imports Interfaces
begin

text \<open>
  Simple dynamic strings, \<^verbatim>\<open>src/win/hiredis/sds.c\<close> and \<^verbatim>\<open>sds.h\<close>. An \<^verbatim>\<open>sds\<close>
  pointer addresses the byte array of a \<^verbatim>\<open>struct sdshdr\<close>; the model is that header, with
  the bytes of the array as a checked memory block. Each function of the file is a definition of
  the same name. The theory states the representation invariant, the abstraction to the plain
  byte string (\<open>sds_content\<close>), that every operation keeps the first and implements the
  obvious operation on the second, and that none of them leaves the block it was given.
\<close>

section \<open>The string header\<close>

record sdshdr =
  sh_len :: int
  sh_free :: int
  sh_buf :: mem

definition SDS_MAX_PREALLOC :: nat where
  "SDS_MAX_PREALLOC = 1024 * 1024"

definition sizeof_sdshdr :: nat where
  "sizeof_sdshdr = 8"

definition sdslen :: "sdshdr \<Rightarrow> nat" where
  "sdslen s = to_size (sh_len s)"

definition sdsavail :: "sdshdr \<Rightarrow> nat" where
  "sdsavail s = to_size (sh_free s)"

section \<open>Creation\<close>

text \<open>
  \<^verbatim>\<open>init\<close> is the null pointer (\<open>None\<close>) or a block of memory.
\<close>

definition sdsnewlen :: "env \<Rightarrow> mem option \<Rightarrow> nat \<Rightarrow> sdshdr cres" where
  "sdsnewlen e init initlen =
     (let size = to_size (int sizeof_sdshdr + int initlen + 1) in
      if \<not> can_alloc e size then Null
      else if size < sizeof_sdshdr then Fault OutOfBounds
      else
        let m0 = (if init \<noteq> None then fresh e (size - sizeof_sdshdr)
                  else replicate (size - sizeof_sdshdr) NUL)
        in cbind (case init of
                    None \<Rightarrow> Ok m0
                  | Some t \<Rightarrow> cbind (mem_slice t 0 initlen) (\<lambda>d. mem_write m0 0 d))
             (\<lambda>m1. cbind (mem_write m1 (int initlen) [NUL])
               (\<lambda>m2. Ok \<lparr>sh_len = to_i32 (int initlen), sh_free = 0, sh_buf = m2\<rparr>)))"

definition sdsempty :: "env \<Rightarrow> sdshdr cres" where
  "sdsempty e = sdsnewlen e (Some (cstr '''')) 0"

definition sdsnew :: "env \<Rightarrow> mem option \<Rightarrow> sdshdr cres" where
  "sdsnew e init =
     (case init of
        None \<Rightarrow> sdsnewlen e init 0
      | Some t \<Rightarrow> cbind (c_strlen t) (\<lambda>initlen. sdsnewlen e init initlen))"

definition sdsdup :: "env \<Rightarrow> sdshdr \<Rightarrow> sdshdr cres" where
  "sdsdup e s = sdsnewlen e (Some (sh_buf s)) (sdslen s)"

section \<open>Length and free space\<close>

definition sdsupdatelen :: "sdshdr \<Rightarrow> sdshdr cres" where
  "sdsupdatelen s =
     cbind (c_strlen (sh_buf s))
       (\<lambda>n. let reallen = to_i32 (int n) in
             Ok (s\<lparr>sh_free := to_i32 (sh_free s + (sh_len s - reallen)), sh_len := reallen\<rparr>))"

definition sdsclear :: "sdshdr \<Rightarrow> sdshdr cres" where
  "sdsclear s =
     cbind (mem_write (sh_buf s) 0 [NUL])
       (\<lambda>m. Ok \<lparr>sh_len = 0, sh_free = to_i32 (sh_free s + sh_len s), sh_buf = m\<rparr>)"

definition sdsMakeRoomFor :: "env \<Rightarrow> sdshdr \<Rightarrow> nat \<Rightarrow> sdshdr cres" where
  "sdsMakeRoomFor e s addlen =
     (if sdsavail s \<ge> addlen then Ok s
      else
        let l = sdslen s;
            newlen0 = to_size (int l + int addlen);
            newlen = (if newlen0 < SDS_MAX_PREALLOC then to_size (int newlen0 * 2)
                      else to_size (int newlen0 + int SDS_MAX_PREALLOC));
            size = to_size (int sizeof_sdshdr + int newlen + 1)
        in if \<not> can_alloc e size then Null
           else if size < sizeof_sdshdr then Fault OutOfBounds
           else Ok (s\<lparr>sh_buf := realloc_bytes e (sh_buf s) (size - sizeof_sdshdr),
                      sh_free := to_i32 (int newlen - int l)\<rparr>))"

definition sdsRemoveFreeSpace :: "env \<Rightarrow> sdshdr \<Rightarrow> sdshdr cres" where
  "sdsRemoveFreeSpace e s =
     (let size = to_size (int sizeof_sdshdr + sh_len s + 1) in
      if \<not> can_alloc e size then Fault NullDeref
      else if size < sizeof_sdshdr then Fault OutOfBounds
      else Ok (s\<lparr>sh_buf := realloc_bytes e (sh_buf s) (size - sizeof_sdshdr), sh_free := 0\<rparr>))"

definition sdsAllocSize :: "sdshdr \<Rightarrow> nat" where
  "sdsAllocSize s = to_size (int sizeof_sdshdr + sh_len s + sh_free s + 1)"

definition sdsIncrLen :: "sdshdr \<Rightarrow> int \<Rightarrow> sdshdr cres" where
  "sdsIncrLen s incr =
     (if \<not> sh_free s \<ge> incr then Fault AssertFailed
      else
        let l = to_i32 (sh_len s + incr); f = to_i32 (sh_free s - incr)
        in if \<not> f \<ge> 0 then Fault AssertFailed
           else cbind (mem_write (sh_buf s) l [NUL])
                  (\<lambda>m. Ok \<lparr>sh_len = l, sh_free = f, sh_buf = m\<rparr>))"

definition sdsgrowzero :: "env \<Rightarrow> sdshdr \<Rightarrow> nat \<Rightarrow> sdshdr cres" where
  "sdsgrowzero e s l =
     (let curlen = to_size (sh_len s) in
      if l \<le> curlen then Ok s
      else cbind (sdsMakeRoomFor e s (l - curlen))
             (\<lambda>s. cbind (mem_write (sh_buf s) (int curlen) (replicate (l - curlen + 1) NUL))
               (\<lambda>m. let totlen = to_size (sh_len s + sh_free s); l' = to_i32 (int l)
                     in Ok \<lparr>sh_len = l', sh_free = to_i32 (int totlen - l'), sh_buf = m\<rparr>)))"

section \<open>Concatenation and copying\<close>

text \<open>The source of a copy is a block \<^verbatim>\<open>t\<close> and the number of bytes read from it.\<close>

definition sdscatlen :: "env \<Rightarrow> sdshdr \<Rightarrow> mem \<Rightarrow> nat \<Rightarrow> sdshdr cres" where
  "sdscatlen e s t n =
     (let curlen = sdslen s in
      cbind (sdsMakeRoomFor e s n)
        (\<lambda>s. cbind (mem_slice t 0 n)
          (\<lambda>d. cbind (mem_write (sh_buf s) (int curlen) d)
            (\<lambda>m. cbind (mem_write m (int curlen + int n) [NUL])
              (\<lambda>m'. Ok \<lparr>sh_len = to_i32 (int curlen + int n),
                        sh_free = to_i32 (sh_free s - int n), sh_buf = m'\<rparr>)))))"

definition sdscat :: "env \<Rightarrow> sdshdr \<Rightarrow> mem \<Rightarrow> sdshdr cres" where
  "sdscat e s t = cbind (c_strlen t) (\<lambda>n. sdscatlen e s t n)"

definition sdscatsds :: "env \<Rightarrow> sdshdr \<Rightarrow> sdshdr \<Rightarrow> sdshdr cres" where
  "sdscatsds e s t = sdscatlen e s (sh_buf t) (sdslen t)"

definition sdscpylen :: "env \<Rightarrow> sdshdr \<Rightarrow> mem \<Rightarrow> nat \<Rightarrow> sdshdr cres" where
  "sdscpylen e s t n =
     (let totlen0 = to_size (sh_free s + sh_len s) in
      cbind (if totlen0 < n
             then cbind (sdsMakeRoomFor e s (to_size (int n - sh_len s)))
                    (\<lambda>s. Ok (s, to_size (sh_free s + sh_len s)))
             else Ok (s, totlen0))
        (\<lambda>(s, totlen). cbind (mem_slice t 0 n)
          (\<lambda>d. cbind (mem_write (sh_buf s) 0 d)
            (\<lambda>m. cbind (mem_write m (int n) [NUL])
              (\<lambda>m'. Ok \<lparr>sh_len = to_i32 (int n),
                        sh_free = to_i32 (int totlen - int n), sh_buf = m'\<rparr>)))))"

definition sdscpy :: "env \<Rightarrow> sdshdr \<Rightarrow> mem \<Rightarrow> sdshdr cres" where
  "sdscpy e s t = cbind (c_strlen t) (\<lambda>n. sdscpylen e s t n)"

section \<open>The representation invariant and the abstraction\<close>

definition sds_wf :: "sdshdr \<Rightarrow> bool" where
  "sds_wf s \<longleftrightarrow>
     0 \<le> sh_len s \<and> 0 \<le> sh_free s \<and> sh_len s + sh_free s \<le> 2147483647 \<and>
     length (sh_buf s) = Suc (nat (sh_len s + sh_free s)) \<and>
     sh_buf s ! nat (sh_len s) = NUL"

definition sds_content :: "sdshdr \<Rightarrow> string" where
  "sds_content s = take (nat (sh_len s)) (sh_buf s)"

text \<open>
  The room a string may still grow by: the header counts with 32-bit integers, and growing
  reserves up to \<^verbatim>\<open>SDS_MAX_PREALLOC\<close> bytes more than asked for.
\<close>

definition sds_fits :: "nat \<Rightarrow> bool" where
  "sds_fits n \<longleftrightarrow> n + SDS_MAX_PREALLOC \<le> 2147483647"

lemma sds_wfD:
  assumes "sds_wf s"
  shows "0 \<le> sh_len s" "0 \<le> sh_free s" "sh_len s + sh_free s \<le> 2147483647"
    "length (sh_buf s) = Suc (nat (sh_len s + sh_free s))" "sh_buf s ! nat (sh_len s) = NUL"
  using assms by (auto simp: sds_wf_def)

lemma sdslen_wf [sds_simps]: "sds_wf s \<Longrightarrow> sdslen s = nat (sh_len s)"
  by (simp add: sdslen_def sds_wf_def)

lemma sdsavail_wf [sds_simps]: "sds_wf s \<Longrightarrow> sdsavail s = nat (sh_free s)"
  by (simp add: sdsavail_def sds_wf_def)

lemma length_sds_content [sds_simps]: "sds_wf s \<Longrightarrow> length (sds_content s) = nat (sh_len s)"
  by (auto simp: sds_content_def sds_wf_def nat_add_distrib)

lemma sdslen_content: "sds_wf s \<Longrightarrow> sdslen s = length (sds_content s)"
  by (simp add: sds_simps)

lemma sds_buf_decomp:
  assumes "sds_wf s"
  shows "\<exists>rest. sh_buf s = sds_content s @ NUL # rest \<and> length rest = nat (sh_free s)"
proof -
  let ?n = "nat (sh_len s)"
  note w = sds_wfD [OF assms]
  have n: "?n < length (sh_buf s)" using w by simp
  have "sh_buf s = take ?n (sh_buf s) @ sh_buf s ! ?n # drop (Suc ?n) (sh_buf s)"
    by (rule id_take_nth_drop [OF n])
  moreover have "length (drop (Suc ?n) (sh_buf s)) = nat (sh_free s)"
    using w by (simp add: nat_add_distrib)
  ultimately show ?thesis
    unfolding sds_content_def w(5) by blast
qed

text \<open>Every way to build a well-formed header goes through one constructor lemma.\<close>

lemma sds_wfI:
  assumes "sh_buf s = t @ NUL # rest" "sh_len s = int (length t)" "sh_free s = int (length rest)"
    "int (length t) + int (length rest) \<le> 2147483647"
  shows "sds_wf s \<and> sds_content s = t"
  using assms by (simp add: sds_wf_def sds_content_def nat_add_distrib)

section \<open>Every operation keeps the invariant and implements its meaning\<close>

lemma sdsnewlen_spec:
  assumes "initlen \<le> length t" "initlen \<le> 2147483647"
  shows "returns (alloc_ok e) (sdsnewlen e (Some t) initlen)
           (\<lambda>s. sds_wf s \<and> sds_content s = take initlen t \<and> sh_free s = 0)"
proof -
  have size: "to_size (int sizeof_sdshdr + int initlen + 1) = Suc initlen + sizeof_sdshdr"
    using assms(2) by (simp add: sizeof_sdshdr_def nat_add_distrib)
  let ?d = "take initlen t" let ?m = "fresh e (Suc initlen)"
  have "mem_slice t 0 initlen = Ok ?d"
    using assms(1) by (simp add: cres_simps)
  moreover have "mem_write ?m 0 ?d = Ok (?d @ drop initlen ?m)"
    using assms(1) by (simp add: cres_simps)
  moreover have "mem_write (?d @ drop initlen ?m) (int initlen) [NUL] = Ok (?d @ [NUL])"
    using assms(1) by (simp add: cres_simps)
  ultimately show ?thesis
    using assms sds_wfI [of "\<lparr>sh_len = int initlen, sh_free = 0, sh_buf = ?d @ [NUL]\<rparr>" ?d "[]"]
    by (auto simp: sdsnewlen_def size Let_def alloc_ok_def simp del: replicate_Suc)
qed

lemma sdsnewlen_null_spec:
  assumes "initlen \<le> 2147483647"
  shows "returns (alloc_ok e) (sdsnewlen e None initlen)
           (\<lambda>s. sds_wf s \<and> sds_content s = replicate initlen NUL \<and> sh_free s = 0)"
proof -
  have size: "to_size (int sizeof_sdshdr + int initlen + 1) = Suc initlen + sizeof_sdshdr"
    using assms by (simp add: sizeof_sdshdr_def nat_add_distrib)
  let ?z = "replicate initlen NUL"
  have "mem_write (replicate (Suc initlen) NUL) (int initlen) [NUL] = Ok (?z @ [NUL])"
    by (simp add: cres_simps del: replicate_Suc)
  then show ?thesis
    using assms sds_wfI [of "\<lparr>sh_len = int initlen, sh_free = 0, sh_buf = ?z @ [NUL]\<rparr>" ?z "[]"]
    by (auto simp: sdsnewlen_def size Let_def alloc_ok_def simp del: replicate_Suc)
qed

lemma sdsempty_spec:
  "returns (alloc_ok e) (sdsempty e) (\<lambda>s. sds_wf s \<and> sds_content s = [] \<and> sh_free s = 0)"
  using sdsnewlen_spec [of 0 "cstr ''''" e] by (simp add: sdsempty_def)

text \<open>
  Growing only looks at the counters and the size of the block, not at the terminator: the
  lemma holds in the middle of a formatted write too.
\<close>

definition sds_shape :: "sdshdr \<Rightarrow> bool" where
  "sds_shape s \<longleftrightarrow>
     0 \<le> sh_len s \<and> 0 \<le> sh_free s \<and> sh_len s + sh_free s \<le> 2147483647 \<and>
     length (sh_buf s) = Suc (nat (sh_len s + sh_free s))"

lemma sds_wf_shape: "sds_wf s \<longleftrightarrow> sds_shape s \<and> sh_buf s ! nat (sh_len s) = NUL"
  by (auto simp: sds_wf_def sds_shape_def)

lemma sdsMakeRoomFor_shape:
  assumes "sds_shape s" "sds_fits (nat (sh_len s) + addlen)"
  shows "returns (alloc_ok e) (sdsMakeRoomFor e s addlen)
           (\<lambda>s'. sds_shape s' \<and> sh_len s' = sh_len s \<and> int addlen \<le> sh_free s' \<and>
                 take (Suc (nat (sh_len s))) (sh_buf s') = take (Suc (nat (sh_len s))) (sh_buf s))"
proof (cases "addlen \<le> sdsavail s")
  case True
  then show ?thesis
    using assms by (auto simp: sdsMakeRoomFor_def sdsavail_def sds_shape_def)
next
  case False
  let ?l = "sdslen s"
  have l: "?l = nat (sh_len s)" "?l < length (sh_buf s)" "int ?l = sh_len s"
    using assms(1) by (auto simp: sdslen_def sds_shape_def)
  define newlen where "newlen = (if ?l + addlen < SDS_MAX_PREALLOC then (?l + addlen) * 2
                                 else ?l + addlen + SDS_MAX_PREALLOC)"
  have bnd: "newlen \<le> 2147483647" "?l + addlen \<le> newlen"
    using assms(2) l by (auto simp: newlen_def sds_fits_def SDS_MAX_PREALLOC_def)
  have n0: "to_size (int ?l + int addlen) = ?l + addlen"
    using bnd by (subst to_size_id) auto
  have nl: "(if ?l + addlen < SDS_MAX_PREALLOC then to_size (int (?l + addlen) * 2)
             else to_size (int (?l + addlen) + int SDS_MAX_PREALLOC)) = newlen"
    using bnd by (auto simp: newlen_def nat_mult_distrib nat_add_distrib to_size_def)
  have sz: "to_size (int sizeof_sdshdr + int newlen + 1) = newlen + 1 + sizeof_sdshdr"
    using bnd by (subst to_size_id) (auto simp: sizeof_sdshdr_def nat_add_distrib)
  define s' where "s' = s\<lparr>sh_buf := realloc_bytes e (sh_buf s) (newlen + 1),
                         sh_free := int newlen - int ?l\<rparr>"
  have "sdsMakeRoomFor e s addlen =
      (if can_alloc e (newlen + 1 + sizeof_sdshdr) then Ok s' else Null)"
    using False bnd unfolding sdsMakeRoomFor_def Let_def n0 nl sz by (simp add: s'_def)
  moreover have "sds_shape s'" "sh_len s' = sh_len s" "int addlen \<le> sh_free s'"
    "take (Suc (nat (sh_len s))) (sh_buf s') = take (Suc (nat (sh_len s))) (sh_buf s)"
    using assms(1) bnd l(1,2) by (auto simp: s'_def sds_shape_def take_realloc_bytes)
  ultimately show ?thesis
    by (auto simp: alloc_ok_def)
qed

lemma sdsMakeRoomFor_spec:
  assumes "sds_wf s" "sds_fits (sdslen s + addlen)"
  shows "returns (alloc_ok e) (sdsMakeRoomFor e s addlen)
           (\<lambda>s'. sds_wf s' \<and> sds_content s' = sds_content s \<and> sh_len s' = sh_len s \<and>
                 int addlen \<le> sh_free s')"
proof -
  have sh: "sds_shape s" "sh_buf s ! nat (sh_len s) = NUL" "sds_fits (nat (sh_len s) + addlen)"
    using assms by (simp_all add: sds_wf_shape sdslen_wf)
  have "sds_wf s' \<and> sds_content s' = sds_content s"
    if "sds_shape s'" "sh_len s' = sh_len s"
      "take (Suc (nat (sh_len s))) (sh_buf s') = take (Suc (nat (sh_len s))) (sh_buf s)" for s'
    using that(1,2) sh(2) take_Suc_eqD [OF that(3)] by (simp add: sds_wf_shape sds_content_def)
  then show ?thesis
    by (intro returns_weaken [OF sdsMakeRoomFor_shape [OF sh(1,3)]]) auto
qed

lemma sdscatlen_spec:
  assumes "sds_wf s" "n \<le> length t" "sds_fits (sdslen s + n)"
  shows "returns (alloc_ok e) (sdscatlen e s t n)
           (\<lambda>s'. sds_wf s' \<and> sds_content s' = sds_content s @ take n t)"
  unfolding sdscatlen_def Let_def
proof (rule returns_bind [OF sdsMakeRoomFor_spec [OF assms(1,3)]])
  fix s1
  assume "sds_wf s1 \<and> sds_content s1 = sds_content s \<and> sh_len s1 = sh_len s \<and> int n \<le> sh_free s1"
  then have w: "sds_wf s1" and c: "sds_content s1 = sds_content s"
    and l: "sh_len s1 = sh_len s" and f: "int n \<le> sh_free s1" by auto
  obtain rest where b: "sh_buf s1 = sds_content s @ NUL # rest" and r: "length rest = nat (sh_free s1)"
    using sds_buf_decomp [OF w] c by auto
  have sl: "sdslen s = length (sds_content s)" "sh_len s1 = int (length (sds_content s))"
    using assms(1) w l sds_wfD(1) by (auto simp: sds_simps)
  let ?d = "take n t"
  have m1: "mem_write (sh_buf s1) (int (sdslen s)) ?d
      = Ok (sds_content s @ ?d @ drop n (NUL # rest))"
    using f r assms(2) by (simp add: b sl cres_simps)
  have m2: "mem_write (sds_content s @ ?d @ drop n (NUL # rest)) (int (sdslen s) + int n) [NUL]
      = Ok (sds_content s @ ?d @ NUL # drop n rest)"
    using f r assms(2) by (simp add: sl cres_simps nat_add_distrib)
  have tot: "int (length (sds_content s)) + sh_free s1 \<le> 2147483647"
    using sds_wfD [OF w] sl by simp
  show "returns (alloc_ok e)
     (cbind (mem_slice t 0 n) (\<lambda>d. cbind (mem_write (sh_buf s1) (int (sdslen s)) d)
       (\<lambda>m. cbind (mem_write m (int (sdslen s) + int n) [NUL])
         (\<lambda>m'. Ok \<lparr>sh_len = to_i32 (int (sdslen s) + int n),
                   sh_free = to_i32 (sh_free s1 - int n), sh_buf = m'\<rparr>))))
     (\<lambda>s'. sds_wf s' \<and> sds_content s' = sds_content s @ take n t)"
    using assms(2) f r tot m1 m2
      sds_wfI [of "\<lparr>sh_len = int (sdslen s) + int n, sh_free = sh_free s1 - int n,
                   sh_buf = sds_content s @ ?d @ NUL # drop n rest\<rparr>"
                  "sds_content s @ ?d" "drop n rest"]
    by (simp add: cres_simps sl)
qed

lemma sdsnew_spec:
  assumes "NUL \<notin> set t" "length t \<le> 2147483647"
  shows "returns (alloc_ok e) (sdsnew e (Some (cstr t))) (\<lambda>s. sds_wf s \<and> sds_content s = t)"
  using sdsnewlen_spec [of "length t" "cstr t" e] assms
  by (auto simp: sdsnew_def cres_simps elim: returns_weaken)

lemma sds_content_prefix: "sds_wf s \<Longrightarrow> take (sdslen s) (sh_buf s) = sds_content s"
  by (simp add: sds_simps sds_content_def)

lemma sdslen_le_buf: "sds_wf s \<Longrightarrow> sdslen s < length (sh_buf s)"
  by (auto simp: sds_simps sds_wf_def)

lemma sdsdup_spec:
  assumes "sds_wf s"
  shows "returns (alloc_ok e) (sdsdup e s)
           (\<lambda>s'. sds_wf s' \<and> sds_content s' = sds_content s \<and> sh_free s' = 0)"
proof -
  have "sdslen s \<le> length (sh_buf s)" "sdslen s \<le> 2147483647"
    using sdslen_le_buf [OF assms] assms by (auto simp: sds_simps sds_wf_def)
  then show ?thesis
    using sdsnewlen_spec [of "sdslen s" "sh_buf s" e] assms
    by (simp add: sdsdup_def sds_content_prefix)
qed

lemma sdscat_spec:
  assumes "sds_wf s" "NUL \<notin> set t" "sds_fits (sdslen s + length t)"
  shows "returns (alloc_ok e) (sdscat e s (cstr t))
           (\<lambda>s'. sds_wf s' \<and> sds_content s' = sds_content s @ t)"
  using sdscatlen_spec [of s "length t" "cstr t" e] assms by (simp add: sdscat_def cres_simps)

lemma sdscatsds_spec:
  assumes "sds_wf s" "sds_wf t" "sds_fits (sdslen s + sdslen t)"
  shows "returns (alloc_ok e) (sdscatsds e s t)
           (\<lambda>s'. sds_wf s' \<and> sds_content s' = sds_content s @ sds_content t)"
  using sdscatlen_spec [of s "sdslen t" "sh_buf t" e] assms sdslen_le_buf [of t]
  by (simp add: sdscatsds_def sds_content_prefix)

lemma sdsclear_spec:
  assumes "sds_wf s"
  shows "\<exists>s'. sdsclear s = Ok s' \<and> sds_wf s' \<and> sds_content s' = [] \<and>
              sh_len s' + sh_free s' = sh_len s + sh_free s"
proof -
  have "mem_write (sh_buf s) 0 [NUL] = Ok (NUL # tl (sh_buf s))"
    using sds_wfD(4) [OF assms] by (simp add: cres_simps drop_Suc)
  then show ?thesis
    using sds_wfD [OF assms]
      sds_wfI [of "\<lparr>sh_len = 0, sh_free = sh_free s + sh_len s, sh_buf = NUL # tl (sh_buf s)\<rparr>"
                  "[]" "tl (sh_buf s)"]
    by (auto simp: sdsclear_def add.commute)
qed

lemma sdsupdatelen_spec:
  assumes "sds_wf s"
  shows "\<exists>s'. sdsupdatelen s = Ok s' \<and> sds_wf s' \<and>
              sds_content s' = takeWhile (\<lambda>c. c \<noteq> NUL) (sds_content s)"
proof -
  obtain rest where b: "sh_buf s = sds_content s @ NUL # rest" and r: "length rest = nat (sh_free s)"
    using sds_buf_decomp [OF assms] by blast
  let ?t = "takeWhile (\<lambda>c. c \<noteq> NUL) (sds_content s)"
  have sp: "takeWhile (\<lambda>c. c \<noteq> NUL) (sh_buf s) = ?t"
    unfolding b by (rule takeWhile_tail) simp
  let ?D = "dropWhile (\<lambda>c. c \<noteq> NUL) (sh_buf s)"
  have "?D \<noteq> []" using b by (simp add: dropWhile_eq_Nil_conv)
  with hd_dropWhile [of "\<lambda>c. c \<noteq> NUL" "sh_buf s"] obtain rest' where "?D = NUL # rest'"
    by (cases ?D) auto
  then have b': "sh_buf s = ?t @ NUL # rest'"
    using takeWhile_dropWhile_id [of "\<lambda>c. c \<noteq> NUL" "sh_buf s"] sp by simp
  have len: "int (length ?t) + int (length rest') = sh_len s + sh_free s"
    using arg_cong [OF b', of length] sds_wfD [OF assms] by simp
  have st: "c_strlen (sh_buf s) = Ok (length ?t)"
    by (simp add: c_strlen_def sp) (simp add: b)
  let ?s = "s\<lparr>sh_free := int (length rest'), sh_len := int (length ?t)\<rparr>"
  have "sh_free s + (sh_len s - int (length ?t)) = int (length rest')" using len by simp
  then have "sdsupdatelen s = Ok ?s"
    using len sds_wfD(3) [OF assms] by (simp add: sdsupdatelen_def st Let_def)
  then show ?thesis
    using len b' sds_wfD(3) [OF assms] sds_wfI [of ?s ?t rest'] by simp
qed

lemma sdsIncrLen_spec:
  assumes "sds_wf s" "- sh_len s \<le> incr" "incr \<le> sh_free s"
  shows "\<exists>s'. sdsIncrLen s incr = Ok s' \<and> sds_wf s' \<and> sh_len s' = sh_len s + incr \<and>
              sh_free s' = sh_free s - incr \<and>
              sds_content s' = take (nat (sh_len s + incr)) (sh_buf s)"
proof -
  note w = sds_wfD [OF assms(1)]
  let ?n = "nat (sh_len s + incr)"
  have n: "0 \<le> sh_len s + incr" "?n < length (sh_buf s)"
    using assms w by auto
  have "mem_write (sh_buf s) (sh_len s + incr) [NUL]
      = Ok (take ?n (sh_buf s) @ NUL # drop (Suc ?n) (sh_buf s))"
    using n by (simp add: cres_simps)
  then show ?thesis
    using assms w n sds_wfI [of "\<lparr>sh_len = int ?n, sh_free = sh_free s - incr,
        sh_buf = take ?n (sh_buf s) @ NUL # drop (Suc ?n) (sh_buf s)\<rparr>"
        "take ?n (sh_buf s)" "drop (Suc ?n) (sh_buf s)"]
    by (auto simp: sdsIncrLen_def Let_def)
qed

lemma sdsgrowzero_spec:
  assumes "sds_wf s" "sds_fits n"
  shows "returns (alloc_ok e) (sdsgrowzero e s n)
           (\<lambda>s'. sds_wf s' \<and>
                 sds_content s' = sds_content s @ replicate (n - length (sds_content s)) NUL)"
proof (cases "n \<le> sdslen s")
  case True
  then show ?thesis
    using assms by (simp add: sdsgrowzero_def sds_simps sdslen_def [symmetric] Let_def)
next
  case False
  have "sds_fits (sdslen s + (n - sdslen s))" using False assms(2) by simp
  note mr = sdsMakeRoomFor_spec [OF assms(1) this]
  have e: "sdsgrowzero e s n = cbind (sdsMakeRoomFor e s (n - sdslen s))
             (\<lambda>s'. cbind (mem_write (sh_buf s') (int (sdslen s)) (replicate (n - sdslen s + 1) NUL))
               (\<lambda>m. Ok \<lparr>sh_len = to_i32 (int n),
                        sh_free = to_i32 (int (to_size (sh_len s' + sh_free s')) - to_i32 (int n)),
                        sh_buf = m\<rparr>))"
    using False by (simp add: sdsgrowzero_def sdslen_def [symmetric] Let_def)
  show ?thesis unfolding e
  proof (rule returns_bind [OF mr])
    fix s1
    assume a: "sds_wf s1 \<and> sds_content s1 = sds_content s \<and> sh_len s1 = sh_len s \<and>
               int (n - sdslen s) \<le> sh_free s1"
    then obtain rest where b: "sh_buf s1 = sds_content s @ NUL # rest"
        and r: "length rest = nat (sh_free s1)"
      using sds_buf_decomp [of s1] by auto
    let ?k = "n - sdslen s"
    have f: "int ?k \<le> sh_free s1" using a by simp
    have sl: "sdslen s = length (sds_content s)" "sh_len s1 = int (length (sds_content s))"
      using assms(1) a sds_wfD(1) by (auto simp: sds_simps)
    have z: "replicate (?k + 1) NUL = replicate ?k NUL @ [NUL]"
      by (simp add: replicate_append_same)
    have m: "mem_write (sh_buf s1) (int (sdslen s)) (replicate (?k + 1) NUL)
        = Ok ((sds_content s @ replicate ?k NUL) @ NUL # drop ?k rest)"
      using f r unfolding b z sl by (simp add: cres_simps replicate_append_same)
    have tot: "sh_len s1 + sh_free s1 \<le> 2147483647" "int n \<le> 2147483647"
      using a sds_wfD(3) [of s1] assms(2) by (auto simp: sds_fits_def)
    show "returns (alloc_ok e) (cbind (mem_write (sh_buf s1) (int (sdslen s)) (replicate (?k + 1) NUL))
               (\<lambda>m. Ok \<lparr>sh_len = to_i32 (int n),
                        sh_free = to_i32 (int (to_size (sh_len s1 + sh_free s1)) - to_i32 (int n)),
                        sh_buf = m\<rparr>))
             (\<lambda>s'. sds_wf s' \<and>
                 sds_content s' = sds_content s @ replicate (n - length (sds_content s)) NUL)"
      unfolding m
      using tot False a r sl
        sds_wfI [of "\<lparr>sh_len = int n, sh_free = sh_len s1 + sh_free s1 - int n,
            sh_buf = (sds_content s @ replicate ?k NUL) @ NUL # drop ?k rest\<rparr>"
            "sds_content s @ replicate ?k NUL" "drop ?k rest"]
      by (auto simp: add.commute)
  qed
qed

lemma sdscpylen_copy:
  assumes w: "sds_wf s" and t: "n \<le> length t" and room: "int n \<le> sh_len s + sh_free s"
  shows "\<exists>m m'. mem_slice t 0 n = Ok (take n t) \<and> mem_write (sh_buf s) 0 (take n t) = Ok m \<and>
     mem_write m (int n) [NUL] = Ok m' \<and>
     (\<lambda>s'. sds_wf s' \<and> sds_content s' = take n t)
       \<lparr>sh_len = int n, sh_free = sh_len s + sh_free s - int n, sh_buf = m'\<rparr>"
proof -
  note w = sds_wfD [OF w]
  let ?d = "take n t" let ?b = "sh_buf s"
  have "mem_write ?b 0 ?d = Ok (?d @ drop n ?b)"
    using t w room by (simp add: cres_simps min_def)
  moreover have "mem_write (?d @ drop n ?b) (int n) [NUL] = Ok (?d @ NUL # drop (Suc n) ?b)"
    using t w room by (simp add: cres_simps min_def)
  moreover have "sds_wf s' \<and> sds_content s' = ?d"
    if "s' = \<lparr>sh_len = int n, sh_free = sh_len s + sh_free s - int n, sh_buf = ?d @ NUL # drop (Suc n) ?b\<rparr>"
    for s'
    using t w room that sds_wfI [of s' ?d "drop (Suc n) ?b"] by auto
  ultimately show ?thesis using t by (simp add: cres_simps)
qed

lemma sdscpylen_spec:
  assumes "sds_wf s" "n \<le> length t" "sds_fits n"
  shows "returns (alloc_ok e) (sdscpylen e s t n) (\<lambda>s'. sds_wf s' \<and> sds_content s' = take n t)"
proof -
  note w = sds_wfD [OF assms(1)]
  have tl: "to_size (sh_free s + sh_len s) = nat (sh_len s + sh_free s)"
    using w by (simp add: add.commute)
  have "returns (alloc_ok e)
      (if nat (sh_len s + sh_free s) < n
       then cbind (sdsMakeRoomFor e s (to_size (int n - sh_len s)))
              (\<lambda>s. Ok (s, to_size (sh_free s + sh_len s)))
       else Ok (s, nat (sh_len s + sh_free s)))
      (\<lambda>(s', totlen). sds_wf s' \<and> int totlen = sh_len s' + sh_free s' \<and> n \<le> totlen)"
  proof (cases "nat (sh_len s + sh_free s) < n")
    case True
    then have k: "to_size (int n - sh_len s) = n - sdslen s" "sdslen s + (n - sdslen s) = n"
      using w assms(3) by (auto simp: sds_simps assms(1) sds_fits_def nat_diff_distrib)
    have "sds_fits (sdslen s + (n - sdslen s))" using assms(3) k by simp
    note mr = sdsMakeRoomFor_spec [OF assms(1) this, of e]
    have "returns (alloc_ok e) (cbind (sdsMakeRoomFor e s (n - sdslen s))
              (\<lambda>s. Ok (s, to_size (sh_free s + sh_len s))))
            (\<lambda>(s', totlen). sds_wf s' \<and> int totlen = sh_len s' + sh_free s' \<and> n \<le> totlen)"
      by (rule returns_bind [OF mr]) (use True w k assms(1) in \<open>auto simp: sds_wf_def sds_simps\<close>)
    then show ?thesis using True k by simp
  next
    case False
    then show ?thesis using w assms(1) by simp
  qed
  then show ?thesis
    unfolding sdscpylen_def Let_def tl
  proof (rule returns_bind)
    fix x :: "sdshdr \<times> nat"
    assume x: "case x of (s', totlen) \<Rightarrow> sds_wf s' \<and> int totlen = sh_len s' + sh_free s' \<and> n \<le> totlen"
    then obtain s' totlen where x': "x = (s', totlen)" "sds_wf s'"
      "int totlen = sh_len s' + sh_free s'" "n \<le> totlen" by auto
    have "int n \<le> sh_len s' + sh_free s'" "int totlen \<le> 2147483647"
      using x' sds_wfD(3) by auto
    with sdscpylen_copy [OF x'(2) assms(2)] x'
    show "returns (alloc_ok e)
          (case x of (s, totlen) \<Rightarrow> cbind (mem_slice t 0 n)
            (\<lambda>d. cbind (mem_write (sh_buf s) 0 d)
              (\<lambda>m. cbind (mem_write m (int n) [NUL])
                (\<lambda>m'. Ok \<lparr>sh_len = to_i32 (int n),
                        sh_free = to_i32 (int totlen - int n), sh_buf = m'\<rparr>))))
          (\<lambda>s'. sds_wf s' \<and> sds_content s' = take n t)"
      by auto
  qed
qed

lemma sdsRemoveFreeSpace_spec:
  assumes "sds_wf s" "alloc_ok e"
  shows "\<exists>s'. sdsRemoveFreeSpace e s = Ok s' \<and> sds_wf s' \<and>
              sds_content s' = sds_content s \<and> sh_free s' = 0"
proof -
  note w = sds_wfD [OF assms(1)]
  have size: "to_size (int sizeof_sdshdr + sh_len s + 1) = Suc (nat (sh_len s)) + sizeof_sdshdr"
    using w by (simp add: sizeof_sdshdr_def nat_add_distrib)
  let ?s = "s\<lparr>sh_buf := realloc_bytes e (sh_buf s) (Suc (nat (sh_len s))), sh_free := 0\<rparr>"
  have "sdsRemoveFreeSpace e s = Ok ?s"
    using assms(2) by (simp add: sdsRemoveFreeSpace_def size Let_def alloc_ok_def)
  moreover have "sds_wf ?s \<and> sds_content ?s = sds_content s"
    using w by (auto simp: sds_wf_def sds_content_def nth_realloc_bytes take_realloc_bytes nat_add_distrib)
  ultimately show ?thesis by auto
qed


section \<open>The string as a byte buffer\<close>

lemma sds_fits_mono: "sds_fits n \<Longrightarrow> m \<le> n \<Longrightarrow> sds_fits m"
  by (simp add: sds_fits_def)

interpretation sdsbuf: byte_buffer sds_wf sds_content sds_fits sdsempty sdscatlen
proof unfold_locales
  fix e
  show "returns (alloc_ok e) (sdsempty e) (\<lambda>b. sds_wf b \<and> sds_content b = [])"
    by (rule returns_weaken [OF sdsempty_spec]) auto
next
  fix b n e and t :: mem
  assume "sds_wf b" "n \<le> length t" "sds_fits (length (sds_content b) + n)"
  then show "returns (alloc_ok e) (sdscatlen e b t n) (\<lambda>b'. sds_wf b' \<and> sds_content b' = sds_content b @ take n t)"
    using sdscatlen_spec [of b n t e] by (simp add: sdslen_content)
qed (rule sds_fits_mono)

section \<open>Properties\<close>

text \<open>
  Appending pieces one by one to a well-formed string never reads or writes outside its
  block, gives a null pointer only when an allocation fails, and otherwise leaves a well-formed
  string that holds the old bytes followed by all the pieces in order, binary zeros included.
\<close>
theorem sdscatlen_pieces:
  assumes "sds_wf s" "sds_fits (length (sds_content s) + length (concat ts))"
  shows "returns (\<forall>k. alloc_ok (es k)) (cat_pieces sdscatlen es 0 s ts)
           (\<lambda>s'. sds_wf s' \<and> sds_content s' = sds_content s @ concat ts)"
  using assms by (rule sdsbuf.cat_pieces_concat)

definition sds_ab :: sdshdr where
  "sds_ab = \<lparr>sh_len = 2, sh_free = 1, sh_buf = ''ab'' @ [NUL, CHR ''x'']\<rparr>"

lemma sds_ab_ok [simp]: "sds_wf sds_ab" "sds_content sds_ab = ''ab''"
  by (simp_all add: sds_ab_def sds_wf_def sds_content_def)

theorem sdscatlen_pieces_witness:
  "returns True (cat_pieces sdscatlen (\<lambda>_. plenty) 0 sds_ab [''cd'', ''e''])
     (\<lambda>s'. sds_wf s' \<and> sds_content s' = ''abcde'')"
  using sdscatlen_pieces [of sds_ab "[''cd'', ''e'']" "\<lambda>_. plenty"]
  by (simp add: sds_fits_def SDS_MAX_PREALLOC_def)

text \<open>
  \<^verbatim>\<open>sdsIncrLen\<close> moves the length of a string inside its block, in both directions:
  for every increment between minus the length and the free space it keeps the invariant, moves
  the counters by exactly the increment and terminates the string there. Growing past the free
  space fails the assertion.
\<close>
theorem sdsIncrLen_moves_end:
  assumes "sds_wf s"
  shows "(- sh_len s \<le> incr \<longrightarrow> incr \<le> sh_free s \<longrightarrow>
            (\<exists>s'. sdsIncrLen s incr = Ok s' \<and> sds_wf s' \<and> sh_len s' = sh_len s + incr \<and>
                  sh_free s' = sh_free s - incr \<and> sds_content s' = take (nat (sh_len s + incr)) (sh_buf s))) \<and>
         (sh_free s < incr \<longrightarrow> sdsIncrLen s incr = Fault AssertFailed)"
  using sdsIncrLen_spec [OF assms, of incr] by (auto simp: sdsIncrLen_def)

theorem sdsIncrLen_moves_end_witness:
  "(\<exists>s'. sdsIncrLen sds_ab (- 1) = Ok s' \<and> sds_wf s' \<and> sds_content s' = ''a'') \<and>
   sdsIncrLen sds_ab 2 = Fault AssertFailed"
  using sdsIncrLen_moves_end [OF sds_ab_ok(1), of "- 1"] sdsIncrLen_moves_end [OF sds_ab_ok(1), of 2]
  by (auto simp: sds_ab_def)

end
