(* ===== verification/Sds_Text.thy ===== *)
theory Sds_Text
  imports Sds
begin

text \<open>
  The text operations of \<^verbatim>\<open>src/win/hiredis/sds.c\<close>: decimal conversion
  (\<^verbatim>\<open>sdsll2str\<close>, \<^verbatim>\<open>sdsull2str\<close>, \<^verbatim>\<open>sdsfromlonglong\<close>), formatted
  concatenation (\<^verbatim>\<open>sdscatvprintf\<close>, \<^verbatim>\<open>sdscatfmt\<close>), trimming, slicing, case
  mapping, comparison, character substitution and joining. Each is compared with a reference
  function on plain strings: the decimal numeral, \<open>dropWhile\<close> at both ends, a slice,
  \<open>map\<close>, the lexicographic order, the separated concatenation.
\<close>

section \<open>Decimal numerals\<close>

text \<open>The code: the digits are produced in reverse, and the string is reversed in place.\<close>

fun ll2str_digits :: "nat \<Rightarrow> string" where
  "ll2str_digits v = digit_char (v mod 10) # (if v div 10 = 0 then [] else ll2str_digits (v div 10))"

declare ll2str_digits.simps [simp del]

function swap_ends :: "mem \<Rightarrow> nat \<Rightarrow> nat \<Rightarrow> mem" where
  "swap_ends m s p = (if s < p then swap_ends (m[s := m ! p, p := m ! s]) (Suc s) (p - 1) else m)"
  by pat_completeness auto
termination
  by (relation "measure (\<lambda>(m, s, p). p - s)") auto

declare swap_ends.simps [simp del]

definition SDS_LLSTR_SIZE :: nat where
  "SDS_LLSTR_SIZE = 21"

definition sdsll2str :: "mem \<Rightarrow> int \<Rightarrow> (mem \<times> nat) cres" where
  "sdsll2str s value =
     (let v = to_size (if value < 0 then - value else value);
          p = ll2str_digits v @ (if value < 0 then ''-'' else []);
          l = length p
      in cbind (mem_write s 0 (p @ [NUL])) (\<lambda>m. Ok (swap_ends m 0 (l - 1), l)))"

definition sdsull2str :: "mem \<Rightarrow> nat \<Rightarrow> (mem \<times> nat) cres" where
  "sdsull2str s v =
     (let p = ll2str_digits v; l = length p
      in cbind (mem_write s 0 (p @ [NUL])) (\<lambda>m. Ok (swap_ends m 0 (l - 1), l)))"

text \<open>
  \<^verbatim>\<open>sdsfromlonglong\<close> fills a 32-byte buffer from its end: the bytes it hands on are the
  last \<^verbatim>\<open>32-(p-buf)\<close> of the buffer.
\<close>

definition sdsfromlonglong :: "env \<Rightarrow> int \<Rightarrow> sdshdr cres" where
  "sdsfromlonglong e value =
     (let v = to_size (if value < 0 then - value else value);
          d = rev (ll2str_digits v @ (if value < 0 then ''-'' else []));
          p = 32 - int (length d)
      in cbind (mem_write (fresh e 32) p d)
           (\<lambda>b. cbind (mem_slice b p (nat (32 - p)))
             (\<lambda>t. sdsnewlen e (Some t) (nat (32 - p)))))"

subsection \<open>The numerals are right\<close>

lemma ll2str_digits_rev: "rev (ll2str_digits v) = dec_nat v"
proof (induction v rule: ll2str_digits.induct)
  case (1 v)
  show ?case
  proof (cases "v < 10")
    case True
    then show ?thesis by (simp add: ll2str_digits.simps [of v] dec_nat.simps [of v])
  next
    case False
    then have "v div 10 \<noteq> 0" by auto
    then show ?thesis
      using False 1 by (simp add: ll2str_digits.simps [of v] dec_nat.simps [of v])
  qed
qed

lemma length_ll2str_digits_pos: "0 < length (ll2str_digits v)"
  by (subst ll2str_digits.simps) simp

lemma length_ll2str_digits: "v < 10 ^ k \<Longrightarrow> 0 < k \<Longrightarrow> length (ll2str_digits v) \<le> k"
proof (induction v arbitrary: k rule: ll2str_digits.induct)
  case (1 v)
  show ?case
  proof (cases "v div 10 = 0")
    case True
    then show ?thesis using 1 by (subst ll2str_digits.simps) auto
  next
    case False
    then have k: "k \<noteq> 1" using "1.prems" by auto
    then obtain j where j: "k = Suc j" "0 < j" using "1.prems"(2) by (cases k) auto
    then have "v div 10 < 10 ^ j" using "1.prems"(1) by (simp add: less_mult_imp_div_less mult.commute)
    with 1 False j show ?thesis by (subst ll2str_digits.simps) auto
  qed
qed

lemma length_dec_nat: "length (dec_nat v) = length (ll2str_digits v)"
  by (metis length_rev ll2str_digits_rev)

lemma swap_ends_length [simp]: "length (swap_ends m s p) = length m"
  by (induction m s p rule: swap_ends.induct) (subst swap_ends.simps, simp)

lemma swap_ends_rev:
  "length b = Suc p - s \<Longrightarrow> s \<le> Suc p \<Longrightarrow> length a = s \<Longrightarrow> swap_ends (a @ b @ c) s p = a @ rev b @ c"
proof (induction "length b" arbitrary: a b c s p rule: less_induct)
  case less
  show ?case
  proof (cases "s < p")
    case False
    then have "length b \<le> 1" using less.prems by auto
    then have "rev b = b" by (cases b) auto
    then show ?thesis using False by (simp add: swap_ends.simps [of _ s p])
  next
    case True
    with less.prems(1) obtain x b1 where b1: "b = x # b1" by (cases b) auto
    moreover have "b1 \<noteq> []" using b1 True less.prems(1) by auto
    ultimately obtain b2 y where b2: "b1 = b2 @ [y]" by (cases b1 rule: rev_cases) auto
    have p: "p = Suc (length a + length b2)" using less.prems b1 b2 True by auto
    have sw: "(a @ b @ c)[s := (a @ b @ c) ! p, p := (a @ b @ c) ! s] = (a @ [y]) @ b2 @ [x] @ c"
      using less.prems(3) by (simp add: b1 b2 p list_update_append nth_append)
    have "swap_ends ((a @ [y]) @ b2 @ [x] @ c) (Suc s) (p - 1) = (a @ [y]) @ rev b2 @ [x] @ c"
      by (rule less.hyps) (use less.prems b1 b2 p in auto)
    then show ?thesis using True sw by (subst swap_ends.simps) (simp add: b1 b2)
  qed
qed

lemma swap_ends_0: "b \<noteq> [] \<Longrightarrow> swap_ends (b @ c) 0 (length b - Suc 0) = rev b @ c"
  using swap_ends_rev [of b "length b - 1" 0 "[]" c] by (cases b) auto

lemma write_swapped:
  assumes "length p < length s" "p \<noteq> []"
  shows "\<exists>m. cbind (mem_write s 0 (p @ [NUL])) (\<lambda>m. Ok (swap_ends m 0 (length p - 1), length p))
             = Ok (m, length p) \<and> take (Suc (length p)) m = rev p @ [NUL] \<and> length m = length s"
proof -
  have "mem_write s 0 (p @ [NUL]) = Ok (p @ NUL # drop (Suc (length p)) s)"
    using assms by (simp add: cres_simps)
  then show ?thesis using assms by (auto simp: swap_ends_0)
qed

lemma sdsll2str_spec:
  assumes "- 9223372036854775808 \<le> v" "v \<le> 9223372036854775807" "SDS_LLSTR_SIZE \<le> length s"
  shows "\<exists>m. sdsll2str s v = Ok (m, length (dec_int v)) \<and>
             take (Suc (length (dec_int v))) m = dec_int v @ [NUL] \<and> length m = length s"
proof -
  let ?v = "to_size (if v < 0 then - v else v)"
  let ?p = "ll2str_digits ?v @ (if v < 0 then ''-'' else [])"
  have v: "?v = nat (if v < 0 then - v else v)" using assms(1,2) by (simp add: to_size_def)
  have "nat (if v < 0 then - v else v) < 10 ^ 19" using assms(1,2) by (simp add: nat_less_iff)
  then have "length (ll2str_digits ?v) \<le> 19" unfolding v by (rule length_ll2str_digits) simp
  then have "length ?p < length s" "?p \<noteq> []"
    using assms(3) length_ll2str_digits_pos [of ?v] by (auto simp: SDS_LLSTR_SIZE_def)
  moreover have r: "rev ?p = dec_int v"
    by (simp add: ll2str_digits_rev v dec_int_def)
  moreover have "length ?p = length (dec_int v)" using r by (metis length_rev)
  ultimately show ?thesis
    using write_swapped [of ?p s] unfolding sdsll2str_def Let_def by metis
qed

lemma sdsull2str_spec:
  assumes "v < 18446744073709551616" "SDS_LLSTR_SIZE \<le> length s"
  shows "\<exists>m. sdsull2str s v = Ok (m, length (dec_nat v)) \<and>
             take (Suc (length (dec_nat v))) m = dec_nat v @ [NUL] \<and> length m = length s"
proof -
  have "length (ll2str_digits v) \<le> 20" by (rule length_ll2str_digits) (use assms in auto)
  then have "length (ll2str_digits v) < length s" "ll2str_digits v \<noteq> []"
    using assms(2) length_ll2str_digits_pos [of v] by (auto simp: SDS_LLSTR_SIZE_def)
  then show ?thesis
    using write_swapped [of "ll2str_digits v" s]
    unfolding sdsull2str_def Let_def by (simp add: ll2str_digits_rev length_dec_nat)
qed

lemma sdsfromlonglong_spec:
  assumes "- 9223372036854775808 \<le> v" "v \<le> 9223372036854775807"
  shows "returns (alloc_ok e) (sdsfromlonglong e v) (\<lambda>s. sds_wf s \<and> sds_content s = dec_int v)"
proof -
  let ?v = "to_size (if v < 0 then - v else v)"
  have v: "?v = nat (if v < 0 then - v else v)" using assms(1,2) by (simp add: to_size_def)
  have d: "rev (ll2str_digits ?v @ (if v < 0 then ''-'' else [])) = dec_int v"
    by (simp add: ll2str_digits_rev v dec_int_def)
  have "nat (if v < 0 then - v else v) < 10 ^ 19" using assms(1,2) by (simp add: nat_less_iff)
  then have "length (ll2str_digits ?v) \<le> 19" unfolding v by (rule length_ll2str_digits) simp
  then have l: "length (dec_int v) \<le> 20" using arg_cong [OF d, of length] by (auto split: if_splits)
  have w: "mem_write (fresh e 32) (32 - int (length (dec_int v))) (dec_int v)
      = Ok (take (nat (32 - int (length (dec_int v)))) (fresh e 32) @ dec_int v)"
    using l by (simp add: cres_simps nat_diff_distrib)
  show ?thesis
    using l sdsnewlen_spec [of "length (dec_int v)" "dec_int v" e]
    unfolding sdsfromlonglong_def Let_def d w
    by (simp add: cres_simps min_def nat_diff_distrib) (auto elim: returns_weaken)
qed

section \<open>Formatted concatenation\<close>

text \<open>
  \<^verbatim>\<open>out\<close> is what the format and its arguments print to; \<^verbatim>\<open>vsnprintf\<close> stores as
  much of it as fits and a terminator. The environments \<^verbatim>\<open>es\<close> are those of the successive
  allocations.
\<close>

text \<open>The test on the byte before the last makes progress: the buffer was too small.\<close>

lemma sdscatvprintf_progress:
  assumes w: "mem_write f (int buflen - 2) [NUL] = Ok b" and f: "length f = buflen"
    and w': "mem_write b 0 (take (buflen - 1) out @ [NUL]) = Ok b'"
    and r: "mem_read b' (int buflen - 2) = Ok c" and c: "c \<noteq> NUL"
  shows "2 \<le> buflen \<and> buflen - 2 < length out"
proof
  show two: "2 \<le> buflen"
    using w by (auto simp: mem_write_def split: if_splits)
  have lb: "length b = buflen" "length b' = buflen"
    using mem_write_length [OF w] mem_write_length [OF w'] f by auto
  have n: "nat (int buflen - 2) = buflen - 2" by simp
  have bn: "b ! (buflen - 2) = NUL"
    using w two f by (auto simp: mem_write_def n nth_append split: if_splits)
  have b': "b' = take (buflen - 1) out @ NUL # drop (Suc (length (take (buflen - 1) out))) b"
    using w' lb two by (auto simp: mem_write_def split: if_splits)
  have cc: "c = b' ! (buflen - 2)"
    using r two lb by (auto simp: mem_read_def n split: if_splits)
  show "buflen - 2 < length out"
  proof (rule ccontr)
    assume "\<not> buflen - 2 < length out"
    then have o: "length out \<le> buflen - 2" "take (buflen - 1) out = out" by auto
    have "b' ! (buflen - 2) = NUL"
    proof (cases "length out = buflen - 2")
      case True
      then show ?thesis using o by (simp add: b' nth_append)
    next
      case False
      then have "Suc (length out) \<le> buflen - 2" "Suc (buflen - 3) = buflen - 2" using o by auto
      then show ?thesis using o bn lb by (simp add: b' nth_append nth_Cons')
    qed
    then show False using c cc by simp
  qed
qed

function sdscatvprintf_loop :: "(nat \<Rightarrow> env) \<Rightarrow> string \<Rightarrow> nat \<Rightarrow> nat \<Rightarrow> mem cres" where
  "sdscatvprintf_loop es out k buflen =
     (if \<not> can_alloc (es k) buflen then Null
      else cbind (mem_write (fresh (es k) buflen) (int buflen - 2) [NUL])
        (\<lambda>b. cbind (mem_write b 0 (take (buflen - 1) out @ [NUL]))
          (\<lambda>b. cbind (mem_read b (int buflen - 2))
            (\<lambda>c. if c \<noteq> NUL then sdscatvprintf_loop es out (Suc k) (buflen * 2) else Ok b))))"
  by pat_completeness auto
termination
proof (relation "measure (\<lambda>(es, out, k, buflen). length out + 2 - buflen)", goal_cases)
  case (2 es out k buflen b b' c)
  then show ?case using sdscatvprintf_progress [of _ buflen b out b' c] by fastforce
qed simp

declare sdscatvprintf_loop.simps [simp del]

definition sdscatvprintf :: "(nat \<Rightarrow> env) \<Rightarrow> env \<Rightarrow> sdshdr \<Rightarrow> string \<Rightarrow> sdshdr cres" where
  "sdscatvprintf es e s out =
     cbind (sdscatvprintf_loop es out 0 16) (\<lambda>b. sdscat e s b)"

lemma sdscatvprintf_loop_spec:
  "NUL \<notin> set out \<Longrightarrow> 2 \<le> buflen \<Longrightarrow>
    returns (\<forall>k. alloc_ok (es k)) (sdscatvprintf_loop es out k buflen)
      (\<lambda>b. \<exists>rest. b = out @ NUL # rest)"
proof (induction es out k buflen rule: sdscatvprintf_loop.induct)
  case (1 es out k buflen)
  have n: "nat (int buflen - 2) = buflen - 2" by simp
  define b where "b = take (buflen - 2) (fresh (es k) buflen) @ [NUL]
      @ drop (Suc (buflen - 2)) (fresh (es k) buflen)"
  have w: "mem_write (fresh (es k) buflen) (int buflen - 2) [NUL] = Ok b"
    using 1(3) by (simp add: cres_simps n b_def)
  have lb: "length b = buflen" using mem_write_length [OF w] by simp
  let ?o = "take (buflen - 1) out"
  define b' where "b' = ?o @ NUL # drop (Suc (length ?o)) b"
  have w': "mem_write b 0 (?o @ [NUL]) = Ok b'"
    using 1(3) lb by (simp add: cres_simps b'_def)
  have lb': "length b' = buflen" using mem_write_length [OF w'] lb by simp
  have r: "mem_read b' (int buflen - 2) = Ok (b' ! (buflen - 2))"
    using 1(3) lb' by (simp add: cres_simps n)
  have eq: "sdscatvprintf_loop es out k buflen =
      (if \<not> can_alloc (es k) buflen then Null
       else if b' ! (buflen - 2) \<noteq> NUL then sdscatvprintf_loop es out (Suc k) (buflen * 2) else Ok b')"
    by (subst sdscatvprintf_loop.simps) (simp only: w w' r cbind.simps)
  show ?case
  proof (cases "b' ! (buflen - 2) = NUL")
    case True
    have "length out \<le> buflen - 2"
    proof (rule ccontr)
      assume "\<not> length out \<le> buflen - 2"
      moreover have "buflen - 2 < buflen - Suc 0" using 1(3) by simp
      ultimately have "b' ! (buflen - 2) = out ! (buflen - 2)" "buflen - 2 < length out"
        by (simp_all add: b'_def nth_append)
      then have "NUL = out ! (buflen - 2)" "out ! (buflen - 2) \<in> set out" using True by auto
      then show False using 1(2) by simp
    qed
    then have "b' = out @ NUL # drop (Suc (length out)) b" by (simp add: b'_def)
    then show ?thesis
      using True by (auto simp: eq alloc_ok_def)
  next
    case False
    have "returns (\<forall>k. alloc_ok (es k)) (sdscatvprintf_loop es out (Suc k) (buflen * 2))
       (\<lambda>b. \<exists>rest. b = out @ NUL # rest)" if "can_alloc (es k) buflen"
      by (rule 1(1) [OF _ w w' r]) (use that False 1(2,3) in auto)
    then show ?thesis
      using False by (auto simp: eq alloc_ok_def)
  qed
qed

lemma sdscatvprintf_spec:
  assumes "sds_wf s" "NUL \<notin> set out" "sds_fits (sdslen s + length out)"
  shows "returns (alloc_ok e \<and> (\<forall>k. alloc_ok (es k))) (sdscatvprintf es e s out)
           (\<lambda>s'. sds_wf s' \<and> sds_content s' = sds_content s @ out)"
  unfolding sdscatvprintf_def
proof (rule returns_bind [OF returns_weaken [OF sdscatvprintf_loop_spec [OF assms(2)]]])
  fix b assume "\<exists>rest. b = out @ NUL # rest"
  then obtain rest where b: "b = out @ NUL # rest" by blast
  have "c_strlen b = Ok (length out)"
    using assms(2) by (auto simp: c_strlen_def b takeWhile_append)
  then show "returns (alloc_ok e \<and> (\<forall>k. alloc_ok (es k))) (sdscat e s b)
      (\<lambda>s'. sds_wf s' \<and> sds_content s' = sds_content s @ out)"
    using returns_weaken [OF sdscatlen_spec [OF assms(1) _ assms(3), of b e]]
    by (simp add: sdscat_def b)
qed auto

subsection \<open>The printf replacement\<close>

datatype fmt_arg =
    FStr mem | FSds sdshdr | FInt int | FLongLong int | FUInt nat | FULongLong nat | FSizeT nat

text \<open>Storing \<^verbatim>\<open>l\<close> bytes at position \<^verbatim>\<open>i\<close>, the block every conversion ends with.\<close>

definition sdscatfmt_put :: "env \<Rightarrow> sdshdr \<Rightarrow> int \<Rightarrow> mem \<Rightarrow> (sdshdr \<times> int) cres" where
  "sdscatfmt_put e s i d =
     (let l = int (length d) in
      cbind (if sh_free s < l then cderef (sdsMakeRoomFor e s (length d)) Ok else Ok s)
        (\<lambda>s. cbind (mem_write (sh_buf s) i d)
          (\<lambda>m. Ok (s\<lparr>sh_buf := m, sh_len := to_i32 (sh_len s + l),
                      sh_free := to_i32 (sh_free s - l)\<rparr>, to_i32 (i + l)))))"

fun sdscatfmt_directive ::
    "env \<Rightarrow> char \<Rightarrow> fmt_arg list \<Rightarrow> sdshdr \<Rightarrow> int \<Rightarrow> (sdshdr \<times> int \<times> fmt_arg list) cres" where
  "sdscatfmt_directive e nxt args s i =
     (if nxt = CHR ''s'' \<or> nxt = CHR ''S'' then
        (case args of
           FStr str # args' \<Rightarrow>
             if nxt = CHR ''s'' then
               cbind (c_strlen str) (\<lambda>l. cbind (mem_slice str 0 l)
                 (\<lambda>d. cbind (sdscatfmt_put e s i d) (\<lambda>(s, i). Ok (s, i, args'))))
             else Fault BadVarArg
         | FSds str # args' \<Rightarrow>
             if nxt = CHR ''S'' then
               cbind (mem_slice (sh_buf str) 0 (sdslen str))
                 (\<lambda>d. cbind (sdscatfmt_put e s i d) (\<lambda>(s, i). Ok (s, i, args')))
             else Fault BadVarArg
         | _ \<Rightarrow> Fault BadVarArg)
      else if nxt = CHR ''i'' \<or> nxt = CHR ''I'' then
        cbind (case args of
                 FInt num # args' \<Rightarrow> if nxt = CHR ''i'' then Ok (num, args') else Fault BadVarArg
               | FLongLong num # args' \<Rightarrow> if nxt = CHR ''I'' then Ok (num, args') else Fault BadVarArg
               | _ \<Rightarrow> Fault BadVarArg)
          (\<lambda>(num, args'). cbind (sdsll2str (fresh e SDS_LLSTR_SIZE) num)
            (\<lambda>(b, l). cbind (mem_slice b 0 l)
              (\<lambda>d. cbind (sdscatfmt_put e s i d) (\<lambda>(s, i). Ok (s, i, args')))))
      else if nxt = CHR ''u'' \<or> nxt = CHR ''U'' \<or> nxt = CHR ''T'' then
        cbind (case args of
                 FUInt num # args' \<Rightarrow> if nxt = CHR ''u'' then Ok (num, args') else Fault BadVarArg
               | FULongLong num # args' \<Rightarrow> if nxt = CHR ''U'' then Ok (num, args') else Fault BadVarArg
               | FSizeT num # args' \<Rightarrow> if nxt = CHR ''T'' then Ok (num, args') else Fault BadVarArg
               | _ \<Rightarrow> Fault BadVarArg)
          (\<lambda>(unum, args'). cbind (sdsull2str (fresh e SDS_LLSTR_SIZE) unum)
            (\<lambda>(b, l). cbind (mem_slice b 0 l)
              (\<lambda>d. cbind (sdscatfmt_put e s i d) (\<lambda>(s, i). Ok (s, i, args')))))
      else
        cbind (mem_write (sh_buf s) i [nxt])
          (\<lambda>m. Ok (s\<lparr>sh_buf := m, sh_len := to_i32 (sh_len s + 1),
                      sh_free := to_i32 (sh_free s - 1)\<rparr>, to_i32 (i + 1), args)))"

declare sdscatfmt_directive.simps [simp del]

text \<open>
  The loop over the format. A \<^verbatim>\<open>%\<close> as the last character makes the code step over the
  terminator of the format and read on behind it.
\<close>

fun sdscatfmt_loop ::
    "(nat \<Rightarrow> env) \<Rightarrow> nat \<Rightarrow> string \<Rightarrow> fmt_arg list \<Rightarrow> sdshdr \<Rightarrow> int \<Rightarrow> sdshdr cres" where
  "sdscatfmt_loop es k [] args s i =
     cbind (mem_write (sh_buf s) i [NUL]) (\<lambda>m. Ok (s\<lparr>sh_buf := m\<rparr>))"
| "sdscatfmt_loop es k (c # f) args s i =
     cbind (if sh_free s = 0 then cderef (sdsMakeRoomFor (es (2 * k)) s 1) Ok else Ok s)
       (\<lambda>s. if c = CHR ''%'' then
               (case f of
                  [] \<Rightarrow> Fault OutOfBounds
                | nxt # f' \<Rightarrow>
                    cbind (sdscatfmt_directive (es (2 * k + 1)) nxt args s i)
                      (\<lambda>(s, i, args'). sdscatfmt_loop es (Suc k) f' args' s i))
             else
               cbind (mem_write (sh_buf s) i [c])
                 (\<lambda>m. sdscatfmt_loop es (Suc k) f args
                        (s\<lparr>sh_buf := m, sh_len := to_i32 (sh_len s + 1),
                           sh_free := to_i32 (sh_free s - 1)\<rparr>) (to_i32 (i + 1))))"

definition sdscatfmt :: "(nat \<Rightarrow> env) \<Rightarrow> sdshdr \<Rightarrow> string \<Rightarrow> fmt_arg list \<Rightarrow> sdshdr cres" where
  "sdscatfmt es s fmt args = sdscatfmt_loop es 0 fmt args s (to_i32 (int (sdslen s)))"

text \<open>Reference: the string a format and its arguments denote.\<close>

fun fmt_item :: "char \<Rightarrow> fmt_arg list \<Rightarrow> (string \<times> fmt_arg list) option" where
  "fmt_item c args =
     (if c = CHR ''s'' then
        (case args of FStr m # as \<Rightarrow>
           (case c_strlen m of Ok n \<Rightarrow> Some (take n m, as) | _ \<Rightarrow> None) | _ \<Rightarrow> None)
      else if c = CHR ''S'' then
        (case args of FSds t # as \<Rightarrow> if sds_wf t then Some (sds_content t, as) else None | _ \<Rightarrow> None)
      else if c = CHR ''i'' then
        (case args of FInt v # as \<Rightarrow>
           if -2147483648 \<le> v \<and> v \<le> 2147483647 then Some (dec_int v, as) else None | _ \<Rightarrow> None)
      else if c = CHR ''I'' then
        (case args of FLongLong v # as \<Rightarrow>
           if -9223372036854775808 \<le> v \<and> v \<le> 9223372036854775807 then Some (dec_int v, as) else None
         | _ \<Rightarrow> None)
      else if c = CHR ''u'' then
        (case args of FUInt v # as \<Rightarrow> if v < 4294967296 then Some (dec_nat v, as) else None | _ \<Rightarrow> None)
      else if c = CHR ''U'' then
        (case args of FULongLong v # as \<Rightarrow>
           if v < 18446744073709551616 then Some (dec_nat v, as) else None | _ \<Rightarrow> None)
      else if c = CHR ''T'' then
        (case args of FSizeT v # as \<Rightarrow>
           if v < 18446744073709551616 then Some (dec_nat v, as) else None | _ \<Rightarrow> None)
      else Some ([c], args))"

declare fmt_item.simps [simp del]

fun fmt_expand :: "string \<Rightarrow> fmt_arg list \<Rightarrow> string option" where
  "fmt_expand [] args = Some []"
| "fmt_expand (c # f) args =
     (if c = CHR ''%'' then
        (case f of
           [] \<Rightarrow> None
         | nxt # f' \<Rightarrow>
             (case fmt_item nxt args of
                None \<Rightarrow> None
              | Some (t, args') \<Rightarrow>
                  (case fmt_expand f' args' of None \<Rightarrow> None | Some r \<Rightarrow> Some (t @ r))))
      else (case fmt_expand f args of None \<Rightarrow> None | Some r \<Rightarrow> Some (c # r)))"

subsection \<open>The printf replacement prints what the format denotes\<close>

text \<open>
  In the middle of the loop the header is well-shaped, the position is the length, and the
  bytes written so far are a prefix of the block.
\<close>

definition fmt_inv :: "sdshdr \<Rightarrow> int \<Rightarrow> string \<Rightarrow> bool" where
  "fmt_inv s i t \<longleftrightarrow> sds_shape s \<and> i = sh_len s \<and> sds_content s = t"

lemma fmt_inv_store:
  assumes "fmt_inv s i t" "int (length d) \<le> sh_free s"
  shows "\<exists>m. mem_write (sh_buf s) i d = Ok m \<and>
     fmt_inv (s\<lparr>sh_buf := m, sh_len := to_i32 (sh_len s + int (length d)),
                sh_free := to_i32 (sh_free s - int (length d))\<rparr>) (to_i32 (i + int (length d))) (t @ d)"
proof -
  have sh: "sds_shape s" "i = sh_len s" "take (nat (sh_len s)) (sh_buf s) = t"
    using assms(1) by (auto simp: fmt_inv_def sds_content_def)
  have lt: "length t = nat (sh_len s)" "nat (sh_len s) + length d < length (sh_buf s)"
    using sh(1) assms(2) by (auto simp: sh(3) [symmetric] sds_shape_def min_def nat_add_distrib)
  have "0 \<le> sh_len s" "sh_len s + int (length d) \<le> int (length (sh_buf s))"
    using sh(1) assms(2) by (auto simp: sds_shape_def)
  then have "mem_write (sh_buf s) i d = Ok (t @ d @ drop (nat (sh_len s) + length d) (sh_buf s))"
    using sh by (simp add: cres_simps)
  moreover have "nat (sh_len s + int (length d)) = nat (sh_len s) + length d"
    using sh(1) by (simp add: sds_shape_def nat_add_distrib)
  ultimately show ?thesis
    using sh(1,2) lt assms(2) by (auto simp: fmt_inv_def sds_shape_def sds_content_def)
qed

lemma fmt_inv_room:
  assumes "fmt_inv s i t" "sds_fits (length t + n)" "alloc_ok e"
  shows "\<exists>s'. sdsMakeRoomFor e s n = Ok s' \<and> fmt_inv s' i t \<and> int n \<le> sh_free s'"
proof -
  have sh: "sds_shape s" "i = sh_len s" "take (nat (sh_len s)) (sh_buf s) = t"
    using assms(1) by (auto simp: fmt_inv_def sds_content_def)
  have "length t = nat (sh_len s)"
    using sh by (auto simp: sh(3) [symmetric] sds_shape_def min_def nat_add_distrib)
  then have "sds_fits (nat (sh_len s) + n)" using assms(2) by simp
  from returns_ex [OF sdsMakeRoomFor_shape [OF sh(1) this] assms(3)] obtain s' where
    "sdsMakeRoomFor e s n = Ok s'" "sds_shape s'" "sh_len s' = sh_len s" "int n \<le> sh_free s'"
    "take (Suc (nat (sh_len s))) (sh_buf s') = take (Suc (nat (sh_len s))) (sh_buf s)" by blast
  then show ?thesis
    using sh take_Suc_eqD(2) by (auto simp: fmt_inv_def sds_content_def)
qed

lemma sdscatfmt_put_spec:
  assumes "fmt_inv s i t" "sds_fits (length t + length d)" "alloc_ok e"
  shows "\<exists>s' i'. sdscatfmt_put e s i d = Ok (s', i') \<and> fmt_inv s' i' (t @ d)"
proof -
  have "\<exists>s'. (if sh_free s < int (length d) then cderef (sdsMakeRoomFor e s (length d)) Ok else Ok s)
      = Ok s' \<and> fmt_inv s' i t \<and> int (length d) \<le> sh_free s'"
    using fmt_inv_room [OF assms] assms(1) by auto
  then obtain s' where s': "(if sh_free s < int (length d)
      then cderef (sdsMakeRoomFor e s (length d)) Ok else Ok s) = Ok s'"
    "fmt_inv s' i t" "int (length d) \<le> sh_free s'" by blast
  from fmt_inv_store [OF s'(2,3)] show ?thesis
    unfolding sdscatfmt_put_def Let_def s'(1) by auto
qed

lemma sdsll2str_slice:
  assumes "- 9223372036854775808 \<le> v" "v \<le> 9223372036854775807"
  shows "cbind (sdsll2str (fresh e SDS_LLSTR_SIZE) v) (\<lambda>(b, l). cbind (mem_slice b 0 l) f) = f (dec_int v)"
proof -
  obtain m where m: "sdsll2str (fresh e SDS_LLSTR_SIZE) v = Ok (m, length (dec_int v))"
      "take (Suc (length (dec_int v))) m = dec_int v @ [NUL]"
    using sdsll2str_spec [OF assms, of "fresh e SDS_LLSTR_SIZE"] by auto
  then show ?thesis by (simp add: slice_of_terminated)
qed

lemma sdsull2str_slice:
  assumes "v < 18446744073709551616"
  shows "cbind (sdsull2str (fresh e SDS_LLSTR_SIZE) v) (\<lambda>(b, l). cbind (mem_slice b 0 l) f) = f (dec_nat v)"
proof -
  obtain m where m: "sdsull2str (fresh e SDS_LLSTR_SIZE) v = Ok (m, length (dec_nat v))"
      "take (Suc (length (dec_nat v))) m = dec_nat v @ [NUL]"
    using sdsull2str_spec [OF assms, of "fresh e SDS_LLSTR_SIZE"] by auto
  then show ?thesis by (simp add: slice_of_terminated)
qed

lemma slice_strlen: "c_strlen m = Ok n \<Longrightarrow> mem_slice m 0 n = Ok (take n m)"
  using c_strlen_Ok_bound [of m n] by (simp add: cres_simps)

lemma slice_sds: "sds_wf t \<Longrightarrow> mem_slice (sh_buf t) 0 (sdslen t) = Ok (sds_content t)"
  using sdslen_le_buf [of t] by (simp add: cres_simps sds_content_prefix)

text \<open>Every conversion either stores its bytes through the common block or is one plain byte.\<close>

lemma sdscatfmt_directive_put:
  assumes "fmt_item c args = Some (d, args')"
  shows "sdscatfmt_directive e c args s i = cbind (sdscatfmt_put e s i d) (\<lambda>(s, i). Ok (s, i, args'))
       \<or> (d = [c] \<and> args' = args \<and>
          sdscatfmt_directive e c args s i = cbind (mem_write (sh_buf s) i d)
            (\<lambda>m. Ok (s\<lparr>sh_buf := m, sh_len := to_i32 (sh_len s + int (length d)),
                      sh_free := to_i32 (sh_free s - int (length d))\<rparr>, to_i32 (i + int (length d)), args)))"
proof -
  note sp = fmt_item.simps sdscatfmt_directive.simps
  consider "c = CHR ''s''" | "c = CHR ''S''" | "c = CHR ''i'' \<or> c = CHR ''I''"
    | "c = CHR ''u'' \<or> c = CHR ''U'' \<or> c = CHR ''T''"
    | "c \<noteq> CHR ''s'' \<and> c \<noteq> CHR ''S'' \<and> c \<noteq> CHR ''i'' \<and> c \<noteq> CHR ''I'' \<and>
       c \<noteq> CHR ''u'' \<and> c \<noteq> CHR ''U'' \<and> c \<noteq> CHR ''T''" by blast
  then show ?thesis
  proof cases
    case 1
    then show ?thesis using assms
      by (auto simp: sp slice_strlen split: list.splits fmt_arg.splits cres.splits)
  next
    case 2
    then show ?thesis using assms
      by (auto simp: sp slice_sds split: list.splits fmt_arg.splits if_splits)
  next
    case 3
    then show ?thesis using assms
      by (elim disjE) (auto simp: sp sdsll2str_slice split: list.splits fmt_arg.splits if_splits)
  next
    case 4
    then show ?thesis using assms
      by (elim disjE) (auto simp: sp sdsull2str_slice split: list.splits fmt_arg.splits if_splits)
  next
    case 5
    then show ?thesis using assms by (auto simp: sp)
  qed
qed

lemma sdscatfmt_directive_spec:
  assumes "fmt_item c args = Some (d, args')" "fmt_inv s i t" "sds_fits (length t + length d)"
    "alloc_ok e" "1 \<le> sh_free s"
  shows "\<exists>s' i'. sdscatfmt_directive e c args s i = Ok (s', i', args') \<and> fmt_inv s' i' (t @ d)"
  using sdscatfmt_directive_put [OF assms(1), of e s i]
proof (elim disjE conjE)
  assume "sdscatfmt_directive e c args s i = cbind (sdscatfmt_put e s i d) (\<lambda>(s, i). Ok (s, i, args'))"
  then show ?thesis using sdscatfmt_put_spec [OF assms(2-4)] by auto
next
  assume "d = [c]" "args' = args" and "sdscatfmt_directive e c args s i = cbind (mem_write (sh_buf s) i d)
            (\<lambda>m. Ok (s\<lparr>sh_buf := m, sh_len := to_i32 (sh_len s + int (length d)),
                      sh_free := to_i32 (sh_free s - int (length d))\<rparr>, to_i32 (i + int (length d)), args))"
  then show ?thesis using fmt_inv_store [OF assms(2), of d] assms(5) by auto
qed

lemma sdscatfmt_loop_spec:
  assumes "\<And>k. alloc_ok (es k)"
  shows "fmt_inv s i t \<Longrightarrow> fmt_expand f args = Some out \<Longrightarrow> sds_fits (length t + length out + 1) \<Longrightarrow>
    \<exists>s'. sdscatfmt_loop es k f args s i = Ok s' \<and> sds_wf s' \<and> sds_content s' = t @ out"
proof (induction f args arbitrary: k s i t out rule: fmt_expand.induct)
  case (1 args)
  have sh: "sds_shape s" "i = sh_len s" "take (nat (sh_len s)) (sh_buf s) = t"
    using 1(1) by (auto simp: fmt_inv_def sds_content_def)
  then have "mem_write (sh_buf s) i [NUL] = Ok (t @ NUL # drop (Suc (nat (sh_len s))) (sh_buf s))"
    "length t = nat (sh_len s)"
    by (auto simp: cres_simps sds_shape_def nat_add_distrib)
  then show ?case
    using sh 1(2) by (auto simp: sds_wf_shape sds_shape_def sds_content_def nth_append)
next
  case (2 c f args)
  obtain s1 where s1: "(if sh_free s = 0 then cderef (sdsMakeRoomFor (es (2 * k)) s 1) Ok else Ok s) = Ok s1"
    "fmt_inv s1 i t" "1 \<le> sh_free s1"
  proof (cases "sh_free s = 0")
    case True
    have "sds_fits (length t + 1)" using "2.prems"(3) by (simp add: sds_fits_def)
    from fmt_inv_room [OF "2.prems"(1) this assms] True that show thesis by auto
  next
    case False
    then show thesis using that "2.prems"(1) by (auto simp: fmt_inv_def sds_shape_def)
  qed
  show ?case
  proof (cases "c = CHR ''%''")
    case True
    then obtain nxt f' d args' r where f: "f = nxt # f'" "fmt_item nxt args = Some (d, args')"
      "fmt_expand f' args' = Some r" "out = d @ r"
      using "2.prems"(2) by (auto split: list.splits option.splits prod.splits)
    have "sds_fits (length t + length d)" using "2.prems"(3) f by (simp add: sds_fits_def)
    from sdscatfmt_directive_spec [OF f(2) s1(2) this assms s1(3), of "2 * k + 1"] obtain s' i' where
      s': "sdscatfmt_directive (es (2 * k + 1)) nxt args s1 i = Ok (s', i', args')"
      "fmt_inv s' i' (t @ d)" by auto
    have "sds_fits (length (t @ d) + length r + 1)" using "2.prems"(3) f by (simp add: add.assoc)
    from "2.IH"(1) [OF True f(1) f(2) _ s'(2) f(3) this]
    show ?thesis using True s' by (auto simp: f s1)
  next
    case False
    then obtain r where r: "fmt_expand f args = Some r" "out = c # r"
      using "2.prems"(2) by (auto split: option.splits)
    from fmt_inv_store [OF s1(2), of "[c]"] s1(3) obtain m where m: "mem_write (sh_buf s1) i [c] = Ok m"
      "fmt_inv (s1\<lparr>sh_buf := m, sh_len := to_i32 (sh_len s1 + 1), sh_free := to_i32 (sh_free s1 - 1)\<rparr>)
         (to_i32 (i + 1)) (t @ [c])" by auto
    have "sds_fits (length (t @ [c]) + length r + 1)" using "2.prems"(3) r by simp
    from "2.IH"(2) [OF False m(2) r(1) this] show ?thesis
      using False m r by (auto simp: s1)
  qed
qed

lemma sdscatfmt_spec:
  assumes "sds_wf s" "fmt_expand fmt args = Some out" "sds_fits (sdslen s + length out + 1)"
    "\<And>k. alloc_ok (es k)"
  shows "\<exists>s'. sdscatfmt es s fmt args = Ok s' \<and> sds_wf s' \<and> sds_content s' = sds_content s @ out"
proof -
  have "fmt_inv s (to_i32 (int (sdslen s))) (sds_content s)"
    using assms(1) sds_wfD [OF assms(1)] by (simp add: fmt_inv_def sds_wf_shape sdslen_def)
  moreover have "sds_fits (length (sds_content s) + length out + 1)"
    using assms(1,3) by (simp add: sdslen_content)
  ultimately show ?thesis
    unfolding sdscatfmt_def by (rule sdscatfmt_loop_spec [OF assms(4) _ assms(2)])
qed

section \<open>Properties\<close>

text \<open>
  \<^verbatim>\<open>sdscatfmt\<close> appends exactly the expansion of its format: whenever the format and its
  arguments denote a text (every directive has an argument of its type, and the format does not
  end in the middle of a directive), the function stays inside its block, keeps the string well
  formed and appends that text, however often it has to grow the string in between.
\<close>
theorem sdscatfmt_expands:
  assumes "sds_wf s" "fmt_expand fmt args = Some out" "sds_fits (sdslen s + length out + 1)"
    "\<And>k. alloc_ok (es k)"
  shows "\<exists>s'. sdscatfmt es s fmt args = Ok s' \<and> sds_wf s' \<and> sds_content s' = sds_content s @ out"
  using assms by (rule sdscatfmt_spec)

theorem sdscatfmt_expands_witness:
  "\<exists>s'. sdscatfmt (\<lambda>_. plenty) sds_ab ''*%s=%i%%'' [FStr (cstr ''k''), FInt (- 12)] = Ok s' \<and> sds_wf s' \<and>
        sds_content s' = ''ab*k=-12%''"
proof -
  have "fmt_expand ''*%s=%i%%'' [FStr (cstr ''k''), FInt (- 12)] = Some ''*k=-12%''"
    by (simp add: fmt_item.simps c_strlen_def cstr_def dec_eval)
  moreover have "sds_fits (sdslen sds_ab + length ''*k=-12%'' + 1)"
    by (simp add: sdslen_content sds_fits_def SDS_MAX_PREALLOC_def)
  ultimately show ?thesis
    using sdscatfmt_expands [of sds_ab "''*%s=%i%%''" "[FStr (cstr ''k''), FInt (- 12)]" "''*k=-12%''" "\<lambda>_. plenty"]
    by simp
qed

text \<open>
  \<^verbatim>\<open>sdsfromlonglong\<close> converts every 64-bit integer, the most negative one included, to its
  decimal text: digits written backwards into a local buffer of 21 bytes, never outside it, and
  reversed in place.
\<close>
theorem sdsfromlonglong_decimal:
  assumes "- 9223372036854775808 \<le> v" "v \<le> 9223372036854775807"
  shows "returns (alloc_ok e) (sdsfromlonglong e v) (\<lambda>s. sds_wf s \<and> sds_content s = dec_int v)"
  using assms by (rule sdsfromlonglong_spec)

theorem sdsfromlonglong_decimal_witness:
  "returns True (sdsfromlonglong plenty (- 9223372036854775808))
     (\<lambda>s. sds_wf s \<and> sds_content s = ''-9223372036854775808'')"
proof -
  have "dec_int (- 9223372036854775808) = ''-9223372036854775808''"
    by (simp add: dec_eval)
  then show ?thesis using sdsfromlonglong_decimal [of "- 9223372036854775808" plenty] by simp
qed

end
