(* ===== verification/Sds_Edit.thy ===== *)
theory Sds_Edit
  imports Sds_Text
begin

text \<open>
  In-place editing and comparison of \<^verbatim>\<open>src/win/hiredis/sds.c\<close>:
  \<^verbatim>\<open>sdstrim\<close>, \<^verbatim>\<open>sdsrange\<close>, \<^verbatim>\<open>sdstolower\<close>, \<^verbatim>\<open>sdstoupper\<close>,
  \<^verbatim>\<open>sdscmp\<close>, \<^verbatim>\<open>sdsmapchars\<close>, \<^verbatim>\<open>sdsjoin\<close> and \<^verbatim>\<open>sdsjoinsds\<close>.
  Pointers into a string are offsets from its first byte.
\<close>

section \<open>Trimming\<close>

function sdstrim_sp :: "mem \<Rightarrow> string \<Rightarrow> int \<Rightarrow> int \<Rightarrow> int cres" where
  "sdstrim_sp m cset sp en =
     (if sp \<le> en then
        cbind (mem_read m sp)
          (\<lambda>c. if c_strchr cset c then sdstrim_sp m cset (sp + 1) en else Ok sp)
      else Ok sp)"
  by pat_completeness auto
termination
  by (relation "measure (\<lambda>(m, cset, sp, en). nat (en + 1 - sp))") auto

function sdstrim_ep :: "mem \<Rightarrow> string \<Rightarrow> int \<Rightarrow> int \<Rightarrow> int cres" where
  "sdstrim_ep m cset ep start =
     (if ep > start then
        cbind (mem_read m ep)
          (\<lambda>c. if c_strchr cset c then sdstrim_ep m cset (ep - 1) start else Ok ep)
      else Ok ep)"
  by pat_completeness auto
termination
  by (relation "measure (\<lambda>(m, cset, ep, start). nat (ep - start))") auto

declare sdstrim_sp.simps [simp del] sdstrim_ep.simps [simp del]

definition sdstrim :: "sdshdr \<Rightarrow> string \<Rightarrow> sdshdr cres" where
  "sdstrim s cset =
     (let end0 = int (sdslen s) - 1 in
      cbind (sdstrim_sp (sh_buf s) cset 0 end0)
        (\<lambda>sp. cbind (sdstrim_ep (sh_buf s) cset end0 0)
          (\<lambda>ep. let l = (if sp > ep then 0 else nat (ep - sp + 1)) in
            cbind (if sp \<noteq> 0 then cbind (mem_slice (sh_buf s) sp l) (mem_write (sh_buf s) 0)
                   else Ok (sh_buf s))
              (\<lambda>m. cbind (mem_write m (int l) [NUL])
                (\<lambda>m. Ok \<lparr>sh_len = to_i32 (int l), sh_free = to_i32 (sh_free s + (sh_len s - int l)),
                         sh_buf = m\<rparr>)))))"

text \<open>Reference: drop the matching characters at both ends.\<close>

definition trim_both :: "(char \<Rightarrow> bool) \<Rightarrow> string \<Rightarrow> string" where
  "trim_both P t = rev (dropWhile P (rev (dropWhile P t)))"

lemma sdstrim_sp_spec:
  "b = pre @ t @ c \<Longrightarrow> sdstrim_sp b cset (int (length pre)) (int (length pre + length t) - 1)
     = Ok (int (length pre + length (takeWhile (c_strchr cset) t)))"
proof (induction t arbitrary: pre)
  case Nil
  then show ?case by (simp add: sdstrim_sp.simps)
next
  case (Cons x t)
  have r: "mem_read b (int (length pre)) = Ok x"
    using Cons.prems by (simp add: mem_read_def nth_append)
  show ?case
  proof (cases "c_strchr cset x")
    case True
    have "sdstrim_sp b cset (int (length (pre @ [x]))) (int (length (pre @ [x]) + length t) - 1)
      = Ok (int (length (pre @ [x]) + length (takeWhile (c_strchr cset) t)))"
      by (rule Cons.IH) (simp add: Cons.prems)
    then show ?thesis
      using True by (subst sdstrim_sp.simps) (simp add: r ac_simps)
  next
    case False
    then show ?thesis by (subst sdstrim_sp.simps) (simp add: r)
  qed
qed

lemma sdstrim_ep_spec:
  assumes "t \<noteq> []"
  shows "b = t @ c \<Longrightarrow> sdstrim_ep b cset (int (length t) - 1) 0
     = Ok (max 0 (int (length (dropWhile (c_strchr cset) (rev t))) - 1))"
  using assms
proof (induction t arbitrary: c rule: rev_induct)
  case Nil
  then show ?case by simp
next
  case (snoc x t)
  have r: "mem_read b (int (length t)) = Ok x"
    using snoc.prems by (simp add: mem_read_def nth_append)
  show ?case
  proof (cases "t = [] \<or> \<not> c_strchr cset x")
    case True
    then show ?thesis
    proof
      assume "t = []"
      then show ?thesis by (subst sdstrim_ep.simps) simp
    next
      assume "\<not> c_strchr cset x"
      then show ?thesis by (subst sdstrim_ep.simps) (simp add: r)
    qed
  next
    case False
    have "sdstrim_ep b cset (int (length t) - 1) 0
      = Ok (max 0 (int (length (dropWhile (c_strchr cset) (rev t))) - 1))"
      by (rule snoc.IH) (use snoc.prems False in auto)
    then show ?thesis
      using False by (subst sdstrim_ep.simps) (simp add: r)
  qed
qed

text \<open>What the two pointers delimit.\<close>

lemma trim_both_window:
  fixes P :: "char \<Rightarrow> bool" and t :: string
  defines "a \<equiv> length (takeWhile P t)" and "e \<equiv> length (dropWhile P (rev t))"
  shows "trim_both P t = take (e - a) (drop (a) t)" "\<not> (\<forall>x \<in> set t. P x) \<Longrightarrow> a < e"
    "(\<forall>x \<in> set t. P x) \<Longrightarrow> a = length t \<and> e = 0" "e \<le> length t"
proof -
  let ?u = "dropWhile P t"
  show all: "(\<forall>x \<in> set t. P x) \<Longrightarrow> a = length t \<and> e = 0"
    by (simp add: a_def e_def takeWhile_eq_all_conv [THEN iffD2])
  show "e \<le> length t" by (metis e_def length_dropWhile_le length_rev)
  have tu: "t = takeWhile P t @ ?u" by simp
  have ne: "dropWhile P (rev t) = dropWhile P (rev ?u) @ rev (takeWhile P t)"
    if "\<not> (\<forall>x \<in> set t. P x)"
  proof -
    have "\<exists>x \<in> set (rev ?u). \<not> P x"
      using that by (metis dropWhile_eq_Nil_conv hd_dropWhile list.set_sel(1) set_rev)
    then have "dropWhile P (rev ?u @ rev (takeWhile P t)) = dropWhile P (rev ?u) @ rev (takeWhile P t)"
      by (auto simp: dropWhile_append1)
    then show ?thesis by (metis rev_append tu)
  qed
  then have el: "e = length (dropWhile P (rev ?u)) + a" if "\<not> (\<forall>x \<in> set t. P x)"
    using that by (simp add: e_def a_def)
  show "a < e" if "\<not> (\<forall>x \<in> set t. P x)"
  proof -
    have "dropWhile P (rev ?u) \<noteq> []"
      using that by (metis dropWhile_eq_Nil_conv hd_dropWhile list.set_sel(1) set_rev)
    then show ?thesis using el [OF that] by simp
  qed
  show "trim_both P t = take (e - a) (drop (a) t)"
  proof (cases "\<forall>x \<in> set t. P x")
    case True
    then have u: "?u = []" by simp
    have "trim_both P t = []" by (simp only: trim_both_def u rev.simps dropWhile.simps)
    then show ?thesis using all [OF True] by simp
  next
    case False
    have d: "drop (a) t = ?u" by (simp add: a_def dropWhile_eq_drop)
    have "rev (dropWhile P (rev ?u)) = take (length (dropWhile P (rev ?u))) ?u"
      by (metis append_eq_conv_conj length_rev rev_append rev_rev_ident takeWhile_dropWhile_id)
    then show ?thesis using el [OF False] by (simp add: trim_both_def d)
  qed
qed

lemma sdstrim_spec:
  assumes "sds_wf s"
  shows "\<exists>s'. sdstrim s cset = Ok s' \<and> sds_wf s' \<and>
              sds_content s' = trim_both (c_strchr cset) (sds_content s)"
proof -
  obtain rest where b: "sh_buf s = sds_content s @ NUL # rest" and r: "length rest = nat (sh_free s)"
    using sds_buf_decomp [OF assms] by blast
  note w = sds_wfD [OF assms]
  define t where "t = sds_content s"
  define a where "a = length (takeWhile (c_strchr cset) t)"
  define e where "e = length (dropWhile (c_strchr cset) (rev t))"
  define l where "l = e - a"
  have lt: "int (length t) = sh_len s" "sdslen s = length t"
    using assms w by (auto simp: t_def sds_simps)
  note win = trim_both_window [where P = "c_strchr cset" and t = t, folded a_def e_def]
  have al: "a \<le> length t" unfolding a_def by (rule length_takeWhile_le)
  have sp: "sdstrim_sp (sh_buf s) cset 0 (int (length t) - 1) = Ok (int a)"
    using sdstrim_sp_spec [of "sh_buf s" "[]" t "NUL # rest" cset] by (simp add: b t_def a_def)
  have ep: "sdstrim_ep (sh_buf s) cset (int (length t) - 1) 0 = Ok (if t = [] then -1 else max 0 (int e - 1))"
  proof (cases "t = []")
    case True
    then show ?thesis by (simp add: sdstrim_ep.simps)
  next
    case False
    then show ?thesis using sdstrim_ep_spec [OF False, of "sh_buf s" "NUL # rest" cset]
      by (simp add: b t_def e_def)
  qed
  have len: "(if int a > (if t = [] then -1 else max 0 (int e - 1)) then 0
              else nat ((if t = [] then -1 else max 0 (int e - 1)) - int a + 1)) = l"
    using win(2,3) by (cases "\<forall>x \<in> set t. c_strchr cset x") (auto simp: l_def)
  have lb: "a + l \<le> length t \<or> l = 0" using win(4) by (auto simp: l_def)
  have mv: "(if int a \<noteq> 0 then cbind (mem_slice (sh_buf s) (int a) l) (mem_write (sh_buf s) 0) else Ok (sh_buf s))
    = Ok (take l (drop a t) @ drop l (sh_buf s))"
    using lb al by (auto simp: b t_def [symmetric] cres_simps mem_slice_def mem_write_def)
  let ?u = "take l (drop a t)"
  have lu: "length ?u = l" "l \<le> length t" using lb al by auto
  have wr: "mem_write (?u @ drop l (sh_buf s)) (int l) [NUL] = Ok (?u @ NUL # drop (Suc l) (sh_buf s))"
    using lu by (simp add: cres_simps b t_def)
  have tr: "trim_both (c_strchr cset) t = ?u" using win(1) by (simp add: l_def)
  have "sdstrim s cset = Ok \<lparr>sh_len = int l, sh_free = sh_free s + (sh_len s - int l),
      sh_buf = ?u @ NUL # drop (Suc l) (sh_buf s)\<rparr>"
    unfolding sdstrim_def Let_def lt(2) sp ep cbind.simps len mv wr using lt w lu by simp
  then show ?thesis
    using sds_wfI [of "\<lparr>sh_len = int l, sh_free = sh_free s + (sh_len s - int l),
        sh_buf = ?u @ NUL # drop (Suc l) (sh_buf s)\<rparr>" ?u "drop (Suc l) (sh_buf s)"] lu lt w tr
    by (simp add: t_def)
qed

section \<open>Slicing\<close>

definition sdsrange :: "sdshdr \<Rightarrow> int \<Rightarrow> int \<Rightarrow> sdshdr cres" where
  "sdsrange s start en =
     (let len = sdslen s in
      if len = 0 then Ok s
      else
        let start1 = (if start < 0
                      then (let x = to_i32 (int len + start) in if x < 0 then 0 else x) else start);
            end1 = (if en < 0
                    then (let x = to_i32 (int len + en) in if x < 0 then 0 else x) else en);
            newlen0 = (if start1 > end1 then 0 else to_size (to_i32 (end1 - start1 + 1)));
            slen = to_i32 (int len);
            (start2, newlen) =
              (if newlen0 \<noteq> 0 then
                 (if start1 \<ge> slen then (start1, 0)
                  else if end1 \<ge> slen then
                    (let end2 = to_i32 (int len - 1)
                     in (start1, if start1 > end2 then 0 else to_size (to_i32 (end2 - start1 + 1))))
                  else (start1, newlen0))
               else (0, newlen0))
        in cbind (if start2 \<noteq> 0 \<and> newlen \<noteq> 0
                  then cbind (mem_slice (sh_buf s) start2 newlen) (mem_write (sh_buf s) 0)
                  else Ok (sh_buf s))
             (\<lambda>m. cbind (mem_write m (int newlen) [NUL])
               (\<lambda>m. Ok \<lparr>sh_len = to_i32 (int newlen),
                        sh_free = to_i32 (sh_free s + (sh_len s - int newlen)), sh_buf = m\<rparr>)))"

text \<open>Reference: both ends inclusive, negative indexes count from the end and stop at the front.\<close>

definition from_end :: "nat \<Rightarrow> int \<Rightarrow> int" where
  "from_end n i = (if i < 0 then max 0 (int n + i) else i)"

definition range_slice :: "string \<Rightarrow> int \<Rightarrow> int \<Rightarrow> string" where
  "range_slice t start en =
     (let n = length t; a = from_end n start; z = from_end n en
      in take (nat (z + 1 - a)) (drop (nat a) t))"

lemma shrink_in_place:
  assumes "sds_wf s" "l \<le> length (sds_content s)" "a + l \<le> length (sds_content s) \<or> l = 0"
  shows "\<exists>m. cbind (if b then cbind (mem_slice (sh_buf s) (int a) l) (mem_write (sh_buf s) 0)
                    else Ok (sh_buf s)) (\<lambda>m. mem_write m (int l) [NUL]) = Ok m \<and>
     (\<lambda>s'. sds_wf s' \<and> sds_content s' = (if b then take l (drop a (sds_content s)) else take l (sds_content s)))
       \<lparr>sh_len = int l, sh_free = sh_free s + (sh_len s - int l), sh_buf = m\<rparr>"
proof -
  obtain rest where b: "sh_buf s = sds_content s @ NUL # rest" and r: "length rest = nat (sh_free s)"
    using sds_buf_decomp [OF assms(1)] by blast
  let ?t = "sds_content s" let ?u = "if b then take l (drop a ?t) else take l ?t"
  have lu: "length ?u = l" using assms(2,3) by auto
  have "(if b then cbind (mem_slice (sh_buf s) (int a) l) (mem_write (sh_buf s) 0) else Ok (sh_buf s))
      = Ok (?u @ drop l (sh_buf s))"
    using assms(2,3) by (auto simp: b cres_simps mem_slice_def mem_write_def)
  moreover have "mem_write (?u @ drop l (sh_buf s)) (int l) [NUL] = Ok (?u @ NUL # drop (Suc l) (sh_buf s))"
    using lu assms(2) by (simp add: cres_simps b)
  moreover have "sh_len s = int (length ?t)" "length (sh_buf s) = Suc (length ?t + nat (sh_free s))"
    using assms(1) sds_wfD [OF assms(1)] by (simp_all add: sds_simps nat_add_distrib)
  ultimately show ?thesis
    using lu assms(2) sds_wfD [OF assms(1)]
      sds_wfI [of "\<lparr>sh_len = int l, sh_free = sh_free s + (sh_len s - int l),
        sh_buf = ?u @ NUL # drop (Suc l) (sh_buf s)\<rparr>" ?u "drop (Suc l) (sh_buf s)"]
    by auto
qed

lemma sdsrange_spec:
  assumes "sds_wf s" "- 2147483648 \<le> start" "start \<le> 2147483647"
    "- 2147483648 \<le> en" "en < 2147483647"
  shows "\<exists>s'. sdsrange s start en = Ok s' \<and> sds_wf s' \<and>
              sds_content s' = range_slice (sds_content s) start en"
proof (cases "sds_content s = []")
  case True
  then have "sdslen s = 0" using assms(1) by (simp add: sdslen_content)
  then show ?thesis using assms(1) True by (simp add: sdsrange_def range_slice_def Let_def)
next
  case False
  define n where "n = length (sds_content s)"
  have "0 < n" using False by (simp add: n_def)
  then have n: "sdslen s = n" "0 < n" "int n \<le> 2147483647" "sh_len s = int n"
    using sds_wfD [OF assms(1)] length_sds_content [OF assms(1)] sdslen_content [OF assms(1)]
    by (auto simp: n_def)
  define a where "a = from_end n start"
  define z where "z = from_end n en"
  have az: "0 \<le> a" "0 \<le> z" "a \<le> 2147483647" "z < 2147483647"
    using assms n by (auto simp: a_def z_def from_end_def)
  have s1: "(if start < 0 then (let x = to_i32 (int n + start) in if x < 0 then 0 else x) else start) = a"
    "(if en < 0 then (let x = to_i32 (int n + en) in if x < 0 then 0 else x) else en) = z"
    using assms n by (auto simp: a_def z_def from_end_def Let_def)
  define l where "l = (if a > z \<or> a \<ge> int n then 0 else nat (min z (int n - 1) - a + 1))"
  define st where "st = (if a > z then 0 else a)"
  have pair: "(if (if a > z then 0 else to_size (to_i32 (z - a + 1))) \<noteq> 0
      then if to_i32 (int n) \<le> a then (a, 0)
           else if to_i32 (int n) \<le> z
             then let end2 = to_i32 (int n - 1) in (a, if end2 < a then 0 else to_size (to_i32 (end2 - a + 1)))
             else (a, if a > z then 0 else to_size (to_i32 (z - a + 1)))
      else (0, if a > z then 0 else to_size (to_i32 (z - a + 1)))) = (st, l)"
    using n az by (auto simp: Let_def st_def l_def min_def)
  have l: "l \<le> n" "nat a + l \<le> n \<or> l = 0"
    using az n by (auto simp: l_def)
  have slice: "range_slice (sds_content s) start en
      = (if st \<noteq> 0 \<and> l \<noteq> 0 then take l (drop (nat st) (sds_content s)) else take l (sds_content s))"
  proof -
    have k: "nat (z + 1 - a) = Suc (nat (z - a))" if "a \<le> z" using that by simp
    have "take (nat (z + 1 - a)) (drop (nat a) (sds_content s)) = take l (drop (nat a) (sds_content s))"
      using az n by (auto simp: l_def n_def nat_add_distrib min_def take_all_iff not_less k)
    then show ?thesis
      using az by (auto simp: range_slice_def Let_def n_def [symmetric] a_def [symmetric] z_def [symmetric]
          st_def l_def)
  qed
  have st: "nat st + l \<le> length (sds_content s) \<or> l = 0" "l \<le> length (sds_content s)" "0 \<le> st"
    using l az by (auto simp: st_def n_def l_def)
  obtain m where m: "cbind (if st \<noteq> 0 \<and> l \<noteq> 0 then cbind (mem_slice (sh_buf s) st l) (mem_write (sh_buf s) 0)
                    else Ok (sh_buf s)) (\<lambda>m. mem_write m (int l) [NUL]) = Ok m"
    "sds_wf \<lparr>sh_len = int l, sh_free = sh_free s + (sh_len s - int l), sh_buf = m\<rparr>"
    "sds_content \<lparr>sh_len = int l, sh_free = sh_free s + (sh_len s - int l), sh_buf = m\<rparr>
       = range_slice (sds_content s) start en"
    using shrink_in_place [OF assms(1) st(2,1), of "st \<noteq> 0 \<and> l \<noteq> 0"]
    unfolding slice nat_0_le [OF st(3)] by blast
  have "sdsrange s start en = cbind (cbind (if st \<noteq> 0 \<and> l \<noteq> 0
        then cbind (mem_slice (sh_buf s) st l) (mem_write (sh_buf s) 0) else Ok (sh_buf s))
        (\<lambda>m. mem_write m (int l) [NUL])) (\<lambda>m. Ok \<lparr>sh_len = int l,
             sh_free = sh_free s + (sh_len s - int l), sh_buf = m\<rparr>)"
    unfolding sdsrange_def Let_def n(1) s1 [unfolded Let_def] pair [unfolded Let_def] prod.case cbind_assoc
    using n l sds_wfD [OF assms(1)] by simp
  then have "sdsrange s start en = Ok \<lparr>sh_len = int l, sh_free = sh_free s + (sh_len s - int l), sh_buf = m\<rparr>"
    unfolding m(1) by simp
  then show ?thesis using m(2,3) by blast
qed

section \<open>Character mapping\<close>

definition c_tolower :: "char \<Rightarrow> char" where
  "c_tolower c = (let n = of_char c :: nat in if 65 \<le> n \<and> n \<le> 90 then char_of (n + 32) else c)"

definition c_toupper :: "char \<Rightarrow> char" where
  "c_toupper c = (let n = of_char c :: nat in if 97 \<le> n \<and> n \<le> 122 then char_of (n - 32) else c)"

function each_char :: "(char \<Rightarrow> char cres) \<Rightarrow> mem \<Rightarrow> int \<Rightarrow> int \<Rightarrow> mem cres" where
  "each_char f m j len =
     (if j < len then
        cbind (mem_read m j) (\<lambda>c. cbind (f c) (\<lambda>c'. cbind (mem_write m j [c'])
          (\<lambda>m. each_char f m (j + 1) len)))
      else Ok m)"
  by pat_completeness auto
termination
  by (relation "measure (\<lambda>(f, m, j, len). nat (len - j))") auto

declare each_char.simps [simp del]

definition sdstolower :: "sdshdr \<Rightarrow> sdshdr cres" where
  "sdstolower s = cbind (each_char (\<lambda>c. Ok (c_tolower c)) (sh_buf s) 0 (to_i32 (int (sdslen s))))
     (\<lambda>m. Ok (s\<lparr>sh_buf := m\<rparr>))"

definition sdstoupper :: "sdshdr \<Rightarrow> sdshdr cres" where
  "sdstoupper s = cbind (each_char (\<lambda>c. Ok (c_toupper c)) (sh_buf s) 0 (to_i32 (int (sdslen s))))
     (\<lambda>m. Ok (s\<lparr>sh_buf := m\<rparr>))"

text \<open>The inner loop of \<^verbatim>\<open>sdsmapchars\<close>, the first match wins.\<close>

function mapchars_inner :: "mem \<Rightarrow> mem \<Rightarrow> nat \<Rightarrow> nat \<Rightarrow> char \<Rightarrow> char cres" where
  "mapchars_inner src dst i setlen c =
     (if i < setlen then
        cbind (mem_read src (int i)) (\<lambda>x. if c = x then mem_read dst (int i)
          else mapchars_inner src dst (Suc i) setlen c)
      else Ok c)"
  by pat_completeness auto
termination
  by (relation "measure (\<lambda>(src, dst, i, setlen, c). setlen - i)") auto

declare mapchars_inner.simps [simp del]

definition sdsmapchars :: "sdshdr \<Rightarrow> mem \<Rightarrow> mem \<Rightarrow> nat \<Rightarrow> sdshdr cres" where
  "sdsmapchars s src dst setlen =
     cbind (each_char (mapchars_inner src dst 0 setlen) (sh_buf s) 0 (int (sdslen s)))
       (\<lambda>m. Ok (s\<lparr>sh_buf := m\<rparr>))"

lemma each_char_map:
  "(\<And>c. f c = Ok (g c)) \<Longrightarrow> each_char f (pre @ t @ rest) (int (length pre)) (int (length pre + length t))
     = Ok (pre @ map g t @ rest)"
proof (induction t arbitrary: pre)
  case Nil
  then show ?case by (simp add: each_char.simps)
next
  case (Cons x t)
  have r: "mem_read (pre @ (x # t) @ rest) (int (length pre)) = Ok x"
    by (simp add: mem_read_def nth_append)
  have w: "mem_write (pre @ (x # t) @ rest) (int (length pre)) [g x] = Ok ((pre @ [g x]) @ t @ rest)"
    by (simp add: cres_simps)
  have "each_char f ((pre @ [g x]) @ t @ rest) (int (length (pre @ [g x]))) (int (length (pre @ [g x]) + length t))
      = Ok ((pre @ [g x]) @ map g t @ rest)"
    by (rule Cons.IH) (rule Cons.prems)
  then show ?case
    by (subst each_char.simps) (simp only: r w Cons.prems cbind.simps, simp add: ac_simps)
qed

lemma each_char_sds:
  assumes "sds_wf s" "\<And>c. f c = Ok (g c)" "n = sh_len s"
  shows "\<exists>m. each_char f (sh_buf s) 0 n = Ok m \<and>
     sds_wf (s\<lparr>sh_buf := m\<rparr>) \<and> sds_content (s\<lparr>sh_buf := m\<rparr>) = map g (sds_content s)"
proof -
  obtain rest where b: "sh_buf s = sds_content s @ NUL # rest" and r: "length rest = nat (sh_free s)"
    using sds_buf_decomp [OF assms(1)] by blast
  have n: "n = int (length (sds_content s))" "sh_free s = int (length rest)"
    using sds_wfD [OF assms(1)] assms(1,3) r by (auto simp: sds_simps)
  have "each_char f (sh_buf s) 0 n = Ok (map g (sds_content s) @ NUL # rest)"
    using each_char_map [of f g "[]" "sds_content s" "NUL # rest", OF assms(2)] by (simp add: b n)
  then show ?thesis
    using sds_wfI [of "s\<lparr>sh_buf := map g (sds_content s) @ NUL # rest\<rparr>" "map g (sds_content s)" rest]
      n assms(3) sds_wfD(3) [OF assms(1)] by auto
qed

lemma sdstolower_spec:
  assumes "sds_wf s"
  shows "\<exists>s'. sdstolower s = Ok s' \<and> sds_wf s' \<and> sds_content s' = map c_tolower (sds_content s)"
proof -
  have "to_i32 (int (sdslen s)) = sh_len s"
    using sds_wfD [OF assms] by (simp add: sdslen_wf [OF assms])
  then show ?thesis
    using each_char_sds [OF assms, of "\<lambda>c. Ok (c_tolower c)" c_tolower] by (auto simp: sdstolower_def)
qed

lemma sdstoupper_spec:
  assumes "sds_wf s"
  shows "\<exists>s'. sdstoupper s = Ok s' \<and> sds_wf s' \<and> sds_content s' = map c_toupper (sds_content s)"
proof -
  have "to_i32 (int (sdslen s)) = sh_len s"
    using sds_wfD [OF assms] by (simp add: sdslen_wf [OF assms])
  then show ?thesis
    using each_char_sds [OF assms, of "\<lambda>c. Ok (c_toupper c)" c_toupper] by (auto simp: sdstoupper_def)
qed

text \<open>Reference: look the character up in the table of pairs.\<close>

definition subst_char :: "(char \<times> char) list \<Rightarrow> char \<Rightarrow> char" where
  "subst_char tab c = (case map_of tab c of None \<Rightarrow> c | Some d \<Rightarrow> d)"

lemma mapchars_inner_spec:
  "i \<le> n \<Longrightarrow> n \<le> length src \<Longrightarrow> n \<le> length dst \<Longrightarrow>
   mapchars_inner src dst i n c = Ok (subst_char (drop i (zip (take n src) (take n dst))) c)"
proof (induction "n - i" arbitrary: i)
  case 0
  then show ?case by (subst mapchars_inner.simps) (simp add: subst_char_def)
next
  case (Suc k)
  then have i: "i < n" by simp
  let ?z = "zip (take n src) (take n dst)"
  have d: "drop i ?z = (src ! i, dst ! i) # drop (Suc i) ?z"
    using i Suc.prems by (subst Cons_nth_drop_Suc [symmetric]) auto
  have "mapchars_inner src dst (Suc i) n c = Ok (subst_char (drop (Suc i) ?z) c)"
    by (rule Suc.hyps(1)) (use Suc i in auto)
  then show ?case
    using i Suc.prems unfolding d by (subst mapchars_inner.simps) (simp add: cres_simps subst_char_def)
qed

lemma sdsmapchars_spec:
  assumes "sds_wf s" "n \<le> length src" "n \<le> length dst"
  shows "\<exists>s'. sdsmapchars s src dst n = Ok s' \<and> sds_wf s' \<and>
     sds_content s' = map (subst_char (zip (take n src) (take n dst))) (sds_content s)"
proof -
  have "int (sdslen s) = sh_len s" using sds_wfD [OF assms(1)] by (simp add: sdslen_wf [OF assms(1)])
  then show ?thesis
    using each_char_sds [OF assms(1), of "mapchars_inner src dst 0 n"
        "subst_char (zip (take n src) (take n dst))"] mapchars_inner_spec [of 0 n src dst] assms(2,3)
    by (auto simp: sdsmapchars_def)
qed

section \<open>Comparison\<close>

fun c_memcmp :: "mem \<Rightarrow> mem \<Rightarrow> int" where
  "c_memcmp (x # xs) (y # ys) =
     (if x = y then c_memcmp xs ys else if (of_char x :: nat) < of_char y then - 1 else 1)"
| "c_memcmp _ _ = 0"

definition sdscmp :: "sdshdr \<Rightarrow> sdshdr \<Rightarrow> int cres" where
  "sdscmp s1 s2 =
     (let l1 = sdslen s1; l2 = sdslen s2; minlen = (if l1 < l2 then l1 else l2) in
      cbind (mem_slice (sh_buf s1) 0 minlen) (\<lambda>a. cbind (mem_slice (sh_buf s2) 0 minlen)
        (\<lambda>b. let cmp = c_memcmp a b in
              if cmp = 0 then Ok (to_i32 (int l1 - int l2)) else Ok cmp)))"

definition byte_less :: "(char \<times> char) set" where
  "byte_less = {(x, y). (of_char x :: nat) < of_char y}"

lemma of_char_nat_eq: "(of_char x :: nat) = of_char y \<longleftrightarrow> x = y"
  by (metis char_of_char)

lemma c_memcmp_lexord:
  "(let n = min (length a) (length b); r = c_memcmp (take n a) (take n b);
        r' = (if r = 0 then int (length a) - int (length b) else r)
    in (r' = 0 \<longleftrightarrow> a = b) \<and> (r' < 0 \<longleftrightarrow> (a, b) \<in> lexord byte_less))"
proof (induction a b rule: list_induct2')
  case (4 x xs y ys)
  then show ?case
    using of_char_nat_eq [of x y] by (auto simp: Let_def byte_less_def)
qed auto

lemma sdscmp_spec:
  assumes "sds_wf s1" "sds_wf s2"
  shows "\<exists>r. sdscmp s1 s2 = Ok r \<and> (r = 0 \<longleftrightarrow> sds_content s1 = sds_content s2) \<and>
             (r < 0 \<longleftrightarrow> (sds_content s1, sds_content s2) \<in> lexord byte_less)"
proof -
  let ?a = "sds_content s1" let ?b = "sds_content s2"
  let ?n = "min (length ?a) (length ?b)"
  have l: "sdslen s1 = length ?a" "sdslen s2 = length ?b" using assms by (simp_all add: sdslen_content)
  have sl: "mem_slice (sh_buf s) 0 n = Ok (take n (sds_content s))"
    if "sds_wf s" "n \<le> length (sds_content s)" for s n
    using that sdslen_le_buf [of s] sdslen_content [of s] sds_content_prefix [of s]
    by (simp add: cres_simps) (metis min.absorb1 take_take)
  have mn: "(if length ?a < length ?b then length ?a else length ?b) = ?n" by (simp add: min_def)
  have n: "?n \<le> length ?a" "?n \<le> length ?b" by simp_all
  have "int (length ?a) \<le> 2147483647" "int (length ?b) \<le> 2147483647"
    using sds_wfD [OF assms(1)] sds_wfD [OF assms(2)] assms by (auto simp: sds_simps)
  then have t: "to_i32 (int (length ?a) - int (length ?b)) = int (length ?a) - int (length ?b)" by simp
  have "sdscmp s1 s2 = Ok (let r = c_memcmp (take ?n ?a) (take ?n ?b)
      in if r = 0 then int (length ?a) - int (length ?b) else r)"
    unfolding sdscmp_def Let_def l mn sl [OF assms(1) n(1)] sl [OF assms(2) n(2)] cbind.simps t
    by simp
  then show ?thesis using c_memcmp_lexord [of ?a ?b] by (simp add: Let_def)
qed

section \<open>Joining\<close>

text \<open>
  The two join functions differ in the concatenation they use. Neither tests the pointers it
  gets back: \<^verbatim>\<open>Null\<close> handed to the next call is a null dereference.
\<close>

fun sdsjoin_loop :: "(nat \<Rightarrow> env) \<Rightarrow> (env \<Rightarrow> sdshdr \<Rightarrow> 'a \<Rightarrow> sdshdr cres) \<Rightarrow> mem \<Rightarrow> nat \<Rightarrow> nat \<Rightarrow>
    'a list \<Rightarrow> sdshdr cres \<Rightarrow> sdshdr cres" where
  "sdsjoin_loop es cat sep seplen j [] joined = joined"
| "sdsjoin_loop es cat sep seplen j (a # argv) joined =
     (let joined = cderef joined (\<lambda>s. cat (es (2 * j)) s a);
          joined = (if argv \<noteq> [] then cderef joined (\<lambda>s. sdscatlen (es (2 * j + 1)) s sep seplen)
                    else joined)
      in sdsjoin_loop es cat sep seplen (Suc j) argv joined)"

definition sdsjoin :: "env \<Rightarrow> (nat \<Rightarrow> env) \<Rightarrow> mem list \<Rightarrow> mem \<Rightarrow> nat \<Rightarrow> sdshdr cres" where
  "sdsjoin e es argv sep seplen = sdsjoin_loop es sdscat sep seplen 0 argv (sdsempty e)"

definition sdsjoinsds :: "env \<Rightarrow> (nat \<Rightarrow> env) \<Rightarrow> sdshdr list \<Rightarrow> mem \<Rightarrow> nat \<Rightarrow> sdshdr cres" where
  "sdsjoinsds e es argv sep seplen = sdsjoin_loop es sdscatsds sep seplen 0 argv (sdsempty e)"

text \<open>Reference: the strings with the separator between each two.\<close>

fun intercalate :: "string \<Rightarrow> string list \<Rightarrow> string" where
  "intercalate sep [] = []"
| "intercalate sep [t] = t"
| "intercalate sep (t # u # ts) = t @ sep @ intercalate sep (u # ts)"

lemma intercalate_Cons: "ts \<noteq> [] \<Longrightarrow> intercalate sep (t # ts) = t @ sep @ intercalate sep ts"
  by (cases ts) auto

lemma sdsjoin_loop_spec:
  assumes env: "\<And>k. alloc_ok (es k)" and sep: "n \<le> length sep"
    and cat: "\<And>e s a. P a \<Longrightarrow> sds_wf s \<Longrightarrow> alloc_ok e \<Longrightarrow> sds_fits (sdslen s + length (txt a)) \<Longrightarrow>
       \<exists>s'. cat e s a = Ok s' \<and> sds_wf s' \<and> sds_content s' = sds_content s @ txt a"
  shows "sds_wf s \<Longrightarrow> \<forall>a \<in> set argv. P a \<Longrightarrow>
    sds_fits (sdslen s + length (intercalate (take n sep) (map txt argv))) \<Longrightarrow>
    \<exists>s'. sdsjoin_loop es cat sep n j argv (Ok s) = Ok s' \<and> sds_wf s' \<and>
         sds_content s' = sds_content s @ intercalate (take n sep) (map txt argv)"
proof (induction argv arbitrary: s j)
  case Nil
  then show ?case by simp
next
  case (Cons a argv)
  have "sds_fits (sdslen s + length (txt a))"
    using Cons.prems(3) by (cases argv) (auto simp: sds_fits_def)
  with cat [of a s "es (2 * j)"] Cons.prems env obtain s1 where
    s1: "cat (es (2 * j)) s a = Ok s1" "sds_wf s1" "sds_content s1 = sds_content s @ txt a" by auto
  show ?case
  proof (cases "argv = []")
    case True
    then show ?thesis using s1 by simp
  next
    case False
    have sl: "sdslen s1 = sdslen s + length (txt a)"
      using s1 Cons.prems(1) by (simp add: sdslen_content)
    have "sds_fits (sdslen s1 + n)"
      using Cons.prems(3) False sl sep by (auto simp: intercalate_Cons sds_fits_def min_def split: if_splits)
    from returns_ex [OF sdscatlen_spec [OF s1(2) sep this, of "es (2 * j + 1)"] env] obtain s2 where
      s2: "sdscatlen (es (2 * j + 1)) s1 sep n = Ok s2" "sds_wf s2"
        "sds_content s2 = sds_content s1 @ take n sep" by blast
    have "sdslen s2 = sdslen s + length (txt a) + length (take n sep)"
      using s1 s2 Cons.prems(1) by (simp add: sdslen_content)
    then have "sds_fits (sdslen s2 + length (intercalate (take n sep) (map txt argv)))"
      using Cons.prems(3) False by (simp add: intercalate_Cons add.assoc)
    from Cons.IH [OF s2(2) _ this, of "Suc j"] show ?thesis
      using False s1 s2 Cons.prems(2) by (auto simp: intercalate_Cons)
  qed
qed

lemma sdsjoin_spec:
  assumes "alloc_ok e" "\<And>k. alloc_ok (es k)" "n \<le> length sep" "\<forall>t \<in> set ts. NUL \<notin> set t"
    "sds_fits (length (intercalate (take n sep) ts))"
  shows "\<exists>s. sdsjoin e es (map cstr ts) sep n = Ok s \<and> sds_wf s \<and>
             sds_content s = intercalate (take n sep) ts"
proof -
  from returns_ex [OF sdsempty_spec assms(1)] obtain s0 where
    s0: "sdsempty e = Ok s0" "sds_wf s0" "sds_content s0 = []" by auto
  have "\<exists>s'. sdsjoin_loop es sdscat sep n 0 (map cstr ts) (Ok s0) = Ok s' \<and> sds_wf s' \<and>
         sds_content s' = sds_content s0 @ intercalate (take n sep) (map butlast (map cstr ts))"
  proof (rule sdsjoin_loop_spec [OF assms(2,3)])
    fix e' s and a :: mem
    assume a: "\<exists>t. a = cstr t \<and> NUL \<notin> set t" "sds_wf s" "alloc_ok e'"
      "sds_fits (sdslen s + length (butlast a))"
    then obtain t where t: "a = cstr t" "NUL \<notin> set t" "butlast a = t" by (auto simp: cstr_def)
    show "\<exists>s'. sdscat e' s a = Ok s' \<and> sds_wf s' \<and> sds_content s' = sds_content s @ butlast a"
      using returns_ex [OF sdscat_spec [OF a(2) t(2)] a(3)] a(4) t by simp
  next
    show "\<forall>a \<in> set (map cstr ts). \<exists>t. a = cstr t \<and> NUL \<notin> set t" using assms(4) by auto
    show "sds_fits (sdslen s0 + length (intercalate (take n sep) (map butlast (map cstr ts))))"
      using assms(5) s0 by (simp add: sdslen_content cstr_def comp_def)
  qed (rule s0)
  then show ?thesis by (simp add: sdsjoin_def s0 cstr_def comp_def)
qed

lemma sdsjoinsds_spec:
  assumes "alloc_ok e" "\<And>k. alloc_ok (es k)" "n \<le> length sep" "\<forall>t \<in> set ts. sds_wf t"
    "sds_fits (length (intercalate (take n sep) (map sds_content ts)))"
  shows "\<exists>s. sdsjoinsds e es ts sep n = Ok s \<and> sds_wf s \<and>
             sds_content s = intercalate (take n sep) (map sds_content ts)"
proof -
  from returns_ex [OF sdsempty_spec assms(1)] obtain s0 where
    s0: "sdsempty e = Ok s0" "sds_wf s0" "sds_content s0 = []" by auto
  have "\<exists>s'. sdsjoin_loop es sdscatsds sep n 0 ts (Ok s0) = Ok s' \<and> sds_wf s' \<and>
         sds_content s' = sds_content s0 @ intercalate (take n sep) (map sds_content ts)"
    by (rule sdsjoin_loop_spec [OF assms(2,3) _ s0(2) assms(4)])
      (use returns_ex [OF sdscatsds_spec] assms(5) s0 in \<open>auto simp: sdslen_content\<close>)
  then show ?thesis by (simp add: sdsjoinsds_def s0)
qed


section \<open>Properties\<close>

text \<open>
  \<^verbatim>\<open>sdstrim\<close> removes, in place, the longest prefix and the longest suffix made of bytes of
  the set and nothing else; the empty string and a string made of such bytes only are covered.
  As the code searches with \<^verbatim>\<open>strchr\<close>, a zero byte counts as a byte of the set.
\<close>
theorem sdstrim_trims:
  assumes "sds_wf s"
  shows "\<exists>s'. sdstrim s cset = Ok s' \<and> sds_wf s' \<and>
              sds_content s' = trim_both (c_strchr cset) (sds_content s)"
  using assms by (rule sdstrim_spec)

theorem sdstrim_trims_witness:
  "\<exists>s'. sdstrim sds_ab ''xa'' = Ok s' \<and> sds_wf s' \<and> sds_content s' = ''b''"
  using sdstrim_trims [OF sds_ab_ok(1), of "''xa''"] by (simp add: trim_both_def c_strchr_def)

text \<open>
  \<^verbatim>\<open>sdsrange\<close> keeps exactly the bytes between two positions, inclusive, where negative
  positions count from the end and positions outside the string are cut back to it: for all
  32-bit positions but the largest end position it stays inside the block and gives that slice.
\<close>
theorem sdsrange_slices:
  assumes "sds_wf s" "- 2147483648 \<le> start" "start \<le> 2147483647" "- 2147483648 \<le> en" "en < 2147483647"
  shows "\<exists>s'. sdsrange s start en = Ok s' \<and> sds_wf s' \<and>
              sds_content s' = range_slice (sds_content s) start en"
  using assms by (rule sdsrange_spec)

theorem sdsrange_slices_witness:
  "\<exists>s'. sdsrange sds_ab (- 1) 5 = Ok s' \<and> sds_wf s' \<and> sds_content s' = ''b''"
proof -
  have "range_slice ''ab'' (- 1) 5 = ''b''" by code_simp
  then show ?thesis using sdsrange_slices [OF sds_ab_ok(1), of "- 1" 5] by simp
qed

text \<open>
  \<^verbatim>\<open>sdscmp\<close> is the lexicographic order on unsigned bytes: zero exactly for equal strings,
  negative exactly when the first one is smaller, a proper prefix being smaller.
\<close>
theorem sdscmp_lexicographic:
  assumes "sds_wf s1" "sds_wf s2"
  shows "\<exists>r. sdscmp s1 s2 = Ok r \<and> (r = 0 \<longleftrightarrow> sds_content s1 = sds_content s2) \<and>
             (r < 0 \<longleftrightarrow> (sds_content s1, sds_content s2) \<in> lexord byte_less)"
  using assms by (rule sdscmp_spec)

theorem sdscmp_lexicographic_witness:
  "\<exists>r. sdscmp sds_ab sds_ab = Ok r \<and> r = 0"
  using sdscmp_lexicographic [OF sds_ab_ok(1) sds_ab_ok(1)] by auto

end
