(* ===== verification/Sds_Split.thy ===== *)
theory Sds_Split
  imports Sds_Edit
begin

text \<open>
  Splitting and quoting of \<^verbatim>\<open>src/win/hiredis/sds.c\<close>: \<^verbatim>\<open>sdssplitlen\<close>,
  \<^verbatim>\<open>sdscatrepr\<close>, \<^verbatim>\<open>is_hex_digit\<close>, \<^verbatim>\<open>hex_digit_to_int\<close> and
  \<^verbatim>\<open>sdssplitargs\<close>. Splitting is compared with a reference that cuts at the leftmost
  occurrences of the separator and is undone by joining; quoting a string and splitting the
  quoted text gives the string back.
\<close>

section \<open>Splitting at a separator\<close>

definition sep_at :: "mem \<Rightarrow> int \<Rightarrow> mem \<Rightarrow> int \<Rightarrow> bool cres" where
  "sep_at s j sep seplen =
     cbind (if seplen = 1
            then cbind (mem_read s j) (\<lambda>a. cbind (mem_read sep 0) (\<lambda>b. Ok (a = b)))
            else Ok False)
       (\<lambda>m. if m then Ok True
             else cbind (mem_slice s j (nat seplen)) (\<lambda>a. cbind (mem_slice sep 0 (nat seplen))
               (\<lambda>b. Ok (c_memcmp a b = 0))))"

text \<open>
  The loop. \<^verbatim>\<open>slots\<close> is the capacity of the token array; \<^verbatim>\<open>Null\<close> is the jump
  to \<^verbatim>\<open>cleanup\<close>. The test \<open>1 \<le> seplen\<close> is the one made on entry.
\<close>

function sdssplitlen_loop :: "(nat \<Rightarrow> env) \<Rightarrow> mem \<Rightarrow> int \<Rightarrow> mem \<Rightarrow> int \<Rightarrow> int \<Rightarrow> int \<Rightarrow> int \<Rightarrow>
    sdshdr list \<Rightarrow> (sdshdr list \<times> int) cres" where
  "sdssplitlen_loop es s len sep seplen slots start j tokens =
     (if 1 \<le> seplen \<and> j < len - (seplen - 1) then
        (let full = slots < int (length tokens) + 2;
             slots' = (if full then to_i32 (slots * 2) else slots)
         in if full \<and> \<not> can_alloc (es (nat (2 * j))) (to_size (8 * slots')) then Null
            else cbind (sep_at s j sep seplen)
              (\<lambda>m. if m then
                     cbind (sdsnewlen (es (nat (2 * j + 1))) (Some (drop (nat start) s)) (to_size (j - start)))
                       (\<lambda>tok. sdssplitlen_loop es s len sep seplen slots' (j + seplen) (j + seplen)
                                (tokens @ [tok]))
                   else sdssplitlen_loop es s len sep seplen slots' start (j + 1) tokens))
      else Ok (tokens, start))"
  by pat_completeness auto
termination
  by (relation "measure (\<lambda>(es, s, len, sep, seplen, slots, start, j, tokens). nat (len - j))") auto

declare sdssplitlen_loop.simps [simp del]

definition sdssplitlen :: "env \<Rightarrow> (nat \<Rightarrow> env) \<Rightarrow> env \<Rightarrow> mem \<Rightarrow> int \<Rightarrow> mem \<Rightarrow> int \<Rightarrow> sdshdr list cres" where
  "sdssplitlen e0 es e1 s len sep seplen =
     (if seplen < 1 \<or> len < 0 then Null
      else if \<not> can_alloc e0 (to_size (8 * 5)) then Null
      else if len = 0 then Ok []
      else cbind (sdssplitlen_loop es s len sep seplen 5 0 0 [])
             (\<lambda>(tokens, start). cbind (sdsnewlen e1 (Some (drop (nat start) s)) (to_size (len - start)))
               (\<lambda>tok. Ok (tokens @ [tok]))))"

text \<open>Reference: cut at the leftmost occurrences of a non-empty separator.\<close>

function split_ref :: "string \<Rightarrow> string \<Rightarrow> string \<Rightarrow> string list" where
  "split_ref sep cur t =
     (if sep = [] \<or> length t < length sep then [cur @ t]
      else if take (length sep) t = sep then cur # split_ref sep [] (drop (length sep) t)
      else split_ref sep (cur @ [hd t]) (tl t))"
  by pat_completeness auto
termination
proof (relation "measure (\<lambda>(sep, cur, t). length t)", goal_cases)
  case (2 sep cur t)
  then show ?case by (cases sep; cases t) auto
next
  case (3 sep cur t)
  then have "0 < length t" by (cases sep) auto
  then show ?case by simp
qed simp

declare split_ref.simps [simp del]

lemma split_ref_nonempty [simp]: "split_ref sep cur t \<noteq> []"
  by (induction sep cur t rule: split_ref.induct) (subst split_ref.simps, simp)

lemma intercalate_split_ref: "intercalate sep (split_ref sep cur t) = cur @ t"
proof (induction sep cur t rule: split_ref.induct)
  case (1 sep cur t)
  consider "sep = [] \<or> length t < length sep"
    | "\<not> (sep = [] \<or> length t < length sep)" "take (length sep) t = sep"
    | "\<not> (sep = [] \<or> length t < length sep)" "take (length sep) t \<noteq> sep" by blast
  then show ?case
  proof cases
    case 1
    then show ?thesis by (subst split_ref.simps) simp
  next
    case 2
    then show ?thesis
      using "1.IH"(1) by (subst split_ref.simps)
        (simp add: intercalate_Cons, metis append_take_drop_id)
  next
    case 3
    then have "t \<noteq> []" by auto
    then show ?thesis using 3 "1.IH"(2) by (subst split_ref.simps) simp
  qed
qed

lemma c_memcmp_0: "length a = length b \<Longrightarrow> c_memcmp a b = 0 \<longleftrightarrow> a = b"
  by (induction a b rule: list_induct2) auto

lemma sep_at_spec:
  assumes "n \<le> length sep" "1 \<le> n" "i + n \<le> length s"
  shows "sep_at s (int i) sep (int n) = Ok (take n (drop i s) = take n sep)"
proof -
  have "mem_slice s (int i) n = Ok (take n (drop i s))" "mem_slice sep 0 n = Ok (take n sep)"
    using assms by (simp_all add: cres_simps)
  moreover have "length (take n (drop i s)) = length (take n sep)" using assms by simp
  moreover have "mem_read s (int i) = Ok (s ! i)" "mem_read sep 0 = Ok (sep ! 0)"
    using assms by (auto simp: mem_read_def)
  moreover have "take n (drop i s) = take n sep" if "n = 1" "s ! i = sep ! 0"
    using that assms by (cases sep) (auto simp: take_Suc hd_drop_conv_nth)
  ultimately show ?thesis by (auto simp: sep_at_def c_memcmp_0)
qed

lemma sdssplitlen_loop_spec:
  assumes env: "\<And>k. alloc_ok (es k)" and n: "1 \<le> n" "n \<le> length sep"
    and len: "len \<le> length s" "len \<le> 2147483647"
  shows "start \<le> j \<Longrightarrow> j \<le> len \<Longrightarrow> \<forall>t \<in> set tokens. sds_wf t \<Longrightarrow>
    \<exists>toks st. sdssplitlen_loop es s (int len) sep (int n) slots (int start) (int j) tokens = Ok (toks, int st) \<and>
      st \<le> len \<and> (\<forall>t \<in> set toks. sds_wf t) \<and>
      map sds_content toks @ [drop st (take len s)]
        = map sds_content tokens @ split_ref (take n sep) (take (j - start) (drop start s)) (drop j (take len s))"
proof (induction "len - j" arbitrary: j start slots tokens rule: less_induct)
  case less
  let ?sep = "take n sep" let ?cur = "take (j - start) (drop start s)" let ?t = "drop j (take len s)"
  have ls: "length ?sep = n" "?sep \<noteq> []" "length ?t = len - j" using n len less.prems by auto
  show ?case
  proof (cases "j + n \<le> len")
    case False
    have "length ?t < length ?sep" using False ls n by linarith
    then have "split_ref ?sep ?cur ?t = [?cur @ ?t]"
      by (subst split_ref.simps) (simp only: simp_thms if_True)
    moreover have "?cur @ ?t = drop start (take len s)"
      by (rule window_append) (use less.prems in auto)
    moreover have "sdssplitlen_loop es s (int len) sep (int n) slots (int start) (int j) tokens
        = Ok (tokens, int start)"
      using False by (subst sdssplitlen_loop.simps) auto
    ultimately show ?thesis using less.prems by auto
  next
    case True
    have at: "sep_at s (int j) sep (int n) = Ok (take n (drop j s) = ?sep)"
      by (rule sep_at_spec) (use n True len in auto)
    have tk: "take n ?t = take n (drop j s)" using True by (simp add: take_drop min_def)
    have lt: "\<not> (?sep = [] \<or> length ?t < length ?sep)" using ls True by linarith
    have guard: "1 \<le> int n \<and> int j < int len - (int n - 1)" using True n by auto
    let ?slots = "if slots < int (length tokens) + 2 then to_i32 (slots * 2) else slots"
    show ?thesis
    proof (cases "take n (drop j s) = ?sep")
      case m: True
      have "to_size (int j - int start) = j - start" "j - start \<le> 2147483647"
          "j - start \<le> length (drop start s)"
        using less.prems len by auto
      with returns_ex [OF sdsnewlen_spec env] obtain tok where
        tok: "sdsnewlen (es (nat (2 * int j + 1))) (Some (drop start s)) (to_size (int j - int start)) = Ok tok"
          "sds_wf tok" "sds_content tok = ?cur" by metis
      have "\<exists>toks st. sdssplitlen_loop es s (int len) sep (int n) ?slots (int (j + n)) (int (j + n)) (tokens @ [tok])
          = Ok (toks, int st) \<and> st \<le> len \<and> (\<forall>t \<in> set toks. sds_wf t) \<and>
          map sds_content toks @ [drop st (take len s)] = map sds_content (tokens @ [tok]) @
            split_ref ?sep (take (j + n - (j + n)) (drop (j + n) s)) (drop (j + n) (take len s))"
        by (rule less.hyps) (use True n less.prems tok in auto)
      moreover have "split_ref ?sep ?cur ?t = ?cur # split_ref ?sep [] (drop (j + n) (take len s))"
        by (subst split_ref.simps, subst if_not_P [OF lt], subst if_P)
          (simp_all only: ls(1) tk m drop_drop add.commute)
      ultimately show ?thesis
        using m tok env guard by (subst sdssplitlen_loop.simps) (simp add: at alloc_ok_def Let_def)
    next
      case m: False
      have "\<exists>toks st. sdssplitlen_loop es s (int len) sep (int n) ?slots (int start) (int (Suc j)) tokens
          = Ok (toks, int st) \<and> st \<le> len \<and> (\<forall>t \<in> set toks. sds_wf t) \<and>
          map sds_content toks @ [drop st (take len s)] = map sds_content tokens @
            split_ref ?sep (take (Suc j - start) (drop start s)) (drop (Suc j) (take len s))"
        by (rule less.hyps) (use True n less.prems in auto)
      moreover have "?cur @ [hd ?t] = take (Suc j - start) (drop start s)" "tl ?t = drop (Suc j) (take len s)"
        using less.prems len True n
        by (auto simp: hd_drop_conv_nth Suc_diff_le take_Suc_conv_app_nth tl_drop drop_Suc)
      moreover have "split_ref ?sep ?cur ?t = split_ref ?sep (?cur @ [hd ?t]) (tl ?t)"
        by (subst split_ref.simps, subst if_not_P [OF lt], subst if_not_P) (simp_all only: ls(1) tk m simp_thms)
      moreover have "sdssplitlen_loop es s (int len) sep (int n) slots (int start) (int j) tokens
          = sdssplitlen_loop es s (int len) sep (int n) ?slots (int start) (int (Suc j)) tokens"
        using m env guard by (subst sdssplitlen_loop.simps) (simp add: at alloc_ok_def Let_def add.commute)
      ultimately show ?thesis by (simp only:)
    qed
  qed
qed

lemma sdssplitlen_spec:
  assumes "alloc_ok e0" "\<And>k. alloc_ok (es k)" "alloc_ok e1" "1 \<le> n" "n \<le> length sep"
    "0 < len" "len \<le> length s" "len \<le> 2147483647"
  shows "\<exists>toks. sdssplitlen e0 es e1 s (int len) sep (int n) = Ok toks \<and> (\<forall>t \<in> set toks. sds_wf t) \<and>
      map sds_content toks = split_ref (take n sep) [] (take len s)"
proof -
  from sdssplitlen_loop_spec [where es = es and start = 0 and j = 0 and tokens = "[]" and slots = 5, OF assms(2,4,5,7,8)] obtain toks st where
    l: "sdssplitlen_loop es s (int len) sep (int n) 5 0 0 [] = Ok (toks, int st)" "st \<le> len"
      "\<forall>t \<in> set toks. sds_wf t"
      "map sds_content toks @ [drop st (take len s)] = split_ref (take n sep) [] (take len s)" by auto
  have sz: "to_size (int len - int st) = len - st" using l(2) assms(8) by simp
  have "len - st \<le> length (drop st s)" "len - st \<le> 2147483647" using assms l(2) by auto
  from returns_ex [OF sdsnewlen_spec [OF this] assms(3)] obtain tok where
    tok: "sdsnewlen e1 (Some (drop st s)) (len - st) = Ok tok" "sds_wf tok"
      "sds_content tok = drop st (take len s)" by (auto simp: drop_take)
  then show ?thesis
    using l assms(1,4,6) by (simp add: sdssplitlen_def sz alloc_ok_def)
qed

section \<open>Quoting\<close>

definition hex_digit :: "nat \<Rightarrow> char" where
  "hex_digit d = (if d < 10 then char_of (48 + d) else char_of (87 + d))"

text \<open>What the \<^verbatim>\<open>switch\<close> appends for one byte; \<^verbatim>\<open>%02x\<close> prints two lower-case digits.\<close>

definition repr_char :: "char \<Rightarrow> string" where
  "repr_char c =
     (if c = CHR 0x5C \<or> c = CHR 0x22 then [CHR 0x5C, c]
      else if c = CHR 0x0A then [CHR 0x5C, CHR ''n'']
      else if c = CHR 0x0D then [CHR 0x5C, CHR ''r'']
      else if c = CHR 0x09 then [CHR 0x5C, CHR ''t'']
      else if c = CHR 0x07 then [CHR 0x5C, CHR ''a'']
      else if c = CHR 0x08 then [CHR 0x5C, CHR ''b'']
      else if c_isprint c then [c]
      else [CHR 0x5C, CHR ''x'', hex_digit (of_char c div 16), hex_digit (of_char c mod 16)])"

text \<open>
  The environments of the calls for the byte at index \<^verbatim>\<open>k\<close> are \<^verbatim>\<open>es k\<close>. The
  fixed escapes are appended with \<^verbatim>\<open>sdscatlen\<close>, the others with
  \<^verbatim>\<open>sdscatprintf\<close>; neither result is tested.
\<close>

definition sdscatrepr_char :: "(nat \<Rightarrow> env) \<Rightarrow> sdshdr \<Rightarrow> char \<Rightarrow> sdshdr cres" where
  "sdscatrepr_char es s c =
     (if c \<in> {CHR 0x0A, CHR 0x0D, CHR 0x09, CHR 0x07, CHR 0x08}
      then sdscatlen (es 0) s (cstr (repr_char c)) 2
      else sdscatvprintf (\<lambda>i. es (Suc i)) (es 0) s (repr_char c))"

fun sdscatrepr_loop :: "(nat \<Rightarrow> nat \<Rightarrow> env) \<Rightarrow> mem \<Rightarrow> nat \<Rightarrow> nat \<Rightarrow> sdshdr cres \<Rightarrow> sdshdr cres" where
  "sdscatrepr_loop es p k 0 s = s"
| "sdscatrepr_loop es p k (Suc n) s =
     cbind (mem_read p (int k))
       (\<lambda>c. sdscatrepr_loop es p (Suc k) n (cderef s (\<lambda>s. sdscatrepr_char (es k) s c)))"

definition sdscatrepr :: "env \<Rightarrow> (nat \<Rightarrow> nat \<Rightarrow> env) \<Rightarrow> env \<Rightarrow> sdshdr \<Rightarrow> mem \<Rightarrow> nat \<Rightarrow> sdshdr cres" where
  "sdscatrepr e0 es e1 s p n =
     cderef (sdscatrepr_loop es p 0 n (sdscatlen e0 s (cstr [CHR 0x22]) 1))
       (\<lambda>s. sdscatlen e1 s (cstr [CHR 0x22]) 1)"

definition repr_ref :: "string \<Rightarrow> string" where
  "repr_ref t = CHR 0x22 # concat (map repr_char t) @ [CHR 0x22]"

section \<open>Splitting a command line\<close>

definition is_hex_digit :: "char \<Rightarrow> bool" where
  "is_hex_digit c \<longleftrightarrow> (let n = of_char c :: nat in
     (48 \<le> n \<and> n \<le> 57) \<or> (97 \<le> n \<and> n \<le> 102) \<or> (65 \<le> n \<and> n \<le> 70))"

definition hex_digit_to_int :: "char \<Rightarrow> nat" where
  "hex_digit_to_int c = (let n = of_char c :: nat in
     if 48 \<le> n \<and> n \<le> 57 then n - 48
     else if 97 \<le> n \<and> n \<le> 102 then n - 87
     else if 65 \<le> n \<and> n \<le> 70 then n - 55
     else 0)"

definition unescape :: "char \<Rightarrow> char" where
  "unescape c =
     (if c = CHR ''n'' then CHR 0x0A else if c = CHR ''r'' then CHR 0x0D
      else if c = CHR ''t'' then CHR 0x09 else if c = CHR ''b'' then CHR 0x08
      else if c = CHR ''a'' then CHR 0x07 else c)"

definition hex_escape :: "string \<Rightarrow> bool" where
  "hex_escape p \<longleftrightarrow> (case p of b # x # h1 # h2 # _ \<Rightarrow>
     b = CHR 0x5C \<and> x = CHR ''x'' \<and> is_hex_digit h1 \<and> is_hex_digit h2 | _ \<Rightarrow> False)"

definition put1 :: "env \<Rightarrow> sdshdr option \<Rightarrow> char \<Rightarrow> sdshdr option cres" where
  "put1 e current c =
     (case current of None \<Rightarrow> Fault NullDeref | Some s \<Rightarrow> nullable (sdscatlen e s [c] 1))"

text \<open>
  One token. The line is what is left of a terminated string, \<open>[]\<close> is its terminator;
  \<open>Null\<close> is the jump to \<^verbatim>\<open>err\<close>; \<^verbatim>\<open>current\<close> is a pointer the code never tests.
\<close>

function (sequential) sdssplitargs_token ::
    "(nat \<Rightarrow> env) \<Rightarrow> nat \<Rightarrow> bool \<Rightarrow> bool \<Rightarrow> string \<Rightarrow> sdshdr option \<Rightarrow> (sdshdr option \<times> string) cres" where
  "sdssplitargs_token es k inq insq p current =
     (if inq then
        (if hex_escape p then
           cbind (put1 (es k) current
                   (char_of (hex_digit_to_int (p ! 2) * 16 + hex_digit_to_int (p ! 3))))
             (\<lambda>cur. sdssplitargs_token es (Suc k) inq insq (drop 4 p) cur)
         else case p of
           [] \<Rightarrow> Null
         | c # p1 \<Rightarrow>
             if c = CHR 0x5C \<and> p1 \<noteq> [] then
               cbind (put1 (es k) current (unescape (hd p1)))
                 (\<lambda>cur. sdssplitargs_token es (Suc k) inq insq (tl p1) cur)
             else if c = CHR 0x22 then
               (if p1 \<noteq> [] \<and> \<not> c_isspace (hd p1) then Null else Ok (current, p1))
             else
               cbind (put1 (es k) current c)
                 (\<lambda>cur. sdssplitargs_token es (Suc k) inq insq p1 cur))
      else if insq then
        (case p of
           [] \<Rightarrow> Null
         | c # p1 \<Rightarrow>
             if c = CHR 0x5C \<and> p1 \<noteq> [] \<and> hd p1 = CHR 0x27 then
               cbind (put1 (es k) current (CHR 0x27))
                 (\<lambda>cur. sdssplitargs_token es (Suc k) inq insq (tl p1) cur)
             else if c = CHR 0x27 then
               (if p1 \<noteq> [] \<and> \<not> c_isspace (hd p1) then Null else Ok (current, p1))
             else
               cbind (put1 (es k) current c)
                 (\<lambda>cur. sdssplitargs_token es (Suc k) inq insq p1 cur))
      else
        (case p of
           [] \<Rightarrow> Ok (current, [])
         | c # p1 \<Rightarrow>
             if c \<in> {CHR '' '', CHR 0x0A, CHR 0x0D, CHR 0x09} then Ok (current, p1)
             else if c = CHR 0x22 then sdssplitargs_token es (Suc k) True insq p1 current
             else if c = CHR 0x27 then sdssplitargs_token es (Suc k) inq True p1 current
             else
               cbind (put1 (es k) current c)
                 (\<lambda>cur. sdssplitargs_token es (Suc k) inq insq p1 cur)))"
  by pat_completeness auto
termination
proof (relation "measure (\<lambda>(es, k, inq, insq, p, current). length p)", goal_cases)
  case (2 es k inq insq p current cur)
  then have "4 \<le> length p" by (auto simp: hex_escape_def split: list.splits)
  then show ?case by simp
qed auto

declare sdssplitargs_token.simps [simp del]

lemma sdssplitargs_token_shrinks:
  "sdssplitargs_token es k inq insq p current = Ok (cur, p') \<Longrightarrow>
   length p' \<le> length p \<and> (p \<noteq> [] \<longrightarrow> length p' < length p)"
proof (induction "length p" arbitrary: k inq insq p current rule: less_induct)
  case less
  have IH: "length p' \<le> length q"
    if "sdssplitargs_token es k' i j q c = Ok (cur, p')" "length q < length p" for k' i j q c
    using less.hyps that by blast
  show ?case
  proof (cases p)
    case Nil
    then show ?thesis
      using less.prems by (subst (asm) sdssplitargs_token.simps) (auto simp: hex_escape_def split: if_splits)
  next
    case (Cons c p1)
    have "length p' \<le> length p1"
      using less.prems Cons
      by (subst (asm) sdssplitargs_token.simps) (force split: if_splits dest: IH)
    then show ?thesis using Cons by simp
  qed
qed

function sdssplitargs_loop :: "(nat \<Rightarrow> nat \<Rightarrow> env) \<Rightarrow> nat \<Rightarrow> string \<Rightarrow> sdshdr option list \<Rightarrow>
    sdshdr option list cres" where
  "sdssplitargs_loop es k p vector =
     (if dropWhile c_isspace p \<noteq> [] then
        cbind (nullable (sdsempty (es k 0)))
          (\<lambda>current. cbind (sdssplitargs_token (\<lambda>i. es k (i + 2)) 0 False False (dropWhile c_isspace p) current)
            (\<lambda>(current, p'). if \<not> can_alloc (es k 1) (8 * (length vector + 1)) then Fault NullDeref
               else sdssplitargs_loop es (Suc k) p' (vector @ [current])))
      else if vector = [] \<and> \<not> can_alloc (es k 1) 8 then Null
      else Ok vector)"
  by pat_completeness auto
termination
proof (relation "measure (\<lambda>(es, k, p, vector). length p)", goal_cases)
  case (2 es k p vector current x current' p')
  then have "length p' < length (dropWhile c_isspace p)"
    using sdssplitargs_token_shrinks by fastforce
  then show ?case using length_dropWhile_le [of c_isspace p] by simp
qed simp

declare sdssplitargs_loop.simps [simp del]

definition sdssplitargs :: "(nat \<Rightarrow> nat \<Rightarrow> env) \<Rightarrow> string \<Rightarrow> sdshdr option list cres" where
  "sdssplitargs es line = sdssplitargs_loop es 0 line []"

section \<open>Quoting and splitting are inverse\<close>

lemma hex_digit_props:
  assumes "d < 16"
  shows "is_hex_digit (hex_digit d)" "hex_digit_to_int (hex_digit d) = d" "hex_digit d \<noteq> NUL"
proof -
  have c: "of_char (hex_digit d) = (if d < 10 then 48 + d else 87 + d)"
    using assms by (simp add: hex_digit_def)
  show "is_hex_digit (hex_digit d)" "hex_digit_to_int (hex_digit d) = d"
    using assms by (auto simp: is_hex_digit_def hex_digit_to_int_def c)
  show "hex_digit d \<noteq> NUL"
  proof
    assume "hex_digit d = NUL"
    then have "of_char (hex_digit d) = (0 :: nat)" by simp
    then show False using c by (simp split: if_splits)
  qed
qed

lemma hex_byte: "of_char c div 16 * 16 + of_char c mod 16 = (of_char c :: nat)"
  by presburger

lemma c_isprint_not_NUL: "c_isprint c \<Longrightarrow> c \<noteq> NUL"
  by (auto simp: c_isprint_def)

lemma hex_nibble: "(of_char c :: nat) div 16 < 16"
  using nat_of_char_less_256 [of c] by (simp add: less_mult_imp_div_less)

lemma repr_char_no_NUL: "NUL \<notin> set (repr_char c)"
  using hex_digit_props(3) [OF hex_nibble [of c]] hex_digit_props(3) [of "of_char c mod 16"]
    c_isprint_not_NUL [of c]
  by (auto simp: repr_char_def)

lemma length_repr_char: "length (repr_char c) \<le> 4"
  by (simp add: repr_char_def)

lemma sdscatrepr_char_spec:
  assumes "sds_wf s" "sds_fits (sdslen s + 4)" "\<And>i. alloc_ok (es i)"
  shows "\<exists>s'. sdscatrepr_char es s c = Ok s' \<and> sds_wf s' \<and> sds_content s' = sds_content s @ repr_char c"
proof (cases "c \<in> {CHR 0x0A, CHR 0x0D, CHR 0x09, CHR 0x07, CHR 0x08}")
  case True
  then have l: "length (repr_char c) = 2" by (auto simp: repr_char_def)
  have "sds_fits (sdslen s + 2)" "2 \<le> length (cstr (repr_char c))" using assms(2) l by (auto simp: sds_fits_def)
  from returns_ex [OF sdscatlen_spec [OF assms(1) this(2,1)] assms(3), of 0] show ?thesis
    using True l take_cstr [of "repr_char c"] by (simp add: sdscatrepr_char_def)
next
  case False
  have "sds_fits (sdslen s + length (repr_char c))"
    using assms(2) length_repr_char [of c] by (simp add: sds_fits_def)
  from returns_ex [OF sdscatvprintf_spec [OF assms(1) repr_char_no_NUL this,
      of "es 0" "\<lambda>i. es (Suc i)"]] show ?thesis
    using False assms(3) by (auto simp: sdscatrepr_char_def)
qed

lemma sdscatrepr_loop_spec:
  assumes env: "\<And>i j. alloc_ok (es i j)"
  shows "sds_wf s \<Longrightarrow> k + n \<le> length p \<Longrightarrow> sds_fits (sdslen s + 4 * n) \<Longrightarrow>
    \<exists>s'. sdscatrepr_loop es p k n (Ok s) = Ok s' \<and> sds_wf s' \<and>
         sds_content s' = sds_content s @ concat (map repr_char (take n (drop k p)))"
proof (induction n arbitrary: k s)
  case 0
  then show ?case by simp
next
  case (Suc n)
  have r: "mem_read p (int k) = Ok (p ! k)" using Suc.prems by (simp add: cres_simps)
  have "sds_fits (sdslen s + 4)" using Suc.prems(3) by (simp add: sds_fits_def)
  from sdscatrepr_char_spec [where es = "es k" and c = "p ! k", OF Suc.prems(1) this env] obtain s1 where
    s1: "sdscatrepr_char (es k) s (p ! k) = Ok s1" "sds_wf s1" "sds_content s1 = sds_content s @ repr_char (p ! k)"
    by auto
  have "sds_fits (sdslen s1 + 4 * n)"
    using Suc.prems s1 length_repr_char [of "p ! k"] by (simp add: sdslen_content sds_fits_def)
  from Suc.IH [OF s1(2) _ this, of "Suc k"] Suc.prems(2) obtain s2 where
    s2: "sdscatrepr_loop es p (Suc k) n (Ok s1) = Ok s2" "sds_wf s2"
      "sds_content s2 = sds_content s1 @ concat (map repr_char (take n (drop (Suc k) p)))" by auto
  have "take (Suc n) (drop k p) = p ! k # take n (drop (Suc k) p)"
    using Suc.prems(2) by (subst Cons_nth_drop_Suc [symmetric]) auto
  then show ?case using s1 s2 by (simp add: r)
qed

lemma sdscatrepr_spec:
  assumes "sds_wf s" "n \<le> length p" "sds_fits (sdslen s + 4 * n + 2)" "alloc_ok e0" "alloc_ok e1"
    "\<And>i j. alloc_ok (es i j)"
  shows "\<exists>s'. sdscatrepr e0 es e1 s p n = Ok s' \<and> sds_wf s' \<and>
              sds_content s' = sds_content s @ repr_ref (take n p)"
proof -
  let ?q = "cstr [CHR 0x22]"
  have q: "1 \<le> length ?q" "take 1 ?q = [CHR 0x22]" by (simp_all add: cstr_def)
  have "sds_fits (sdslen s + 1)" using assms(3) by (simp add: sds_fits_def)
  from returns_ex [OF sdscatlen_spec [OF assms(1) q(1) this] assms(4)] obtain s1 where
    s1: "sdscatlen e0 s ?q 1 = Ok s1" "sds_wf s1" "sds_content s1 = sds_content s @ [CHR 0x22]"
    using q by auto
  have l1: "sdslen s1 = sdslen s + 1" using s1 assms(1) by (simp add: sdslen_content)
  have "sds_fits (sdslen s1 + 4 * n)" using assms(3) by (simp add: l1 sds_fits_def)
  from sdscatrepr_loop_spec [where es = es and k = 0, OF assms(6) s1(2) _ this, of p] assms(2) obtain s2 where
    s2: "sdscatrepr_loop es p 0 n (Ok s1) = Ok s2" "sds_wf s2"
      "sds_content s2 = sds_content s1 @ concat (map repr_char (take n p))" by auto
  have "length (concat (map repr_char t)) \<le> 4 * length t" for t
    by (induction t) (use length_repr_char in \<open>auto intro: add_mono order_trans\<close>)
  from this [of "take n p"] have "sdslen s2 \<le> sdslen s1 + 4 * n"
    using s1 s2 assms(2) by (simp add: sdslen_content)
  then have "sds_fits (sdslen s2 + 1)" using assms(3) by (simp add: l1 sds_fits_def)
  from returns_ex [OF sdscatlen_spec [OF s2(2) q(1) this] assms(5)] obtain s3 where
    "sdscatlen e1 s2 ?q 1 = Ok s3" "sds_wf s3" "sds_content s3 = sds_content s2 @ [CHR 0x22]"
    using q by auto
  then show ?thesis
    unfolding sdscatrepr_def s1(1) s2(1) by (simp add: s1 s2 repr_ref_def)
qed

text \<open>One quoted byte is read back as that byte.\<close>

lemma put1_spec:
  assumes "sds_wf s" "sds_fits (sdslen s + 1)" "alloc_ok e"
  shows "\<exists>s'. put1 e (Some s) c = Ok (Some s') \<and> sds_wf s' \<and> sds_content s' = sds_content s @ [c]"
  using returns_ex [OF sdscatlen_spec [OF assms(1) _ assms(2), of "[c]"] assms(3)]
  by (auto simp: put1_def)

lemma token_repr_char:
  "sdssplitargs_token es k True insq (repr_char c @ rest) current
     = cbind (put1 (es k) current c) (\<lambda>cur. sdssplitargs_token es (Suc k) True insq rest cur)"
proof -
  have nh: "\<not> hex_escape (CHR 0x5C # d # rest')" if "d \<noteq> CHR ''x''" for d rest'
    using that by (auto simp: hex_escape_def split: list.splits)
  have np: "\<not> hex_escape (d # rest')" if "d \<noteq> CHR 0x5C" for d rest'
    using that by (auto simp: hex_escape_def split: list.splits)
  have hx: "hex_escape (CHR 0x5C # CHR ''x'' # hex_digit (of_char c div 16) # hex_digit (of_char c mod 16) # rest)"
    using hex_digit_props(1) [OF hex_nibble [of c]] hex_digit_props(1) [of "of_char c mod 16"]
    by (simp add: hex_escape_def)
  have val: "char_of (hex_digit_to_int (hex_digit (of_char c div 16)) * 16
      + hex_digit_to_int (hex_digit (of_char c mod 16))) = c"
    using hex_digit_props(2) [OF hex_nibble [of c]] hex_digit_props(2) [of "of_char c mod 16"] hex_byte [of c]
    by simp
  show ?thesis
    by (subst sdssplitargs_token.simps)
      (use hx val in \<open>auto simp: repr_char_def nh np unescape_def\<close>)
qed

lemma token_quoted:
  assumes "\<And>i. alloc_ok (es i)"
  shows "sds_wf s \<Longrightarrow> sds_fits (sdslen s + length t) \<Longrightarrow>
    \<exists>s'. sdssplitargs_token es k True insq (concat (map repr_char t) @ [CHR 0x22]) (Some s) = Ok (Some s', [])
      \<and> sds_wf s' \<and> sds_content s' = sds_content s @ t"
proof (induction t arbitrary: s k)
  case Nil
  then show ?case by (subst sdssplitargs_token.simps) (simp add: hex_escape_def)
next
  case (Cons c t)
  have "sds_fits (sdslen s + 1)" using Cons.prems(2) by (simp add: sds_fits_def)
  from put1_spec [OF Cons.prems(1) this assms] obtain s1 where
    s1: "put1 (es k) (Some s) c = Ok (Some s1)" "sds_wf s1" "sds_content s1 = sds_content s @ [c]" by blast
  have "sds_fits (sdslen s1 + length t)" using Cons.prems s1 by (simp add: sdslen_content)
  from Cons.IH [OF s1(2) this, of "Suc k"] show ?case using s1 by (auto simp: token_repr_char)
qed

lemma sdssplitargs_repr:
  assumes "\<And>i j. alloc_ok (es i j)" "sds_fits (length t)"
  shows "\<exists>s. sdssplitargs es (repr_ref t) = Ok [Some s] \<and> sds_wf s \<and> sds_content s = t"
proof -
  from returns_ex [OF sdsempty_spec assms(1)] obtain s0 where
    s0: "sdsempty (es 0 0) = Ok s0" "sds_wf s0" "sds_content s0 = []" by blast
  have q: "dropWhile c_isspace (repr_ref t) = repr_ref t" "repr_ref t \<noteq> []"
    by (simp_all add: repr_ref_def c_isspace_def)
  have "sds_fits (sdslen s0 + length t)" using s0 assms(2) by (simp add: sdslen_content)
  from token_quoted [where es = "\<lambda>i. es 0 (i + 2)" and k = 1 and insq = False, OF assms(1) s0(2) this]
  obtain s1 where s1: "sdssplitargs_token (\<lambda>i. es 0 (i + 2)) 1 True False
      (concat (map repr_char t) @ [CHR 0x22]) (Some s0) = Ok (Some s1, [])" "sds_wf s1" "sds_content s1 = t"
    using s0 by auto
  have "sdssplitargs_token (\<lambda>i. es 0 (i + 2)) 0 False False (repr_ref t) (Some s0) = Ok (Some s1, [])"
    using s1(1) by (subst sdssplitargs_token.simps) (simp add: repr_ref_def)
  moreover have "sdssplitargs_loop es 1 [] [Some s1] = Ok [Some s1]"
    by (subst sdssplitargs_loop.simps) simp
  ultimately have "sdssplitargs es (repr_ref t) = Ok [Some s1]"
    using assms(1) unfolding sdssplitargs_def
    by (subst sdssplitargs_loop.simps) (simp add: q s0 alloc_ok_def)
  then show ?thesis using s1 by blast
qed


section \<open>Properties\<close>

text \<open>
  Splitting and joining are inverse: the tokens \<^verbatim>\<open>sdssplitlen\<close> returns for a non-empty
  string and a non-empty separator, joined by \<^verbatim>\<open>sdsjoinsds\<close> with the same separator, give the
  string back, and neither call leaves its memory or runs into the null pointer.
\<close>
theorem sdssplitlen_join_roundtrip:
  assumes "\<And>k. alloc_ok (es k)" "sep \<noteq> []" "t \<noteq> []" "sds_fits (length t)"
  shows "\<exists>toks s. sdssplitlen (es 0) es (es 1) t (int (length t)) sep (int (length sep)) = Ok toks \<and>
           sdsjoinsds (es 0) es toks sep (length sep) = Ok s \<and> sds_wf s \<and> sds_content s = t"
proof -
  have len: "1 \<le> length sep" "0 < length t" "length t \<le> 2147483647"
    using assms(2-4) by (auto simp: Suc_le_eq sds_fits_def SDS_MAX_PREALLOC_def)
  from sdssplitlen_spec [of "es 0" es "es 1", OF assms(1) assms(1) assms(1) len(1) order_refl len(2) order_refl len(3)]
  obtain toks where toks: "sdssplitlen (es 0) es (es 1) t (int (length t)) sep (int (length sep)) = Ok toks"
    "\<forall>u \<in> set toks. sds_wf u" "map sds_content toks = split_ref sep [] t" by auto
  have "intercalate sep (map sds_content toks) = t" using toks(3) by (simp add: intercalate_split_ref)
  then show ?thesis using sdsjoinsds_spec [of "es 0" es "length sep" sep, OF assms(1) assms(1) order_refl toks(2)] toks(1) assms(4) by auto
qed

theorem sdssplitlen_join_roundtrip_witness:
  "\<exists>toks s. sdssplitlen plenty (\<lambda>_. plenty) plenty ''a--b'' 4 ''--'' 2 = Ok toks \<and>
     sdsjoinsds plenty (\<lambda>_. plenty) toks ''--'' 2 = Ok s \<and> sds_wf s \<and> sds_content s = ''a--b''"
  using sdssplitlen_join_roundtrip [of "\<lambda>_. plenty" "''--''" "''a--b''"]
  by (simp add: sds_fits_def SDS_MAX_PREALLOC_def numeral_2_eq_2)

text \<open>
  C35. Quoting and command-line splitting are inverse: for every byte string, control characters,
  quotes, backslashes and zero bytes included, \<^verbatim>\<open>sdssplitargs\<close> applied to the text that
  \<^verbatim>\<open>sdscatrepr\<close> writes for it returns exactly one argument, holding the original bytes.
\<close>
theorem sdscatrepr_splitargs_roundtrip:
  assumes "\<And>i j. alloc_ok (es i j)" "sds_fits (4 * length t + 2)"
  shows "\<exists>s0 s a. sdsempty (es 0 0) = Ok s0 \<and> sdscatrepr (es 0 0) es (es 0 1) s0 t (length t) = Ok s \<and>
           sdssplitargs es (sds_content s) = Ok [Some a] \<and> sds_wf a \<and> sds_content a = t"
proof -
  obtain s0 where s0: "sdsempty (es 0 0) = Ok s0" "sds_wf s0" "sds_content s0 = []"
    using returns_ex [OF sdsempty_spec [of "es 0 0"] assms(1)] by blast
  have "sds_fits (sdslen s0 + 4 * length t + 2)" using s0 assms(2) by (simp add: sdslen_content)
  from sdscatrepr_spec [of s0 "length t" t "es 0 0" "es 0 1" es, OF s0(2) order_refl this assms(1) assms(1) assms(1)]
  obtain s where s: "sdscatrepr (es 0 0) es (es 0 1) s0 t (length t) = Ok s" "sds_content s = repr_ref t"
    using s0(3) by auto
  have "sds_fits (length t)" using assms(2) by (simp add: sds_fits_def)
  from sdssplitargs_repr [OF assms(1) this] show ?thesis using s0(1) s by fastforce
qed

theorem sdscatrepr_splitargs_roundtrip_witness:
  "\<exists>s0 s a. sdsempty plenty = Ok s0 \<and>
     sdscatrepr plenty (\<lambda>_ _. plenty) plenty s0 [NUL, CHR 0x22] 2 = Ok s \<and>
     sdssplitargs (\<lambda>_ _. plenty) (sds_content s) = Ok [Some a] \<and> sds_wf a \<and> sds_content a = [NUL, CHR 0x22]"
  using sdscatrepr_splitargs_roundtrip [of "\<lambda>_ _. plenty" "[NUL, CHR 0x22]"]
  by (simp add: sds_fits_def SDS_MAX_PREALLOC_def numeral_2_eq_2)

end
