(* ===== verification/Reader.thy ===== *)
theory Reader
  imports Sds_Split
begin

text \<open>
  The protocol parser, \<^verbatim>\<open>src/win/hiredis/read.c\<close> and \<^verbatim>\<open>read.h\<close>: a push parser for
  the Redis protocol, which is fed chunks of bytes and delivers replies. Its state is the record
  \<open>redisReader\<close>: the input buffer (an sds string) with a cursor, and a stack of nine read
  tasks, one per level of nested arrays. It builds replies through a table of callbacks; they act
  on a heap whose type \<open>'h\<close> is a parameter. A pointer to an object is a number, 0 the null
  pointer. A pair of pointer and length passed to a callback is the bytes it delimits, read from
  the buffer with a check. Of its task argument a callback sees what \<open>taskview\<close> holds.
\<close>

section \<open>Data\<close>

definition REDIS_ERR :: int where "REDIS_ERR = - 1"

definition REDIS_OK :: int where "REDIS_OK = 0"

definition REDIS_ERR_IO :: int where "REDIS_ERR_IO = 1"

definition REDIS_ERR_OTHER :: int where "REDIS_ERR_OTHER = 2"

definition REDIS_ERR_EOF :: int where "REDIS_ERR_EOF = 3"

definition REDIS_ERR_PROTOCOL :: int where "REDIS_ERR_PROTOCOL = 4"

definition REDIS_ERR_OOM :: int where "REDIS_ERR_OOM = 5"

definition REDIS_REPLY_STRING :: int where "REDIS_REPLY_STRING = 1"

definition REDIS_REPLY_ARRAY :: int where "REDIS_REPLY_ARRAY = 2"

definition REDIS_REPLY_INTEGER :: int where "REDIS_REPLY_INTEGER = 3"

definition REDIS_REPLY_NIL :: int where "REDIS_REPLY_NIL = 4"

definition REDIS_REPLY_STATUS :: int where "REDIS_REPLY_STATUS = 5"

definition REDIS_REPLY_ERROR :: int where "REDIS_REPLY_ERROR = 6"

definition REDIS_READER_MAX_BUF :: nat where "REDIS_READER_MAX_BUF = 1024 * 16"

lemmas redis_consts = REDIS_ERR_def REDIS_OK_def REDIS_ERR_IO_def REDIS_ERR_OTHER_def REDIS_ERR_EOF_def
  REDIS_ERR_PROTOCOL_def REDIS_ERR_OOM_def REDIS_REPLY_STRING_def REDIS_REPLY_ARRAY_def
  REDIS_REPLY_INTEGER_def REDIS_REPLY_NIL_def REDIS_REPLY_STATUS_def REDIS_REPLY_ERROR_def

abbreviation CR :: char where "CR \<equiv> CHR 0x0D"

abbreviation LF :: char where "LF \<equiv> CHR 0x0A"

record redisReadTask =
  t_type :: int
  t_elements :: int
  t_idx :: int
  t_obj :: nat
  t_parent :: "nat option"
  t_privdata :: nat

record taskview =
  v_type :: int
  v_idx :: int
  v_parent :: "nat option"
  v_privdata :: nat

record 'h redisReplyObjectFunctions =
  createString :: "(taskview \<Rightarrow> string \<Rightarrow> 'h \<Rightarrow> (nat \<times> 'h) cres) option"
  createArray :: "(taskview \<Rightarrow> int \<Rightarrow> 'h \<Rightarrow> (nat \<times> 'h) cres) option"
  createInteger :: "(taskview \<Rightarrow> int \<Rightarrow> 'h \<Rightarrow> (nat \<times> 'h) cres) option"
  createNil :: "(taskview \<Rightarrow> 'h \<Rightarrow> (nat \<times> 'h) cres) option"
  freeObject :: "(nat \<Rightarrow> 'h \<Rightarrow> 'h cres) option"

record 'h redisReader =
  r_err :: int
  r_errstr :: mem
  r_buf :: "sdshdr option"
  r_pos :: nat
  r_len :: nat
  r_maxbuf :: nat
  r_rstack :: "redisReadTask list"
  r_ridx :: int
  r_reply :: nat
  r_fn :: "'h redisReplyObjectFunctions option"
  r_privdata :: nat

definition rbuf :: "'h redisReader \<Rightarrow> mem" where
  "rbuf r = (case r_buf r of None \<Rightarrow> [] | Some s \<Rightarrow> sh_buf s)"

definition fn_of :: "('h redisReplyObjectFunctions \<Rightarrow> 'f option) \<Rightarrow> 'h redisReader \<Rightarrow> 'f option" where
  "fn_of sel r = (case r_fn r of None \<Rightarrow> None | Some f \<Rightarrow> sel f)"

definition to_u32 :: "int \<Rightarrow> nat" where
  "to_u32 x = nat (x mod 4294967296)"

section \<open>Errors\<close>

definition redisReaderSetError :: "'h redisReader \<Rightarrow> int \<Rightarrow> string \<Rightarrow> 'h \<Rightarrow> ('h redisReader \<times> 'h) cres" where
  "redisReaderSetError r ty str h =
     cbind (case fn_of freeObject r of
              Some f \<Rightarrow> if r_reply r \<noteq> 0 then cbind (f (r_reply r) h) (\<lambda>h. Ok (r\<lparr>r_reply := 0\<rparr>, h)) else Ok (r, h)
            | None \<Rightarrow> Ok (r, h))
       (\<lambda>(r, h).
          let r = (if r_buf r \<noteq> None then r\<lparr>r_buf := None, r_pos := 0, r_len := 0\<rparr> else r);
              l = (if length str < 127 then length str else 127)
          in Ok (r\<lparr>r_ridx := - 1, r_err := ty,
                   r_errstr := take l str @ NUL # drop (Suc l) (r_errstr r)\<rparr>, h))"

text \<open>The text of a byte; \<^verbatim>\<open>snprintf\<close> keeps at most \<open>size - 1\<close> characters.\<close>

definition chrtos :: "nat \<Rightarrow> char \<Rightarrow> string" where
  "chrtos sz byte = take (sz - 1)
     (if byte = CHR 0x5C \<or> byte = CHR 0x22 then [CHR 0x22, CHR 0x5C, byte, CHR 0x22]
      else if byte = CHR 0x0A then [CHR 0x22, CHR 0x5C, CHR ''n'', CHR 0x22]
      else if byte = CHR 0x0D then [CHR 0x22, CHR 0x5C, CHR ''r'', CHR 0x22]
      else if byte = CHR 0x09 then [CHR 0x22, CHR 0x5C, CHR ''t'', CHR 0x22]
      else if byte = CHR 0x07 then [CHR 0x22, CHR 0x5C, CHR ''a'', CHR 0x22]
      else if byte = CHR 0x08 then [CHR 0x22, CHR 0x5C, CHR ''b'', CHR 0x22]
      else if c_isprint byte then [CHR 0x22, byte, CHR 0x22]
      else [CHR 0x22, CHR 0x5C, CHR ''x'', hex_digit (of_char byte div 16), hex_digit (of_char byte mod 16), CHR 0x22])"

definition redisReaderSetErrorProtocolByte :: "'h redisReader \<Rightarrow> char \<Rightarrow> 'h \<Rightarrow> ('h redisReader \<times> 'h) cres" where
  "redisReaderSetErrorProtocolByte r byte h =
     redisReaderSetError r REDIS_ERR_PROTOCOL
       (take 127 (''Protocol error, got '' @ chrtos 8 byte @ '' as reply type byte'')) h"

definition redisReaderSetErrorOOM :: "'h redisReader \<Rightarrow> 'h \<Rightarrow> ('h redisReader \<times> 'h) cres" where
  "redisReaderSetErrorOOM r h = redisReaderSetError r REDIS_ERR_OOM ''Out of memory'' h"

section \<open>Reading from the buffer\<close>

text \<open>A pointer into the buffer is its offset.\<close>

definition readBytes :: "'h redisReader \<Rightarrow> nat \<Rightarrow> nat option \<times> 'h redisReader" where
  "readBytes r bytes =
     (if to_size (int (r_len r) - int (r_pos r)) \<ge> bytes
      then (Some (r_pos r), r\<lparr>r_pos := to_size (int (r_pos r) + int bytes)\<rparr>)
      else (None, r))"

function seek_cr :: "mem \<Rightarrow> nat \<Rightarrow> int \<Rightarrow> int \<Rightarrow> int cres" where
  "seek_cr m s pos len =
     (if pos < len
      then cbind (mem_read m (int s + pos)) (\<lambda>c. if c \<noteq> CR then seek_cr m s (pos + 1) len else Ok pos)
      else Ok pos)"
  by pat_completeness auto
termination
  by (relation "measure (\<lambda>(m, s, pos, len). nat (len - pos))") auto

declare seek_cr.simps [simp del]

lemma seek_cr_ge: "seek_cr m s pos len = Ok p \<Longrightarrow> pos \<le> p"
proof (induction m s pos len rule: seek_cr.induct)
  case (1 m s pos len)
  then show ?case by (subst (asm) (2) seek_cr.simps) (force split: if_splits)
qed

function seekNewline_loop :: "mem \<Rightarrow> nat \<Rightarrow> int \<Rightarrow> int \<Rightarrow> int option cres" where
  "seekNewline_loop m s pos len =
     (if pos < len then
        cbind (seek_cr m s pos len) (\<lambda>pos.
          cbind (mem_read m (int s + pos)) (\<lambda>c.
            if c \<noteq> CR then Ok None
            else cbind (mem_read m (int s + pos + 1)) (\<lambda>d.
              if d = LF then Ok (Some pos) else seekNewline_loop m s (pos + 1) len)))
      else Ok None)"
  by pat_completeness auto
termination
  by (relation "measure (\<lambda>(m, s, pos, len). nat (len - pos))") (auto dest: seek_cr_ge)

declare seekNewline_loop.simps [simp del]

definition seekNewline :: "mem \<Rightarrow> nat \<Rightarrow> nat \<Rightarrow> int option cres" where
  "seekNewline m s len = seekNewline_loop m s 0 (to_i32 (int len - 1))"

fun readLongLong_loop :: "int \<Rightarrow> int \<Rightarrow> mem \<Rightarrow> int cres" where
  "readLongLong_loop mult v [] = Fault OutOfBounds"
| "readLongLong_loop mult v (c # s) =
     (if c = CR then Ok (to_i64 (mult * v))
      else let d = int (of_char c) - 48 in
        if 0 \<le> d \<and> d < 10 then readLongLong_loop mult (to_i64 (to_i64 (v * 10) + d)) s
        else Ok (- 1))"

definition readLongLong :: "mem \<Rightarrow> nat \<Rightarrow> int cres" where
  "readLongLong m s =
     cbind (mem_read m (int s)) (\<lambda>c.
       if c = CHR ''-'' then readLongLong_loop (- 1) 0 (drop (s + 1) m)
       else if c = CHR ''+'' then readLongLong_loop 1 0 (drop (s + 1) m)
       else readLongLong_loop 1 0 (drop s m))"

definition readLine :: "'h redisReader \<Rightarrow> ((nat \<times> int) option \<times> 'h redisReader) cres" where
  "readLine r =
     (let p = r_pos r in
      cbind (seekNewline (rbuf r) p (to_size (int (r_len r) - int (r_pos r)))) (\<lambda>s.
        case s of
          Some k \<Rightarrow> let len = to_i32 k in
            Ok (Some (p, len), r\<lparr>r_pos := to_size (int (r_pos r) + to_i32 (len + 2))\<rparr>)
        | None \<Rightarrow> Ok (None, r)))"

section \<open>The task stack\<close>

function moveToNextTask_loop :: "redisReadTask list \<Rightarrow> int \<Rightarrow> (redisReadTask list \<times> int) cres" where
  "moveToNextTask_loop st ridx =
     (if ridx < 0 then Ok (st, ridx)
      else if ridx = 0 then Ok (st, ridx - 1)
      else if nat ridx \<ge> length st then Fault OutOfBounds
      else
        let cur = st ! nat ridx; prv = st ! nat (ridx - 1) in
        if t_type prv \<noteq> REDIS_REPLY_ARRAY then Fault AssertFailed
        else if t_idx cur = to_i32 (t_elements prv - 1) then moveToNextTask_loop st (ridx - 1)
        else if \<not> t_idx cur < t_elements prv then Fault AssertFailed
        else Ok (st[nat ridx := cur\<lparr>t_type := - 1, t_elements := - 1, t_idx := to_i32 (t_idx cur + 1)\<rparr>], ridx))"
  by pat_completeness auto
termination
  by (relation "measure (\<lambda>(st, ridx). nat ridx)") auto

declare moveToNextTask_loop.simps [simp del]

definition moveToNextTask :: "'h redisReader \<Rightarrow> 'h redisReader cres" where
  "moveToNextTask r =
     cbind (moveToNextTask_loop (r_rstack r) (r_ridx r))
       (\<lambda>(st, ridx). Ok (r\<lparr>r_rstack := st, r_ridx := ridx\<rparr>))"

definition cur_task :: "'h redisReader \<Rightarrow> redisReadTask cres" where
  "cur_task r =
     (if 0 \<le> r_ridx r \<and> nat (r_ridx r) < length (r_rstack r) then Ok (r_rstack r ! nat (r_ridx r))
      else Fault OutOfBounds)"

definition set_task :: "(redisReadTask \<Rightarrow> redisReadTask) \<Rightarrow> 'h redisReader \<Rightarrow> 'h redisReader" where
  "set_task f r = r\<lparr>r_rstack := (r_rstack r)[nat (r_ridx r) := f (r_rstack r ! nat (r_ridx r))]\<rparr>"

definition view :: "'h redisReader \<Rightarrow> redisReadTask \<Rightarrow> taskview" where
  "view r cur = \<lparr>v_type = t_type cur, v_idx = t_idx cur,
     v_parent = map_option (\<lambda>j. t_obj (r_rstack r ! j)) (t_parent cur), v_privdata = t_privdata cur\<rparr>"

section \<open>Items\<close>

text \<open>
  What follows the creation of an object: a null object is an out-of-memory error, the object of
  the root task becomes the reply.
\<close>

definition set_root :: "nat \<Rightarrow> 'h redisReader \<Rightarrow> 'h redisReader" where
  "set_root obj r = (if r_ridx r = 0 then r\<lparr>r_reply := obj\<rparr> else r)"

definition oom :: "'h redisReader \<Rightarrow> 'h \<Rightarrow> (int \<times> 'h redisReader \<times> 'h) cres" where
  "oom r h = cbind (redisReaderSetErrorOOM r h) (\<lambda>(r, h). Ok (REDIS_ERR, r, h))"

definition create_nil :: "'h redisReader \<Rightarrow> redisReadTask \<Rightarrow> 'h \<Rightarrow> (nat \<times> 'h) cres" where
  "create_nil r cur h =
     (case fn_of createNil r of Some f \<Rightarrow> f (view r cur) h | None \<Rightarrow> Ok (nat REDIS_REPLY_NIL, h))"

definition processLineItem :: "'h redisReader \<Rightarrow> 'h \<Rightarrow> (int \<times> 'h redisReader \<times> 'h) cres" where
  "processLineItem r h =
     cbind (cur_task r) (\<lambda>cur.
     cbind (readLine r) (\<lambda>(ln, r).
       case ln of
         None \<Rightarrow> Ok (REDIS_ERR, r, h)
       | Some (p, len) \<Rightarrow>
           cbind (if t_type cur = REDIS_REPLY_INTEGER then
                    (case fn_of createInteger r of
                       Some f \<Rightarrow> cbind (readLongLong (rbuf r) p) (\<lambda>v. f (view r cur) v h)
                     | None \<Rightarrow> Ok (nat REDIS_REPLY_INTEGER, h))
                  else
                    (case fn_of createString r of
                       Some f \<Rightarrow> cbind (mem_slice (rbuf r) (int p) (to_size len)) (\<lambda>d. f (view r cur) d h)
                     | None \<Rightarrow> Ok (to_size (t_type cur), h)))
             (\<lambda>(obj, h).
               if obj = 0 then oom r h
               else cbind (moveToNextTask (set_root obj r)) (\<lambda>r. Ok (REDIS_OK, r, h)))))"

definition processBulkItem :: "'h redisReader \<Rightarrow> 'h \<Rightarrow> (int \<times> 'h redisReader \<times> 'h) cres" where
  "processBulkItem r h =
     cbind (cur_task r) (\<lambda>cur.
     let p = r_pos r in
     cbind (seekNewline (rbuf r) p (to_size (int (r_len r) - int (r_pos r)))) (\<lambda>s.
       case s of
         None \<Rightarrow> Ok (REDIS_ERR, r, h)
       | Some k \<Rightarrow>
           let bytelen = to_u32 (k + 2) in
           cbind (readLongLong (rbuf r) p) (\<lambda>ll.
           let len = to_i32 ll in
           cbind (if len < 0 then cbind (create_nil r cur h) (\<lambda>(obj, h). Ok (Some obj, bytelen, h))
                  else
                    let bytelen = to_u32 (int bytelen + to_i32 (len + 2)) in
                    if to_size (int (r_pos r) + int bytelen) \<le> r_len r then
                      cbind (case fn_of createString r of
                               Some f \<Rightarrow> cbind (mem_slice (rbuf r) (int p + k + 2) (to_size len))
                                           (\<lambda>d. f (view r cur) d h)
                             | None \<Rightarrow> Ok (nat REDIS_REPLY_STRING, h))
                        (\<lambda>(obj, h). Ok (Some obj, bytelen, h))
                    else Ok (None, bytelen, h))
             (\<lambda>(res, bytelen, h).
               case res of
                 None \<Rightarrow> Ok (REDIS_ERR, r, h)
               | Some obj \<Rightarrow>
                   if obj = 0 then oom r h
                   else
                     let r = r\<lparr>r_pos := to_size (int (r_pos r) + int bytelen)\<rparr> in
                     cbind (moveToNextTask (set_root obj r)) (\<lambda>r. Ok (REDIS_OK, r, h))))))"

definition push_task :: "int \<Rightarrow> nat \<Rightarrow> 'h redisReader \<Rightarrow> 'h redisReader cres" where
  "push_task elements obj r =
     (let k = nat (r_ridx r);
          st = (r_rstack r)[k := (r_rstack r ! k)\<lparr>t_elements := elements, t_obj := obj\<rparr>]
      in if Suc k < length st
         then Ok (r\<lparr>r_rstack := st[Suc k := \<lparr>t_type = - 1, t_elements = - 1, t_idx = 0, t_obj = 0,
                                      t_parent = Some k, t_privdata = r_privdata r\<rparr>],
                    r_ridx := r_ridx r + 1\<rparr>)
         else Fault OutOfBounds)"

definition processMultiBulkItem :: "'h redisReader \<Rightarrow> 'h \<Rightarrow> (int \<times> 'h redisReader \<times> 'h) cres" where
  "processMultiBulkItem r h =
     cbind (cur_task r) (\<lambda>cur.
     if r_ridx r = 8 then
       cbind (redisReaderSetError r REDIS_ERR_PROTOCOL ''No support for nested multi bulk replies with depth > 7'' h)
         (\<lambda>(r, h). Ok (REDIS_ERR, r, h))
     else
       cbind (readLine r) (\<lambda>(ln, r).
         case ln of
           None \<Rightarrow> Ok (REDIS_ERR, r, h)
         | Some (p, _) \<Rightarrow>
             cbind (readLongLong (rbuf r) p) (\<lambda>ll.
             let elements = to_i32 ll; root = (r_ridx r = 0) in
             if elements = - 1 then
               cbind (create_nil r cur h) (\<lambda>(obj, h).
                 if obj = 0 then oom r h
                 else cbind (moveToNextTask r) (\<lambda>r.
                   Ok (REDIS_OK, if root then r\<lparr>r_reply := obj\<rparr> else r, h)))
             else
               cbind (case fn_of createArray r of
                        Some f \<Rightarrow> f (view r cur) elements h
                      | None \<Rightarrow> Ok (nat REDIS_REPLY_ARRAY, h))
                 (\<lambda>(obj, h).
                   if obj = 0 then oom r h
                   else cbind (if elements > 0 then push_task elements obj r else moveToNextTask r) (\<lambda>r.
                     Ok (REDIS_OK, if root then r\<lparr>r_reply := obj\<rparr> else r, h))))))"

text \<open>The type of an item from its first byte; \<open>None\<close> is a protocol error.\<close>

definition type_of_byte :: "char \<Rightarrow> int option" where
  "type_of_byte c =
     (if c = CHR ''-'' then Some REDIS_REPLY_ERROR
      else if c = CHR ''+'' then Some REDIS_REPLY_STATUS
      else if c = CHR '':'' then Some REDIS_REPLY_INTEGER
      else if c = CHR ''$'' then Some REDIS_REPLY_STRING
      else if c = CHR ''*'' then Some REDIS_REPLY_ARRAY
      else None)"

definition processTyped :: "'h redisReader \<Rightarrow> 'h \<Rightarrow> (int \<times> 'h redisReader \<times> 'h) cres" where
  "processTyped r h =
     cbind (cur_task r) (\<lambda>cur.
       if t_type cur \<in> {REDIS_REPLY_ERROR, REDIS_REPLY_STATUS, REDIS_REPLY_INTEGER} then processLineItem r h
       else if t_type cur = REDIS_REPLY_STRING then processBulkItem r h
       else if t_type cur = REDIS_REPLY_ARRAY then processMultiBulkItem r h
       else Fault AssertFailed)"

definition processItem :: "'h redisReader \<Rightarrow> 'h \<Rightarrow> (int \<times> 'h redisReader \<times> 'h) cres" where
  "processItem r h =
     cbind (cur_task r) (\<lambda>cur.
       if t_type cur < 0 then
         (case readBytes r 1 of
            (None, r) \<Rightarrow> Ok (REDIS_ERR, r, h)
          | (Some p, r) \<Rightarrow>
              cbind (mem_read (rbuf r) (int p)) (\<lambda>c.
                case type_of_byte c of
                  None \<Rightarrow> cbind (redisReaderSetErrorProtocolByte r c h) (\<lambda>(r, h). Ok (REDIS_ERR, r, h))
                | Some ty \<Rightarrow> processTyped (set_task (\<lambda>t. t\<lparr>t_type := ty\<rparr>) r) h))
       else processTyped r h)"

section \<open>The interface\<close>

definition zero_task :: redisReadTask where
  "zero_task = \<lparr>t_type = 0, t_elements = 0, t_idx = 0, t_obj = 0, t_parent = None, t_privdata = 0\<rparr>"

definition redisReaderCreateWithFunctions :: "env \<Rightarrow> 'h redisReplyObjectFunctions option \<Rightarrow> 'h redisReader cres" where
  "redisReaderCreateWithFunctions e fn =
     (if \<not> can_alloc e 592 then Null
      else cbind (sdsempty e) (\<lambda>b.
        Ok \<lparr>r_err = 0, r_errstr = replicate 128 NUL, r_buf = Some b, r_pos = 0, r_len = 0,
            r_maxbuf = REDIS_READER_MAX_BUF, r_rstack = replicate 9 zero_task, r_ridx = - 1, r_reply = 0,
            r_fn = fn, r_privdata = 0\<rparr>))"

definition redisReaderFree :: "'h redisReader \<Rightarrow> 'h \<Rightarrow> 'h cres" where
  "redisReaderFree r h =
     (case fn_of freeObject r of
        Some f \<Rightarrow> if r_reply r \<noteq> 0 then f (r_reply r) h else Ok h
      | None \<Rightarrow> Ok h)"

text \<open>\<open>e0\<close> serves the replacement of a large empty buffer, \<open>e\<close> the growth of the buffer.\<close>

definition redisReaderFeed :: "env \<Rightarrow> env \<Rightarrow> 'h redisReader \<Rightarrow> mem option \<Rightarrow> nat \<Rightarrow> 'h \<Rightarrow> (int \<times> 'h redisReader \<times> 'h) cres" where
  "redisReaderFeed e0 e r buf len h =
     (if r_err r \<noteq> 0 then Ok (REDIS_ERR, r, h)
      else case buf of
        None \<Rightarrow> Ok (REDIS_OK, r, h)
      | Some t \<Rightarrow>
          if len < 1 then Ok (REDIS_OK, r, h)
          else case r_buf r of
            None \<Rightarrow> Fault NullDeref
          | Some b0 \<Rightarrow>
              cbind (if r_len r = 0 \<and> r_maxbuf r \<noteq> 0 \<and> sdsavail b0 > r_maxbuf r
                     then (case sdsempty e0 of
                             Ok b \<Rightarrow> Ok (b, r\<lparr>r_buf := Some b, r_pos := 0\<rparr>)
                           | Null \<Rightarrow> Fault AssertFailed
                           | Fault f \<Rightarrow> Fault f)
                     else Ok (b0, r))
                (\<lambda>(b, r).
                  case sdscatlen e b t len of
                    Fault f \<Rightarrow> Fault f
                  | Null \<Rightarrow> oom r h
                  | Ok newbuf \<Rightarrow> Ok (REDIS_OK, r\<lparr>r_buf := Some newbuf, r_len := sdslen newbuf\<rparr>, h)))"

text \<open>
  The loop of \<^verbatim>\<open>redisReaderGetReply\<close>. An item that is processed consumes input, so as many
  rounds as there are bytes, and one more, are enough.
\<close>

fun process_loop :: "nat \<Rightarrow> 'h redisReader \<Rightarrow> 'h \<Rightarrow> ('h redisReader \<times> 'h) cres" where
  "process_loop 0 r h = (if r_ridx r \<ge> 0 then Fault OutOfFuel else Ok (r, h))"
| "process_loop (Suc n) r h =
     (if r_ridx r \<ge> 0
      then cbind (processItem r h) (\<lambda>(res, r, h). if res \<noteq> REDIS_OK then Ok (r, h) else process_loop n r h)
      else Ok (r, h))"

definition redisReaderGetReply :: "'h redisReader \<Rightarrow> 'h \<Rightarrow> (int \<times> nat \<times> 'h redisReader \<times> 'h) cres" where
  "redisReaderGetReply r h =
     (if r_err r \<noteq> 0 then Ok (REDIS_ERR, 0, r, h)
      else if r_len r = 0 then Ok (REDIS_OK, 0, r, h)
      else
        let r = (if r_ridx r = - 1
                 then r\<lparr>r_rstack := (r_rstack r)[0 := \<lparr>t_type = - 1, t_elements = - 1, t_idx = - 1, t_obj = 0,
                                                    t_parent = None, t_privdata = r_privdata r\<rparr>],
                        r_ridx := 0\<rparr>
                 else r)
        in cbind (process_loop (Suc (r_len r)) r h) (\<lambda>(r, h).
             if r_err r \<noteq> 0 then Ok (REDIS_ERR, 0, r, h)
             else
               cbind (if r_pos r \<ge> 1024
                      then (case r_buf r of
                              None \<Rightarrow> Fault NullDeref
                            | Some b \<Rightarrow> cbind (sdsrange b (to_i32 (int (r_pos r))) (- 1))
                                (\<lambda>b. Ok (r\<lparr>r_buf := Some b, r_pos := 0, r_len := sdslen b\<rparr>)))
                      else Ok r)
                 (\<lambda>r. if r_ridx r = - 1 then Ok (REDIS_OK, r_reply r, r\<lparr>r_reply := 0\<rparr>, h)
                      else Ok (REDIS_OK, 0, r, h))))"

end
