(* ===== verification/Reader_Lex.thy ===== *)
theory Reader_Lex
  imports Reader
begin

text \<open>
  A reference for the items of the protocol: \<open>lex_item\<close> reads one item off a list of bytes,
  without buffers, cursors or machine integers for positions. The main result is that
  \<^verbatim>\<open>processItem\<close> on a well-formed reader is exactly this function followed by the
  callback and the move on the task stack.
\<close>

section \<open>Lines\<close>

fun find_crlf :: "string \<Rightarrow> nat option" where
  "find_crlf (c # d # t) = (if c = CR \<and> d = LF then Some 0 else map_option Suc (find_crlf (d # t)))"
| "find_crlf _ = None"

lemma find_crlf_Some:
  "find_crlf t = Some k \<Longrightarrow> k + 2 \<le> length t \<and> drop k t = CR # LF # drop (k + 2) t"
proof (induction t arbitrary: k rule: find_crlf.induct)
  case (1 c d t)
  then show ?case by (cases k) (auto split: if_splits)
qed auto

lemma find_crlf_append: "find_crlf t = Some k \<Longrightarrow> find_crlf (t @ u) = Some k"
proof (induction t arbitrary: k rule: find_crlf.induct)
  case (1 c d t)
  then show ?case by (auto split: if_splits)
qed auto

lemma find_crlf_line:
  "find_crlf s = None \<Longrightarrow> find_crlf (s @ CR # LF # u) = Some (length s)"
proof (induction s rule: find_crlf.induct)
  case (1 c d t)
  then show ?case by (auto split: if_splits)
qed auto

text \<open>The loop of \<^verbatim>\<open>seekNewline\<close> advances one byte at a time.\<close>

lemma seek_cr_step:
  assumes "pos < len" "mem_read m (int s + pos) = Ok c" "c \<noteq> CR"
  shows "seek_cr m s pos len = seek_cr m s (pos + 1) len"
  using assms by (subst seek_cr.simps) simp

lemma seek_cr_here:
  assumes "pos < len" "mem_read m (int s + pos) = Ok CR"
  shows "seek_cr m s pos len = Ok pos"
  using assms by (subst seek_cr.simps) simp

lemma seekNewline_loop_end: "len \<le> pos \<Longrightarrow> seekNewline_loop m s pos len = Ok None"
  by (subst seekNewline_loop.simps) simp

lemma seekNewline_loop_skip:
  assumes "pos < len" "mem_read m (int s + pos) = Ok c" "c \<noteq> CR"
    "mem_read m (int s + len) = Ok d" "mem_read m (int s + len + 1) = Ok d'" "d' \<noteq> LF"
  shows "seekNewline_loop m s pos len = seekNewline_loop m s (pos + 1) len"
proof (cases "pos + 1 < len")
  case True
  then show ?thesis
    using assms(1) by (subst (1 2) seekNewline_loop.simps) (simp add: seek_cr_step [OF assms(1-3)])
next
  case False
  then have e: "pos + 1 = len" using assms(1) by simp
  have "seek_cr m s pos len = Ok len"
    unfolding seek_cr_step [OF assms(1-3)] by (subst seek_cr.simps) (simp add: e)
  then have "seekNewline_loop m s pos len = Ok None"
    using assms(1,4-6) by (subst seekNewline_loop.simps) (simp add: seekNewline_loop_end)
  then show ?thesis by (simp add: seekNewline_loop_end e)
qed

lemma seekNewline_loop_cr:
  assumes "pos < len" "mem_read m (int s + pos) = Ok CR" "mem_read m (int s + pos + 1) = Ok d"
  shows "seekNewline_loop m s pos len = (if d = LF then Ok (Some pos) else seekNewline_loop m s (pos + 1) len)"
  using assms by (subst seekNewline_loop.simps) (simp add: seek_cr_here)

lemma seekNewline_loop_spec:
  assumes m: "m = pre @ t @ NUL # post" and len: "len = int (length t) - 1"
  shows "p \<le> length t \<Longrightarrow> seekNewline_loop m (length pre) (int p) len =
     Ok (map_option (\<lambda>k. int (p + k)) (find_crlf (drop p t)))"
proof (induction "length t - p" arbitrary: p)
  case 0
  then show ?case by (simp add: seekNewline_loop_end len)
next
  case (Suc n)
  have rd: "mem_read m (int (length pre) + int i) = Ok ((t @ [NUL]) ! i)" if "i \<le> length t" for i
    using that by (simp add: m mem_read_def nat_add_distrib nth_append)
  show ?case
  proof (cases "Suc p = length t")
    case True
    then have "drop p t = [t ! p]" by (metis Cons_nth_drop_Suc drop_all lessI order_refl)
    then show ?thesis using True by (simp add: seekNewline_loop_end len)
  next
    case False
    then have lt: "Suc p < length t" using Suc by simp
    then have dr: "drop p t = t ! p # t ! Suc p # drop (Suc (Suc p)) t"
      by (metis Cons_nth_drop_Suc Suc_lessD)
    have dr': "drop (Suc p) t = t ! Suc p # drop (Suc (Suc p)) t" using lt by (metis Cons_nth_drop_Suc)
    have shift: "map_option (\<lambda>k. int (Suc p + k)) z = map_option (\<lambda>k. int (p + k)) (map_option Suc z)" for z
      by (cases z) auto
    have IH: "seekNewline_loop m (length pre) (int p + 1) len =
        Ok (map_option (\<lambda>k. int (p + k)) (map_option Suc (find_crlf (drop (Suc p) t))))"
      using Suc(1) [of "Suc p"] Suc(2) lt unfolding shift by (simp add: add.commute)
    have r0: "mem_read m (int (length pre) + int p) = Ok (t ! p)" using rd [of p] lt by (simp add: nth_append)
    have r1: "mem_read m (int (length pre) + int p + 1) = Ok (t ! Suc p)"
      using rd [of "Suc p"] lt by (simp add: nth_append ac_simps)
    show ?thesis
    proof (cases "t ! p = CR")
      case True
      then show ?thesis using seekNewline_loop_cr [of "int p" len m "length pre" "t ! Suc p"] lt r0 r1 IH len
        unfolding dr by (simp add: dr')
    next
      case False
      have rl: "mem_read m (int (length pre) + len) = Ok ((t @ [NUL]) ! (length t - 1))"
        using rd [of "length t - 1"] lt len by (simp add: of_nat_diff)
      have re: "mem_read m (int (length pre) + len + 1) = Ok NUL"
        using rd [of "length t"] len by (simp add: nth_append)
      have "seekNewline_loop m (length pre) (int p) len = seekNewline_loop m (length pre) (int p + 1) len"
        by (rule seekNewline_loop_skip [OF _ r0 False rl re]) (use lt len in auto)
      then show ?thesis using False IH unfolding dr by (simp add: dr')
    qed
  qed
qed

lemma seekNewline_spec:
  assumes "m = pre @ t @ NUL # post" "length t \<le> 2147483647"
  shows "seekNewline m (length pre) (length t) = Ok (map_option int (find_crlf t))"
proof -
  have "to_i32 (int (length t) - 1) = int (length t) - 1" using assms(2) by simp
  then show ?thesis
    using seekNewline_loop_spec [OF assms(1) refl, of 0] unfolding seekNewline_def by simp
qed

section \<open>Numbers\<close>

fun ll_value :: "int \<Rightarrow> int \<Rightarrow> string \<Rightarrow> int" where
  "ll_value mult v [] = to_i64 (mult * v)"
| "ll_value mult v (c # s) =
     (if c = CR then to_i64 (mult * v)
      else let d = int (of_char c) - 48 in
        if 0 \<le> d \<and> d < 10 then ll_value mult (to_i64 (to_i64 (v * 10) + d)) s else - 1)"

definition parse_ll :: "string \<Rightarrow> int" where
  "parse_ll s =
     (case s of
        c # s' \<Rightarrow> if c = CHR ''-'' then ll_value (- 1) 0 s' else if c = CHR ''+'' then ll_value 1 0 s' else ll_value 1 0 s
      | [] \<Rightarrow> 0)"

lemma readLongLong_loop_line: "readLongLong_loop mult v (s @ CR # rest) = Ok (ll_value mult v s)"
  by (induction s arbitrary: v) (simp_all add: Let_def)

lemma readLongLong_line:
  assumes "drop p m = s @ CR # rest"
  shows "readLongLong m p = Ok (parse_ll s)"
proof -
  have len: "p < length m" using assms by (metis append_is_Nil_conv drop_all leI list.distinct(1))
  then have rd: "mem_read m (int p) = Ok (hd (s @ CR # rest))" by (simp add: mem_read_def assms [symmetric] hd_drop_conv_nth)
  have tl: "drop (Suc p) m = tl (s @ CR # rest)" by (metis assms drop_Suc tl_drop)
  show ?thesis
  proof (cases s)
    case Nil
    then show ?thesis using rd assms by (simp add: readLongLong_def parse_ll_def)
  next
    case (Cons c s')
    then show ?thesis using rd tl assms readLongLong_loop_line [of _ _ s' rest] readLongLong_loop_line [of _ _ s rest]
      by (simp add: readLongLong_def parse_ll_def)
  qed
qed

lemma of_char_digit: "d < 10 \<Longrightarrow> int (of_char (digit_char d)) = 48 + int d" "d < 10 \<Longrightarrow> digit_char d \<noteq> CR"
proof -
  assume d: "d < 10"
  have "(of_char (digit_char d) :: nat) = 48 + d" using d by (simp add: digit_char_def)
  then show "int (of_char (digit_char d)) = 48 + int d" by simp
  show "digit_char d \<noteq> CR"
  proof
    assume "digit_char d = CR"
    then have "(of_char (digit_char d) :: nat) = of_char CR" by simp
    then show False using \<open>(of_char (digit_char d) :: nat) = 48 + d\<close> by simp
  qed
qed

lemma ll_value_digit:
  assumes "d < 10" "0 \<le> w" "w * 10 + int d \<le> 9223372036854775807"
  shows "ll_value mult w (digit_char d # s) = ll_value mult (w * 10 + int d) s"
  using assms of_char_digit [OF assms(1)] by (simp add: Let_def)

lemma ll_value_dec_nat:
  "0 \<le> v \<Longrightarrow> v * 10 ^ length (dec_nat n) + int n \<le> 9223372036854775807 \<Longrightarrow>
   ll_value mult v (dec_nat n @ s) = ll_value mult (v * 10 ^ length (dec_nat n) + int n) s"
proof (induction n arbitrary: s rule: dec_nat.induct)
  case (1 n)
  show ?case
  proof (cases "n < 10")
    case True
    then have d: "dec_nat n = [digit_char n]" by (simp add: dec_nat.simps)
    show ?thesis using ll_value_digit [OF True 1(2)] 1(3) by (simp add: d)
  next
    case False
    let ?l = "length (dec_nat (n div 10))" let ?w = "v * 10 ^ ?l + int (n div 10)"
    have d: "dec_nat n = dec_nat (n div 10) @ [digit_char (n mod 10)]" using False by (simp add: dec_nat.simps [of n])
    have n: "int n = int (n div 10) * 10 + int (n mod 10)" by presburger
    have e: "v * 10 ^ length (dec_nat n) + int n = ?w * 10 + int (n mod 10)"
      by (subst n) (simp add: d algebra_simps)
    have w: "0 \<le> ?w" "?w * 10 + int (n mod 10) \<le> 9223372036854775807" using 1(2,3) e by auto
    define w where "w = ?w"
    have "w \<le> 9223372036854775807" using w unfolding w_def [symmetric] by linarith
    then have "?w \<le> 9223372036854775807" unfolding w_def .
    from 1(1) [OF False 1(2) this, of "digit_char (n mod 10) # s"]
    show ?thesis using ll_value_digit [OF _ w] unfolding e by (simp add: d)
  qed
qed

lemma dec_nat_head: "\<exists>c s. dec_nat n = c # s \<and> c \<noteq> CHR ''-'' \<and> c \<noteq> CHR ''+''"
proof (induction n rule: dec_nat.induct)
  case (1 n)
  show ?case
  proof (cases "n < 10")
    case True
    have "int (of_char (digit_char n)) = 48 + int n" using of_char_digit(1) [OF True] .
    then have "digit_char n \<noteq> CHR ''-''" "digit_char n \<noteq> CHR ''+''" by auto
    then show ?thesis using True by (simp add: dec_nat.simps)
  next
    case False
    then show ?thesis using 1 by (auto simp: dec_nat.simps [of n])
  qed
qed

lemma parse_ll_dec_nat: "int n \<le> 9223372036854775807 \<Longrightarrow> parse_ll (dec_nat n) = int n"
  using dec_nat_head [of n] ll_value_dec_nat [of 0 n 1 "[]"] by (auto simp: parse_ll_def)

lemma parse_ll_dec_int:
  "- 9223372036854775807 \<le> v \<Longrightarrow> v \<le> 9223372036854775807 \<Longrightarrow> parse_ll (dec_int v) = v"
  using parse_ll_dec_nat [of "nat v"] ll_value_dec_nat [of 0 "nat (- v)" "- 1" "[]"]
  by (auto simp: dec_int_def parse_ll_def)

lemma dec_nat_no_crlf: "find_crlf (dec_nat n) = None" "CR \<notin> set (dec_nat n)"
proof -
  show no: "CR \<notin> set (dec_nat n)"
  proof (induction n rule: dec_nat.induct)
    case (1 n)
    show ?case using of_char_digit(2) [of n] of_char_digit(2) [of "n mod 10"] 1 by (subst dec_nat.simps) auto
  qed
  have "CR \<notin> set t \<Longrightarrow> find_crlf t = None" for t by (induction t rule: find_crlf.induct) auto
  then show "find_crlf (dec_nat n) = None" using no by blast
qed


section \<open>The reference for one item\<close>

datatype token = TLine int string | TInt int | TBulk string | TNil | TArr int

datatype lexed = More | Bad char | Deep | Tok token nat

text \<open>An item of known type, from the bytes after its type byte.\<close>

definition lex_typed :: "int \<Rightarrow> bool \<Rightarrow> string \<Rightarrow> lexed" where
  "lex_typed ty deep t =
     (if ty = REDIS_REPLY_ARRAY \<and> deep then Deep
      else case find_crlf t of
        None \<Rightarrow> More
      | Some k \<Rightarrow>
          let line = take k t in
          if ty = REDIS_REPLY_INTEGER then Tok (TInt (parse_ll line)) (k + 2)
          else if ty = REDIS_REPLY_STRING then
            (let len = to_i32 (parse_ll line) in
             if len < 0 then Tok TNil (k + 2)
             else if k + nat len + 4 \<le> length t then Tok (TBulk (take (nat len) (drop (k + 2) t))) (k + nat len + 4)
             else More)
          else if ty = REDIS_REPLY_ARRAY then
            (let n = to_i32 (parse_ll line) in Tok (if n = - 1 then TNil else TArr n) (k + 2))
          else Tok (TLine ty line) (k + 2))"

text \<open>The new type of the task, the bytes used for it, and the item.\<close>

definition lex_item :: "int \<Rightarrow> bool \<Rightarrow> string \<Rightarrow> int \<times> nat \<times> lexed" where
  "lex_item ty deep t =
     (if ty < 0 then
        (case t of
           [] \<Rightarrow> (ty, 0, More)
         | c # t' \<Rightarrow> (case type_of_byte c of None \<Rightarrow> (ty, 1, Bad c) | Some ty' \<Rightarrow> (ty', 1, lex_typed ty' deep t')))
      else (ty, 0, lex_typed ty deep t))"

definition reply_type :: "int \<Rightarrow> bool" where
  "reply_type ty \<longleftrightarrow> ty \<in> {REDIS_REPLY_ERROR, REDIS_REPLY_STATUS, REDIS_REPLY_INTEGER, REDIS_REPLY_STRING, REDIS_REPLY_ARRAY}"

lemma type_of_byte_reply: "type_of_byte c = Some ty \<Longrightarrow> reply_type ty"
  by (auto simp: type_of_byte_def reply_type_def split: if_splits)

lemma reply_type_nonneg: "reply_type ty \<Longrightarrow> 0 < ty"
  by (auto simp: reply_type_def redis_consts)

lemma lex_typed_Tok: "lex_typed ty deep t = Tok tok n \<Longrightarrow> 2 \<le> n \<and> n \<le> length t"
  by (auto simp: lex_typed_def Let_def split: if_splits option.splits dest!: find_crlf_Some)

lemma lex_item_Tok: "lex_item ty deep t = (ty', k, Tok tok n) \<Longrightarrow> 2 \<le> n \<and> k + n \<le> length t"
  by (auto simp: lex_item_def split: if_splits list.splits option.splits dest: lex_typed_Tok)

lemma lex_item_len: "lex_item ty deep t = (ty', k, res) \<Longrightarrow> k \<le> length t \<and> k \<le> 1"
  by (auto simp: lex_item_def split: if_splits list.splits option.splits)

text \<open>More input does not change what was recognised, and an incomplete item can be resumed.\<close>

lemma lex_typed_append: "lex_typed ty deep t \<noteq> More \<Longrightarrow> lex_typed ty deep (t @ u) = lex_typed ty deep t"
proof (cases "find_crlf t")
  case (Some k)
  assume "lex_typed ty deep t \<noteq> More"
  then show ?thesis using Some find_crlf_Some [OF Some] find_crlf_append [OF Some, of u]
    by (simp add: lex_typed_def Let_def split: if_splits)
qed (auto simp: lex_typed_def split: if_splits)

lemma lex_item_append:
  "lex_item ty deep t = (ty', k, res) \<Longrightarrow> res \<noteq> More \<Longrightarrow> lex_item ty deep (t @ u) = (ty', k, res)"
  by (auto simp: lex_item_def split: if_splits list.splits option.splits intro: lex_typed_append)

lemma lex_item_resume:
  "lex_item ty deep t = (ty', k, More) \<Longrightarrow>
   lex_item ty deep (t @ u) = (case lex_item ty' deep (drop k t @ u) of (ty'', k', res) \<Rightarrow> (ty'', k + k', res))"
  by (auto simp: lex_item_def split: if_splits list.splits option.splits dest!: type_of_byte_reply reply_type_nonneg)

section \<open>Well-formed readers\<close>

definition buffer_ok :: "'h redisReader \<Rightarrow> sdshdr \<Rightarrow> bool" where
  "buffer_ok r b \<longleftrightarrow> r_buf r = Some b \<and> sds_wf b \<and> r_len r = sdslen b \<and> r_pos r \<le> r_len r \<and>
     sds_fits (r_len r)"

definition rest_of :: "'h redisReader \<Rightarrow> string" where
  "rest_of r = (case r_buf r of None \<Rightarrow> [] | Some b \<Rightarrow> drop (r_pos r) (sds_content b))"

definition advance :: "nat \<Rightarrow> 'h redisReader \<Rightarrow> 'h redisReader" where
  "advance n r = r\<lparr>r_pos := r_pos r + n\<rparr>"

lemma advance_simps [simp]:
  "r_buf (advance n r) = r_buf r" "r_rstack (advance n r) = r_rstack r" "r_ridx (advance n r) = r_ridx r"
  "r_fn (advance n r) = r_fn r" "r_err (advance n r) = r_err r" "r_len (advance n r) = r_len r"
  "r_reply (advance n r) = r_reply r" "rbuf (advance n r) = rbuf r" "advance 0 r = r"
  "advance m (advance n r) = advance (n + m) r" "r_pos (advance n r) = r_pos r + n"
  "fn_of sel (advance n r) = fn_of sel r" "view (advance n r) cur = view r cur" "cur_task (advance n r) = cur_task r"
  by (simp_all add: advance_def rbuf_def fn_of_def view_def cur_task_def ac_simps)

lemma buffer_okD:
  assumes "buffer_ok r b"
  shows "rbuf r = take (r_pos r) (sds_content b) @ rest_of r @ NUL # drop (Suc (sdslen b)) (sh_buf b)"
    "length (take (r_pos r) (sds_content b)) = r_pos r" "length (rest_of r) = r_len r - r_pos r"
    "r_pos r \<le> r_len r" "r_len r < 2147483647"
proof -
  have w: "sds_wf b" "r_buf r = Some b" "r_len r = sdslen b" "r_pos r \<le> sdslen b" using assms by (auto simp: buffer_ok_def)
  note d = sds_wfD [OF w(1)]
  have len: "length (sds_content b) = sdslen b" using w(1) by (simp add: sdslen_content)
  have "sh_buf b = sds_content b @ NUL # drop (Suc (sdslen b)) (sh_buf b)"
    using id_take_nth_drop [of "nat (sh_len b)" "sh_buf b"] d by (simp add: sds_content_def sdslen_wf [OF w(1)])
  moreover have "sds_content b = take (r_pos r) (sds_content b) @ rest_of r" by (simp add: rest_of_def w(2))
  ultimately show "rbuf r = take (r_pos r) (sds_content b) @ rest_of r @ NUL # drop (Suc (sdslen b)) (sh_buf b)"
    unfolding rbuf_def w(2) by (metis append.assoc option.simps(5))
  show "length (take (r_pos r) (sds_content b)) = r_pos r" "length (rest_of r) = r_len r - r_pos r"
    using len w by (simp_all add: rest_of_def)
  show "r_pos r \<le> r_len r" "r_len r < 2147483647"
    using assms by (auto simp: buffer_ok_def sds_fits_def SDS_MAX_PREALLOC_def)
qed

lemma seekNewline_rest:
  assumes "buffer_ok r b"
  shows "seekNewline (rbuf r) (r_pos r) (to_size (int (r_len r) - int (r_pos r))) = Ok (map_option int (find_crlf (rest_of r)))"
proof -
  note d = buffer_okD [OF assms]
  have "to_size (int (r_len r) - int (r_pos r)) = length (rest_of r)"
    using d by (simp add: to_size_def nat_diff_distrib)
  then show ?thesis using seekNewline_spec [OF d(1)] d(2,3,5) by simp
qed

lemma drop_rbuf: "buffer_ok r b \<Longrightarrow> \<exists>post. drop (r_pos r) (rbuf r) = rest_of r @ NUL # post"
proof -
  assume ok: "buffer_ok r b"
  note d = buffer_okD [OF ok]
  show ?thesis using d(2) by (subst d(1)) simp
qed

lemma slice_rest:
  assumes "buffer_ok r b" "i + n \<le> length (rest_of r)"
  shows "mem_slice (rbuf r) (int (r_pos r) + int i) n = Ok (take n (drop i (rest_of r)))"
proof -
  obtain post where p: "drop (r_pos r) (rbuf r) = rest_of r @ NUL # post" using drop_rbuf [OF assms(1)] by blast
  have "r_pos r + length (rest_of r) \<le> length (rbuf r)"
    using arg_cong [OF p, of length] by simp
  moreover have "take n (drop (r_pos r + i) (rbuf r)) = take n (drop i (rest_of r))"
    using assms(2) arg_cong [OF p, of "drop i"] by (simp add: add.commute)
  ultimately show ?thesis using assms(2) by (simp add: mem_slice_def nat_add_distrib)
qed

lemma readLongLong_rest:
  assumes "buffer_ok r b" "find_crlf (rest_of r) = Some k"
  shows "readLongLong (rbuf r) (r_pos r) = Ok (parse_ll (take k (rest_of r)))"
proof -
  obtain post where p: "drop (r_pos r) (rbuf r) = rest_of r @ NUL # post" using drop_rbuf [OF assms(1)] by blast
  have "rest_of r = take k (rest_of r) @ CR # LF # drop (k + 2) (rest_of r)"
    using find_crlf_Some [OF assms(2)] by (metis append_take_drop_id)
  then have "drop (r_pos r) (rbuf r) = take k (rest_of r) @ CR # (LF # drop (k + 2) (rest_of r)) @ NUL # post"
    using p by simp
  then show ?thesis by (rule readLongLong_line)
qed

lemma readLine_rest:
  assumes "buffer_ok r b"
  shows "readLine r = Ok (case find_crlf (rest_of r) of
     None \<Rightarrow> (None, r) | Some k \<Rightarrow> (Some (r_pos r, int k), advance (k + 2) r))"
proof (cases "find_crlf (rest_of r)")
  case None
  then show ?thesis by (simp add: readLine_def Let_def seekNewline_rest [OF assms])
next
  case (Some k)
  note d = buffer_okD [OF assms]
  have "k + 2 \<le> r_len r - r_pos r" using find_crlf_Some [OF Some] d(3) by simp
  then have "to_i32 (int k) = int k" "to_i32 (int k + 2) = int k + 2"
    "to_size (int (r_pos r) + (int k + 2)) = r_pos r + (k + 2)"
    using d(4,5) by (simp_all add: nat_add_distrib)
  then show ?thesis by (simp add: readLine_def Let_def seekNewline_rest [OF assms] Some advance_def)
qed


section \<open>The effect of an item\<close>

definition make_obj :: "token \<Rightarrow> 'h redisReader \<Rightarrow> redisReadTask \<Rightarrow> 'h \<Rightarrow> (nat \<times> 'h) cres" where
  "make_obj tok r cur h =
     (case tok of
        TLine ty s \<Rightarrow> (case fn_of createString r of Some f \<Rightarrow> f (view r cur) s h | None \<Rightarrow> Ok (to_size (t_type cur), h))
      | TBulk s \<Rightarrow> (case fn_of createString r of Some f \<Rightarrow> f (view r cur) s h | None \<Rightarrow> Ok (nat REDIS_REPLY_STRING, h))
      | TInt v \<Rightarrow> (case fn_of createInteger r of Some f \<Rightarrow> f (view r cur) v h | None \<Rightarrow> Ok (nat REDIS_REPLY_INTEGER, h))
      | TNil \<Rightarrow> create_nil r cur h
      | TArr n \<Rightarrow> (case fn_of createArray r of Some f \<Rightarrow> f (view r cur) n h | None \<Rightarrow> Ok (nat REDIS_REPLY_ARRAY, h)))"

definition enter :: "token \<Rightarrow> nat \<Rightarrow> 'h redisReader \<Rightarrow> 'h redisReader cres" where
  "enter tok obj r =
     (case tok of TArr n \<Rightarrow> if n > 0 then push_task n obj r else moveToNextTask r | _ \<Rightarrow> moveToNextTask r)"

definition apply_tok :: "token \<Rightarrow> 'h redisReader \<Rightarrow> 'h \<Rightarrow> (int \<times> 'h redisReader \<times> 'h) cres" where
  "apply_tok tok r h =
     cbind (cur_task r) (\<lambda>cur. cbind (make_obj tok r cur h) (\<lambda>(obj, h).
       if obj = 0 then oom r h
       else cbind (enter tok obj (set_root obj r)) (\<lambda>r. Ok (REDIS_OK, r, h))))"

definition deep_error :: "'h redisReader \<Rightarrow> 'h \<Rightarrow> (int \<times> 'h redisReader \<times> 'h) cres" where
  "deep_error r h =
     cbind (redisReaderSetError r REDIS_ERR_PROTOCOL ''No support for nested multi bulk replies with depth > 7'' h)
       (\<lambda>(r, h). Ok (REDIS_ERR, r, h))"

definition byte_error :: "char \<Rightarrow> 'h redisReader \<Rightarrow> 'h \<Rightarrow> (int \<times> 'h redisReader \<times> 'h) cres" where
  "byte_error c r h = cbind (redisReaderSetErrorProtocolByte r c h) (\<lambda>(r, h). Ok (REDIS_ERR, r, h))"

definition item_effect :: "lexed \<Rightarrow> 'h redisReader \<Rightarrow> 'h \<Rightarrow> (int \<times> 'h redisReader \<times> 'h) cres" where
  "item_effect res r h =
     (case res of
        More \<Rightarrow> Ok (REDIS_ERR, r, h)
      | Bad c \<Rightarrow> byte_error c r h
      | Deep \<Rightarrow> deep_error r h
      | Tok tok n \<Rightarrow> apply_tok tok (advance n r) h)"

lemma moveToNextTask_reply: "moveToNextTask (r\<lparr>r_reply := p\<rparr>) = cbind (moveToNextTask r) (\<lambda>r. Ok (r\<lparr>r_reply := p\<rparr>))"
  by (cases "moveToNextTask_loop (r_rstack r) (r_ridx r)") (auto simp: moveToNextTask_def)

lemma push_task_reply: "push_task n obj (r\<lparr>r_reply := p\<rparr>) = cbind (push_task n obj r) (\<lambda>r. Ok (r\<lparr>r_reply := p\<rparr>))"
  by (simp add: push_task_def Let_def)

lemma setError_advance: "r_buf r = Some b \<Longrightarrow> redisReaderSetError (advance n r) ty str h = redisReaderSetError r ty str h"
  by (cases "fn_of freeObject r"; cases "r_reply r")
    (auto simp: redisReaderSetError_def advance_def fn_of_def cbind_assoc Let_def intro!: arg_cong [where f = "cbind _"])

lemma oom_advance: "r_buf r = Some b \<Longrightarrow> oom (advance n r) h = oom r h"
  by (simp add: oom_def redisReaderSetErrorOOM_def setError_advance)

lemma processLineItem_spec:
  assumes "buffer_ok r b" "cur_task r = Ok cur"
  shows "processLineItem r h =
     (case find_crlf (rest_of r) of
        None \<Rightarrow> Ok (REDIS_ERR, r, h)
      | Some k \<Rightarrow> apply_tok (if t_type cur = REDIS_REPLY_INTEGER then TInt (parse_ll (take k (rest_of r)))
                            else TLine (t_type cur) (take k (rest_of r))) (advance (k + 2) r) h)"
proof (cases "find_crlf (rest_of r)")
  case None
  then show ?thesis by (simp add: processLineItem_def assms readLine_rest [OF assms(1)])
next
  case (Some k)
  note d = buffer_okD [OF assms(1)]
  have k: "k + 2 \<le> length (rest_of r)" using find_crlf_Some [OF Some] by simp
  then have sl: "mem_slice (rbuf r) (int (r_pos r)) (to_size (int k)) = Ok (take k (rest_of r))"
    using slice_rest [OF assms(1), of 0 k] d(3,5) by simp
  show ?thesis
    by (simp add: processLineItem_def apply_tok_def make_obj_def enter_def assms readLine_rest [OF assms(1)] Some
        readLongLong_rest [OF assms(1) Some] sl cong: option.case_cong if_cong)
qed


lemma add_to_i32_mod: "(a + to_i32 x) mod 4294967296 = (a + x) mod 4294967296"
proof -
  let ?q = "(x + 2147483648) div 4294967296"
  have "a + to_i32 x = (a + x) + 4294967296 * (- ?q)" unfolding to_i32_def minus_mult_div_eq_mod [symmetric] by simp
  then show ?thesis by (metis mod_mult_self2)
qed

lemma bulk_length:
  assumes "k + 2 < 2147483647" "0 \<le> l" "l \<le> 2147483647"
  shows "to_u32 (int (to_u32 (int k + 2)) + to_i32 (l + 2)) = k + nat l + 4"
proof -
  have k: "to_u32 (int k + 2) = k + 2" using assms(1) by (simp add: to_u32_def nat_add_distrib)
  have "(int (k + 2) + to_i32 (l + 2)) mod 4294967296 = (int (k + 2) + (l + 2)) mod 4294967296"
    by (rule add_to_i32_mod)
  also have "\<dots> = int k + l + 4" using assms by simp
  finally have "to_u32 (int (k + 2) + to_i32 (l + 2)) = nat (int k + l + 4)" by (simp only: to_u32_def)
  then show ?thesis using assms(2) unfolding k by (simp add: nat_add_distrib)
qed

lemma processBulkItem_spec:
  assumes "buffer_ok r b" "cur_task r = Ok cur" "t_type cur = REDIS_REPLY_STRING"
  shows "processBulkItem r h = item_effect (lex_typed REDIS_REPLY_STRING deep (rest_of r)) r h"
proof (cases "find_crlf (rest_of r)")
  case None
  then show ?thesis
    by (simp add: processBulkItem_def item_effect_def assms seekNewline_rest [OF assms(1)] lex_typed_def redis_consts)
next
  case (Some k)
  note d = buffer_okD [OF assms(1)]
  have k: "k + 2 \<le> length (rest_of r)" using find_crlf_Some [OF Some] by simp
  have u: "to_u32 (int k + 2) = k + 2" using k d(3,5) by (simp add: to_u32_def nat_add_distrib)
  define l where "l = to_i32 (parse_ll (take k (rest_of r)))"
  have buf: "r_buf r = Some b" using assms(1) by (simp add: buffer_ok_def)
  have adv: "r\<lparr>r_pos := to_size (int (r_pos r) + int n)\<rparr> = advance n r" if "r_pos r + n < 18446744073709551616" for n
    using that by (simp add: advance_def nat_add_distrib)
  have ps: "r_pos r + (k + 2) < 18446744073709551616" using k d(3-5) by simp
  note sim = processBulkItem_def item_effect_def apply_tok_def make_obj_def enter_def assms seekNewline_rest [OF assms(1)]
    readLongLong_rest [OF assms(1) Some] lex_typed_def Some redis_consts Let_def l_def [symmetric] oom_advance [OF buf]
  show ?thesis
  proof (cases "l < 0")
    case True
    then show ?thesis using adv [OF ps] by (simp add: sim u cbind_assoc create_nil_def split_def cong: if_cong option.case_cong)
  next
    case False
    have l: "l \<le> 2147483647" using to_i32_bounds by (simp add: l_def)
    note bl = bulk_length [of k l, OF _ _ l]
    have bl': "to_u32 (int (to_u32 (int k + 2)) + to_i32 (l + 2)) = k + nat l + 4" using bl False k d(3,5) by simp
    have c: "to_size (int (r_pos r) + int (k + nat l + 4)) \<le> r_len r \<longleftrightarrow> k + nat l + 4 \<le> length (rest_of r)"
      using l False d(3-5) k by (simp add: nat_add_distrib) linarith
    show ?thesis
    proof (cases "k + nat l + 4 \<le> length (rest_of r)")
      case True
      have sl: "mem_slice (rbuf r) (int (r_pos r) + int k + 2) (to_size l) = Ok (take (nat l) (drop (k + 2) (rest_of r)))"
        using slice_rest [OF assms(1), of "k + 2" "nat l"] True l False by (simp add: ac_simps)
      have "r_pos r + (k + nat l + 4) < 18446744073709551616" using True d(3-5) by simp
      from adv [OF this] show ?thesis using True False c
        by (simp add: sim bl' sl cbind_assoc split_def cong: if_cong option.case_cong)
    next
      case False
      then show ?thesis using \<open>\<not> l < 0\<close> c by (simp add: sim bl')
    qed
  qed
qed


lemma processMultiBulkItem_spec:
  assumes "buffer_ok r b" "cur_task r = Ok cur"
  shows "processMultiBulkItem r h = item_effect (lex_typed REDIS_REPLY_ARRAY (r_ridx r = 8) (rest_of r)) r h"
proof (cases "r_ridx r = 8 \<or> find_crlf (rest_of r) = None")
  case True
  then show ?thesis using assms
    by (auto simp: processMultiBulkItem_def item_effect_def lex_typed_def deep_error_def readLine_rest [OF assms(1)])
next
  case False
  then obtain k where k: "find_crlf (rest_of r) = Some k" "r_ridx r \<noteq> 8" by auto
  have buf: "r_buf r = Some b" using assms(1) by (simp add: buffer_ok_def)
  define l where "l = to_i32 (parse_ll (take k (rest_of r)))"
  note sim = processMultiBulkItem_def item_effect_def apply_tok_def make_obj_def enter_def assms readLine_rest [OF assms(1)]
    readLongLong_rest [OF assms(1) k(1)] lex_typed_def k redis_consts Let_def l_def [symmetric] oom_advance [OF buf]
  have root: "cbind (if l > 0 then push_task l obj (set_root obj q) else moveToNextTask (set_root obj q)) (\<lambda>r. Ok (0 :: int, r, h')) =
      cbind (if l > 0 then push_task l obj q else moveToNextTask q)
        (\<lambda>r'. Ok (0, if r_ridx q = 0 then r'\<lparr>r_reply := obj\<rparr> else r', h'))" for obj and q :: "'a redisReader" and h'
    by (simp add: set_root_def push_task_reply moveToNextTask_reply cbind_assoc)
  have root': "cbind (moveToNextTask (set_root obj q)) (\<lambda>r. Ok (0 :: int, r, h')) =
      cbind (moveToNextTask q) (\<lambda>r'. Ok (0, if r_ridx q = 0 then r'\<lparr>r_reply := obj\<rparr> else r', h'))"
    for obj and q :: "'a redisReader" and h'
    by (simp add: set_root_def moveToNextTask_reply cbind_assoc)
  show ?thesis
  proof (cases "l = - 1")
    case True
    then show ?thesis
      by (simp add: sim create_nil_def split_def root' cong: if_cong option.case_cong)
  next
    case False
    then show ?thesis by (simp add: sim split_def root cong: if_cong option.case_cong)
  qed
qed

lemma processTyped_spec:
  assumes "buffer_ok r b" "cur_task r = Ok cur" "reply_type (t_type cur)"
  shows "processTyped r h = item_effect (lex_typed (t_type cur) (r_ridx r = 8) (rest_of r)) r h"
proof -
  consider "t_type cur \<in> {REDIS_REPLY_ERROR, REDIS_REPLY_STATUS, REDIS_REPLY_INTEGER}"
    | "t_type cur = REDIS_REPLY_STRING" | "t_type cur = REDIS_REPLY_ARRAY"
    using assms(3) by (auto simp: reply_type_def)
  then show ?thesis
  proof cases
    case 1
    then show ?thesis using assms(2)
      by (auto simp: processTyped_def processLineItem_spec [OF assms(1,2)] item_effect_def lex_typed_def Let_def redis_consts
          split: option.split)
  next
    case 2
    then show ?thesis using assms(2) processBulkItem_spec [OF assms(1,2), of h "r_ridx r = 8"]
      by (simp add: processTyped_def redis_consts)
  next
    case 3
    then show ?thesis using assms(2) processMultiBulkItem_spec [OF assms(1,2), of h]
      by (simp add: processTyped_def redis_consts)
  qed
qed

lemma cur_task_set_task:
  "cur_task r = Ok cur \<Longrightarrow> cur_task (set_task f r) = Ok (f cur)"
  by (auto simp: cur_task_def set_task_def split: if_splits)

lemma rest_of_advance: "rest_of (advance n r) = drop n (rest_of r)"
  by (auto simp: rest_of_def advance_def add.commute split: option.split)

lemma set_task_simps [simp]:
  "r_ridx (set_task f r) = r_ridx r" "rest_of (set_task f r) = rest_of r" "r_buf (set_task f r) = r_buf r"
  "rbuf (set_task f r) = rbuf r" "buffer_ok (set_task f r) b = buffer_ok r b" "r_err (set_task f r) = r_err r"
  "r_fn (set_task f r) = r_fn r" "r_reply (set_task f r) = r_reply r" "r_len (set_task f r) = r_len r"
  "r_pos (set_task f r) = r_pos r" "set_task f (advance n r) = advance n (set_task f r)"
  by (simp_all add: set_task_def rest_of_def rbuf_def buffer_ok_def advance_def split: option.split)

lemma set_task_id: "cur_task r = Ok cur \<Longrightarrow> set_task (\<lambda>t. t\<lparr>t_type := t_type cur\<rparr>) r = r"
  by (auto simp: cur_task_def set_task_def split: if_splits)

lemma buffer_ok_advance: "buffer_ok r b \<Longrightarrow> n \<le> length (rest_of r) \<Longrightarrow> buffer_ok (advance n r) b"
  using buffer_okD(3,4) [of r b] by (auto simp: buffer_ok_def advance_def)

text \<open>The refinement: one round of the parser is the reference item and its effect.\<close>

lemma processItem_spec:
  assumes "buffer_ok r b" "cur_task r = Ok cur" "t_type cur < 0 \<or> reply_type (t_type cur)"
    "lex_item (t_type cur) (r_ridx r = 8) (rest_of r) = (ty, k, res)"
  shows "processItem r h = item_effect res (advance k (set_task (\<lambda>t. t\<lparr>t_type := ty\<rparr>) r)) h"
proof (cases "t_type cur < 0")
  case False
  then have "reply_type (t_type cur)" using assms(3) by simp
  then show ?thesis using False assms processTyped_spec [OF assms(1,2), of h] set_task_id [OF assms(2)]
    by (auto simp: processItem_def lex_item_def)
next
  case True
  note d = buffer_okD [OF assms(1)]
  have sz: "to_size (int (r_len r) - int (r_pos r)) = length (rest_of r)" using d by (simp add: nat_diff_distrib)
  show ?thesis
  proof (cases "rest_of r")
    case Nil
    then show ?thesis using True assms sz set_task_id [OF assms(2)]
      by (auto simp: processItem_def lex_item_def readBytes_def item_effect_def)
  next
    case (Cons c t)
    have rb: "readBytes r 1 = (Some (r_pos r), advance 1 r)"
      using Cons sz d(3-5) by (simp add: readBytes_def advance_def nat_add_distrib)
    have rd: "mem_read (rbuf r) (int (r_pos r)) = Ok c"
      using d(2) by (subst d(1)) (simp add: mem_read_def nth_append Cons)
    have ok: "buffer_ok (set_task (\<lambda>t. t\<lparr>t_type := ty'\<rparr>) (advance 1 r)) b" for ty'
      using buffer_ok_advance [of "set_task (\<lambda>t. t\<lparr>t_type := ty'\<rparr>) r" b 1] assms(1) Cons by simp
    show ?thesis
    proof (cases "type_of_byte c")
      case None
      then show ?thesis using True assms Cons rb rd set_task_id [OF assms(2)]
        by (auto simp: processItem_def lex_item_def item_effect_def byte_error_def)
    next
      case (Some ty')
      have "cur_task (set_task (\<lambda>t. t\<lparr>t_type := ty'\<rparr>) (advance 1 r)) = Ok (cur\<lparr>t_type := ty'\<rparr>)"
        using assms(2) by (intro cur_task_set_task) simp
      from processTyped_spec [OF ok this, of h] show ?thesis
        using True assms Cons rb rd Some type_of_byte_reply [OF Some]
        by (auto simp: processItem_def lex_item_def rest_of_advance)
    qed
  qed
qed

end
