(* ===== verification/Reader_Stream.thy ===== *)
theory Reader_Stream
  imports Reader_Lex
begin

text \<open>
  The reader as a function of the byte stream. The abstraction of a reader is its state without
  the buffer (\<open>core\<close>) together with the bytes not yet consumed (\<open>rest_of\<close>). The
  abstract parser \<open>a_loop\<close> and \<open>a_drain\<close> works on these; the parser of the code refines
  it, and what it delivers does not depend on how the stream is cut into chunks.
\<close>

section \<open>The task stack\<close>

definition stack_ok :: "redisReadTask list \<Rightarrow> int \<Rightarrow> bool" where
  "stack_ok st ridx \<longleftrightarrow> length st = 9 \<and> 0 \<le> ridx \<and> ridx \<le> 8 \<and>
     (t_type (st ! nat ridx) = - 1 \<or> reply_type (t_type (st ! nat ridx))) \<and> t_parent (st ! 0) = None \<and>
     (\<forall>j < nat ridx. t_type (st ! j) = REDIS_REPLY_ARRAY \<and> 0 \<le> t_idx (st ! Suc j) \<and>
        t_idx (st ! Suc j) < t_elements (st ! j) \<and> t_elements (st ! j) \<le> 2147483647 \<and>
        t_parent (st ! Suc j) = Some j)"

lemma moveToNextTask_ok:
  "stack_ok st ridx \<Longrightarrow> \<exists>st' ridx'. moveToNextTask_loop st ridx = Ok (st', ridx') \<and> length st' = 9 \<and>
     (ridx' = - 1 \<or> stack_ok st' ridx' \<and> t_type (st' ! nat ridx') = - 1)"
proof (induction st ridx rule: moveToNextTask_loop.induct)
  case (1 st ridx)
  note ok = 1(2) [unfolded stack_ok_def]
  show ?case
  proof (cases "ridx = 0")
    case True
    then show ?thesis using ok by (subst moveToNextTask_loop.simps) auto
  next
    case False
    then have r: "0 < ridx" "ridx \<le> 8" "nat ridx < length st" "nat (ridx - 1) < nat ridx" "Suc (nat (ridx - 1)) = nat ridx"
      using ok by auto
    let ?cur = "st ! nat ridx" let ?prv = "st ! nat (ridx - 1)"
    have p: "t_type ?prv = REDIS_REPLY_ARRAY" "0 \<le> t_idx ?cur" "t_idx ?cur < t_elements ?prv" "t_elements ?prv \<le> 2147483647"
      using ok r(4,5) by metis+
    show ?thesis
    proof (cases "t_idx ?cur = t_elements ?prv - 1")
      case True
      have "stack_ok st (ridx - 1)" using ok r p(1) unfolding stack_ok_def by (auto simp: reply_type_def)
      then show ?thesis using 1(1) r p True by (subst moveToNextTask_loop.simps) (auto simp: Let_def)
    next
      case False
      let ?st = "st[nat ridx := ?cur\<lparr>t_type := - 1, t_elements := - 1, t_idx := t_idx ?cur + 1\<rparr>]"
      have "stack_ok ?st ridx" unfolding stack_ok_def
      proof (intro conjI allI impI)
        fix j assume j: "j < nat ridx"
        have "?st ! j = st ! j" using j by simp
        moreover have "?st ! Suc j = (if Suc j = nat ridx then ?cur\<lparr>t_type := - 1, t_elements := - 1, t_idx := t_idx ?cur + 1\<rparr> else st ! Suc j)"
          using r by (auto simp: nth_list_update)
        moreover have "Suc j = nat ridx \<Longrightarrow> st ! j = ?prv" by (metis r(5) Suc_inject)
        ultimately show "t_type (?st ! j) = REDIS_REPLY_ARRAY" "0 \<le> t_idx (?st ! Suc j)" "t_idx (?st ! Suc j) < t_elements (?st ! j)"
          "t_elements (?st ! j) \<le> 2147483647" "t_parent (?st ! Suc j) = Some j"
          using ok j p False by auto
      qed (use ok r in \<open>auto simp: nth_list_update\<close>)
      moreover have "moveToNextTask_loop st ridx = Ok (?st, ridx)"
        using r p False by (subst moveToNextTask_loop.simps) (simp add: Let_def)
      ultimately show ?thesis using ok r(3) by auto
    qed
  qed
qed

lemma push_task_ok:
  assumes "stack_ok (r_rstack r) (r_ridx r)" "r_ridx r \<noteq> 8" "0 < n" "n \<le> 2147483647"
    "t_type (r_rstack r ! nat (r_ridx r)) = REDIS_REPLY_ARRAY"
  shows "\<exists>st. push_task n obj r = Ok (r\<lparr>r_rstack := st, r_ridx := r_ridx r + 1\<rparr>) \<and> stack_ok st (r_ridx r + 1) \<and>
    t_type (st ! nat (r_ridx r + 1)) = - 1"
proof -
  let ?k = "nat (r_ridx r)"
  have k: "?k < 8" "Suc ?k < length (r_rstack r)" "nat (r_ridx r + 1) = Suc ?k" using assms(1,2) by (auto simp: stack_ok_def)
  define st where "st = (r_rstack r)[?k := (r_rstack r ! ?k)\<lparr>t_elements := n, t_obj := obj\<rparr>,
    Suc ?k := \<lparr>t_type = - 1, t_elements = - 1, t_idx = 0, t_obj = 0, t_parent = Some ?k, t_privdata = r_privdata r\<rparr>]"
  have "stack_ok st (r_ridx r + 1)"
    using assms k unfolding stack_ok_def st_def by (auto simp: nth_list_update less_Suc_eq)
  then show ?thesis using k by (auto simp: push_task_def Let_def st_def simp del: nat_add_distrib)
qed

section \<open>The abstract parser\<close>

definition core :: "'h redisReader \<Rightarrow> 'h redisReader" where
  "core r = r\<lparr>r_buf := None, r_pos := 0, r_len := 0\<rparr>"

definition with_buf :: "'h redisReader \<Rightarrow> 'h redisReader \<Rightarrow> 'h redisReader" where
  "with_buf c r = c\<lparr>r_buf := r_buf r, r_pos := r_pos r, r_len := r_len r\<rparr>"

definition a_step :: "'h redisReader \<Rightarrow> string \<Rightarrow> 'h \<Rightarrow> (bool \<times> 'h redisReader \<times> string \<times> 'h) cres" where
  "a_step c t h =
     cbind (cur_task c) (\<lambda>cur.
       case lex_item (t_type cur) (r_ridx c = 8) t of (ty, k, res) \<Rightarrow>
         let c1 = set_task (\<lambda>u. u\<lparr>t_type := ty\<rparr>) c in
         cbind (item_effect res c1 h) (\<lambda>(ok, c, h).
           Ok (ok = REDIS_OK, core c,
             case res of More \<Rightarrow> drop k t | Tok tok n \<Rightarrow> if ok = REDIS_OK then drop (k + n) t else [] | _ \<Rightarrow> [], h)))"

lemma core_simps [simp]:
  "r_err (core r) = r_err r" "r_rstack (core r) = r_rstack r" "r_ridx (core r) = r_ridx r" "r_reply (core r) = r_reply r"
  "r_fn (core r) = r_fn r" "r_privdata (core r) = r_privdata r" "core (core r) = core r" "core (advance n r) = core r"
  "core (with_buf c r) = core c" "cur_task (core r) = cur_task r" "fn_of sel (core r) = fn_of sel r"
  "view (core r) cur = view r cur" "core (set_task f r) = set_task f (core r)" "set_root p (core r) = core (set_root p r)"
  "r_errstr (core r) = r_errstr r" "r_buf (core r) = None" "rest_of (core r) = []"
  by (simp_all add: core_def with_buf_def advance_def cur_task_def fn_of_def view_def set_task_def set_root_def rest_of_def)

definition lift_core :: "(int \<times> 'h redisReader \<times> 'h) cres \<Rightarrow> (int \<times> 'h redisReader \<times> 'h) cres" where
  "lift_core m = cbind m (\<lambda>(ok, r, h). Ok (ok, core r, h))"

lemma setError_core:
  "cbind (redisReaderSetError r ty str h) (\<lambda>(r', h'). Ok (v, core r', h')) =
   cbind (redisReaderSetError (core r) ty str h) (\<lambda>(r', h'). Ok (v, core r', h'))"
  by (cases "fn_of freeObject r")
    (auto simp: redisReaderSetError_def core_def fn_of_def cbind_assoc Let_def intro!: arg_cong [where f = "cbind _"])

lemma move_core: "cbind (moveToNextTask r) (\<lambda>r'. Ok (v, core r', h')) = cbind (moveToNextTask (core r)) (\<lambda>r'. Ok (v, core r', h'))"
  by (cases "moveToNextTask_loop (r_rstack r) (r_ridx r)") (auto simp: moveToNextTask_def core_def)

lemma push_core: "cbind (push_task n obj r) (\<lambda>r'. Ok (v, core r', h')) = cbind (push_task n obj (core r)) (\<lambda>r'. Ok (v, core r', h'))"
  by (simp add: push_task_def core_def Let_def)

lemma enter_core: "cbind (enter tok obj r) (\<lambda>r'. Ok (v, core r', h')) = cbind (enter tok obj (core r)) (\<lambda>r'. Ok (v, core r', h'))"
  by (cases tok) (simp_all add: enter_def move_core [of r] push_core [of _ _ r])

lemma oom_core: "lift_core (oom r h) = lift_core (oom (core r) h)"
  by (simp add: oom_def redisReaderSetErrorOOM_def lift_core_def cbind_assoc split_def setError_core [of r, unfolded split_def])

lemma make_obj_core: "make_obj tok (core r) cur h = make_obj tok r cur h"
  by (cases tok) (simp_all add: make_obj_def create_nil_def cong: option.case_cong)

lemma apply_tok_core: "lift_core (apply_tok tok r h) = lift_core (apply_tok tok (core r) h)"
proof (cases "cur_task r")
  case (Ok cur)
  show ?thesis
  proof (cases "make_obj tok r cur h")
    case mk: (Ok res)
    obtain obj h' where res: "res = (obj, h')" by (cases res)
    then show ?thesis using Ok mk oom_core [of r h'] enter_core [of tok obj "set_root obj r" REDIS_OK h']
      by (cases "obj = 0") (simp_all add: apply_tok_def make_obj_core lift_core_def cbind_assoc)
  qed (use Ok in \<open>simp_all add: apply_tok_def make_obj_core\<close>)
qed (simp_all add: apply_tok_def)

lemma item_effect_core: "lift_core (item_effect res r h) = lift_core (item_effect res (core r) h)"
proof (cases res)
  case (Tok tok n)
  then show ?thesis using apply_tok_core [of tok "advance n r" h] apply_tok_core [of tok "advance n (core r)" h]
    by (simp add: item_effect_def)
next
  case (Bad c)
  then show ?thesis using setError_core [of r _ _ h REDIS_ERR]
    by (simp add: item_effect_def byte_error_def redisReaderSetErrorProtocolByte_def lift_core_def cbind_assoc split_def)
next
  case Deep
  then show ?thesis using setError_core [of r _ _ h REDIS_ERR]
    by (simp add: item_effect_def deep_error_def lift_core_def cbind_assoc split_def)
qed (simp add: item_effect_def lift_core_def)

text \<open>What an item does to the buffer: the cursor moves, or an error drops the buffer.\<close>

definition failed :: "'h redisReader \<Rightarrow> bool" where
  "failed r \<longleftrightarrow> r_err r \<noteq> 0 \<and> r_buf r = None \<and> r_ridx r = - 1"

lemma setError_failed:
  "redisReaderSetError r ty str h = Ok (r', h') \<Longrightarrow> ty \<noteq> 0 \<Longrightarrow> failed r' \<and> length (r_rstack r') = length (r_rstack r)"
  by (auto simp: redisReaderSetError_def failed_def Let_def split: option.splits if_splits)

definition same_buf :: "'h redisReader \<Rightarrow> 'h redisReader \<Rightarrow> bool" where
  "same_buf r r' \<longleftrightarrow> r_buf r' = r_buf r \<and> r_pos r' = r_pos r \<and> r_len r' = r_len r \<and> r_err r' = r_err r \<and>
     r_fn r' = r_fn r \<and> r_maxbuf r' = r_maxbuf r"

lemma move_same: "moveToNextTask r = Ok r' \<Longrightarrow> same_buf r r'"
  by (auto simp: moveToNextTask_def same_buf_def)

lemma enter_same: "enter tok obj r = Ok r' \<Longrightarrow> same_buf r r'"
  by (auto simp: enter_def push_task_def same_buf_def Let_def dest!: move_same split: token.splits if_splits)

lemma set_root_same: "same_buf r (set_root p r)"
  by (simp add: set_root_def same_buf_def)

lemma same_buf_trans: "same_buf r s \<Longrightarrow> same_buf s u \<Longrightarrow> same_buf r u"
  by (simp add: same_buf_def)

lemma apply_tok_buf:
  "apply_tok tok r h = Ok (ok, r', h') \<Longrightarrow>
   (ok = REDIS_OK \<and> same_buf r r') \<or> (ok = REDIS_ERR \<and> failed r')"
  by (auto simp: apply_tok_def oom_def redisReaderSetErrorOOM_def REDIS_ERR_OOM_def dest: setError_failed
      dest!: enter_same intro: same_buf_trans [OF set_root_same] split: if_splits)

lemma rest_of_same: "same_buf r r' \<Longrightarrow> rest_of r' = rest_of r"
  by (auto simp: same_buf_def rest_of_def split: option.split)

lemma rest_of_failed: "failed r \<Longrightarrow> rest_of r = []"
  by (simp add: failed_def rest_of_def)

lemma item_effect_rest:
  assumes "item_effect res r h = Ok (ok, r', h')"
  shows "(case res of
       More \<Rightarrow> ok = REDIS_ERR \<and> r' = r
     | Tok tok n \<Rightarrow> (ok = REDIS_OK \<and> same_buf (advance n r) r') \<or> (ok = REDIS_ERR \<and> failed r')
     | _ \<Rightarrow> ok = REDIS_ERR \<and> failed r')"
  using assms apply_tok_buf [of _ "advance _ r" h]
  by (auto simp: item_effect_def byte_error_def redisReaderSetErrorProtocolByte_def deep_error_def REDIS_ERR_PROTOCOL_def
      split: lexed.splits dest: setError_failed)

lemma processItem_refines:
  assumes "buffer_ok r b" "cur_task r = Ok cur" "t_type cur < 0 \<or> reply_type (t_type cur)"
  shows "a_step (core r) (rest_of r) h =
    cbind (processItem r h) (\<lambda>(ok, r', h'). Ok (ok = REDIS_OK, core r', rest_of r', h'))"
proof -
  obtain ty k res where lx: "lex_item (t_type cur) (r_ridx r = 8) (rest_of r) = (ty, k, res)" by (metis prod_cases3)
  let ?r = "advance k (set_task (\<lambda>t. t\<lparr>t_type := ty\<rparr>) r)"
  note ps = processItem_spec [OF assms lx, of h]
  have "item_effect res ?r h = Ok (ok, r', h') \<Longrightarrow>
    rest_of r' = (case res of More \<Rightarrow> drop k (rest_of r)
      | Tok tok n \<Rightarrow> if ok = REDIS_OK then drop (k + n) (rest_of r) else [] | _ \<Rightarrow> [])" for ok r' h'
    using item_effect_rest [of res ?r h ok r' h']
    by (auto simp: rest_of_same rest_of_failed rest_of_advance redis_consts add.commute split: lexed.splits if_splits)
  moreover have "lift_core (item_effect res ?r h) = lift_core (item_effect res (set_task (\<lambda>t. t\<lparr>t_type := ty\<rparr>) (core r)) h)"
    using item_effect_core [of res ?r h] by simp
  ultimately show ?thesis using assms(2) lx unfolding a_step_def ps
    by (cases "item_effect res ?r h"; cases "item_effect res (set_task (\<lambda>t. t\<lparr>t_type := ty\<rparr>) (core r)) h")
      (auto simp: lift_core_def Let_def)
qed


section \<open>The invariant of the reader\<close>

definition core_inv :: "'h redisReader \<Rightarrow> bool" where
  "core_inv c \<longleftrightarrow>
     (if r_err c = 0 then length (r_rstack c) = 9 \<and>
        (r_ridx c = - 1 \<or> stack_ok (r_rstack c) (r_ridx c) \<and>
           (r_ridx c = 8 \<longrightarrow> t_type (r_rstack c ! nat (r_ridx c)) \<noteq> REDIS_REPLY_ARRAY)) \<and>
        (0 < r_ridx c \<longrightarrow> r_reply c \<noteq> 0)
      else r_ridx c = - 1)"

definition reader_inv :: "'h redisReader \<Rightarrow> bool" where
  "reader_inv r \<longleftrightarrow> core_inv r \<and> (if r_err r = 0 then \<exists>b. buffer_ok r b else r_buf r = None)"

lemma core_inv_core [simp]: "core_inv (core r) = core_inv r"
  by (simp add: core_inv_def)

lemma failed_inv: "failed r \<Longrightarrow> reader_inv r" "failed r \<Longrightarrow> core_inv r"
  by (simp_all add: failed_def reader_inv_def core_inv_def)

lemma stack_okD:
  assumes "stack_ok (r_rstack r) (r_ridx r)"
  shows "\<exists>cur. cur_task r = Ok cur \<and> cur = r_rstack r ! nat (r_ridx r) \<and> (t_type cur = - 1 \<or> reply_type (t_type cur))"
  using assms by (auto simp: stack_ok_def cur_task_def)

lemma stack_ok_set_type:
  assumes "stack_ok st ridx" "ty = - 1 \<or> reply_type ty"
  shows "stack_ok (st[nat ridx := (st ! nat ridx)\<lparr>t_type := ty\<rparr>]) ridx"
  using assms by (auto simp: stack_ok_def nth_list_update)

lemma lex_item_type:
  "lex_item ty deep t = (ty', k, res) \<Longrightarrow> ty = - 1 \<or> reply_type ty \<Longrightarrow> ty' = - 1 \<or> reply_type ty'"
  by (auto simp: lex_item_def split: if_splits list.splits option.splits dest: type_of_byte_reply)

lemma lex_item_array:
  "lex_item ty deep t = (ty', k, Tok (TArr n) m) \<Longrightarrow> ty = - 1 \<or> reply_type ty \<Longrightarrow>
   ty' = REDIS_REPLY_ARRAY \<and> \<not> deep \<and> n \<le> 2147483647"
  using to_i32_bounds
  by (auto simp: lex_item_def lex_typed_def Let_def split: if_splits list.splits option.splits)

lemma lex_item_More_deep:
  "lex_item ty True t = (REDIS_REPLY_ARRAY, k, More) \<Longrightarrow> False"
  by (auto simp: lex_item_def lex_typed_def redis_consts split: if_splits list.splits option.splits)

lemma enter_ok:
  assumes "stack_ok (r_rstack r) (r_ridx r)"
    "\<And>n. tok = TArr n \<Longrightarrow> r_ridx r \<noteq> 8 \<and> n \<le> 2147483647 \<and> t_type (r_rstack r ! nat (r_ridx r)) = REDIS_REPLY_ARRAY"
  shows "\<exists>r'. enter tok obj r = Ok r' \<and> length (r_rstack r') = 9 \<and> r_reply r' = r_reply r \<and>
    (r_ridx r' = - 1 \<or> stack_ok (r_rstack r') (r_ridx r') \<and> t_type (r_rstack r' ! nat (r_ridx r')) = - 1)"
proof -
  have mv: "\<exists>r'. moveToNextTask r = Ok r' \<and> length (r_rstack r') = 9 \<and> r_reply r' = r_reply r \<and>
    (r_ridx r' = - 1 \<or> stack_ok (r_rstack r') (r_ridx r') \<and> t_type (r_rstack r' ! nat (r_ridx r')) = - 1)"
    using moveToNextTask_ok [OF assms(1)] by (auto simp: moveToNextTask_def)
  show ?thesis
  proof (cases "\<exists>n > 0. tok = TArr n")
    case True
    then obtain n where n: "tok = TArr n" "0 < n" by auto
    then obtain st where "push_task n obj r = Ok (r\<lparr>r_rstack := st, r_ridx := r_ridx r + 1\<rparr>)" "stack_ok st (r_ridx r + 1)"
      "t_type (st ! nat (r_ridx r + 1)) = - 1"
      using push_task_ok [OF assms(1), of n obj] assms(2) by blast
    then show ?thesis using n by (auto simp: enter_def stack_ok_def)
  next
    case False
    then show ?thesis using mv by (cases tok) (auto simp: enter_def)
  qed
qed

lemma same_buf_ok: "same_buf r r' \<Longrightarrow> buffer_ok r b \<Longrightarrow> buffer_ok r' b"
  unfolding same_buf_def buffer_ok_def by metis

lemma apply_tok_ok:
  assumes "apply_tok tok c h = Ok (REDIS_OK, c', h')" "stack_ok (r_rstack c) (r_ridx c)" "0 < r_ridx c \<Longrightarrow> r_reply c \<noteq> 0"
    "\<And>n. tok = TArr n \<Longrightarrow> r_ridx c \<noteq> 8 \<and> n \<le> 2147483647 \<and> t_type (r_rstack c ! nat (r_ridx c)) = REDIS_REPLY_ARRAY"
  shows "length (r_rstack c') = 9 \<and> r_reply c' \<noteq> 0 \<and>
    (r_ridx c' = - 1 \<or> stack_ok (r_rstack c') (r_ridx c') \<and> t_type (r_rstack c' ! nat (r_ridx c')) = - 1)"
proof -
  obtain obj where obj: "obj \<noteq> 0" "enter tok obj (set_root obj c) = Ok c'"
    using assms(1) by (auto simp: apply_tok_def oom_def redis_consts split: if_splits)
  have "r_reply (set_root obj c) \<noteq> 0" using obj(1) assms(2,3) by (auto simp: set_root_def stack_ok_def)
  moreover have "r_rstack (set_root obj c) = r_rstack c" "r_ridx (set_root obj c) = r_ridx c" by (simp_all add: set_root_def)
  ultimately show ?thesis using enter_ok [of "set_root obj c" tok obj] obj(2) assms(2,4) by auto
qed

lemma a_step_inv:
  assumes "core_inv c" "0 \<le> r_ridx c" "a_step c t h = Ok (ok, c', t', h')"
  shows "core_inv c' \<and> (ok \<longrightarrow> r_err c' = 0 \<and> length t' < length t \<and> r_reply c' \<noteq> 0) \<and>
    (\<not> ok \<longrightarrow> r_err c' = 0 \<longrightarrow> 0 \<le> r_ridx c') \<and> (r_err c' \<noteq> 0 \<longrightarrow> t' = []) \<and> c' = core c' \<and>
    length t' \<le> length t"
proof -
  have b: "r_err c = 0" "stack_ok (r_rstack c) (r_ridx c)" "0 < r_ridx c \<Longrightarrow> r_reply c \<noteq> 0"
    using assms(1,2) by (auto simp: core_inv_def split: if_splits)
  obtain cur where cur: "cur_task c = Ok cur" "cur = r_rstack c ! nat (r_ridx c)" "t_type cur = - 1 \<or> reply_type (t_type cur)"
    using stack_okD [OF b(2)] by blast
  obtain ty k res where lx: "lex_item (t_type cur) (r_ridx c = 8) t = (ty, k, res)" by (metis prod_cases3)
  define c1 where "c1 = set_task (\<lambda>t. t\<lparr>t_type := ty\<rparr>) c"
  obtain ok0 c0 where eff: "item_effect res c1 h = Ok (ok0, c0, h')" "c' = core c0" "ok = (ok0 = REDIS_OK)"
    "t' = (case res of More \<Rightarrow> drop k t | Tok tok n \<Rightarrow> if ok0 = REDIS_OK then drop (k + n) t else [] | _ \<Rightarrow> [])"
    using assms(3) cur(1) lx by (auto simp: a_step_def c1_def Let_def)
  have st1: "stack_ok (r_rstack c1) (r_ridx c1)"
    using stack_ok_set_type [OF b(2) lex_item_type [OF lx cur(3)]] by (simp add: c1_def set_task_def)
  have cur1: "r_ridx c1 = r_ridx c" "r_err c1 = 0" "t_type (r_rstack c1 ! nat (r_ridx c1)) = ty" "r_reply c1 = r_reply c"
    using b(1,2) by (auto simp: c1_def set_task_def stack_ok_def)
  note er = item_effect_rest [OF eff(1)]
  show ?thesis
  proof (cases res)
    case More
    then have "c0 = c1" "ok0 = REDIS_ERR" using er by auto
    moreover have "r_ridx c = 8 \<longrightarrow> ty \<noteq> REDIS_REPLY_ARRAY" using lx More lex_item_More_deep by auto
    moreover have "length (r_rstack c1) = 9" using st1 by (simp add: stack_ok_def)
    ultimately show ?thesis using st1 cur1 b(3) eff(2-4) assms(2) More by (auto simp: core_inv_def redis_consts)
  next
    case (Tok tok n)
    have n: "2 \<le> n" "k + n \<le> length t" using lex_item_Tok lx Tok by blast+
    show ?thesis
    proof (cases "ok0 = REDIS_OK")
      case True
      have arr: "tok = TArr i \<Longrightarrow> ty = REDIS_REPLY_ARRAY \<and> r_ridx c \<noteq> 8 \<and> i \<le> 2147483647" for i
        using lex_item_array [of "t_type cur" "r_ridx c = 8" t ty k i n] lx Tok cur(3) by simp
      have "length (r_rstack c0) = 9 \<and> r_reply c0 \<noteq> 0 \<and>
          (r_ridx c0 = - 1 \<or> stack_ok (r_rstack c0) (r_ridx c0) \<and> t_type (r_rstack c0 ! nat (r_ridx c0)) = - 1)"
        using eff(1) Tok True arr b(3) st1 cur1
        by (intro apply_tok_ok [of tok "advance n c1" h c0 h']) (auto simp: item_effect_def)
      moreover have "r_err c0 = 0" using er Tok True cur1(2) by (auto simp: same_buf_def redis_consts)
      ultimately show ?thesis using True eff(2-4) Tok n by (auto simp: core_inv_def redis_consts)
    next
      case False
      then show ?thesis using er Tok eff(2-4) failed_inv(2) [of c0] by (auto simp: failed_def)
    qed
  qed (use er eff(2-4) failed_inv(2) [of c0] in \<open>auto simp: failed_def redis_consts\<close>)
qed

lemma processItem_inv:
  assumes "reader_inv r" "0 \<le> r_ridx r" "processItem r h = Ok (ok, r', h')"
  shows "reader_inv r' \<and> (ok = REDIS_OK \<longrightarrow> length (rest_of r') < length (rest_of r)) \<and>
    (r_err r' = 0 \<longrightarrow> r_len r' = r_len r)"
proof -
  obtain b where b: "buffer_ok r b" "r_err r = 0" "stack_ok (r_rstack r) (r_ridx r)"
    using assms(1,2) by (auto simp: reader_inv_def core_inv_def split: if_splits)
  obtain cur where cur: "cur_task r = Ok cur" "t_type cur = - 1 \<or> reply_type (t_type cur)"
    using stack_okD [OF b(3)] by blast
  then have cur': "t_type cur < 0 \<or> reply_type (t_type cur)" by auto
  have "a_step (core r) (rest_of r) h = Ok (ok = REDIS_OK, core r', rest_of r', h')"
    using processItem_refines [OF b(1) cur(1) cur', of h] assms(3) by simp
  from a_step_inv [OF _ _ this] have inv: "core_inv r'" "ok = REDIS_OK \<longrightarrow> length (rest_of r') < length (rest_of r)"
    using assms(1,2) by (auto simp: reader_inv_def)
  obtain ty k res where lx: "lex_item (t_type cur) (r_ridx r = 8) (rest_of r) = (ty, k, res)" by (metis prod_cases3)
  let ?r1 = "advance k (set_task (\<lambda>t. t\<lparr>t_type := ty\<rparr>) r)"
  have eff: "item_effect res ?r1 h = Ok (ok, r', h')"
    using assms(3) processItem_spec [OF b(1) cur(1) cur' lx, of h] by simp
  have bf: "buffer_ok (advance n (set_task (\<lambda>t. t\<lparr>t_type := ty\<rparr>) r)) b" if "n \<le> length (rest_of r)" for n
    using buffer_ok_advance [of "set_task (\<lambda>t. t\<lparr>t_type := ty\<rparr>) r" b n] b(1) that by simp
  have "failed r' \<or> (buffer_ok r' b \<and> r_err r' = 0)"
    using item_effect_rest [OF eff] bf [of k] lex_item_len [OF lx] lex_item_Tok [of "t_type cur" "r_ridx r = 8" "rest_of r" ty k] lx b(2)
      same_buf_ok [of _ r' b, OF _ bf]
    by (auto simp: same_buf_def split: lexed.splits)
  then show ?thesis using inv failed_inv(1) b(1) by (auto simp: reader_inv_def buffer_ok_def failed_def)
qed


section \<open>Getting a reply\<close>

function a_loop :: "'h redisReader \<Rightarrow> string \<Rightarrow> 'h \<Rightarrow> ('h redisReader \<times> string \<times> 'h) cres" where
  "a_loop c t h =
     (if r_ridx c < 0 then Ok (c, t, h)
      else cbind (a_step c t h) (\<lambda>(ok, c', t', h').
        if \<not> ok then Ok (c', t', h')
        else if length t' < length t then a_loop c' t' h' else Fault OutOfFuel))"
  by pat_completeness auto
termination
  by (relation "measure (\<lambda>(c, t, h). length t)") auto

declare a_loop.simps [simp del]

definition root_task :: "nat \<Rightarrow> redisReadTask" where
  "root_task pd = \<lparr>t_type = - 1, t_elements = - 1, t_idx = - 1, t_obj = 0, t_parent = None, t_privdata = pd\<rparr>"

definition start :: "'h redisReader \<Rightarrow> 'h redisReader" where
  "start c = (if r_err c = 0 \<and> r_ridx c = - 1
     then c\<lparr>r_rstack := (r_rstack c)[0 := root_task (r_privdata c)], r_ridx := 0\<rparr> else c)"

definition a_get :: "'h redisReader \<Rightarrow> string \<Rightarrow> 'h \<Rightarrow> (int \<times> nat \<times> 'h redisReader \<times> string \<times> 'h) cres" where
  "a_get c t h =
     (if r_err c \<noteq> 0 then Ok (REDIS_ERR, 0, c, t, h)
      else cbind (a_loop c t h) (\<lambda>(c, t, h).
        if r_err c \<noteq> 0 then Ok (REDIS_ERR, 0, c, t, h)
        else if r_ridx c = - 1 then Ok (REDIS_OK, r_reply c, start (c\<lparr>r_reply := 0\<rparr>), t, h)
        else Ok (REDIS_OK, 0, c, t, h)))"

lemma process_loop_refines:
  "reader_inv r \<Longrightarrow> length (rest_of r) < n \<Longrightarrow>
   a_loop (core r) (rest_of r) h = cbind (process_loop n r h) (\<lambda>(r', h'). Ok (core r', rest_of r', h'))"
proof (induction n arbitrary: r h)
  case (Suc n)
  show ?case
  proof (cases "r_ridx r < 0")
    case True
    then show ?thesis by (subst a_loop.simps) simp
  next
    case False
    obtain b where b: "buffer_ok r b" "stack_ok (r_rstack r) (r_ridx r)"
      using Suc.prems(1) False by (auto simp: reader_inv_def core_inv_def split: if_splits)
    obtain cur where cur: "cur_task r = Ok cur" "t_type cur < 0 \<or> reply_type (t_type cur)"
      using stack_okD [OF b(2)] by fastforce
    note st = processItem_refines [OF b(1) cur, of h]
    show ?thesis
    proof (cases "processItem r h")
      case (Ok x)
      obtain ok r' h' where x: "x = (ok, r', h')" by (metis prod_cases3)
      have inv: "reader_inv r'" "ok = REDIS_OK \<longrightarrow> length (rest_of r') < length (rest_of r)"
        using processItem_inv [OF Suc.prems(1), of h ok r' h'] False Ok x by auto
      show ?thesis using False Ok x st inv Suc.IH [OF inv(1), of h'] Suc.prems(2)
        by (subst a_loop.simps) auto
    qed (use False st in \<open>subst a_loop.simps, simp\<close>)+
  qed
qed simp

lemma process_loop_inv:
  "reader_inv r \<Longrightarrow> process_loop n r h = Ok (r', h') \<Longrightarrow>
   reader_inv r' \<and> (r_err r' = 0 \<longrightarrow> r_len r' = r_len r)"
proof (induction n arbitrary: r h)
  case 0
  then show ?case by (auto split: if_splits)
next
  case (Suc n)
  show ?case
  proof (cases "r_ridx r < 0")
    case True
    then show ?thesis using Suc.prems by auto
  next
    case False
    then obtain ok r1 h1 where pi: "processItem r h = Ok (ok, r1, h1)"
      "if ok \<noteq> REDIS_OK then (r1, h1) = (r', h') else process_loop n r1 h1 = Ok (r', h')"
      using Suc.prems(2) by (auto split: if_splits)
    note inv = processItem_inv [OF Suc.prems(1) _ pi(1)]
    show ?thesis
    proof (cases "ok = REDIS_OK")
      case True
      have r1: "reader_inv r1" "r_err r1 = 0 \<longrightarrow> r_len r1 = r_len r" using inv False by auto
      have "reader_inv r' \<and> (r_err r' = 0 \<longrightarrow> r_len r' = r_len r1)" using Suc.IH [OF r1(1)] pi(2) True by auto
      moreover have "r_err r' = 0 \<longrightarrow> r_err r1 = 0"
        using pi(2) True r1(1) by (cases n) (auto simp: reader_inv_def core_inv_def split: if_splits)
      ultimately show ?thesis using r1 by auto
    next
      case False
      then show ?thesis using inv pi(2) \<open>\<not> r_ridx r < 0\<close> by auto
    qed
  qed
qed

lemma a_loop_inv:
  "core_inv c \<Longrightarrow> a_loop c t h = Ok (c', t', h') \<Longrightarrow>
   core_inv c' \<and> length t' \<le> length t \<and> (c = core c \<longrightarrow> c' = core c') \<and>
   (0 \<le> r_ridx c \<longrightarrow> (r_err c' = 0 \<longrightarrow> r_ridx c' = - 1 \<longrightarrow> length t' < length t \<and> r_reply c' \<noteq> 0) \<and>
     (r_err c' \<noteq> 0 \<longrightarrow> t' = []))"
proof (induction c t h rule: a_loop.induct)
  case (1 c t h)
  show ?case
  proof (cases "r_ridx c < 0")
    case True
    then show ?thesis using 1(2,3) by (subst (asm) a_loop.simps) auto
  next
    case False
    have "cbind (a_step c t h) (\<lambda>(ok, c', t', h'). if \<not> ok then Ok (c', t', h')
        else if length t' < length t then a_loop c' t' h' else Fault OutOfFuel) = Ok (c', t', h')"
      using 1(3) False by (subst (asm) a_loop.simps) simp
    then obtain ok c1 t1 h1 where st: "a_step c t h = Ok (ok, c1, t1, h1)"
      "if \<not> ok then (c1, t1, h1) = (c', t', h') else length t1 < length t \<and> a_loop c1 t1 h1 = Ok (c', t', h')"
      by (auto split: if_splits)
    note inv = a_step_inv [OF 1(2) _ st(1)]
    show ?thesis
    proof (cases ok)
      case True
      have al: "length t1 < length t" "a_loop c1 t1 h1 = Ok (c', t', h')" using st(2) True by auto
      have i1: "core_inv c1" "c1 = core c1" "r_reply c1 \<noteq> 0" "r_err c1 = 0" using inv False True by auto
      have IH: "core_inv c' \<and> length t' \<le> length t1 \<and> (c1 = core c1 \<longrightarrow> c' = core c') \<and>
        (0 \<le> r_ridx c1 \<longrightarrow> (r_err c' = 0 \<longrightarrow> r_ridx c' = - 1 \<longrightarrow> length t' < length t1 \<and> r_reply c' \<noteq> 0) \<and>
          (r_err c' \<noteq> 0 \<longrightarrow> t' = []))"
        using 1(1) [OF False st(1) refl refl refl _ al(1) i1(1) al(2)] True by simp
      have "c' = c1 \<and> t' = t1" if "r_ridx c1 < 0" using al(2) that by (subst (asm) a_loop.simps) auto
      then show ?thesis using IH i1 al(1) by (cases "r_ridx c1 < 0") auto
    next
      case False
      then show ?thesis using inv st(2) \<open>\<not> r_ridx c < 0\<close> by auto
    qed
  qed
qed

lemma start_core [simp]: "start (core r) = core (start r)"
  by (simp add: start_def core_def)

lemma start_err [simp]: "r_err (start r) = r_err r"
  by (simp add: start_def)

lemma start_inv: "core_inv c \<Longrightarrow> core_inv (start c)" "core_inv c \<Longrightarrow> r_err c = 0 \<Longrightarrow> 0 \<le> r_ridx (start c)"
  by (auto simp: core_inv_def start_def stack_ok_def root_task_def REDIS_REPLY_ARRAY_def)

lemma start_idem: "core_inv c \<Longrightarrow> start (start c) = start c"
  by (simp add: start_def)

lemma range_slice_tail: "p \<le> length t \<Longrightarrow> range_slice t (int p) (- 1) = drop p t"
  by (cases t) (auto simp: range_slice_def from_end_def Let_def nat_diff_distrib)

text \<open>Discarding the consumed part of the buffer does not change what is left.\<close>

lemma discard_ok:
  assumes "buffer_ok r b" "1024 \<le> r_pos r"
  shows "\<exists>b'. sdsrange b (to_i32 (int (r_pos r))) (- 1) = Ok b' \<and>
    buffer_ok (r\<lparr>r_buf := Some b', r_pos := 0, r_len := sdslen b'\<rparr>) b' \<and> sds_content b' = rest_of r \<and> sdslen b' \<le> r_len r"
proof -
  note d = buffer_okD [OF assms(1)]
  have b: "sds_wf b" "length (sds_content b) = r_len r" "r_buf r = Some b" "sds_fits (r_len r)"
    using assms(1) by (auto simp: buffer_ok_def sdslen_content)
  have p: "to_i32 (int (r_pos r)) = int (r_pos r)" using d(4,5) by simp
  obtain b' where b': "sdsrange b (int (r_pos r)) (- 1) = Ok b'" "sds_wf b'"
    "sds_content b' = range_slice (sds_content b) (int (r_pos r)) (- 1)"
    using sdsrange_spec [OF b(1), of "int (r_pos r)" "- 1"] d(4,5) by auto
  then have "sds_content b' = rest_of r" using range_slice_tail [of "r_pos r" "sds_content b"] b d(4) by (simp add: rest_of_def)
  moreover have "sdslen b' \<le> r_len r" using calculation b'(2) d(3) by (simp add: sdslen_content)
  ultimately show ?thesis using b' p b(4) by (auto simp: buffer_ok_def intro: sds_fits_mono)
qed


definition discard :: "'h redisReader \<Rightarrow> 'h redisReader cres" where
  "discard r =
     (if r_pos r \<ge> 1024
      then (case r_buf r of
              None \<Rightarrow> Fault NullDeref
            | Some b \<Rightarrow> cbind (sdsrange b (to_i32 (int (r_pos r))) (- 1))
                (\<lambda>b. Ok (r\<lparr>r_buf := Some b, r_pos := 0, r_len := sdslen b\<rparr>)))
      else Ok r)"

lemma discard_step:
  assumes "buffer_ok r b"
  shows "\<exists>r3. discard r = Ok r3 \<and> core r3 = core r \<and> rest_of r3 = rest_of r \<and> (\<exists>b3. buffer_ok r3 b3) \<and> r_len r3 \<le> r_len r"
proof (cases "1024 \<le> r_pos r")
  case True
  obtain b' where b': "sdsrange b (to_i32 (int (r_pos r))) (- 1) = Ok b'"
    "buffer_ok (r\<lparr>r_buf := Some b', r_pos := 0, r_len := sdslen b'\<rparr>) b'" "sds_content b' = rest_of r" "sdslen b' \<le> r_len r"
    using discard_ok [OF assms True] by blast
  then show ?thesis using True assms
    by (intro exI [of _ "r\<lparr>r_buf := Some b', r_pos := 0, r_len := sdslen b'\<rparr>"])
      (auto simp: discard_def core_def rest_of_def buffer_ok_def)
qed (use assms in \<open>auto simp: discard_def\<close>)

lemma a_loop_empty:
  assumes "core_inv c" "r_err c = 0" "c = core c"
  shows "a_loop c [] h = Ok (c, [], h)"
proof (cases "r_ridx c < 0")
  case True
  then show ?thesis by (subst a_loop.simps) simp
next
  case False
  have st: "stack_ok (r_rstack c) (r_ridx c)" "r_ridx c = 8 \<longrightarrow> t_type (r_rstack c ! nat (r_ridx c)) \<noteq> REDIS_REPLY_ARRAY"
    using assms(1,2) False by (auto simp: core_inv_def)
  obtain cur where cur: "cur_task c = Ok cur" "cur = r_rstack c ! nat (r_ridx c)"
    using stack_okD [OF st(1)] by blast
  have "lex_item (t_type cur) (r_ridx c = 8) [] = (t_type cur, 0, More)"
    using st(2) cur(2) by (auto simp: lex_item_def lex_typed_def)
  then have "a_step c [] h = Ok (False, c, [], h)"
    using cur assms(3) set_task_id [OF cur(1)] by (simp add: a_step_def item_effect_def redis_consts)
  then show ?thesis using False by (subst a_loop.simps) simp
qed

lemma core_reply: "core (r\<lparr>r_reply := p\<rparr>) = (core r)\<lparr>r_reply := p\<rparr>" "rest_of (r\<lparr>r_reply := p\<rparr>) = rest_of r"
  by (simp_all add: core_def rest_of_def split: option.split)

lemma getReply_unfold:
  assumes "r_err r = 0" "r_len r \<noteq> 0"
  shows "redisReaderGetReply r h = cbind (process_loop (Suc (r_len r)) (start r) h) (\<lambda>(r, h).
     if r_err r \<noteq> 0 then Ok (REDIS_ERR, 0, r, h)
     else cbind (discard r) (\<lambda>r. if r_ridx r = - 1 then Ok (REDIS_OK, r_reply r, r\<lparr>r_reply := 0\<rparr>, h)
       else Ok (REDIS_OK, 0, r, h)))"
  using assms by (simp add: redisReaderGetReply_def discard_def [abs_def] start_def root_task_def Let_def cong: if_cong del: process_loop.simps)

lemma getReply_refines:
  assumes "reader_inv r"
  shows "a_get (start (core r)) (rest_of r) h =
    cbind (redisReaderGetReply r h) (\<lambda>(res, p, r', h'). Ok (res, p, start (core r'), rest_of r', h'))"
proof (cases "r_err r = 0")
  case False
  then show ?thesis using assms by (simp add: a_get_def redisReaderGetReply_def)
next
  case ok: True
  obtain b where b: "buffer_ok r b" using assms ok by (auto simp: reader_inv_def)
  note d = buffer_okD [OF b]
  have ci: "core_inv (start r)" "0 \<le> r_ridx (start r)" using assms ok start_inv [of r] by (auto simp: reader_inv_def)
  show ?thesis
  proof (cases "r_len r = 0")
    case True
    then have "rest_of r = []" using d(3) by simp
    then show ?thesis using ok True ci a_loop_empty [of "core (start r)" h]
      by (simp add: a_get_def redisReaderGetReply_def)
  next
    case False
    note unf = getReply_unfold [OF ok False]
    have rest1: "rest_of (start r) = rest_of r" "r_len (start r) = r_len r" by (simp_all add: start_def rest_of_def split: option.split)
    have inv1: "reader_inv (start r)"
      using ci(1) b ok by (auto simp: reader_inv_def buffer_ok_def start_def)
    have fuel: "length (rest_of (start r)) < Suc (r_len r)" using d(3) rest1 by simp
    note pl = process_loop_refines [OF inv1 fuel, of h]
    show ?thesis
    proof (cases "process_loop (Suc (r_len r)) (start r) h")
      case (Ok x)
      obtain r2 h2 where x: "x = (r2, h2)" by (cases x)
      have inv2: "reader_inv r2" using process_loop_inv [OF inv1] Ok x by blast
      have al: "a_loop (core (start r)) (rest_of r) h = Ok (core r2, rest_of r2, h2)" using pl Ok x rest1 by simp
      show ?thesis
      proof (cases "r_err r2 = 0")
        case False
        then show ?thesis using ok al Ok x
          by (simp add: a_get_def unf start_def [of r2] del: process_loop.simps)
      next
        case True
        then obtain b2 where b2: "buffer_ok r2 b2" using inv2 by (auto simp: reader_inv_def)
        obtain r3 where r3: "discard r2 = Ok r3" "core r3 = core r2" "rest_of r3 = rest_of r2"
          using discard_step [OF b2] by blast
        have e3: "r_ridx r3 = r_ridx r2" "r_reply r3 = r_reply r2" "r_err r3 = 0" "core (r3\<lparr>r_reply := 0\<rparr>) = (core r2)\<lparr>r_reply := 0\<rparr>"
          "rest_of (r3\<lparr>r_reply := 0\<rparr>) = rest_of r2"
          using r3(2,3) True core_simps(1,3,4) [of r3] core_simps(1,3,4) [of r2] by (simp_all add: core_reply)
        have "core (start r2) = core r2" if "r_ridx r2 \<noteq> - 1" using that by (simp add: start_def)
        moreover have "core (start r3) = core (start r2)" using start_core r3(2) by metis
        moreover have "core (start (r3\<lparr>r_reply := 0\<rparr>)) = start ((core r2)\<lparr>r_reply := 0\<rparr>)" using start_core e3(4) by metis
        ultimately show ?thesis using ok al Ok x True r3 e3
          by (simp add: a_get_def unf del: process_loop.simps)
      qed
    qed (use ok pl rest1 in \<open>simp_all add: a_get_def unf del: process_loop.simps\<close>)
  qed
qed


lemma getReply_inv:
  assumes "reader_inv r" "redisReaderGetReply r h = Ok (res, p, r', h')"
  shows "reader_inv r' \<and> (r_err r' = 0 \<longrightarrow> r_len r' \<le> r_len r)"
proof (cases "r_err r = 0 \<and> r_len r \<noteq> 0")
  case False
  then show ?thesis using assms by (auto simp: redisReaderGetReply_def split: if_splits)
next
  case True
  then obtain b where b: "buffer_ok r b" using assms(1) by (auto simp: reader_inv_def)
  have inv1: "reader_inv (start r)"
    using assms(1) start_inv(1) [of r] b True by (auto simp: reader_inv_def buffer_ok_def start_def)
  have len: "r_len (start r) = r_len r" by (simp add: start_def)
  obtain r2 h2 where pl: "process_loop (Suc (r_len r)) (start r) h = Ok (r2, h2)"
    "(if r_err r2 \<noteq> 0 then Ok (REDIS_ERR, 0, r2, h2)
      else cbind (discard r2) (\<lambda>r. if r_ridx r = - 1 then Ok (REDIS_OK, r_reply r, r\<lparr>r_reply := 0\<rparr>, h2)
        else Ok (REDIS_OK, 0, r, h2))) = Ok (res, p, r', h')"
    using assms(2) True by (auto simp: getReply_unfold simp del: process_loop.simps)
  note inv2 = process_loop_inv [OF inv1 pl(1)]
  show ?thesis
  proof (cases "r_err r2 = 0")
    case False
    then show ?thesis using pl(2) inv2 by auto
  next
    case err: True
    then obtain b2 where b2: "buffer_ok r2 b2" using inv2 by (auto simp: reader_inv_def)
    obtain r3 b3 where r3: "discard r2 = Ok r3" "core r3 = core r2" "buffer_ok r3 b3" "r_len r3 \<le> r_len r2"
      using discard_step [OF b2] by blast
    have ci: "core_inv r3" using inv2 r3(2) by (metis core_inv_core reader_inv_def)
    have e3: "r_err r3 = 0" using r3(2) err by (metis core_simps(1))
    have "core_inv (r3\<lparr>r_reply := 0\<rparr>)" if "r_ridx r3 = - 1" using ci that by (simp add: core_inv_def)
    then show ?thesis using pl(2) err r3 e3 ci inv2 len
      by (auto simp: reader_inv_def buffer_ok_def split: if_splits)
  qed
qed

section \<open>The stream may be cut anywhere\<close>

lemma a_loop_step:
  assumes "core_inv c" "0 \<le> r_ridx c"
  shows "a_loop c t h = cbind (a_step c t h) (\<lambda>(ok, c', t', h'). if \<not> ok then Ok (c', t', h') else a_loop c' t' h')"
proof (cases "a_step c t h")
  case (Ok x)
  obtain ok c' t' h' where x: "x = (ok, c', t', h')" by (metis prod_cases4)
  have "ok \<longrightarrow> length t' < length t" using a_step_inv [OF assms] Ok x by blast
  then show ?thesis using assms(2) Ok x by (subst a_loop.simps) auto
qed (use assms(2) in \<open>subst a_loop.simps, simp\<close>)+

lemma a_step_append:
  assumes "core_inv c" "0 \<le> r_ridx c" "c = core c"
  shows "(\<exists>c' t'. a_step c t h = Ok (False, c', t', h) \<and> r_err c' = 0 \<and> a_step c (t @ u) h = a_step c' (t' @ u) h) \<or>
    a_step c (t @ u) h = cbind (a_step c t h) (\<lambda>(ok, c', t', h'). Ok (ok, c', if ok then t' @ u else [], h'))
      \<and> (\<forall>c' t' h'. a_step c t h = Ok (False, c', t', h') \<longrightarrow> r_err c' \<noteq> 0)"
proof -
  have b: "r_err c = 0" "stack_ok (r_rstack c) (r_ridx c)" using assms(1,2) by (auto simp: core_inv_def split: if_splits)
  obtain cur where cur: "cur_task c = Ok cur" using stack_okD [OF b(2)] by blast
  obtain ty k res where lx: "lex_item (t_type cur) (r_ridx c = 8) t = (ty, k, res)" by (metis prod_cases3)
  define c1 where "c1 = set_task (\<lambda>t. t\<lparr>t_type := ty\<rparr>) c"
  have c1: "c1 = core c1" using assms(3) unfolding c1_def by (metis core_simps(13))
  show ?thesis
  proof (cases "res = More")
    case True
    have st: "a_step c t h = Ok (False, c1, drop k t, h)"
      using cur lx True c1 by (simp add: a_step_def c1_def [symmetric] item_effect_def redis_consts)
    have cur1: "cur_task c1 = Ok (cur\<lparr>t_type := ty\<rparr>)" unfolding c1_def by (rule cur_task_set_task [OF cur])
    obtain ty2 k2 res2 where lx2: "lex_item ty (r_ridx c = 8) (drop k t @ u) = (ty2, k2, res2)" by (metis prod_cases3)
    have lx3: "lex_item (t_type cur) (r_ridx c = 8) (t @ u) = (ty2, k + k2, res2)"
      using lex_item_resume [of "t_type cur" _ t ty k u] lx True lx2 by simp
    have k: "k \<le> length t" using lex_item_len [OF lx] by simp
    have twice: "set_task (\<lambda>u. u\<lparr>t_type := ty2\<rparr>) c1 = set_task (\<lambda>u. u\<lparr>t_type := ty2\<rparr>) c"
      using cur by (auto simp: c1_def set_task_def cur_task_def split: if_splits)
    have dr: "drop (k + j) (t @ u) = drop j (drop k t @ u)" for j
      using k by (simp add: drop_append) (metis add.commute diff_diff_left drop_drop)
    have "r_ridx c1 = r_ridx c" by (simp add: c1_def)
    then have "a_step c (t @ u) h = a_step c1 (drop k t @ u) h"
      using cur cur1 lx2 lx3 twice dr [of k2] dr [of "k2 + _", unfolded add.assoc [symmetric]]
      by (cases res2) (simp_all add: a_step_def del: drop_append drop_drop cong: if_cong)
    then show ?thesis using st b(1) by (auto simp: c1_def)
  next
    case False
    have lx2: "lex_item (t_type cur) (r_ridx c = 8) (t @ u) = (ty, k, res)" by (rule lex_item_append [OF lx False])
    have n: "k + n \<le> length t" if "res = Tok tok n" for tok n using lex_item_Tok lx that by blast
    have "item_effect res c1 h = Ok (ok, c', h') \<Longrightarrow> ok \<noteq> REDIS_OK \<Longrightarrow> r_err c' \<noteq> 0" for ok c' h'
      using item_effect_rest [of res c1 h ok c' h'] False by (auto simp: failed_def split: lexed.splits)
    then have err: "\<forall>c' t' h'. a_step c t h = Ok (False, c', t', h') \<longrightarrow> r_err c' \<noteq> 0"
      using cur lx by (auto simp: a_step_def c1_def [symmetric])
    have "a_step c (t @ u) h = cbind (a_step c t h) (\<lambda>(ok, c', t', h'). Ok (ok, c', if ok then t' @ u else [], h'))"
      using cur lx lx2 n False item_effect_rest [of res c1 h]
      by (cases "item_effect res c1 h")
        (auto simp: a_step_def c1_def [symmetric] redis_consts split: lexed.splits)
    then show ?thesis using err by blast
  qed
qed


lemma a_loop_append:
  "core_inv c \<Longrightarrow> c = core c \<Longrightarrow> r_err c = 0 \<Longrightarrow>
   a_loop c (t @ u) h = cbind (a_loop c t h) (\<lambda>(c', t', h'). if r_err c' \<noteq> 0 then Ok (c', [], h') else a_loop c' (t' @ u) h')"
proof (induction "length t" arbitrary: c t h rule: less_induct)
  case less
  show ?case
  proof (cases "r_ridx c < 0")
    case True
    then show ?thesis using less.prems(3) by (simp add: a_loop.simps [of c])
  next
    case False
    then have r: "0 \<le> r_ridx c" by simp
    note un = a_loop_step [OF less.prems(1) r]
    consider (more) c' t' where "a_step c t h = Ok (False, c', t', h)" "r_err c' = 0" "a_step c (t @ u) h = a_step c' (t' @ u) h"
      | (same) "a_step c (t @ u) h = cbind (a_step c t h) (\<lambda>(ok, c', t', h'). Ok (ok, c', if ok then t' @ u else [], h'))"
          "\<forall>c' t' h'. a_step c t h = Ok (False, c', t', h') \<longrightarrow> r_err c' \<noteq> 0"
      using a_step_append [OF less.prems(1) r less.prems(2), of t h u] by blast
    then show ?thesis
    proof cases
      case more
      have "core_inv c'" "0 \<le> r_ridx c'" using a_step_inv [OF less.prems(1) r more(1)] more(2) by auto
      then have "a_loop c' (t' @ u) h = a_loop c (t @ u) h" using more(3) by (simp add: un a_loop_step)
      then show ?thesis using more un [of t h] by simp
    next
      case same
      show ?thesis
      proof (cases "a_step c t h")
        case (Ok x)
        obtain ok c' t' h' where x: "x = (ok, c', t', h')" by (metis prod_cases4)
        note inv = a_step_inv [OF less.prems(1) r Ok [unfolded x]]
        have "ok \<Longrightarrow> a_loop c' (t' @ u) h' = cbind (a_loop c' t' h') (\<lambda>(c', t', h'). if r_err c' \<noteq> 0 then Ok (c', [], h') else a_loop c' (t' @ u) h')"
          using less.hyps [of t' c' h'] inv by blast
        then show ?thesis using same Ok x by (cases ok) (simp_all add: un)
      qed (use same in \<open>simp_all add: un\<close>)
    qed
  qed
qed

text \<open>Delivering all replies that are complete.\<close>

function a_drain :: "'h redisReader \<Rightarrow> string \<Rightarrow> 'h \<Rightarrow> (nat list \<times> 'h redisReader \<times> string \<times> 'h) cres" where
  "a_drain c t h =
     cbind (a_get c t h) (\<lambda>(res, p, c', t', h').
       if res \<noteq> REDIS_OK \<or> p = 0 then Ok ([], c', t', h')
       else if length t' < length t
         then cbind (a_drain c' t' h') (\<lambda>(ps, c, t, h). Ok (p # ps, c, t, h))
         else Fault OutOfFuel)"
  by pat_completeness auto
termination
  by (relation "measure (\<lambda>(c, t, h). length t)") auto

declare a_drain.simps [simp del]

definition live :: "'h redisReader \<Rightarrow> bool" where
  "live c \<longleftrightarrow> core_inv c \<and> c = core c \<and> r_err c = 0 \<and> 0 \<le> r_ridx c"

lemma live_start: "core_inv c \<Longrightarrow> c = core c \<Longrightarrow> r_err c = 0 \<Longrightarrow> live (start c)"
  unfolding live_def by (metis start_inv start_core start_err)

lemma live_next:
  assumes "core_inv c" "c = core c" "r_err c = 0" "r_ridx c = - 1"
  shows "live (start (c\<lparr>r_reply := 0\<rparr>))"
proof (rule live_start)
  show "core_inv (c\<lparr>r_reply := 0\<rparr>)" using assms(1,4) by (simp add: core_inv_def)
  show "c\<lparr>r_reply := 0\<rparr> = core (c\<lparr>r_reply := 0\<rparr>)" using assms(2) core_reply(1) by metis
qed (use assms in simp)

text \<open>The three ways a run of the parser ends.\<close>

lemma a_loop_cases:
  assumes "live c" "a_loop c t h = Ok (c', t', h')"
  obtains (error) "r_err c' \<noteq> 0" "t' = []"
    | (reply) "r_err c' = 0" "r_ridx c' = - 1" "length t' < length t" "r_reply c' \<noteq> 0" "live (start (c'\<lparr>r_reply := 0\<rparr>))"
    | (wait) "live c'"
proof -
  note inv = a_loop_inv [OF _ assms(2)]
  have c: "core_inv c" "c = core c" "0 \<le> r_ridx c" using assms(1) by (auto simp: live_def)
  have ci: "core_inv c'" "c' = core c'" using inv [OF c(1)] c(2) by auto
  consider "r_err c' \<noteq> 0" | "r_err c' = 0" "r_ridx c' = - 1" | "r_err c' = 0" "0 \<le> r_ridx c'"
    using ci(1) by (auto simp: core_inv_def stack_ok_def split: if_splits)
  then show thesis
  proof cases
    case 1
    then show thesis using inv [OF c(1)] c(3) by (intro error) auto
  next
    case 2
    then show thesis using inv [OF c(1)] c(3) live_next [OF ci 2] by (intro reply) auto
  next
    case 3
    then show thesis using ci by (intro wait) (auto simp: live_def)
  qed
qed

lemma a_get_live: "live c \<Longrightarrow> a_get c t h = cbind (a_loop c t h) (\<lambda>(c, t, h).
    if r_err c \<noteq> 0 then Ok (REDIS_ERR, 0, c, t, h)
    else if r_ridx c = - 1 then Ok (REDIS_OK, r_reply c, start (c\<lparr>r_reply := 0\<rparr>), t, h)
    else Ok (REDIS_OK, 0, c, t, h))"
  by (simp add: a_get_def live_def)

lemma a_drain_get:
  assumes "live c"
  shows "a_drain c t h = cbind (a_get c t h) (\<lambda>(res, p, c', t', h').
    if res \<noteq> REDIS_OK \<or> p = 0 then Ok ([], c', t', h')
    else cbind (a_drain c' t' h') (\<lambda>(ps, c, t, h). Ok (p # ps, c, t, h)))"
proof (cases "a_loop c t h")
  case (Ok x)
  obtain c1 t1 h1 where x: "x = (c1, t1, h1)" by (metis prod_cases3)
  from assms Ok [unfolded x] show ?thesis
    by (cases rule: a_loop_cases)
      (use Ok x assms in \<open>auto simp: a_drain.simps [of c] a_get_live [OF assms] live_def redis_consts\<close>)
qed (use assms in \<open>simp_all add: a_drain.simps [of c] a_get_live\<close>)

lemma a_drain_append:
  "live c \<Longrightarrow> a_drain c (t @ u) h = cbind (a_drain c t h) (\<lambda>(ps, c', t', h').
     if r_err c' \<noteq> 0 then Ok (ps, c', [], h')
     else cbind (a_drain c' (t' @ u) h') (\<lambda>(qs, c'', t'', h''). Ok (ps @ qs, c'', t'', h'')))"
proof (induction "length t" arbitrary: c t h rule: less_induct)
  case less
  have c: "core_inv c" "c = core c" "r_err c = 0" using less.prems by (auto simp: live_def)
  note ap = a_loop_append [OF c, of t u h]
  show ?case
  proof (cases "a_loop c t h")
    case (Ok x)
    obtain c1 t1 h1 where x: "x = (c1, t1, h1)" by (metis prod_cases3)
    from less.prems Ok [unfolded x] show ?thesis
    proof (cases rule: a_loop_cases)
      case error
      then show ?thesis using Ok x ap less.prems by (simp add: a_drain.simps [of c] a_get_live redis_consts)
    next
      case reply
      have "a_loop c (t @ u) h = Ok (c1, t1 @ u, h1)" using ap Ok x reply by (simp add: a_loop.simps [of c1])
      then show ?thesis using Ok x less.prems reply less.hyps [OF reply(3,5), of h1]
        by (cases "a_drain (start (c1\<lparr>r_reply := 0\<rparr>)) t1 h1") (auto simp: a_drain.simps [of c] a_get_live cbind_assoc split_def)
    next
      case wait
      then have "a_loop c (t @ u) h = a_loop c1 (t1 @ u) h1" using ap Ok x by (simp add: live_def)
      moreover have "a_drain c t h = Ok ([], c1, t1, h1)"
        using Ok x wait less.prems by (auto simp: a_drain.simps [of c] a_get_live live_def)
      moreover have "a_get c (t @ u) h = a_get c1 (t1 @ u) h1" using calculation(1) wait less.prems by (simp add: a_get_live)
      then have "a_drain c (t @ u) h = a_drain c1 (t1 @ u) h1" using wait less.prems by (simp add: a_drain_get)
      ultimately show ?thesis using wait by (cases "a_drain c1 (t1 @ u) h1") (auto simp: live_def)
    qed
  qed (use less.prems ap in \<open>simp_all add: a_drain.simps [of c] a_get_live\<close>)
qed


section \<open>Feeding and draining the reader\<close>

lemma feed_spec:
  assumes "reader_inv r" "r_err r = 0" "alloc_ok e0" "alloc_ok e" "sds_fits (r_len r + length t)"
  shows "\<exists>r'. redisReaderFeed e0 e r (Some t) (length t) h = Ok (REDIS_OK, r', h) \<and> reader_inv r' \<and>
    core r' = core r \<and> rest_of r' = rest_of r @ t \<and> r_len r' \<le> r_len r + length t"
proof (cases "t = []")
  case True
  then show ?thesis using assms(1,2) by (simp add: redisReaderFeed_def)
next
  case False
  obtain b where b: "buffer_ok r b" using assms(1,2) by (auto simp: reader_inv_def)
  have cat: "\<exists>b'. sdscatlen e b1 t (length t) = Ok b' \<and> sds_wf b' \<and> sds_content b' = sds_content b1 @ t"
    if "sds_wf b1" "length (sds_content b1) \<le> r_len r" for b1
    using returns_ex [OF sdscatlen_spec [OF that(1), of "length t" t e]] assms(4) that sds_fits_mono [OF assms(5)]
    by (simp add: sdslen_content)
  have inv: "reader_inv (r\<lparr>r_buf := Some b', r_pos := p, r_len := sdslen b'\<rparr>)"
    if "sds_wf b'" "p \<le> sdslen b'" "sdslen b' \<le> r_len r + length t" for b' p
    using that assms(1,2) sds_fits_mono [OF assms(5)] by (auto simp: reader_inv_def core_inv_def buffer_ok_def)
  have co: "core (r\<lparr>r_buf := b1, r_pos := p, r_len := l\<rparr>) = core r" for b1 p l by (simp add: core_def)
  have w: "sds_wf b" "r_buf r = Some b" "length (sds_content b) = r_len r" "r_pos r \<le> r_len r"
    using b by (auto simp: buffer_ok_def sdslen_content)
  have len: "\<not> length t < 1" using False by (cases t) auto
  show ?thesis
  proof (cases "r_len r = 0 \<and> r_maxbuf r \<noteq> 0 \<and> sdsavail b > r_maxbuf r")
    case True
    obtain b1 where b1: "sdsempty e0 = Ok b1" "sds_wf b1" "sds_content b1 = []"
      using returns_ex [OF sdsempty_spec assms(3)] by blast
    obtain b' where b': "sdscatlen e b1 t (length t) = Ok b'" "sds_wf b'" "sds_content b' = t" using cat [OF b1(2)] b1(3) by auto
    have "redisReaderFeed e0 e r (Some t) (length t) h = Ok (REDIS_OK, r\<lparr>r_buf := Some b', r_pos := 0, r_len := sdslen b'\<rparr>, h)"
      using assms(2) len w True b1 b' by (simp add: redisReaderFeed_def)
    then show ?thesis using inv [OF b'(2), of 0] co b' w True by (auto simp: rest_of_def sdslen_content)
  next
    case False
    obtain b' where b': "sdscatlen e b t (length t) = Ok b'" "sds_wf b'" "sds_content b' = sds_content b @ t"
      using cat [OF w(1)] w(3) by auto
    have "redisReaderFeed e0 e r (Some t) (length t) h = Ok (REDIS_OK, r\<lparr>r_buf := Some b', r_pos := r_pos r, r_len := sdslen b'\<rparr>, h)"
      unfolding redisReaderFeed_def w(2) using assms(2) len False b' by (auto simp: if_not_P [OF False] w(2))
    then show ?thesis using inv [OF b'(2), of "r_pos r"] co b' w by (auto simp: rest_of_def sdslen_content core_def)
  qed
qed

text \<open>Asking for replies until there is none, as every client of the reader does.\<close>

fun drain :: "nat \<Rightarrow> 'h redisReader \<Rightarrow> 'h \<Rightarrow> (nat list \<times> 'h redisReader \<times> 'h) cres" where
  "drain 0 r h = Fault OutOfFuel"
| "drain (Suc n) r h =
     cbind (redisReaderGetReply r h) (\<lambda>(res, p, r', h').
       if res \<noteq> REDIS_OK \<or> p = 0 then Ok ([], r', h')
       else cbind (drain n r' h') (\<lambda>(ps, r, h). Ok (p # ps, r, h)))"

fun run_chunks :: "(nat \<Rightarrow> env) \<Rightarrow> nat \<Rightarrow> 'h redisReader \<Rightarrow> mem list \<Rightarrow> 'h \<Rightarrow> (nat list \<times> 'h redisReader \<times> 'h) cres" where
  "run_chunks es k r [] h = Ok ([], r, h)"
| "run_chunks es k r (t # ts) h =
     cbind (redisReaderFeed (es k) (es k) r (Some t) (length t) h) (\<lambda>(_, r, h).
       cbind (drain (Suc (r_len r)) r h) (\<lambda>(ps, r, h).
         cbind (run_chunks es (Suc k) r ts h) (\<lambda>(qs, r, h). Ok (ps @ qs, r, h))))"

lemma drain_refines:
  "reader_inv r \<Longrightarrow> length (rest_of r) < n \<Longrightarrow>
   cbind (drain n r h) (\<lambda>(ps, r', h'). Ok (ps, start (core r'), rest_of r', h')) = a_drain (start (core r)) (rest_of r) h"
proof (induction n arbitrary: r h)
  case (Suc n)
  note gr = getReply_refines [OF Suc.prems(1), of h]
  show ?case
  proof (cases "redisReaderGetReply r h")
    case (Ok x)
    obtain res p r' h' where x: "x = (res, p, r', h')" by (metis prod_cases4)
    have inv: "reader_inv r'" using getReply_inv [OF Suc.prems(1)] Ok x by blast
    have ag: "a_get (start (core r)) (rest_of r) h = Ok (res, p, start (core r'), rest_of r', h')" using gr Ok x by simp
    show ?thesis
    proof (cases "res \<noteq> REDIS_OK \<or> p = 0")
      case True
      then show ?thesis using Ok x ag by (simp add: a_drain.simps [of "core (start r)"])
    next
      case False
      have "r_err r = 0" using ag False by (auto simp: a_get_def redis_consts split: if_splits)
      then have lv: "live (start (core r))"
        using Suc.prems(1) by (intro live_start) (auto simp: reader_inv_def)
      obtain c1 t1 h1 where al: "a_loop (start (core r)) (rest_of r) h = Ok (c1, t1, h1)"
        using ag lv by (auto simp: a_get_live)
      have "length (rest_of r') < length (rest_of r)"
        using lv al
        by (cases rule: a_loop_cases) (use ag [unfolded a_get_live [OF lv] al] False in \<open>auto simp: redis_consts live_def split: if_splits\<close>)
      then show ?thesis using Ok x ag False Suc.IH [OF inv, of h', symmetric] Suc.prems(2)
        by (cases "drain n r' h'") (auto simp: a_drain.simps [of "core (start r)"])
    qed
  qed (use gr in \<open>simp_all add: a_drain.simps [of "core (start r)"]\<close>)
qed simp


lemma drain_inv:
  "reader_inv r \<Longrightarrow> drain n r h = Ok (ps, r', h') \<Longrightarrow> reader_inv r' \<and> (r_err r' = 0 \<longrightarrow> r_len r' \<le> r_len r)"
proof (induction n arbitrary: r h ps)
  case (Suc n)
  obtain res p r1 h1 where g: "redisReaderGetReply r h = Ok (res, p, r1, h1)"
    "if res \<noteq> REDIS_OK \<or> p = 0 then (r1, h1) = (r', h') else \<exists>qs. drain n r1 h1 = Ok (qs, r', h')"
    using Suc.prems(2) by (auto split: if_splits)
  note inv = getReply_inv [OF Suc.prems(1) g(1)]
  have "r_err r1 \<noteq> 0 \<Longrightarrow> drain n r1 h1 = Ok (qs, r', h') \<Longrightarrow> r' = r1" for qs
    by (cases n) (auto simp: redisReaderGetReply_def redis_consts)
  then show ?case using inv g(2) Suc.IH [of r1 h1] by (cases "r_err r1 = 0") (force split: if_splits)+
qed simp

lemma reader_live: "reader_inv r \<Longrightarrow> r_err r = 0 \<Longrightarrow> live (start (core r))"
  by (intro live_start) (auto simp: reader_inv_def)

lemma run_chunks_failed: "r_err r \<noteq> 0 \<Longrightarrow> run_chunks es k r ts h = Ok ([], r, h)"
  by (induction ts arbitrary: k) (simp_all add: redisReaderFeed_def redisReaderGetReply_def redis_consts)

lemma rest_len: "reader_inv r \<Longrightarrow> length (rest_of r) < Suc (r_len r)"
  using buffer_okD(3) [of r] by (cases "r_err r = 0") (auto simp: reader_inv_def rest_of_def)

lemma run_chunks_refines:
  assumes "\<And>k. alloc_ok (es k)"
  shows "reader_inv r \<Longrightarrow> r_err r = 0 \<Longrightarrow> sds_fits (r_len r + length (concat (t # ts))) \<Longrightarrow>
   cbind (run_chunks es k r (t # ts) h) (\<lambda>(ps, r', h'). Ok (ps, start (core r'), rest_of r', h'))
     = a_drain (start (core r)) (rest_of r @ concat (t # ts)) h"
proof (induction ts arbitrary: k r t h)
  case Nil
  obtain r1 where r1: "redisReaderFeed (es k) (es k) r (Some t) (length t) h = Ok (REDIS_OK, r1, h)" "reader_inv r1"
    "core r1 = core r" "rest_of r1 = rest_of r @ t"
    using feed_spec [OF Nil.prems(1,2) assms assms, of t k k h] Nil.prems(3) by auto
  have D: "cbind (drain (Suc (r_len r1)) r1 h) (\<lambda>(ps, r', h'). Ok (ps, start (core r'), rest_of r', h'))
      = a_drain (start (core r)) (rest_of r @ t) h"
    using drain_refines [OF r1(2) rest_len [OF r1(2)], of h] unfolding r1(3,4) .
  show ?case using r1(1) D by (simp add: cbind_assoc split_def del: drain.simps)
next
  case (Cons u us)
  have fits: "sds_fits (r_len r + length t)" using sds_fits_mono [OF Cons.prems(3)] by simp
  obtain r1 where r1: "redisReaderFeed (es k) (es k) r (Some t) (length t) h = Ok (REDIS_OK, r1, h)" "reader_inv r1"
    "core r1 = core r" "rest_of r1 = rest_of r @ t" "r_len r1 \<le> r_len r + length t"
    using feed_spec [OF Cons.prems(1,2) assms assms fits, of k k h] by auto
  have D: "cbind (drain (Suc (r_len r1)) r1 h) (\<lambda>(ps, r', h'). Ok (ps, start (core r'), rest_of r', h'))
      = a_drain (start (core r)) (rest_of r @ t) h"
    using drain_refines [OF r1(2) rest_len [OF r1(2)], of h] unfolding r1(3,4) .
  note A = a_drain_append [OF reader_live [OF Cons.prems(1,2)], of "rest_of r @ t" "concat (u # us)" h, folded D]
  show ?case
  proof (cases "drain (Suc (r_len r1)) r1 h")
    case (Ok x)
    obtain ps r2 h2 where x: "x = (ps, r2, h2)" by (metis prod_cases3)
    note inv = drain_inv [OF r1(2) Ok [unfolded x]]
    have LHS: "run_chunks es k r (t # u # us) h =
        cbind (run_chunks es (Suc k) r2 (u # us) h2) (\<lambda>(qs, r, h). Ok (ps @ qs, r, h))"
      using r1(1) Ok x by (simp del: drain.simps)
    show ?thesis
    proof (cases "r_err r2 = 0")
      case True
      have "sds_fits (r_len r2 + length (concat (u # us)))"
        using inv True r1(5) sds_fits_mono [OF Cons.prems(3)] by simp
      from Cons.IH [OF conjunct1 [OF inv] True this, of "Suc k" h2]
      have IH: "a_drain (core (start r2)) (rest_of r2 @ concat (u # us)) h2 =
        cbind (run_chunks es (Suc k) r2 (u # us) h2) (\<lambda>(ps, r', h'). Ok (ps, start (core r'), rest_of r', h'))" by simp
      have "concat (t # u # us) = t @ concat (u # us)" by simp
      then show ?thesis using A Ok x True unfolding LHS
        by (simp add: IH cbind_assoc split_def del: drain.simps run_chunks.simps concat.simps)
    next
      case False
      then have "rest_of r2 = []" using inv by (simp add: reader_inv_def rest_of_def)
      then show ?thesis using A Ok x False unfolding LHS run_chunks_failed [OF False]
        by (simp del: drain.simps)
    qed
  qed (use A r1(1) in \<open>simp_all del: drain.simps\<close>)
qed

text \<open>What can be observed of a run: the replies, the error, the bytes left over and the heap.\<close>

definition observe :: "(nat list \<times> 'h redisReader \<times> 'h) cres \<Rightarrow> (nat list \<times> int \<times> mem \<times> string \<times> 'h) cres" where
  "observe m = cbind m (\<lambda>(ps, r, h). Ok (ps, r_err r, r_errstr r, rest_of r, h))"

lemma observe_abs:
  "observe m = cbind (cbind m (\<lambda>(ps, r', h'). Ok (ps, start (core r'), rest_of r', h')))
     (\<lambda>(ps, c, t, h). Ok (ps, r_err c, r_errstr c, t, h))"
  by (cases m) (auto simp: observe_def start_def)

lemma fresh_reader:
  assumes "redisReaderCreateWithFunctions e fn = Ok r"
  shows "reader_inv r" "r_err r = 0" "rest_of r = []" "r_len r = 0" "r_ridx r = - 1" "r_fn r = fn"
proof -
  obtain b where b: "sdsempty e = Ok b" "sds_wf b" "sds_content b = []"
    "r = \<lparr>r_err = 0, r_errstr = replicate 128 NUL, r_buf = Some b, r_pos = 0, r_len = 0,
            r_maxbuf = REDIS_READER_MAX_BUF, r_rstack = replicate 9 zero_task, r_ridx = - 1, r_reply = 0,
            r_fn = fn, r_privdata = 0\<rparr>"
    using assms sdsempty_spec [of e] by (auto simp: redisReaderCreateWithFunctions_def split: if_splits)
  then show "reader_inv r" "r_err r = 0" "rest_of r = []" "r_len r = 0" "r_ridx r = - 1" "r_fn r = fn"
    by (auto simp: reader_inv_def core_inv_def buffer_ok_def rest_of_def sdslen_content sds_fits_def SDS_MAX_PREALLOC_def
        intro!: exI [of _ b])
qed

text \<open>Callbacks that always return, with an object or with the null pointer.\<close>

definition total_fns :: "'h redisReplyObjectFunctions option \<Rightarrow> bool" where
  "total_fns fn \<longleftrightarrow> (\<forall>f. fn = Some f \<longrightarrow>
     (\<forall>g v s h. createString f = Some g \<longrightarrow> (\<exists>x. g v s h = Ok x)) \<and>
     (\<forall>g v n h. createArray f = Some g \<longrightarrow> (\<exists>x. g v n h = Ok x)) \<and>
     (\<forall>g v n h. createInteger f = Some g \<longrightarrow> (\<exists>x. g v n h = Ok x)) \<and>
     (\<forall>g v h. createNil f = Some g \<longrightarrow> (\<exists>x. g v h = Ok x)) \<and>
     (\<forall>g p h. freeObject f = Some g \<longrightarrow> (\<exists>h'. g p h = Ok h')))"

lemma total_none [simp]: "total_fns None"
  by (simp add: total_fns_def)

lemma setError_total:
  assumes "total_fns (r_fn r)"
  shows "\<exists>r' h'. redisReaderSetError r ty str h = Ok (r', h') \<and> r_fn r' = r_fn r"
proof -
  have "\<exists>h'. f p h = Ok h'" if "fn_of freeObject r = Some f" for f p
    using assms that by (auto simp: total_fns_def fn_of_def split: option.splits)
  then show ?thesis
    by (cases "fn_of freeObject r"; cases "r_reply r = 0") (fastforce simp: redisReaderSetError_def Let_def)+
qed

lemma make_obj_total:
  assumes "total_fns (r_fn c)"
  shows "\<exists>x. make_obj tok c cur h = Ok x"
proof (cases "r_fn c")
  case None
  then show ?thesis by (cases tok) (simp_all add: make_obj_def create_nil_def fn_of_def)
next
  case (Some f)
  have cb: "createString f = Some g1 \<Longrightarrow> \<exists>x. g1 v s h = Ok x" "createArray f = Some g2 \<Longrightarrow> \<exists>x. g2 v n h = Ok x"
    "createInteger f = Some g3 \<Longrightarrow> \<exists>x. g3 v n h = Ok x" "createNil f = Some g4 \<Longrightarrow> \<exists>x. g4 v h = Ok x" for g1 g2 g3 g4 v s n
    using assms Some unfolding total_fns_def by blast+
  show ?thesis
    by (cases tok; cases "createString f"; cases "createArray f"; cases "createInteger f"; cases "createNil f")
      (simp_all add: make_obj_def create_nil_def fn_of_def Some cb del: split_paired_Ex)
qed

lemma a_step_total:
  assumes "core_inv c" "0 \<le> r_ridx c" "total_fns (r_fn c)"
  shows "\<exists>ok c' t' h'. a_step c t h = Ok (ok, c', t', h') \<and> r_fn c' = r_fn c"
proof -
  have st: "stack_ok (r_rstack c) (r_ridx c)" using assms(1,2) by (auto simp: core_inv_def split: if_splits)
  obtain cur where cur: "cur_task c = Ok cur" "cur = r_rstack c ! nat (r_ridx c)" "t_type cur = - 1 \<or> reply_type (t_type cur)"
    using stack_okD [OF st] by blast
  obtain ty k res where lx: "lex_item (t_type cur) (r_ridx c = 8) t = (ty, k, res)" by (metis prod_cases3)
  define c1 where "c1 = set_task (\<lambda>t. t\<lparr>t_type := ty\<rparr>) c"
  have c1: "stack_ok (r_rstack c1) (r_ridx c1)" "r_fn c1 = r_fn c" "r_ridx c1 = r_ridx c"
    "t_type (r_rstack c1 ! nat (r_ridx c1)) = ty"
    using stack_ok_set_type [OF st lex_item_type [OF lx cur(3)]] st by (auto simp: c1_def set_task_def stack_ok_def)
  have se: "\<exists>r' h'. redisReaderSetError (advance n c1) ety str g = Ok (r', h') \<and> r_fn r' = r_fn c" for n ety str g
    using setError_total [of "advance n c1"] c1(2) assms(3) by simp
  have "\<exists>ok c' h'. item_effect res c1 h = Ok (ok, c', h') \<and> r_fn c' = r_fn c"
  proof (cases res)
    case (Tok tok n)
    obtain cur1 where cur1: "cur_task c1 = Ok cur1" using stack_okD [OF c1(1)] by blast
    obtain obj h1 where mk: "make_obj tok (advance n c1) cur1 h = Ok (obj, h1)"
      using make_obj_total [of "advance n c1" tok cur1 h] assms(3) c1(2) by (metis advance_simps(4) surj_pair)
    have arr: "tok = TArr i \<Longrightarrow> r_ridx c1 \<noteq> 8 \<and> i \<le> 2147483647 \<and> ty = REDIS_REPLY_ARRAY" for i
      using lex_item_array [of "t_type cur" "r_ridx c = 8" t ty k i n] lx Tok cur(3) c1(3) by simp
    have sr: "r_rstack (set_root obj (advance n c1)) = r_rstack c1" "r_ridx (set_root obj (advance n c1)) = r_ridx c1"
      "r_fn (set_root obj (advance n c1)) = r_fn c" using c1(2) by (simp_all add: set_root_def)
    obtain c2 where c2: "enter tok obj (set_root obj (advance n c1)) = Ok c2"
      using enter_ok [of "set_root obj (advance n c1)" tok obj] c1(1,4) arr by (auto simp: sr)
    then have "r_fn c2 = r_fn c" using enter_same [OF c2] sr(3) by (simp add: same_buf_def)
    then show ?thesis using Tok cur1 mk c2 se [of n REDIS_ERR_OOM "''Out of memory''" h1]
      by (cases "obj = 0") (auto simp: item_effect_def apply_tok_def oom_def redisReaderSetErrorOOM_def)
  next
    case (Bad b)
    then show ?thesis
      using se [of 0 REDIS_ERR_PROTOCOL "take 127 (''Protocol error, got '' @ chrtos 8 b @ '' as reply type byte'')" h]
      by (auto simp: item_effect_def byte_error_def redisReaderSetErrorProtocolByte_def)
  next
    case Deep
    then show ?thesis
      using se [of 0 REDIS_ERR_PROTOCOL "''No support for nested multi bulk replies with depth > 7''" h]
      by (auto simp: item_effect_def deep_error_def)
  qed (use c1(2) in \<open>simp add: item_effect_def\<close>)
  then show ?thesis using cur(1) lx by (auto simp: a_step_def c1_def [symmetric])
qed

lemma a_loop_total:
  "core_inv c \<Longrightarrow> total_fns (r_fn c) \<Longrightarrow> \<exists>x. a_loop c t h = Ok x"
proof (induction "length t" arbitrary: c t h rule: less_induct)
  case less
  show ?case
  proof (cases "r_ridx c < 0")
    case True
    then show ?thesis by (simp add: a_loop.simps [of c])
  next
    case False
    obtain ok c' t' h' where st: "a_step c t h = Ok (ok, c', t', h')" "r_fn c' = r_fn c"
      using a_step_total [of c t h] less.prems False by auto
    have "core_inv c'" "ok \<longrightarrow> length t' < length t" using a_step_inv [OF less.prems(1) _ st(1)] False by auto
    then show ?thesis using less.hyps [of t' c' h'] less.prems(2) st False
      by (cases ok) (auto simp: a_loop_step [OF less.prems(1)])
  qed
qed

lemma a_get_err: "a_get c t h = Ok (res, p, c', t', h') \<Longrightarrow> res = REDIS_OK \<longleftrightarrow> r_err c' = 0"
  by (auto simp: a_get_def redis_consts split: if_splits)

lemma setError_noreply:
  assumes "r_reply r = 0" "length str < 127"
  shows "\<exists>r' post. redisReaderSetError r ty str h = Ok (r', h) \<and> r_err r' = ty \<and> r_ridx r' = - 1 \<and> r_errstr r' = str @ NUL # post"
proof -
  let ?r = "(if r_buf r \<noteq> None then r\<lparr>r_buf := None, r_pos := 0, r_len := 0\<rparr> else r)\<lparr>r_ridx := - 1, r_err := ty,
    r_errstr := str @ NUL # drop (Suc (length str)) (r_errstr r)\<rparr>"
  have "redisReaderSetError r ty str h = Ok (?r, h)"
    using assms by (cases "fn_of freeObject r") (simp_all add: redisReaderSetError_def Let_def)
  then show ?thesis by auto
qed

lemma getReply_total:
  assumes "reader_inv r" "total_fns (r_fn r)"
  shows "\<exists>x. redisReaderGetReply r h = Ok x"
proof -
  have "core_inv (start (core r))" "r_fn (start (core r)) = r_fn r"
    using assms(1) start_inv(1) [of "core r"] by (simp add: reader_inv_def, simp add: start_def)
  then obtain c t h' where "a_loop (start (core r)) (rest_of r) h = Ok (c, t, h')"
    using a_loop_total [of "start (core r)" "rest_of r" h] assms(2) by auto
  then have "\<exists>x. a_get (start (core r)) (rest_of r) h = Ok x" by (simp add: a_get_def del: split_paired_Ex)
  then obtain x where "a_get (start (core r)) (rest_of r) h = Ok x" by blast
  then have "cbind (redisReaderGetReply r h) (\<lambda>(res, p, r', h'). Ok (res, p, start (core r'), rest_of r', h')) = Ok x"
    using getReply_refines [OF assms(1), of h] by simp
  then show ?thesis by (cases "redisReaderGetReply r h") (simp_all del: split_paired_Ex)
qed

lemma create_plenty: "\<exists>r. redisReaderCreateWithFunctions plenty fn = Ok r"
  using returns_ex [OF sdsempty_spec alloc_ok_plenty] by (auto simp: redisReaderCreateWithFunctions_def plenty_def)

section \<open>Properties\<close>

text \<open>
  C23. The parser does not see how the stream is cut: feeding a new reader two sequences of chunks
  that make up the same byte stream, valid or not, and asking for replies after every chunk,
  performs the same callbacks on the heap in the same order, delivers the same replies, ends with
  the same error or none, and keeps the same unread bytes. This holds for every table of
  callbacks.
\<close>
theorem reader_chunk_independent:
  assumes "redisReaderCreateWithFunctions e fn = Ok r" "concat ts = concat us" "ts \<noteq> []" "us \<noteq> []"
    "\<And>k. alloc_ok (es k)" "sds_fits (length (concat ts))"
  shows "observe (run_chunks es 0 r ts h) = observe (run_chunks es 0 r us h)"
proof -
  obtain t ts' u us' where l: "ts = t # ts'" "us = u # us'" using assms(3,4) by (meson neq_Nil_conv)
  note f = fresh_reader [OF assms(1)]
  have fits: "sds_fits (r_len r + length (concat (t # ts')))" "sds_fits (r_len r + length (concat (u # us')))"
    using assms(2,6) f(4) l by simp_all
  have "a_drain (start (core r)) (rest_of r @ concat (t # ts')) h = a_drain (start (core r)) (rest_of r @ concat (u # us')) h"
    using assms(2) l by metis
  then have "cbind (run_chunks es 0 r (t # ts') h) (\<lambda>(ps, r', h'). Ok (ps, start (core r'), rest_of r', h')) =
      cbind (run_chunks es 0 r (u # us') h) (\<lambda>(ps, r', h'). Ok (ps, start (core r'), rest_of r', h'))"
    by (simp only: run_chunks_refines [OF assms(5) f(1,2) fits(1)] run_chunks_refines [OF assms(5) f(1,2) fits(2)])
  then show ?thesis unfolding observe_abs l by (simp only:)
qed


theorem reader_chunk_independent_witness:
  "\<exists>r. redisReaderCreateWithFunctions plenty (None :: unit redisReplyObjectFunctions option) = Ok r \<and>
     observe (run_chunks (\<lambda>_. plenty) 0 r [''$1'', [CR], [LF, CHR ''x'', CR, LF]] ()) =
     observe (run_chunks (\<lambda>_. plenty) 0 r [''$1'' @ [CR, LF, CHR ''x'', CR, LF]] ())"
proof -
  obtain r where r: "redisReaderCreateWithFunctions plenty (None :: unit redisReplyObjectFunctions option) = Ok r"
    using create_plenty by blast
  have "observe (run_chunks (\<lambda>_. plenty) 0 r [''$1'', [CR], [LF, CHR ''x'', CR, LF]] ()) =
     observe (run_chunks (\<lambda>_. plenty) 0 r [''$1'' @ [CR, LF, CHR ''x'', CR, LF]] ())"
    by (rule reader_chunk_independent [OF r]) (simp_all add: sds_fits_def SDS_MAX_PREALLOC_def)
  then show ?thesis using r by blast
qed



text \<open>
  A byte that starts no reply is a protocol error: the reader reports it with the byte in the
  message, delivers no reply, drops its input, and every later call only repeats the error.
\<close>
theorem reader_rejects_bad_type:
  assumes "reader_inv r" "r_err r = 0" "r_ridx r = - 1" "r_reply r = 0" "rest_of r = c # t" "type_of_byte c = None"
  shows "\<exists>r'. redisReaderGetReply r h = Ok (REDIS_ERR, 0, r', h) \<and> r_err r' = REDIS_ERR_PROTOCOL \<and> rest_of r' = [] \<and>
    (\<exists>post. r_errstr r' = ''Protocol error, got '' @ chrtos 8 c @ '' as reply type byte'' @ NUL # post) \<and>
    (\<forall>e b n. redisReaderFeed e e r' b n h = Ok (REDIS_ERR, r', h)) \<and> redisReaderGetReply r' h = Ok (REDIS_ERR, 0, r', h)"
proof -
  let ?c = "start (core r)"
  define msg where "msg = ''Protocol error, got '' @ chrtos 8 c @ '' as reply type byte''"
  have "length (chrtos 8 c) \<le> 7" by (simp add: chrtos_def)
  then have take: "take 127 msg = msg" "length msg < 127" by (simp_all add: msg_def)
  have ci: "core_inv ?c" "0 \<le> r_ridx ?c" using assms(1,2) start_inv [of "core r"] by (auto simp: reader_inv_def)
  have rs: "length (r_rstack r) = 9" using assms(1,2) by (simp add: reader_inv_def core_inv_def)
  have cur: "cur_task ?c = Ok (root_task (r_privdata r))" "r_ridx ?c = 0" "r_reply ?c = 0" "r_buf ?c = None"
    using assms(2-4) rs by (simp_all add: start_def cur_task_def)
  have lx: "lex_item (t_type (root_task (r_privdata r))) False (c # t) = (- 1, 1, Bad c)"
    using assms(6) by (simp add: lex_item_def root_task_def)
  define c1 where "c1 = set_task (\<lambda>u. u\<lparr>t_type := - 1\<rparr>) ?c"
  have "r_reply c1 = 0" using cur(3) by (simp add: c1_def)
  from setError_noreply [OF this take(2), of REDIS_ERR_PROTOCOL h]
  obtain q post where q: "redisReaderSetError c1 REDIS_ERR_PROTOCOL msg h = Ok (q, h)" "r_err q = REDIS_ERR_PROTOCOL" "r_ridx q = - 1"
    "r_errstr q = msg @ NUL # post" by blast
  have "byte_error c c1 h = Ok (REDIS_ERR, q, h)"
    unfolding byte_error_def redisReaderSetErrorProtocolByte_def msg_def [symmetric] take(1) q(1) by simp
  then have "a_step ?c (c # t) h = Ok (False, core q, [], h)"
    using cur(1,2) lx unfolding c1_def by (simp add: a_step_def item_effect_def redis_consts)
  then obtain c' where c': "a_step ?c (c # t) h = Ok (False, c', [], h)" "r_err c' = REDIS_ERR_PROTOCOL" "r_ridx c' = - 1"
    "r_errstr c' = msg @ NUL # post" using q by auto
  have "a_get ?c (rest_of r) h = Ok (REDIS_ERR, 0, c', [], h)"
    using c' assms(2,5) unfolding a_get_def a_loop_step [OF ci] by (simp add: redis_consts)
  then obtain r' where r': "redisReaderGetReply r h = Ok (REDIS_ERR, 0, r', h)" "start (core r') = c'" "rest_of r' = []"
    using getReply_refines [OF assms(1), of h] by (cases "redisReaderGetReply r h") auto
  have "r_err r' = REDIS_ERR_PROTOCOL" "r_errstr r' = r_errstr c'" using r'(2) c'(2) by (auto simp: start_def split: if_splits)
  moreover have "\<exists>post. r_errstr r' = ''Protocol error, got '' @ chrtos 8 c @ '' as reply type byte'' @ NUL # post"
    using calculation(2) c'(4) unfolding msg_def by (metis append.assoc)
  ultimately show ?thesis using r'(1,3)
    by (intro exI [of _ r'] conjI) (simp_all add: redisReaderFeed_def redisReaderGetReply_def redis_consts)
qed


theorem reader_rejects_bad_type_witness:
  "\<exists>r r' r''. redisReaderCreateWithFunctions plenty (None :: unit redisReplyObjectFunctions option) = Ok r \<and>
     redisReaderFeed plenty plenty r (Some ''@foo'') (length ''@foo'') () = Ok (REDIS_OK, r', ()) \<and>
     redisReaderGetReply r' () = Ok (REDIS_ERR, 0, r'', ()) \<and> r_err r'' = REDIS_ERR_PROTOCOL"
proof -
  obtain r where r: "redisReaderCreateWithFunctions plenty (None :: unit redisReplyObjectFunctions option) = Ok r"
    using create_plenty by blast
  note f = fresh_reader [OF r]
  obtain r' where r': "redisReaderFeed plenty plenty r (Some ''@foo'') (length ''@foo'') () = Ok (REDIS_OK, r', ())"
    "reader_inv r'" "core r' = core r" "rest_of r' = ''@foo''"
    using feed_spec [OF f(1,2), of plenty plenty "''@foo''" "()"] f(3,4) by (auto simp: sds_fits_def SDS_MAX_PREALLOC_def)
  have "r_reply r = 0" using r by (auto simp: redisReaderCreateWithFunctions_def split: if_splits)
  then have "r_err r' = 0" "r_ridx r' = - 1" "r_reply r' = 0" using r'(3) f(2,5) by (metis core_simps(1,3,4))+
  then have "\<exists>r''. redisReaderGetReply r' () = Ok (REDIS_ERR, 0, r'', ()) \<and> r_err r'' = REDIS_ERR_PROTOCOL"
    using reader_rejects_bad_type [OF r'(2) _ _ _ r'(4), of "()"] by (auto simp: type_of_byte_def)
  then show ?thesis using r r'(1) by blast
qed

end
