(* ===== verification/Reader_Roundtrip.thy ===== *)
theory Reader_Roundtrip
  imports Reader_Stream
begin

text \<open>
  The protocol as a data type of replies with its encoding, and the round trip: a reader that is
  fed the encoding of a sequence of replies, cut into chunks in any way, performs for every reply
  exactly the callbacks of a recursive construction (\<open>build\<close>) and delivers their results.
\<close>

section \<open>Replies and their encoding\<close>

datatype resp = Status string | Error string | Integer int | Bulk string | NilBulk | Multi "resp list" | NilMulti

definition crlf :: string where "crlf = [CR, LF]"

fun encode :: "resp \<Rightarrow> string" where
  "encode (Status s) = CHR ''+'' # s @ crlf"
| "encode (Error s) = CHR ''-'' # s @ crlf"
| "encode (Integer i) = CHR '':'' # dec_int i @ crlf"
| "encode (Bulk s) = CHR ''$'' # dec_nat (length s) @ crlf @ s @ crlf"
| "encode NilBulk = CHR ''$'' # ''-1'' @ crlf"
| "encode (Multi vs) = CHR ''*'' # dec_nat (length vs) @ crlf @ concat (map encode vs)"
| "encode NilMulti = CHR ''*'' # ''-1'' @ crlf"

text \<open>What the protocol can carry: lines without a line end, 64-bit integers, 32-bit lengths.\<close>

fun resp_ok :: "resp \<Rightarrow> bool" where
  "resp_ok (Status s) = (find_crlf s = None)"
| "resp_ok (Error s) = (find_crlf s = None)"
| "resp_ok (Integer i) = (- 9223372036854775808 < i \<and> i \<le> 9223372036854775807)"
| "resp_ok (Bulk s) = (length s \<le> 2147483647)"
| "resp_ok NilBulk = True"
| "resp_ok (Multi vs) = (length vs \<le> 2147483647 \<and> list_all resp_ok vs)"
| "resp_ok NilMulti = True"

fun depth :: "resp \<Rightarrow> nat" where
  "depth (Multi vs) = Suc (fold max (map depth vs) 0)"
| "depth NilMulti = 1"
| "depth _ = 0"

section \<open>The recursive construction\<close>

definition mk :: "'h redisReplyObjectFunctions option \<Rightarrow> nat \<Rightarrow> nat option \<Rightarrow> int \<Rightarrow> resp \<Rightarrow> 'h \<Rightarrow> (nat \<times> 'h) cres" where
  "mk fn pd par i v h =
     (let vw = (\<lambda>ty. \<lparr>v_type = ty, v_idx = i, v_parent = par, v_privdata = pd\<rparr>);
          cb = (\<lambda>sel run dflt. case fn of None \<Rightarrow> Ok (nat dflt, h) | Some f \<Rightarrow>
                  (case sel f of None \<Rightarrow> Ok (nat dflt, h) | Some g \<Rightarrow> run g))
      in case v of
        Status s \<Rightarrow> cb createString (\<lambda>g. g (vw REDIS_REPLY_STATUS) s h) REDIS_REPLY_STATUS
      | Error s \<Rightarrow> cb createString (\<lambda>g. g (vw REDIS_REPLY_ERROR) s h) REDIS_REPLY_ERROR
      | Integer n \<Rightarrow> (case fn of None \<Rightarrow> Ok (nat REDIS_REPLY_INTEGER, h) | Some f \<Rightarrow>
                  (case createInteger f of None \<Rightarrow> Ok (nat REDIS_REPLY_INTEGER, h) | Some g \<Rightarrow> g (vw REDIS_REPLY_INTEGER) n h))
      | Bulk s \<Rightarrow> cb createString (\<lambda>g. g (vw REDIS_REPLY_STRING) s h) REDIS_REPLY_STRING
      | NilBulk \<Rightarrow> (case fn of None \<Rightarrow> Ok (nat REDIS_REPLY_NIL, h) | Some f \<Rightarrow>
                  (case createNil f of None \<Rightarrow> Ok (nat REDIS_REPLY_NIL, h) | Some g \<Rightarrow> g (vw REDIS_REPLY_STRING) h))
      | Multi vs \<Rightarrow> (case fn of None \<Rightarrow> Ok (nat REDIS_REPLY_ARRAY, h) | Some f \<Rightarrow>
                  (case createArray f of None \<Rightarrow> Ok (nat REDIS_REPLY_ARRAY, h)
                   | Some g \<Rightarrow> g (vw REDIS_REPLY_ARRAY) (int (length vs)) h))
      | NilMulti \<Rightarrow> (case fn of None \<Rightarrow> Ok (nat REDIS_REPLY_NIL, h) | Some f \<Rightarrow>
                  (case createNil f of None \<Rightarrow> Ok (nat REDIS_REPLY_NIL, h) | Some g \<Rightarrow> g (vw REDIS_REPLY_ARRAY) h)))"

text \<open>\<open>Null\<close> is a construction that ran out of memory.\<close>

fun build :: "'h redisReplyObjectFunctions option \<Rightarrow> nat \<Rightarrow> nat option \<Rightarrow> int \<Rightarrow> resp \<Rightarrow> 'h \<Rightarrow> (nat \<times> 'h) cres"
and build_list :: "'h redisReplyObjectFunctions option \<Rightarrow> nat \<Rightarrow> nat \<Rightarrow> int \<Rightarrow> resp list \<Rightarrow> 'h \<Rightarrow> 'h cres" where
  "build fn pd par i (Multi vs) h =
     cbind (mk fn pd par i (Multi vs) h) (\<lambda>(p, h1).
       if p = 0 then Null else cbind (build_list fn pd p 0 vs h1) (\<lambda>h2. Ok (p, h2)))"
| "build fn pd par i v h = cbind (mk fn pd par i v h) (\<lambda>(p, h1). if p = 0 then Null else Ok (p, h1))"
| "build_list fn pd p i [] h = Ok h"
| "build_list fn pd p i (v # vs) h =
     cbind (build fn pd (Some p) i v h) (\<lambda>(_, h1). build_list fn pd p (i + 1) vs h1)"

fun build_all :: "'h redisReplyObjectFunctions option \<Rightarrow> nat \<Rightarrow> resp list \<Rightarrow> 'h \<Rightarrow> (nat list \<times> 'h) cres" where
  "build_all fn pd [] h = Ok ([], h)"
| "build_all fn pd (v # vs) h =
     cbind (build fn pd None (- 1) v h) (\<lambda>(p, h1).
       cbind (build_all fn pd vs h1) (\<lambda>(ps, h2). Ok (p # ps, h2)))"

section \<open>The token of a reply\<close>

fun token_of :: "resp \<Rightarrow> token" where
  "token_of (Status s) = TLine REDIS_REPLY_STATUS s"
| "token_of (Error s) = TLine REDIS_REPLY_ERROR s"
| "token_of (Integer i) = TInt i"
| "token_of (Bulk s) = TBulk s"
| "token_of NilBulk = TNil"
| "token_of (Multi vs) = TArr (int (length vs))"
| "token_of NilMulti = TNil"

fun type_of :: "resp \<Rightarrow> int" where
  "type_of (Status s) = REDIS_REPLY_STATUS"
| "type_of (Error s) = REDIS_REPLY_ERROR"
| "type_of (Integer i) = REDIS_REPLY_INTEGER"
| "type_of (Bulk s) = REDIS_REPLY_STRING"
| "type_of NilBulk = REDIS_REPLY_STRING"
| "type_of (Multi vs) = REDIS_REPLY_ARRAY"
| "type_of NilMulti = REDIS_REPLY_ARRAY"

text \<open>The bytes of the elements follow the token of an array.\<close>

fun tail_of :: "resp \<Rightarrow> string" where
  "tail_of (Multi vs) = concat (map encode vs)"
| "tail_of v = []"

lemma find_crlf_digits: "find_crlf (dec_nat n @ CR # LF # u) = Some (length (dec_nat n))"
  by (rule find_crlf_line [OF dec_nat_no_crlf(1)])

lemma dec_int_no_crlf: "find_crlf (dec_int i) = None"
proof -
  have "CR \<notin> set (dec_int i)" using dec_nat_no_crlf(2) by (auto simp: dec_int_def)
  moreover have "CR \<notin> set t \<Longrightarrow> find_crlf t = None" for t by (induction t rule: find_crlf.induct) auto
  ultimately show ?thesis by blast
qed

lemma parse_ll_minus1: "parse_ll ''-1'' = - 1"
  by (simp add: parse_ll_def Let_def)

lemma lex_item_encode:
  assumes "resp_ok v" "0 < depth v \<Longrightarrow> \<not> deep"
  shows "\<exists>n. lex_item (- 1) deep (encode v @ t) = (type_of v, 1, Tok (token_of v) n) \<and>
    drop (1 + n) (encode v @ t) = tail_of v @ t"
proof (cases v)
  case (Status s)
  then show ?thesis using assms find_crlf_line [of s t]
    by (simp add: lex_item_def type_of_byte_def lex_typed_def crlf_def redis_consts)
next
  case (Error s)
  then show ?thesis using assms find_crlf_line [of s t]
    by (simp add: lex_item_def type_of_byte_def lex_typed_def crlf_def redis_consts)
next
  case (Integer i)
  then show ?thesis using assms find_crlf_line [OF dec_int_no_crlf, of i t] parse_ll_dec_int [of i]
    by (simp add: lex_item_def type_of_byte_def lex_typed_def crlf_def redis_consts)
next
  case (Bulk s)
  have "drop (length s + 4) (CR # LF # s @ CR # LF # t) = t" by (simp add: numeral_eq_Suc)
  then show ?thesis using Bulk assms find_crlf_digits [of "length s" "s @ CR # LF # t"] parse_ll_dec_nat [of "length s"]
    by (simp add: lex_item_def type_of_byte_def lex_typed_def crlf_def redis_consts Let_def)
next
  case NilBulk
  then show ?thesis using find_crlf_line [of "''-1''" t] parse_ll_minus1
    by (simp add: lex_item_def type_of_byte_def lex_typed_def crlf_def redis_consts Let_def)
next
  case (Multi vs)
  then show ?thesis using assms find_crlf_digits [of "length vs" "concat (map encode vs) @ t"] parse_ll_dec_nat [of "length vs"]
    by (simp add: lex_item_def type_of_byte_def lex_typed_def crlf_def redis_consts Let_def)
next
  case NilMulti
  then show ?thesis using assms find_crlf_line [of "''-1''" t] parse_ll_minus1
    by (simp add: lex_item_def type_of_byte_def lex_typed_def crlf_def redis_consts Let_def)
qed


section \<open>One item of the round trip\<close>

lemma make_obj_mk:
  assumes "view c cur = \<lparr>v_type = type_of v, v_idx = i, v_parent = par, v_privdata = pd\<rparr>" "t_type cur = type_of v"
  shows "make_obj (token_of v) c cur h = mk (r_fn c) pd par i v h"
  using assms
  by (cases v) (simp_all add: make_obj_def mk_def create_nil_def fn_of_def Let_def redis_consts split: option.split)

lemma core_iff: "c = core c \<longleftrightarrow> r_buf c = None \<and> r_pos c = 0 \<and> r_len c = 0"
proof
  show "c = core c \<Longrightarrow> r_buf c = None \<and> r_pos c = 0 \<and> r_len c = 0"
    by (metis core_def redisReader.select_convs(3-5) redisReader.surjective redisReader.update_convs(3-5))
qed (simp add: core_def)

lemma same_buf_core: "c = core c \<Longrightarrow> same_buf c c' \<Longrightarrow> core c' = c'"
  using core_iff [of c] core_iff [of c'] by (auto simp: same_buf_def)

definition parent_obj :: "'h redisReader \<Rightarrow> nat \<Rightarrow> nat option" where
  "parent_obj c k = map_option (\<lambda>j. t_obj (r_rstack c ! j)) (t_parent (r_rstack c ! k))"

lemma a_loop_token:
  assumes "live c" "r_ridx c = int k" "t_type (r_rstack c ! k) = - 1" "resp_ok v" "0 < depth v \<Longrightarrow> k < 8"
    "mk (r_fn c) (t_privdata (r_rstack c ! k)) (parent_obj c k) (t_idx (r_rstack c ! k)) v h = Ok (p, h')" "p \<noteq> 0"
  shows "a_loop c (encode v @ t) h =
    cbind (enter (token_of v) p (set_root p (set_task (\<lambda>u. u\<lparr>t_type := type_of v\<rparr>) c)))
      (\<lambda>c'. a_loop c' (tail_of v @ t) h')"
proof -
  let ?c1 = "set_task (\<lambda>u. u\<lparr>t_type := type_of v\<rparr>) c" let ?cur = "r_rstack c ! k"
  have c: "core_inv c" "c = core c" "0 \<le> r_ridx c" using assms(1) by (auto simp: live_def)
  have st: "stack_ok (r_rstack c) (int k)" using c(1) assms(1,2) by (auto simp: core_inv_def live_def)
  then have k: "k < length (r_rstack c)" by (auto simp: stack_ok_def)
  have cur: "cur_task c = Ok ?cur" using k assms(2) by (simp add: cur_task_def)
  obtain n where n: "lex_item (- 1) (int k = 8) (encode v @ t) = (type_of v, 1, Tok (token_of v) n)"
    "drop (1 + n) (encode v @ t) = tail_of v @ t" using lex_item_encode [OF assms(4), of "int k = 8" t] assms(5) by auto
  have cur1: "cur_task ?c1 = Ok (?cur\<lparr>t_type := type_of v\<rparr>)" by (rule cur_task_set_task [OF cur])
  have "t_parent ?cur = (if k = 0 then None else Some (k - 1))"
    using st by (cases k) (auto simp: stack_ok_def)
  then have "view ?c1 (?cur\<lparr>t_type := type_of v\<rparr>) =
      \<lparr>v_type = type_of v, v_idx = t_idx ?cur, v_parent = parent_obj c k, v_privdata = t_privdata ?cur\<rparr>"
    using k assms(2) by (auto simp: view_def parent_obj_def set_task_def)
  then have mk: "make_obj (token_of v) ?c1 (?cur\<lparr>t_type := type_of v\<rparr>) h = Ok (p, h')"
    using make_obj_mk [of ?c1 "?cur\<lparr>t_type := type_of v\<rparr>" v] assms(6) by simp
  let ?e = "enter (token_of v) p (set_root p ?c1)"
  have c1: "?c1 = core ?c1" using c(2) core_simps(13) by metis
  have e: "cbind (enter (token_of v) p (set_root p (advance n ?c1))) (\<lambda>r'. Ok (REDIS_OK, core r', h'))
      = cbind ?e (\<lambda>r'. Ok (REDIS_OK, core r', h'))"
    using enter_core [of "token_of v" p "set_root p (advance n ?c1)" REDIS_OK h'] enter_core [of "token_of v" p "set_root p ?c1" REDIS_OK h']
      core_simps(8,14) by metis
  have eff: "lift_core (item_effect (Tok (token_of v) n) ?c1 h) = cbind ?e (\<lambda>r'. Ok (REDIS_OK, core r', h'))"
  proof -
    have mk': "make_obj (token_of v) (advance n ?c1) (?cur\<lparr>t_type := type_of v\<rparr>) h = Ok (p, h')"
      using mk make_obj_core [of "token_of v" "advance n ?c1"] make_obj_core [of "token_of v" ?c1] by simp
    show ?thesis using cur1 mk' assms(7) e by (simp add: item_effect_def apply_tok_def lift_core_def cbind_assoc)
  qed
  have step: "a_step c (encode v @ t) h = cbind ?e (\<lambda>c'. Ok (True, core c', tail_of v @ t, h'))"
  proof -
    have "a_step c (encode v @ t) h = cbind (lift_core (item_effect (Tok (token_of v) n) ?c1 h))
       (\<lambda>(ok, c, h). Ok (ok = REDIS_OK, c, if ok = REDIS_OK then tail_of v @ t else [], h))"
      using cur n assms(2,3) by (simp add: a_step_def lift_core_def cbind_assoc split_def del: drop_append cong: if_cong)
    also have "\<dots> = cbind ?e (\<lambda>c'. Ok (True, core c', tail_of v @ t, h'))"
      unfolding eff by (simp add: cbind_assoc)
    finally show ?thesis .
  qed
  have "core c' = c'" if "?e = Ok c'" for c'
    using same_buf_core [OF c1] same_buf_trans [OF set_root_same enter_same [OF that]] by blast
  then show ?thesis unfolding a_loop_step [OF c(1,3)] step by (cases ?e) simp_all
qed


section \<open>The round trip by induction on the reply\<close>

lemma fold_max_ge: "x \<le> fold max xs (x :: nat)" "y \<in> set xs \<Longrightarrow> y \<le> fold max xs x"
proof -
  show ge: "x \<le> fold max xs x" for x :: nat and xs
    by (induction xs arbitrary: x) (auto intro: order_trans [OF max.cobounded2])
  show "y \<in> set xs \<Longrightarrow> y \<le> fold max xs x"
  proof (induction xs arbitrary: x)
    case (Cons a xs)
    then show ?case using ge [of "max a x" xs] by auto
  qed simp
qed

lemma stack_ok_prefix:
  assumes "stack_ok st (int k')" "k < k'" "length st' = 9" "\<And>j. j \<le> k \<Longrightarrow> st' ! j = st ! j"
  shows "stack_ok st' (int k)"
  using assms by (auto simp: stack_ok_def reply_type_def)

definition level :: "'h redisReader \<Rightarrow> nat \<Rightarrow> bool" where
  "level c k \<longleftrightarrow> live c \<and> r_ridx c = int k \<and> t_type (r_rstack c ! k) = - 1 \<and> t_privdata (r_rstack c ! k) = r_privdata c"

definition finishes :: "'h redisReplyObjectFunctions option \<Rightarrow> resp \<Rightarrow> bool" where
  "finishes fn v \<longleftrightarrow> (\<forall>c k t h p h'.
     level c k \<longrightarrow> r_fn c = fn \<longrightarrow> resp_ok v \<longrightarrow> k + depth v \<le> 8 \<longrightarrow>
     build fn (r_privdata c) (parent_obj c k) (t_idx (r_rstack c ! k)) v h = Ok (p, h') \<longrightarrow>
     p \<noteq> 0 \<and> (\<exists>st. stack_ok st (int k) \<and> (\<forall>j < k. st ! j = r_rstack c ! j) \<and>
       t_idx (st ! k) = t_idx (r_rstack c ! k) \<and> t_privdata (st ! k) = r_privdata c \<and>
       a_loop c (encode v @ t) h = cbind (moveToNextTask (set_root p (c\<lparr>r_rstack := st\<rparr>))) (\<lambda>c'. a_loop c' t h')))"

lemma finishesD:
  assumes "finishes (r_fn c) v" "level c k" "resp_ok v" "k + depth v \<le> 8"
    "build (r_fn c) (r_privdata c) (parent_obj c k) (t_idx (r_rstack c ! k)) v h = Ok (p, h')"
  shows "p \<noteq> 0" "\<exists>st. stack_ok st (int k) \<and> (\<forall>j < k. st ! j = r_rstack c ! j) \<and>
    t_idx (st ! k) = t_idx (r_rstack c ! k) \<and> t_privdata (st ! k) = r_privdata c \<and>
    a_loop c (encode v @ t) h = cbind (moveToNextTask (set_root p (c\<lparr>r_rstack := st\<rparr>))) (\<lambda>c'. a_loop c' t h')"
  using assms unfolding finishes_def by blast+

lemma level_stack: "level c k \<Longrightarrow> stack_ok (r_rstack c) (int k)" "level c k \<Longrightarrow> k < length (r_rstack c)" "level c k \<Longrightarrow> k \<le> 8"
  "level c k \<Longrightarrow> 0 < k \<Longrightarrow> r_reply c \<noteq> 0"
  by (auto simp: level_def live_def core_inv_def stack_ok_def)

lemma set_task_level: "level c k \<Longrightarrow> set_task f c = c\<lparr>r_rstack := (r_rstack c)[k := f (r_rstack c ! k)]\<rparr>"
  by (simp add: set_task_def level_def)

lemma type_of_reply: "reply_type (type_of v)"
  by (cases v) (simp_all add: reply_type_def)

lemma finishes_leaf:
  assumes "level c k" "resp_ok v" "k + depth v \<le> 8" "\<And>n. token_of v = TArr n \<Longrightarrow> n = 0"
    "mk (r_fn c) (r_privdata c) (parent_obj c k) (t_idx (r_rstack c ! k)) v h = Ok (p, h')" "p \<noteq> 0"
  shows "\<exists>st. stack_ok st (int k) \<and> (\<forall>j < k. st ! j = r_rstack c ! j) \<and>
    t_idx (st ! k) = t_idx (r_rstack c ! k) \<and> t_privdata (st ! k) = r_privdata c \<and>
    a_loop c (encode v @ t) h = cbind (moveToNextTask (set_root p (c\<lparr>r_rstack := st\<rparr>))) (\<lambda>c'. a_loop c' t h')"
proof -
  let ?st = "(r_rstack c)[k := (r_rstack c ! k)\<lparr>t_type := type_of v\<rparr>]"
  note st = level_stack [OF assms(1)]
  have tl: "tail_of v = []" using assms(4) by (cases v) auto
  have en: "enter (token_of v) p q = moveToNextTask q" for q :: "'a redisReader"
    using assms(4) by (cases "token_of v") (auto simp: enter_def)
  have "a_loop c (encode v @ t) h =
      cbind (enter (token_of v) p (set_root p (set_task (\<lambda>u. u\<lparr>t_type := type_of v\<rparr>) c))) (\<lambda>c'. a_loop c' (tail_of v @ t) h')"
    using assms by (intro a_loop_token) (auto simp: level_def)
  then have "a_loop c (encode v @ t) h = cbind (moveToNextTask (set_root p (c\<lparr>r_rstack := ?st\<rparr>))) (\<lambda>c'. a_loop c' t h')"
    by (simp add: tl en set_task_level [OF assms(1)])
  moreover have "stack_ok ?st (int k)" using stack_ok_set_type [OF st(1), of "type_of v"] type_of_reply by simp
  ultimately show ?thesis using st(2) assms(1) by (intro exI [of _ ?st]) (simp add: level_def)
qed

lemma move_up:
  assumes "stack_ok st (int (Suc k))" "t_idx (st ! Suc k) = t_elements (st ! k) - 1"
  shows "moveToNextTask_loop st (int (Suc k)) = moveToNextTask_loop st (int k)"
proof -
  have st: "Suc k < length st" "t_type (st ! k) = REDIS_REPLY_ARRAY" "0 \<le> t_idx (st ! Suc k)" "t_elements (st ! k) \<le> 2147483647"
    using assms(1) by (auto simp: stack_ok_def)
  have "nat (int (Suc k) - 1) = k" "nat (int (Suc k)) = Suc k" by auto
  then show ?thesis using st assms(2)
    by (subst moveToNextTask_loop.simps) (simp add: Let_def)
qed

lemma move_next:
  assumes "stack_ok st (int (Suc k))" "t_idx (st ! Suc k) < t_elements (st ! k) - 1"
  shows "moveToNextTask_loop st (int (Suc k)) =
    Ok (st[Suc k := (st ! Suc k)\<lparr>t_type := - 1, t_elements := - 1, t_idx := t_idx (st ! Suc k) + 1\<rparr>], int (Suc k))"
proof -
  have st: "Suc k < length st" "t_type (st ! k) = REDIS_REPLY_ARRAY" "0 \<le> t_idx (st ! Suc k)" "t_elements (st ! k) \<le> 2147483647"
    using assms(1) by (auto simp: stack_ok_def)
  have "nat (int (Suc k) - 1) = k" "nat (int (Suc k)) = Suc k" by auto
  then show ?thesis using st assms(2)
    by (subst moveToNextTask_loop.simps) (simp add: Let_def)
qed

lemma level_moved:
  assumes "level c (Suc k)" "stack_ok st (int (Suc k))" "t_type (st ! Suc k) = - 1" "t_privdata (st ! Suc k) = r_privdata c"
  shows "level (c\<lparr>r_rstack := st\<rparr>) (Suc k)"
proof -
  have "core (c\<lparr>r_rstack := st\<rparr>) = c\<lparr>r_rstack := st\<rparr>"
    using assms(1) core_iff [of c] core_iff [of "c\<lparr>r_rstack := st\<rparr>"] by (auto simp: level_def live_def)
  then show ?thesis using assms level_stack(4) [OF assms(1)]
    by (auto simp: level_def live_def core_inv_def stack_ok_def REDIS_REPLY_ARRAY_def)
qed

text \<open>The elements of an array, from element \<open>t_idx\<close> on.\<close>

lemma finishes_elements:
  "\<forall>v \<in> set vs. finishes (r_fn c) v \<and> resp_ok v \<and> Suc k + depth v \<le> 8 \<Longrightarrow> vs \<noteq> [] \<Longrightarrow> level c (Suc k) \<Longrightarrow>
   t_idx (r_rstack c ! Suc k) + int (length vs) = t_elements (r_rstack c ! k) \<Longrightarrow>
   build_list (r_fn c) (r_privdata c) (t_obj (r_rstack c ! k)) (t_idx (r_rstack c ! Suc k)) vs h = Ok h' \<Longrightarrow>
   \<exists>st. length st = 9 \<and> (\<forall>j \<le> k. st ! j = r_rstack c ! j) \<and>
     a_loop c (concat (map encode vs) @ t) h = cbind (moveToNextTask (c\<lparr>r_rstack := st, r_ridx := int k\<rparr>)) (\<lambda>c'. a_loop c' t h')"
proof (induction vs arbitrary: c h)
  case (Cons v vs)
  have po: "parent_obj c (Suc k) = Some (t_obj (r_rstack c ! k))"
    using level_stack(1) [OF Cons.prems(3)] by (simp add: parent_obj_def stack_ok_def)
  obtain p h1 where b: "build (r_fn c) (r_privdata c) (parent_obj c (Suc k)) (t_idx (r_rstack c ! Suc k)) v h = Ok (p, h1)"
    "build_list (r_fn c) (r_privdata c) (t_obj (r_rstack c ! k)) (t_idx (r_rstack c ! Suc k) + 1) vs h1 = Ok h'"
    using Cons.prems(5) po by auto
  have fin: "finishes (r_fn c) v" "resp_ok v" "Suc k + depth v \<le> 8" using Cons.prems(1) by auto
  from finishesD(2) [OF fin(1) Cons.prems(3) fin(2,3) b(1), of "concat (map encode vs) @ t"]
  obtain st where st: "stack_ok st (int (Suc k))" "\<forall>j < Suc k. st ! j = r_rstack c ! j"
    "t_idx (st ! Suc k) = t_idx (r_rstack c ! Suc k)" "t_privdata (st ! Suc k) = r_privdata c"
    "a_loop c (encode v @ concat (map encode vs) @ t) h =
       cbind (moveToNextTask (set_root p (c\<lparr>r_rstack := st\<rparr>))) (\<lambda>c'. a_loop c' (concat (map encode vs) @ t) h1)" by blast
  have ridx: "r_ridx c = int (Suc k)" using Cons.prems(3) by (simp add: level_def)
  have root: "set_root p (c\<lparr>r_rstack := st\<rparr>) = c\<lparr>r_rstack := st\<rparr>" using ridx by (simp add: set_root_def)
  have idx: "t_idx (st ! Suc k) + int (length (v # vs)) = t_elements (st ! k)" using st(2,3) Cons.prems(4) by simp
  have len: "length st = 9" "Suc k < 9" using st(1) by (auto simp: stack_ok_def)
  show ?case
  proof (cases "vs = []")
    case True
    then have "h' = h1" "moveToNextTask (c\<lparr>r_rstack := st\<rparr>) = moveToNextTask (c\<lparr>r_rstack := st, r_ridx := int k\<rparr>)"
      using move_up [OF st(1)] idx b(2) ridx by (auto simp: moveToNextTask_def intro!: arg_cong2 [where f = cbind])
    then show ?thesis using st(2,5) len root True by (intro exI [of _ st]) auto
  next
    case False
    then obtain m where "length vs = Suc m" by (cases vs) auto
    then have lt: "t_idx (st ! Suc k) < t_elements (st ! k) - 1" using idx by simp
    define st2 where "st2 = st[Suc k := (st ! Suc k)\<lparr>t_type := - 1, t_elements := - 1, t_idx := t_idx (st ! Suc k) + 1\<rparr>]"
    have mv: "moveToNextTask_loop st (int (Suc k)) = Ok (st2, int (Suc k))" using move_next [OF st(1) lt] by (simp add: st2_def)
    have ok2: "stack_ok st2 (int (Suc k))" using moveToNextTask_ok [OF st(1)] mv by auto
    have nth2: "st2 ! Suc k = (st ! Suc k)\<lparr>t_type := - 1, t_elements := - 1, t_idx := t_idx (st ! Suc k) + 1\<rparr>"
      "\<forall>j \<le> k. st2 ! j = r_rstack c ! j" using len st(2) by (auto simp: st2_def)
    define c2 where "c2 = c\<lparr>r_rstack := st2\<rparr>"
    have lv: "level c2 (Suc k)" unfolding c2_def by (rule level_moved [OF Cons.prems(3) ok2]) (use nth2 st(4) in auto)
    have f2: "r_fn c2 = r_fn c" "r_privdata c2 = r_privdata c" "r_rstack c2 = st2" by (simp_all add: c2_def)
    have mvc: "moveToNextTask (c\<lparr>r_rstack := st\<rparr>) = Ok c2" using mv ridx by (simp add: moveToNextTask_def c2_def)
    have "\<exists>st'. length st' = 9 \<and> (\<forall>j \<le> k. st' ! j = r_rstack c2 ! j) \<and>
       a_loop c2 (concat (map encode vs) @ t) h1 = cbind (moveToNextTask (c2\<lparr>r_rstack := st', r_ridx := int k\<rparr>)) (\<lambda>c'. a_loop c' t h')"
      by (rule Cons.IH [OF _ False lv]) (use Cons.prems(1,4) b(2) f2 nth2 st(3) in auto)
    moreover have "c2\<lparr>r_rstack := st', r_ridx := int k\<rparr> = c\<lparr>r_rstack := st', r_ridx := int k\<rparr>" for st' by (simp add: c2_def)
    ultimately show ?thesis using st(5) root mvc nth2(2) f2 by auto
  qed
qed simp


lemma finishes_array:
  assumes "\<And>v. v \<in> set vs \<Longrightarrow> finishes fn v" "vs \<noteq> []"
  shows "finishes fn (Multi vs)"
  unfolding finishes_def
proof (intro allI impI, goal_cases)
  case (1 c k t h p h')
  note st = level_stack [OF 1(1)]
  let ?n = "int (length vs)" and ?cur = "(r_rstack c ! k)\<lparr>t_type := REDIS_REPLY_ARRAY\<rparr>"
  obtain h1 where b: "mk fn (r_privdata c) (parent_obj c k) (t_idx (r_rstack c ! k)) (Multi vs) h = Ok (p, h1)" "p \<noteq> 0"
    "build_list fn (r_privdata c) p 0 vs h1 = Ok h'" using 1(5) by (auto split: if_splits)
  have k: "k < 8" "0 < ?n" "?n \<le> 2147483647" using 1(3,4) assms(2) by auto
  define c1 where "c1 = set_root p (c\<lparr>r_rstack := (r_rstack c)[k := ?cur]\<rparr>)"
  have c1: "r_rstack c1 = (r_rstack c)[k := ?cur]" "r_ridx c1 = int k" "r_fn c1 = fn" "r_privdata c1 = r_privdata c"
    "r_reply c1 \<noteq> 0" "r_err c1 = 0" "core c1 = c1"
    using 1(1,2) b(2) st(4) core_iff [of c] core_iff [of c1] by (auto simp: c1_def set_root_def level_def live_def)
  have ok1: "stack_ok (r_rstack c1) (r_ridx c1)"
    using stack_ok_set_type [OF st(1), of REDIS_REPLY_ARRAY] c1 by (simp add: reply_type_def)
  obtain st2 where ps: "push_task ?n p c1 = Ok (c1\<lparr>r_rstack := st2, r_ridx := int (Suc k)\<rparr>)" "stack_ok st2 (int (Suc k))"
    "t_type (st2 ! Suc k) = - 1"
    using push_task_ok [OF ok1, of ?n p] k c1(1,2) st(2) by (auto simp: nat_add_distrib add.commute)
  have "st2 = (r_rstack c1)[k := (r_rstack c1 ! k)\<lparr>t_elements := ?n, t_obj := p\<rparr>,
      Suc k := \<lparr>t_type = - 1, t_elements = - 1, t_idx = 0, t_obj = 0, t_parent = Some k, t_privdata = r_privdata c1\<rparr>]"
    using ps(1) c1(2) by (auto simp: push_task_def Let_def split: if_splits dest!: arg_cong [where f = r_rstack])
  then have nth: "st2 ! k = ?cur\<lparr>t_elements := ?n, t_obj := p\<rparr>" "\<forall>j < k. st2 ! j = r_rstack c ! j"
    "t_idx (st2 ! Suc k) = 0" "t_privdata (st2 ! Suc k) = r_privdata c"
    using c1(1,4) st(2) k(1) ok1 by (auto simp: stack_ok_def)
  define c2 where "c2 = c1\<lparr>r_rstack := st2, r_ridx := int (Suc k)\<rparr>"
  have "core c2 = c2" using c1(7) core_iff [of c1] core_iff [of c2] by (auto simp: c2_def)
  then have lv: "level c2 (Suc k)"
    using ps(2,3) c1 nth(4) by (auto simp: level_def live_def core_inv_def c2_def stack_ok_def REDIS_REPLY_ARRAY_def)
  have dep: "Suc k + depth v \<le> 8" if "v \<in> set vs" for v
    using 1(4) that fold_max_ge(2) [of "depth v" "map depth vs" 0] by simp
  have "\<exists>st'. length st' = 9 \<and> (\<forall>j \<le> k. st' ! j = r_rstack c2 ! j) \<and>
     a_loop c2 (concat (map encode vs) @ t) h1 = cbind (moveToNextTask (c2\<lparr>r_rstack := st', r_ridx := int k\<rparr>)) (\<lambda>c'. a_loop c' t h')"
    by (rule finishes_elements [OF _ assms(2) lv])
      (use assms(1) 1(3) dep b(3) nth c1(3,4) in \<open>auto simp: c2_def list_all_iff\<close>)
  then obtain st' where st': "length st' = 9" "\<forall>j \<le> k. st' ! j = st2 ! j"
    "a_loop c2 (concat (map encode vs) @ t) h1 = cbind (moveToNextTask (c2\<lparr>r_rstack := st', r_ridx := int k\<rparr>)) (\<lambda>c'. a_loop c' t h')"
    by (auto simp: c2_def)
  have "c2\<lparr>r_rstack := st', r_ridx := int k\<rparr> = set_root p (c\<lparr>r_rstack := st'\<rparr>)"
    using 1(1) by (auto simp: c2_def c1_def set_root_def level_def)
  moreover have "a_loop c (encode (Multi vs) @ t) h = a_loop c2 (concat (map encode vs) @ t) h1"
    using a_loop_token [of c k "Multi vs" h p h1 t] 1 b ps(1) k
    by (simp add: level_def set_task_def c1_def [symmetric] c2_def enter_def)
  moreover have "stack_ok st' (int k)" by (rule stack_ok_prefix [OF ps(2) _ st'(1)]) (use st'(2) in auto)
  ultimately show ?case using b(2) st' nth 1(1) by (intro conjI exI [of _ st']) (auto simp: level_def)
qed

lemma finishes_simple:
  assumes "\<And>n. token_of v = TArr n \<Longrightarrow> n = 0"
    "\<And>pd par i h. build fn pd par i v h = cbind (mk fn pd par i v h) (\<lambda>(p, h1). if p = 0 then Null else Ok (p, h1))"
  shows "finishes fn v"
  unfolding finishes_def
proof (intro allI impI, goal_cases)
  case (1 c k t h p h')
  have "mk fn (r_privdata c) (parent_obj c k) (t_idx (r_rstack c ! k)) v h = Ok (p, h')" "p \<noteq> 0"
    using 1(5) by (auto simp: assms(2) split: if_splits)
  then show ?case using finishes_leaf [OF 1(1,3,4) assms(1)] 1(2) by blast
qed

lemma finishes_all: "finishes fn v"
proof (induction v)
  case (Multi vs)
  show ?case
  proof (cases "vs = []")
    case True
    show ?thesis unfolding True by (rule finishes_simple) (simp_all cong: if_cong)
  qed (rule finishes_array [OF Multi])
qed (rule finishes_simple; simp)+

section \<open>Whole streams\<close>

text \<open>A parser that waits for a new reply.\<close>

definition idle :: "'h redisReader \<Rightarrow> 'h redisReplyObjectFunctions option \<Rightarrow> nat \<Rightarrow> bool" where
  "idle c fn pd \<longleftrightarrow> live c \<and> r_ridx c = 0 \<and> r_rstack c ! 0 = root_task pd \<and> r_fn c = fn \<and> r_privdata c = pd"

lemma idle_start:
  assumes "core_inv c" "c = core c" "r_err c = 0" "r_ridx c = - 1"
  shows "idle (start c) (r_fn c) (r_privdata c)"
  using live_start [OF assms(1-3)] assms(1,3,4) by (auto simp: idle_def start_def core_inv_def)

lemma a_get_encode:
  assumes "idle c fn pd" "resp_ok v" "depth v \<le> 8" "build fn pd None (- 1) v h = Ok (p, h')"
  shows "\<exists>c'. idle c' fn pd \<and> p \<noteq> 0 \<and> a_get c (encode v @ t) h = Ok (REDIS_OK, p, c', t, h')"
proof -
  have lv: "level c 0" "r_fn c = fn" "r_privdata c = pd" "parent_obj c 0 = None" "t_idx (r_rstack c ! 0) = - 1"
    using assms(1) by (auto simp: idle_def level_def root_task_def parent_obj_def)
  have bd: "build (r_fn c) (r_privdata c) (parent_obj c 0) (t_idx (r_rstack c ! 0)) v h = Ok (p, h')"
    using assms(4) lv(2-5) by simp
  have "0 + depth v \<le> 8" using assms(3) by simp
  note fin = finishesD [OF finishes_all lv(1) assms(2) this bd]
  have p: "p \<noteq> 0" by (rule fin(1))
  obtain st where st: "stack_ok st 0"
    "a_loop c (encode v @ t) h = cbind (moveToNextTask (set_root p (c\<lparr>r_rstack := st\<rparr>))) (\<lambda>c'. a_loop c' t h')"
    using fin(2) [of t] by auto
  define c1 where "c1 = c\<lparr>r_rstack := st, r_ridx := - 1, r_reply := p\<rparr>"
  have live: "live c" "r_ridx c = 0" using assms(1) by (auto simp: idle_def)
  have mv: "moveToNextTask (set_root p (c\<lparr>r_rstack := st\<rparr>)) = Ok c1"
    using live(2) by (simp add: moveToNextTask_def set_root_def c1_def moveToNextTask_loop.simps [of st 0])
  have al: "a_loop c (encode v @ t) h = Ok (c1, t, h')" using st(2) mv by (simp add: a_loop.simps [of c1]) (simp add: c1_def)
  have c1: "r_err c1 = 0" "r_ridx c1 = - 1" "core_inv (c1\<lparr>r_reply := 0\<rparr>)" "c1\<lparr>r_reply := 0\<rparr> = core (c1\<lparr>r_reply := 0\<rparr>)"
    "r_fn c1 = fn" "r_privdata c1 = pd" "r_reply c1 = p"
    using live assms(1) core_iff [of c] core_iff [of "c1\<lparr>r_reply := 0\<rparr>"] st(1)
    by (auto simp: c1_def live_def core_inv_def idle_def stack_ok_def)
  have "idle (start (c1\<lparr>r_reply := 0\<rparr>)) fn pd" using idle_start [OF c1(3,4)] c1 by simp
  then show ?thesis using al c1 live p by (auto simp: a_get_live)
qed

lemma a_drain_encode:
  "idle c fn pd \<Longrightarrow> \<forall>v \<in> set vs. resp_ok v \<and> depth v \<le> 8 \<Longrightarrow> build_all fn pd vs h = Ok (ps, h') \<Longrightarrow>
   \<exists>c'. idle c' fn pd \<and> a_drain c (concat (map encode vs)) h = Ok (ps, c', [], h')"
proof (induction vs arbitrary: c h ps)
  case Nil
  then have "live c" by (simp add: idle_def)
  moreover have "a_loop c [] h = Ok (c, [], h)" using calculation by (intro a_loop_empty) (auto simp: live_def)
  ultimately show ?case using Nil by (auto simp: a_drain_get a_get_live live_def)
next
  case (Cons v vs)
  obtain p h1 qs where b: "build fn pd None (- 1) v h = Ok (p, h1)" "build_all fn pd vs h1 = Ok (qs, h')" "ps = p # qs"
    using Cons.prems(3) by auto
  obtain c1 where c1: "idle c1 fn pd" "p \<noteq> 0" "a_get c (encode v @ concat (map encode vs)) h = Ok (REDIS_OK, p, c1, concat (map encode vs), h1)"
    using a_get_encode [OF Cons.prems(1) _ _ b(1), of "concat (map encode vs)"] Cons.prems(2) by auto
  obtain c2 where c2: "idle c2 fn pd" "a_drain c1 (concat (map encode vs)) h1 = Ok (qs, c2, [], h')"
    using Cons.IH [OF c1(1) _ b(2)] Cons.prems(2) by auto
  have "live c" using Cons.prems(1) by (simp add: idle_def)
  then have "a_drain c (concat (map encode (v # vs))) h = Ok (p # qs, c2, [], h')"
    using c1(2,3) c2(2) by (simp add: a_drain_get)
  then show ?case using c2(1) b(3) by blast
qed

lemma run_chunks_encode:
  assumes "redisReaderCreateWithFunctions e fn = Ok r" "concat ts = concat (map encode vs)" "ts \<noteq> []"
    "\<And>k. alloc_ok (es k)" "sds_fits (length (concat ts))" "\<forall>v \<in> set vs. resp_ok v \<and> depth v \<le> 8"
    "build_all fn 0 vs h = Ok (ps, h')"
  shows "\<exists>r'. run_chunks es 0 r ts h = Ok (ps, r', h') \<and> r_err r' = 0 \<and> rest_of r' = []"
proof -
  obtain t ts' where l: "ts = t # ts'" using assms(3) by (meson neq_Nil_conv)
  note f = fresh_reader [OF assms(1)]
  have pd: "r_privdata r = 0" using assms(1) by (auto simp: redisReaderCreateWithFunctions_def split: if_splits)
  have "idle (start (core r)) fn 0"
    using idle_start [of "core r"] f pd by (auto simp: reader_inv_def)
  from a_drain_encode [OF this assms(6,7)] obtain c' where c': "idle c' fn 0"
    "a_drain (start (core r)) (concat (map encode vs)) h = Ok (ps, c', [], h')" by blast
  have "sds_fits (r_len r + length (concat (t # ts')))" using assms(5) l f(4) by simp
  from run_chunks_refines [of es, OF assms(4) f(1,2) this, of 0 h] c'(2) assms(2) l f(3)
  obtain r' where r': "run_chunks es 0 r ts h = Ok (ps, r', h')" "c' = start (core r')" "rest_of r' = []" by auto
  have "r_err r' = 0" using c'(1) r'(2) by (auto simp: idle_def live_def)
  then show ?thesis using r' by blast
qed

end
