(* ===== verification/Reply.thy ===== *)
theory Reply
  imports Reader_Roundtrip
begin

text \<open>
  The default reply objects of \<^verbatim>\<open>src/win/hiredis/hiredis.c\<close>: the callbacks that build
  \<^verbatim>\<open>redisReply\<close> objects on the heap, and \<^verbatim>\<open>freeReplyObject\<close>. The heap maps
  addresses to objects and hands out increasing addresses; its oracle \<open>hp_avail\<close> decides for
  every single allocation, by its number and size, whether it succeeds. The string buffer and the
  element vector of an object live with the object.
\<close>

section \<open>Objects and the heap\<close>

record redisReply =
  rr_type :: int
  rr_integer :: int
  rr_len :: int
  rr_str :: "mem option"
  rr_elements :: nat
  rr_element :: "nat list option"

record heap =
  hp_objs :: "nat \<Rightarrow> redisReply option"
  hp_next :: nat
  hp_count :: nat
  hp_avail :: "nat \<Rightarrow> nat \<Rightarrow> bool"

definition hp_alloc :: "nat \<Rightarrow> heap \<Rightarrow> bool \<times> heap" where
  "hp_alloc n h = (hp_avail h (hp_count h) n, h\<lparr>hp_count := Suc (hp_count h)\<rparr>)"

definition hp_put :: "nat \<Rightarrow> redisReply \<Rightarrow> heap \<Rightarrow> heap" where
  "hp_put p r h = h\<lparr>hp_objs := (hp_objs h)(p \<mapsto> r)\<rparr>"

definition hp_free :: "nat \<Rightarrow> heap \<Rightarrow> heap" where
  "hp_free p h = h\<lparr>hp_objs := (hp_objs h)(p := None)\<rparr>"

section \<open>Creating and freeing\<close>

definition createReplyObject :: "int \<Rightarrow> heap \<Rightarrow> nat \<times> heap" where
  "createReplyObject ty h =
     (case hp_alloc 48 h of
        (False, h) \<Rightarrow> (0, h)
      | (True, h) \<Rightarrow> (hp_next h, (hp_put (hp_next h) \<lparr>rr_type = ty, rr_integer = 0, rr_len = 0, rr_str = None,
                                       rr_elements = 0, rr_element = None\<rparr> h)\<lparr>hp_next := Suc (hp_next h)\<rparr>))"

fun free_elements :: "(nat \<Rightarrow> heap \<Rightarrow> heap cres) \<Rightarrow> nat \<Rightarrow> nat list \<Rightarrow> heap \<Rightarrow> heap cres" where
  "free_elements f 0 ps h = Ok h"
| "free_elements f (Suc n) [] h = Fault OutOfBounds"
| "free_elements f (Suc n) (p # ps) h = cbind (if p \<noteq> 0 then f p h else Ok h) (free_elements f n ps)"

text \<open>The first argument bounds the depth of the recursion.\<close>

primrec freeReplyObject :: "nat \<Rightarrow> nat \<Rightarrow> heap \<Rightarrow> heap cres" where
  "freeReplyObject 0 reply h = (if reply = 0 then Ok h else Fault OutOfFuel)"
| "freeReplyObject (Suc n) reply h =
     (if reply = 0 then Ok h
      else case hp_objs h reply of
        None \<Rightarrow> Fault UseAfterFree
      | Some r \<Rightarrow>
          cbind (if rr_type r = REDIS_REPLY_ARRAY
                 then (case rr_element r of
                         None \<Rightarrow> Ok h
                       | Some ps \<Rightarrow> free_elements (freeReplyObject n) (rr_elements r) ps h)
                 else Ok h)
            (\<lambda>h. Ok (hp_free reply h)))"

text \<open>Storing the new object in its slot of the parent.\<close>

definition link_parent :: "taskview \<Rightarrow> nat \<Rightarrow> heap \<Rightarrow> heap cres" where
  "link_parent task r h =
     (case v_parent task of
        None \<Rightarrow> Ok h
      | Some parent \<Rightarrow>
          (case hp_objs h parent of
             None \<Rightarrow> Fault (if parent = 0 then NullDeref else UseAfterFree)
           | Some pr \<Rightarrow>
               if rr_type pr \<noteq> REDIS_REPLY_ARRAY then Fault AssertFailed
               else (case rr_element pr of
                       None \<Rightarrow> Fault NullDeref
                     | Some ps \<Rightarrow>
                         if 0 \<le> v_idx task \<and> nat (v_idx task) < length ps
                         then Ok (hp_put parent (pr\<lparr>rr_element := Some (ps[nat (v_idx task) := r])\<rparr>) h)
                         else Fault OutOfBounds)))"

definition createStringObject :: "taskview \<Rightarrow> string \<Rightarrow> heap \<Rightarrow> (nat \<times> heap) cres" where
  "createStringObject task str h =
     (case createReplyObject (v_type task) h of (r, h) \<Rightarrow>
      if r = 0 then Ok (0, h)
      else case hp_alloc (Suc (length str)) h of
        (False, h) \<Rightarrow> cbind (freeReplyObject 1 r h) (\<lambda>h. Ok (0, h))
      | (True, h) \<Rightarrow>
          if v_type task \<notin> {REDIS_REPLY_ERROR, REDIS_REPLY_STATUS, REDIS_REPLY_STRING} then Fault AssertFailed
          else cbind (link_parent task r
                 (hp_put r \<lparr>rr_type = v_type task, rr_integer = 0, rr_len = to_i32 (int (length str)),
                            rr_str = Some (str @ [NUL]), rr_elements = 0, rr_element = None\<rparr> h))
               (\<lambda>h. Ok (r, h)))"

definition createArrayObject :: "taskview \<Rightarrow> int \<Rightarrow> heap \<Rightarrow> (nat \<times> heap) cres" where
  "createArrayObject task elements h =
     (case createReplyObject REDIS_REPLY_ARRAY h of (r, h) \<Rightarrow>
      if r = 0 then Ok (0, h)
      else case (if elements > 0 then hp_alloc (nat elements * 8) h else (True, h)) of
        (False, h) \<Rightarrow> cbind (freeReplyObject 1 r h) (\<lambda>h. Ok (0, h))
      | (True, h) \<Rightarrow>
          cbind (link_parent task r
                 (hp_put r \<lparr>rr_type = REDIS_REPLY_ARRAY, rr_integer = 0, rr_len = 0, rr_str = None,
                            rr_elements = to_size elements,
                            rr_element = (if elements > 0 then Some (replicate (nat elements) 0) else None)\<rparr> h))
            (\<lambda>h. Ok (r, h)))"

definition createIntegerObject :: "taskview \<Rightarrow> int \<Rightarrow> heap \<Rightarrow> (nat \<times> heap) cres" where
  "createIntegerObject task val h =
     (case createReplyObject REDIS_REPLY_INTEGER h of (r, h) \<Rightarrow>
      if r = 0 then Ok (0, h)
      else cbind (link_parent task r
             (hp_put r \<lparr>rr_type = REDIS_REPLY_INTEGER, rr_integer = val, rr_len = 0, rr_str = None,
                        rr_elements = 0, rr_element = None\<rparr> h))
           (\<lambda>h. Ok (r, h)))"

definition createNilObject :: "taskview \<Rightarrow> heap \<Rightarrow> (nat \<times> heap) cres" where
  "createNilObject task h =
     (case createReplyObject REDIS_REPLY_NIL h of (r, h) \<Rightarrow>
      if r = 0 then Ok (0, h) else cbind (link_parent task r h) (\<lambda>h. Ok (r, h)))"

text \<open>A reply is nested no deeper than there are addresses in use, which bounds the fuel.\<close>

definition defaultFunctions :: "heap redisReplyObjectFunctions" where
  "defaultFunctions = \<lparr>createString = Some createStringObject, createArray = Some createArrayObject,
     createInteger = Some createIntegerObject, createNil = Some createNilObject,
     freeObject = Some (\<lambda>p h. freeReplyObject (hp_next h) p h)\<rparr>"

definition redisReaderCreate :: "env \<Rightarrow> heap redisReader cres" where
  "redisReaderCreate e = redisReaderCreateWithFunctions e (Some defaultFunctions)"

section \<open>The layout of a reply on the heap\<close>

text \<open>Replies are built depth first, so the objects of a reply fill an interval of addresses.\<close>

fun objects :: "resp \<Rightarrow> nat" where
  "objects (Multi vs) = Suc (sum_list (map objects vs))"
| "objects _ = 1"

fun addresses :: "nat \<Rightarrow> resp list \<Rightarrow> nat list" where
  "addresses b [] = []"
| "addresses b (v # vs) = b # addresses (b + objects v) vs"

fun laid_out :: "(nat \<Rightarrow> redisReply option) \<Rightarrow> nat \<Rightarrow> resp \<Rightarrow> bool"
and laid_list :: "(nat \<Rightarrow> redisReply option) \<Rightarrow> nat \<Rightarrow> resp list \<Rightarrow> bool" where
  "laid_out m b (Status s) = (m b = Some \<lparr>rr_type = REDIS_REPLY_STATUS, rr_integer = 0, rr_len = to_i32 (int (length s)),
     rr_str = Some (s @ [NUL]), rr_elements = 0, rr_element = None\<rparr>)"
| "laid_out m b (Error s) = (m b = Some \<lparr>rr_type = REDIS_REPLY_ERROR, rr_integer = 0, rr_len = to_i32 (int (length s)),
     rr_str = Some (s @ [NUL]), rr_elements = 0, rr_element = None\<rparr>)"
| "laid_out m b (Bulk s) = (m b = Some \<lparr>rr_type = REDIS_REPLY_STRING, rr_integer = 0, rr_len = to_i32 (int (length s)),
     rr_str = Some (s @ [NUL]), rr_elements = 0, rr_element = None\<rparr>)"
| "laid_out m b (Integer i) = (m b = Some \<lparr>rr_type = REDIS_REPLY_INTEGER, rr_integer = i, rr_len = 0,
     rr_str = None, rr_elements = 0, rr_element = None\<rparr>)"
| "laid_out m b NilBulk = (m b = Some \<lparr>rr_type = REDIS_REPLY_NIL, rr_integer = 0, rr_len = 0,
     rr_str = None, rr_elements = 0, rr_element = None\<rparr>)"
| "laid_out m b NilMulti = (m b = Some \<lparr>rr_type = REDIS_REPLY_NIL, rr_integer = 0, rr_len = 0,
     rr_str = None, rr_elements = 0, rr_element = None\<rparr>)"
| "laid_out m b (Multi vs) = (m b = Some \<lparr>rr_type = REDIS_REPLY_ARRAY, rr_integer = 0, rr_len = 0,
     rr_str = None, rr_elements = length vs, rr_element = (if vs = [] then None else Some (addresses (Suc b) vs))\<rparr> \<and>
     laid_list m (Suc b) vs)"
| "laid_list m b [] = True"
| "laid_list m b (v # vs) = (laid_out m b v \<and> laid_list m (b + objects v) vs)"

lemma objects_pos: "0 < objects v"
  by (cases v) auto

lemma length_addresses [simp]: "length (addresses b vs) = length vs"
  by (induction b vs rule: addresses.induct) auto

lemma laid_out_frame:
  "laid_out m b v \<Longrightarrow> (\<And>a. b \<le> a \<Longrightarrow> a < b + objects v \<Longrightarrow> m' a = m a) \<Longrightarrow> laid_out m' b v"
  "laid_list m b vs \<Longrightarrow> (\<And>a. b \<le> a \<Longrightarrow> a < b + sum_list (map objects vs) \<Longrightarrow> m' a = m a) \<Longrightarrow> laid_list m' b vs"
proof (induction m b v and m b vs rule: laid_out_laid_list.induct)
  case (9 m b v vs)
  then show ?case using objects_pos [of v] by simp
qed auto


section \<open>The callbacks build the layout\<close>

definition heap_ok :: "heap \<Rightarrow> bool" where
  "heap_ok h \<longleftrightarrow> 0 < hp_next h \<and> (\<forall>a \<ge> hp_next h. hp_objs h a = None) \<and> (\<forall>k n. hp_avail h k n)"

definition slot_ok :: "heap \<Rightarrow> nat option \<Rightarrow> int \<Rightarrow> bool" where
  "slot_ok h par i \<longleftrightarrow> (case par of None \<Rightarrow> True | Some q \<Rightarrow> q < hp_next h \<and>
     (\<exists>pr ps. hp_objs h q = Some pr \<and> rr_type pr = REDIS_REPLY_ARRAY \<and> rr_element pr = Some ps \<and> 0 \<le> i \<and> nat i < length ps))"

definition linked :: "(nat \<Rightarrow> redisReply option) \<Rightarrow> nat option \<Rightarrow> int \<Rightarrow> nat \<Rightarrow> nat \<Rightarrow> redisReply option" where
  "linked m par i b = (case par of None \<Rightarrow> m | Some q \<Rightarrow>
     m(q := map_option (\<lambda>pr. pr\<lparr>rr_element := map_option (\<lambda>ps. ps[nat i := b]) (rr_element pr)\<rparr>) (m q)))"

fun node :: "resp \<Rightarrow> redisReply" where
  "node (Status s) = \<lparr>rr_type = REDIS_REPLY_STATUS, rr_integer = 0, rr_len = to_i32 (int (length s)),
     rr_str = Some (s @ [NUL]), rr_elements = 0, rr_element = None\<rparr>"
| "node (Error s) = \<lparr>rr_type = REDIS_REPLY_ERROR, rr_integer = 0, rr_len = to_i32 (int (length s)),
     rr_str = Some (s @ [NUL]), rr_elements = 0, rr_element = None\<rparr>"
| "node (Bulk s) = \<lparr>rr_type = REDIS_REPLY_STRING, rr_integer = 0, rr_len = to_i32 (int (length s)),
     rr_str = Some (s @ [NUL]), rr_elements = 0, rr_element = None\<rparr>"
| "node (Integer i) = \<lparr>rr_type = REDIS_REPLY_INTEGER, rr_integer = i, rr_len = 0,
     rr_str = None, rr_elements = 0, rr_element = None\<rparr>"
| "node (Multi vs) = \<lparr>rr_type = REDIS_REPLY_ARRAY, rr_integer = 0, rr_len = 0, rr_str = None,
     rr_elements = length vs, rr_element = (if vs = [] then None else Some (replicate (length vs) 0))\<rparr>"
| "node _ = \<lparr>rr_type = REDIS_REPLY_NIL, rr_integer = 0, rr_len = 0,
     rr_str = None, rr_elements = 0, rr_element = None\<rparr>"

lemma link_parent_ok:
  assumes "slot_ok h (v_parent tv) (v_idx tv)" "hp_objs h2 = (hp_objs h)(hp_next h \<mapsto> r)"
  shows "link_parent tv (hp_next h) h2 = Ok (h2\<lparr>hp_objs := (linked (hp_objs h) (v_parent tv) (v_idx tv) (hp_next h))(hp_next h \<mapsto> r)\<rparr>)"
proof (cases "v_parent tv")
  case None
  then show ?thesis using assms(2) by (simp add: link_parent_def linked_def)
next
  case (Some q)
  then obtain pr ps where q: "q < hp_next h" "hp_objs h q = Some pr" "rr_type pr = REDIS_REPLY_ARRAY" "rr_element pr = Some ps"
    "0 \<le> v_idx tv" "nat (v_idx tv) < length ps" using assms(1) by (auto simp: slot_ok_def)
  then show ?thesis using Some assms(2) by (simp add: link_parent_def linked_def hp_put_def fun_upd_twist)
qed

lemma mk_default:
  assumes "heap_ok h" "slot_ok h par i" "resp_ok v"
  shows "\<exists>h1. mk (Some defaultFunctions) pd par i v h = Ok (hp_next h, h1) \<and> heap_ok h1 \<and> hp_next h1 = Suc (hp_next h) \<and>
    hp_objs h1 = (linked (hp_objs h) par i (hp_next h))(hp_next h \<mapsto> node v)"
proof -
  have av: "hp_avail h k n" "0 < hp_next h" for k n using assms(1) by (auto simp: heap_ok_def)
  have lk: "link_parent \<lparr>v_type = ty, v_idx = i, v_parent = par, v_privdata = pd\<rparr> (hp_next h) h2 =
      Ok (h2\<lparr>hp_objs := (linked (hp_objs h) par i (hp_next h))(hp_next h \<mapsto> r)\<rparr>)"
    if "hp_objs h2 = (hp_objs h)(hp_next h \<mapsto> r)" for ty h2 r
    using link_parent_ok [of h "\<lparr>v_type = ty, v_idx = i, v_parent = par, v_privdata = pd\<rparr>"] assms(2) that by simp
  have "\<exists>h1. mk (Some defaultFunctions) pd par i v h = Ok (hp_next h, h1) \<and> hp_avail h1 = hp_avail h \<and>
      hp_next h1 = Suc (hp_next h) \<and> hp_objs h1 = (linked (hp_objs h) par i (hp_next h))(hp_next h \<mapsto> node v)"
    using av assms(3)
    by (cases v)
      (simp_all add: mk_def defaultFunctions_def createStringObject_def createArrayObject_def createIntegerObject_def
        createNilObject_def createReplyObject_def hp_alloc_def hp_put_def lk redis_consts fun_upd_def [symmetric])
  then obtain h1 where h1: "mk (Some defaultFunctions) pd par i v h = Ok (hp_next h, h1)" "hp_avail h1 = hp_avail h"
    "hp_next h1 = Suc (hp_next h)" "hp_objs h1 = (linked (hp_objs h) par i (hp_next h))(hp_next h \<mapsto> node v)" by blast
  have "linked (hp_objs h) par i (hp_next h) a = None" if "hp_next h \<le> a" for a
    using assms(1,2) that by (auto simp: heap_ok_def linked_def slot_ok_def split: option.splits)
  then have "heap_ok h1" using h1 av by (auto simp: heap_ok_def)
  then show ?thesis using h1 by blast
qed


definition builds :: "resp \<Rightarrow> bool" where
  "builds v \<longleftrightarrow> (\<forall>h par i pd. heap_ok h \<longrightarrow> slot_ok h par i \<longrightarrow> resp_ok v \<longrightarrow>
     (\<exists>h'. build (Some defaultFunctions) pd par i v h = Ok (hp_next h, h') \<and> heap_ok h' \<and>
        hp_next h' = hp_next h + objects v \<and> laid_out (hp_objs h') (hp_next h) v \<and>
        (\<forall>a < hp_next h. hp_objs h' a = linked (hp_objs h) par i (hp_next h) a)))"

lemma builds_elements:
  "\<forall>v \<in> set vs. builds v \<and> resp_ok v \<Longrightarrow> heap_ok h \<Longrightarrow> q < hp_next h \<Longrightarrow>
   hp_objs h q = Some pr \<Longrightarrow> rr_type pr = REDIS_REPLY_ARRAY \<Longrightarrow> rr_element pr = Some (xs @ replicate (length vs) 0) \<Longrightarrow>
   \<exists>h'. build_list (Some defaultFunctions) pd q (int (length xs)) vs h = Ok h' \<and> heap_ok h' \<and>
     hp_next h' = hp_next h + sum_list (map objects vs) \<and> laid_list (hp_objs h') (hp_next h) vs \<and>
     hp_objs h' q = Some (pr\<lparr>rr_element := Some (xs @ addresses (hp_next h) vs)\<rparr>) \<and>
     (\<forall>a < hp_next h. a \<noteq> q \<longrightarrow> hp_objs h' a = hp_objs h a)"
proof (induction vs arbitrary: h xs pr)
  case Nil
  then show ?case by simp
next
  case (Cons v vs)
  have "slot_ok h (Some q) (int (length xs))" using Cons.prems by (simp add: slot_ok_def)
  then obtain h1 where h1: "build (Some defaultFunctions) pd (Some q) (int (length xs)) v h = Ok (hp_next h, h1)" "heap_ok h1"
    "hp_next h1 = hp_next h + objects v" "laid_out (hp_objs h1) (hp_next h) v"
    "\<forall>a < hp_next h. hp_objs h1 a = linked (hp_objs h) (Some q) (int (length xs)) (hp_next h) a"
    using Cons.prems(1,2) unfolding builds_def by (metis list.set_intros(1))
  define pr1 where "pr1 = pr\<lparr>rr_element := Some ((xs @ [hp_next h]) @ replicate (length vs) 0)\<rparr>"
  have q1: "hp_objs h1 q = Some pr1"
    using h1(5) Cons.prems(3,4,6) by (simp add: linked_def pr1_def list_update_append)
  have "\<exists>h'. build_list (Some defaultFunctions) pd q (int (length (xs @ [hp_next h]))) vs h1 = Ok h' \<and> heap_ok h' \<and>
     hp_next h' = hp_next h1 + sum_list (map objects vs) \<and> laid_list (hp_objs h') (hp_next h1) vs \<and>
     hp_objs h' q = Some (pr1\<lparr>rr_element := Some ((xs @ [hp_next h]) @ addresses (hp_next h1) vs)\<rparr>) \<and>
     (\<forall>a < hp_next h1. a \<noteq> q \<longrightarrow> hp_objs h' a = hp_objs h1 a)"
    by (rule Cons.IH [OF _ h1(2) _ q1]) (use Cons.prems h1(3) in \<open>auto simp: pr1_def\<close>)
  then obtain h' where h': "build_list (Some defaultFunctions) pd q (int (length xs) + 1) vs h1 = Ok h'" "heap_ok h'"
    "hp_next h' = hp_next h + objects v + sum_list (map objects vs)" "laid_list (hp_objs h') (hp_next h + objects v) vs"
    "hp_objs h' q = Some (pr\<lparr>rr_element := Some (xs @ hp_next h # addresses (hp_next h + objects v) vs)\<rparr>)"
    "\<forall>a < hp_next h + objects v. a \<noteq> q \<longrightarrow> hp_objs h' a = hp_objs h1 a"
    using h1(3) by (auto simp: pr1_def add.commute)
  have "laid_out (hp_objs h') (hp_next h) v"
    by (rule laid_out_frame(1) [OF h1(4)]) (use h'(6) Cons.prems(3) in auto)
  moreover have "\<forall>a < hp_next h. a \<noteq> q \<longrightarrow> hp_objs h' a = hp_objs h a"
    using h'(6) h1(5) by (auto simp: linked_def)
  ultimately show ?case using h1(1) h' by simp
qed

lemma builds_simple:
  assumes "objects v = 1" "\<And>m b. laid_out m b v \<longleftrightarrow> m b = Some (node v)"
    "\<And>fn pd par i h. build fn pd par i v (h :: heap) = cbind (mk fn pd par i v h) (\<lambda>(p, h1). if p = 0 then Null else Ok (p, h1))"
  shows "builds v"
  unfolding builds_def
proof (intro allI impI, goal_cases)
  case (1 h par i pd)
  have "0 < hp_next h" using 1(1) by (simp add: heap_ok_def)
  then show ?case using mk_default [OF 1, of pd] by (auto simp: assms)
qed

lemma builds_all: "builds v"
proof (induction v)
  case (Multi vs)
  show ?case
  proof (cases "vs = []")
    case True
    show ?thesis unfolding True by (rule builds_simple) (simp_all cong: if_cong)
  next
    case False
    show ?thesis unfolding builds_def
    proof (intro allI impI, goal_cases)
      case (1 h par i pd)
      obtain h1 where h1: "mk (Some defaultFunctions) pd par i (Multi vs) h = Ok (hp_next h, h1)" "heap_ok h1"
        "hp_next h1 = Suc (hp_next h)" "hp_objs h1 = (linked (hp_objs h) par i (hp_next h))(hp_next h \<mapsto> node (Multi vs))"
        using mk_default [OF 1, of pd] by blast
      have el: "rr_element (node (Multi vs)) = Some ([] @ replicate (length vs) 0)" using False by simp
      have "\<exists>h'. build_list (Some defaultFunctions) pd (hp_next h) (int (length ([] :: nat list))) vs h1 = Ok h' \<and> heap_ok h' \<and>
         hp_next h' = hp_next h1 + sum_list (map objects vs) \<and> laid_list (hp_objs h') (hp_next h1) vs \<and>
         hp_objs h' (hp_next h) = Some ((node (Multi vs))\<lparr>rr_element := Some ([] @ addresses (hp_next h1) vs)\<rparr>) \<and>
         (\<forall>a < hp_next h1. a \<noteq> hp_next h \<longrightarrow> hp_objs h' a = hp_objs h1 a)"
        by (rule builds_elements [OF _ h1(2) _ _ _ el]) (use Multi 1(3) h1(3,4) in \<open>auto simp: list_all_iff\<close>)
      then show ?case using h1 False 1(1) by (auto simp: heap_ok_def)
    qed
  qed
qed (rule builds_simple; simp)+

section \<open>Freeing a reply\<close>

lemma free_laid_out:
  "laid_out (hp_objs h) b v \<Longrightarrow> 0 < b \<Longrightarrow> depth v < n \<Longrightarrow>
   freeReplyObject n b h = Ok (h\<lparr>hp_objs := (\<lambda>a. if b \<le> a \<and> a < b + objects v then None else hp_objs h a)\<rparr>)"
proof (induction v arbitrary: h b n)
  case (Multi vs)
  then obtain n' where n: "n = Suc n'" by (cases n) auto
  have dep: "depth v < n'" if "v \<in> set vs" for v
    using Multi.prems(3) n that fold_max_ge(2) [of "depth v" "map depth vs" 0] by simp
  have list: "\<forall>v \<in> set us. v \<in> set vs \<Longrightarrow> laid_list (hp_objs g) c us \<Longrightarrow> 0 < c \<Longrightarrow>
      free_elements (freeReplyObject n') (length us) (addresses c us) g =
      Ok (g\<lparr>hp_objs := (\<lambda>a. if c \<le> a \<and> a < c + sum_list (map objects us) then None else hp_objs g a)\<rparr>)" for us c g
  proof (induction us arbitrary: c g)
    case (Cons u us)
    let ?g = "g\<lparr>hp_objs := (\<lambda>a. if c \<le> a \<and> a < c + objects u then None else hp_objs g a)\<rparr>"
    have "freeReplyObject n' c g = Ok ?g" using Multi.IH [of u g c n'] Cons.prems dep by auto
    moreover have "laid_list (hp_objs ?g) (c + objects u) us"
      by (rule laid_out_frame(2) [of "hp_objs g"]) (use Cons.prems in auto)
    ultimately show ?case using Cons.IH [of ?g "c + objects u"] Cons.prems by (auto simp: fun_eq_iff)
  next
    case Nil
    have "(\<lambda>a. if c \<le> a \<and> a < c then None else hp_objs g a) = hp_objs g" by (auto simp: fun_eq_iff)
    then show ?case by simp
  qed
  show ?case
  proof (cases "vs = []")
    case True
    then show ?thesis using Multi.prems n by (auto simp: hp_free_def fun_eq_iff redis_consts)
  next
    case False
    have "laid_list (hp_objs h) (Suc b) vs" using Multi.prems(1) by simp
    from list [OF _ this] show ?thesis using Multi.prems n False
      by (auto simp: hp_free_def fun_eq_iff redis_consts)
  qed
next
  case NilMulti
  then show ?case by (cases n) (auto simp: hp_free_def fun_eq_iff redis_consts)
qed (auto simp: gr0_conv_Suc hp_free_def fun_eq_iff redis_consts)


section \<open>Reading a reply back\<close>

text \<open>What a program finds that follows the pointers of a reply, up to a given depth.\<close>

definition reply_string :: "redisReply \<Rightarrow> string option" where
  "reply_string r = (case rr_str r of
     None \<Rightarrow> None
   | Some m \<Rightarrow> if 0 \<le> rr_len r \<and> nat (rr_len r) < length m then Some (take (nat (rr_len r)) m) else None)"

primrec reply_value :: "nat \<Rightarrow> (nat \<Rightarrow> redisReply option) \<Rightarrow> nat \<Rightarrow> resp option" where
  "reply_value 0 m p = None"
| "reply_value (Suc n) m p =
     (case m p of
        None \<Rightarrow> None
      | Some r \<Rightarrow>
          if rr_type r = REDIS_REPLY_STRING then map_option Bulk (reply_string r)
          else if rr_type r = REDIS_REPLY_STATUS then map_option Status (reply_string r)
          else if rr_type r = REDIS_REPLY_ERROR then map_option Error (reply_string r)
          else if rr_type r = REDIS_REPLY_INTEGER then Some (Integer (rr_integer r))
          else if rr_type r = REDIS_REPLY_NIL then Some NilBulk
          else if rr_type r = REDIS_REPLY_ARRAY then
            (case rr_element r of
               None \<Rightarrow> if rr_elements r = 0 then Some (Multi []) else None
             | Some ps \<Rightarrow> if length ps = rr_elements r then map_option Multi (those (map (reply_value n m) ps)) else None)
          else None)"

text \<open>Both null replies are read back as the same object.\<close>

fun canon :: "resp \<Rightarrow> resp" where
  "canon (Multi vs) = Multi (map canon vs)"
| "canon NilMulti = NilBulk"
| "canon v = v"

lemma reply_string_text:
  assumes "rr_str r = Some (s @ [NUL])" "rr_len r = to_i32 (int (length s))" "length s \<le> 2147483647"
  shows "reply_string r = Some s"
  using assms by (simp add: reply_string_def)

fun lines_fit :: "resp \<Rightarrow> bool" where
  "lines_fit (Status s) = (length s \<le> 2147483647)"
| "lines_fit (Error s) = (length s \<le> 2147483647)"
| "lines_fit (Multi vs) = list_all lines_fit vs"
| "lines_fit _ = True"

lemma laid_out_value:
  "laid_out m b v \<Longrightarrow> resp_ok v \<Longrightarrow> lines_fit v \<Longrightarrow> depth v < n \<Longrightarrow> reply_value n m b = Some (canon v)"
proof (induction v arbitrary: b n)
  case (Multi vs)
  then obtain n' where n: "n = Suc n'" by (cases n) auto
  have dep: "depth v < n'" if "v \<in> set vs" for v
    using Multi.prems(4) n that fold_max_ge(2) [of "depth v" "map depth vs" 0] by simp
  have "set us \<subseteq> set vs \<Longrightarrow> laid_list m c us \<Longrightarrow> those (map (reply_value n' m) (addresses c us)) = Some (map canon us)" for us c
  proof (induction us arbitrary: c)
    case (Cons u us)
    then have "reply_value n' m c = Some (canon u)"
      using Multi.IH [of u c n'] Multi.prems(2,3) dep by (auto simp: list_all_iff)
    then show ?case using Cons by simp
  qed simp
  from this [of vs "Suc b"] show ?case using Multi.prems(1) n by (cases "vs = []") (auto simp: redis_consts)
next
  case (Bulk s)
  then show ?case by (cases n) (auto simp: reply_string_text redis_consts)
next
  case (Status s)
  then show ?case by (cases n) (auto simp: reply_string_text redis_consts)
next
  case (Error s)
  then show ?case by (cases n) (auto simp: reply_string_text redis_consts)
next
  case NilMulti
  then show ?case by (cases n) (auto simp: redis_consts)
qed (auto simp: gr0_conv_Suc redis_consts)

section \<open>The contract of a table of callbacks\<close>

text \<open>
  A table of callbacks is usable with a heap invariant and a notion of an object standing for a
  reply when building any reply that the protocol can carry succeeds, keeps the invariant,
  yields an object that stands for the reply, and leaves earlier replies alone.
\<close>

locale reply_builder =
  fixes fns :: "'h redisReplyObjectFunctions option"
    and inv :: "'h \<Rightarrow> bool"
    and stands_for :: "'h \<Rightarrow> nat \<Rightarrow> resp \<Rightarrow> bool"
  assumes build_law: "inv h \<Longrightarrow> resp_ok v \<Longrightarrow> \<exists>p h'. build fns pd None (- 1) v h = Ok (p, h') \<and> inv h' \<and> stands_for h' p v"
    and frame_law: "inv h \<Longrightarrow> resp_ok v \<Longrightarrow> build fns pd None (- 1) v h = Ok (p, h') \<Longrightarrow> stands_for h q w \<Longrightarrow> stands_for h' q w"
begin

lemma build_all_total:
  "inv h \<Longrightarrow> \<forall>v \<in> set vs. resp_ok v \<Longrightarrow>
   \<exists>ps h'. build_all fns pd vs h = Ok (ps, h') \<and> inv h' \<and> list_all2 (stands_for h') ps vs \<and>
     (\<forall>q w. stands_for h q w \<longrightarrow> stands_for h' q w)"
proof (induction vs arbitrary: h)
  case (Cons v vs)
  obtain p h1 where p: "build fns pd None (- 1) v h = Ok (p, h1)" "inv h1" "stands_for h1 p v"
    using build_law [OF Cons.prems(1), of v pd] Cons.prems(2) by auto
  obtain ps h' where ps: "build_all fns pd vs h1 = Ok (ps, h')" "inv h'" "list_all2 (stands_for h') ps vs"
    "\<forall>q w. stands_for h1 q w \<longrightarrow> stands_for h' q w" using Cons.IH [OF p(2)] Cons.prems(2) by auto
  have "\<forall>q w. stands_for h q w \<longrightarrow> stands_for h1 q w" using frame_law [OF Cons.prems(1) _ p(1)] Cons.prems(2) by auto
  then show ?case using p ps by auto
qed simp

lemma delivers:
  assumes "redisReaderCreateWithFunctions e fns = Ok r" "concat ts = concat (map encode vs)" "ts \<noteq> []"
    "\<And>k. alloc_ok (es k)" "sds_fits (length (concat ts))" "\<forall>v \<in> set vs. resp_ok v \<and> depth v \<le> 8" "inv h"
  shows "\<exists>ps r' h'. run_chunks es 0 r ts h = Ok (ps, r', h') \<and> r_err r' = 0 \<and> rest_of r' = [] \<and> inv h' \<and>
    list_all2 (stands_for h') ps vs"
proof -
  obtain ps h' where b: "build_all fns 0 vs h = Ok (ps, h')" "inv h'" "list_all2 (stands_for h') ps vs"
    using build_all_total [OF assms(7), of vs 0] assms(6) by blast
  then show ?thesis using run_chunks_encode [of e fns r ts vs es, OF assms(1-6) b(1)] by blast
qed

end

interpretation heap_replies: reply_builder "Some defaultFunctions" heap_ok
  "\<lambda>h p v. p < hp_next h \<and> 0 < p \<and> p + objects v \<le> hp_next h \<and> laid_out (hp_objs h) p v"
proof unfold_locales
  fix h pd v
  assume h: "heap_ok h" "resp_ok v"
  obtain h' where h': "build (Some defaultFunctions) pd None (- 1) v h = Ok (hp_next h, h')" "heap_ok h'"
      "hp_next h' = hp_next h + objects v" "laid_out (hp_objs h') (hp_next h) v"
      "\<forall>a < hp_next h. hp_objs h' a = linked (hp_objs h) None (- 1) (hp_next h) a"
    using builds_all [of v, unfolded builds_def, rule_format, of h None "- 1" pd] h by (auto simp: slot_ok_def)
  show "\<exists>p h'. build (Some defaultFunctions) pd None (- 1) v h = Ok (p, h') \<and> heap_ok h' \<and>
      p < hp_next h' \<and> 0 < p \<and> p + objects v \<le> hp_next h' \<and> laid_out (hp_objs h') p v"
    using h' h(1) objects_pos [of v] by (auto simp: heap_ok_def)
  fix p h2 q w
  assume b: "build (Some defaultFunctions) pd None (- 1) v h = Ok (p, h2)"
    and w: "q < hp_next h \<and> 0 < q \<and> q + objects w \<le> hp_next h \<and> laid_out (hp_objs h) q w"
  have "h2 = h'" using b h'(1) by simp
  moreover have "laid_out (hp_objs h') q w"
    by (rule laid_out_frame(1) [of "hp_objs h"]) (use w h'(5) in \<open>auto simp: linked_def\<close>)
  ultimately show "q < hp_next h2 \<and> 0 < q \<and> q + objects w \<le> hp_next h2 \<and> laid_out (hp_objs h2) q w" using w h'(3) by simp
qed

text \<open>The reader without callbacks, which only reports the type of a reply.\<close>

lemma build_untyped: "build None pd par i v h = Ok (case v of NilBulk \<Rightarrow> nat REDIS_REPLY_NIL | NilMulti \<Rightarrow> nat REDIS_REPLY_NIL | _ \<Rightarrow> nat (type_of v), h)"
  "build_list None pd p i vs h = Ok h"
proof (induction "None :: 'a redisReplyObjectFunctions option" pd par i v h and "None :: 'a redisReplyObjectFunctions option" pd p i vs h
    rule: build_build_list.induct)
  case (1 pd par i vs h)
  then show ?case by (simp add: mk_def redis_consts)
qed (simp_all add: mk_def redis_consts)

interpretation untyped_replies: reply_builder "None :: 'h redisReplyObjectFunctions option" "\<lambda>_. True"
  "\<lambda>_ p v. p = (case v of NilBulk \<Rightarrow> nat REDIS_REPLY_NIL | NilMulti \<Rightarrow> nat REDIS_REPLY_NIL | _ \<Rightarrow> nat (type_of v))"
  by unfold_locales (simp_all add: build_untyped)


lemma depth_objects: "depth v \<le> objects v"
proof (induction v)
  case (Multi vs)
  have "fold max (map depth us) k \<le> k + sum_list (map objects us)" if "set us \<subseteq> set vs" for us k
    using that
  proof (induction us arbitrary: k)
    case (Cons u us)
    have "depth u \<le> objects u" using Multi [of u] Cons.prems by simp
    then have "max (depth u) k + sum_list (map objects us) \<le> k + sum_list (map objects (u # us))" by simp
    moreover have "fold max (map depth (u # us)) k \<le> max (depth u) k + sum_list (map objects us)"
      using Cons.IH [of "max (depth u) k"] Cons.prems by simp
    ultimately show ?case by linarith
  qed simp
  from this [of vs 0] show ?case by simp
qed auto

lemma replies_roundtrip:
  assumes "redisReaderCreate e = Ok r" "concat ts = concat (map encode vs)" "ts \<noteq> []"
    "\<And>k. alloc_ok (es k)" "sds_fits (length (concat ts))" "heap_ok h"
    "\<forall>v \<in> set vs. resp_ok v \<and> lines_fit v \<and> depth v \<le> 8"
  shows "\<exists>ps r' h'. run_chunks es 0 r ts h = Ok (ps, r', h') \<and> r_err r' = 0 \<and> rest_of r' = [] \<and>
    map (reply_value 9 (hp_objs h')) ps = map (Some \<circ> canon) vs"
proof -
  have "\<forall>v \<in> set vs. resp_ok v \<and> depth v \<le> 8" using assms(7) by blast
  from heap_replies.delivers [of e r ts vs es h, OF _ assms(2,3) _ assms(5) this assms(6)] assms(1,4)
  obtain ps r' h' where d: "run_chunks es 0 r ts h = Ok (ps, r', h')" "r_err r' = 0" "rest_of r' = []"
    "list_all2 (\<lambda>p v. p < hp_next h' \<and> 0 < p \<and> p + objects v \<le> hp_next h' \<and> laid_out (hp_objs h') p v) ps vs"
    by (auto simp: redisReaderCreate_def)
  have "map (reply_value 9 (hp_objs h')) ps = map (Some \<circ> canon) vs"
    using d(4) assms(7)
  proof (induction rule: list_all2_induct)
    case (Cons p ps v vs)
    then show ?case using laid_out_value [of "hp_objs h'" p v 9] by auto
  qed simp
  then show ?thesis using d by blast
qed

section \<open>Properties\<close>

text \<open>
  C1. Round trip of the protocol: a new reader that is fed the encoding of any sequence of
  replies, nested arrays up to eight levels included, cut into chunks at any positions, delivers
  exactly one object per reply, in order, and reading the object back gives the reply; the reader
  ends without an error and without unread bytes.
\<close>
theorem reader_roundtrip:
  assumes "redisReaderCreate e = Ok r" "concat ts = concat (map encode vs)" "ts \<noteq> []"
    "\<And>k. alloc_ok (es k)" "sds_fits (length (concat ts))" "heap_ok h"
    "\<forall>v \<in> set vs. resp_ok v \<and> lines_fit v \<and> depth v \<le> 8"
  shows "\<exists>ps r' h'. run_chunks es 0 r ts h = Ok (ps, r', h') \<and> r_err r' = 0 \<and> rest_of r' = [] \<and>
    map (reply_value 9 (hp_objs h')) ps = map (Some \<circ> canon) vs"
  using assms by (rule replies_roundtrip)

definition empty_heap :: heap where
  "empty_heap = \<lparr>hp_objs = (\<lambda>_. None), hp_next = 1, hp_count = 0, hp_avail = (\<lambda>_ _. True)\<rparr>"

lemma empty_heap_ok: "heap_ok empty_heap"
  by (simp add: heap_ok_def empty_heap_def)

theorem reader_roundtrip_witness:
  "\<exists>r ps r' h'. redisReaderCreate plenty = Ok r \<and>
     run_chunks (\<lambda>_. plenty) 0 r [''*2'' @ [CR], [LF] @ ''$1'' @ crlf @ ''a'' @ crlf @ ''*0'' @ crlf] empty_heap = Ok (ps, r', h') \<and>
     map (reply_value 9 (hp_objs h')) ps = [Some (Multi [Bulk ''a'', Multi []])]"
proof -
  obtain r where r: "redisReaderCreate plenty = Ok r" using create_plenty by (auto simp: redisReaderCreate_def)
  define ts where "ts = [''*2'' @ [CR], [LF] @ ''$1'' @ crlf @ ''a'' @ crlf @ ''*0'' @ crlf]"
  have "concat ts = concat (map encode [Multi [Bulk ''a'', Multi []]])"
    by (simp add: ts_def crlf_def dec_eval numeral_2_eq_2 [symmetric])
  moreover have "sds_fits (length (concat ts))" by (simp add: ts_def sds_fits_def SDS_MAX_PREALLOC_def crlf_def)
  ultimately obtain ps r' h' where "run_chunks (\<lambda>_. plenty) 0 r ts empty_heap = Ok (ps, r', h')"
    "map (reply_value 9 (hp_objs h')) ps = [Some (Multi [Bulk ''a'', Multi []])]"
    using reader_roundtrip [OF r _ _ _ _ empty_heap_ok, of ts "[Multi [Bulk ''a'', Multi []]]" "\<lambda>_. plenty"]
    by (auto simp: ts_def simp del: run_chunks.simps)
  then show ?thesis using r unfolding ts_def by (intro exI conjI)
qed

text \<open>
  \<^verbatim>\<open>freeReplyObject\<close> on a reply that the reader built frees exactly the objects of that
  reply, each once, touches no freed object and no other object, and needs no deeper recursion
  than the heap has addresses.
\<close>
theorem freeReplyObject_frees_reply:
  assumes "heap_ok h" "resp_ok v" "build (Some defaultFunctions) pd None (- 1) v h = Ok (p, h')"
  shows "freeReplyObject (hp_next h') p h' = Ok (h'\<lparr>hp_objs := hp_objs h\<rparr>)"
proof -
  obtain h2 where h2: "build (Some defaultFunctions) pd None (- 1) v h = Ok (hp_next h, h2)" "heap_ok h2"
    "hp_next h2 = hp_next h + objects v" "laid_out (hp_objs h2) (hp_next h) v"
    "\<forall>a < hp_next h. hp_objs h2 a = linked (hp_objs h) None (- 1) (hp_next h) a"
    using builds_all [of v, unfolded builds_def, rule_format, of h None "- 1" pd] assms(1,2) by (auto simp: slot_ok_def)
  have e: "p = hp_next h" "h' = h2" "0 < hp_next h" using h2(1) assms(1,3) by (auto simp: heap_ok_def)
  have "depth v < hp_next h2" using depth_objects [of v] h2(3) e(3) by simp
  from free_laid_out [OF h2(4) e(3) this]
  have f: "freeReplyObject (hp_next h2) (hp_next h) h2 =
    Ok (h2\<lparr>hp_objs := (\<lambda>a. if hp_next h \<le> a \<and> a < hp_next h + objects v then None else hp_objs h2 a)\<rparr>)" .
  have "(\<lambda>a. if hp_next h \<le> a \<and> a < hp_next h + objects v then None else hp_objs h2 a) = hp_objs h"
    using h2(2,3,5) assms(1) by (auto simp: fun_eq_iff heap_ok_def linked_def not_less)
  then show ?thesis using f e by simp
qed

theorem freeReplyObject_frees_reply_witness:
  "\<exists>p h'. build (Some defaultFunctions) 0 None (- 1) (Multi [Bulk ''a'', Integer 7]) empty_heap = Ok (p, h') \<and>
     freeReplyObject (hp_next h') p h' = Ok (h'\<lparr>hp_objs := (\<lambda>_. None)\<rparr>)"
proof -
  have ok: "resp_ok (Multi [Bulk ''a'', Integer 7])" by simp
  obtain p h' where b: "build (Some defaultFunctions) 0 None (- 1) (Multi [Bulk ''a'', Integer 7]) empty_heap = Ok (p, h')"
    using heap_replies.build_law [OF empty_heap_ok ok, of 0] by blast
  from freeReplyObject_frees_reply [OF empty_heap_ok ok b] b show ?thesis
    by (auto simp: empty_heap_def simp del: build.simps)
qed

end
