(* ===== verification/Format.thy ===== *)
theory Format
  imports Reply
begin

text \<open>
  Formatting commands, \<^verbatim>\<open>src/win/hiredis/hiredis.c\<close>: \<^verbatim>\<open>countDigits\<close>, \<^verbatim>\<open>bulklen\<close> and the
  functions that turn a printf-like format or an argument vector into the bytes of a command.
  A variadic argument list is a list of typed values. The integer conversions of
  \<^verbatim>\<open>vsnprintf\<close> are modelled; the text of a floating-point conversion is a parameter.
  The theory shows that the three ways to format a command produce the encoding of the
  same array of strings, of exactly the announced length.
\<close>

section \<open>Lengths\<close>

function countDigits_loop :: "nat \<Rightarrow> nat \<Rightarrow> nat" where
  "countDigits_loop v result =
     (if v < 10 then result
      else if v < 100 then result + 1
      else if v < 1000 then result + 2
      else if v < 10000 then result + 3
      else countDigits_loop (v div 10000) (result + 4))"
  by pat_completeness auto
termination
  by (relation "measure fst") auto

declare countDigits_loop.simps [simp del]

definition countDigits :: "nat \<Rightarrow> nat" where
  "countDigits v = countDigits_loop v 1"

definition bulklen :: "nat \<Rightarrow> nat" where
  "bulklen len = to_size (1 + int (countDigits len) + 2 + int len + 2)"

section \<open>Emitting the command\<close>

text \<open>\<^verbatim>\<open>sprintf\<close> at a position of the block writes the text and its terminator.\<close>

definition sprintf_at :: "mem \<Rightarrow> int \<Rightarrow> string \<Rightarrow> (mem \<times> int) cres" where
  "sprintf_at cmd pos txt =
     cbind (mem_write cmd pos (txt @ [NUL])) (\<lambda>cmd. Ok (cmd, to_i32 (pos + int (length txt))))"

text \<open>The loop over the arguments, each a block of memory and the number of bytes used of it.\<close>

fun emit_args :: "mem \<Rightarrow> int \<Rightarrow> (mem \<times> nat) list \<Rightarrow> (mem \<times> int) cres" where
  "emit_args cmd pos [] = Ok (cmd, pos)"
| "emit_args cmd pos ((arg, len) # args) =
     cbind (sprintf_at cmd pos (CHR ''$'' # dec_nat len @ [CR, LF])) (\<lambda>(cmd, pos).
     cbind (mem_slice arg 0 len) (\<lambda>d.
     cbind (mem_write cmd pos d) (\<lambda>cmd.
     let pos = to_i32 (pos + int len) in
     cbind (mem_write cmd pos [CR]) (\<lambda>cmd.
     let pos = to_i32 (pos + 1) in
     cbind (mem_write cmd pos [LF]) (\<lambda>cmd.
     emit_args cmd (to_i32 (pos + 1)) args)))))"

definition emit_command :: "env \<Rightarrow> int \<Rightarrow> int \<Rightarrow> (mem \<times> nat) list \<Rightarrow> mem cres" where
  "emit_command e totlen argc args =
     (let size = to_size (to_i32 (totlen + 1)) in
      if \<not> can_alloc e size then Null
      else
        cbind (sprintf_at (fresh e size) 0 (CHR ''*'' # dec_int argc @ [CR, LF])) (\<lambda>(cmd, pos).
        cbind (emit_args cmd pos args) (\<lambda>(cmd, pos).
        if pos \<noteq> totlen then Fault AssertFailed
        else mem_write cmd pos [NUL])))"

section \<open>Commands from an argument vector\<close>

text \<open>
  The length of an argument, given or measured. \<open>argv\<close> holds at least \<open>argc\<close> blocks; the
  result pairs each block with its length.
\<close>

definition arg_len :: "mem list \<Rightarrow> nat list option \<Rightarrow> nat \<Rightarrow> nat cres" where
  "arg_len argv argvlen j =
     (case argvlen of
        Some ls \<Rightarrow> if j < length ls then Ok (ls ! j) else Fault OutOfBounds
      | None \<Rightarrow> if j < length argv then c_strlen (argv ! j) else Fault OutOfBounds)"

fun arg_list :: "mem list \<Rightarrow> nat list option \<Rightarrow> nat \<Rightarrow> nat \<Rightarrow> (mem \<times> nat) list cres" where
  "arg_list argv argvlen j 0 = Ok []"
| "arg_list argv argvlen j (Suc n) =
     cbind (arg_len argv argvlen j) (\<lambda>len.
       if j < length argv then cbind (arg_list argv argvlen (Suc j) n) (\<lambda>args. Ok ((argv ! j, len) # args))
       else Fault OutOfBounds)"

definition add_lens :: "(int \<Rightarrow> int) \<Rightarrow> int \<Rightarrow> nat list \<Rightarrow> int" where
  "add_lens conv totlen lens = fold (\<lambda>len t. conv (t + int (bulklen len))) lens totlen"

definition redisFormatCommandArgv :: "env \<Rightarrow> bool \<Rightarrow> int \<Rightarrow> mem list \<Rightarrow> nat list option \<Rightarrow> (int \<times> mem option) cres" where
  "redisFormatCommandArgv e target argc argv argvlen =
     (if \<not> target then Ok (- 1, None)
      else
        cbind (arg_list argv argvlen 0 (nat argc)) (\<lambda>args.
        let totlen = add_lens to_i32 (to_i32 (1 + int (countDigits (to_size argc)) + 2)) (map snd args) in
        case emit_command e totlen argc args of
          Null \<Rightarrow> Ok (- 1, None)
        | Ok cmd \<Rightarrow> Ok (totlen, Some cmd)
        | Fault f \<Rightarrow> Fault f))"

fun sds_args :: "(nat \<Rightarrow> nat \<Rightarrow> env) \<Rightarrow> nat \<Rightarrow> sdshdr \<Rightarrow> (mem \<times> nat) list \<Rightarrow> sdshdr cres" where
  "sds_args es j cmd [] = Ok cmd"
| "sds_args es j cmd ((arg, len) # args) =
     cderef (sdscatfmt (\<lambda>i. es j (i + 2)) cmd (''$%T'' @ [CR, LF]) [FSizeT len]) (\<lambda>cmd.
     cderef (sdscatlen (es j 0) cmd arg len) (\<lambda>cmd.
     cderef (sdscatlen (es j 1) cmd (cstr [CR, LF]) 2) (\<lambda>cmd.
     sds_args es (Suc j) cmd args)))"

definition redisFormatSdsCommandArgv :: "env \<Rightarrow> env \<Rightarrow> (nat \<Rightarrow> nat \<Rightarrow> env) \<Rightarrow> bool \<Rightarrow> int \<Rightarrow> mem list \<Rightarrow> nat list option \<Rightarrow>
    (int \<times> sdshdr option) cres" where
  "redisFormatSdsCommandArgv e0 e1 es target argc argv argvlen =
     (if \<not> target then Ok (- 1, None)
      else
        cbind (arg_list argv argvlen 0 (nat argc)) (\<lambda>args.
        let totlen = add_lens (\<lambda>x. int (to_size x)) (1 + int (countDigits (to_size argc)) + 2) (map snd args) in
        case sdsempty e0 of
          Fault f \<Rightarrow> Fault f
        | Null \<Rightarrow> Ok (- 1, None)
        | Ok cmd \<Rightarrow>
            (case sdsMakeRoomFor e1 cmd (nat totlen) of
               Fault f \<Rightarrow> Fault f
             | Null \<Rightarrow> Ok (- 1, None)
             | Ok cmd \<Rightarrow>
                 cderef (sdscatfmt (es 0) cmd (''*%i'' @ [CR, LF]) [FInt argc]) (\<lambda>cmd.
                 cderef (sds_args es 1 cmd args) (\<lambda>cmd.
                 if int (sdslen cmd) \<noteq> totlen then Fault AssertFailed
                 else Ok (to_i32 totlen, Some cmd))))))"


section \<open>Commands from a format\<close>

datatype 'd vararg = VStr mem | VSize nat | VInt int | VLong int | VLongLong int | VDouble 'd

subsection \<open>The integer conversions of printf\<close>

fun base_digits :: "nat \<Rightarrow> bool \<Rightarrow> nat \<Rightarrow> string" where
  "base_digits b upper n =
     (let dg = (\<lambda>d. if d < 10 then char_of (48 + d) else char_of ((if upper then 55 else 87) + d)) in
      if n < b \<or> b \<le> 1 then [dg n] else base_digits b upper (n div b) @ [dg (n mod b)])"

declare base_digits.simps [simp del]

definition print_int :: "string \<Rightarrow> nat \<Rightarrow> nat option \<Rightarrow> char \<Rightarrow> nat \<Rightarrow> int \<Rightarrow> string" where
  "print_int flags width prec conv bits v =
     (let signed = (conv = CHR ''d'' \<or> conv = CHR ''i'');
          val = (if signed then (v + 2 ^ (bits - 1)) mod 2 ^ bits - 2 ^ (bits - 1) else v mod 2 ^ bits);
          mag = nat \<bar>val\<bar>;
          digs = (if conv = CHR ''o'' then base_digits 8 False mag
                  else if conv = CHR ''x'' then base_digits 16 False mag
                  else if conv = CHR ''X'' then base_digits 16 True mag
                  else dec_nat mag);
          ds0 = (if prec = Some 0 \<and> mag = 0 then [] else digs);
          ds1 = (case prec of None \<Rightarrow> ds0 | Some p \<Rightarrow> replicate (p - length ds0) (CHR ''0'') @ ds0);
          ds = (if CHR ''#'' \<in> set flags \<and> conv = CHR ''o'' \<and> (ds1 = [] \<or> hd ds1 \<noteq> CHR ''0'') then CHR ''0'' # ds1 else ds1);
          pre = (if CHR ''#'' \<in> set flags \<and> mag \<noteq> 0 \<and> (conv = CHR ''x'' \<or> conv = CHR ''X'') then [CHR ''0'', conv] else []);
          sign = (if \<not> signed then [] else if val < 0 then ''-'' else if CHR ''+'' \<in> set flags then ''+''
                  else if CHR '' '' \<in> set flags then '' '' else []);
          pad = width - length (sign @ pre @ ds)
      in if CHR ''-'' \<in> set flags then sign @ pre @ ds @ replicate pad (CHR '' '')
         else if CHR ''0'' \<in> set flags \<and> prec = None then sign @ pre @ replicate pad (CHR ''0'') @ ds
         else replicate pad (CHR '' '') @ sign @ pre @ ds)"

definition digits_value :: "string \<Rightarrow> nat" where
  "digits_value ds = fold (\<lambda>c n. n * 10 + (of_char c - 48)) ds 0"

subsection \<open>The conversion specification\<close>

definition flag_chars :: string where "flag_chars = ''#0-+ ''"

definition intfmts :: string where "intfmts = ''diouxX''"

definition dblfmts :: string where "dblfmts = ''eEfFgGaA''"

text \<open>The specification after the percent sign: flags, width, precision, and what follows.\<close>

definition split_spec :: "string \<Rightarrow> string \<times> string \<times> string option \<times> string" where
  "split_spec p =
     (let fl = takeWhile (\<lambda>c. c \<in> set flag_chars) p; p1 = dropWhile (\<lambda>c. c \<in> set flag_chars) p;
          w = takeWhile c_isdigit p1; p2 = dropWhile c_isdigit p1
      in case p2 of
           c # p3 \<Rightarrow> if c = CHR ''.'' then (fl, w, Some (takeWhile c_isdigit p3), dropWhile c_isdigit p3) else (fl, w, None, p2)
         | [] \<Rightarrow> (fl, w, None, p2))"

datatype conv_kind = KInt nat | KDouble | KLong | KLongLong

text \<open>
  The size modifier and the conversion character. The search for an integer conversion without
  a modifier also finds the end of the format, as \<^verbatim>\<open>strchr\<close> finds the terminator.
\<close>

definition conv_of :: "string \<Rightarrow> (conv_kind \<times> string) option" where
  "conv_of p =
     (let c = (case p of [] \<Rightarrow> NUL | c # _ \<Rightarrow> c);
          after = (\<lambda>k n. let q = drop n p in if q \<noteq> [] \<and> c_strchr intfmts (hd q) then Some (k, q) else None)
      in if c_strchr intfmts c then Some (KInt 32, p)
         else if c_strchr dblfmts c then Some (KDouble, p)
         else if take 2 p = ''hh'' then after (KInt 8) 2
         else if c = CHR ''h'' then after (KInt 16) 1
         else if take 2 p = ''ll'' then after KLongLong 2
         else if c = CHR ''l'' then after KLong 1
         else None)"

text \<open>The text \<^verbatim>\<open>vsnprintf\<close> produces for one specification and the arguments left.\<close>

definition conv_text :: "(string \<Rightarrow> 'd \<Rightarrow> string) \<Rightarrow> string \<Rightarrow> conv_kind \<Rightarrow> char \<Rightarrow> 'd vararg list \<Rightarrow> (string \<times> 'd vararg list) cres" where
  "conv_text dbl spec kind conv ap =
     (case split_spec spec of (fl, w, prec, _) \<Rightarrow>
      let pr = (\<lambda>bits v. print_int fl (digits_value w) (map_option digits_value prec) conv bits v) in
      case (kind, ap) of
        (KInt bits, VInt v # ap') \<Rightarrow> Ok (pr bits v, ap')
      | (KLong, VLong v # ap') \<Rightarrow> Ok (pr 32 v, ap')
      | (KLongLong, VLongLong v # ap') \<Rightarrow> Ok (pr 64 v, ap')
      | (KDouble, VDouble v # ap') \<Rightarrow> Ok (dbl (spec @ [conv]) v, ap')
      | _ \<Rightarrow> Fault BadVarArg)"

subsection \<open>The loop over the format\<close>

text \<open>
  One percent directive: \<open>c\<close> is the format after the percent sign, which is not at the end.
  The result is an error code, or the new argument, the arguments left and the format left.
\<close>

definition keep :: "sdshdr cres \<Rightarrow> 'd vararg list \<Rightarrow> string \<Rightarrow> (int + sdshdr \<times> 'd vararg list \<times> string) cres" where
  "keep m ap c = (case m of Fault f \<Rightarrow> Fault f | Null \<Rightarrow> Ok (Inl (- 1)) | Ok s \<Rightarrow> Ok (Inr (s, ap, c)))"

definition directive :: "(string \<Rightarrow> 'd \<Rightarrow> string) \<Rightarrow> (nat \<Rightarrow> env) \<Rightarrow> string \<Rightarrow> 'd vararg list \<Rightarrow> sdshdr \<Rightarrow>
    (int + sdshdr \<times> 'd vararg list \<times> string) cres" where
  "directive dbl es c ap curarg =
     (if hd c = CHR ''s'' then
        (case ap of
           VStr arg # ap' \<Rightarrow> cbind (c_strlen arg) (\<lambda>sz. keep (if sz > 0 then sdscatlen (es 0) curarg arg sz else Ok curarg) ap' (tl c))
         | _ \<Rightarrow> Fault BadVarArg)
      else if hd c = CHR ''b'' then
        (case ap of
           VStr arg # VSize sz # ap' \<Rightarrow> keep (if sz > 0 then sdscatlen (es 0) curarg arg sz else Ok curarg) ap' (tl c)
         | _ \<Rightarrow> Fault BadVarArg)
      else if hd c = CHR ''%'' then keep (sdscat (es 0) curarg (cstr ''%'')) ap (tl c)
      else
        (case split_spec c of (fl, w, prec, p) \<Rightarrow>
          (case conv_of p of
             None \<Rightarrow> Ok (Inl (- 2))
           | Some (kind, q) \<Rightarrow>
               let l = Suc (length c - length q) + 1 in
               if l < 14 then
                 (case q of
                    [] \<Rightarrow> Fault OutOfBounds
                  | conv # rest \<Rightarrow> cbind (conv_text dbl (take (length c - length q) c) kind conv ap) (\<lambda>(txt, ap').
                      keep (sdscatvprintf (\<lambda>i. es (Suc i)) (es 0) curarg txt) ap' rest))
               else cbind (conv_text dbl c kind (if q = [] then NUL else hd q) ap) (\<lambda>(_, ap'). keep (Ok curarg) ap' (tl c)))))"

lemma split_spec_len:
  assumes "split_spec c = (fl, w, prec, p)"
  shows "length p \<le> length c"
proof -
  let ?p1 = "dropWhile (\<lambda>x. x \<in> set flag_chars) c" let ?p2 = "dropWhile c_isdigit ?p1"
  have 2: "length ?p2 \<le> length c" using length_dropWhile_le order_trans by blast
  show ?thesis
  proof (cases ?p2)
    case Nil
    then show ?thesis using assms unfolding split_spec_def Let_def by (simp del: dropWhile_eq_Nil_conv)
  next
    case (Cons x p3)
    then have "p = ?p2 \<or> p = dropWhile c_isdigit p3" using assms by (auto simp: split_spec_def Let_def split: if_splits)
    moreover have "length (dropWhile c_isdigit p3) \<le> length p3" by (rule length_dropWhile_le)
    ultimately show ?thesis using 2 Cons by auto
  qed
qed

lemma conv_of_len: "conv_of p = Some (kind, q) \<Longrightarrow> length q \<le> length p"
  by (auto simp: conv_of_def Let_def split: if_splits)

lemma keep_rest: "keep m ap c = Ok (Inr (s, ap', c')) \<Longrightarrow> c' = c \<and> ap' = ap \<and> m = Ok s"
  by (auto simp: keep_def split: cres.splits)

lemma directive_rest:
  assumes "directive dbl es c ap cur = Ok (Inr (s, ap', c'))" "c \<noteq> []"
  shows "length c' < length c"
proof -
  have tl: "length (tl c) < length c" using assms(2) by (cases c) auto
  obtain fl w prec p where sp: "split_spec c = (fl, w, prec, p)" by (metis prod_cases4)
  have q: "length q \<le> length c" if "conv_of p = Some (k, q)" for k q using conv_of_len [OF that] split_spec_len [OF sp] by simp
  show ?thesis using assms(1) tl q sp
    by (auto simp: directive_def Let_def split: if_splits list.splits vararg.splits option.splits dest!: keep_rest)
qed

function vformat :: "(string \<Rightarrow> 'd \<Rightarrow> string) \<Rightarrow> (nat \<Rightarrow> nat \<Rightarrow> env) \<Rightarrow> nat \<Rightarrow> string \<Rightarrow> 'd vararg list \<Rightarrow>
    sdshdr \<Rightarrow> bool \<Rightarrow> sdshdr list \<Rightarrow> int \<Rightarrow> (int + sdshdr \<times> bool \<times> sdshdr list \<times> int) cres" where
  "vformat dbl es k c ap curarg touched curargv totlen =
     (case c of
        [] \<Rightarrow> Ok (Inr (curarg, touched, curargv, totlen))
      | x # c1 \<Rightarrow>
          if x \<noteq> CHR ''%'' \<or> c1 = [] then
            if x = CHR '' '' then
              if touched then
                if \<not> can_alloc (es k 0) (8 * Suc (length curargv)) then Ok (Inl (- 1))
                else (case sdsempty (es k 1) of
                        Fault f \<Rightarrow> Fault f
                      | Null \<Rightarrow> Ok (Inl (- 1))
                      | Ok s \<Rightarrow> vformat dbl es (Suc k) c1 ap s False (curargv @ [curarg])
                                  (to_i32 (totlen + int (bulklen (sdslen curarg)))))
              else vformat dbl es (Suc k) c1 ap curarg touched curargv totlen
            else (case sdscatlen (es k 0) curarg c 1 of
                    Fault f \<Rightarrow> Fault f
                  | Null \<Rightarrow> Ok (Inl (- 1))
                  | Ok s \<Rightarrow> vformat dbl es (Suc k) c1 ap s True curargv totlen)
          else cbind (directive dbl (es k) c1 ap curarg) (\<lambda>res.
                 case res of
                   Inl err \<Rightarrow> Ok (Inl err)
                 | Inr (s, ap', c2) \<Rightarrow> vformat dbl es (Suc k) c2 ap' s True curargv totlen))"
  by pat_completeness auto
termination
  by (relation "measure (\<lambda>(dbl, es, k, c, _). length c)") (auto dest: directive_rest)

declare vformat.simps [simp del]

definition redisvFormatCommand :: "(string \<Rightarrow> 'd \<Rightarrow> string) \<Rightarrow> env \<Rightarrow> env \<Rightarrow> env \<Rightarrow> (nat \<Rightarrow> nat \<Rightarrow> env) \<Rightarrow> bool \<Rightarrow> string \<Rightarrow>
    'd vararg list \<Rightarrow> (int \<times> mem option) cres" where
  "redisvFormatCommand dbl e0 e1 e2 es target format ap =
     (if \<not> target then Ok (- 1, None)
      else case sdsempty e0 of
        Fault f \<Rightarrow> Fault f
      | Null \<Rightarrow> Ok (- 1, None)
      | Ok curarg \<Rightarrow>
          cbind (vformat dbl es 0 format ap curarg False [] 0) (\<lambda>res.
            case res of
              Inl err \<Rightarrow> Ok (err, None)
            | Inr (curarg, touched, curargv, totlen) \<Rightarrow>
                if touched \<and> \<not> can_alloc e1 (8 * Suc (length curargv)) then Ok (- 1, None)
                else
                  let curargv = (if touched then curargv @ [curarg] else curargv);
                      totlen = (if touched then to_i32 (totlen + int (bulklen (sdslen curarg))) else totlen);
                      argc = int (length curargv);
                      totlen = to_i32 (totlen + (1 + int (countDigits (to_size argc)) + 2))
                  in case emit_command e2 totlen argc (map (\<lambda>s. (sh_buf s, sdslen s)) curargv) of
                       Fault f \<Rightarrow> Fault f
                     | Null \<Rightarrow> Ok (- 1, None)
                     | Ok cmd \<Rightarrow> Ok (totlen, Some cmd)))"

definition redisFormatCommand :: "(string \<Rightarrow> 'd \<Rightarrow> string) \<Rightarrow> env \<Rightarrow> env \<Rightarrow> env \<Rightarrow> (nat \<Rightarrow> nat \<Rightarrow> env) \<Rightarrow> bool \<Rightarrow> string \<Rightarrow>
    'd vararg list \<Rightarrow> (int \<times> mem option) cres" where
  "redisFormatCommand dbl e0 e1 e2 es target format ap =
     cbind (redisvFormatCommand dbl e0 e1 e2 es target format ap) (\<lambda>(len, cmd).
       Ok (if len < 0 then - 1 else len, cmd))"


section \<open>The lengths are those of the text\<close>

lemma length_dec_nat_step: "10 \<le> v \<Longrightarrow> length (dec_nat v) = Suc (length (dec_nat (v div 10)))"
  by (subst dec_nat.simps) simp

lemma length_dec_nat_small: "v < 10 \<Longrightarrow> length (dec_nat v) = 1"
  by (subst dec_nat.simps) simp

lemma countDigits_loop_spec: "countDigits_loop v r + 1 = length (dec_nat v) + r"
proof (induction v r rule: countDigits_loop.induct)
  case (1 v r)
  consider "v < 10" | "10 \<le> v" "v < 100" | "100 \<le> v" "v < 1000" | "1000 \<le> v" "v < 10000" | "10000 \<le> v" by linarith
  then show ?case
  proof cases
    case 5
    have "length (dec_nat v) = 4 + length (dec_nat (v div 10 div 10 div 10 div 10))"
      using 5 by (simp add: length_dec_nat_step)
    also have "v div 10 div 10 div 10 div 10 = v div 10000" by (simp add: div_mult2_eq [symmetric])
    finally show ?thesis using 5 1 by (subst countDigits_loop.simps) simp
  qed (subst countDigits_loop.simps, simp add: length_dec_nat_step length_dec_nat_small)+
qed

lemma countDigits_spec: "countDigits v = length (dec_nat v)"
  using countDigits_loop_spec [of v 1] by (simp add: countDigits_def)

definition bulk_text :: "string \<Rightarrow> string" where
  "bulk_text s = CHR ''$'' # dec_nat (length s) @ crlf @ s @ crlf"

definition command_text :: "string list \<Rightarrow> string" where
  "command_text ss = CHR ''*'' # dec_nat (length ss) @ crlf @ concat (map bulk_text ss)"

lemma command_text_encode: "command_text ss = encode (Multi (map Bulk ss))"
proof -
  have "bulk_text = encode \<circ> Bulk" by (rule ext) (simp add: bulk_text_def)
  then have "concat (map bulk_text ss) = concat (map encode (map Bulk ss))" by (simp only: map_map)
  then show ?thesis by (simp add: command_text_def del: map_map)
qed

lemma bulklen_spec: "length s \<le> 4294967296 \<Longrightarrow> length (dec_nat (length s)) \<le> 20 \<Longrightarrow> bulklen (length s) = length (bulk_text s)"
  by (simp add: bulklen_def countDigits_spec bulk_text_def crlf_def nat_add_distrib to_size_def)

lemma dec_nat_len20: "n < 18446744073709551616 \<Longrightarrow> length (dec_nat n) \<le> 20"
  using length_ll2str_digits [of n 20] by (simp add: length_dec_nat)

lemma length_bulk_text: "length s < length (bulk_text s)"
  by (simp add: bulk_text_def)

lemma add_lens_spec:
  assumes "\<And>x. 0 \<le> x \<Longrightarrow> x \<le> 2147483647 \<Longrightarrow> conv x = x"
  shows "0 \<le> t \<Longrightarrow> t + int (length (concat (map bulk_text ss))) \<le> 2147483647 \<Longrightarrow>
    add_lens conv t (map length ss) = t + int (length (concat (map bulk_text ss)))"
proof (induction ss arbitrary: t)
  case Nil
  then show ?case by (simp add: add_lens_def)
next
  case (Cons s ss)
  have "int (length s) < int (length (bulk_text s))" using length_bulk_text [of s] by simp
  moreover have "int (length (bulk_text s)) \<le> 2147483647" using Cons.prems by simp
  ultimately have "length s \<le> 4294967296" "length s < 18446744073709551616" by auto
  then have b: "bulklen (length s) = length (bulk_text s)" using dec_nat_len20 bulklen_spec by blast
  have "conv (t + int (length (bulk_text s))) = t + int (length (bulk_text s))" using assms Cons.prems by auto
  then show ?case using Cons.IH [of "t + int (length (bulk_text s))"] Cons.prems by (simp add: add_lens_def b)
qed

section \<open>The emitted bytes\<close>

lemma write_at_end:
  assumes "length d \<le> length free"
  shows "mem_write (m @ free) (int (length m)) d = Ok ((m @ d) @ drop (length d) free)"
  using assms by (auto simp: mem_write_def)

lemma sprintf_at_spec:
  assumes "length txt < length free" "length m + length txt \<le> 2147483647"
  shows "sprintf_at (m @ free) (int (length m)) txt = Ok ((m @ txt) @ NUL # drop (Suc (length txt)) free, int (length (m @ txt)))"
  using write_at_end [of "txt @ [NUL]" free m] assms by (simp add: sprintf_at_def)

lemma emit_args_spec:
  "\<forall>(a, n) \<in> set args. n \<le> length a \<Longrightarrow>
   length (concat (map (\<lambda>(a, n). bulk_text (take n a)) args)) < length free \<Longrightarrow>
   length m + length (concat (map (\<lambda>(a, n). bulk_text (take n a)) args)) \<le> 2147483647 \<Longrightarrow>
   \<exists>free'. emit_args (m @ free) (int (length m)) args =
     Ok ((m @ concat (map (\<lambda>(a, n). bulk_text (take n a)) args)) @ free',
         int (length m + length (concat (map (\<lambda>(a, n). bulk_text (take n a)) args)))) \<and>
     length free' = length free - length (concat (map (\<lambda>(a, n). bulk_text (take n a)) args))"
proof (induction args arbitrary: m free)
  case (Cons x args)
  obtain a n where x: "x = (a, n)" by (cases x)
  have n: "n \<le> length a" using Cons.prems(1) x by auto
  let ?hd = "CHR ''$'' # dec_nat n @ [CR, LF]" and ?d = "take n a" and ?rest = "concat (map (\<lambda>(a, n). bulk_text (take n a)) args)"
  have bt: "bulk_text ?d = ?hd @ ?d @ [CR] @ [LF]" using n by (simp add: bulk_text_def crlf_def min_absorb2)
  have len: "length (bulk_text ?d) + length ?rest < length free" "length m + length (bulk_text ?d) + length ?rest \<le> 2147483647"
    using Cons.prems(2,3) x by auto
  define f1 where "f1 = NUL # drop (Suc (length ?hd)) free"
  have l1: "length f1 = length free - length ?hd" using len(1) bt by (auto simp: f1_def)
  have s1: "sprintf_at (m @ free) (int (length m)) ?hd = Ok ((m @ ?hd) @ f1, int (length (m @ ?hd)))"
    unfolding f1_def by (rule sprintf_at_spec) (use len bt in auto)
  have s2: "mem_slice a 0 n = Ok ?d" using n by (simp add: mem_slice_def)
  have s3: "mem_write ((m @ ?hd) @ f1) (int (length (m @ ?hd))) ?d = Ok (((m @ ?hd) @ ?d) @ drop n f1)"
    using write_at_end [of ?d f1 "m @ ?hd"] l1 len bt n by (auto simp: min_absorb2)
  have p3: "to_i32 (int (length (m @ ?hd)) + int n) = int (length ((m @ ?hd) @ ?d))"
  proof -
    have "length (m @ ?hd) + n \<le> 2147483647" using len(2) bt n by (simp add: min_absorb2)
    then show ?thesis using n by (simp add: to_i32_id min_absorb2)
  qed
  have s4: "mem_write (((m @ ?hd) @ ?d) @ drop n f1) (int (length ((m @ ?hd) @ ?d))) [CR]
      = Ok ((((m @ ?hd) @ ?d) @ [CR]) @ drop 1 (drop n f1))"
    using write_at_end [of "[CR]" "drop n f1" "(m @ ?hd) @ ?d"] l1 len bt n by (auto simp: min_absorb2)
  have p4: "to_i32 (int (length ((m @ ?hd) @ ?d)) + 1) = int (length (((m @ ?hd) @ ?d) @ [CR]))" using len bt by auto
  have s5: "mem_write ((((m @ ?hd) @ ?d) @ [CR]) @ drop 1 (drop n f1)) (int (length (((m @ ?hd) @ ?d) @ [CR]))) [LF]
      = Ok (((((m @ ?hd) @ ?d) @ [CR]) @ [LF]) @ drop 1 (drop 1 (drop n f1)))"
    using write_at_end [of "[LF]" "drop 1 (drop n f1)" "((m @ ?hd) @ ?d) @ [CR]"] l1 len bt n by (auto simp: min_absorb2)
  have p5: "to_i32 (int (length (((m @ ?hd) @ ?d) @ [CR])) + 1) = int (length ((((m @ ?hd) @ ?d) @ [CR]) @ [LF]))" using len bt by auto
  have step: "emit_args (m @ free) (int (length m)) (x # args) =
      emit_args (((((m @ ?hd) @ ?d) @ [CR]) @ [LF]) @ drop 1 (drop 1 (drop n f1))) (int (length ((((m @ ?hd) @ ?d) @ [CR]) @ [LF]))) args"
    unfolding x emit_args.simps s1 cbind.simps prod.case s2 s3 Let_def p3 s4 p4 s5 p5 ..
  have "\<exists>free'. emit_args ((m @ bulk_text ?d) @ drop 1 (drop 1 (drop n f1))) (int (length (m @ bulk_text ?d))) args =
      Ok (((m @ bulk_text ?d) @ ?rest) @ free', int (length (m @ bulk_text ?d) + length ?rest)) \<and>
      length free' = length (drop 1 (drop 1 (drop n f1))) - length ?rest"
    by (rule Cons.IH) (use Cons.prems(1) len l1 bt n in \<open>auto simp: min_absorb2\<close>)
  moreover have "length (drop 1 (drop 1 (drop n f1))) = length free - length (bulk_text ?d)"
    using l1 bt n by (simp add: min_absorb2)
  ultimately show ?case unfolding step using bt x by (auto simp: ac_simps)
qed simp

lemma dec_int_nat [simp]: "dec_int (int n) = dec_nat n"
  by (simp add: dec_int_def)

abbreviation arg_bytes :: "mem \<times> nat \<Rightarrow> string" where
  "arg_bytes \<equiv> (\<lambda>(a, n). take n a)"

lemma emit_command_spec:
  assumes "\<forall>(a, n) \<in> set args. n \<le> length a" "length (command_text (map arg_bytes args)) < 2147483647"
  shows "emit_command e (int (length (command_text (map arg_bytes args)))) (int (length args)) args =
     (if can_alloc e (Suc (length (command_text (map arg_bytes args)))) then Ok (command_text (map arg_bytes args) @ [NUL]) else Null)"
proof -
  define body where "body = concat (map (\<lambda>(a, n). bulk_text (take n a)) args)"
  let ?hd = "CHR ''*'' # dec_nat (length args) @ [CR, LF]" and ?cmd = "command_text (map arg_bytes args)"
  have b: "concat (map bulk_text (map arg_bytes args)) = body"
    unfolding body_def by (simp add: comp_def case_prod_unfold)
  have cmd: "?cmd = ?hd @ body" unfolding command_text_def b by (simp add: crlf_def)
  have size: "to_size (to_i32 (int (length ?cmd) + 1)) = Suc (length ?cmd)"
    using assms(2) by (simp add: to_size_def nat_add_distrib)
  let ?m = "fresh e (Suc (length ?cmd))"
  have s1: "sprintf_at ?m 0 ?hd = Ok (?hd @ NUL # drop (Suc (length ?hd)) ?m, int (length ?hd))"
    using sprintf_at_spec [of ?hd ?m "[]"] assms(2) cmd by simp
  obtain free' where s2: "emit_args (?hd @ NUL # drop (Suc (length ?hd)) ?m) (int (length ?hd)) args =
      Ok ((?hd @ body) @ free', int (length ?hd + length body))" "length free' = 1"
    using emit_args_spec [of args "NUL # drop (Suc (length ?hd)) ?m" ?hd] assms cmd by (auto simp: body_def [symmetric])
  have s3: "mem_write (?cmd @ free') (int (length ?cmd)) [NUL] = Ok (?cmd @ [NUL])"
    using write_at_end [of "[NUL]" free' ?cmd] s2(2) by simp
  have len: "length ?hd + length body = length ?cmd" using cmd by simp
  show ?thesis
    unfolding emit_command_def Let_def size dec_int_nat
    by (cases "can_alloc e (Suc (length ?cmd))") (simp_all only: s1 cbind.simps prod.case s2(1) len cmd [symmetric] s3 if_True if_False not_True_eq_False not_False_eq_True refl)
qed

section \<open>Commands from an argument vector are the encoding of the arguments\<close>

text \<open>The text of one argument, and when it may be read.\<close>

definition arg_text :: "mem list \<Rightarrow> nat list option \<Rightarrow> nat \<Rightarrow> string" where
  "arg_text argv argvlen j =
     (case argvlen of None \<Rightarrow> takeWhile (\<lambda>c. c \<noteq> NUL) (argv ! j) | Some ls \<Rightarrow> take (ls ! j) (argv ! j))"

definition arg_valid :: "mem list \<Rightarrow> nat list option \<Rightarrow> nat \<Rightarrow> bool" where
  "arg_valid argv argvlen j \<longleftrightarrow> j < length argv \<and>
     (case argvlen of None \<Rightarrow> NUL \<in> set (argv ! j) | Some ls \<Rightarrow> j < length ls \<and> ls ! j \<le> length (argv ! j))"

definition args_text :: "mem list \<Rightarrow> nat list option \<Rightarrow> nat \<Rightarrow> string list" where
  "args_text argv argvlen n = map (arg_text argv argvlen) [0..<n]"

lemma takeWhile_take: "take (length (takeWhile P xs)) xs = takeWhile P xs"
  by (metis takeWhile_eq_take)

lemma arg_list_spec:
  "\<forall>i \<in> {j..<j + n}. arg_valid argv argvlen i \<Longrightarrow>
   \<exists>args. arg_list argv argvlen j n = Ok args \<and> length args = n \<and>
     map arg_bytes args = map (arg_text argv argvlen) [j..<j + n] \<and> (\<forall>(a, k) \<in> set args. k \<le> length a)"
proof (induction n arbitrary: j)
  case (Suc n)
  have v: "arg_valid argv argvlen j" using Suc.prems by simp
  have "\<forall>i \<in> {Suc j..<Suc j + n}. arg_valid argv argvlen i" using Suc.prems by simp
  from Suc.IH [OF this] obtain args where a: "arg_list argv argvlen (Suc j) n = Ok args" "length args = n"
    "map arg_bytes args = map (arg_text argv argvlen) [Suc j..<Suc j + n]" "\<forall>(a, k) \<in> set args. k \<le> length a" by blast
  have up: "[j..<j + Suc n] = j # [Suc j..<Suc j + n]" by (simp add: upt_conv_Cons)
  obtain len where l: "arg_len argv argvlen j = Ok len" "take len (argv ! j) = arg_text argv argvlen j" "len \<le> length (argv ! j)"
    using v length_takeWhile_le [of "\<lambda>c. c \<noteq> NUL" "argv ! j"]
    by (auto simp: arg_valid_def arg_len_def arg_text_def c_strlen_def takeWhile_take split: option.splits)
  show ?case unfolding up using v a l by (simp add: arg_valid_def del: upt_Suc)
qed simp

lemma head_len: "int (length (command_text ss)) = 1 + int (length (dec_nat (length ss))) + 2 + int (length (concat (map bulk_text ss)))"
  by (simp add: command_text_def crlf_def)

lemma length_args_text [simp]: "length (args_text argv argvlen n) = n"
  by (simp add: args_text_def)

lemma arg_lens: "\<forall>(a, k) \<in> set args. k \<le> length a \<Longrightarrow> map snd args = map length (map arg_bytes args)"
  by (auto simp: min_absorb2)

lemma to_size_nat: "n < 18446744073709551616 \<Longrightarrow> to_size (int n) = n"
  by (simp add: to_size_def)

lemma length_command_ge: "length ss < length (command_text ss)"
proof -
  have "length ss \<le> length (concat (map bulk_text ss))"
    by (induction ss) (auto simp: bulk_text_def)
  then show ?thesis by (simp add: command_text_def)
qed

lemma redisFormatCommandArgv_spec:
  assumes "\<forall>j < n. arg_valid argv argvlen j" "length (command_text (args_text argv argvlen n)) < 2147483647"
  shows "redisFormatCommandArgv e True (int n) argv argvlen =
     (let cmd = command_text (args_text argv argvlen n) in
      if can_alloc e (Suc (length cmd)) then Ok (int (length cmd), Some (cmd @ [NUL])) else Ok (- 1, None))"
proof -
  obtain args where a: "arg_list argv argvlen 0 n = Ok args" "length args = n"
    "map arg_bytes args = args_text argv argvlen n" "\<forall>(a, k) \<in> set args. k \<le> length a"
    using arg_list_spec [of 0 n argv argvlen] assms(1) by (auto simp: args_text_def)
  let ?ss = "args_text argv argvlen n"
  have len: "1 + int (length (dec_nat n)) + 2 + int (length (concat (map bulk_text ?ss))) < 2147483647"
    using head_len [of ?ss] assms(2) by simp
  have "n < 2147483647" using length_command_ge [of ?ss] assms(2) by simp
  then have n: "countDigits (to_size (int n)) = length (dec_nat n)" by (simp add: to_size_nat countDigits_spec)
  have "add_lens to_i32 (to_i32 (1 + int (length (dec_nat n)) + 2)) (map length ?ss) = int (length (command_text ?ss))"
    using add_lens_spec [of to_i32 "1 + int (length (dec_nat n)) + 2" ?ss] len head_len [of ?ss] by simp
  then have tot: "add_lens to_i32 (to_i32 (1 + int (countDigits (to_size (int n))) + 2)) (map snd args) = int (length (command_text ?ss))"
    unfolding n arg_lens [OF a(4)] a(3) .
  have em: "emit_command e (int (length (command_text ?ss))) (int n) args =
     (if can_alloc e (Suc (length (command_text ?ss))) then Ok (command_text ?ss @ [NUL]) else Null)"
    using emit_command_spec [of args e] a assms(2) by simp
  show ?thesis unfolding redisFormatCommandArgv_def nat_int a(1) cbind.simps tot Let_def em by simp
qed

lemma fmt_expand_bulk:
  assumes "n < 18446744073709551616"
  shows "fmt_expand (''$%T'' @ [CR, LF]) [FSizeT n] = Some (CHR ''$'' # dec_nat n @ [CR, LF])"
  using assms by (simp add: fmt_item.simps)

lemma fmt_expand_multi:
  assumes "n \<le> 2147483647"
  shows "fmt_expand (''*%i'' @ [CR, LF]) [FInt (int n)] = Some (CHR ''*'' # dec_nat n @ [CR, LF])"
  using assms by (simp add: fmt_item.simps)

lemma sds_args_spec:
  assumes al: "\<And>j i. alloc_ok (es j i)"
  shows "sds_wf s \<Longrightarrow> \<forall>(a, k) \<in> set args. k \<le> length a \<Longrightarrow>
     sds_fits (length (sds_content s) + length (concat (map bulk_text (map arg_bytes args)))) \<Longrightarrow>
     \<exists>s'. sds_args es j s args = Ok s' \<and> sds_wf s' \<and> sds_content s' = sds_content s @ concat (map bulk_text (map arg_bytes args))"
proof (induction args arbitrary: s j)
  case (Cons x args)
  obtain a n where x: "x = (a, n)" by (cases x)
  have n: "n \<le> length a" using Cons.prems(2) x by auto
  let ?hd = "CHR ''$'' # dec_nat n @ [CR, LF]" and ?rest = "concat (map bulk_text (map arg_bytes args))"
  have bt: "bulk_text (take n a) = ?hd @ take n a @ [CR, LF]" using n by (simp add: bulk_text_def crlf_def min_absorb2)
  have tot: "length (sds_content s) + length (bulk_text (take n a)) + length ?rest + SDS_MAX_PREALLOC \<le> 2147483647"
    using Cons.prems(3) x by (simp add: sds_fits_def)
  have nb: "n < 18446744073709551616" using tot bt n by (simp add: min_absorb2)
  have f1: "sds_fits (sdslen s + length ?hd + 1)" using tot bt Cons.prems(1) n by (simp add: sds_fits_def sdslen_content min_absorb2)
  obtain s1 where s1: "sdscatfmt (\<lambda>i. es j (i + 2)) s (''$%T'' @ [CR, LF]) [FSizeT n] = Ok s1" "sds_wf s1"
    "sds_content s1 = sds_content s @ ?hd"
    using sdscatfmt_spec [OF Cons.prems(1) fmt_expand_bulk [OF nb] f1, of "\<lambda>i. es j (i + 2)"] al by blast
  have f2: "sds_fits (sdslen s1 + n)" using tot bt s1 n by (simp add: sds_fits_def sdslen_content min_absorb2)
  obtain s2 where s2: "sdscatlen (es j 0) s1 a n = Ok s2" "sds_wf s2" "sds_content s2 = sds_content s1 @ take n a"
    using returns_ex [OF sdscatlen_spec [OF s1(2) n f2, of "es j 0"]] al by auto
  have f3: "sds_fits (sdslen s2 + 2)" using tot bt s1 s2 n by (simp add: sds_fits_def sdslen_content min_absorb2)
  obtain s3 where s3: "sdscatlen (es j 1) s2 (cstr [CR, LF]) 2 = Ok s3" "sds_wf s3" "sds_content s3 = sds_content s2 @ [CR, LF]"
    using returns_ex [OF sdscatlen_spec [OF s2(2) _ f3, of "cstr [CR, LF]" "es j 1"]] al by (auto simp: cstr_def)
  have c3: "sds_content s3 = sds_content s @ bulk_text (take n a)" using s1 s2 s3 bt by simp
  have "\<exists>s'. sds_args es (Suc j) s3 args = Ok s' \<and> sds_wf s' \<and> sds_content s' = sds_content s3 @ ?rest"
    by (rule Cons.IH [OF s3(2)]) (use Cons.prems(2) tot c3 in \<open>auto simp: sds_fits_def\<close>)
  then show ?case using x s1(1) s2(1) s3(1) c3 by auto
qed simp

lemma redisFormatSdsCommandArgv_spec:
  assumes "\<forall>j < n. arg_valid argv argvlen j" "sds_fits (Suc (length (command_text (args_text argv argvlen n))))"
    "alloc_ok e0" "alloc_ok e1" "\<And>j i. alloc_ok (es j i)"
  shows "\<exists>s. redisFormatSdsCommandArgv e0 e1 es True (int n) argv argvlen =
       Ok (int (length (command_text (args_text argv argvlen n))), Some s) \<and>
     sds_wf s \<and> sds_content s = command_text (args_text argv argvlen n)"
proof -
  obtain args where a: "arg_list argv argvlen 0 n = Ok args" "length args = n"
    "map arg_bytes args = args_text argv argvlen n" "\<forall>(a, k) \<in> set args. k \<le> length a"
    using arg_list_spec [of 0 n argv argvlen] assms(1) by (auto simp: args_text_def)
  let ?ss = "args_text argv argvlen n"
  let ?cmd = "command_text ?ss" and ?hd = "CHR ''*'' # dec_nat n @ [CR, LF]"
  have cmd: "?cmd = ?hd @ concat (map bulk_text ?ss)" by (simp add: command_text_def crlf_def)
  have fit: "length ?cmd + 1 + SDS_MAX_PREALLOC \<le> 2147483647" using assms(2) by (simp add: sds_fits_def)
  have nb: "n < 2147483647" using length_command_ge [of ?ss] fit by simp
  have n: "countDigits (to_size (int n)) = length (dec_nat n)" using nb by (simp add: to_size_nat countDigits_spec)
  have "add_lens (\<lambda>x. int (to_size x)) (1 + int (length (dec_nat n)) + 2) (map length ?ss) = int (length ?cmd)"
    using add_lens_spec [of "\<lambda>x. int (to_size x)" "1 + int (length (dec_nat n)) + 2" ?ss] fit head_len [of ?ss]
    by (simp add: to_size_def)
  then have tot: "add_lens (\<lambda>x. int (to_size x)) (1 + int (countDigits (to_size (int n))) + 2) (map snd args) = int (length ?cmd)"
    unfolding n arg_lens [OF a(4)] a(3) .
  obtain s0 where s0: "sdsempty e0 = Ok s0" "sds_wf s0" "sds_content s0 = []"
    using returns_ex [OF sdsempty_spec [of e0] assms(3)] by auto
  have "sds_fits (sdslen s0 + length ?cmd)" using s0 fit by (simp add: sds_fits_def sdslen_content)
  then obtain s1 where s1: "sdsMakeRoomFor e1 s0 (length ?cmd) = Ok s1" "sds_wf s1" "sds_content s1 = []"
    using returns_ex [OF sdsMakeRoomFor_spec [OF s0(2)] assms(4), of "length ?cmd"] s0(3) by auto
  have "sds_fits (sdslen s1 + length ?hd + 1)" using s1 fit cmd by (simp add: sds_fits_def sdslen_content)
  then obtain s2 where s2: "sdscatfmt (es 0) s1 (''*%i'' @ [CR, LF]) [FInt (int n)] = Ok s2" "sds_wf s2" "sds_content s2 = ?hd"
    using sdscatfmt_spec [OF s1(2) fmt_expand_multi, of n "es 0"] nb assms(5) s1(3) by auto
  obtain s3 where s3: "sds_args es 1 s2 args = Ok s3" "sds_wf s3" "sds_content s3 = ?hd @ concat (map bulk_text ?ss)"
    using sds_args_spec [where es = es and s = s2 and args = args and j = 1] assms(5) s2 a(3,4) fit cmd
    by (auto simp: sds_fits_def)
  have "int (sdslen s3) = int (length ?cmd)" using s3 cmd by (simp add: sdslen_content)
  moreover have "to_i32 (int (length ?cmd)) = int (length ?cmd)" using fit by simp
  ultimately show ?thesis
    unfolding redisFormatSdsCommandArgv_def nat_int a(1) cbind.simps tot Let_def s0(1) cres.case s1(1) s2(1) cderef.simps s3(1)
    using s3 cmd by simp
qed

section \<open>What a format denotes\<close>

text \<open>
  The words of a format, without memory: \<open>None\<close> when the call has no defined behaviour (an
  argument of the wrong type or too short, a format that ends inside a directive), otherwise
  the words and whether the whole format is valid.
\<close>

definition ref_directive :: "(string \<Rightarrow> 'd \<Rightarrow> string) \<Rightarrow> string \<Rightarrow> 'd vararg list \<Rightarrow> (unit + string \<times> 'd vararg list \<times> string) option" where
  "ref_directive dbl c ap =
     (if hd c = CHR ''s'' then
        (case ap of
           VStr arg # ap' \<Rightarrow> if NUL \<in> set arg then Some (Inr (takeWhile (\<lambda>x. x \<noteq> NUL) arg, ap', tl c)) else None
         | _ \<Rightarrow> None)
      else if hd c = CHR ''b'' then
        (case ap of
           VStr arg # VSize sz # ap' \<Rightarrow> if sz \<le> length arg then Some (Inr (take sz arg, ap', tl c)) else None
         | _ \<Rightarrow> None)
      else if hd c = CHR ''%'' then Some (Inr (''%'', ap, tl c))
      else
        (case split_spec c of (fl, w, prec, p) \<Rightarrow>
          (case conv_of p of
             None \<Rightarrow> Some (Inl ())
           | Some (kind, q) \<Rightarrow>
               if length c - length q + 2 < 14 then
                 (case q of
                    [] \<Rightarrow> None
                  | conv # rest \<Rightarrow>
                      (case conv_text dbl (take (length c - length q) c) kind conv ap of
                         Ok (txt, ap') \<Rightarrow> if NUL \<in> set txt then None else Some (Inr (txt, ap', rest))
                       | _ \<Rightarrow> None))
               else
                 (case conv_text dbl c kind (if q = [] then NUL else hd q) ap of
                    Ok (_, ap') \<Rightarrow> Some (Inr ([], ap', tl c))
                  | _ \<Rightarrow> None))))"

lemma ref_directive_rest:
  assumes "ref_directive dbl c ap = Some (Inr (t, ap', c'))" "c \<noteq> []"
  shows "length c' < length c"
proof -
  have tl: "length (tl c) < length c" using assms(2) by (cases c) auto
  obtain fl w prec p where sp: "split_spec c = (fl, w, prec, p)" by (metis prod_cases4)
  have q: "length q \<le> length c" if "conv_of p = Some (k, q)" for k q using conv_of_len [OF that] split_spec_len [OF sp] by simp
  show ?thesis using assms(1) tl q sp
    by (auto simp: ref_directive_def split: if_splits list.splits vararg.splits option.splits cres.splits)
qed

function ref_words :: "(string \<Rightarrow> 'd \<Rightarrow> string) \<Rightarrow> string \<Rightarrow> 'd vararg list \<Rightarrow> string \<Rightarrow> bool \<Rightarrow> (string list \<times> bool) option" where
  "ref_words dbl c ap cur touched =
     (case c of
        [] \<Rightarrow> Some (if touched then [cur] else [], True)
      | x # c1 \<Rightarrow>
          if x \<noteq> CHR ''%'' \<or> c1 = [] then
            if x = CHR '' '' then
              if touched then map_option (\<lambda>(ws, valid). (cur # ws, valid)) (ref_words dbl c1 ap [] False)
              else ref_words dbl c1 ap cur touched
            else ref_words dbl c1 ap (cur @ [x]) True
          else
            (case ref_directive dbl c1 ap of
               None \<Rightarrow> None
             | Some (Inl _) \<Rightarrow> Some ([cur], False)
             | Some (Inr (t, ap', c2)) \<Rightarrow> ref_words dbl c2 ap' (cur @ t) True))"
  by pat_completeness auto
termination
  by (relation "measure (\<lambda>(dbl, c, _). length c)") (auto dest: ref_directive_rest)

declare ref_words.simps [simp del]

lemma ref_words_touched:
  "ref_words dbl c ap cur True = Some (ws, b) \<Longrightarrow> \<exists>w ws'. ws = (cur @ w) # ws'"
proof (induction dbl c ap cur True arbitrary: ws b rule: ref_words.induct)
  case (1 dbl c ap cur)
  show ?case
  proof (cases c)
    case Nil
    then show ?thesis using 1(5) by (subst (asm) ref_words.simps) auto
  next
    case (Cons x c1)
    consider "x \<noteq> CHR ''%'' \<or> c1 = []" "x = CHR '' ''" | "x \<noteq> CHR ''%'' \<or> c1 = []" "x \<noteq> CHR '' ''"
      | "\<not> (x \<noteq> CHR ''%'' \<or> c1 = [])" by blast
    then show ?thesis
    proof cases
      case 1
      then show ?thesis using \<open>ref_words dbl c ap cur True = Some (ws, b)\<close> Cons by (subst (asm) ref_words.simps) auto
    next
      case 2
      have "ref_words dbl c1 ap (cur @ [x]) True = Some (ws, b)" using 1(5) Cons 2 by (subst (asm) ref_words.simps) auto
      from 1(3) [OF Cons 2 this] show ?thesis by auto
    next
      case 3
      show ?thesis
      proof (cases "\<exists>t ap' c2. ref_directive dbl c1 ap = Some (Inr (t, ap', c2))")
        case True
        then obtain t ap' c2 where t: "ref_directive dbl c1 ap = Some (Inr (t, ap', c2))" by blast
        have "ref_words dbl c2 ap' (cur @ t) True = Some (ws, b)" using 1(5) Cons 3 t by (subst (asm) ref_words.simps) auto
        from 1(4) [OF Cons 3 t refl refl refl this] show ?thesis by auto
      next
        case False
        then show ?thesis using 1(5) Cons 3 by (subst (asm) ref_words.simps) (auto split: option.splits sum.splits)
      qed
    qed
  qed
qed

section \<open>The format loop builds the words\<close>

lemma keep_spec:
  "returns ok m P \<Longrightarrow> (\<exists>s'. keep m ap c = Ok (Inr (s', ap, c)) \<and> P s') \<or> keep m ap c = Ok (Inl (- 1)) \<and> \<not> ok"
  by (cases m) (auto simp: keep_def)

lemma keep_cat:
  assumes "sds_wf s" "n \<le> length t" "sds_fits (sdslen s + n)"
  shows "(\<exists>s'. keep (if 0 < n then sdscatlen e s t n else Ok s) ap c = Ok (Inr (s', ap, c)) \<and> sds_wf s' \<and> sds_content s' = sds_content s @ take n t) \<or>
    keep (if 0 < n then sdscatlen e s t n else Ok s) ap c = Ok (Inl (- 1)) \<and> \<not> alloc_ok e"
  using keep_spec [OF sdscatlen_spec [OF assms]] assms(1) by (cases n) (auto simp: keep_def)

lemma directive_invalid: "ref_directive dbl c ap = Some (Inl u) \<Longrightarrow> directive dbl es c ap s = Ok (Inl (- 2))"
  by (auto simp: ref_directive_def directive_def split: if_splits list.splits vararg.splits option.splits cres.splits prod.splits)

lemma directive_spec:
  assumes "ref_directive dbl c ap = Some (Inr (t, ap', c'))" "sds_wf s" "sds_fits (sdslen s + length t)"
  shows "(\<exists>s'. directive dbl es c ap s = Ok (Inr (s', ap', c')) \<and> sds_wf s' \<and> sds_content s' = sds_content s @ t) \<or>
    directive dbl es c ap s = Ok (Inl (- 1)) \<and> \<not> (\<forall>i. alloc_ok (es i))"
proof -
  consider "hd c = CHR ''s''" | "hd c = CHR ''b''" | "hd c = CHR ''%''"
    | "hd c \<noteq> CHR ''s''" "hd c \<noteq> CHR ''b''" "hd c \<noteq> CHR ''%''" by blast
  then show ?thesis
  proof cases
    case 1
    then obtain arg where a: "ap = VStr arg # ap'" "NUL \<in> set arg" "t = takeWhile (\<lambda>x. x \<noteq> NUL) arg" "c' = tl c"
      using assms(1) by (auto simp: ref_directive_def split: list.splits vararg.splits if_splits)
    have l: "c_strlen arg = Ok (length t)" "take (length t) arg = t" "length t \<le> length arg"
      using a takeWhile_take [of "\<lambda>x. x \<noteq> NUL" arg] length_takeWhile_le by (auto simp: c_strlen_def)
    have "directive dbl es c ap s = keep (if 0 < length t then sdscatlen (es 0) s arg (length t) else Ok s) ap' c'"
      using 1 a l(1) by (simp add: directive_def)
    then show ?thesis using keep_cat [OF assms(2) l(3) assms(3), of "es 0" ap' c'] l(2) by metis
  next
    case 2
    then obtain arg sz where a: "ap = VStr arg # VSize sz # ap'" "sz \<le> length arg" "t = take sz arg" "c' = tl c"
      using assms(1) by (auto simp: ref_directive_def split: list.splits vararg.splits if_splits)
    have "directive dbl es c ap s = keep (if 0 < sz then sdscatlen (es 0) s arg sz else Ok s) ap' c'"
      using 2 a by (simp add: directive_def)
    moreover have "sds_fits (sdslen s + sz)" using assms(3) a by (simp add: min_absorb2)
    ultimately show ?thesis using keep_cat [OF assms(2) a(2), of "es 0" ap' c'] a(3) by metis
  next
    case 3
    then have a: "t = ''%''" "ap' = ap" "c' = tl c" using assms(1) by (auto simp: ref_directive_def)
    have "directive dbl es c ap s = keep (sdscat (es 0) s (cstr ''%'')) ap' c'" using 3 a by (simp add: directive_def)
    then show ?thesis using keep_spec [OF sdscat_spec [OF assms(2), of "''%''" "es 0"], of ap' c'] assms(3) a(1) by auto
  next
    case 4
    obtain fl w prec p where sp: "split_spec c = (fl, w, prec, p)" by (metis prod_cases4)
    obtain kind q where q: "conv_of p = Some (kind, q)" using assms(1) 4 sp by (auto simp: ref_directive_def split: option.splits)
    show ?thesis
    proof (cases "length c - length q + 2 < 14")
      case True
      then obtain conv where a: "q = conv # c'" "conv_text dbl (take (length c - length q) c) kind conv ap = Ok (t, ap')" "NUL \<notin> set t"
        using assms(1) 4 sp q by (auto simp: ref_directive_def split: list.splits cres.splits if_splits)
      then have "directive dbl es c ap s = keep (sdscatvprintf (\<lambda>i. es (Suc i)) (es 0) s t) ap' c'"
        using 4 sp q True by (simp add: directive_def)
      then show ?thesis using keep_spec [OF sdscatvprintf_spec [OF assms(2) a(3) assms(3), of "es 0" "\<lambda>i. es (Suc i)"], of ap' c'] by metis
    next
      case False
      then obtain x where a: "conv_text dbl c kind (if q = [] then NUL else hd q) ap = Ok (x, ap')" "t = []" "c' = tl c"
        using assms(1) 4 sp q by (auto simp: ref_directive_def split: cres.splits)
      then have "directive dbl es c ap s = keep (Ok s) ap' c'" using 4 sp q False by (simp add: directive_def)
      then show ?thesis using a assms(2) by (simp add: keep_def)
    qed
  qed
qed

definition text_len :: "string list \<Rightarrow> int" where
  "text_len ws = int (length (concat (map bulk_text ws)))"

text \<open>The outcome of the loop: all words built, a format error, or out of memory.\<close>

definition loop_result :: "bool \<Rightarrow> string list \<Rightarrow> bool \<Rightarrow> (int + sdshdr \<times> bool \<times> sdshdr list \<times> int) \<Rightarrow> bool" where
  "loop_result mem ws valid r \<longleftrightarrow>
     (case r of
        Inl err \<Rightarrow> err = - 1 \<and> \<not> mem \<or> err = - 2 \<and> \<not> valid
      | Inr (s, touched, av, tot) \<Rightarrow>
          valid \<and> (\<forall>a \<in> set av. sds_wf a) \<and> sds_wf s \<and> tot = text_len (map sds_content av) \<and>
          map sds_content av @ (if touched then [sds_content s] else []) = ws)"

lemma text_len_simps:
  "text_len [] = 0" "text_len (w # ws) = int (length (bulk_text w)) + text_len ws" "text_len (us @ ws) = text_len us + text_len ws"
  by (simp_all add: text_len_def)

lemma text_len_nonneg: "0 \<le> text_len ws"
  by (simp add: text_len_def)

lemma bulklen_fits: "length s \<le> 2147483647 \<Longrightarrow> bulklen (length s) = length (bulk_text s)"
  using bulklen_spec [of s] dec_nat_len20 [of "length s"] by simp

lemma vformat_spec:
  "ref_words dbl c ap cur touched = Some (ws, valid) \<Longrightarrow> sds_wf s \<Longrightarrow> sds_content s = cur \<Longrightarrow>
   \<forall>a \<in> set av. sds_wf a \<Longrightarrow> \<forall>w \<in> set ws. sds_fits (length w) \<Longrightarrow> tot = text_len (map sds_content av) \<Longrightarrow>
   tot + text_len ws \<le> 2147483647 \<Longrightarrow>
   \<exists>r. vformat dbl es k c ap s touched av tot = Ok r \<and>
       loop_result (\<forall>i j. alloc_ok (es i j)) (map sds_content av @ ws) valid r"
proof (induction dbl c ap cur touched arbitrary: ws s av tot k rule: ref_words.induct)
  case (1 dbl c ap cur touched)
  show ?case
  proof (cases c)
    case Nil
    then have "ws = (if touched then [cur] else [])" "valid" using "1.prems"(1) by (subst (asm) ref_words.simps, simp)+
    then show ?thesis using "1.prems" Nil by (subst vformat.simps) (simp add: loop_result_def)
  next
    case (Cons x c1)
    consider (sep) "x \<noteq> CHR ''%'' \<or> c1 = []" "x = CHR '' ''" "touched" | (skip) "x \<noteq> CHR ''%'' \<or> c1 = []" "x = CHR '' ''" "\<not> touched"
      | (char) "x \<noteq> CHR ''%'' \<or> c1 = []" "x \<noteq> CHR '' ''" | (dir) "\<not> (x \<noteq> CHR ''%'' \<or> c1 = [])" by blast
    then show ?thesis
    proof cases
      case sep
      then obtain ws' where w: "ref_words dbl c1 ap [] False = Some (ws', valid)" "ws = cur # ws'"
        using "1.prems"(1) Cons by (subst (asm) ref_words.simps) auto
      have lc: "length cur \<le> 2147483647" using "1.prems"(5) w by (simp add: sds_fits_def)
      have t: "to_i32 (tot + int (bulklen (sdslen s))) = text_len (map sds_content (av @ [s]))"
        using "1.prems" w bulklen_fits [OF lc] text_len_nonneg [of ws'] text_len_nonneg [of "map sds_content av"]
        by (simp add: sdslen_content text_len_simps)
      show ?thesis
      proof (cases "can_alloc (es k 0) (8 * Suc (length av))")
        case True
        show ?thesis
        proof (cases "sdsempty (es k 1)")
          case (Ok s')
          then have s': "sds_wf s'" "sds_content s' = []" using sdsempty_spec [of "es k 1"] by auto
          have "\<exists>r. vformat dbl es (Suc k) c1 ap s' False (av @ [s]) (text_len (map sds_content (av @ [s]))) = Ok r \<and>
              loop_result (\<forall>i j. alloc_ok (es i j)) (map sds_content (av @ [s]) @ ws') valid r"
            by (rule "1.IH"(1) [OF Cons sep w(1) s' _ _ refl]) (use "1.prems" w in \<open>auto simp: text_len_simps\<close>)
          then show ?thesis using Cons sep True Ok t w(2) "1.prems"(3) by (subst vformat.simps) auto
        next
          case Null
          then have "\<not> alloc_ok (es k 1)" using sdsempty_spec [of "es k 1"] by auto
          then show ?thesis using Cons sep True Null by (subst vformat.simps) (auto simp: loop_result_def)
        next
          case (Fault f)
          then show ?thesis using sdsempty_spec [of "es k 1"] by auto
        qed
      next
        case False
        then have "\<not> alloc_ok (es k 0)" by (auto simp: alloc_ok_def)
        then show ?thesis using Cons sep False by (subst vformat.simps) (auto simp: loop_result_def)
      qed
    next
      case skip
      then have w: "ref_words dbl c1 ap cur touched = Some (ws, valid)" using "1.prems"(1) Cons by (subst (asm) ref_words.simps) auto
      from "1.IH"(2) [OF Cons skip w "1.prems"(2-7), of "Suc k"] show ?thesis using Cons skip by (subst vformat.simps) auto
    next
      case char
      then have w: "ref_words dbl c1 ap (cur @ [x]) True = Some (ws, valid)" using "1.prems"(1) Cons by (subst (asm) ref_words.simps) auto
      obtain w1 ws' where w1: "ws = ((cur @ [x]) @ w1) # ws'" using ref_words_touched [OF w] by blast
      have "sds_fits (sdslen s + 1)" using "1.prems"(2,3,5) w1 by (simp add: sds_fits_def sdslen_content)
      from sdscatlen_spec [OF "1.prems"(2) _ this, of c "es k 0"] have
        r: "returns (alloc_ok (es k 0)) (sdscatlen (es k 0) s c 1) (\<lambda>s'. sds_wf s' \<and> sds_content s' = cur @ [x])"
        using Cons "1.prems"(3) by simp
      show ?thesis
      proof (cases "sdscatlen (es k 0) s c 1")
        case (Ok s')
        then have s': "sds_wf s'" "sds_content s' = cur @ [x]" using r by auto
        from "1.IH"(3) [OF Cons char w s' "1.prems"(4-7), of "Suc k"] show ?thesis using Cons char Ok by (subst vformat.simps) auto
      qed (use r Cons char in \<open>subst vformat.simps, auto simp: loop_result_def\<close>)
    next
      case dir
      show ?thesis
      proof (cases "\<exists>t ap' c2. ref_directive dbl c1 ap = Some (Inr (t, ap', c2))")
        case True
        then obtain t ap' c2 where t: "ref_directive dbl c1 ap = Some (Inr (t, ap', c2))" by blast
        have w: "ref_words dbl c2 ap' (cur @ t) True = Some (ws, valid)" using "1.prems"(1) Cons dir t by (subst (asm) ref_words.simps) auto
        obtain w1 ws' where w1: "ws = ((cur @ t) @ w1) # ws'" using ref_words_touched [OF w] by blast
        have "sds_fits (sdslen s + length t)" using "1.prems"(2,3,5) w1 by (simp add: sds_fits_def sdslen_content)
        from directive_spec [OF t "1.prems"(2) this, of "es k"] show ?thesis
        proof
          assume "\<exists>s'. directive dbl (es k) c1 ap s = Ok (Inr (s', ap', c2)) \<and> sds_wf s' \<and> sds_content s' = sds_content s @ t"
          then obtain s' where s': "directive dbl (es k) c1 ap s = Ok (Inr (s', ap', c2))" "sds_wf s'" "sds_content s' = cur @ t"
            using "1.prems"(3) by auto
          from "1.IH"(4) [OF Cons dir t refl refl refl w s'(2,3) "1.prems"(4-7), of "Suc k"] show ?thesis
            using Cons dir s'(1) by (subst vformat.simps) auto
        qed (use Cons dir in \<open>subst vformat.simps, auto simp: loop_result_def\<close>)
      next
        case False
        then obtain u where u: "ref_directive dbl c1 ap = Some (Inl u)" "\<not> valid"
          using "1.prems"(1) Cons dir by (subst (asm) ref_words.simps) (auto split: option.splits sum.splits)
        then show ?thesis using directive_invalid [OF u(1), of "es k" s] Cons dir by (subst vformat.simps) (auto simp: loop_result_def)
      qed
    qed
  qed
qed

lemma map_sds_args:
  assumes "\<forall>a \<in> set av. sds_wf a"
  shows "map arg_bytes (map (\<lambda>s. (sh_buf s, sdslen s)) av) = map sds_content av"
    "\<forall>(a, n) \<in> set (map (\<lambda>s. (sh_buf s, sdslen s)) av). n \<le> length a"
  using assms sds_content_prefix sdslen_le_buf by (auto simp: less_imp_le)

lemma redisvFormatCommand_spec:
  assumes "ref_words dbl format ap [] False = Some (ws, valid)" "\<forall>w \<in> set ws. sds_fits (length w)"
    "length (command_text ws) < 2147483647"
  shows "\<exists>r. redisvFormatCommand dbl e0 e1 e2 es True format ap = Ok r \<and>
    (r = (- 1, None) \<and> \<not> (alloc_ok e0 \<and> alloc_ok e1 \<and> alloc_ok e2 \<and> (\<forall>i j. alloc_ok (es i j))) \<or>
     r = (if valid then (int (length (command_text ws)), Some (command_text ws @ [NUL])) else (- 2, None)))"
proof (cases "sdsempty e0")
  case (Ok s)
  then have s: "sds_wf s" "sds_content s = []" using sdsempty_spec [of e0] by auto
  have len: "int (length (command_text ws)) = 1 + int (length (dec_nat (length ws))) + 2 + text_len ws"
    using head_len [of ws] by (simp add: text_len_def)
  obtain r where r: "vformat dbl es 0 format ap s False [] 0 = Ok r" "loop_result (\<forall>i j. alloc_ok (es i j)) ws valid r"
    using vformat_spec [OF assms(1) s _ assms(2), of "[]" 0 es 0] len assms(3) by (auto simp: text_len_simps)
  show ?thesis
  proof (cases r)
    case (Inl err)
    then show ?thesis using r Ok by (auto simp: redisvFormatCommand_def loop_result_def)
  next
    case (Inr q)
    obtain s' t av tot where q: "r = Inr (s', t, av, tot)" using Inr by (metis prod_cases4)
    have l: "valid" "\<forall>a \<in> set av. sds_wf a" "sds_wf s'" "tot = text_len (map sds_content av)"
      "map sds_content av @ (if t then [sds_content s'] else []) = ws" using r(2) q by (auto simp: loop_result_def)
    define av' where "av' = (if t then av @ [s'] else av)"
    have av': "map sds_content av' = ws" "\<forall>a \<in> set av'. sds_wf a" "length av' = length ws"
      using l by (auto simp: av'_def)
    have "length (sds_content s') \<le> 2147483647" if t using that l(5) assms(2) by (auto simp: sds_fits_def)
    then have tot: "(if t then to_i32 (tot + int (bulklen (sdslen s'))) else tot) = text_len ws"
      using l len assms(3) bulklen_fits [of "sds_content s'"] text_len_nonneg [of "map sds_content av"]
      by (auto simp: sdslen_content text_len_simps)
    have "length ws < 2147483647" using length_command_ge [of ws] assms(3) by simp
    then have n: "countDigits (to_size (int (length ws))) = length (dec_nat (length ws))" by (simp add: to_size_nat countDigits_spec)
    have tot2: "to_i32 (text_len ws + (1 + int (length (dec_nat (length ws))) + 2)) = int (length (command_text ws))"
      using len assms(3) text_len_nonneg [of ws] by simp
    have em: "emit_command e2 (int (length (command_text ws))) (int (length ws)) (map (\<lambda>s. (sh_buf s, sdslen s)) av') =
       (if can_alloc e2 (Suc (length (command_text ws))) then Ok (command_text ws @ [NUL]) else Null)"
      using emit_command_spec [of "map (\<lambda>s. (sh_buf s, sdslen s)) av'" e2] map_sds_args [OF av'(2)] av' assms(3)
      by (simp del: map_map)
    have "redisvFormatCommand dbl e0 e1 e2 es True format ap =
        (if t \<and> \<not> can_alloc e1 (8 * Suc (length av)) then Ok (- 1, None)
         else if can_alloc e2 (Suc (length (command_text ws))) then Ok (int (length (command_text ws)), Some (command_text ws @ [NUL]))
         else Ok (- 1, None))"
      unfolding redisvFormatCommand_def Ok cres.case r(1) cbind.simps q sum.case prod.case Let_def av'_def [symmetric] tot av'(3) n tot2 em
      by simp
    then show ?thesis using l(1) by (auto simp: alloc_ok_def)
  qed
qed (use sdsempty_spec [of e0] in \<open>auto simp: redisvFormatCommand_def\<close>)

section \<open>Templates\<close>

text \<open>
  The formats a client writes: words separated by one space, each word a sequence of literal
  texts (no space, no percent sign) and \<^verbatim>\<open>%s\<close> or \<^verbatim>\<open>%b\<close> directives.
\<close>

datatype piece = Lit string | PStr string | PBin string

fun piece_format :: "piece \<Rightarrow> string" where
  "piece_format (Lit t) = t"
| "piece_format (PStr v) = ''%s''"
| "piece_format (PBin v) = ''%b''"

fun piece_args :: "piece \<Rightarrow> 'd vararg list" where
  "piece_args (Lit t) = []"
| "piece_args (PStr v) = [VStr (cstr v)]"
| "piece_args (PBin v) = [VStr v, VSize (length v)]"

fun piece_text :: "piece \<Rightarrow> string" where
  "piece_text (Lit t) = t"
| "piece_text (PStr v) = v"
| "piece_text (PBin v) = v"

fun piece_ok :: "piece \<Rightarrow> bool" where
  "piece_ok (Lit t) \<longleftrightarrow> t \<noteq> [] \<and> CHR '' '' \<notin> set t \<and> CHR ''%'' \<notin> set t"
| "piece_ok (PStr v) \<longleftrightarrow> NUL \<notin> set v"
| "piece_ok (PBin v) \<longleftrightarrow> True"

fun template_format :: "piece list list \<Rightarrow> string" where
  "template_format [] = []"
| "template_format [ps] = concat (map piece_format ps)"
| "template_format (ps # pss) = concat (map piece_format ps) @ CHR '' '' # template_format pss"

definition template_args :: "piece list list \<Rightarrow> 'd vararg list" where
  "template_args pss = concat (map piece_args (concat pss))"

definition template_words :: "piece list list \<Rightarrow> string list" where
  "template_words pss = map (\<lambda>ps. concat (map piece_text ps)) pss"

definition template_ok :: "piece list list \<Rightarrow> bool" where
  "template_ok pss \<longleftrightarrow> (\<forall>ps \<in> set pss. ps \<noteq> [] \<and> (\<forall>p \<in> set ps. piece_ok p))"

lemma ref_words_lit:
  "CHR '' '' \<notin> set t \<Longrightarrow> CHR ''%'' \<notin> set t \<Longrightarrow> t \<noteq> [] \<Longrightarrow>
   ref_words dbl (t @ c) ap cur touched = ref_words dbl c ap (cur @ t) True"
proof (induction t arbitrary: cur touched)
  case (Cons x t)
  have step: "ref_words dbl ((x # t) @ c) ap cur touched = ref_words dbl (t @ c) ap (cur @ [x]) True"
    using Cons.prems by (subst ref_words.simps) auto
  show ?case
  proof (cases "t = []")
    case False
    then show ?thesis using Cons.IH [of "cur @ [x]" True] Cons.prems step by simp
  qed (use step in simp)
qed simp

lemma ref_words_piece:
  assumes "piece_ok p"
  shows "ref_words dbl (piece_format p @ c) (piece_args p @ ap) cur touched = ref_words dbl c ap (cur @ piece_text p) True"
proof (cases p)
  case (Lit t)
  then show ?thesis using assms ref_words_lit [of t] by simp
next
  case (PStr v)
  then have "takeWhile (\<lambda>x. x \<noteq> NUL) (cstr v) = v" "NUL \<in> set (cstr v)" using assms by (auto simp: cstr_def takeWhile_append)
  then show ?thesis using PStr by (subst ref_words.simps) (simp add: ref_directive_def)
next
  case (PBin v)
  then show ?thesis by (subst ref_words.simps) (simp add: ref_directive_def)
qed

lemma ref_words_pieces:
  "\<forall>p \<in> set ps. piece_ok p \<Longrightarrow> ps \<noteq> [] \<Longrightarrow>
   ref_words dbl (concat (map piece_format ps) @ c) (concat (map piece_args ps) @ ap) cur touched =
   ref_words dbl c ap (cur @ concat (map piece_text ps)) True"
proof (induction ps arbitrary: cur touched)
  case (Cons p ps)
  then show ?case by (cases "ps = []") (simp_all add: ref_words_piece)
qed simp

lemma ref_words_template:
  "template_ok pss \<Longrightarrow> ref_words dbl (template_format pss) (template_args pss) [] False = Some (template_words pss, True)"
proof (induction pss rule: template_format.induct)
  case 1
  then show ?case by (subst ref_words.simps) (simp add: template_words_def)
next
  case (2 ps)
  then show ?case using ref_words_pieces [of ps dbl "[]" "[]" "[]" False]
    by (simp add: template_ok_def template_args_def template_words_def ref_words.simps)
next
  case (3 ps qs pss)
  let ?c = "CHR '' '' # template_format (qs # pss)" and ?ap = "template_args (qs # pss)"
  have "ref_words dbl (concat (map piece_format ps) @ ?c) (concat (map piece_args ps) @ ?ap) [] False =
      ref_words dbl ?c ?ap (concat (map piece_text ps)) True"
    using ref_words_pieces [of ps dbl ?c ?ap "[]" False] 3(2) by (simp add: template_ok_def)
  also have "\<dots> = map_option (\<lambda>(ws, valid). (concat (map piece_text ps) # ws, valid)) (ref_words dbl (template_format (qs # pss)) ?ap [] False)"
    by (subst ref_words.simps) simp
  finally show ?case using 3 by (simp add: template_ok_def template_args_def template_words_def)
qed

lemma digit_char_Suc:
  "digit_char (Suc (Suc 0)) = CHR ''2''" "digit_char (Suc (Suc (Suc 0))) = CHR ''3''"
  "digit_char (Suc (Suc (Suc (Suc (Suc (Suc 0)))))) = CHR ''6''"
  using digit_char_numeral(3,4,7) by (simp_all add: eval_nat_numeral)

section \<open>Properties\<close>

text \<open>
  C14. No argument of a command can inject protocol: formatting a template of literal texts,
  \<^verbatim>\<open>%s\<close> and \<^verbatim>\<open>%b\<close> directives gives the encoding of the array with exactly one bulk string per
  word of the template, whatever bytes (spaces, percent signs, line ends, for \<^verbatim>\<open>%b\<close> also zero
  bytes) the arguments hold; the announced length is the length of the text, and every write
  stays inside the block allocated for it.
\<close>
theorem redisFormatCommand_injection_safe:
  assumes "template_ok pss" "\<forall>w \<in> set (template_words pss). sds_fits (length w)"
    "length (encode (Multi (map Bulk (template_words pss)))) < 2147483647"
    "alloc_ok e0" "alloc_ok e1" "alloc_ok e2" "\<And>i j. alloc_ok (es i j)"
  shows "redisFormatCommand dbl e0 e1 e2 es True (template_format pss) (template_args pss) =
     Ok (int (length (encode (Multi (map Bulk (template_words pss))))),
         Some (encode (Multi (map Bulk (template_words pss))) @ [NUL]))"
  using redisvFormatCommand_spec [OF ref_words_template [OF assms(1), of dbl] assms(2), of e0 e1 e2 es] assms(3-7)
  unfolding command_text_encode by (auto simp: redisFormatCommand_def)

theorem redisFormatCommand_injection_safe_witness:
  "redisFormatCommand (\<lambda>_ (_ :: unit). []) plenty plenty plenty (\<lambda>_ _. plenty) True ''SET k:%s %b''
     [VStr (cstr ''a %s''), VStr [CR, LF, NUL], VSize 3] =
   Ok (34, Some (''*3'' @ crlf @ ''$3'' @ crlf @ ''SET'' @ crlf @ ''$6'' @ crlf @ ''k:a %s'' @ crlf @
     ''$3'' @ crlf @ [CR, LF, NUL] @ crlf @ [NUL]))"
proof -
  define pss where "pss = [[Lit ''SET''], [Lit ''k:'', PStr ''a %s''], [PBin [CR, LF, NUL]]]"
  have w: "template_words pss = [''SET'', ''k:a %s'', [CR, LF, NUL]]" by (simp add: pss_def template_words_def)
  have f: "template_format pss = ''SET k:%s %b''" "template_args pss = [VStr (cstr ''a %s''), VStr [CR, LF, NUL], VSize 3]"
    by (simp_all add: pss_def template_args_def)
  have e: "encode (Multi (map Bulk (template_words pss))) = ''*3'' @ crlf @ ''$3'' @ crlf @ ''SET'' @ crlf @ ''$6'' @ crlf @ ''k:a %s'' @ crlf @
     ''$3'' @ crlf @ [CR, LF, NUL] @ crlf"
    by (simp add: w crlf_def dec_eval digit_char_Suc)
  show ?thesis
    using redisFormatCommand_injection_safe [of pss plenty plenty plenty "\<lambda>_ _. plenty" "\<lambda>_ (_ :: unit). []", unfolded e f]
    by (simp add: w sds_fits_def SDS_MAX_PREALLOC_def) (simp add: pss_def template_ok_def crlf_def)
qed

text \<open>
  \<^verbatim>\<open>redisvFormatCommand\<close> refines the words of its format, integer conversions with flags,
  width, precision and size modifier included: for every format and arguments with a
  defined meaning it returns the encoding of the words with its exact length, or -2 when the
  format has an invalid directive, or -1 when an allocation fails, and never reads or writes out
  of bounds.
\<close>
theorem redisvFormatCommand_refines_words:
  assumes "ref_words dbl format ap [] False = Some (ws, valid)" "\<forall>w \<in> set ws. sds_fits (length w)"
    "length (encode (Multi (map Bulk ws))) < 2147483647"
  shows "\<exists>r. redisvFormatCommand dbl e0 e1 e2 es True format ap = Ok r \<and>
    (r = (- 1, None) \<and> \<not> (alloc_ok e0 \<and> alloc_ok e1 \<and> alloc_ok e2 \<and> (\<forall>i j. alloc_ok (es i j))) \<or>
     r = (if valid then (int (length (encode (Multi (map Bulk ws)))), Some (encode (Multi (map Bulk ws)) @ [NUL])) else (- 2, None)))"
  using redisvFormatCommand_spec [OF assms(1,2), of e0 e1 e2 es] assms(3) unfolding command_text_encode by simp

theorem redisvFormatCommand_refines_words_witness:
  "redisvFormatCommand (\<lambda>_ (_ :: unit). []) plenty plenty plenty (\<lambda>_ _. plenty) True ''A %05hhi'' [VInt (- 130)] =
     Ok (22, Some (''*2'' @ crlf @ ''$1'' @ crlf @ ''A'' @ crlf @ ''$5'' @ crlf @ ''00126'' @ crlf @ [NUL])) \<and>
   redisvFormatCommand (\<lambda>_ (_ :: unit). []) plenty plenty plenty (\<lambda>_ _. plenty) True ''A %y'' [] = Ok (- 2, None)"
proof
  have d: "ref_directive (\<lambda>_ (_ :: unit). []) ''05hhi'' [VInt (- 130)] = Some (Inr (''00126'', [], []))"
    by (simp add: ref_directive_def split_spec_def flag_chars_def c_isdigit_def conv_of_def intfmts_def dblfmts_def c_strchr_def
      conv_text_def print_int_def digits_value_def dec_eval digit_char_Suc numeral_2_eq_2)
  have "ref_words (\<lambda>_ (_ :: unit). []) ''A %05hhi'' [VInt (- 130)] [] False = Some ([''A'', ''00126''], True)"
    by (simp add: ref_words.simps d)
  from redisvFormatCommand_refines_words [OF this, of plenty plenty plenty "\<lambda>_ _. plenty"]
  show "redisvFormatCommand (\<lambda>_ (_ :: unit). []) plenty plenty plenty (\<lambda>_ _. plenty) True ''A %05hhi'' [VInt (- 130)] =
     Ok (22, Some (''*2'' @ crlf @ ''$1'' @ crlf @ ''A'' @ crlf @ ''$5'' @ crlf @ ''00126'' @ crlf @ [NUL]))"
    by (simp add: sds_fits_def SDS_MAX_PREALLOC_def crlf_def dec_eval numeral_2_eq_2 [symmetric])
  have d: "ref_directive (\<lambda>_ (_ :: unit). []) ''y'' [] = Some (Inl ())"
    by (simp add: ref_directive_def split_spec_def flag_chars_def c_isdigit_def conv_of_def intfmts_def dblfmts_def c_strchr_def)
  have "ref_words (\<lambda>_ (_ :: unit). []) ''A %y'' [] [] False = Some ([''A'', []], False)"
    by (simp add: ref_words.simps d)
  from redisvFormatCommand_refines_words [OF this, of plenty plenty plenty "\<lambda>_ _. plenty"]
  show "redisvFormatCommand (\<lambda>_ (_ :: unit). []) plenty plenty plenty (\<lambda>_ _. plenty) True ''A %y'' [] = Ok (- 2, None)"
    by (simp add: sds_fits_def SDS_MAX_PREALLOC_def crlf_def dec_eval numeral_2_eq_2 [symmetric])
qed

text \<open>
  The two ways to format an argument vector agree: with given lengths or zero-terminated
  arguments, \<^verbatim>\<open>redisFormatCommandArgv\<close> and \<^verbatim>\<open>redisFormatSdsCommandArgv\<close> both return the length
  and the bytes of the encoding of the array of arguments.
\<close>
theorem redisFormatCommandArgv_equiv:
  assumes "\<forall>j < n. arg_valid argv argvlen j"
    "sds_fits (Suc (length (encode (Multi (map Bulk (args_text argv argvlen n))))))"
    "alloc_ok e" "alloc_ok e0" "alloc_ok e1" "\<And>j i. alloc_ok (es j i)"
  shows "redisFormatCommandArgv e True (int n) argv argvlen =
       Ok (int (length (encode (Multi (map Bulk (args_text argv argvlen n))))),
           Some (encode (Multi (map Bulk (args_text argv argvlen n))) @ [NUL])) \<and>
     (\<exists>s. redisFormatSdsCommandArgv e0 e1 es True (int n) argv argvlen =
       Ok (int (length (encode (Multi (map Bulk (args_text argv argvlen n))))), Some s) \<and>
       sds_wf s \<and> sds_content s = encode (Multi (map Bulk (args_text argv argvlen n))))"
proof -
  have "length (command_text (args_text argv argvlen n)) < 2147483647"
    using assms(2) by (simp add: command_text_encode sds_fits_def)
  from redisFormatCommandArgv_spec [OF assms(1) this, of e] redisFormatSdsCommandArgv_spec [OF assms(1) _ assms(4-6)] assms(2,3)
  show ?thesis unfolding command_text_encode by (auto simp: Let_def alloc_ok_def)
qed

theorem redisFormatCommandArgv_equiv_witness:
  "redisFormatCommandArgv plenty True 2 [cstr ''GET'', [NUL, CHR '' '']] (Some [3, 2]) =
     Ok (21, Some (''*2'' @ crlf @ ''$3'' @ crlf @ ''GET'' @ crlf @ ''$2'' @ crlf @ [NUL, CHR '' ''] @ crlf @ [NUL])) \<and>
   (\<exists>s. redisFormatSdsCommandArgv plenty plenty (\<lambda>_ _. plenty) True 2 [cstr ''GET'', [NUL, CHR '' '']] (Some [3, 2]) = Ok (21, Some s))"
proof -
  have a: "args_text [cstr ''GET'', [NUL, CHR '' '']] (Some [3, 2]) 2 = [''GET'', [NUL, CHR '' '']]"
    by (simp add: args_text_def arg_text_def cstr_def numeral_2_eq_2)
  have v: "\<forall>j < 2. arg_valid [cstr ''GET'', [NUL, CHR '' '']] (Some [3, 2]) j"
    by (auto simp: arg_valid_def cstr_def less_2_cases_iff)
  show ?thesis
    using redisFormatCommandArgv_equiv [OF v, of plenty plenty plenty "\<lambda>_ _. plenty", unfolded a]
    by (auto simp: sds_fits_def SDS_MAX_PREALLOC_def crlf_def dec_eval numeral_2_eq_2 [symmetric])
qed

text \<open>
  A format that ends after the width of a directive (a percent sign and at least one
  digit) is not rejected as invalid: the search for an integer conversion also finds the
  terminator, and the loop goes on past the end of the format.
\<close>
theorem redisvFormatCommand_overruns_width:
  assumes "ds \<noteq> []" "\<forall>c \<in> set ds. c_isdigit c" "length ds < 12" "alloc_ok e0"
  shows "redisvFormatCommand dbl e0 e1 e2 es True (CHR ''%'' # ds) ap = Fault OutOfBounds"
proof -
  obtain s where s: "sdsempty e0 = Ok s" using returns_ex [OF sdsempty_spec [of e0] assms(4)] by auto
  let ?d = "dropWhile (\<lambda>c. c \<in> set flag_chars) ds"
  have dig: "takeWhile c_isdigit ?d = ?d" "dropWhile c_isdigit ?d = []"
    using assms(2) set_dropWhileD by (fastforce simp: takeWhile_eq_all_conv)+
  have sp: "split_spec ds = (takeWhile (\<lambda>c. c \<in> set flag_chars) ds, ?d, None, [])"
    unfolding split_spec_def Let_def dig by simp
  have "c_isdigit (hd ds)" using assms(1,2) by simp
  then have hd: "hd ds \<noteq> CHR ''s''" "hd ds \<noteq> CHR ''b''" "hd ds \<noteq> CHR ''%''" by (auto simp: c_isdigit_def)
  have "conv_of [] = Some (KInt 32, [])" by (simp add: conv_of_def c_strchr_def)
  then have "directive dbl (es 0) ds ap s = Fault OutOfBounds" using hd sp assms(3) by (simp add: directive_def)
  then have "vformat dbl es 0 (CHR ''%'' # ds) ap s False [] 0 = Fault OutOfBounds" using assms(1) by (subst vformat.simps) simp
  then show ?thesis by (simp add: redisvFormatCommand_def s)
qed

theorem redisvFormatCommand_overruns_width_witness:
  "redisvFormatCommand (\<lambda>_ (_ :: unit). []) plenty plenty plenty (\<lambda>_ _. plenty) True ''%5'' [VInt 1] = Fault OutOfBounds"
  using redisvFormatCommand_overruns_width [of "''5''" plenty] by (simp add: c_isdigit_def)

end
