(* ===== verification/Context.thy ===== *)
theory Context
  imports Format
begin

text \<open>
  The blocking client, the functions on \<^verbatim>\<open>redisContext\<close> of \<^verbatim>\<open>src/win/hiredis/hiredis.c\<close>: commands
  are appended to an output buffer, the buffer is written to the socket, the bytes read from it
  are fed to the protocol reader, and replies are taken from the reader.

  The socket, the allocator and the heap of reply objects are the record \<open>world\<close>. The outcomes of
  the calls of \<^verbatim>\<open>read\<close> and \<^verbatim>\<open>write\<close> to come are two lists: an error number, the bytes that are there
  to be read (none when the peer has closed), or the number of bytes the socket takes. A call for
  which the list has no outcome does not return, which is the fault \<open>Blocked\<close>. Each operation takes
  its allocations from its own row of \<open>w_env\<close>. The calls that set up a connection (theory
  \<open>Net\<close>) take their outcomes from \<open>w_sys\<close> and \<open>w_soerr\<close>; \<open>w_opened\<close> and \<open>w_closed\<close> list the
  descriptors opened and closed, \<open>w_mode\<close> is whether the socket blocks, and \<open>w_opts\<close> lists the
  socket options set and the time limits given to \<^verbatim>\<open>poll\<close>.
\<close>

unbundle bit_operations_syntax

section \<open>Data\<close>

definition REDIS_BLOCK :: int where "REDIS_BLOCK = 1"

definition REDIS_CONNECTED :: int where "REDIS_CONNECTED = 2"

datatype errno = EAGAIN | EINTR | EINPROGRESS | EHOSTUNREACH | EADDRNOTAVAIL | ETIMEDOUT | Errno int

datatype redisConnectionType = REDIS_CONN_TCP | REDIS_CONN_UNIX

record redisContext =
  c_err :: int
  c_errstr :: mem
  c_fd :: int
  c_flags :: int
  c_obuf :: "sdshdr option"
  c_reader :: "heap redisReader option"
  c_connection_type :: redisConnectionType
  c_timeout :: "(int \<times> int) option"
  c_host :: "string option"
  c_source_addr :: "string option"
  c_port :: int
  c_path :: "string option"

record world =
  w_heap :: heap
  w_env :: "nat \<Rightarrow> nat \<Rightarrow> nat \<Rightarrow> env"
  w_tick :: nat
  w_reads :: "(errno + string) list"
  w_writes :: "(errno + nat) list"
  w_sent :: string
  w_closed :: "int list"
  w_errno :: errno
  w_strerror :: "errno \<Rightarrow> string"
  w_startup :: bool
  w_users :: int
  w_sys :: "(errno + nat) list"
  w_soerr :: "(errno + errno option) list"
  w_resolve :: "string option \<Rightarrow> string option \<Rightarrow> bool \<Rightarrow> int + nat list"
  w_gai :: "int \<Rightarrow> string"
  w_opened :: "int list"
  w_mode :: bool
  w_opts :: "(string \<times> int) list"

definition tick :: "world \<Rightarrow> world" where
  "tick w = w\<lparr>w_tick := Suc (w_tick w)\<rparr>"

definition envs :: "world \<Rightarrow> nat \<Rightarrow> nat \<Rightarrow> env" where
  "envs w = w_env w (w_tick w)"

definition blocking :: "redisContext \<Rightarrow> bool" where
  "blocking c \<longleftrightarrow> c_flags c AND REDIS_BLOCK \<noteq> 0"

section \<open>The system calls\<close>

definition sys_read :: "nat \<Rightarrow> world \<Rightarrow> ((errno + string) \<times> world) cres" where
  "sys_read n w =
     (case w_reads w of
        [] \<Rightarrow> Fault Blocked
      | Inl e # rs \<Rightarrow> Ok (Inl e, w\<lparr>w_reads := rs, w_errno := e\<rparr>)
      | Inr t # rs \<Rightarrow>
          if length t \<le> n then Ok (Inr t, w\<lparr>w_reads := rs\<rparr>)
          else Ok (Inr (take n t), w\<lparr>w_reads := Inr (drop n t) # rs\<rparr>))"

definition sys_write :: "string \<Rightarrow> world \<Rightarrow> ((errno + nat) \<times> world) cres" where
  "sys_write buf w =
     (case w_writes w of
        [] \<Rightarrow> Fault Blocked
      | Inl e # ws \<Rightarrow> Ok (Inl e, w\<lparr>w_writes := ws, w_errno := e\<rparr>)
      | Inr n # ws \<Rightarrow> Ok (Inr (min n (length buf)), w\<lparr>w_writes := ws, w_sent := w_sent w @ take n buf\<rparr>))"

section \<open>Errors, creation and release\<close>

text \<open>The text of an error number is cut to the size of the field, as \<^verbatim>\<open>strerror_r\<close> does.\<close>

definition redisSetError :: "world \<Rightarrow> redisContext \<Rightarrow> int \<Rightarrow> mem option \<Rightarrow> redisContext cres" where
  "redisSetError w c ty str =
     (let c = c\<lparr>c_err := ty\<rparr> in
      case str of
        Some s \<Rightarrow>
          cbind (c_strlen s) (\<lambda>n.
          let l = (if n < 127 then n else 127) in
          cbind (mem_write (c_errstr c) 0 (take l s)) (\<lambda>m.
          cbind (mem_write m (int l) [NUL]) (\<lambda>m. Ok (c\<lparr>c_errstr := m\<rparr>))))
      | None \<Rightarrow>
          if ty \<noteq> REDIS_ERR_IO then Fault AssertFailed
          else cbind (mem_write (c_errstr c) 0 (take 127 (w_strerror w (w_errno w)) @ [NUL]))
                 (\<lambda>m. Ok (c\<lparr>c_errstr := m\<rparr>)))"

definition redisFree :: "redisContext option \<Rightarrow> world \<Rightarrow> world cres" where
  "redisFree p w =
     (case p of
        None \<Rightarrow> Ok w
      | Some c \<Rightarrow>
          let w = (if c_fd c > 0 then w\<lparr>w_closed := w_closed w @ [c_fd c]\<rparr> else w) in
          cbind (case c_reader c of None \<Rightarrow> Ok (w_heap w) | Some r \<Rightarrow> redisReaderFree r (w_heap w))
            (\<lambda>h. Ok (w\<lparr>w_heap := h, w_users := w_users w - 1\<rparr>)))"

definition redisFreeKeepFd :: "redisContext \<Rightarrow> world \<Rightarrow> (int \<times> world) cres" where
  "redisFreeKeepFd c w =
     (let fd = c_fd c in cbind (redisFree (Some (c\<lparr>c_fd := - 1\<rparr>)) w) (\<lambda>w. Ok (fd, w)))"

definition redisContextInit :: "world \<Rightarrow> (redisContext option \<times> world) cres" where
  "redisContextInit w =
     (if \<not> w_startup w then Ok (None, w)
      else
        let es = envs w; w = tick w\<lparr>w_users := w_users w + 1\<rparr> in
        if \<not> can_alloc (es 0 0) 208 then Ok (None, w)
        else
          cbind (nullable (sdsempty (es 0 1))) (\<lambda>obuf.
          cbind (nullable (redisReaderCreate (es 0 2))) (\<lambda>reader.
          let c = \<lparr>c_err = 0, c_errstr = replicate 128 NUL, c_fd = 0, c_flags = 0, c_obuf = obuf, c_reader = reader,
            c_connection_type = REDIS_CONN_TCP, c_timeout = None, c_host = None, c_source_addr = None, c_port = 0, c_path = None\<rparr> in
          if obuf = None \<or> reader = None then cbind (redisFree (Some c) w) (\<lambda>w. Ok (None, w))
          else Ok (Some c, w))))"

definition redisConnectFd :: "int \<Rightarrow> world \<Rightarrow> (redisContext option \<times> world) cres" where
  "redisConnectFd fd w =
     cbind (redisContextInit w) (\<lambda>(p, w).
       case p of
         None \<Rightarrow> Ok (None, w)
       | Some c \<Rightarrow> Ok (Some (c\<lparr>c_fd := fd, c_flags := c_flags c OR (REDIS_BLOCK OR REDIS_CONNECTED)\<rparr>), w))"

section \<open>Reading and writing\<close>

definition set_error :: "world \<Rightarrow> redisContext \<Rightarrow> int \<Rightarrow> mem option \<Rightarrow> (int \<times> redisContext \<times> world) cres" where
  "set_error w c ty str = cbind (redisSetError w c ty str) (\<lambda>c. Ok (REDIS_ERR, c, w))"

definition retry :: "errno \<Rightarrow> redisContext \<Rightarrow> bool" where
  "retry e c \<longleftrightarrow> (e = EAGAIN \<and> \<not> blocking c) \<or> e = EINTR"

definition redisBufferRead :: "redisContext \<Rightarrow> world \<Rightarrow> (int \<times> redisContext \<times> world) cres" where
  "redisBufferRead c w =
     (if c_err c \<noteq> 0 then Ok (REDIS_ERR, c, w)
      else cbind (sys_read (1024 * 16) w) (\<lambda>(nread, w).
        case nread of
          Inl e \<Rightarrow> if retry e c then Ok (REDIS_OK, c, w) else set_error w c REDIS_ERR_IO None
        | Inr buf \<Rightarrow>
            if buf = [] then set_error w c REDIS_ERR_EOF (Some (cstr ''Server closed the connection''))
            else case c_reader c of
              None \<Rightarrow> Fault NullDeref
            | Some r \<Rightarrow>
                cbind (redisReaderFeed (envs w 0 0) (envs w 0 1) r (Some buf) (length buf) (w_heap w)) (\<lambda>(res, r, h).
                let c = c\<lparr>c_reader := Some r\<rparr>; w = tick w\<lparr>w_heap := h\<rparr> in
                if res \<noteq> REDIS_OK then set_error w c (r_err r) (Some (r_errstr r))
                else Ok (REDIS_OK, c, w))))"

text \<open>The result, the value of \<^verbatim>\<open>*done\<close> when the result is \<^verbatim>\<open>REDIS_OK\<close>, the context and the world.\<close>

definition redisBufferWrite :: "redisContext \<Rightarrow> world \<Rightarrow> (int \<times> bool \<times> redisContext \<times> world) cres" where
  "redisBufferWrite c w =
     (if c_err c \<noteq> 0 then Ok (REDIS_ERR, False, c, w)
      else case c_obuf c of
        None \<Rightarrow> Fault NullDeref
      | Some b \<Rightarrow>
          cbind (if sdslen b > 0 then
                   cbind (mem_slice (sh_buf b) 0 (sdslen b)) (\<lambda>d.
                   cbind (sys_write d w) (\<lambda>(n, w).
                     case n of
                       Inl e \<Rightarrow> if retry e c then Ok (REDIS_OK, c, w) else set_error w c REDIS_ERR_IO None
                     | Inr n \<Rightarrow>
                         let nwritten = to_i32 (int n) in
                         if nwritten > 0 then
                           if nwritten = to_i32 (int (sdslen b))
                           then cbind (nullable (sdsempty (envs w 0 0))) (\<lambda>b. Ok (REDIS_OK, c\<lparr>c_obuf := b\<rparr>, tick w))
                           else cbind (sdsrange b nwritten (- 1)) (\<lambda>b. Ok (REDIS_OK, c\<lparr>c_obuf := Some b\<rparr>, w))
                         else Ok (REDIS_OK, c, w)))
                 else Ok (REDIS_OK, c, w))
            (\<lambda>(res, c, w).
              if res = REDIS_ERR then Ok (REDIS_ERR, False, c, w)
              else case c_obuf c of
                None \<Rightarrow> Fault NullDeref
              | Some b \<Rightarrow> Ok (REDIS_OK, sdslen b = 0, c, w)))"

definition redisGetReplyFromReader :: "redisContext \<Rightarrow> world \<Rightarrow> (int \<times> nat \<times> redisContext \<times> world) cres" where
  "redisGetReplyFromReader c w =
     (case c_reader c of
        None \<Rightarrow> Fault NullDeref
      | Some r \<Rightarrow>
          cbind (redisReaderGetReply r (w_heap w)) (\<lambda>(res, reply, r, h).
          let c = c\<lparr>c_reader := Some r\<rparr>; w = w\<lparr>w_heap := h\<rparr> in
          if res = REDIS_ERR
          then cbind (redisSetError w c (r_err r) (Some (r_errstr r))) (\<lambda>c. Ok (REDIS_ERR, reply, c, w))
          else Ok (REDIS_OK, reply, c, w)))"

text \<open>
  The two loops of \<^verbatim>\<open>redisGetReply\<close>: each round that does not end the loop uses up an outcome of the
  socket.
\<close>

lemma sys_write_less: "sys_write d w = Ok (n, w') \<Longrightarrow> length (w_writes w') < length (w_writes w)"
  by (auto simp: sys_write_def split: list.splits sum.splits)

lemma redisBufferWrite_less:
  assumes "redisBufferWrite c w = Ok (res, False, c', w')" "res \<noteq> REDIS_ERR"
  shows "length (w_writes w') < length (w_writes w)"
proof -
  have t: "w_writes (tick w1) = w_writes w1" for w1 by (simp add: tick_def)
  obtain b where b: "c_err c = 0" "c_obuf c = Some b" "0 < sdslen b"
    using assms by (auto simp: redisBufferWrite_def split: if_splits option.splits)
  obtain d n w1 where d: "mem_slice (sh_buf b) 0 (sdslen b) = Ok d" "sys_write d w = Ok (n, w1)"
    using assms b by (auto simp: redisBufferWrite_def)
  have "w_writes w' = w_writes w1" using assms b d
    by (cases n) (auto simp: redisBufferWrite_def set_error_def t Let_def split: if_splits option.splits)
  then show ?thesis using sys_write_less [OF d(2)] by simp
qed

function write_until_done :: "redisContext \<Rightarrow> world \<Rightarrow> (int \<times> redisContext \<times> world) cres" where
  "write_until_done c w =
     cbind (redisBufferWrite c w) (\<lambda>(res, wdone, c, w).
       if res = REDIS_ERR then Ok (REDIS_ERR, c, w)
       else if \<not> wdone then write_until_done c w
       else Ok (REDIS_OK, c, w))"
  by pat_completeness auto
termination
  by (relation "measure (\<lambda>(c, w). length (w_writes w))") (auto dest: redisBufferWrite_less)

declare write_until_done.simps [simp del]

fun todo :: "(errno + string) list \<Rightarrow> nat" where
  "todo [] = 0"
| "todo (Inl _ # rs) = Suc (todo rs)"
| "todo (Inr t # rs) = Suc (length t + todo rs)"

lemma sys_read_less: "sys_read n w = Ok (x, w') \<Longrightarrow> 0 < n \<Longrightarrow> todo (w_reads w') < todo (w_reads w)"
  by (auto simp: sys_read_def split: list.splits sum.splits if_splits)

lemma redisBufferRead_less:
  assumes "redisBufferRead c w = Ok (res, c', w')" "res \<noteq> REDIS_ERR"
  shows "todo (w_reads w') < todo (w_reads w)"
proof -
  have t: "w_reads (tick w1) = w_reads w1" for w1 by (simp add: tick_def)
  have c: "c_err c = 0" using assms by (auto simp: redisBufferRead_def split: if_splits)
  obtain x w1 where x: "sys_read (1024 * 16) w = Ok (x, w1)" using assms c by (auto simp: redisBufferRead_def)
  have "w_reads w' = w_reads w1" using assms c x
    by (cases x) (auto simp: redisBufferRead_def set_error_def t Let_def split: if_splits option.splits)
  then show ?thesis using sys_read_less [OF x] by simp
qed

lemma fromReader_reads: "redisGetReplyFromReader c w = Ok (res, p, c', w') \<Longrightarrow> w_reads w' = w_reads w"
  by (auto simp: redisGetReplyFromReader_def Let_def split: if_splits option.splits)

function read_until_reply :: "redisContext \<Rightarrow> world \<Rightarrow> (int \<times> nat \<times> redisContext \<times> world) cres" where
  "read_until_reply c w =
     cbind (redisBufferRead c w) (\<lambda>(res, c, w).
       if res = REDIS_ERR then Ok (REDIS_ERR, 0, c, w)
       else cbind (redisGetReplyFromReader c w) (\<lambda>(res, aux, c, w).
         if res = REDIS_ERR then Ok (REDIS_ERR, 0, c, w)
         else if aux = 0 then read_until_reply c w
         else Ok (REDIS_OK, aux, c, w)))"
  by pat_completeness auto
termination
  by (relation "measure (\<lambda>(c, w). todo (w_reads w))") (auto dest!: redisBufferRead_less fromReader_reads)

declare read_until_reply.simps [simp del]

definition redisGetReply :: "redisContext \<Rightarrow> world \<Rightarrow> (int \<times> nat \<times> redisContext \<times> world) cres" where
  "redisGetReply c w =
     cbind (redisGetReplyFromReader c w) (\<lambda>(res, aux, c, w).
       if res = REDIS_ERR then Ok (REDIS_ERR, 0, c, w)
       else if aux = 0 \<and> blocking c then
         cbind (write_until_done c w) (\<lambda>(res, c, w).
           if res = REDIS_ERR then Ok (REDIS_ERR, 0, c, w) else read_until_reply c w)
       else Ok (REDIS_OK, aux, c, w))"

text \<open>A reply object and its parts, read through the pointers that a reader hands out.\<close>

definition obj_at :: "world \<Rightarrow> nat \<Rightarrow> redisReply cres" where
  "obj_at w p = (case hp_objs (w_heap w) p of None \<Rightarrow> Fault (if p = 0 then NullDeref else UseAfterFree) | Some r \<Rightarrow> Ok r)"

definition element_at :: "redisReply \<Rightarrow> nat \<Rightarrow> nat cres" where
  "element_at r i = (case rr_element r of None \<Rightarrow> Fault NullDeref | Some ps \<Rightarrow> if i < length ps then Ok (ps ! i) else Fault OutOfBounds)"

definition str_of :: "redisReply \<Rightarrow> mem cres" where
  "str_of r = (case rr_str r of None \<Rightarrow> Fault NullDeref | Some m \<Rightarrow> Ok m)"

section \<open>Commands\<close>

text \<open>\<open>append_cmd\<close> is the helper \<^verbatim>\<open>__redisAppendCommand\<close>.\<close>

definition append_cmd :: "redisContext \<Rightarrow> world \<Rightarrow> mem \<Rightarrow> nat \<Rightarrow> (int \<times> redisContext \<times> world) cres" where
  "append_cmd c w cmd len =
     (case c_obuf c of
        None \<Rightarrow> Fault NullDeref
      | Some b \<Rightarrow>
          cbind (nullable (sdscatlen (envs w 0 0) b cmd len)) (\<lambda>newbuf.
          let w = tick w in
          case newbuf of
            None \<Rightarrow> set_error w c REDIS_ERR_OOM (Some (cstr ''Out of memory''))
          | Some b \<Rightarrow> Ok (REDIS_OK, c\<lparr>c_obuf := Some b\<rparr>, w)))"

definition redisAppendFormattedCommand :: "redisContext \<Rightarrow> world \<Rightarrow> mem \<Rightarrow> nat \<Rightarrow> (int \<times> redisContext \<times> world) cres" where
  "redisAppendFormattedCommand c w cmd len =
     cbind (append_cmd c w cmd len) (\<lambda>(res, c, w).
       if res \<noteq> REDIS_OK then Ok (REDIS_ERR, c, w) else Ok (REDIS_OK, c, w))"

definition redisvAppendCommand :: "(string \<Rightarrow> 'd \<Rightarrow> string) \<Rightarrow> redisContext \<Rightarrow> world \<Rightarrow> string \<Rightarrow> 'd vararg list \<Rightarrow>
    (int \<times> redisContext \<times> world) cres" where
  "redisvAppendCommand dbl c w format ap =
     (let es = envs w; w = tick w in
      cbind (redisvFormatCommand dbl (es 0 0) (es 0 1) (es 0 2) (\<lambda>i. es (Suc i)) True format ap) (\<lambda>(len, cmd).
        if len = - 1 then set_error w c REDIS_ERR_OOM (Some (cstr ''Out of memory''))
        else if len = - 2 then set_error w c REDIS_ERR_OTHER (Some (cstr ''Invalid format string''))
        else case cmd of
          None \<Rightarrow> Fault NullDeref
        | Some cmd \<Rightarrow> cbind (append_cmd c w cmd (to_size len)) (\<lambda>(res, c, w).
            if res \<noteq> REDIS_OK then Ok (REDIS_ERR, c, w) else Ok (REDIS_OK, c, w))))"

definition redisAppendCommand :: "(string \<Rightarrow> 'd \<Rightarrow> string) \<Rightarrow> redisContext \<Rightarrow> world \<Rightarrow> string \<Rightarrow> 'd vararg list \<Rightarrow>
    (int \<times> redisContext \<times> world) cres" where
  "redisAppendCommand dbl c w format ap = redisvAppendCommand dbl c w format ap"

definition redisAppendCommandArgv :: "redisContext \<Rightarrow> world \<Rightarrow> int \<Rightarrow> mem list \<Rightarrow> nat list option \<Rightarrow>
    (int \<times> redisContext \<times> world) cres" where
  "redisAppendCommandArgv c w argc argv argvlen =
     (let es = envs w; w = tick w in
      cbind (redisFormatSdsCommandArgv (es 0 0) (es 0 1) (\<lambda>i. es (Suc i)) True argc argv argvlen) (\<lambda>(len, cmd).
        if len = - 1 then set_error w c REDIS_ERR_OOM (Some (cstr ''Out of memory''))
        else case cmd of
          None \<Rightarrow> Fault NullDeref
        | Some s \<Rightarrow> cbind (append_cmd c w (sh_buf s) (to_size len)) (\<lambda>(res, c, w).
            if res \<noteq> REDIS_OK then Ok (REDIS_ERR, c, w) else Ok (REDIS_OK, c, w))))"

definition redisBlockForReply :: "redisContext \<Rightarrow> world \<Rightarrow> (nat \<times> redisContext \<times> world) cres" where
  "redisBlockForReply c w =
     (if blocking c then
        cbind (redisGetReply c w) (\<lambda>(res, reply, c, w).
          if res \<noteq> REDIS_OK then Ok (0, c, w) else Ok (reply, c, w))
      else Ok (0, c, w))"

definition redisvCommand :: "(string \<Rightarrow> 'd \<Rightarrow> string) \<Rightarrow> redisContext \<Rightarrow> world \<Rightarrow> string \<Rightarrow> 'd vararg list \<Rightarrow>
    (nat \<times> redisContext \<times> world) cres" where
  "redisvCommand dbl c w format ap =
     cbind (redisvAppendCommand dbl c w format ap) (\<lambda>(res, c, w).
       if res \<noteq> REDIS_OK then Ok (0, c, w) else redisBlockForReply c w)"

definition redisCommand :: "(string \<Rightarrow> 'd \<Rightarrow> string) \<Rightarrow> redisContext \<Rightarrow> world \<Rightarrow> string \<Rightarrow> 'd vararg list \<Rightarrow>
    (nat \<times> redisContext \<times> world) cres" where
  "redisCommand dbl c w format ap = redisvCommand dbl c w format ap"

definition redisCommandArgv :: "redisContext \<Rightarrow> world \<Rightarrow> int \<Rightarrow> mem list \<Rightarrow> nat list option \<Rightarrow>
    (nat \<times> redisContext \<times> world) cres" where
  "redisCommandArgv c w argc argv argvlen =
     cbind (redisAppendCommandArgv c w argc argv argvlen) (\<lambda>(res, c, w).
       if res \<noteq> REDIS_OK then Ok (0, c, w) else redisBlockForReply c w)"


section \<open>What the operations do to the two streams\<close>

definition pending :: "redisContext \<Rightarrow> string" where
  "pending c = (case c_obuf c of None \<Rightarrow> [] | Some b \<Rightarrow> sds_content b)"

definition out_ok :: "redisContext \<Rightarrow> bool" where
  "out_ok c \<longleftrightarrow> (\<exists>b. c_obuf c = Some b \<and> sds_wf b)"

lemma redisSetError_frame:
  assumes "redisSetError w c ty str = Ok c'"
  shows "c_obuf c' = c_obuf c" "c_reader c' = c_reader c" "c_flags c' = c_flags c" "c_err c' = ty"
  using assms by (auto simp: redisSetError_def Let_def split: option.splits if_splits)

lemma set_error_frame:
  assumes "set_error w c ty str = Ok (res, c', w')"
  shows "res = REDIS_ERR" "w' = w" "c_obuf c' = c_obuf c" "c_reader c' = c_reader c" "c_flags c' = c_flags c" "c_err c' = ty"
  using assms by (auto simp: set_error_def dest: redisSetError_frame)

lemma tick_simps [simp]:
  "w_heap (tick w) = w_heap w" "w_env (tick w) = w_env w" "w_reads (tick w) = w_reads w" "w_writes (tick w) = w_writes w"
  "w_sent (tick w) = w_sent w"
  by (simp_all add: tick_def)

text \<open>A write moves a prefix of the pending bytes to the socket, and nothing else.\<close>

lemma redisBufferWrite_flow:
  assumes "out_ok c" "redisBufferWrite c w = Ok (res, wdone, c', w')"
  shows "out_ok c' \<and> w_sent w' @ pending c' = w_sent w @ pending c \<and> length (pending c') \<le> length (pending c) \<and>
    c_reader c' = c_reader c \<and> c_flags c' = c_flags c \<and>
    (res = REDIS_OK \<longrightarrow> c_err c = 0 \<and> c_err c' = 0 \<and> wdone = (pending c' = []))"
proof -
  obtain b where b: "c_obuf c = Some b" "sds_wf b" using assms(1) by (auto simp: out_ok_def)
  have pb: "pending c = sds_content b" "sdslen b = length (sds_content b)" using b by (simp_all add: pending_def sdslen_content)
  show ?thesis
  proof (cases "c_err c = 0 \<and> 0 < sdslen b")
    case False
    then show ?thesis using assms(2) b pb by (auto simp: redisBufferWrite_def out_ok_def redis_consts split: if_splits)
  next
    case True
    have sl: "mem_slice (sh_buf b) 0 (sdslen b) = Ok (sds_content b)"
      using sdslen_le_buf [OF b(2)] sds_content_prefix [OF b(2)] by (simp add: cres_simps)
    obtain n w1 where n: "sys_write (sds_content b) w = Ok (n, w1)" using assms(2) True b sl by (auto simp: redisBufferWrite_def)
    show ?thesis
    proof (cases n)
      case (Inl e)
      then have "w_sent w1 = w_sent w" using n by (auto simp: sys_write_def split: list.splits sum.splits)
      then show ?thesis
      proof (cases "retry e c")
        case True
        then show ?thesis using assms(2) \<open>c_err c = 0 \<and> 0 < sdslen b\<close> \<open>w_sent w1 = w_sent w\<close> b pb sl n Inl
          by (auto simp: redisBufferWrite_def out_ok_def pending_def redis_consts)
      next
        case False
        obtain c1 where c1: "redisSetError w1 c REDIS_ERR_IO None = Ok c1"
          using assms(2) True b sl n Inl False by (auto simp: redisBufferWrite_def set_error_def)
        then show ?thesis using redisSetError_frame [OF c1] assms(2) True \<open>w_sent w1 = w_sent w\<close> b pb sl n Inl False
          by (auto simp: redisBufferWrite_def set_error_def out_ok_def pending_def redis_consts)
      qed
    next
      case (Inr k)
      have k: "k \<le> length (sds_content b)" "w_sent w1 = w_sent w @ take k (sds_content b)"
        using n Inr by (auto simp: sys_write_def min_def split: list.splits sum.splits if_splits)
      have lim: "length (sds_content b) \<le> 2147483647" using sds_wfD(1-3) [OF b(2)] length_sds_content [OF b(2)] by simp
      have i32: "to_i32 (int k) = int k" "to_i32 (int (sdslen b)) = int (length (sds_content b))" using k lim pb(2) by simp_all
      consider "k = 0" | "0 < k" "k = length (sds_content b)" | "0 < k" "k < length (sds_content b)" using k(1) by linarith
      then show ?thesis
      proof cases
        case 1
        then show ?thesis using assms(2) True b pb sl n Inr i32 k
          by (auto simp: redisBufferWrite_def out_ok_def pending_def redis_consts)
      next
        case 2
        then show ?thesis using assms(2) True b pb sl n Inr i32 k sdsempty_spec [of "envs w1 0 0"]
          by (cases "sdsempty (envs w1 0 0)") (auto simp: redisBufferWrite_def out_ok_def pending_def redis_consts sdslen_content)
      next
        case 3
        obtain b1 where b1: "sdsrange b (int k) (- 1) = Ok b1" "sds_wf b1" "sds_content b1 = range_slice (sds_content b) (int k) (- 1)"
          using sdsrange_spec [OF b(2), of "int k" "- 1"] k(1) lim by auto
        have "range_slice (sds_content b) (int k) (- 1) = drop k (sds_content b)"
          using 3 by (simp add: range_slice_tail)
        then show ?thesis using assms(2) True b pb sl n Inr i32 k 3 b1
          by (auto simp: redisBufferWrite_def out_ok_def pending_def redis_consts sdslen_content)
      qed
    qed
  qed
qed


text \<open>Reading and taking replies leave the output alone.\<close>

definition same_out :: "redisContext \<Rightarrow> world \<Rightarrow> redisContext \<Rightarrow> world \<Rightarrow> bool" where
  "same_out c w c' w' \<longleftrightarrow> c_obuf c' = c_obuf c \<and> c_flags c' = c_flags c \<and> w_sent w' = w_sent w \<and> w_writes w' = w_writes w"

lemma sys_read_out: "sys_read n w = Ok (x, w') \<Longrightarrow> w_sent w' = w_sent w \<and> w_writes w' = w_writes w"
  by (auto simp: sys_read_def split: list.splits sum.splits if_splits)

lemma redisBufferRead_out:
  assumes "redisBufferRead c w = Ok (res, c', w')"
  shows "same_out c w c' w'"
proof (cases "c_err c = 0")
  case True
  obtain x w1 where x: "sys_read (1024 * 16) w = Ok (x, w1)" using assms True by (auto simp: redisBufferRead_def)
  note o = sys_read_out [OF x]
  show ?thesis
  proof (cases x)
    case (Inl e)
    then show ?thesis using assms True x o by (auto simp: redisBufferRead_def same_out_def split: if_splits dest: set_error_frame)
  next
    case (Inr t)
    show ?thesis
    proof (cases "t = []")
      case True
      then show ?thesis using assms \<open>c_err c = 0\<close> x o Inr by (auto simp: redisBufferRead_def same_out_def dest: set_error_frame)
    next
      case False
      obtain r res1 r1 h1 where "c_reader c = Some r"
        "redisReaderFeed (envs w1 0 0) (envs w1 0 1) r (Some t) (length t) (w_heap w1) = Ok (res1, r1, h1)"
        using assms True x Inr False by (auto simp: redisBufferRead_def split: option.splits)
      then show ?thesis using assms True x Inr False o
        by (auto simp: redisBufferRead_def same_out_def Let_def split: if_splits dest: set_error_frame)
    qed
  qed
qed (use assms in \<open>simp add: redisBufferRead_def same_out_def\<close>)

lemma fromReader_out: "redisGetReplyFromReader c w = Ok (res, p, c', w') \<Longrightarrow> same_out c w c' w'"
  by (auto simp: redisGetReplyFromReader_def same_out_def Let_def split: if_splits option.splits dest: redisSetError_frame)

lemma same_out_trans: "same_out c w c1 w1 \<Longrightarrow> same_out c1 w1 c2 w2 \<Longrightarrow> same_out c w c2 w2"
  by (simp add: same_out_def)

lemma same_out_flow: "same_out c w c' w' \<Longrightarrow> out_ok c' = out_ok c \<and> pending c' = pending c \<and> w_sent w' = w_sent w \<and> blocking c' = blocking c"
  by (simp add: same_out_def out_ok_def pending_def blocking_def)

lemma read_until_reply_out: "read_until_reply c w = Ok (res, p, c', w') \<Longrightarrow> same_out c w c' w'"
proof (induction c w arbitrary: res p c' w' rule: read_until_reply.induct)
  case (1 c w)
  obtain res1 c1 w1 where r: "redisBufferRead c w = Ok (res1, c1, w1)" using 1(2) by (auto simp: read_until_reply.simps [of c])
  note o = redisBufferRead_out [OF r]
  show ?case
  proof (cases "res1 = REDIS_ERR")
    case False
    obtain res2 a c2 w2 where g: "redisGetReplyFromReader c1 w1 = Ok (res2, a, c2, w2)"
      using 1(2) r False by (auto simp: read_until_reply.simps [of c])
    note o = same_out_trans [OF o fromReader_out [OF g]]
    show ?thesis
    proof (cases "res2 \<noteq> REDIS_ERR \<and> a = 0")
      case True
      then have "read_until_reply c2 w2 = Ok (res, p, c', w')" using 1(2) r False g by (simp add: read_until_reply.simps [of c])
      then show ?thesis using same_out_trans [OF o] 1(1) [OF r refl refl False g refl refl refl] True by blast
    qed (use 1(2) r False g o in \<open>auto simp: read_until_reply.simps [of c] split: if_splits\<close>)
  qed (use 1(2) r o in \<open>simp add: read_until_reply.simps [of c]\<close>)
qed

text \<open>Pending bytes move to the socket in order; the sum of both streams stays.\<close>

definition keeps_flow :: "redisContext \<Rightarrow> world \<Rightarrow> redisContext \<Rightarrow> world \<Rightarrow> bool" where
  "keeps_flow c w c' w' \<longleftrightarrow> out_ok c' \<and> w_sent w' @ pending c' = w_sent w @ pending c \<and> length (pending c') \<le> length (pending c)"

lemma keeps_flow_trans: "keeps_flow c w c1 w1 \<Longrightarrow> keeps_flow c1 w1 c2 w2 \<Longrightarrow> keeps_flow c w c2 w2"
  by (simp add: keeps_flow_def)

lemma same_out_keeps: "same_out c w c' w' \<Longrightarrow> out_ok c \<Longrightarrow> keeps_flow c w c' w'"
  using same_out_flow [of c w c' w'] by (simp add: keeps_flow_def)

lemma write_until_done_flow: "write_until_done c w = Ok (res, c', w') \<Longrightarrow> out_ok c \<Longrightarrow> keeps_flow c w c' w'"
proof (induction c w arbitrary: res c' w' rule: write_until_done.induct)
  case (1 c w)
  obtain res1 d c1 w1 where r: "redisBufferWrite c w = Ok (res1, d, c1, w1)" using 1(2) by (auto simp: write_until_done.simps [of c])
  have o: "keeps_flow c w c1 w1" "out_ok c1" using redisBufferWrite_flow [OF 1(3) r] by (auto simp: keeps_flow_def)
  show ?case
  proof (cases "res1 \<noteq> REDIS_ERR \<and> \<not> d")
    case True
    then have "write_until_done c1 w1 = Ok (res, c', w')" using 1(2) r by (simp add: write_until_done.simps [of c])
    then show ?thesis using keeps_flow_trans [OF o(1)] 1(1) [OF r refl refl refl] True o(2) by blast
  qed (use 1(2) r o in \<open>auto simp: write_until_done.simps [of c] split: if_splits\<close>)
qed

lemma redisGetReply_flow:
  assumes "out_ok c" "redisGetReply c w = Ok (res, p, c', w')"
  shows "keeps_flow c w c' w'"
proof -
  obtain res1 a c1 w1 where g: "redisGetReplyFromReader c w = Ok (res1, a, c1, w1)" using assms(2) by (auto simp: redisGetReply_def)
  note o = same_out_keeps [OF fromReader_out [OF g] assms(1)]
  show ?thesis
  proof (cases "res1 \<noteq> REDIS_ERR \<and> a = 0 \<and> blocking c1")
    case True
    obtain res2 c2 w2 where w: "write_until_done c1 w1 = Ok (res2, c2, w2)" using assms(2) g True by (auto simp: redisGetReply_def)
    have o2: "keeps_flow c w c2 w2" using keeps_flow_trans [OF o write_until_done_flow [OF w]] o by (simp add: keeps_flow_def)
    have "out_ok c2" using o2 by (simp add: keeps_flow_def)
    then show ?thesis using assms(2) g True w o2 keeps_flow_trans [OF o2 same_out_keeps [OF read_until_reply_out]]
      by (auto simp: redisGetReply_def split: if_splits)
  qed (use assms(2) g o in \<open>auto simp: redisGetReply_def split: if_splits\<close>)
qed

lemma append_cmd_flow:
  assumes "out_ok c" "n \<le> length t" "sds_fits (length (pending c) + n)" "append_cmd c w t n = Ok (res, c', w')"
  shows "out_ok c' \<and> w_sent w' = w_sent w \<and> pending c' = pending c @ (if res = REDIS_OK then take n t else [])"
proof -
  obtain b where b: "c_obuf c = Some b" "sds_wf b" using assms(1) by (auto simp: out_ok_def)
  have "sds_fits (sdslen b + n)" using assms(3) b by (simp add: pending_def sdslen_content)
  from sdscatlen_spec [OF b(2) assms(2) this, of "envs w 0 0"] assms(4) b show ?thesis
    by (cases "sdscatlen (envs w 0 0) b t n")
      (auto simp: append_cmd_def out_ok_def pending_def Let_def redis_consts set_error_def dest: redisSetError_frame)
qed


section \<open>Any sequence of calls\<close>

datatype call = Append string | BufferRead | BufferWrite | GetReply

fun run_call :: "call \<Rightarrow> redisContext \<Rightarrow> world \<Rightarrow> (int \<times> redisContext \<times> world) cres" where
  "run_call (Append t) c w = redisAppendFormattedCommand c w t (length t)"
| "run_call BufferRead c w = redisBufferRead c w"
| "run_call BufferWrite c w = cbind (redisBufferWrite c w) (\<lambda>(res, _, c, w). Ok (res, c, w))"
| "run_call GetReply c w = cbind (redisGetReply c w) (\<lambda>(res, _, c, w). Ok (res, c, w))"

fun run_calls :: "call list \<Rightarrow> redisContext \<Rightarrow> world \<Rightarrow> (int list \<times> redisContext \<times> world) cres" where
  "run_calls [] c w = Ok ([], c, w)"
| "run_calls (x # xs) c w =
     cbind (run_call x c w) (\<lambda>(res, c, w). cbind (run_calls xs c w) (\<lambda>(rs, c, w). Ok (res # rs, c, w)))"

text \<open>The bytes of a call that were handed over for sending.\<close>

fun appended :: "call \<Rightarrow> string" where
  "appended (Append t) = t"
| "appended _ = []"

definition accepted :: "call list \<Rightarrow> int list \<Rightarrow> string" where
  "accepted xs rs = concat (map2 (\<lambda>x r. if r = REDIS_OK then appended x else []) xs rs)"

lemma run_call_flow:
  assumes "out_ok c" "sds_fits (length (pending c) + length (appended x))" "run_call x c w = Ok (res, c', w')"
  shows "out_ok c' \<and> w_sent w' @ pending c' = w_sent w @ pending c @ (if res = REDIS_OK then appended x else []) \<and>
    length (pending c') \<le> length (pending c) + length (appended x)"
proof (cases x)
  case (Append t)
  obtain res1 where "append_cmd c w t (length t) = Ok (res1, c', w')" "(res = REDIS_OK) = (res1 = REDIS_OK)"
    using assms(3) Append by (auto simp: redisAppendFormattedCommand_def redis_consts split: if_splits)
  then show ?thesis using append_cmd_flow [OF assms(1), of "length t" t w res1 c' w'] assms(2) Append by simp
next
  case BufferRead
  then show ?thesis using same_out_flow [OF redisBufferRead_out, of c w res c' w'] assms(1,3) by simp
next
  case BufferWrite
  then obtain d where "redisBufferWrite c w = Ok (res, d, c', w')" using assms(3) by auto
  then show ?thesis using redisBufferWrite_flow [OF assms(1)] BufferWrite by auto
next
  case GetReply
  then obtain p where "redisGetReply c w = Ok (res, p, c', w')" using assms(3) by auto
  then show ?thesis using redisGetReply_flow [OF assms(1)] GetReply by (auto simp: keeps_flow_def)
qed

lemma run_calls_flow:
  "out_ok c \<Longrightarrow> sds_fits (length (pending c) + length (concat (map appended xs))) \<Longrightarrow> run_calls xs c w = Ok (rs, c', w') \<Longrightarrow>
   out_ok c' \<and> w_sent w' @ pending c' = w_sent w @ pending c @ accepted xs rs"
proof (induction xs arbitrary: c w rs)
  case (Cons x xs)
  obtain res c1 w1 rs' where r: "run_call x c w = Ok (res, c1, w1)" "run_calls xs c1 w1 = Ok (rs', c', w')" "rs = res # rs'"
    using Cons.prems(3) by auto
  have "sds_fits (length (pending c) + length (appended x))" by (rule sds_fits_mono [OF Cons.prems(2)]) simp
  note f = run_call_flow [OF Cons.prems(1) this r(1)]
  have "sds_fits (length (pending c1) + length (concat (map appended xs)))"
    by (rule sds_fits_mono [OF Cons.prems(2)]) (use f in simp)
  from Cons.IH [OF _ this r(2)] f r(3) show ?case
    by (metis (no_types, lifting) accepted_def append.assoc concat.simps(2) list.map(2) prod.case zip_Cons_Cons)
qed (simp add: accepted_def)

section \<open>Creation\<close>

lemma redisConnectFd_fresh:
  assumes "redisConnectFd fd w0 = Ok (Some c, w)"
  shows "out_ok c" "pending c = []" "c_err c = 0" "blocking c" "w_sent w = w_sent w0" "w_reads w = w_reads w0"
    "w_writes w = w_writes w0" "w_env w = w_env w0" "w_heap w = w_heap w0"
    "\<exists>r e. c_reader c = Some r \<and> redisReaderCreate e = Ok r"
proof -
  obtain ob rd where i: "sdsempty (envs w0 0 1) = Ok ob" "redisReaderCreate (envs w0 0 2) = Ok rd"
    "c_obuf c = Some ob" "c_reader c = Some rd" "c_err c = 0" "c_flags c = 0 OR (REDIS_BLOCK OR REDIS_CONNECTED)"
    "w = tick w0\<lparr>w_users := w_users w0 + 1\<rparr>"
    using assms by (auto simp: redisConnectFd_def redisContextInit_def Let_def elim!: nullable.elims split: if_splits option.splits)
  have "sds_wf ob \<and> sds_content ob = []" using sdsempty_spec [of "envs w0 0 1"] i(1) by simp
  then show "out_ok c" "pending c = []" using i by (simp_all add: out_ok_def pending_def)
  show "blocking c" unfolding blocking_def i(6) REDIS_BLOCK_def REDIS_CONNECTED_def by simp
  show "\<exists>r e. c_reader c = Some r \<and> redisReaderCreate e = Ok r" using i by blast
  show "c_err c = 0" "w_sent w = w_sent w0" "w_reads w = w_reads w0" "w_writes w = w_writes w0" "w_env w = w_env w0" "w_heap w = w_heap w0"
    using i by simp_all
qed


section \<open>Waiting for a reply\<close>

text \<open>The bytes that are still to be read, and a socket on which only interrupted calls fail.\<close>

fun data :: "(errno + string) list \<Rightarrow> string" where
  "data [] = []"
| "data (Inl _ # rs) = data rs"
| "data (Inr t # rs) = t @ data rs"

fun reads_ok :: "(errno + string) list \<Rightarrow> bool" where
  "reads_ok [] \<longleftrightarrow> True"
| "reads_ok (Inl e # rs) \<longleftrightarrow> e = EINTR \<and> reads_ok rs"
| "reads_ok (Inr t # rs) \<longleftrightarrow> t \<noteq> [] \<and> reads_ok rs"

definition env_ok :: "world \<Rightarrow> bool" where
  "env_ok w \<longleftrightarrow> (\<forall>k i j. alloc_ok (w_env w k i j))"

lemma env_okD: "env_ok w \<Longrightarrow> alloc_ok (envs w i j)"
  by (simp add: env_ok_def envs_def)

definition rd_ok :: "redisContext \<Rightarrow> world \<Rightarrow> heap redisReader \<Rightarrow> bool" where
  "rd_ok c w r \<longleftrightarrow> c_err c = 0 \<and> c_reader c = Some r \<and> reader_inv r \<and> r_err r = 0 \<and> reads_ok (w_reads w) \<and> env_ok w \<and>
     sds_fits (r_len r + length (data (w_reads w)))"

text \<open>
  When the bytes held and the bytes to come make up a reply, asking the reader gives the reply or
  brings it closer.
\<close>

lemma getReply_progress:
  assumes "reader_inv r" "r_err r = 0" "a_get (start (core r)) (rest_of r @ u) h = Ok (REDIS_OK, p, k, t', h')" "p \<noteq> 0"
  shows "\<exists>q r1 h1. redisReaderGetReply r h = Ok (REDIS_OK, q, r1, h1) \<and> reader_inv r1 \<and> r_err r1 = 0 \<and> r_len r1 \<le> r_len r \<and>
    (q = p \<and> h1 = h' \<and> start (core r1) = k \<and> t' = rest_of r1 @ u \<or>
     q = 0 \<and> u \<noteq> [] \<and> a_get (start (core r1)) (rest_of r1 @ u) h1 = Ok (REDIS_OK, p, k, t', h'))"
proof -
  let ?c = "start (core r)"
  have lv: "live ?c" by (rule reader_live [OF assms(1,2)])
  then have c: "core_inv ?c" "?c = core ?c" "r_err ?c = 0" by (auto simp: live_def)
  note ap = a_loop_append [OF c, of "rest_of r" u h]
  obtain c1 t1 h1 where l: "a_loop ?c (rest_of r) h = Ok (c1, t1, h1)"
    using assms(3) ap unfolding a_get_live [OF lv] by (cases "a_loop ?c (rest_of r) h") auto
  have fin: "\<exists>r1. redisReaderGetReply r h = Ok (REDIS_OK, q, r1, h1) \<and> reader_inv r1 \<and> r_err r1 = 0 \<and> r_len r1 \<le> r_len r \<and>
      start (core r1) = c2 \<and> rest_of r1 = t1"
    if ag: "a_get ?c (rest_of r) h = Ok (REDIS_OK, q, c2, t1, h1)" for q c2
  proof -
    obtain r1 where r1: "redisReaderGetReply r h = Ok (REDIS_OK, q, r1, h1)" "start (core r1) = c2" "rest_of r1 = t1"
      using getReply_refines [OF assms(1), of h] ag by (cases "redisReaderGetReply r h") auto
    have "r_err c2 = 0" using a_get_err [OF ag] by simp
    then have "r_err r1 = 0" using r1(2) by auto
    then show ?thesis using r1 getReply_inv [OF assms(1) r1(1)] by blast
  qed
  from lv l show ?thesis
  proof (cases rule: a_loop_cases)
    case error
    then show ?thesis using assms(3) ap l unfolding a_get_live [OF lv] by (simp add: redis_consts)
  next
    case reply
    have "a_loop ?c (rest_of r @ u) h = Ok (c1, t1 @ u, h1)" using ap l reply by (simp add: a_loop.simps [of c1])
    then have e: "p = r_reply c1" "k = start (c1\<lparr>r_reply := 0\<rparr>)" "t' = t1 @ u" "h' = h1"
      using assms(3) reply unfolding a_get_live [OF lv] by auto
    have "a_get ?c (rest_of r) h = Ok (REDIS_OK, p, k, t1, h1)" using l reply e unfolding a_get_live [OF lv] by simp
    from fin [OF this] show ?thesis using e by blast
  next
    case wait
    have g: "a_get ?c (rest_of r) h = Ok (REDIS_OK, 0, c1, t1, h1)" using l wait unfolding a_get_live [OF lv] by (auto simp: live_def)
    then have u: "u \<noteq> []" using assms(3,4) by auto
    have "a_loop ?c (rest_of r @ u) h = a_loop c1 (t1 @ u) h1" using ap l wait by (simp add: live_def)
    then have "a_get c1 (t1 @ u) h1 = Ok (REDIS_OK, p, k, t', h')" using assms(3) wait unfolding a_get_live [OF lv] by (simp add: a_get_live)
    then show ?thesis using fin [OF g] u by blast
  qed
qed

lemma redisBufferRead_step:
  assumes "rd_ok c w r" "data (w_reads w) \<noteq> []"
  shows "\<exists>c' w' r'. redisBufferRead c w = Ok (REDIS_OK, c', w') \<and> rd_ok c' w' r' \<and> core r' = core r \<and> w_heap w' = w_heap w \<and>
    rest_of r' @ data (w_reads w') = rest_of r @ data (w_reads w)"
proof -
  obtain x rs where x: "w_reads w = x # rs" using assms(2) by (cases "w_reads w") auto
  have rd: "c_err c = 0" "c_reader c = Some r" "reader_inv r" "r_err r = 0" "env_ok w" using assms(1) by (auto simp: rd_ok_def)
  show ?thesis
  proof (cases x)
    case (Inl e)
    then show ?thesis using assms(1) x rd
      by (auto simp: redisBufferRead_def sys_read_def retry_def rd_ok_def env_ok_def)
  next
    case (Inr t)
    define t1 w1 where "t1 = take 16384 t" and "w1 = w\<lparr>w_reads := (if length t \<le> 16384 then rs else Inr (drop 16384 t) # rs)\<rparr>"
    have s: "sys_read (1024 * 16) w = Ok (Inr t1, w1)" using x Inr by (auto simp: sys_read_def t1_def w1_def)
    have d: "t1 @ data (w_reads w1) = data (w_reads w)" "t1 \<noteq> []" "reads_ok (w_reads w1)" "env_ok w1" "w_heap w1 = w_heap w"
      using assms(1) x Inr by (auto simp: t1_def w1_def rd_ok_def env_ok_def)
    have len: "length t1 + length (data (w_reads w1)) = length (data (w_reads w))" using d(1) by (metis length_append)
    have "sds_fits (r_len r + length (data (w_reads w)))" using assms(1) by (simp add: rd_ok_def)
    then have fit: "sds_fits (r_len r + length t1)" by (rule sds_fits_mono) (use len in simp)
    obtain r1 where r1: "redisReaderFeed (envs w1 0 0) (envs w1 0 1) r (Some t1) (length t1) (w_heap w1) = Ok (REDIS_OK, r1, w_heap w1)"
      "reader_inv r1" "core r1 = core r" "rest_of r1 = rest_of r @ t1" "r_len r1 \<le> r_len r + length t1"
      using feed_spec [OF rd(3,4) env_okD [OF d(4)] env_okD [OF d(4)] fit] by blast
    have "r_err r1 = 0" using arg_cong [OF r1(3), of r_err] rd(4) by simp
    moreover have "sds_fits (r_len r1 + length (data (w_reads w1)))"
      by (rule sds_fits_mono [of "r_len r + length (data (w_reads w))"]) (use assms(1) r1(5) len in \<open>auto simp: rd_ok_def\<close>)
    ultimately show ?thesis using s d r1 rd
      by (intro exI [of _ "c\<lparr>c_reader := Some r1\<rparr>"] exI [of _ "tick w1\<lparr>w_heap := w_heap w\<rparr>"] exI [of _ r1])
        (simp add: redisBufferRead_def rd_ok_def env_ok_def)
  qed
qed

lemma fromReader_step:
  assumes "rd_ok c w r" "a_get (start (core r)) (rest_of r @ data (w_reads w)) (w_heap w) = Ok (REDIS_OK, p, k, t', h')" "p \<noteq> 0"
  shows "\<exists>q c1 w1 r1. redisGetReplyFromReader c w = Ok (REDIS_OK, q, c1, w1) \<and> rd_ok c1 w1 r1 \<and> w_reads w1 = w_reads w \<and>
    (q = p \<and> w_heap w1 = h' \<and> start (core r1) = k \<and> t' = rest_of r1 @ data (w_reads w1) \<or>
     q = 0 \<and> data (w_reads w1) \<noteq> [] \<and>
       a_get (start (core r1)) (rest_of r1 @ data (w_reads w1)) (w_heap w1) = Ok (REDIS_OK, p, k, t', h'))"
proof -
  have rd: "c_err c = 0" "c_reader c = Some r" "reader_inv r" "r_err r = 0" using assms(1) by (auto simp: rd_ok_def)
  obtain q r1 h1 where g: "redisReaderGetReply r (w_heap w) = Ok (REDIS_OK, q, r1, h1)" "reader_inv r1" "r_err r1 = 0" "r_len r1 \<le> r_len r"
    "q = p \<and> h1 = h' \<and> start (core r1) = k \<and> t' = rest_of r1 @ data (w_reads w) \<or>
     q = 0 \<and> data (w_reads w) \<noteq> [] \<and> a_get (start (core r1)) (rest_of r1 @ data (w_reads w)) h1 = Ok (REDIS_OK, p, k, t', h')"
    using getReply_progress [OF rd(3,4) assms(2,3)] by blast
  have "sds_fits (r_len r1 + length (data (w_reads w)))"
    by (rule sds_fits_mono [of "r_len r + length (data (w_reads w))"]) (use assms(1) g(4) in \<open>auto simp: rd_ok_def\<close>)
  then have "rd_ok (c\<lparr>c_reader := Some r1\<rparr>) (w\<lparr>w_heap := h1\<rparr>) r1" using assms(1) g(2,3) by (simp add: rd_ok_def env_ok_def)
  then show ?thesis using g rd
    by (intro exI [of _ q] exI [of _ "c\<lparr>c_reader := Some r1\<rparr>"] exI [of _ "w\<lparr>w_heap := h1\<rparr>"] exI [of _ r1])
      (simp add: redisGetReplyFromReader_def redis_consts)
qed

lemma read_until_reply_gets:
  "rd_ok c w r \<Longrightarrow> data (w_reads w) \<noteq> [] \<Longrightarrow> p \<noteq> 0 \<Longrightarrow>
   a_get (start (core r)) (rest_of r @ data (w_reads w)) (w_heap w) = Ok (REDIS_OK, p, k, t', h') \<Longrightarrow>
   \<exists>c' w' r'. read_until_reply c w = Ok (REDIS_OK, p, c', w') \<and> rd_ok c' w' r' \<and> w_heap w' = h' \<and> start (core r') = k \<and>
     t' = rest_of r' @ data (w_reads w')"
proof (induction "todo (w_reads w)" arbitrary: c w r rule: less_induct)
  case less
  obtain c1 w1 r1 where b: "redisBufferRead c w = Ok (REDIS_OK, c1, w1)" "rd_ok c1 w1 r1" "core r1 = core r" "w_heap w1 = w_heap w"
    "rest_of r1 @ data (w_reads w1) = rest_of r @ data (w_reads w)"
    using redisBufferRead_step [OF less.prems(1,2)] by blast
  have "a_get (start (core r1)) (rest_of r1 @ data (w_reads w1)) (w_heap w1) = Ok (REDIS_OK, p, k, t', h')"
    using less.prems(4) unfolding b(3-5) .
  from fromReader_step [OF b(2) this less.prems(3)] obtain q c2 w2 r2 where
    g: "redisGetReplyFromReader c1 w1 = Ok (REDIS_OK, q, c2, w2)" "rd_ok c2 w2 r2" "w_reads w2 = w_reads w1"
      "q = p \<and> w_heap w2 = h' \<and> start (core r2) = k \<and> t' = rest_of r2 @ data (w_reads w2) \<or>
       q = 0 \<and> data (w_reads w2) \<noteq> [] \<and> a_get (start (core r2)) (rest_of r2 @ data (w_reads w2)) (w_heap w2) = Ok (REDIS_OK, p, k, t', h')"
    by blast
  have e: "REDIS_OK \<noteq> REDIS_ERR" by (simp add: redis_consts)
  have u: "read_until_reply c w = (if q = 0 then read_until_reply c2 w2 else Ok (REDIS_OK, q, c2, w2))"
    using b(1) g(1) e by (simp add: read_until_reply.simps [of c])
  from g(4) show ?case
  proof
    assume q: "q = 0 \<and> data (w_reads w2) \<noteq> [] \<and>
      a_get (start (core r2)) (rest_of r2 @ data (w_reads w2)) (w_heap w2) = Ok (REDIS_OK, p, k, t', h')"
    have "todo (w_reads w2) < todo (w_reads w)" using redisBufferRead_less [OF b(1) e] g(3) by simp
    from less.hyps [OF this g(2) _ less.prems(3)] q u show ?thesis by simp
  next
    assume "q = p \<and> w_heap w2 = h' \<and> start (core r2) = k \<and> t' = rest_of r2 @ data (w_reads w2)"
    then show ?thesis using u g(2) less.prems(3) by auto
  qed
qed


section \<open>Flushing the output\<close>

fun capacity :: "(errno + nat) list \<Rightarrow> nat" where
  "capacity [] = 0"
| "capacity (Inl _ # ws) = capacity ws"
| "capacity (Inr n # ws) = n + capacity ws"

fun writes_ok :: "(errno + nat) list \<Rightarrow> bool" where
  "writes_ok [] \<longleftrightarrow> True"
| "writes_ok (Inl e # ws) \<longleftrightarrow> e = EINTR \<and> writes_ok ws"
| "writes_ok (Inr _ # ws) \<longleftrightarrow> writes_ok ws"

definition wr_ok :: "redisContext \<Rightarrow> world \<Rightarrow> bool" where
  "wr_ok c w \<longleftrightarrow> c_err c = 0 \<and> out_ok c \<and> env_ok w \<and> writes_ok (w_writes w) \<and> length (pending c) \<le> capacity (w_writes w)"

definition same_in :: "redisContext \<Rightarrow> world \<Rightarrow> redisContext \<Rightarrow> world \<Rightarrow> bool" where
  "same_in c w c' w' \<longleftrightarrow> c_reader c' = c_reader c \<and> c_flags c' = c_flags c \<and> w_reads w' = w_reads w \<and> w_heap w' = w_heap w \<and> w_env w' = w_env w"

lemma redisBufferWrite_goes:
  assumes "c_err c = 0" "out_ok c" "env_ok w" "writes_ok (w_writes w)" "pending c = [] \<or> w_writes w \<noteq> []"
  shows "\<exists>c' w'. redisBufferWrite c w = Ok (REDIS_OK, pending c' = [], c', w') \<and> c_err c' = 0 \<and> out_ok c' \<and> env_ok w' \<and>
    writes_ok (w_writes w') \<and> same_in c w c' w' \<and> length (pending c') \<le> length (pending c) \<and>
    (length (pending c) \<le> capacity (w_writes w) \<longrightarrow> length (pending c') \<le> capacity (w_writes w'))"
proof -
  obtain b where b: "c_err c = 0" "c_obuf c = Some b" "sds_wf b" "env_ok w" "writes_ok (w_writes w)"
    "pending c = sds_content b" "sdslen b = length (sds_content b)"
    using assms by (auto simp: out_ok_def pending_def sdslen_content)
  show ?thesis
  proof (cases "pending c = []")
    case True
    then show ?thesis using assms b
      by (intro exI [of _ c] exI [of _ w]) (auto simp: redisBufferWrite_def same_in_def redis_consts)
  next
    case False
    obtain x ws where x: "w_writes w = x # ws" using assms(5) False by (cases "w_writes w") auto
    have sl: "mem_slice (sh_buf b) 0 (sdslen b) = Ok (sds_content b)"
      using sdslen_le_buf [OF b(3)] sds_content_prefix [OF b(3)] by (simp add: cres_simps)
    have e: "REDIS_OK \<noteq> REDIS_ERR" by (simp add: redis_consts)
    show ?thesis
    proof (cases x)
      case (Inl er)
      let ?w = "w\<lparr>w_writes := ws, w_errno := er\<rparr>"
      have "redisBufferWrite c w = Ok (REDIS_OK, pending c = [], c, ?w)"
        using b x Inl sl False e by (simp add: redisBufferWrite_def sys_write_def retry_def)
      then show ?thesis using assms x Inl by (auto simp: env_ok_def same_in_def)
    next
      case (Inr k)
      define m w1 where "m = min k (length (sds_content b))" and "w1 = w\<lparr>w_writes := ws, w_sent := w_sent w @ take k (sds_content b)\<rparr>"
      have s: "sys_write (sds_content b) w = Ok (Inr m, w1)" using x Inr by (simp add: sys_write_def m_def w1_def)
      have lim: "length (sds_content b) \<le> 2147483647" using sds_wfD(1-3) [OF b(3)] length_sds_content [OF b(3)] by simp
      have m: "m \<le> length (sds_content b)" "to_i32 (int m) = int m" using lim by (simp_all add: m_def)
      have w1: "env_ok w1" "writes_ok (w_writes w1)" "length (pending c) \<le> capacity (w_writes w) \<Longrightarrow> length (pending c) - m \<le> capacity (w_writes w1)"
        using b x Inr by (auto simp: w1_def env_ok_def m_def)
      have done_at: ?thesis if "redisBufferWrite c w = Ok (REDIS_OK, pending c1 = [], c1, w2)" "out_ok c1" "c_err c1 = 0"
          "length (pending c1) \<le> length (pending c) - m" "c_reader c1 = c_reader c" "c_flags c1 = c_flags c"
          "w2 = w1 \<or> w2 = tick w1" for c1 w2
        using that w1 by (intro exI [of _ c1] exI [of _ w2]) (auto simp: env_ok_def same_in_def w1_def)
      consider "m = 0" | "0 < m" "m = length (sds_content b)" | "0 < m" "m < length (sds_content b)" using m(1) by linarith
      then show ?thesis
      proof cases
        case 1
        then show ?thesis using b sl s e False assms by (intro done_at [of c w1]) (auto simp: redisBufferWrite_def)
      next
        case 2
        obtain b1 where b1: "sdsempty (envs w1 0 0) = Ok b1" "sds_wf b1" "sds_content b1 = []"
          using returns_ex [OF sdsempty_spec env_okD [OF w1(1)]] by blast
        then show ?thesis using b sl s e False 2 lim
          by (intro done_at [of "c\<lparr>c_obuf := Some b1\<rparr>" "tick w1"]) (auto simp: redisBufferWrite_def pending_def out_ok_def sdslen_content)
      next
        case 3
        obtain b1 where b1: "sdsrange b (int m) (- 1) = Ok b1" "sds_wf b1" "sds_content b1 = drop m (sds_content b)"
          using sdsrange_spec [OF b(3), of "int m" "- 1"] m lim range_slice_tail [OF m(1)] by auto
        then show ?thesis using b sl s e False 3 m lim
          by (intro done_at [of "c\<lparr>c_obuf := Some b1\<rparr>" w1]) (auto simp: redisBufferWrite_def pending_def out_ok_def sdslen_content)
      qed
    qed
  qed
qed

lemma redisBufferWrite_step:
  assumes "wr_ok c w"
  shows "\<exists>c' w'. redisBufferWrite c w = Ok (REDIS_OK, pending c' = [], c', w') \<and> wr_ok c' w' \<and> same_in c w c' w'"
proof -
  have "pending c = [] \<or> w_writes w \<noteq> []" using assms by (auto simp: wr_ok_def)
  from redisBufferWrite_goes [OF _ _ _ _ this] assms show ?thesis by (auto simp: wr_ok_def)
qed

lemma write_until_done_step:
  "wr_ok c w \<Longrightarrow> \<exists>c' w'. write_until_done c w = Ok (REDIS_OK, c', w') \<and> wr_ok c' w' \<and> same_in c w c' w' \<and> pending c' = []"
proof (induction "length (w_writes w)" arbitrary: c w rule: less_induct)
  case less
  obtain c1 w1 where b: "redisBufferWrite c w = Ok (REDIS_OK, pending c1 = [], c1, w1)" "wr_ok c1 w1" "same_in c w c1 w1"
    using redisBufferWrite_step [OF less.prems] by blast
  have e: "REDIS_OK \<noteq> REDIS_ERR" by (simp add: redis_consts)
  have u: "write_until_done c w = (if pending c1 = [] then Ok (REDIS_OK, c1, w1) else write_until_done c1 w1)"
    using b(1) e by (simp add: write_until_done.simps [of c])
  show ?case
  proof (cases "pending c1 = []")
    case False
    have "length (w_writes w1) < length (w_writes w)" using redisBufferWrite_less [OF _ e] b(1) False by simp
    from less.hyps [OF this b(2)] show ?thesis using u False b(3) by (auto simp: same_in_def)
  qed (use u b in auto)
qed

section \<open>The blocking client\<close>

lemma getReply_empty:
  assumes "reader_inv r" "r_err r = 0" "rest_of r = []" "redisReaderGetReply r h = Ok (res, q, r', h')"
  shows "q = 0"
proof -
  have lv: "live (start (core r))" by (rule reader_live [OF assms(1,2)])
  then have "a_loop (start (core r)) [] h = Ok (start (core r), [], h)" by (intro a_loop_empty) (auto simp: live_def)
  then have "a_get (start (core r)) [] h = Ok (REDIS_OK, 0, start (core r), [], h)" using lv unfolding a_get_live [OF lv] by (auto simp: live_def)
  then show ?thesis using getReply_refines [OF assms(1), of h] assms(3,4) by simp
qed

lemma same_in_rd: "same_in c w c' w' \<Longrightarrow> rd_ok c w r \<Longrightarrow> c_err c' = 0 \<Longrightarrow> rd_ok c' w' r"
  by (simp add: same_in_def rd_ok_def env_ok_def)

lemma same_out_wr: "same_out c w c' w' \<Longrightarrow> wr_ok c w \<Longrightarrow> rd_ok c' w' r \<Longrightarrow> wr_ok c' w'"
  using same_out_flow [of c w c' w'] by (simp add: same_out_def wr_ok_def rd_ok_def)

lemma redisGetReply_gets:
  assumes "rd_ok c w r" "wr_ok c w" "blocking c" "p \<noteq> 0" "rest_of r = [] \<or> pending c = []"
    "a_get (start (core r)) (rest_of r @ data (w_reads w)) (w_heap w) = Ok (REDIS_OK, p, k, t', h')"
  shows "\<exists>c' w' r'. redisGetReply c w = Ok (REDIS_OK, p, c', w') \<and> rd_ok c' w' r' \<and> wr_ok c' w' \<and> blocking c' \<and>
    w_heap w' = h' \<and> start (core r') = k \<and> t' = rest_of r' @ data (w_reads w') \<and> pending c' = [] \<and> w_sent w' = w_sent w @ pending c"
proof -
  obtain q c1 w1 r1 where g: "redisGetReplyFromReader c w = Ok (REDIS_OK, q, c1, w1)" "rd_ok c1 w1 r1" "w_reads w1 = w_reads w"
    "q = p \<and> w_heap w1 = h' \<and> start (core r1) = k \<and> t' = rest_of r1 @ data (w_reads w1) \<or>
     q = 0 \<and> data (w_reads w1) \<noteq> [] \<and>
       a_get (start (core r1)) (rest_of r1 @ data (w_reads w1)) (w_heap w1) = Ok (REDIS_OK, p, k, t', h')"
    using fromReader_step [OF assms(1,6,4)] by blast
  note o = fromReader_out [OF g(1)]
  have wr1: "wr_ok c1 w1" by (rule same_out_wr [OF o assms(2) g(2)])
  have f: "pending c1 = pending c" "w_sent w1 = w_sent w" "blocking c1" using same_out_flow [OF o] assms(3) by auto
  have e: "REDIS_OK \<noteq> REDIS_ERR" by (simp add: redis_consts)
  show ?thesis
  proof (cases "q = 0")
    case False
    obtain res2 r2 h2 where q: "redisReaderGetReply r (w_heap w) = Ok (res2, q, r2, h2)"
      using g(1) assms(1) e by (auto simp: redisGetReplyFromReader_def rd_ok_def Let_def split: if_splits)
    have "rest_of r \<noteq> []" using getReply_empty [OF _ _ _ q] False assms(1) by (auto simp: rd_ok_def)
    then show ?thesis using g f wr1 e False assms(5) by (auto simp: redisGetReply_def)
  next
    case True
    obtain c2 w2 where wd: "write_until_done c1 w1 = Ok (REDIS_OK, c2, w2)" "wr_ok c2 w2" "same_in c1 w1 c2 w2" "pending c2 = []"
      using write_until_done_step [OF wr1] by blast
    have rd2: "rd_ok c2 w2 r1" using same_in_rd [OF wd(3) g(2)] wd(2) by (simp add: wr_ok_def)
    have fl: "w_sent w2 = w_sent w @ pending c"
      using write_until_done_flow [OF wd(1)] wr1 f wd(4) by (simp add: keeps_flow_def wr_ok_def)
    have "data (w_reads w2) \<noteq> []" "a_get (start (core r1)) (rest_of r1 @ data (w_reads w2)) (w_heap w2) = Ok (REDIS_OK, p, k, t', h')"
      using g(4) True assms(4) wd(3) by (auto simp: same_in_def)
    from read_until_reply_gets [OF rd2 this(1) assms(4) this(2)] obtain c3 w3 r3 where
      rr: "read_until_reply c2 w2 = Ok (REDIS_OK, p, c3, w3)" "rd_ok c3 w3 r3" "w_heap w3 = h'" "start (core r3) = k"
        "t' = rest_of r3 @ data (w_reads w3)" by blast
    note o3 = read_until_reply_out [OF rr(1)]
    have "redisGetReply c w = Ok (REDIS_OK, p, c3, w3)" using g(1) True f(3) wd(1) rr(1) e by (simp add: redisGetReply_def)
    moreover have "blocking c3" using o3 wd(3) f(3) by (simp add: same_out_def same_in_def blocking_def)
    moreover have "pending c3 = []" "w_sent w3 = w_sent w @ pending c" using same_out_flow [OF o3] wd(4) fl by simp_all
    ultimately show ?thesis using rr same_out_wr [OF o3 wd(2) rr(2)] by blast
  qed
qed


fun get_replies :: "nat \<Rightarrow> redisContext \<Rightarrow> world \<Rightarrow> (nat list \<times> redisContext \<times> world) cres" where
  "get_replies 0 c w = Ok ([], c, w)"
| "get_replies (Suc n) c w =
     cbind (redisGetReply c w) (\<lambda>(res, p, c, w).
       if res \<noteq> REDIS_OK then Ok ([], c, w)
       else cbind (get_replies n c w) (\<lambda>(ps, c, w). Ok (p # ps, c, w)))"

text \<open>A client that waits for the first byte of a reply.\<close>

definition ready :: "redisContext \<Rightarrow> world \<Rightarrow> heap redisReader \<Rightarrow> bool" where
  "ready c w r \<longleftrightarrow> rd_ok c w r \<and> wr_ok c w \<and> blocking c \<and> idle (start (core r)) (Some defaultFunctions) 0"

lemma get_replies_encode:
  "ready c w r \<Longrightarrow> rest_of r @ data (w_reads w) = concat (map encode vs) \<Longrightarrow> rest_of r = [] \<or> pending c = [] \<Longrightarrow>
   \<forall>v \<in> set vs. resp_ok v \<and> depth v \<le> 8 \<Longrightarrow> build_all (Some defaultFunctions) 0 vs (w_heap w) = Ok (ps, h') \<Longrightarrow>
   \<exists>c' w' r'. get_replies (length vs) c w = Ok (ps, c', w') \<and> ready c' w' r' \<and> w_heap w' = h' \<and>
     rest_of r' @ data (w_reads w') = [] \<and> (vs \<noteq> [] \<longrightarrow> pending c' = [] \<and> w_sent w' = w_sent w @ pending c)"
proof (induction vs arbitrary: c w r ps)
  case (Cons v vs)
  obtain p h1 qs where b: "build (Some defaultFunctions) 0 None (- 1) v (w_heap w) = Ok (p, h1)"
    "build_all (Some defaultFunctions) 0 vs h1 = Ok (qs, h')" "ps = p # qs" using Cons.prems(5) by auto
  have r: "rd_ok c w r" "wr_ok c w" "blocking c" "idle (start (core r)) (Some defaultFunctions) 0"
    using Cons.prems(1) by (auto simp: ready_def)
  obtain k where k: "idle k (Some defaultFunctions) 0" "p \<noteq> 0"
    "a_get (start (core r)) (encode v @ concat (map encode vs)) (w_heap w) = Ok (REDIS_OK, p, k, concat (map encode vs), h1)"
    using a_get_encode [OF r(4) _ _ b(1), of "concat (map encode vs)"] Cons.prems(4) by auto
  have "a_get (start (core r)) (rest_of r @ data (w_reads w)) (w_heap w) = Ok (REDIS_OK, p, k, concat (map encode vs), h1)"
    using k(3) Cons.prems(2) by simp
  from redisGetReply_gets [OF r(1-3) k(2) Cons.prems(3) this] obtain c1 w1 r1 where
    g: "redisGetReply c w = Ok (REDIS_OK, p, c1, w1)" "rd_ok c1 w1 r1" "wr_ok c1 w1" "blocking c1" "w_heap w1 = h1"
      "start (core r1) = k" "rest_of r1 @ data (w_reads w1) = concat (map encode vs)" "pending c1 = []"
      "w_sent w1 = w_sent w @ pending c" by auto
  have "ready c1 w1 r1" using g k(1) by (simp add: ready_def)
  from Cons.IH [OF this g(7) _ _ b(2) [folded g(5)]] g(8) Cons.prems(4) obtain c2 w2 r2 where
    i: "get_replies (length vs) c1 w1 = Ok (qs, c2, w2)" "ready c2 w2 r2" "w_heap w2 = h'" "rest_of r2 @ data (w_reads w2) = []"
      "vs \<noteq> [] \<longrightarrow> pending c2 = [] \<and> w_sent w2 = w_sent w1 @ pending c1" by auto
  have "pending c2 = [] \<and> w_sent w2 = w_sent w @ pending c" using i g(8,9) by (cases "vs = []") auto
  then show ?case using g(1) i b(3) by auto
qed auto

text \<open>The values of the replies, in the heap that the client leaves.\<close>

lemma get_replies_values:
  assumes "ready c w r" "rest_of r @ data (w_reads w) = concat (map encode vs)" "rest_of r = [] \<or> pending c = []"
    "\<forall>v \<in> set vs. resp_ok v \<and> lines_fit v \<and> depth v \<le> 8" "heap_ok (w_heap w)"
  shows "\<exists>ps c' w' r'. get_replies (length vs) c w = Ok (ps, c', w') \<and> ready c' w' r' \<and> heap_ok (w_heap w') \<and>
     rest_of r' @ data (w_reads w') = [] \<and> (vs \<noteq> [] \<longrightarrow> pending c' = [] \<and> w_sent w' = w_sent w @ pending c) \<and>
     map (reply_value 9 (hp_objs (w_heap w'))) ps = map (Some \<circ> canon) vs"
proof -
  have ok: "\<forall>v \<in> set vs. resp_ok v" "\<forall>v \<in> set vs. resp_ok v \<and> depth v \<le> 8" using assms(4) by blast+
  obtain ps h' where b: "build_all (Some defaultFunctions) 0 vs (w_heap w) = Ok (ps, h')" "heap_ok h'"
    "list_all2 (\<lambda>p v. p < hp_next h' \<and> 0 < p \<and> p + objects v \<le> hp_next h' \<and> laid_out (hp_objs h') p v) ps vs"
    using heap_replies.build_all_total [OF assms(5) ok(1), of 0] by blast
  have "map (reply_value 9 (hp_objs h')) ps = map (Some \<circ> canon) vs"
    using b(3) assms(4)
  proof (induction rule: list_all2_induct)
    case (Cons p ps v vs)
    then show ?case using laid_out_value [of "hp_objs h'" p v 9] by auto
  qed simp
  then show ?thesis using get_replies_encode [OF assms(1-3) ok(2) b(1)] b(2) by fastforce
qed

lemma append_cmd_goes:
  assumes "c_err c = 0" "out_ok c" "env_ok w" "n \<le> length t" "sds_fits (length (pending c) + n)"
  shows "\<exists>c'. append_cmd c w t n = Ok (REDIS_OK, c', tick w) \<and> c_reader c' = c_reader c \<and> c_flags c' = c_flags c \<and> out_ok c' \<and>
    c_err c' = 0 \<and> pending c' = pending c @ take n t"
proof -
  obtain b where b: "c_obuf c = Some b" "sds_wf b" using assms(2) by (auto simp: out_ok_def)
  have "sds_fits (sdslen b + n)" using assms(5) b by (simp add: pending_def sdslen_content)
  from returns_ex [OF sdscatlen_spec [OF b(2) assms(4) this] env_okD [OF assms(3)], of 0 0]
  obtain b1 where "sdscatlen (envs w 0 0) b t n = Ok b1" "sds_wf b1" "sds_content b1 = sds_content b @ take n t" by blast
  then show ?thesis using b assms(1) by (auto simp: append_cmd_def out_ok_def pending_def)
qed

lemma append_cmd_step:
  assumes "wr_ok c w" "n \<le> length t" "sds_fits (length (pending c) + n)"
  shows "\<exists>c' w'. append_cmd c w t n = Ok (REDIS_OK, c', w') \<and> same_in c w c' w' \<and> out_ok c' \<and> c_err c' = 0 \<and>
    pending c' = pending c @ take n t \<and> w_sent w' = w_sent w \<and> w_writes w' = w_writes w"
  using append_cmd_goes [OF _ _ _ assms(2,3), of w] assms(1) by (auto simp: wr_ok_def same_in_def)

lemma append_all_step:
  "wr_ok c w \<Longrightarrow> sds_fits (length (pending c) + length (concat cmds)) \<Longrightarrow> length (pending c) + length (concat cmds) \<le> capacity (w_writes w) \<Longrightarrow>
   \<exists>rs c' w'. run_calls (map Append cmds) c w = Ok (rs, c', w') \<and> wr_ok c' w' \<and> same_in c w c' w' \<and>
     pending c' = pending c @ concat cmds \<and> w_sent w' = w_sent w"
proof (induction cmds arbitrary: c w)
  case Nil
  then show ?case by (simp add: same_in_def)
next
  case (Cons t ts)
  have "sds_fits (length (pending c) + length t)" by (rule sds_fits_mono [OF Cons.prems(2)]) simp
  from append_cmd_step [OF Cons.prems(1) order_refl this] obtain c1 w1 where
    a: "append_cmd c w t (length t) = Ok (REDIS_OK, c1, w1)" "same_in c w c1 w1" "out_ok c1" "c_err c1 = 0"
      "pending c1 = pending c @ t" "w_sent w1 = w_sent w" "w_writes w1 = w_writes w" by auto
  have wr: "wr_ok c1 w1" using a Cons.prems(1,3) by (auto simp: wr_ok_def same_in_def env_ok_def)
  have "sds_fits (length (pending c1) + length (concat ts))" "length (pending c1) + length (concat ts) \<le> capacity (w_writes w1)"
    using Cons.prems(2,3) a by (auto simp: add.assoc)
  from Cons.IH [OF wr this] a show ?case by (auto simp: redisAppendFormattedCommand_def same_in_def)
qed

lemma fresh_ready:
  assumes "redisConnectFd fd w0 = Ok (Some c, w)" "env_ok w0" "writes_ok (w_writes w0)" "reads_ok (w_reads w0)"
    "sds_fits (length (data (w_reads w0)))"
  shows "\<exists>r. ready c w r \<and> rest_of r = []"
proof -
  note f = redisConnectFd_fresh [OF assms(1)]
  obtain r e where r: "c_reader c = Some r" "redisReaderCreateWithFunctions e (Some defaultFunctions) = Ok r"
    using f(10) by (auto simp: redisReaderCreate_def)
  note g = fresh_reader [OF r(2)]
  have pd: "r_privdata r = 0" using r(2) by (auto simp: redisReaderCreateWithFunctions_def split: if_splits)
  have "idle (start (core r)) (Some defaultFunctions) 0" using idle_start [of "core r"] g pd by (auto simp: reader_inv_def)
  moreover have "rd_ok c w r" using f g r assms(2,4,5) by (simp add: rd_ok_def env_ok_def)
  moreover have "wr_ok c w" using f assms(2,3) by (simp add: wr_ok_def env_ok_def)
  ultimately show ?thesis using f(4) g(3) by (auto simp: ready_def)
qed


text \<open>One command: formatting, sending and waiting for the reply.\<close>

lemma redisvAppendCommand_step:
  assumes "wr_ok c w" "ref_words dbl format ap [] False = Some (ws, True)" "\<forall>x \<in> set ws. sds_fits (length x)"
    "sds_fits (length (pending c) + length (command_text ws))"
  shows "\<exists>c' w'. redisvAppendCommand dbl c w format ap = Ok (REDIS_OK, c', w') \<and> same_in c w c' w' \<and> out_ok c' \<and> c_err c' = 0 \<and>
    pending c' = pending c @ command_text ws \<and> w_sent w' = w_sent w \<and> w_writes w' = w_writes w"
proof -
  let ?n = "length (command_text ws)"
  have lim: "?n < 2147483647" using assms(4) by (simp add: sds_fits_def SDS_MAX_PREALLOC_def)
  have al: "alloc_ok (envs w i j)" for i j using assms(1) by (simp add: wr_ok_def env_okD)
  have f: "redisvFormatCommand dbl (envs w 0 0) (envs w 0 1) (envs w 0 2) (\<lambda>i. envs w (Suc i)) True format ap =
      Ok (int ?n, Some (command_text ws @ [NUL]))"
    using redisvFormatCommand_spec [OF assms(2,3) lim, of "envs w 0 0" "envs w 0 1" "envs w 0 2" "\<lambda>i. envs w (Suc i)"] al by auto
  have "wr_ok c (tick w)" using assms(1) by (simp add: wr_ok_def env_ok_def)
  from append_cmd_step [OF this, of ?n "command_text ws @ [NUL]"] assms(4) obtain c1 w1 where
    a: "append_cmd c (tick w) (command_text ws @ [NUL]) ?n = Ok (REDIS_OK, c1, w1)" "same_in c (tick w) c1 w1" "out_ok c1" "c_err c1 = 0"
      "pending c1 = pending c @ command_text ws" "w_sent w1 = w_sent w" "w_writes w1 = w_writes w" by auto
  have "redisvAppendCommand dbl c w format ap = Ok (REDIS_OK, c1, w1)"
    using f a(1) lim by (simp add: redisvAppendCommand_def Let_def)
  then show ?thesis using a by (auto simp: same_in_def)
qed

lemma redisCommand_step:
  assumes "ready c w r" "rest_of r = []" "pending c = []" "heap_ok (w_heap w)"
    "ref_words dbl format ap [] False = Some (ws, True)" "\<forall>x \<in> set ws. sds_fits (length x)" "sds_fits (length (command_text ws))"
    "length (command_text ws) \<le> capacity (w_writes w)"
    "data (w_reads w) = encode v" "resp_ok v" "lines_fit v" "depth v \<le> 8"
  shows "\<exists>p c' w' r'. redisCommand dbl c w format ap = Ok (p, c', w') \<and> ready c' w' r' \<and> rest_of r' = [] \<and> pending c' = [] \<and>
    heap_ok (w_heap w') \<and> w_sent w' = w_sent w @ command_text ws \<and> reply_value 9 (hp_objs (w_heap w')) p = Some (canon v)"
proof -
  have rw: "rd_ok c w r" "wr_ok c w" "blocking c" "idle (start (core r)) (Some defaultFunctions) 0" using assms(1) by (auto simp: ready_def)
  obtain c1 w1 where a: "redisvAppendCommand dbl c w format ap = Ok (REDIS_OK, c1, w1)" "same_in c w c1 w1" "out_ok c1" "c_err c1 = 0"
    "pending c1 = command_text ws" "w_sent w1 = w_sent w" "w_writes w1 = w_writes w"
    using redisvAppendCommand_step [OF rw(2) assms(5,6)] assms(3,7) by auto
  have rd: "ready c1 w1 r"
    using same_in_rd [OF a(2) rw(1) a(4)] rw a assms(8) by (auto simp: ready_def wr_ok_def same_in_def blocking_def env_ok_def)
  have "rest_of r @ data (w_reads w1) = concat (map encode [v])" "heap_ok (w_heap w1)"
    using a(2) assms(2,4,9) by (auto simp: same_in_def)
  from get_replies_values [OF rd this(1) _ _ this(2)] assms(2,10-12) obtain ps c2 w2 r2 where
    g: "get_replies (length [v]) c1 w1 = Ok (ps, c2, w2)" "ready c2 w2 r2" "heap_ok (w_heap w2)" "rest_of r2 @ data (w_reads w2) = []"
      "pending c2 = []" "w_sent w2 = w_sent w1 @ pending c1" "map (reply_value 9 (hp_objs (w_heap w2))) ps = map (Some \<circ> canon) [v]" by auto
  obtain p where p: "ps = [p]" "reply_value 9 (hp_objs (w_heap w2)) p = Some (canon v)" using g(7) by auto
  have "redisGetReply c1 w1 = Ok (REDIS_OK, p, c2, w2)" using g(1) p(1) by (auto split: if_splits)
  moreover have "blocking c1" using rd by (simp add: ready_def)
  ultimately have "redisCommand dbl c w format ap = Ok (p, c2, w2)"
    using a(1) by (simp add: redisCommand_def redisvCommand_def redisBlockForReply_def)
  then show ?thesis using g p a by auto
qed

section \<open>Properties\<close>

text \<open>
  C4. Every byte handed over for sending is sent exactly once and in order: after any sequence of
  calls on a context (appending commands, reading, writing, asking for replies), whatever the
  socket and the allocator answered, the bytes sent so far followed by the bytes that wait in the
  output buffer are the bytes the appending calls that succeeded were given.
\<close>
theorem output_conserved:
  assumes "redisConnectFd fd w0 = Ok (Some c, w)" "run_calls xs c w = Ok (rs, c', w')"
    "sds_fits (length (concat (map appended xs)))"
  shows "w_sent w' @ pending c' = w_sent w0 @ accepted xs rs"
  using run_calls_flow [OF redisConnectFd_fresh(1) [OF assms(1)] _ assms(2)] redisConnectFd_fresh [OF assms(1)] assms(3) by simp

text \<open>
  C3. Pipelining: on a new blocking connection any commands can be appended before the first reply is
  asked for. When the server answers with the replies \<open>vs\<close>, whose bytes arrive in any pieces, and
  the socket takes the commands in any pieces, system calls being interrupted at any time, the
  calls of \<^verbatim>\<open>redisGetReply\<close> return, send exactly the commands, and deliver the replies one by one
  and in order; no error is left and nothing stays in the buffers.
\<close>
theorem pipeline_in_order:
  assumes "redisConnectFd fd w0 = Ok (Some c, w)" "env_ok w0" "heap_ok (w_heap w0)"
    "writes_ok (w_writes w0)" "length (concat cmds) \<le> capacity (w_writes w0)" "sds_fits (length (concat cmds))"
    "reads_ok (w_reads w0)" "data (w_reads w0) = concat (map encode vs)" "sds_fits (length (data (w_reads w0)))"
    "vs \<noteq> []" "\<forall>v \<in> set vs. resp_ok v \<and> lines_fit v \<and> depth v \<le> 8"
  shows "\<exists>rs c1 w1 ps c2 w2. run_calls (map Append cmds) c w = Ok (rs, c1, w1) \<and> get_replies (length vs) c1 w1 = Ok (ps, c2, w2) \<and>
    map (reply_value 9 (hp_objs (w_heap w2))) ps = map (Some \<circ> canon) vs \<and>
    w_sent w2 = w_sent w0 @ concat cmds \<and> pending c2 = [] \<and> data (w_reads w2) = [] \<and> c_err c2 = 0"
proof -
  note f = redisConnectFd_fresh [OF assms(1)]
  obtain r where r: "ready c w r" "rest_of r = []" using fresh_ready [OF assms(1,2,4,7,9)] by blast
  obtain rs c1 w1 where a: "run_calls (map Append cmds) c w = Ok (rs, c1, w1)" "wr_ok c1 w1" "same_in c w c1 w1"
    "pending c1 = concat cmds" "w_sent w1 = w_sent w"
    using append_all_step [of c w cmds] r(1) f(2,7) assms(5,6) by (auto simp: ready_def)
  have rd: "ready c1 w1 r" using same_in_rd [OF a(3), of r] r(1) a(2,3) by (auto simp: ready_def wr_ok_def same_in_def blocking_def)
  have "rest_of r @ data (w_reads w1) = concat (map encode vs)" "heap_ok (w_heap w1)"
    using a(3) r(2) f(6,9) assms(3,8) by (auto simp: same_in_def)
  from get_replies_values [OF rd this(1) _ assms(11) this(2)] r(2) assms(10) obtain ps c2 w2 r2 where
    "get_replies (length vs) c1 w1 = Ok (ps, c2, w2)" "ready c2 w2 r2" "rest_of r2 @ data (w_reads w2) = []"
    "pending c2 = []" "w_sent w2 = w_sent w1 @ pending c1" "map (reply_value 9 (hp_objs (w_heap w2))) ps = map (Some \<circ> canon) vs" by auto
  then show ?thesis using a f(5) by (auto simp: ready_def rd_ok_def)
qed

definition example_world :: world where
  "example_world = \<lparr>w_heap = empty_heap, w_env = (\<lambda>_ _ _. plenty), w_tick = 0,
     w_reads = [Inl EINTR, Inr ''+PO'', Inr (''NG'' @ crlf), Inr ('':7'' @ crlf)],
     w_writes = [Inr 3, Inl EINTR, Inr 100], w_sent = [], w_closed = [], w_errno = EINTR,
     w_strerror = (\<lambda>_. []), w_startup = True, w_users = 0, w_sys = [], w_soerr = [],
     w_resolve = (\<lambda>_ _ _. Inr []), w_gai = (\<lambda>_. []), w_opened = [], w_mode = True, w_opts = []\<rparr>"

lemma connect_plenty:
  assumes "w_env w0 = (\<lambda>_ _ _. plenty)" "w_startup w0"
  shows "\<exists>c w. redisConnectFd fd w0 = Ok (Some c, w)"
proof -
  obtain b where b: "sdsempty plenty = Ok b" using returns_ex [OF sdsempty_spec alloc_ok_plenty] by blast
  obtain r where r: "redisReaderCreate plenty = Ok r" using create_plenty by (auto simp: redisReaderCreate_def)
  show ?thesis using b r assms
    by (simp add: redisConnectFd_def redisContextInit_def envs_def Let_def) (simp add: plenty_def)
qed

lemma example_connect: "\<exists>c w. redisConnectFd 3 example_world = Ok (Some c, w)"
  by (rule connect_plenty) (simp_all add: example_world_def)

theorem pipeline_in_order_witness:
  "\<exists>c w rs c1 w1 ps c2 w2. redisConnectFd 3 example_world = Ok (Some c, w) \<and>
     run_calls (map Append [''PING'' @ crlf, ''INCR x'' @ crlf]) c w = Ok (rs, c1, w1) \<and> get_replies 2 c1 w1 = Ok (ps, c2, w2) \<and>
     map (reply_value 9 (hp_objs (w_heap w2))) ps = [Some (Status ''PONG''), Some (Integer 7)] \<and>
     w_sent w2 = ''PING'' @ crlf @ ''INCR x'' @ crlf"
proof -
  obtain c w where c: "redisConnectFd 3 example_world = Ok (Some c, w)" using example_connect by blast
  have "\<exists>rs c1 w1 ps c2 w2. run_calls (map Append [''PING'' @ crlf, ''INCR x'' @ crlf]) c w = Ok (rs, c1, w1) \<and>
    get_replies (length [Status ''PONG'', Integer 7]) c1 w1 = Ok (ps, c2, w2) \<and>
    map (reply_value 9 (hp_objs (w_heap w2))) ps = map (Some \<circ> canon) [Status ''PONG'', Integer 7] \<and>
    w_sent w2 = w_sent example_world @ concat [''PING'' @ crlf, ''INCR x'' @ crlf] \<and> pending c2 = [] \<and> data (w_reads w2) = [] \<and> c_err c2 = 0"
    by (rule pipeline_in_order [OF c])
      (simp_all add: example_world_def env_ok_def empty_heap_ok crlf_def sds_fits_def SDS_MAX_PREALLOC_def dec_eval)
  then show ?thesis using c by (auto simp: example_world_def numeral_2_eq_2 simp del: run_calls.simps get_replies.simps)
qed

theorem output_conserved_witness:
  "\<exists>c w rs c1 w1. redisConnectFd 3 example_world = Ok (Some c, w) \<and>
     run_calls (map Append [''PING'' @ crlf]) c w = Ok (rs, c1, w1) \<and> pending c1 = ''PING'' @ crlf \<and>
     w_sent w1 @ pending c1 = accepted [Append (''PING'' @ crlf)] rs"
proof -
  obtain c w where c: "redisConnectFd 3 example_world = Ok (Some c, w)" using example_connect by blast
  obtain r where r: "ready c w r" using fresh_ready [OF c]
    by (auto simp: example_world_def env_ok_def crlf_def sds_fits_def SDS_MAX_PREALLOC_def)
  note f = redisConnectFd_fresh [OF c]
  obtain rs c1 w1 where a: "run_calls (map Append [''PING'' @ crlf]) c w = Ok (rs, c1, w1)" "pending c1 = ''PING'' @ crlf"
    using append_all_step [of c w "[''PING'' @ crlf]"] r f(2,7)
    by (auto simp: ready_def example_world_def crlf_def sds_fits_def SDS_MAX_PREALLOC_def simp del: run_calls.simps)
  have "w_sent w1 @ pending c1 = w_sent example_world @ accepted (map Append [''PING'' @ crlf]) rs"
    by (rule output_conserved [OF c a(1)]) (simp add: crlf_def sds_fits_def SDS_MAX_PREALLOC_def)
  then show ?thesis using c a by (auto simp: example_world_def simp del: run_calls.simps)
qed

end
