(* ===== verification/Net.thy ===== *)
theory Net
  imports Context
begin

text \<open>
  Opening a connection, \<^verbatim>\<open>src/win/hiredis/net.c\<close> and the functions of \<^verbatim>\<open>hiredis.c\<close> that call it.
  Where the source has a branch for Visual Studio and one for POSIX sockets, the POSIX branch is
  modelled. The resolver is the function \<open>w_resolve\<close> of the world, from host, service and whether
  an IPv6 address is asked for to an error code or the addresses; every other call takes the next
  outcome of \<open>w_sys\<close> (an error number or the value returned), or of \<open>w_soerr\<close> for the pending error of the socket.
\<close>

unbundle bit_operations_syntax

section \<open>Data and system calls\<close>

definition REDIS_REUSEADDR :: int where "REDIS_REUSEADDR = 128"

definition REDIS_KEEPALIVE_INTERVAL :: int where "REDIS_KEEPALIVE_INTERVAL = 15"

definition REDIS_CONNECT_RETRIES :: nat where "REDIS_CONNECT_RETRIES = 10"

definition MAX_MSEC :: int where "MAX_MSEC = (2147483647 - 999) div 1000"

definition sys_call :: "world \<Rightarrow> ((errno + nat) \<times> world) cres" where
  "sys_call w =
     (case w_sys w of
        [] \<Rightarrow> Fault Blocked
      | Inl e # xs \<Rightarrow> Ok (Inl e, w\<lparr>w_sys := xs, w_errno := e\<rparr>)
      | Inr n # xs \<Rightarrow> Ok (Inr n, w\<lparr>w_sys := xs\<rparr>))"

definition sys_socket :: "world \<Rightarrow> (int option \<times> world) cres" where
  "sys_socket w =
     cbind (sys_call w) (\<lambda>(x, w).
       case x of Inl e \<Rightarrow> Ok (None, w) | Inr s \<Rightarrow> Ok (Some (int s), w\<lparr>w_opened := w_opened w @ [int s], w_mode := True\<rparr>))"

definition sys_setsockopt :: "string \<Rightarrow> int \<Rightarrow> world \<Rightarrow> (bool \<times> world) cres" where
  "sys_setsockopt name val w =
     cbind (sys_call w) (\<lambda>(x, w).
       case x of Inl e \<Rightarrow> Ok (False, w) | Inr _ \<Rightarrow> Ok (True, w\<lparr>w_opts := w_opts w @ [(name, val)]\<rparr>))"

section \<open>Helpers\<close>

definition redisContextCloseFd :: "redisContext \<Rightarrow> world \<Rightarrow> redisContext \<times> world" where
  "redisContextCloseFd c w =
     (if c_fd c \<ge> 0 then (c\<lparr>c_fd := - 1\<rparr>, w\<lparr>w_closed := w_closed w @ [c_fd c]\<rparr>) else (c, w))"

definition redisSetErrorFromErrno :: "world \<Rightarrow> redisContext \<Rightarrow> int \<Rightarrow> string option \<Rightarrow> redisContext cres" where
  "redisSetErrorFromErrno w c ty prefix =
     (let pre = (case prefix of None \<Rightarrow> [] | Some p \<Rightarrow> p @ '': '') in
      redisSetError w c ty (Some (pre @ take (127 - length pre) (w_strerror w (w_errno w)) @ [NUL])))"

definition fail_with :: "world \<Rightarrow> redisContext \<Rightarrow> string \<Rightarrow> (int \<times> redisContext \<times> world) cres" where
  "fail_with w c msg = set_error w c REDIS_ERR_OTHER (Some (take 127 msg @ [NUL]))"

definition fail_errno :: "world \<Rightarrow> redisContext \<Rightarrow> string option \<Rightarrow> (int \<times> redisContext \<times> world) cres" where
  "fail_errno w c prefix = cbind (redisSetErrorFromErrno w c REDIS_ERR_IO prefix) (\<lambda>c. Ok (REDIS_ERR, c, w))"

definition fail_close :: "world \<Rightarrow> redisContext \<Rightarrow> string option \<Rightarrow> (int \<times> redisContext \<times> world) cres" where
  "fail_close w c prefix =
     cbind (redisSetErrorFromErrno w c REDIS_ERR_IO prefix) (\<lambda>c.
       case redisContextCloseFd c w of (c, w) \<Rightarrow> Ok (REDIS_ERR, c, w))"

definition redisSetReuseAddr :: "redisContext \<Rightarrow> world \<Rightarrow> (int \<times> redisContext \<times> world) cres" where
  "redisSetReuseAddr c w =
     cbind (sys_setsockopt ''SO_REUSEADDR'' 1 w) (\<lambda>(ok, w).
       if \<not> ok then fail_close w c None else Ok (REDIS_OK, c, w))"

definition redisCreateSocket :: "redisContext \<Rightarrow> world \<Rightarrow> bool \<Rightarrow> (int \<times> redisContext \<times> world) cres" where
  "redisCreateSocket c w inet =
     cbind (sys_socket w) (\<lambda>(s, w).
       case s of
         None \<Rightarrow> fail_errno w c None
       | Some s \<Rightarrow>
           let c = c\<lparr>c_fd := s\<rparr> in
           if inet then
             cbind (redisSetReuseAddr c w) (\<lambda>(res, c, w). if res = REDIS_ERR then Ok (REDIS_ERR, c, w) else Ok (REDIS_OK, c, w))
           else Ok (REDIS_OK, c, w))"

definition redisSetBlocking :: "redisContext \<Rightarrow> world \<Rightarrow> bool \<Rightarrow> (int \<times> redisContext \<times> world) cres" where
  "redisSetBlocking c w block =
     cbind (sys_call w) (\<lambda>(x, w).
       case x of
         Inl _ \<Rightarrow> fail_close w c (Some ''fcntl(F_GETFL)'')
       | Inr _ \<Rightarrow>
           cbind (sys_call w) (\<lambda>(x, w).
             case x of
               Inl _ \<Rightarrow> fail_close w c (Some ''fcntl(F_SETFL)'')
             | Inr _ \<Rightarrow> Ok (REDIS_OK, c, w\<lparr>w_mode := block\<rparr>)))"

fun set_options :: "(string \<times> int) list \<Rightarrow> redisContext \<Rightarrow> world \<Rightarrow> (int \<times> redisContext \<times> world) cres" where
  "set_options [] c w = Ok (REDIS_OK, c, w)"
| "set_options ((name, val) # os) c w =
     cbind (sys_setsockopt name val w) (\<lambda>(ok, w).
       if \<not> ok then set_error w c REDIS_ERR_OTHER (Some (w_strerror w (w_errno w) @ [NUL])) else set_options os c w)"

definition redisKeepAlive :: "redisContext \<Rightarrow> world \<Rightarrow> int \<Rightarrow> (int \<times> redisContext \<times> world) cres" where
  "redisKeepAlive c w interval =
     (let third = sgn interval * (\<bar>interval\<bar> div 3) in
      set_options [(''SO_KEEPALIVE'', 1), (''TCP_KEEPIDLE'', interval),
        (''TCP_KEEPINTVL'', if third = 0 then 1 else third), (''TCP_KEEPCNT'', 3)] c w)"

definition redisSetTcpNoDelay :: "redisContext \<Rightarrow> world \<Rightarrow> (int \<times> redisContext \<times> world) cres" where
  "redisSetTcpNoDelay c w =
     cbind (sys_setsockopt ''TCP_NODELAY'' 1 w) (\<lambda>(ok, w).
       if \<not> ok then fail_close w c (Some ''setsockopt(TCP_NODELAY)'') else Ok (REDIS_OK, c, w))"

definition redisCheckSocketError :: "redisContext \<Rightarrow> world \<Rightarrow> (int \<times> redisContext \<times> world) cres" where
  "redisCheckSocketError c w =
     (case w_soerr w of
        [] \<Rightarrow> Fault Blocked
      | Inl e # xs \<Rightarrow> fail_errno (w\<lparr>w_soerr := xs, w_errno := e\<rparr>) c (Some ''getsockopt(SO_ERROR)'')
      | Inr (Some e) # xs \<Rightarrow> fail_errno (w\<lparr>w_soerr := xs, w_errno := e\<rparr>) c None
      | Inr None # xs \<Rightarrow> Ok (REDIS_OK, c, w\<lparr>w_soerr := xs\<rparr>))"

text \<open>The time limit in milliseconds; \<open>None\<close> when the limit is out of range.\<close>

definition wait_msec :: "(int \<times> int) option \<Rightarrow> int option" where
  "wait_msec timeout =
     (case timeout of
        None \<Rightarrow> Some (- 1)
      | Some (sec, usec) \<Rightarrow>
          if usec > 1000000 \<or> sec > MAX_MSEC then None
          else let msec = to_i32 (sec * 1000 + sgn (usec + 999) * (\<bar>usec + 999\<bar> div 1000)) in
               Some (if msec < 0 \<or> msec > 2147483647 then 2147483647 else msec))"

definition redisContextWaitReady :: "redisContext \<Rightarrow> world \<Rightarrow> (int \<times> int) option \<Rightarrow> (int \<times> redisContext \<times> world) cres" where
  "redisContextWaitReady c w timeout =
     (case wait_msec timeout of
        None \<Rightarrow> fail_close w c None
      | Some msec \<Rightarrow>
          if w_errno w = EINPROGRESS then
            cbind (sys_call (w\<lparr>w_opts := w_opts w @ [(''poll'', msec)]\<rparr>)) (\<lambda>(x, w).
              case x of
                Inl _ \<Rightarrow> fail_close w c (Some ''poll(2)'')
              | Inr n \<Rightarrow>
                  if n = 0 then fail_close (w\<lparr>w_errno := ETIMEDOUT\<rparr>) c None
                  else cbind (redisCheckSocketError c w) (\<lambda>(res, c, w).
                    if res \<noteq> REDIS_OK then Ok (REDIS_ERR, c, w) else Ok (REDIS_OK, c, w)))
          else fail_close w c None)"

definition redisContextSetTimeout :: "redisContext \<Rightarrow> world \<Rightarrow> int \<times> int \<Rightarrow> (int \<times> redisContext \<times> world) cres" where
  "redisContextSetTimeout c w tv =
     cbind (sys_setsockopt ''SO_RCVTIMEO'' (fst tv) w) (\<lambda>(ok, w).
       if \<not> ok then fail_errno w c (Some ''setsockopt(SO_RCVTIMEO)'')
       else cbind (sys_setsockopt ''SO_SNDTIMEO'' (fst tv) w) (\<lambda>(ok, w).
         if \<not> ok then fail_errno w c (Some ''setsockopt(SO_SNDTIMEO)'')
         else Ok (REDIS_OK, c, w)))"

section \<open>Connecting over TCP\<close>

text \<open>The parameters the context keeps for a later reconnect; \<open>own\<close> says that they already are its own.\<close>

definition keep_params :: "bool \<Rightarrow> redisContext \<Rightarrow> (nat \<Rightarrow> env) \<Rightarrow> string option \<Rightarrow> int \<Rightarrow> (int \<times> int) option \<Rightarrow> string option \<Rightarrow> redisContext cres" where
  "keep_params own c es addr port timeout source_addr =
     (let dup = (\<lambda>k s. if can_alloc (es k) (Suc (length s)) then Some s else None);
          c = c\<lparr>c_connection_type := REDIS_CONN_TCP, c_port := port\<rparr>
      in cbind (if own then Ok c
                else case addr of None \<Rightarrow> Fault NullDeref | Some a \<Rightarrow> Ok (c\<lparr>c_host := dup 0 a\<rparr>)) (\<lambda>c.
         cbind (case timeout of
                  None \<Rightarrow> Ok (c\<lparr>c_timeout := None\<rparr>)
                | Some tv \<Rightarrow> if own then Ok c
                             else if c_timeout c = None \<and> \<not> can_alloc (es 1) 8 then Fault NullDeref
                             else Ok (c\<lparr>c_timeout := Some tv\<rparr>))
           (\<lambda>c. Ok (case source_addr of
                      None \<Rightarrow> c\<lparr>c_source_addr := None\<rparr>
                    | Some s \<Rightarrow> if own then c else c\<lparr>c_source_addr := dup 2 s\<rparr>))))"

fun bind_any :: "nat list \<Rightarrow> world \<Rightarrow> (bool \<times> world) cres" where
  "bind_any [] w = Ok (False, w)"
| "bind_any (b # bs) w =
     cbind (sys_call w) (\<lambda>(x, w). case x of Inl _ \<Rightarrow> bind_any bs w | Inr _ \<Rightarrow> Ok (True, w))"

text \<open>Binding the socket to the source address, when there is one.\<close>

definition bind_source :: "bool \<Rightarrow> bool \<Rightarrow> redisContext \<Rightarrow> world \<Rightarrow> (int \<times> redisContext \<times> world) cres" where
  "bind_source ipv6 reuseaddr c w =
     (case c_source_addr c of
        None \<Rightarrow> Ok (REDIS_OK, c, w)
      | Some src \<Rightarrow>
          (case w_resolve w (Some src) None ipv6 of
             Inl rv \<Rightarrow> fail_with w c (''Can't get addr: '' @ w_gai w rv)
           | Inr bs \<Rightarrow>
               cbind (if reuseaddr then sys_setsockopt ''SO_REUSEADDR'' 1 w else Ok (True, w)) (\<lambda>(ok, w).
               if \<not> ok then Ok (REDIS_ERR, c, w)
               else cbind (bind_any bs w) (\<lambda>(bound, w).
                 if bound then Ok (REDIS_OK, c, w)
                 else fail_with w c (''Can't bind socket: '' @ w_strerror w (w_errno w))))))"

text \<open>What follows a connect: back to blocking mode, and the option against delays.\<close>

definition finish_connect :: "bool \<Rightarrow> redisContext \<Rightarrow> world \<Rightarrow> (int \<times> redisContext \<times> world) cres" where
  "finish_connect block c w =
     cbind (if block then redisSetBlocking c w True else Ok (REDIS_OK, c, w)) (\<lambda>(res, c, w).
       if res \<noteq> REDIS_OK then Ok (REDIS_ERR, c, w)
       else cbind (redisSetTcpNoDelay c w) (\<lambda>(res, c, w).
         if res \<noteq> REDIS_OK then Ok (REDIS_ERR, c, w)
         else Ok (REDIS_OK, c\<lparr>c_flags := c_flags c OR REDIS_CONNECTED\<rparr>, w)))"

function connect_loop :: "bool \<Rightarrow> bool \<Rightarrow> bool \<Rightarrow> nat \<Rightarrow> nat list \<Rightarrow> redisContext \<Rightarrow> world \<Rightarrow> (int \<times> redisContext \<times> world) cres" where
  "connect_loop ipv6 block reuseaddr reuses ps c w =
     (case ps of
        [] \<Rightarrow> fail_with w c (''Can't create socket: '' @ w_strerror w (w_errno w))
      | p # ps' \<Rightarrow>
          cbind (sys_socket w) (\<lambda>(s, w).
            case s of
              None \<Rightarrow> connect_loop ipv6 block reuseaddr reuses ps' c w
            | Some s \<Rightarrow>
                cbind (redisSetBlocking (c\<lparr>c_fd := s\<rparr>) w False) (\<lambda>(res, c, w).
                if res \<noteq> REDIS_OK then Ok (REDIS_ERR, c, w)
                else cbind (bind_source ipv6 reuseaddr c w) (\<lambda>(res, c, w).
                  if res \<noteq> REDIS_OK then Ok (REDIS_ERR, c, w)
                  else cbind (sys_call w) (\<lambda>(x, w).
                    case x of
                      Inr _ \<Rightarrow> finish_connect block c w
                    | Inl e \<Rightarrow>
                        if e = EHOSTUNREACH then
                          (case redisContextCloseFd c w of (c, w) \<Rightarrow> connect_loop ipv6 block reuseaddr reuses ps' c w)
                        else if e = EINPROGRESS \<and> \<not> block then finish_connect block c w
                        else if e = EADDRNOTAVAIL \<and> reuseaddr then
                          (if Suc reuses \<ge> REDIS_CONNECT_RETRIES then Ok (REDIS_ERR, c, w)
                           else connect_loop ipv6 block reuseaddr (Suc reuses) ps c w)
                        else cbind (redisContextWaitReady c w (c_timeout c)) (\<lambda>(res, c, w).
                          if res \<noteq> REDIS_OK then Ok (REDIS_ERR, c, w) else finish_connect block c w))))))"
  by pat_completeness auto
termination
  by (relation "measures [\<lambda>(i, b, ra, n, ps, c, w). length ps, \<lambda>(i, b, ra, n, ps, c, w). REDIS_CONNECT_RETRIES - n]") auto

declare connect_loop.simps [simp del]

text \<open>\<open>tcp_connect\<close> is \<^verbatim>\<open>_redisContextConnectTcp\<close>.\<close>

definition tcp_connect :: "bool \<Rightarrow> redisContext \<Rightarrow> world \<Rightarrow> string option \<Rightarrow> int \<Rightarrow> (int \<times> int) option \<Rightarrow> string option \<Rightarrow>
    (int \<times> redisContext \<times> world) cres" where
  "tcp_connect own c w addr port timeout source_addr =
     (let block = (c_flags c AND REDIS_BLOCK \<noteq> 0); reuseaddr = (c_flags c AND REDIS_REUSEADDR \<noteq> 0);
          es = envs w 0; w = tick w in
      cbind (keep_params own c es addr port timeout source_addr) (\<lambda>c.
      let serv = take 5 (dec_int port) in
      case w_resolve w (c_host c) (Some serv) False of
        Inr ps \<Rightarrow> connect_loop False block reuseaddr 0 ps c w
      | Inl _ \<Rightarrow>
          (case w_resolve w addr (Some serv) True of
             Inl rv \<Rightarrow> set_error w c REDIS_ERR_OTHER (Some (w_gai w rv @ [NUL]))
           | Inr ps \<Rightarrow> connect_loop True block reuseaddr 0 ps c w)))"

definition redisContextConnectTcp :: "redisContext \<Rightarrow> world \<Rightarrow> string \<Rightarrow> int \<Rightarrow> (int \<times> int) option \<Rightarrow> (int \<times> redisContext \<times> world) cres" where
  "redisContextConnectTcp c w addr port timeout = tcp_connect False c w (Some addr) port timeout None"

definition redisContextConnectBindTcp :: "bool \<Rightarrow> redisContext \<Rightarrow> world \<Rightarrow> string option \<Rightarrow> int \<Rightarrow> (int \<times> int) option \<Rightarrow> string option \<Rightarrow>
    (int \<times> redisContext \<times> world) cres" where
  "redisContextConnectBindTcp own c w addr port timeout source_addr = tcp_connect own c w addr port timeout source_addr"

section \<open>Connecting over a local socket\<close>

definition redisContextConnectUnix :: "bool \<Rightarrow> redisContext \<Rightarrow> world \<Rightarrow> string \<Rightarrow> (int \<times> int) option \<Rightarrow> (int \<times> redisContext \<times> world) cres" where
  "redisContextConnectUnix own c w path timeout =
     (let block = (c_flags c AND REDIS_BLOCK \<noteq> 0) in
      cbind (redisCreateSocket c w False) (\<lambda>(res, c, w).
      if res < 0 then Ok (REDIS_ERR, c, w)
      else cbind (redisSetBlocking c w False) (\<lambda>(res, c, w).
        if res \<noteq> REDIS_OK then Ok (REDIS_ERR, c, w)
        else
          let es = envs w 0; w = tick w; c = c\<lparr>c_connection_type := REDIS_CONN_UNIX\<rparr>;
              c = (if own then c else c\<lparr>c_path := (if can_alloc (es 0) (Suc (length path)) then Some path else None)\<rparr>)
          in cbind (case timeout of
                      None \<Rightarrow> Ok (c\<lparr>c_timeout := None\<rparr>)
                    | Some tv \<Rightarrow> if own then Ok c
                                 else if c_timeout c = None \<and> \<not> can_alloc (es 1) 8 then Fault NullDeref
                                 else Ok (c\<lparr>c_timeout := Some tv\<rparr>)) (\<lambda>c.
             cbind (sys_call w) (\<lambda>(x, w).
             cbind (case x of
                      Inr _ \<Rightarrow> Ok (REDIS_OK, c, w)
                    | Inl e \<Rightarrow> if e = EINPROGRESS \<and> \<not> block then Ok (REDIS_OK, c, w)
                               else redisContextWaitReady c w (c_timeout c)) (\<lambda>(res, c, w).
             if res \<noteq> REDIS_OK then Ok (REDIS_ERR, c, w)
             else cbind (if block then redisSetBlocking c w True else Ok (REDIS_OK, c, w)) (\<lambda>(res, c, w).
               if res \<noteq> REDIS_OK then Ok (REDIS_ERR, c, w)
               else Ok (REDIS_OK, c\<lparr>c_flags := c_flags c OR REDIS_CONNECTED\<rparr>, w))))))))"

section \<open>The connecting functions of the interface\<close>

text \<open>
  A new context with its flags, then the connect, whose result is ignored: a failure is seen in
  the error field. The first argument says whether the result of \<^verbatim>\<open>redisContextInit\<close> is tested.
\<close>

definition connect_with :: "bool \<Rightarrow> (int \<Rightarrow> int) \<Rightarrow> (redisContext \<Rightarrow> world \<Rightarrow> (int \<times> redisContext \<times> world) cres) \<Rightarrow> world \<Rightarrow>
    (redisContext option \<times> world) cres" where
  "connect_with tested flg con w =
     cbind (redisContextInit w) (\<lambda>(p, w).
       case p of
         None \<Rightarrow> if tested then Ok (None, w) else Fault NullDeref
       | Some c \<Rightarrow> cbind (con (c\<lparr>c_flags := flg (c_flags c)\<rparr>) w) (\<lambda>(_, c, w). Ok (Some c, w)))"

definition redisConnect :: "string \<Rightarrow> int \<Rightarrow> world \<Rightarrow> (redisContext option \<times> world) cres" where
  "redisConnect ip port = connect_with True (\<lambda>f. f OR REDIS_BLOCK) (\<lambda>c w. redisContextConnectTcp c w ip port None)"

definition redisConnectWithTimeout :: "string \<Rightarrow> int \<Rightarrow> int \<times> int \<Rightarrow> world \<Rightarrow> (redisContext option \<times> world) cres" where
  "redisConnectWithTimeout ip port tv = connect_with True (\<lambda>f. f OR REDIS_BLOCK) (\<lambda>c w. redisContextConnectTcp c w ip port (Some tv))"

definition redisConnectNonBlock :: "string \<Rightarrow> int \<Rightarrow> world \<Rightarrow> (redisContext option \<times> world) cres" where
  "redisConnectNonBlock ip port = connect_with True (\<lambda>f. f AND NOT REDIS_BLOCK) (\<lambda>c w. redisContextConnectTcp c w ip port None)"

definition redisConnectBindNonBlock :: "string \<Rightarrow> int \<Rightarrow> string option \<Rightarrow> world \<Rightarrow> (redisContext option \<times> world) cres" where
  "redisConnectBindNonBlock ip port source_addr =
     connect_with False (\<lambda>f. f AND NOT REDIS_BLOCK) (\<lambda>c w. redisContextConnectBindTcp False c w (Some ip) port None source_addr)"

definition redisConnectBindNonBlockWithReuse :: "string \<Rightarrow> int \<Rightarrow> string option \<Rightarrow> world \<Rightarrow> (redisContext option \<times> world) cres" where
  "redisConnectBindNonBlockWithReuse ip port source_addr =
     connect_with False (\<lambda>f. f AND NOT REDIS_BLOCK OR REDIS_REUSEADDR) (\<lambda>c w. redisContextConnectBindTcp False c w (Some ip) port None source_addr)"

definition redisConnectUnix :: "string \<Rightarrow> world \<Rightarrow> (redisContext option \<times> world) cres" where
  "redisConnectUnix path = connect_with True (\<lambda>f. f OR REDIS_BLOCK) (\<lambda>c w. redisContextConnectUnix False c w path None)"

definition redisConnectUnixWithTimeout :: "string \<Rightarrow> int \<times> int \<Rightarrow> world \<Rightarrow> (redisContext option \<times> world) cres" where
  "redisConnectUnixWithTimeout path tv = connect_with True (\<lambda>f. f OR REDIS_BLOCK) (\<lambda>c w. redisContextConnectUnix False c w path (Some tv))"

definition redisConnectUnixNonBlock :: "string \<Rightarrow> world \<Rightarrow> (redisContext option \<times> world) cres" where
  "redisConnectUnixNonBlock path = connect_with True (\<lambda>f. f AND NOT REDIS_BLOCK) (\<lambda>c w. redisContextConnectUnix False c w path None)"

text \<open>The descriptor is closed but stays in the context; new buffers are not tested for \<^verbatim>\<open>NULL\<close>.\<close>

definition redisReconnect :: "redisContext \<Rightarrow> world \<Rightarrow> (int \<times> redisContext \<times> world) cres" where
  "redisReconnect c w =
     cbind (c_strlen (c_errstr c)) (\<lambda>n.
     let c = c\<lparr>c_err := 0, c_errstr := replicate n NUL @ drop n (c_errstr c)\<rparr>;
         w = (if c_fd c > 0 then w\<lparr>w_closed := w_closed w @ [c_fd c]\<rparr> else w) in
     case c_reader c of
       None \<Rightarrow> Fault NullDeref
     | Some r \<Rightarrow>
         cbind (redisReaderFree r (w_heap w)) (\<lambda>h.
         let es = envs w; w = tick (w\<lparr>w_heap := h\<rparr>) in
         cbind (nullable (sdsempty (es 0 0))) (\<lambda>obuf.
         cbind (nullable (redisReaderCreate (es 0 1))) (\<lambda>reader.
         let c = c\<lparr>c_obuf := obuf, c_reader := reader\<rparr> in
         case c_connection_type c of
           REDIS_CONN_TCP \<Rightarrow>
             redisContextConnectBindTcp True c w (c_host c) (c_port c) (c_timeout c) (c_source_addr c)
         | REDIS_CONN_UNIX \<Rightarrow>
             (case c_path c of None \<Rightarrow> Fault NullDeref | Some path \<Rightarrow> redisContextConnectUnix True c w path (c_timeout c))))))"

definition redisSetTimeout :: "redisContext \<Rightarrow> world \<Rightarrow> int \<times> int \<Rightarrow> (int \<times> redisContext \<times> world) cres" where
  "redisSetTimeout c w tv =
     (if c_flags c AND REDIS_BLOCK \<noteq> 0 then redisContextSetTimeout c w tv else Ok (REDIS_ERR, c, w))"

definition redisEnableKeepAlive :: "redisContext \<Rightarrow> world \<Rightarrow> (int \<times> redisContext \<times> world) cres" where
  "redisEnableKeepAlive c w =
     cbind (redisKeepAlive c w REDIS_KEEPALIVE_INTERVAL) (\<lambda>(res, c, w).
       if res \<noteq> REDIS_OK then Ok (REDIS_ERR, c, w) else Ok (REDIS_OK, c, w))"

section \<open>What a step does to the descriptors\<close>

text \<open>The postcondition of a call that returns.\<close>

definition post :: "'a cres \<Rightarrow> ('a \<Rightarrow> bool) \<Rightarrow> bool" where
  "post m P \<longleftrightarrow> (\<forall>r. m = Ok r \<longrightarrow> P r)"

lemma post_simps [simp]: "post (Ok r) P = P r" "post (Fault e) P" "post Null P"
  by (simp_all add: post_def)

lemma post_bind: "post m Q \<Longrightarrow> (\<And>x. Q x \<Longrightarrow> post (f x) P) \<Longrightarrow> post (cbind m f) P"
  by (cases m) (auto simp: post_def)

lemma post_weaken: "post m Q \<Longrightarrow> (\<And>x. Q x \<Longrightarrow> P x) \<Longrightarrow> post m P"
  by (auto simp: post_def)

lemma postD: "post m P \<Longrightarrow> m = Ok r \<Longrightarrow> P r"
  by (simp add: post_def)

text \<open>
  A step on the socket of the context: on success nothing changes but the outcomes used; on failure
  the error is set, and the socket stays in the context or is closed and taken out of it.
\<close>

definition fds :: "world \<Rightarrow> int list \<times> int list" where
  "fds w = (w_opened w, w_closed w)"

definition kept :: "redisContext \<Rightarrow> redisContext \<Rightarrow> bool" where
  "kept c c' \<longleftrightarrow> c_flags c' = c_flags c \<and> c_obuf c' = c_obuf c \<and> c_reader c' = c_reader c"

definition fail_post :: "redisContext \<Rightarrow> world \<Rightarrow> redisContext \<Rightarrow> world \<Rightarrow> bool" where
  "fail_post c w c' w' \<longleftrightarrow> kept c c' \<and> c_err c' \<noteq> 0 \<and>
     (fds w' = fds w \<and> c_fd c' = c_fd c \<or> fds w' = (w_opened w, w_closed w @ [c_fd c]) \<and> c_fd c' = - 1)"

definition ok_post :: "redisContext \<Rightarrow> world \<Rightarrow> redisContext \<Rightarrow> world \<Rightarrow> bool" where
  "ok_post c w c' w' \<longleftrightarrow> kept c c' \<and> fds w' = fds w \<and> c_fd c' = c_fd c \<and> c_err c' = c_err c"

definition step_post :: "redisContext \<Rightarrow> world \<Rightarrow> bool \<Rightarrow> int \<times> redisContext \<times> world \<Rightarrow> bool" where
  "step_post c w mode = (\<lambda>(res, c', w').
     if res = REDIS_OK then ok_post c w c' w' \<and> w_mode w' = mode else res = REDIS_ERR \<and> fail_post c w c' w')"

lemma sys_call_post: "post (sys_call w) (\<lambda>(x, w'). fds w' = fds w \<and> w_mode w' = w_mode w)"
  by (auto simp: sys_call_def fds_def post_def split: list.splits sum.splits)

lemma setsockopt_post: "post (sys_setsockopt name v w) (\<lambda>(x, w'). fds w' = fds w \<and> w_mode w' = w_mode w)"
  unfolding sys_setsockopt_def
  by (rule post_bind [OF sys_call_post]) (auto simp: fds_def split: sum.splits)

lemma setError_post: "post (redisSetError w c ty str) (\<lambda>c'. kept c c' \<and> c_fd c' = c_fd c \<and> c_err c' = ty)"
  by (auto simp: post_def redisSetError_def kept_def Let_def split: option.splits if_splits)

lemma fail_posts:
  assumes "fds w' = fds w"
  shows "0 \<le> c_fd c \<Longrightarrow> post (fail_close w' c prefix) (step_post c w mode)"
    "post (fail_errno w' c prefix) (step_post c w mode)"
    "post (fail_with w' c msg) (step_post c w mode)"
proof -
  note s = setError_post [of w' c]
  show "0 \<le> c_fd c \<Longrightarrow> post (fail_close w' c prefix) (step_post c w mode)"
    unfolding fail_close_def redisSetErrorFromErrno_def Let_def
    by (rule post_bind [OF s]) (use assms in \<open>auto simp: redisContextCloseFd_def step_post_def fail_post_def kept_def fds_def redis_consts\<close>)
  show "post (fail_errno w' c prefix) (step_post c w mode)"
    unfolding fail_errno_def redisSetErrorFromErrno_def Let_def
    by (rule post_bind [OF s]) (use assms in \<open>auto simp: step_post_def fail_post_def fds_def redis_consts\<close>)
  show "post (fail_with w' c msg) (step_post c w mode)"
    unfolding fail_with_def set_error_def
    by (rule post_bind [OF s]) (use assms in \<open>auto simp: step_post_def fail_post_def fds_def redis_consts\<close>)
qed

lemma step_ok: "fds w' = fds w \<Longrightarrow> w_mode w' = mode \<Longrightarrow> step_post c w mode (REDIS_OK, c, w')"
  by (simp add: step_post_def ok_post_def kept_def)

lemma setBlocking_post: "0 \<le> c_fd c \<Longrightarrow> post (redisSetBlocking c w b) (step_post c w b)"
  unfolding redisSetBlocking_def
  by (rule post_bind [OF sys_call_post])
    (auto split: sum.splits intro!: post_bind [OF sys_call_post] fail_posts(1) step_ok simp: fds_def)

lemma noDelay_post: "0 \<le> c_fd c \<Longrightarrow> post (redisSetTcpNoDelay c w) (step_post c w (w_mode w))"
  unfolding redisSetTcpNoDelay_def
  by (rule post_bind [OF setsockopt_post]) (auto intro!: fail_posts(1) step_ok)

lemma checkSocket_post: "fds w' = fds w \<Longrightarrow> w_mode w' = mode \<Longrightarrow> post (redisCheckSocketError c w') (step_post c w mode)"
  by (auto simp: redisCheckSocketError_def fds_def split: list.splits sum.splits option.splits intro!: fail_posts step_ok)

lemma step_again:
  "post m (step_post c w mode) \<Longrightarrow>
   post (cbind m (\<lambda>(res, c, w). if res \<noteq> REDIS_OK then Ok (REDIS_ERR, c, w) else Ok (REDIS_OK, c, w))) (step_post c w mode)"
  by (erule post_bind) (auto simp: step_post_def split: if_splits)

lemma waitReady_post:
  assumes "0 \<le> c_fd c"
  shows "post (redisContextWaitReady c w t) (step_post c w (w_mode w))"
proof (cases "wait_msec t")
  case None
  then show ?thesis using fail_posts(1) [OF refl assms] by (simp add: redisContextWaitReady_def)
next
  case (Some msec)
  let ?w = "w\<lparr>w_opts := w_opts w @ [(''poll'', msec)]\<rparr>"
  have "post (cbind (sys_call ?w) (\<lambda>(x, w). case x of
          Inl _ \<Rightarrow> fail_close w c (Some ''poll(2)'')
        | Inr n \<Rightarrow> if n = 0 then fail_close (w\<lparr>w_errno := ETIMEDOUT\<rparr>) c None
            else cbind (redisCheckSocketError c w) (\<lambda>(res, c, w). if res \<noteq> REDIS_OK then Ok (REDIS_ERR, c, w) else Ok (REDIS_OK, c, w))))
      (step_post c w (w_mode w))"
    by (rule post_bind [OF sys_call_post])
      (use assms in \<open>auto simp: fds_def split: sum.splits intro!: fail_posts(1) step_again checkSocket_post\<close>)
  then show ?thesis using Some fail_posts(1) [OF refl assms] by (simp add: redisContextWaitReady_def)
qed

lemma bind_any_post: "fds w = fds w0 \<Longrightarrow> w_mode w = mode \<Longrightarrow> post (bind_any bs w) (\<lambda>(x, w'). fds w' = fds w0 \<and> w_mode w' = mode)"
proof (induction bs arbitrary: w)
  case (Cons b bs)
  show ?case unfolding bind_any.simps
    by (rule post_bind [OF sys_call_post]) (use Cons in \<open>auto split: sum.splits\<close>)
qed simp

lemma bind_source_post: "post (bind_source ipv6 False c w) (step_post c w (w_mode w))"
proof (cases "c_source_addr c")
  case (Some src)
  show ?thesis
  proof (cases "w_resolve w (Some src) None ipv6")
    case (Inr bs)
    have "post (cbind (bind_any bs w) (\<lambda>(bound, w). if bound then Ok (REDIS_OK, c, w)
        else fail_with w c (''Can't bind socket: '' @ w_strerror w (w_errno w)))) (step_post c w (w_mode w))"
      by (rule post_bind [OF bind_any_post [OF refl refl]]) (auto intro!: fail_posts(3) step_ok)
    then show ?thesis using Some Inr by (simp add: bind_source_def)
  qed (use Some in \<open>simp add: bind_source_def fail_posts(3)\<close>)
qed (simp add: bind_source_def step_ok)

text \<open>
  The result of a whole attempt: every socket that was opened is closed again, except the last one,
  which is left in the context.
\<close>

definition attempt_post :: "bool \<Rightarrow> redisContext \<Rightarrow> world \<Rightarrow> int \<times> redisContext \<times> world \<Rightarrow> bool" where
  "attempt_post block c w = (\<lambda>(res, c', w').
     \<exists>xs ys. fds w' = (w_opened w @ xs, w_closed w @ ys) \<and> c_obuf c' = c_obuf c \<and> c_reader c' = c_reader c \<and>
       (if res = REDIS_OK
        then c_err c' = c_err c \<and> c_flags c' = c_flags c OR REDIS_CONNECTED \<and> w_mode w' = block \<and> xs = ys @ [c_fd c'] \<and> 0 \<le> c_fd c'
        else res = REDIS_ERR \<and> c_err c' \<noteq> 0 \<and> c_flags c' = c_flags c \<and>
          (xs = ys @ [c_fd c'] \<and> 0 \<le> c_fd c' \<or> xs = ys \<and> (c_fd c' = c_fd c \<or> c_fd c' = - 1))))"

text \<open>The context holds an open socket, the last one of the attempt.\<close>

definition holds :: "redisContext \<Rightarrow> world \<Rightarrow> redisContext \<Rightarrow> world \<Rightarrow> bool" where
  "holds c0 w0 c w \<longleftrightarrow> kept c0 c \<and> c_err c = c_err c0 \<and> 0 \<le> c_fd c \<and>
     (\<exists>zs. fds w = (w_opened w0 @ zs @ [c_fd c], w_closed w0 @ zs))"

lemma holds_ok: "holds c0 w0 c w \<Longrightarrow> step_post c w mode (REDIS_OK, c', w') \<Longrightarrow> holds c0 w0 c' w' \<and> w_mode w' = mode"
  by (auto simp: holds_def step_post_def ok_post_def kept_def)

lemma holds_fail: "holds c0 w0 c w \<Longrightarrow> step_post c w mode (res, c', w') \<Longrightarrow> res \<noteq> REDIS_OK \<Longrightarrow> attempt_post block c0 w0 (REDIS_ERR, c', w')"
  by (auto simp: holds_def step_post_def fail_post_def attempt_post_def kept_def fds_def redis_consts)

lemma holds_bind:
  assumes "holds c0 w0 c w" "post m (step_post c w mode)"
    "\<And>c' w'. holds c0 w0 c' w' \<Longrightarrow> w_mode w' = mode \<Longrightarrow> post (f c' w') (attempt_post block c0 w0)"
  shows "post (cbind m (\<lambda>(res, c, w). if res \<noteq> REDIS_OK then Ok (REDIS_ERR, c, w) else f c w)) (attempt_post block c0 w0)"
proof (rule post_bind [OF assms(2)])
  fix r
  assume r: "step_post c w mode r"
  obtain res c' w' where x: "r = (res, c', w')" by (metis prod_cases3)
  show "post ((\<lambda>(res, c, w). if res \<noteq> REDIS_OK then Ok (REDIS_ERR, c, w) else f c w) r) (attempt_post block c0 w0)"
    using holds_ok [OF assms(1), of mode c' w'] holds_fail [OF assms(1), of mode res c' w' block] r assms(3)
    by (cases "res = REDIS_OK") (auto simp: x)
qed

lemma finish_connect_post:
  assumes "holds c0 w0 c w" "\<not> block \<Longrightarrow> \<not> w_mode w"
  shows "post (finish_connect block c w) (attempt_post block c0 w0)"
  unfolding finish_connect_def
proof (rule holds_bind [OF assms(1), of _ block])
  show "post (if block then redisSetBlocking c w True else Ok (REDIS_OK, c, w)) (step_post c w block)"
    using setBlocking_post [of c w True] assms by (auto simp: holds_def intro: step_ok)
  fix c1 w1
  assume h: "holds c0 w0 c1 w1" "w_mode w1 = block"
  show "post (cbind (redisSetTcpNoDelay c1 w1) (\<lambda>(res, c, w). if res \<noteq> REDIS_OK then Ok (REDIS_ERR, c, w)
      else Ok (REDIS_OK, c\<lparr>c_flags := c_flags c OR REDIS_CONNECTED\<rparr>, w))) (attempt_post block c0 w0)"
  proof (rule holds_bind [OF h(1) noDelay_post])
    show "0 \<le> c_fd c1" using h(1) by (simp add: holds_def)
    show "post (Ok (REDIS_OK, c\<lparr>c_flags := c_flags c OR REDIS_CONNECTED\<rparr>, w)) (attempt_post block c0 w0)"
      if "holds c0 w0 c w" "w_mode w = w_mode w1" for c w
      using that h(2) by (auto simp: holds_def attempt_post_def kept_def fds_def)
  qed
qed

lemma socket_post:
  "post (sys_socket w) (\<lambda>(s, w'). case s of None \<Rightarrow> fds w' = fds w | Some s \<Rightarrow> 0 \<le> s \<and> fds w' = (w_opened w @ [s], w_closed w))"
  unfolding sys_socket_def by (rule post_bind [OF sys_call_post]) (auto simp: fds_def split: sum.splits)

lemma connect_loop_post:
  "kept c0 c \<Longrightarrow> c_err c = c_err c0 \<Longrightarrow> c_fd c = c_fd c0 \<or> c_fd c = - 1 \<Longrightarrow> fds w = (w_opened w0 @ zs, w_closed w0 @ zs) \<Longrightarrow>
   post (connect_loop ipv6 block False reuses ps c w) (attempt_post block c0 w0)"
proof (induction ps arbitrary: c w zs)
  case Nil
  have "post (fail_with w c m) (attempt_post block c0 w0)" for m
    unfolding fail_with_def set_error_def
    by (rule post_bind [OF setError_post]) (use Nil in \<open>auto simp: attempt_post_def kept_def fds_def redis_consts\<close>)
  then show ?case by (simp add: connect_loop.simps [of _ _ _ _ "[]"])
next
  case (Cons p ps)
  have con: "post (cbind (sys_call w) (\<lambda>(x, w). case x of
      Inr _ \<Rightarrow> finish_connect block c w
    | Inl e \<Rightarrow>
        if e = EHOSTUNREACH then (case redisContextCloseFd c w of (c, w) \<Rightarrow> connect_loop ipv6 block False reuses ps c w)
        else if e = EINPROGRESS \<and> \<not> block then finish_connect block c w
        else if e = EADDRNOTAVAIL \<and> False then
          (if Suc reuses \<ge> REDIS_CONNECT_RETRIES then Ok (REDIS_ERR, c, w) else connect_loop ipv6 block False (Suc reuses) (p # ps) c w)
        else cbind (redisContextWaitReady c w (c_timeout c)) (\<lambda>(res, c, w).
          if res \<noteq> REDIS_OK then Ok (REDIS_ERR, c, w) else finish_connect block c w))) (attempt_post block c0 w0)"
    if h: "holds c0 w0 c w" "w_mode w = False" for c w
  proof (rule post_bind [OF sys_call_post], goal_cases)
    case (1 y)
    obtain x w1 where x: "y = (x, w1)" "fds w1 = fds w" "w_mode w1 = False" using 1 h(2) by (cases y) auto
    have h1: "holds c0 w0 c w1" using h(1) x(2) by (simp add: holds_def)
    obtain us where us: "fds w1 = (w_opened w0 @ us @ [c_fd c], w_closed w0 @ us)" "0 \<le> c_fd c" "kept c0 c" "c_err c = c_err c0"
      using h1 by (auto simp: holds_def)
    note fin = finish_connect_post [OF h1, of block]
    have wait: "post (cbind (redisContextWaitReady c w1 (c_timeout c)) (\<lambda>(res, c, w).
        if res \<noteq> REDIS_OK then Ok (REDIS_ERR, c, w) else finish_connect block c w)) (attempt_post block c0 w0)"
      by (rule holds_bind [OF h1 waitReady_post]) (use us(2) x(3) finish_connect_post in auto)
    have again: "post (connect_loop ipv6 block False reuses ps (c\<lparr>c_fd := - 1\<rparr>) (w1\<lparr>w_closed := w_closed w1 @ [c_fd c]\<rparr>)) (attempt_post block c0 w0)"
      by (rule Cons.IH [of _ _ "us @ [c_fd c]"]) (use us in \<open>auto simp: kept_def fds_def\<close>)
    show ?case
      unfolding x(1) using fin wait again us(2) x(3) by (cases x; cases block) (simp_all add: redisContextCloseFd_def)
  qed
  show ?case
  proof (subst connect_loop.simps, unfold list.case, rule post_bind [OF socket_post], goal_cases)
    case (1 y)
    obtain s w1 where s: "y = (s, w1)" by (cases y)
    show ?case
    proof (cases s)
      case None
      then show ?thesis using 1 s Cons.IH [OF Cons.prems(1-3), of w1 zs] Cons.prems(4) by simp
    next
      case (Some fd)
      let ?c = "c\<lparr>c_fd := fd\<rparr>"
      have h: "holds c0 w0 ?c w1" using 1 s Some Cons.prems by (auto simp: holds_def kept_def fds_def)
      have "0 \<le> c_fd ?c" using h by (simp add: holds_def)
      then show ?thesis unfolding s prod.case Some option.case
        by (intro holds_bind [OF h setBlocking_post] holds_bind [OF _ bind_source_post]) (auto intro!: con)
    qed
  qed
qed

lemma tcp_connect_post:
  assumes "c_flags c AND REDIS_REUSEADDR = 0"
  shows "post (tcp_connect own c w addr port timeout src) (attempt_post (c_flags c AND REDIS_BLOCK \<noteq> 0) c w)"
proof -
  have kp: "post (keep_params own c es addr port timeout src) (\<lambda>c'. kept c c' \<and> c_err c' = c_err c \<and> c_fd c' = c_fd c)" for es
    by (cases timeout; cases src; cases addr) (auto simp: keep_params_def Let_def kept_def post_def split: if_splits)
  show ?thesis unfolding tcp_connect_def Let_def
  proof (rule post_bind [OF kp], goal_cases)
    case (1 c1)
    have cl: "post (connect_loop i b False 0 ps c1 (tick w)) (attempt_post b c w)" for i b ps
      by (rule connect_loop_post [of _ _ _ _ "[]"]) (use 1 in \<open>auto simp: fds_def tick_def\<close>)
    have er: "post (set_error (tick w) c1 REDIS_ERR_OTHER t) (attempt_post b c w)" for t b
      unfolding set_error_def
      by (rule post_bind [OF setError_post]) (use 1 in \<open>auto simp: attempt_post_def kept_def fds_def tick_def redis_consts\<close>)
    show ?case using assms cl er by (auto split: sum.splits)
  qed
qed

section \<open>Properties\<close>


definition two_addresses :: world where
  "two_addresses = example_world\<lparr>w_resolve := (\<lambda>_ _ _. Inr [1, 2]),
     w_sys := [Inr 5, Inr 0, Inr 0, Inl EHOSTUNREACH, Inr 6, Inr 0, Inr 0, Inr 0, Inr 0, Inr 0, Inr 0]\<rparr>"

lemma two_addresses_run:
  "tcp_connect True (fst_ctx\<lparr>c_flags := 1\<rparr>) two_addresses None 6379 None None =
     Ok (REDIS_OK, fst_ctx\<lparr>c_flags := 3, c_port := 6379, c_fd := 6\<rparr>,
       (tick two_addresses)\<lparr>w_sys := [], w_opened := [5, 6], w_closed := [5], w_errno := EHOSTUNREACH, w_opts := [(''TCP_NODELAY'', 1)]\<rparr>)"
  if "fst_ctx = \<lparr>c_err = 0, c_errstr = [], c_fd = 0, c_flags = 0, c_obuf = None, c_reader = None, c_connection_type = REDIS_CONN_TCP,
     c_timeout = None, c_host = None, c_source_addr = None, c_port = 0, c_path = None\<rparr>" for fst_ctx
  using that
  by (simp add: tcp_connect_def two_addresses_def keep_params_def REDIS_BLOCK_def REDIS_REUSEADDR_def REDIS_CONNECTED_def connect_loop.simps
      sys_socket_def sys_call_def redisSetBlocking_def bind_source_def redisContextCloseFd_def finish_connect_def redisSetTcpNoDelay_def
      sys_setsockopt_def redis_consts example_world_def tick_def)


text \<open>
  Freeing the context that a connecting function returned closes exactly the descriptors that were
  opened for it, each once, whether the connection was established or not. Descriptor 0 is
  excepted: \<^verbatim>\<open>redisFree\<close> takes it for the value of a context without a socket.
\<close>
theorem connect_free_balanced:
  assumes "connect_with tested flg (\<lambda>c w. redisContextConnectBindTcp False c w (Some ip) port timeout src) w = Ok (Some c, w1)"
    "flg 0 AND REDIS_REUSEADDR = 0" "0 \<notin> set (w_opened w1)" "redisFree (Some c) w1 = Ok w2"
  shows "\<exists>xs. w_opened w2 = w_opened w @ xs \<and> w_closed w2 = w_closed w @ xs"
proof -
  obtain c0 w0 res where i: "redisContextInit w = Ok (Some c0, w0)"
    "tcp_connect False (c0\<lparr>c_flags := flg (c_flags c0)\<rparr>) w0 (Some ip) port timeout src = Ok (res, c, w1)"
    using assms(1) by (auto simp: connect_with_def redisContextConnectBindTcp_def split: option.splits if_splits)
  have c0: "c_flags c0 = 0" "c_fd c0 = 0" "fds w0 = fds w"
    using i(1) by (auto simp: redisContextInit_def Let_def fds_def tick_def elim!: nullable.elims split: if_splits)
  have fl: "c_flags (c0\<lparr>c_flags := flg (c_flags c0)\<rparr>) AND REDIS_REUSEADDR = 0" using c0 assms(2) by simp
  from postD [OF tcp_connect_post [OF fl] i(2)] obtain xs ys where
    x: "w_opened w1 = w_opened w @ xs" "w_closed w1 = w_closed w @ ys"
      "xs = ys @ [c_fd c] \<and> 0 \<le> c_fd c \<or> xs = ys \<and> (c_fd c = 0 \<or> c_fd c = - 1)"
    using c0 by (auto simp: attempt_post_def fds_def split: if_splits)
  have "w_opened w2 = w_opened w1" "w_closed w2 = w_closed w1 @ (if c_fd c > 0 then [c_fd c] else [])"
    using assms(4) by (auto simp: redisFree_def Let_def split: option.splits if_splits)
  then show ?thesis using x assms(3) by (auto simp: order_le_less)
qed

text \<open>
  With \<^verbatim>\<open>REDIS_REUSEADDR\<close> a connect that fails with \<^verbatim>\<open>EADDRNOTAVAIL\<close> is tried again on a new socket
  without closing the old one: the descriptors opened are more than the one in the context.
\<close>
theorem connect_retry_leaks:
  assumes "ctx = \<lparr>c_err = 0, c_errstr = [], c_fd = 0, c_flags = REDIS_REUSEADDR, c_obuf = None, c_reader = None,
     c_connection_type = REDIS_CONN_TCP, c_timeout = None, c_host = None, c_source_addr = None, c_port = 0, c_path = None\<rparr>"
    "w_resolve w = (\<lambda>_ _ _. Inr [1])"
    "w_sys w = [Inr 5, Inr 0, Inr 0, Inl EADDRNOTAVAIL, Inr 6, Inr 0, Inr 0, Inr 0, Inr 0]"
  shows "\<exists>c' w'. tcp_connect True ctx w None 6379 None None = Ok (REDIS_OK, c', w') \<and>
    w_opened w' = w_opened w @ [5, 6] \<and> w_closed w' = w_closed w \<and> c_fd c' = 6"
  using assms
  by (simp add: tcp_connect_def keep_params_def REDIS_BLOCK_def REDIS_REUSEADDR_def REDIS_CONNECTED_def connect_loop.simps
      sys_socket_def sys_call_def redisSetBlocking_def bind_source_def finish_connect_def redisSetTcpNoDelay_def
      sys_setsockopt_def redis_consts REDIS_CONNECT_RETRIES_def tick_def)

text \<open>
  \<^verbatim>\<open>redisReconnect\<close> closes the descriptor but leaves it in the context: when the name of the server
  cannot be resolved any more, freeing the context closes the same descriptor a second time.
\<close>
theorem reconnect_closes_twice:
  assumes "c_connection_type c = REDIS_CONN_TCP" "c_fd c > 0" "w_resolve w = (\<lambda>_ _ _. Inl rv)"
    "redisReconnect c w = Ok (res, c', w')" "redisFree (Some c') w' = Ok w2"
  shows "w_closed w2 = w_closed w @ [c_fd c, c_fd c]"
proof -
  have kp: "post (keep_params True d es a p t s) (\<lambda>d'. c_fd d' = c_fd d)" for d es a p t s
    by (cases t; cases s) (auto simp: keep_params_def Let_def)
  have tc: "w_closed w1' = w_closed w1 \<and> c_fd d' = c_fd d"
    if "tcp_connect True d w1 a p t s = Ok (x, d', w1')" "w_resolve w1 = (\<lambda>_ _ _. Inl rv)" for d w1 a p t s x d' w1'
    using that kp [of d "envs w1 0" a p t s]
    by (auto simp: tcp_connect_def Let_def tick_def set_error_def post_def dest: setError_post [unfolded post_def, rule_format])
  have "w_closed w' = w_closed w @ [c_fd c] \<and> c_fd c' = c_fd c"
    using assms(1-4) by (auto simp: redisReconnect_def Let_def redisContextConnectBindTcp_def tick_def split: option.splits dest!: tc)
  then show ?thesis using assms(2,5) by (auto simp: redisFree_def Let_def split: option.splits)
qed

end
