(* ===== verification/Dict.thy ===== *)
theory Dict
  imports Interfaces "HOL-Library.Multiset"
begin

unbundle bit_operations_syntax

text \<open>
  The chained hash table of \<^verbatim>\<open>src/win/hiredis/dict.c\<close> and \<^verbatim>\<open>dict.h\<close>. The
  table is an array of chains, a chain is the list of its entries in link order, and the null
  table of a fresh dictionary is \<open>None\<close>. The callbacks of a \<^verbatim>\<open>dictType\<close> are a
  record of functions; the destructors a call runs are its trace of \<^verbatim>\<open>free_event\<close>s.
  The counters are \<^verbatim>\<open>unsigned long\<close>, 32 bits wide. The theory shows that every
  operation keeps the representation invariant and acts as the operation on a finite map, and
  that iteration visits every entry exactly once.
\<close>

section \<open>Data\<close>

definition DICT_OK :: int where "DICT_OK = 0"

definition DICT_ERR :: int where "DICT_ERR = 1"

definition DICT_HT_INITIAL_SIZE :: nat where "DICT_HT_INITIAL_SIZE = 4"

definition LONG_MAX :: nat where "LONG_MAX = 2147483647"

type_synonym ('k, 'v) chain = "('k \<times> 'v) list"

record ('k, 'v) dictType =
  hashFunction :: "'k \<Rightarrow> 32 word"
  keyDup :: "('k \<Rightarrow> 'k) option"
  valDup :: "('v \<Rightarrow> 'v) option"
  keyCompare :: "('k \<Rightarrow> 'k \<Rightarrow> bool) option"
  keyDestructor :: bool
  valDestructor :: bool

record ('k, 'v) dict =
  dt_table :: "('k, 'v) chain list option"
  dt_size :: nat
  dt_sizemask :: nat
  dt_used :: nat

datatype ('k, 'v) free_event = FreeKey 'k | FreeVal 'v

section \<open>Macros\<close>

definition dictFreeEntryVal :: "('k, 'v) dictType \<Rightarrow> 'k \<times> 'v \<Rightarrow> ('k, 'v) free_event list" where
  "dictFreeEntryVal T en = (if valDestructor T then [FreeVal (snd en)] else [])"

definition dictFreeEntryKey :: "('k, 'v) dictType \<Rightarrow> 'k \<times> 'v \<Rightarrow> ('k, 'v) free_event list" where
  "dictFreeEntryKey T en = (if keyDestructor T then [FreeKey (fst en)] else [])"

definition dictSetHashVal :: "('k, 'v) dictType \<Rightarrow> 'v \<Rightarrow> 'v" where
  "dictSetHashVal T v = (case valDup T of None \<Rightarrow> v | Some f \<Rightarrow> f v)"

definition dictSetHashKey :: "('k, 'v) dictType \<Rightarrow> 'k \<Rightarrow> 'k" where
  "dictSetHashKey T k = (case keyDup T of None \<Rightarrow> k | Some f \<Rightarrow> f k)"

definition dictCompareHashKeys :: "('k, 'v) dictType \<Rightarrow> 'k \<Rightarrow> 'k \<Rightarrow> bool" where
  "dictCompareHashKeys T k1 k2 = (case keyCompare T of None \<Rightarrow> k1 = k2 | Some f \<Rightarrow> f k1 k2)"

definition dictHashKey :: "('k, 'v) dictType \<Rightarrow> 'k \<Rightarrow> 32 word" where
  "dictHashKey T k = hashFunction T k"

section \<open>Operations\<close>

fun dictGenHash_loop :: "32 word \<Rightarrow> char list \<Rightarrow> 32 word" where
  "dictGenHash_loop hash [] = hash"
| "dictGenHash_loop hash (c # b) = dictGenHash_loop ((push_bit 5 hash + hash) + of_char c) b"

definition dictGenHashFunction :: "char list \<Rightarrow> 32 word" where
  "dictGenHashFunction b = dictGenHash_loop 5381 b"

definition dictReset :: "('k, 'v) dict" where
  "dictReset = \<lparr>dt_table = None, dt_size = 0, dt_sizemask = 0, dt_used = 0\<rparr>"

definition dictCreate :: "env \<Rightarrow> ('k, 'v) dict cres" where
  "dictCreate e = (if can_alloc e 48 then Ok dictReset else Fault NullDeref)"

text \<open>Positions and counters: \<open>hash & sizemask\<close>, and unsigned arithmetic on 32 bits.\<close>

definition slot_of :: "('k, 'v) dictType \<Rightarrow> 'k \<Rightarrow> nat \<Rightarrow> nat" where
  "slot_of T k sizemask = unat (dictHashKey T k) AND sizemask"

definition ulong_dec :: "nat \<Rightarrow> nat" where
  "ulong_dec n = (n + 4294967295) mod 4294967296"

definition ulong_inc :: "nat \<Rightarrow> nat" where
  "ulong_inc n = (n + 1) mod 4294967296"

text \<open>
  The doubling starts at \<^verbatim>\<open>DICT_HT_INITIAL_SIZE\<close> and the size is below
  \<^verbatim>\<open>LONG_MAX\<close>, so the 32-bit product never wraps; the test for zero is never taken.
\<close>

function dictNextPower_loop :: "nat \<Rightarrow> nat \<Rightarrow> nat" where
  "dictNextPower_loop sz i =
     (if i \<ge> sz \<or> i = 0 then i else dictNextPower_loop sz (i * 2))"
  by pat_completeness auto
termination
  by (relation "measure (\<lambda>(sz, i). sz - i)") auto

declare dictNextPower_loop.simps [simp del]

definition dictNextPower :: "nat \<Rightarrow> nat" where
  "dictNextPower sz =
     (if sz \<ge> LONG_MAX then LONG_MAX else dictNextPower_loop sz DICT_HT_INITIAL_SIZE)"

text \<open>
  Moving a chain to the new table: every entry is linked in at the front of its new chain and
  the old count goes down by one.
\<close>

definition table_push :: "('k, 'v) chain list option \<Rightarrow> nat \<Rightarrow> 'k \<times> 'v \<Rightarrow> ('k, 'v) chain list cres" where
  "table_push t h en =
     (case t of
        None \<Rightarrow> Fault NullDeref
      | Some t \<Rightarrow> if h < length t then Ok (t[h := en # t ! h]) else Fault OutOfBounds)"

fun expand_chain :: "('k, 'v) dictType \<Rightarrow> nat \<Rightarrow> ('k, 'v) chain \<Rightarrow> ('k, 'v) chain list option \<times> nat \<Rightarrow>
    (('k, 'v) chain list option \<times> nat) cres" where
  "expand_chain T msk [] st = Ok st"
| "expand_chain T msk (en # ch) (t, used) =
     cbind (table_push t (slot_of T (fst en) msk) en)
       (\<lambda>t. expand_chain T msk ch (Some t, ulong_dec used))"

fun expand_table :: "('k, 'v) dictType \<Rightarrow> nat \<Rightarrow> ('k, 'v) chain list \<Rightarrow> ('k, 'v) chain list option \<times> nat \<Rightarrow>
    (('k, 'v) chain list option \<times> nat) cres" where
  "expand_table T msk [] st = Ok st"
| "expand_table T msk (ch # old) (t, used) =
     (if used > 0 then cbind (expand_chain T msk ch (t, used)) (expand_table T msk old)
      else Ok (t, used))"

definition old_chains :: "('k, 'v) dict \<Rightarrow> ('k, 'v) chain list" where
  "old_chains ht = (case dt_table ht of None \<Rightarrow> [] | Some t \<Rightarrow> take (dt_size ht) t)"

definition dictExpand :: "env \<Rightarrow> ('k, 'v) dictType \<Rightarrow> ('k, 'v) dict \<Rightarrow> nat \<Rightarrow> (int \<times> ('k, 'v) dict) cres" where
  "dictExpand e T ht sz =
     (let realsize = dictNextPower sz in
      if dt_used ht > sz then Ok (DICT_ERR, ht)
      else
        let n_table = (if can_alloc e (realsize * 8) then Some (replicate realsize []) else None)
        in cbind (expand_table T (realsize - 1) (old_chains ht) (n_table, dt_used ht))
             (\<lambda>(t, used). if used \<noteq> 0 then Fault AssertFailed
                else Ok (DICT_OK, \<lparr>dt_table = t, dt_size = realsize, dt_sizemask = realsize - 1,
                                  dt_used = dt_used ht\<rparr>)))"

definition dictExpandIfNeeded :: "env \<Rightarrow> ('k, 'v) dictType \<Rightarrow> ('k, 'v) dict \<Rightarrow> (int \<times> ('k, 'v) dict) cres" where
  "dictExpandIfNeeded e T ht =
     (if dt_size ht = 0 then dictExpand e T ht DICT_HT_INITIAL_SIZE
      else if dt_used ht = dt_size ht then dictExpand e T ht ((dt_size ht * 2) mod 4294967296)
      else Ok (DICT_OK, ht))"

definition chain_at :: "('k, 'v) dict \<Rightarrow> nat \<Rightarrow> ('k, 'v) chain cres" where
  "chain_at ht h =
     (case dt_table ht of
        None \<Rightarrow> Fault NullDeref
      | Some t \<Rightarrow> if h < length t then Ok (t ! h) else Fault OutOfBounds)"

fun chain_find :: "('k, 'v) dictType \<Rightarrow> 'k \<Rightarrow> ('k, 'v) chain \<Rightarrow> ('k \<times> 'v) option" where
  "chain_find T key [] = None"
| "chain_find T key (he # ch) =
     (if dictCompareHashKeys T key (fst he) then Some he else chain_find T key ch)"

definition dictKeyIndex :: "env \<Rightarrow> ('k, 'v) dictType \<Rightarrow> ('k, 'v) dict \<Rightarrow> 'k \<Rightarrow> (int \<times> ('k, 'v) dict) cres" where
  "dictKeyIndex e T ht key =
     cbind (dictExpandIfNeeded e T ht)
       (\<lambda>(r, ht). if r = DICT_ERR then Ok (- 1, ht)
          else let h = slot_of T key (dt_sizemask ht) in
            cbind (chain_at ht h) (\<lambda>ch. case chain_find T key ch of
                Some he \<Rightarrow> Ok (- 1, ht)
              | None \<Rightarrow> Ok (to_i32 (int h), ht)))"

definition dictAdd :: "env \<Rightarrow> env \<Rightarrow> ('k, 'v) dictType \<Rightarrow> ('k, 'v) dict \<Rightarrow> 'k \<Rightarrow> 'v \<Rightarrow> (int \<times> ('k, 'v) dict) cres" where
  "dictAdd e e' T ht key val =
     cbind (dictKeyIndex e T ht key)
       (\<lambda>(index, ht). if index = - 1 then Ok (DICT_ERR, ht)
          else if \<not> can_alloc e' 24 then Fault NullDeref
          else cbind (table_push (dt_table ht) (nat index) (dictSetHashKey T key, dictSetHashVal T val))
            (\<lambda>t. Ok (DICT_OK, ht\<lparr>dt_table := Some t, dt_used := ulong_inc (dt_used ht)\<rparr>)))"

definition dictFind :: "('k, 'v) dictType \<Rightarrow> ('k, 'v) dict \<Rightarrow> 'k \<Rightarrow> ('k \<times> 'v) option cres" where
  "dictFind T ht key =
     (if dt_size ht = 0 then Ok None
      else cbind (chain_at ht (slot_of T key (dt_sizemask ht))) (\<lambda>ch. Ok (chain_find T key ch)))"

fun chain_set :: "('k, 'v) dictType \<Rightarrow> 'k \<Rightarrow> 'v \<Rightarrow> ('k, 'v) chain \<Rightarrow> ('k, 'v) chain" where
  "chain_set T key v [] = []"
| "chain_set T key v (he # ch) =
     (if dictCompareHashKeys T key (fst he) then (fst he, v) # ch else he # chain_set T key v ch)"

text \<open>
  The entry found is updated in place, and only then the old value is destroyed.
\<close>

definition dictReplace :: "env \<Rightarrow> env \<Rightarrow> ('k, 'v) dictType \<Rightarrow> ('k, 'v) dict \<Rightarrow> 'k \<Rightarrow> 'v \<Rightarrow>
    (int \<times> ('k, 'v) dict \<times> ('k, 'v) free_event list) cres" where
  "dictReplace e e' T ht key val =
     cbind (dictAdd e e' T ht key val)
       (\<lambda>(r, ht). if r = DICT_OK then Ok (1, ht, [])
          else cbind (dictFind T ht key) (\<lambda>en. case en of
              None \<Rightarrow> Fault NullDeref
            | Some auxentry \<Rightarrow>
                let h = slot_of T key (dt_sizemask ht) in
                cbind (chain_at ht h)
                  (\<lambda>ch. Ok (0, ht\<lparr>dt_table := map_option (\<lambda>t. t[h := chain_set T key (dictSetHashVal T val) ch])
                                     (dt_table ht)\<rparr>, dictFreeEntryVal T auxentry))))"

text \<open>Unlinking the first entry with the key; the flag says whether there was one.\<close>

fun chain_unlink :: "('k, 'v) dictType \<Rightarrow> 'k \<Rightarrow> ('k, 'v) chain \<Rightarrow> ('k \<times> 'v) option \<times> ('k, 'v) chain" where
  "chain_unlink T key [] = (None, [])"
| "chain_unlink T key (de # ch) =
     (if dictCompareHashKeys T key (fst de) then (Some de, ch)
      else (case chain_unlink T key ch of (r, ch') \<Rightarrow> (r, de # ch')))"

definition dictDelete :: "('k, 'v) dictType \<Rightarrow> ('k, 'v) dict \<Rightarrow> 'k \<Rightarrow>
    (int \<times> ('k, 'v) dict \<times> ('k, 'v) free_event list) cres" where
  "dictDelete T ht key =
     (if dt_size ht = 0 then Ok (DICT_ERR, ht, [])
      else let h = slot_of T key (dt_sizemask ht) in
        cbind (chain_at ht h) (\<lambda>ch. case chain_unlink T key ch of
            (None, _) \<Rightarrow> Ok (DICT_ERR, ht, [])
          | (Some de, ch') \<Rightarrow>
              Ok (DICT_OK, ht\<lparr>dt_table := map_option (\<lambda>t. t[h := ch']) (dt_table ht),
                             dt_used := ulong_dec (dt_used ht)\<rparr>,
                  dictFreeEntryKey T de @ dictFreeEntryVal T de)))"

fun clear_chain :: "('k, 'v) dictType \<Rightarrow> ('k, 'v) chain \<Rightarrow> nat \<Rightarrow> ('k, 'v) free_event list \<times> nat" where
  "clear_chain T [] used = ([], used)"
| "clear_chain T (he # ch) used =
     (case clear_chain T ch (ulong_dec used) of (ev, used') \<Rightarrow>
        (dictFreeEntryKey T he @ dictFreeEntryVal T he @ ev, used'))"

fun clear_table :: "('k, 'v) dictType \<Rightarrow> ('k, 'v) chain list \<Rightarrow> nat \<Rightarrow> ('k, 'v) free_event list" where
  "clear_table T [] used = []"
| "clear_table T (ch # t) used =
     (if used > 0 then (case clear_chain T ch used of (ev, used') \<Rightarrow> ev @ clear_table T t used') else [])"

definition dictClear :: "('k, 'v) dictType \<Rightarrow> ('k, 'v) dict \<Rightarrow> int \<times> ('k, 'v) dict \<times> ('k, 'v) free_event list" where
  "dictClear T ht = (DICT_OK, dictReset, clear_table T (old_chains ht) (dt_used ht))"

definition dictRelease :: "('k, 'v) dictType \<Rightarrow> ('k, 'v) dict \<Rightarrow> ('k, 'v) free_event list" where
  "dictRelease T ht = snd (snd (dictClear T ht))"

subsection \<open>Iteration\<close>

text \<open>A pointer to an entry is the rest of its chain from that entry on; \<open>[]\<close> is null.\<close>

record ('k, 'v) dictIterator =
  it_index :: int
  it_entry :: "('k, 'v) chain"
  it_nextEntry :: "('k, 'v) chain"

definition dictGetIterator :: "env \<Rightarrow> ('k, 'v) dictIterator cres" where
  "dictGetIterator e =
     (if can_alloc e 32 then Ok \<lparr>it_index = - 1, it_entry = [], it_nextEntry = []\<rparr> else Fault NullDeref)"

function dictNext :: "('k, 'v) dict \<Rightarrow> ('k, 'v) dictIterator \<Rightarrow>
    (('k \<times> 'v) option \<times> ('k, 'v) dictIterator) cres" where
  "dictNext ht iter =
     (if it_entry iter = [] then
        (let index = it_index iter + 1; iter1 = iter\<lparr>it_index := index\<rparr> in
         if index \<ge> to_i32 (int (dt_size ht)) then Ok (None, iter1)
         else if index < 0 then Fault OutOfBounds
         else cbind (chain_at ht (nat index))
           (\<lambda>en. case en of
              [] \<Rightarrow> dictNext ht (iter1\<lparr>it_entry := []\<rparr>)
            | x # rest \<Rightarrow> Ok (Some x, iter1\<lparr>it_entry := en, it_nextEntry := rest\<rparr>)))
      else
        (case it_nextEntry iter of
           [] \<Rightarrow> dictNext ht (iter\<lparr>it_entry := []\<rparr>)
         | x # rest \<Rightarrow> Ok (Some x, iter\<lparr>it_entry := x # rest, it_nextEntry := rest\<rparr>)))"
  by pat_completeness auto
termination
  by (relation "measures [\<lambda>(ht, iter). nat (to_i32 (int (dt_size ht)) - it_index iter),
      \<lambda>(ht, iter). length (it_entry iter)]") auto

declare dictNext.simps [simp del]

section \<open>The representation invariant and the map it stands for\<close>

definition dict_type_ok :: "('k, 'v) dictType \<Rightarrow> bool" where
  "dict_type_ok T \<longleftrightarrow> (\<forall>a b. dictCompareHashKeys T a b \<longleftrightarrow> a = b) \<and> (\<forall>k. dictSetHashKey T k = k)"

definition chains_ok :: "('k, 'v) dictType \<Rightarrow> nat \<Rightarrow> ('k, 'v) chain list \<Rightarrow> bool" where
  "chains_ok T msk t \<longleftrightarrow> (\<forall>i < length t. \<forall>en \<in> set (t ! i). slot_of T (fst en) msk = i)"

definition dict_inv :: "('k, 'v) dictType \<Rightarrow> ('k, 'v) dict \<Rightarrow> bool" where
  "dict_inv T ht \<longleftrightarrow>
     (case dt_table ht of
        None \<Rightarrow> ht = dictReset
      | Some t \<Rightarrow> (\<exists>k. 2 \<le> k \<and> k \<le> 30 \<and> dt_size ht = 2 ^ k) \<and> length t = dt_size ht \<and>
          dt_sizemask ht = dt_size ht - 1 \<and> dt_used ht = length (concat t) \<and>
          dt_used ht \<le> dt_size ht \<and> chains_ok T (dt_sizemask ht) t \<and> distinct (map fst (concat t)))"

definition dict_map :: "('k, 'v) dict \<Rightarrow> 'k \<Rightarrow> 'v option" where
  "dict_map ht = map_of (concat (case dt_table ht of None \<Rightarrow> [] | Some t \<Rightarrow> t))"

lemma dict_inv_reset [simp]: "dict_inv T dictReset"
  by (simp add: dict_inv_def dictReset_def)

lemma dt_used_reset [simp]: "dt_used dictReset = 0"
  by (simp add: dictReset_def)

lemma dict_map_reset [simp]: "dict_map dictReset = Map.empty"
  by (simp add: dict_map_def dictReset_def)

subsection \<open>Slots and chains\<close>

lemma slot_of_mod: "slot_of T k (2 ^ n - 1) = unat (dictHashKey T k) mod 2 ^ n"
  by (simp only: slot_of_def mask_eq_exp_minus_1 [symmetric] take_bit_eq_mask [symmetric] take_bit_eq_mod)

lemma slot_of_less: "slot_of T k (2 ^ n - 1) < 2 ^ n"
  by (subst slot_of_mod) simp

lemma mset_concat_update:
  "h < length t \<Longrightarrow> mset (concat (t[h := c])) + mset (t ! h) = mset (concat t) + mset c"
proof (induction t arbitrary: h)
  case (Cons x t)
  then show ?case by (cases h) (auto simp: ac_simps)
qed simp

lemma set_concat_mset: "mset (concat t') = mset (concat t) \<Longrightarrow> set (concat t') = set (concat t)"
  by (rule mset_eq_setD)

lemma distinct_keys_mset: "mset xs = mset ys \<Longrightarrow> distinct (map fst xs) = distinct (map fst ys)"
  by (metis mset_eq_imp_distinct_iff mset_map)

lemma map_of_mset:
  assumes "mset xs = mset ys" "distinct (map fst ys)"
  shows "map_of xs = map_of ys"
  using assms distinct_keys_mset [OF assms(1)] map_of_inject_set mset_eq_setD by metis

lemma chains_ok_update:
  assumes "chains_ok T msk t" "\<forall>en \<in> set c. slot_of T (fst en) msk = h"
  shows "chains_ok T msk (t[h := c])"
  using assms
  by (cases "h < length t") (auto simp: chains_ok_def nth_list_update list_update_beyond split: if_splits)

lemma key_in_slot:
  assumes "chains_ok T msk t" "slot_of T key msk < length t"
  shows "(\<exists>v. (key, v) \<in> set (concat t)) \<longleftrightarrow> (\<exists>v. (key, v) \<in> set (t ! slot_of T key msk))"
proof -
  have "slot_of T key msk = i" if "i < length t" "(key, v) \<in> set (t ! i)" for i v
    using assms(1) that by (force simp: chains_ok_def)
  then show ?thesis
    using assms(2) by (auto simp: in_set_conv_nth [of _ t]) (metis nth_mem)+
qed

lemma chain_find_map_of:
  "dict_type_ok T \<Longrightarrow> chain_find T key ch = map_option (Pair key) (map_of ch key)"
  by (induction ch) (auto simp: dict_type_ok_def)

lemma map_of_concat_slot:
  assumes "chains_ok T msk t" "slot_of T key msk < length t" "distinct (map fst (concat t))"
  shows "map_of (concat t) key = map_of (t ! slot_of T key msk) key"
proof -
  let ?h = "slot_of T key msk"
  have sub: "set (t ! ?h) \<subseteq> set (concat t)" using assms(2) by (auto intro: nth_mem)
  show ?thesis
  proof (cases "map_of (t ! ?h) key")
    case None
    then have "\<not> (\<exists>v. (key, v) \<in> set (t ! ?h))" by (metis map_of_eq_None_iff fst_conv imageI)
    then have "key \<notin> fst ` set (concat t)" using key_in_slot [OF assms(1,2)] by force
    then have "map_of (concat t) key = None" unfolding map_of_eq_None_iff .
    then show ?thesis using None by simp
  next
    case (Some v)
    then have "(key, v) \<in> set (concat t)" using sub map_of_SomeD by fast
    then show ?thesis using Some assms(3) by simp
  qed
qed

subsection \<open>Growing the table\<close>

lemma dictNextPower_loop_spec:
  "\<exists>m. dictNextPower_loop n (2 ^ j) = 2 ^ m \<and> j \<le> m \<and> n \<le> 2 ^ m \<and> (j < m \<longrightarrow> 2 ^ (m - 1) < n)"
proof (induction "n - 2 ^ j" arbitrary: j rule: less_induct)
  case less
  show ?case
  proof (cases "n \<le> 2 ^ j")
    case True
    then show ?thesis by (subst dictNextPower_loop.simps) auto
  next
    case False
    have "(0 :: nat) < 2 ^ j" by simp
    then have "n - 2 ^ Suc j < n - 2 ^ j" using False unfolding power_Suc by linarith
    from less [OF this] obtain m where m: "dictNextPower_loop n (2 ^ Suc j) = 2 ^ m" "Suc j \<le> m" "n \<le> 2 ^ m"
      "Suc j < m \<longrightarrow> 2 ^ (m - 1) < n" by blast
    have "2 ^ (m - 1) < n"
      using m False by (cases "Suc j = m") auto
    moreover have "dictNextPower_loop n (2 ^ j) = 2 ^ m"
      using m(1) False by (subst dictNextPower_loop.simps) (simp add: mult.commute)
    ultimately show ?thesis using m by auto
  qed
qed

lemma dictNextPower_spec:
  assumes "n \<le> 2 ^ 30"
  shows "\<exists>m. dictNextPower n = 2 ^ m \<and> 2 \<le> m \<and> m \<le> 30 \<and> n \<le> 2 ^ m"
proof -
  obtain m where m: "dictNextPower_loop n (2 ^ 2) = 2 ^ m" "2 \<le> m" "n \<le> 2 ^ m" "2 < m \<longrightarrow> 2 ^ (m - 1) < n"
    using dictNextPower_loop_spec [of n 2] by blast
  have "m \<le> 30"
  proof (rule ccontr)
    assume "\<not> m \<le> 30"
    then have "30 \<le> m - 1" "2 < m" by auto
    moreover have "(2 :: nat) ^ 30 \<le> 2 ^ (m - 1)" by (rule power_increasing) (use \<open>30 \<le> m - 1\<close> in auto)
    ultimately show False using m(4) assms by linarith
  qed
  then show ?thesis
    using m assms by (auto simp: dictNextPower_def DICT_HT_INITIAL_SIZE_def LONG_MAX_def)
qed

definition table_ok :: "('k, 'v) dictType \<Rightarrow> nat \<Rightarrow> ('k, 'v) chain list \<Rightarrow> bool" where
  "table_ok T m t \<longleftrightarrow> length t = 2 ^ m \<and> chains_ok T (2 ^ m - 1) t"

lemma table_push_spec:
  assumes "table_ok T m t"
  shows "\<exists>t'. table_push (Some t) (slot_of T (fst en) (2 ^ m - 1)) en = Ok t' \<and> table_ok T m t' \<and>
     mset (concat t') = add_mset en (mset (concat t))"
proof -
  let ?h = "slot_of T (fst en) (2 ^ m - 1)"
  have h: "?h < length t" using assms slot_of_less [of T "fst en" m] by (simp add: table_ok_def)
  have "\<forall>e \<in> set (en # t ! ?h). slot_of T (fst e) (2 ^ m - 1) = ?h"
    using assms h by (auto simp: table_ok_def chains_ok_def)
  then have "table_ok T m (t[?h := en # t ! ?h])"
    using assms by (simp only: table_ok_def length_list_update chains_ok_update simp_thms)
  moreover have "mset (concat (t[?h := en # t ! ?h])) = add_mset en (mset (concat t))"
    using mset_concat_update [OF h, of "en # t ! ?h"] by simp
  ultimately show ?thesis using h by (simp add: table_push_def del: mset_concat)
qed

lemma ulong_dec_pos: "0 < n \<Longrightarrow> n < 4294967296 \<Longrightarrow> ulong_dec n = n - 1"
proof -
  assume n: "0 < n" "n < 4294967296"
  then have "n + 4294967295 = (n - 1) + 4294967296" by simp
  then show ?thesis using n unfolding ulong_dec_def by (metis mod_add_self2 mod_less less_imp_diff_less)
qed

lemma expand_chain_spec:
  "table_ok T m t \<Longrightarrow> length ch \<le> used \<Longrightarrow> used < 4294967296 \<Longrightarrow>
   \<exists>t'. expand_chain T (2 ^ m - 1) ch (Some t, used) = Ok (Some t', used - length ch) \<and> table_ok T m t' \<and>
        mset (concat t') = mset (concat t) + mset ch"
proof (induction ch arbitrary: t used)
  case Nil
  then show ?case by simp
next
  case (Cons en ch)
  from table_push_spec [OF Cons.prems(1), of en] obtain t1 where
    t1: "table_push (Some t) (slot_of T (fst en) (2 ^ m - 1)) en = Ok t1" "table_ok T m t1"
      "mset (concat t1) = add_mset en (mset (concat t))" by blast
  have u: "ulong_dec used = used - 1" using Cons.prems by (intro ulong_dec_pos) auto
  from Cons.IH [OF t1(2), of "used - 1"] Cons.prems obtain t' where
    "expand_chain T (2 ^ m - 1) ch (Some t1, used - 1) = Ok (Some t', used - 1 - length ch)" "table_ok T m t'"
    "mset (concat t') = mset (concat t1) + mset ch" by fastforce
  then show ?case using t1 by (simp add: u del: mset_concat One_nat_def)
qed

lemma expand_table_spec:
  "table_ok T m t \<Longrightarrow> used = length (concat old) \<Longrightarrow> used < 4294967296 \<Longrightarrow>
   \<exists>t'. expand_table T (2 ^ m - 1) old (Some t, used) = Ok (Some t', 0) \<and> table_ok T m t' \<and>
        mset (concat t') = mset (concat t) + mset (concat old)"
proof (induction old arbitrary: t used)
  case Nil
  then show ?case by simp
next
  case (Cons ch old)
  show ?case
  proof (cases "used = 0")
    case True
    then have "concat (ch # old) = []" using Cons.prems(2) by (metis length_0_conv)
    then show ?thesis using True Cons.prems(1) by (simp del: mset_concat)
  next
    case False
    from expand_chain_spec [OF Cons.prems(1), of ch used] Cons.prems obtain t1 where
      t1: "expand_chain T (2 ^ m - 1) ch (Some t, used) = Ok (Some t1, used - length ch)" "table_ok T m t1"
        "mset (concat t1) = mset (concat t) + mset ch" by auto
    from Cons.IH [OF t1(2), of "used - length ch"] Cons.prems obtain t' where
      "expand_table T (2 ^ m - 1) old (Some t1, used - length ch) = Ok (Some t', 0)" "table_ok T m t'"
      "mset (concat t') = mset (concat t1) + mset (concat old)" by auto
    then show ?thesis using False t1 by (simp add: ac_simps del: mset_concat One_nat_def)
  qed
qed

lemma dict_inv_Some:
  assumes "dict_inv T ht" "dt_table ht = Some t"
  obtains k where "2 \<le> k" "k \<le> 30" "dt_size ht = 2 ^ k" "length t = 2 ^ k" "dt_sizemask ht = 2 ^ k - 1"
    "dt_used ht = length (concat t)" "dt_used ht \<le> 2 ^ k" "table_ok T k t" "distinct (map fst (concat t))"
  using assms by (auto simp: dict_inv_def table_ok_def)

lemma dict_invI:
  assumes "dt_table ht = Some t" "table_ok T k t" "2 \<le> k" "k \<le> 30" "dt_size ht = 2 ^ k"
    "dt_sizemask ht = 2 ^ k - 1" "dt_used ht = length (concat t)" "dt_used ht \<le> 2 ^ k"
    "distinct (map fst (concat t))"
  shows "dict_inv T ht"
  using assms by (auto simp: dict_inv_def table_ok_def)

lemma dict_map_Some: "dt_table ht = Some t \<Longrightarrow> dict_map ht = map_of (concat t)"
  by (simp add: dict_map_def)

text \<open>The chains of a well-formed dictionary, null or not.\<close>

lemma old_chains_inv:
  assumes "dict_inv T ht"
  shows "dt_used ht = length (concat (old_chains ht))" "dict_map ht = map_of (concat (old_chains ht))"
    "distinct (map fst (concat (old_chains ht)))" "dt_used ht \<le> 2 ^ 30"
proof -
  have "dt_used ht = length (concat (old_chains ht)) \<and> dict_map ht = map_of (concat (old_chains ht)) \<and>
    distinct (map fst (concat (old_chains ht))) \<and> dt_used ht \<le> 2 ^ 30"
  proof (cases "dt_table ht")
    case None
    then have "ht = dictReset" using assms by (simp add: dict_inv_def)
    then show ?thesis by (simp add: old_chains_def dictReset_def dict_map_def)
  next
    case (Some t)
    with assms obtain k where k: "dt_size ht = 2 ^ k" "length t = 2 ^ k" "k \<le> 30"
      "dt_used ht = length (concat t)" "dt_used ht \<le> 2 ^ k" "distinct (map fst (concat t))"
      by (rule dict_inv_Some)
    have "(2 :: nat) ^ k \<le> 2 ^ 30" by (rule power_increasing) (use k in auto)
    then show ?thesis using k Some by (simp add: old_chains_def dict_map_def)
  qed
  then show "dt_used ht = length (concat (old_chains ht))" "dict_map ht = map_of (concat (old_chains ht))"
    "distinct (map fst (concat (old_chains ht)))" "dt_used ht \<le> 2 ^ 30" by blast+
qed

lemma table_ok_empty: "table_ok T m (replicate (2 ^ m) [])"
  by (simp add: table_ok_def chains_ok_def)

lemma dictExpand_spec:
  assumes "dict_inv T ht" "alloc_ok e" "n \<le> 2 ^ 30" "dt_used ht \<le> n"
  shows "\<exists>ht' t. dictExpand e T ht n = Ok (DICT_OK, ht') \<and> dict_inv T ht' \<and> dict_map ht' = dict_map ht \<and>
     dt_table ht' = Some t \<and> dt_used ht' = dt_used ht \<and> n \<le> dt_size ht' \<and> DICT_HT_INITIAL_SIZE \<le> dt_size ht'"
proof -
  obtain m where m: "dictNextPower n = 2 ^ m" "2 \<le> m" "m \<le> 30" "n \<le> 2 ^ m"
    using dictNextPower_spec [OF assms(3)] by blast
  note oc = old_chains_inv [OF assms(1)]
  have "dt_used ht < 4294967296" using oc(4) by simp
  from expand_table_spec [OF table_ok_empty oc(1) this, of T m] obtain t' where
    t': "expand_table T (2 ^ m - 1) (old_chains ht) (Some (replicate (2 ^ m) []), dt_used ht) = Ok (Some t', 0)"
      "table_ok T m t'" "mset (concat t') = mset (concat (old_chains ht))" by auto
  define ht' where "ht' = \<lparr>dt_table = Some t', dt_size = 2 ^ m, dt_sizemask = 2 ^ m - 1, dt_used = dt_used ht\<rparr>"
  have "length (concat t') = dt_used ht"
    using oc(1) arg_cong [OF t'(3), of size] by (simp only: size_mset)
  moreover have "distinct (map fst (concat t'))"
    using distinct_keys_mset [OF t'(3)] oc(3) by simp
  ultimately have "dict_inv T ht'"
    using m t'(2) assms(4) by (intro dict_invI [of ht' t' T m]) (auto simp: ht'_def)
  moreover have "dict_map ht' = dict_map ht"
    using map_of_mset [OF t'(3) oc(3)] oc(2) by (simp add: dict_map_def ht'_def)
  moreover have "dictExpand e T ht n = Ok (DICT_OK, ht')"
    using assms(2,4) t'(1) by (simp add: dictExpand_def m(1) Let_def alloc_ok_def ht'_def)
  moreover have "DICT_HT_INITIAL_SIZE \<le> 2 ^ m"
    using power_increasing [OF m(2), of "2 :: nat"] by (simp add: DICT_HT_INITIAL_SIZE_def)
  ultimately show ?thesis using m(4) by (auto simp: ht'_def)
qed

lemma dictExpandIfNeeded_spec:
  assumes "dict_inv T ht" "alloc_ok e" "dt_used ht < 2 ^ 30"
  shows "\<exists>ht' t. dictExpandIfNeeded e T ht = Ok (DICT_OK, ht') \<and> dict_inv T ht' \<and> dict_map ht' = dict_map ht \<and>
     dt_table ht' = Some t \<and> dt_used ht' = dt_used ht \<and> dt_used ht' < dt_size ht'"
proof (cases "dt_table ht")
  case None
  then have r: "dt_size ht = 0" "dt_used ht = 0" using assms(1) by (auto simp: dict_inv_def dictReset_def)
  from dictExpand_spec [OF assms(1,2), of DICT_HT_INITIAL_SIZE] r show ?thesis
    by (auto simp: dictExpandIfNeeded_def DICT_HT_INITIAL_SIZE_def)
next
  case (Some t)
  with assms(1) obtain k where k: "2 \<le> k" "k \<le> 30" "dt_size ht = 2 ^ k" "dt_used ht \<le> 2 ^ k"
    by (rule dict_inv_Some)
  show ?thesis
  proof (cases "dt_used ht = dt_size ht")
    case False
    then show ?thesis using assms(1) k Some by (auto simp: dictExpandIfNeeded_def)
  next
    case True
    have "k < 30" using True assms(3) k by (metis nat_less_le)
    then have "(2 :: nat) ^ Suc k \<le> 2 ^ 30" by (intro power_increasing) auto
    then have s: "(dt_size ht * 2) mod 4294967296 = dt_size ht * 2" "dt_size ht * 2 \<le> 2 ^ 30"
      using k by auto
    from dictExpand_spec [OF assms(1,2) s(2)] True obtain ht' t where
      "dictExpand e T ht (dt_size ht * 2) = Ok (DICT_OK, ht')" "dict_inv T ht'" "dict_map ht' = dict_map ht"
      "dt_table ht' = Some t" "dt_used ht' = dt_used ht" "dt_size ht * 2 \<le> dt_size ht'" by auto
    moreover have "0 < dt_size ht" using k by simp
    ultimately show ?thesis using True s(1) by (auto simp: dictExpandIfNeeded_def)
  qed
qed

subsection \<open>Finding, adding, replacing, deleting\<close>

lemma chain_at_slot:
  assumes "dict_inv T ht" "dt_table ht = Some t"
  shows "chain_at ht (slot_of T key (dt_sizemask ht)) = Ok (t ! slot_of T key (dt_sizemask ht))"
    "slot_of T key (dt_sizemask ht) < length t" "slot_of T key (dt_sizemask ht) < 2147483648"
    "dict_map ht key = map_of (t ! slot_of T key (dt_sizemask ht)) key"
proof -
  from assms obtain k where k: "k \<le> 30" "dt_size ht = 2 ^ k" "length t = 2 ^ k" "dt_sizemask ht = 2 ^ k - 1"
    "table_ok T k t" "distinct (map fst (concat t))" by (rule dict_inv_Some)
  show h: "slot_of T key (dt_sizemask ht) < length t"
    using slot_of_less [of T key k] k by simp
  have "(2 :: nat) ^ k \<le> 2 ^ 30" by (rule power_increasing) (use k in auto)
  then show "slot_of T key (dt_sizemask ht) < 2147483648" using h k by simp
  show "chain_at ht (slot_of T key (dt_sizemask ht)) = Ok (t ! slot_of T key (dt_sizemask ht))"
    using h by (simp add: chain_at_def assms(2))
  show "dict_map ht key = map_of (t ! slot_of T key (dt_sizemask ht)) key"
    using map_of_concat_slot [of T "dt_sizemask ht" t key] k h assms(2)
    by (simp add: dict_map_Some table_ok_def)
qed

lemma dict_size_pos:
  assumes "dict_inv T ht" "dt_table ht = Some t"
  shows "dt_size ht \<noteq> 0"
  using assms by (auto simp: dict_inv_def)

lemma dictFind_spec:
  assumes "dict_type_ok T" "dict_inv T ht"
  shows "dictFind T ht key = Ok (map_option (Pair key) (dict_map ht key))"
proof (cases "dt_table ht")
  case None
  then show ?thesis using assms(2) by (auto simp: dict_inv_def dictFind_def dictReset_def dict_map_def)
next
  case (Some t)
  note c = chain_at_slot [OF assms(2) Some, of key]
  then show ?thesis
    using dict_size_pos [OF assms(2) Some] by (simp add: dictFind_def chain_find_map_of [OF assms(1)])
qed

lemma dictKeyIndex_spec:
  assumes "dict_type_ok T" "dict_inv T ht" "alloc_ok e" "dt_used ht < 2 ^ 30"
  shows "\<exists>ht' t. dictKeyIndex e T ht key =
       Ok (if key \<in> dom (dict_map ht) then - 1 else int (slot_of T key (dt_sizemask ht')), ht') \<and>
     dict_inv T ht' \<and> dict_map ht' = dict_map ht \<and> dt_table ht' = Some t \<and>
     dt_used ht' = dt_used ht \<and> dt_used ht' < dt_size ht'"
proof -
  from dictExpandIfNeeded_spec [OF assms(2-4)] obtain ht' t where
    h: "dictExpandIfNeeded e T ht = Ok (DICT_OK, ht')" "dict_inv T ht'" "dict_map ht' = dict_map ht"
      "dt_table ht' = Some t" "dt_used ht' = dt_used ht" "dt_used ht' < dt_size ht'" by blast
  note c = chain_at_slot [OF h(2,4), of key]
  have "dictKeyIndex e T ht key =
      Ok (if key \<in> dom (dict_map ht) then - 1 else int (slot_of T key (dt_sizemask ht')), ht')"
    using c h(3) by (auto simp: dictKeyIndex_def h(1) DICT_OK_def DICT_ERR_def Let_def
        chain_find_map_of [OF assms(1)] split: option.splits)
  then show ?thesis using h by blast
qed

lemma dictAdd_spec:
  assumes "dict_type_ok T" "dict_inv T ht" "alloc_ok e" "alloc_ok e'" "dt_used ht < 2 ^ 30"
  shows "\<exists>ht'. dictAdd e e' T ht key v = Ok (if key \<in> dom (dict_map ht) then DICT_ERR else DICT_OK, ht') \<and>
     dict_inv T ht' \<and>
     dict_map ht' = (if key \<in> dom (dict_map ht) then dict_map ht
                     else (dict_map ht)(key \<mapsto> dictSetHashVal T v)) \<and>
     dt_used ht' = (if key \<in> dom (dict_map ht) then dt_used ht else dt_used ht + 1)"
proof -
  from dictKeyIndex_spec [OF assms(1-3,5)] obtain ht1 t where
    h: "dictKeyIndex e T ht key =
       Ok (if key \<in> dom (dict_map ht) then - 1 else int (slot_of T key (dt_sizemask ht1)), ht1)"
      "dict_inv T ht1" "dict_map ht1 = dict_map ht" "dt_table ht1 = Some t"
      "dt_used ht1 = dt_used ht" "dt_used ht1 < dt_size ht1" by blast
  show ?thesis
  proof (cases "key \<in> dom (dict_map ht)")
    case True
    then show ?thesis using h by (auto simp: dictAdd_def)
  next
    case False
    from h(2,4) obtain k where k: "2 \<le> k" "k \<le> 30" "dt_size ht1 = 2 ^ k" "dt_sizemask ht1 = 2 ^ k - 1"
      "dt_used ht1 = length (concat t)" "table_ok T k t" "distinct (map fst (concat t))" by (rule dict_inv_Some)
    let ?en = "(key, dictSetHashVal T v)"
    have ky: "dictSetHashKey T key = key" using assms(1) by (simp add: dict_type_ok_def)
    from table_push_spec [OF k(6), of ?en] obtain t' where
      t': "table_push (Some t) (slot_of T key (2 ^ k - 1)) ?en = Ok t'" "table_ok T k t'"
        "mset (concat t') = add_mset ?en (mset (concat t))" by auto
    have ms: "mset (concat t') = mset (?en # concat t)" using t'(3) by (simp only: mset.simps)
    have "key \<notin> fst ` set (concat t)"
      using False unfolding h(3) [symmetric] dict_map_Some [OF h(4)] dom_map_of_conv_image_fst .
    then have d: "distinct (map fst (?en # concat t))" using k(7) by simp
    have inc: "ulong_inc (dt_used ht1) = dt_used ht1 + 1" using h(5) assms(5) by (simp add: ulong_inc_def)
    define ht' where "ht' = ht1\<lparr>dt_table := Some t', dt_used := dt_used ht1 + 1\<rparr>"
    have "dict_inv T ht'"
    proof (rule dict_invI [of ht' t' T k])
      show "dt_used ht' = length (concat t')"
        using k(5) arg_cong [OF ms, of size] by (simp only: size_mset ht'_def) simp
      show "distinct (map fst (concat t'))" using distinct_keys_mset [OF ms] d by simp
    qed (use k t' h(6) in \<open>auto simp: ht'_def\<close>)
    moreover have "dict_map ht' = (dict_map ht)(key \<mapsto> dictSetHashVal T v)"
      using map_of_mset [OF ms d] h(3,4) by (simp add: dict_map_def ht'_def)
    moreover have "dictAdd e e' T ht key v = Ok (DICT_OK, ht')"
      using False h(4) t'(1) assms(4) k(4)
      by (simp add: dictAdd_def h(1) ky inc alloc_ok_def ht'_def del: One_nat_def)
    ultimately show ?thesis using False h(5) by (auto simp: ht'_def)
  qed
qed

lemma chain_set_keys: "map fst (chain_set T key v ch) = map fst ch"
  by (induction ch) auto

lemma chain_set_map_of:
  "dict_type_ok T \<Longrightarrow> key \<in> fst ` set ch \<Longrightarrow> map_of (chain_set T key v ch) = (map_of ch)(key \<mapsto> v)"
proof (induction ch)
  case (Cons a ch)
  then show ?case
  proof (cases "key = fst a")
    case False
    then have "key \<in> fst ` set ch" using Cons.prems(2) by auto
    then show ?thesis using Cons.IH Cons.prems(1) False by (cases a) (auto simp: dict_type_ok_def)
  qed (cases a, simp add: dict_type_ok_def fun_eq_iff)
qed simp

lemma chain_set_set:
  "dict_type_ok T \<Longrightarrow> set (chain_set T key v ch) \<subseteq> set ch \<union> {(key, v)}"
  by (induction ch) (auto simp: dict_type_ok_def)

text \<open>Overwriting one chain by another with the same slots: the map changes on that slot only.\<close>

lemma keys_concat_update:
  assumes "h < length t" "map fst c = map fst (t ! h)"
  shows "map fst (concat (t[h := c])) = map fst (concat t)"
  using assms
proof (induction t arbitrary: h)
  case (Cons x t)
  then show ?case by (cases h) auto
qed simp

lemma table_update_map:
  assumes "table_ok T k t" "distinct (map fst (concat t))" "h < length t"
    "\<forall>en \<in> set c. slot_of T (fst en) (2 ^ k - 1) = h" "distinct (map fst (concat (t[h := c])))"
  shows "table_ok T k (t[h := c])"
    "map_of (concat (t[h := c])) =
       (\<lambda>x. if slot_of T x (2 ^ k - 1) = h then map_of c x else map_of (concat t) x)"
proof -
  show ok: "table_ok T k (t[h := c])"
    using assms(1,4) chains_ok_update by (auto simp: table_ok_def)
  show "map_of (concat (t[h := c])) =
       (\<lambda>x. if slot_of T x (2 ^ k - 1) = h then map_of c x else map_of (concat t) x)"
  proof
    fix x
    let ?s = "slot_of T x (2 ^ k - 1)"
    have s: "?s < length t" using assms(1) slot_of_less [of T x k] by (simp add: table_ok_def)
    have "map_of (concat (t[h := c])) x = map_of (t[h := c] ! ?s) x"
      by (rule map_of_concat_slot) (use ok s assms(5) in \<open>auto simp: table_ok_def\<close>)
    moreover have "map_of (concat t) x = map_of (t ! ?s) x"
      by (rule map_of_concat_slot) (use assms(1,2) s in \<open>auto simp: table_ok_def\<close>)
    ultimately show "map_of (concat (t[h := c])) x =
        (if ?s = h then map_of c x else map_of (concat t) x)"
      using assms(3) by (simp add: nth_list_update)
  qed
qed

lemma dict_update_slot:
  assumes "dict_inv T ht" "dt_table ht = Some t" "h = slot_of T key (dt_sizemask ht)"
    "\<forall>en \<in> set c. slot_of T (fst en) (dt_sizemask ht) = h" "distinct (map fst (concat (t[h := c])))"
    "used = length (concat (t[h := c]))" "used \<le> dt_used ht"
  shows "dict_inv T (ht\<lparr>dt_table := Some (t[h := c]), dt_used := used\<rparr>)"
    "dict_map (ht\<lparr>dt_table := Some (t[h := c]), dt_used := used\<rparr>) =
       (\<lambda>x. if slot_of T x (dt_sizemask ht) = h then map_of c x else dict_map ht x)"
proof -
  from assms(1,2) obtain k where k: "2 \<le> k" "k \<le> 30" "dt_size ht = 2 ^ k" "length t = 2 ^ k"
    "dt_sizemask ht = 2 ^ k - 1" "dt_used ht = length (concat t)" "dt_used ht \<le> 2 ^ k" "table_ok T k t"
    "distinct (map fst (concat t))" by (rule dict_inv_Some)
  have h: "h < length t" using assms(3) k slot_of_less [of T key k] by simp
  note tu = table_update_map [OF k(8,9) h _ assms(5), folded k(5), OF assms(4)]
  show "dict_inv T (ht\<lparr>dt_table := Some (t[h := c]), dt_used := used\<rparr>)"
    by (rule dict_invI [where k = k and t = "t[h := c]"]) (use k tu(1) assms(5-7) in auto)
  show "dict_map (ht\<lparr>dt_table := Some (t[h := c]), dt_used := used\<rparr>) =
       (\<lambda>x. if slot_of T x (dt_sizemask ht) = h then map_of c x else dict_map ht x)"
    unfolding dict_map_Some [OF assms(2)] using tu(2) by (simp add: dict_map_def)
qed

lemma slot_keys:
  assumes "dict_inv T ht" "dt_table ht = Some t"
    "en \<in> set (t ! slot_of T key (dt_sizemask ht))"
  shows "slot_of T (fst en) (dt_sizemask ht) = slot_of T key (dt_sizemask ht)"
proof -
  from assms(1,2) obtain k where k: "length t = 2 ^ k" "dt_sizemask ht = 2 ^ k - 1" "table_ok T k t"
    by (rule dict_inv_Some)
  then show ?thesis
    using assms(3) slot_of_less [of T key k] by (auto simp: table_ok_def chains_ok_def)
qed

lemma dictReplace_spec:
  assumes "dict_type_ok T" "dict_inv T ht" "alloc_ok e" "alloc_ok e'" "dt_used ht < 2 ^ 30"
  shows "\<exists>ht'. dictReplace e e' T ht key v =
       Ok (if key \<in> dom (dict_map ht) then 0 else 1, ht',
           case dict_map ht key of None \<Rightarrow> [] | Some old \<Rightarrow> dictFreeEntryVal T (key, old)) \<and>
     dict_inv T ht' \<and> dict_map ht' = (dict_map ht)(key \<mapsto> dictSetHashVal T v)"
proof -
  from dictAdd_spec [OF assms] obtain ht1 where
    a: "dictAdd e e' T ht key v = Ok (if key \<in> dom (dict_map ht) then DICT_ERR else DICT_OK, ht1)"
      "dict_inv T ht1" "dict_map ht1 = (if key \<in> dom (dict_map ht) then dict_map ht
                     else (dict_map ht)(key \<mapsto> dictSetHashVal T v))" by blast
  show ?thesis
  proof (cases "dict_map ht key")
    case None
    then have "key \<notin> dom (dict_map ht)" by auto
    then show ?thesis using a None by (simp add: dictReplace_def DICT_OK_def)
  next
    case (Some old)
    then have dm: "key \<in> dom (dict_map ht)" "dict_map ht1 = dict_map ht" using a(3) by auto
    have "dict_map ht1 key = Some old" using Some dm(2) by simp
    then obtain t where t: "dt_table ht1 = Some t"
      by (cases "dt_table ht1") (auto simp: dict_map_def)
    let ?h = "slot_of T key (dt_sizemask ht1)"
    let ?c = "chain_set T key (dictSetHashVal T v) (t ! ?h)"
    note c = chain_at_slot [OF a(2) t, of key]
    have key: "key \<in> fst ` set (t ! ?h)"
      using c(4) Some dm(2) by (metis map_of_eq_None_iff option.distinct(1))
    have mapc: "map_of ?c = (map_of (t ! ?h))(key \<mapsto> dictSetHashVal T v)"
      by (rule chain_set_map_of [OF assms(1) key])
    have slots: "\<forall>en \<in> set ?c. slot_of T (fst en) (dt_sizemask ht1) = ?h"
      using chain_set_set [OF assms(1), of key "dictSetHashVal T v" "t ! ?h"] slot_keys [OF a(2) t] by fastforce
    from a(2) t have dis: "distinct (map fst (concat t))" "dt_used ht1 = length (concat t)"
      by (auto elim: dict_inv_Some)
    have keys: "map fst (concat (t[?h := ?c])) = map fst (concat t)"
      by (rule keys_concat_update [OF c(2) chain_set_keys])
    have len: "dt_used ht1 = length (concat (t[?h := ?c]))"
      using dis(2) arg_cong [OF keys, of length] by (simp only: length_map)
    note up = dict_update_slot [OF a(2) t refl slots _ len order_refl, unfolded keys, OF dis(1)]
    let ?ht' = "ht1\<lparr>dt_table := Some (t[?h := ?c]), dt_used := dt_used ht1\<rparr>"
    have mp: "dict_map ?ht' = (dict_map ht)(key \<mapsto> dictSetHashVal T v)"
      using up(2) mapc chain_at_slot(4) [OF a(2) t] dm(2) by (auto simp: fun_eq_iff)
    have "dictReplace e e' T ht key v = Ok (0, ?ht', dictFreeEntryVal T (key, old))"
      using c(1) dm(1) dictFind_spec [OF assms(1) a(2), of key] Some [folded dm(2)]
      by (simp add: dictReplace_def a(1) DICT_OK_def DICT_ERR_def t Let_def)
    then show ?thesis using up(1) mp Some by auto
  qed
qed

lemma chain_unlink_spec:
  "dict_type_ok T \<Longrightarrow> distinct (map fst ch) \<Longrightarrow>
   chain_unlink T key ch = (map_option (Pair key) (map_of ch key), filter (\<lambda>en. fst en \<noteq> key) ch)"
proof (induction ch)
  case (Cons a ch)
  have "filter (\<lambda>en. fst en \<noteq> key) ch = ch" if "key = fst a"
    using Cons.prems(2) that by (simp add: filter_id_conv) (metis imageI)
  then show ?case using Cons by (cases a) (auto simp: dict_type_ok_def)
qed simp

lemma map_of_filter_key: "map_of (filter (\<lambda>en. fst en \<noteq> key) ch) = (map_of ch)(key := None)"
  by (induction ch) (auto simp: fun_eq_iff)

lemma filter_concat_update:
  assumes "h < length t" "\<And>i en. i < length t \<Longrightarrow> en \<in> set (t ! i) \<Longrightarrow> fst en = key \<Longrightarrow> i = h"
  shows "concat (t[h := filter (\<lambda>en. fst en \<noteq> key) (t ! h)]) = filter (\<lambda>en. fst en \<noteq> key) (concat t)"
  using assms
proof (induction t arbitrary: h)
  case (Cons x t)
  show ?case
  proof (cases h)
    case 0
    have "filter (\<lambda>en. fst en \<noteq> key) (concat t) = concat t"
      unfolding filter_id_conv
    proof (intro ballI notI)
      fix en assume en: "en \<in> set (concat t)" "fst en = key"
      then obtain i where "i < length t" "en \<in> set (t ! i)" by (auto simp: in_set_conv_nth [of _ t])
      then show False using Cons.prems(2) [of "Suc i" en] en 0 by simp
    qed
    then show ?thesis using 0 by simp
  next
    case (Suc j)
    have "filter (\<lambda>en. fst en \<noteq> key) x = x"
      using Cons.prems(2) [of 0] Suc by (auto simp: filter_id_conv)
    moreover have "concat (t[j := filter (\<lambda>en. fst en \<noteq> key) (t ! j)]) = filter (\<lambda>en. fst en \<noteq> key) (concat t)"
    proof (rule Cons.IH)
      fix i en assume "i < length t" "en \<in> set (t ! i)" "fst en = key"
      then show "i = j" using Cons.prems(2) [of "Suc i" en] Suc by simp
    qed (use Cons.prems Suc in simp)
    ultimately show ?thesis using Suc by simp
  qed
qed simp

lemma dictDelete_spec:
  assumes "dict_type_ok T" "dict_inv T ht"
  shows "\<exists>ht'. dictDelete T ht key =
       (case dict_map ht key of
          None \<Rightarrow> Ok (DICT_ERR, ht, [])
        | Some v \<Rightarrow> Ok (DICT_OK, ht', dictFreeEntryKey T (key, v) @ dictFreeEntryVal T (key, v))) \<and>
     dict_inv T ht' \<and> dict_map ht' = (dict_map ht)(key := None) \<and>
     (key \<in> dom (dict_map ht) \<longrightarrow> dt_used ht' = dt_used ht - 1)"
proof (cases "dt_table ht")
  case None
  then have "ht = dictReset" using assms(2) by (simp add: dict_inv_def)
  then show ?thesis by (auto simp: dictDelete_def dictReset_def dict_map_def dict_inv_def intro: exI [of _ ht])
next
  case (Some t)
  let ?h = "slot_of T key (dt_sizemask ht)"
  let ?f = "filter (\<lambda>en. fst en \<noteq> key)"
  note c = chain_at_slot [OF assms(2) Some, of key]
  from assms(2) Some obtain k where k: "length t = 2 ^ k" "dt_sizemask ht = 2 ^ k - 1"
    "dt_used ht = length (concat t)" "dt_used ht \<le> 2 ^ k" "k \<le> 30" "table_ok T k t" "distinct (map fst (concat t))"
    by (rule dict_inv_Some)
  have dc: "distinct (map fst (t ! ?h))"
    using k(7) c(2) by (metis distinct_concat_iff distinct_map id_take_nth_drop concat.simps(2) concat_append
        distinct_append map_append)
  note u = chain_unlink_spec [OF assms(1) dc, of key]
  have cc: "concat (t[?h := ?f (t ! ?h)]) = ?f (concat t)"
  proof (rule filter_concat_update [OF c(2)])
    fix i en assume "i < length t" "en \<in> set (t ! i)" "fst en = key"
    then show "i = ?h" using k(2,6) by (auto simp: table_ok_def chains_ok_def)
  qed
  have slots: "\<forall>en \<in> set (?f (t ! ?h)). slot_of T (fst en) (dt_sizemask ht) = ?h"
    using slot_keys [OF assms(2) Some, of _ key] by auto
  have df: "distinct (map fst (concat (t[?h := ?f (t ! ?h)])))"
    unfolding cc using k(7) by (simp add: distinct_map_filter)
  have le: "length (concat (t[?h := ?f (t ! ?h)])) \<le> dt_used ht"
    unfolding cc k(3) by (rule length_filter_le)
  note up = dict_update_slot [OF assms(2) Some refl slots df refl le]
  define ht' where "ht' = ht\<lparr>dt_table := Some (t[?h := ?f (t ! ?h)]),
      dt_used := length (concat (t[?h := ?f (t ! ?h)]))\<rparr>"
  have mp: "dict_map ht' = (dict_map ht)(key := None)"
    unfolding ht'_def up(2) map_of_filter_key
    using chain_at_slot(4) [OF assms(2) Some] by (auto simp: fun_eq_iff)
  have less: "length (?f (concat t)) = dt_used ht - 1" if "dict_map ht key = Some v" for v
  proof -
    have "(key, v) \<in> set (concat t)" using that by (simp add: dict_map_Some [OF Some] map_of_SomeD del: set_concat)
    then obtain xs ys where sp: "concat t = xs @ (key, v) # ys" by (meson split_list)
    have "key \<notin> fst ` set xs" "key \<notin> fst ` set ys" using k(7) unfolding sp by auto
    then have "?f xs = xs" "?f ys = ys" by (auto simp: filter_id_conv)
    then show ?thesis using k(3) sp by simp
  qed
  have del: "dictDelete T ht key = Ok (DICT_OK, ht', dictFreeEntryKey T (key, v) @ dictFreeEntryVal T (key, v))"
    if "dict_map ht key = Some v" for v
  proof -
    have "(key, v) \<in> set (concat t)" using that by (simp add: dict_map_Some [OF Some] map_of_SomeD del: set_concat)
    then have "concat t \<noteq> []" by (metis list.set(1) empty_iff)
    then have "dt_used ht \<noteq> 0" unfolding k(3) by (simp only: length_0_conv not_False_eq_True)
    moreover have "(2 :: nat) ^ k \<le> 2 ^ 30" by (rule power_increasing) (use k in auto)
    ultimately have "ulong_dec (dt_used ht) = length (concat (t[?h := ?f (t ! ?h)]))"
      unfolding cc using less [OF that] k(4) by (subst ulong_dec_pos) auto
    then show ?thesis
      using that c dict_size_pos [OF assms(2) Some]
      by (simp add: dictDelete_def Let_def u Some ht'_def)
  qed
  have "dictDelete T ht key = Ok (DICT_ERR, ht, [])" if "dict_map ht key = None"
    using that c dict_size_pos [OF assms(2) Some] by (simp add: dictDelete_def Let_def u)
  then show ?thesis
    using del up(1) mp less cc by (intro exI [of _ ht']) (auto simp: ht'_def split: option.split)
qed

subsection \<open>Clearing, hashing, iterating\<close>

definition free_entry :: "('k, 'v) dictType \<Rightarrow> 'k \<times> 'v \<Rightarrow> ('k, 'v) free_event list" where
  "free_entry T en = dictFreeEntryKey T en @ dictFreeEntryVal T en"

lemma clear_chain_spec:
  "length ch \<le> used \<Longrightarrow> used < 4294967296 \<Longrightarrow>
   clear_chain T ch used = (concat (map (free_entry T) ch), used - length ch)"
proof (induction ch arbitrary: used)
  case (Cons he ch)
  then have "ulong_dec used = used - 1" by (intro ulong_dec_pos) auto
  then show ?case using Cons.IH [of "used - 1"] Cons.prems by (simp add: free_entry_def)
qed simp

lemma clear_table_spec:
  "used = length (concat t) \<Longrightarrow> used < 4294967296 \<Longrightarrow>
   clear_table T t used = concat (map (free_entry T) (concat t))"
proof (induction t arbitrary: used)
  case (Cons ch t)
  show ?case
  proof (cases "used = 0")
    case True
    then have cz: "concat (ch # t) = []" using Cons.prems(1) by (metis length_0_conv)
    show ?thesis unfolding cz using True by simp
  next
    case False
    have "clear_chain T ch used = (concat (map (free_entry T) ch), used - length ch)"
      using Cons.prems by (intro clear_chain_spec) auto
    then show ?thesis using False Cons.IH [of "used - length ch"] Cons.prems by simp
  qed
qed simp

lemma dictClear_spec:
  assumes "dict_inv T ht"
  shows "dictClear T ht = (DICT_OK, dictReset, concat (map (free_entry T) (concat (old_chains ht))))"
proof -
  note oc = old_chains_inv [OF assms]
  then show ?thesis using clear_table_spec [OF oc(1)] by (simp add: dictClear_def)
qed

text \<open>Reference for the hash: Bernstein's polynomial modulo the word size.\<close>

lemma dictGenHash_loop_poly:
  "dictGenHash_loop h b = h * 33 ^ length b + (\<Sum>i < length b. of_char (b ! i) * 33 ^ (length b - Suc i))"
proof (induction b arbitrary: h)
  case (Cons c b)
  have sh: "push_bit 5 h + h = h * 33"
  proof -
    have "push_bit 5 h = h * 32" by (simp only: push_bit_eq_mult) simp
    then show ?thesis by (simp only:) (simp add: algebra_simps)
  qed
  have "(\<Sum>i < length (c # b). of_char ((c # b) ! i) * 33 ^ (length (c # b) - Suc i)) =
      of_char c * 33 ^ length b + (\<Sum>i < length b. of_char (b ! i) * (33 :: 32 word) ^ (length b - Suc i))"
    by (simp add: sum.lessThan_Suc_shift del: sum.lessThan_Suc)
  moreover have "dictGenHash_loop h (c # b) = dictGenHash_loop (h * 33 + of_char c) b"
    by (simp only: dictGenHash_loop.simps sh)
  ultimately show ?case using Cons.IH [of "h * 33 + of_char c"]
    by (simp add: algebra_simps del: sum.lessThan_Suc)
qed simp

lemma dictGenHashFunction_poly:
  "dictGenHashFunction b = 5381 * 33 ^ length b + (\<Sum>i < length b. of_char (b ! i) * 33 ^ (length b - Suc i))"
  by (simp add: dictGenHashFunction_def dictGenHash_loop_poly)

text \<open>The entries an iterator still has to deliver.\<close>

definition iter_rest :: "('k, 'v) dict \<Rightarrow> ('k, 'v) dictIterator \<Rightarrow> ('k \<times> 'v) list" where
  "iter_rest ht it =
     (if it_entry it = [] then [] else it_nextEntry it) @ concat (drop (nat (it_index it + 1)) (old_chains ht))"

definition iter_ok :: "('k, 'v) dictIterator \<Rightarrow> bool" where
  "iter_ok it \<longleftrightarrow> - 1 \<le> it_index it"

lemma old_chains_length:
  "dict_inv T ht \<Longrightarrow> length (old_chains ht) = dt_size ht \<and> to_i32 (int (dt_size ht)) = int (dt_size ht)"
proof (cases "dt_table ht")
  case (Some t)
  assume "dict_inv T ht"
  with Some obtain k :: nat where k: "k \<le> 30" "dt_size ht = 2 ^ k" "length t = dt_size ht"
    by (auto simp: dict_inv_def)
  have "(2 :: nat) ^ k \<le> 2 ^ 30" by (rule power_increasing) (use k in auto)
  then have "dt_size ht \<le> 1073741824" using k(2) by simp
  then show ?thesis using Some k(3) by (simp add: old_chains_def to_i32_def)
qed (auto simp: dict_inv_def dictReset_def old_chains_def to_i32_def)

lemma chain_at_old_chains:
  "dict_inv T ht \<Longrightarrow> h < dt_size ht \<Longrightarrow> chain_at ht h = Ok (old_chains ht ! h)"
  by (auto simp: dict_inv_def chain_at_def old_chains_def dictReset_def split: option.splits)

lemma dictNext_spec:
  "dict_inv T ht \<Longrightarrow> iter_ok it \<Longrightarrow>
   \<exists>it'. iter_ok it' \<and> iter_rest ht it' = tl (iter_rest ht it) \<and>
     dictNext ht it = Ok (case iter_rest ht it of [] \<Rightarrow> None | x # xs \<Rightarrow> Some x, it')"
proof (induction ht it rule: dictNext.induct)
  case (1 ht it)
  note oc = old_chains_length [OF 1(3)]
  show ?case
  proof (cases "it_entry it = []")
    case True
    let ?i = "it_index it + 1"
    have rest: "iter_rest ht it = concat (drop (nat ?i) (old_chains ht))" by (simp add: iter_rest_def True)
    show ?thesis
    proof (cases "?i \<ge> int (dt_size ht)")
      case end_of_table: True
      then have "drop (nat ?i) (old_chains ht) = []" "drop (nat (?i + 1)) (old_chains ht) = []" using oc by auto
      then show ?thesis using True end_of_table oc 1(4)
        by (subst dictNext.simps) (auto simp: rest iter_rest_def iter_ok_def)
    next
      case False
      have ge: "0 \<le> ?i" "nat ?i < dt_size ht" using 1(4) False by (auto simp: iter_ok_def)
      note ca = chain_at_old_chains [OF 1(3) ge(2)]
      have dr: "drop (nat ?i) (old_chains ht) = old_chains ht ! nat ?i # drop (nat (?i + 1)) (old_chains ht)"
        using ge oc Cons_nth_drop_Suc [of "nat ?i" "old_chains ht"] by (simp add: Suc_nat_eq_nat_zadd1 add.commute)
      show ?thesis
      proof (cases "old_chains ht ! nat ?i")
        case Nil
        have "iter_rest ht (it\<lparr>it_index := ?i, it_entry := []\<rparr>) = iter_rest ht it"
          unfolding rest dr by (simp add: Nil iter_rest_def)
        moreover have "iter_ok (it\<lparr>it_index := ?i, it_entry := []\<rparr>)" using ge by (simp add: iter_ok_def)
        ultimately show ?thesis
          using 1(1) [OF True refl refl _ _ _ Nil 1(3)] True False ge oc ca Nil
          by (subst dictNext.simps) (simp add: Let_def)
      next
        case (Cons x xs)
        then show ?thesis unfolding rest dr using True False ge oc ca
          by (subst dictNext.simps) (simp add: Let_def iter_rest_def iter_ok_def)
      qed
    qed
  next
    case False
    show ?thesis
    proof (cases "it_nextEntry it")
      case Nil
      have "iter_rest ht (it\<lparr>it_entry := []\<rparr>) = iter_rest ht it" by (simp add: iter_rest_def Nil)
      then show ?thesis using 1(2) [OF False Nil 1(3)] 1(4) False Nil
        by (subst dictNext.simps) (simp add: iter_ok_def)
    next
      case (Cons x xs)
      then show ?thesis using False 1(4) by (subst dictNext.simps) (simp add: iter_rest_def iter_ok_def)
    qed
  qed
qed

text \<open>Calling \<^verbatim>\<open>dictNext\<close> until it returns null, as every caller does; the fuel bounds the number of calls.\<close>

fun iterate :: "nat \<Rightarrow> ('k, 'v) dict \<Rightarrow> ('k, 'v) dictIterator \<Rightarrow> ('k \<times> 'v) list cres" where
  "iterate 0 ht it = Null"
| "iterate (Suc n) ht it =
     cbind (dictNext ht it) (\<lambda>(r, it'). case r of
         None \<Rightarrow> Ok []
       | Some en \<Rightarrow> cbind (iterate n ht it') (\<lambda>ens. Ok (en # ens)))"

lemma iterate_rest:
  "dict_inv T ht \<Longrightarrow> iter_ok it \<Longrightarrow> length (iter_rest ht it) < n \<Longrightarrow> iterate n ht it = Ok (iter_rest ht it)"
proof (induction n arbitrary: it)
  case (Suc n)
  obtain it' where it': "iter_ok it'" "iter_rest ht it' = tl (iter_rest ht it)"
    "dictNext ht it = Ok (case iter_rest ht it of [] \<Rightarrow> None | x # xs \<Rightarrow> Some x, it')"
    using dictNext_spec [OF Suc.prems(1,2)] by blast
  show ?case
  proof (cases "iter_rest ht it")
    case Nil
    then show ?thesis using it' by simp
  next
    case (Cons x xs)
    then have "iterate n ht it' = Ok xs" using Suc.IH [OF Suc.prems(1) it'(1)] Suc.prems(3) it'(2) by simp
    then show ?thesis using it'(3) Cons by simp
  qed
qed simp

lemma iterate_all:
  assumes "dict_inv T ht" "dictGetIterator e = Ok it"
  shows "iterate (Suc (dt_used ht)) ht it = Ok (concat (old_chains ht))"
proof -
  have it: "it = \<lparr>it_index = - 1, it_entry = [], it_nextEntry = []\<rparr>"
    using assms(2) by (auto simp: dictGetIterator_def split: if_splits)
  then have "iter_ok it" "iter_rest ht it = concat (old_chains ht)"
    by (simp_all add: iter_ok_def iter_rest_def)
  moreover have "length (concat (old_chains ht)) = dt_used ht"
    using old_chains_inv(1) [OF assms(1)] by simp
  ultimately show ?thesis using iterate_rest [OF assms(1), of it "Suc (dt_used ht)"] by simp
qed


section \<open>The dictionary as a finite map\<close>

text \<open>The calls a client makes, with the status codes dropped; the value is stored by \<^verbatim>\<open>dictReplace\<close>.\<close>

definition table_put :: "env \<Rightarrow> ('k, 'v) dictType \<Rightarrow> ('k, 'v) dict \<Rightarrow> 'k \<Rightarrow> 'v \<Rightarrow> ('k, 'v) dict cres" where
  "table_put e T ht k v = cbind (dictReplace e e T ht k v) (\<lambda>(_, ht', _). Ok ht')"

definition table_del :: "('k, 'v) dictType \<Rightarrow> ('k, 'v) dict \<Rightarrow> 'k \<Rightarrow> ('k, 'v) dict cres" where
  "table_del T ht k = cbind (dictDelete T ht k) (\<lambda>(_, ht', _). Ok ht')"

definition table_find :: "('k, 'v) dictType \<Rightarrow> ('k, 'v) dict \<Rightarrow> 'k \<Rightarrow> 'v option cres" where
  "table_find T ht k = cbind (dictFind T ht k) (\<lambda>en. Ok (map_option snd en))"

lemma dict_count_card: "dict_inv T ht \<Longrightarrow> dt_used ht = card (dom (dict_map ht))"
  by (metis old_chains_inv(1,2,3) distinct_card dom_map_of_conv_image_fst length_map set_map)

lemma table_put_spec:
  assumes "dict_type_ok T" "dict_inv T ht" "alloc_ok e" "dt_used ht < 2 ^ 30"
  shows "\<exists>ht'. table_put e T ht k v = Ok ht' \<and> dict_inv T ht' \<and>
     dict_map ht' = (dict_map ht)(k \<mapsto> dictSetHashVal T v) \<and> dt_used ht' \<le> Suc (dt_used ht)"
proof -
  obtain ht' where h: "table_put e T ht k v = Ok ht'" "dict_inv T ht'" "dict_map ht' = (dict_map ht)(k \<mapsto> dictSetHashVal T v)"
    using dictReplace_spec [OF assms(1,2,3,3,4), of k v] by (auto simp: table_put_def)
  have "finite (dom (dict_map ht))" by (simp add: old_chains_inv(2) [OF assms(2)] finite_dom_map_of)
  then have "dt_used ht' \<le> Suc (dt_used ht)"
    using h(2,3) assms(2) by (simp add: dict_count_card card_insert_if)
  then show ?thesis using h by blast
qed

lemma table_del_spec:
  assumes "dict_type_ok T" "dict_inv T ht"
  shows "\<exists>ht'. table_del T ht k = Ok ht' \<and> dict_inv T ht' \<and>
     dict_map ht' = (dict_map ht)(k := None) \<and> dt_used ht' \<le> dt_used ht"
proof -
  have fin: "finite (dom (dict_map ht))" by (simp add: old_chains_inv(2) [OF assms(2)] finite_dom_map_of)
  obtain ht' where h: "dictDelete T ht k = (case dict_map ht k of None \<Rightarrow> Ok (DICT_ERR, ht, [])
        | Some v \<Rightarrow> Ok (DICT_OK, ht', dictFreeEntryKey T (k, v) @ dictFreeEntryVal T (k, v)))"
      "dict_inv T ht'" "dict_map ht' = (dict_map ht)(k := None)"
    using dictDelete_spec [OF assms, of k] by blast
  show ?thesis
  proof (cases "dict_map ht k")
    case None
    then show ?thesis using h assms(2) by (auto simp: table_del_def fun_upd_idem)
  next
    case (Some v)
    have "dt_used ht' \<le> dt_used ht"
      using h(2,3) assms(2) fin by (simp add: dict_count_card card_Diff1_le)
    then show ?thesis using h Some by (auto simp: table_del_def)
  qed
qed

locale dict_client =
  fixes T :: "('k, 'v) dictType" and e :: env
  assumes type_ok: "dict_type_ok T" and val_copy: "dictSetHashVal T v = v" and memory: "alloc_ok e"

sublocale dict_client \<subseteq> finite_map "dict_inv T" dict_map dt_used "2 ^ 30" dictReset
  "table_find T" "table_put e T" "table_del T"
proof unfold_locales
  fix ht :: "('k, 'v) dict" and k v
  show "table_find T ht k = Ok (dict_map ht k)" if "dict_inv T ht"
    using dictFind_spec [OF type_ok that, of k] by (simp add: table_find_def option.map_comp comp_def option.map_ident)
  show "\<exists>ht'. table_put e T ht k v = Ok ht' \<and> dict_inv T ht' \<and> dict_map ht' = (dict_map ht)(k \<mapsto> v) \<and>
      dt_used ht' \<le> Suc (dt_used ht)" if "dict_inv T ht" "dt_used ht < 2 ^ 30"
    using table_put_spec [OF type_ok that(1) memory that(2), of k v] by (simp add: val_copy)
  show "\<exists>ht'. table_del T ht k = Ok ht' \<and> dict_inv T ht' \<and> dict_map ht' = (dict_map ht)(k := None) \<and>
      dt_used ht' \<le> dt_used ht" if "dict_inv T ht"
    by (rule table_del_spec [OF type_ok that])
qed (simp_all add: dictReset_def dict_inv_def dict_map_def)

context dict_client
begin

lemmas finite_map_run_from_empty = run_from_empty

end

section \<open>Properties\<close>

text \<open>
  Adding refines the update of a finite map: with memory available, \<^verbatim>\<open>dictAdd\<close> keeps the
  invariant (also when it has to grow and rehash the table), reports an error and leaves the map
  alone exactly when the key was there, and otherwise inserts the pair and counts it.
\<close>
theorem dictAdd_refines_update:
  assumes "dict_type_ok T" "dict_inv T ht" "alloc_ok e" "alloc_ok e'" "dt_used ht < 2 ^ 30"
  shows "\<exists>ht'. dictAdd e e' T ht key v = Ok (if key \<in> dom (dict_map ht) then DICT_ERR else DICT_OK, ht') \<and>
     dict_inv T ht' \<and>
     dict_map ht' = (if key \<in> dom (dict_map ht) then dict_map ht
                     else (dict_map ht)(key \<mapsto> dictSetHashVal T v)) \<and>
     dt_used ht' = card (dom (dict_map ht'))"
  using dictAdd_spec [OF assms, of key v] dict_count_card by blast

definition str_type :: "(string, nat) dictType" where
  "str_type = \<lparr>hashFunction = dictGenHashFunction, keyDup = None, valDup = None, keyCompare = None,
     keyDestructor = True, valDestructor = True\<rparr>"

lemma str_type_ok [simp]: "dict_type_ok str_type" "dictSetHashVal str_type v = v"
  by (simp_all add: str_type_def dict_type_ok_def dictCompareHashKeys_def dictSetHashKey_def dictSetHashVal_def)

theorem dictAdd_refines_update_witness:
  "\<exists>ht'. dictAdd plenty plenty str_type dictReset ''k'' 7 = Ok (DICT_OK, ht') \<and> dict_inv str_type ht' \<and>
     dict_map ht' = [''k'' \<mapsto> 7]"
  using dictAdd_refines_update [of str_type dictReset plenty plenty "''k''" 7] by auto

text \<open>
  Replacing always stores the new value; the old value is handed to its destructor exactly
  when there was one, and the result says whether the key was new.
\<close>
theorem dictReplace_refines_update:
  assumes "dict_type_ok T" "dict_inv T ht" "alloc_ok e" "alloc_ok e'" "dt_used ht < 2 ^ 30"
  shows "\<exists>ht'. dictReplace e e' T ht key v =
       Ok (if key \<in> dom (dict_map ht) then 0 else 1, ht',
           case dict_map ht key of None \<Rightarrow> [] | Some old \<Rightarrow> dictFreeEntryVal T (key, old)) \<and>
     dict_inv T ht' \<and> dict_map ht' = (dict_map ht)(key \<mapsto> dictSetHashVal T v)"
  using assms by (rule dictReplace_spec)

theorem dictReplace_refines_update_witness:
  "\<exists>ht'. dictReplace plenty plenty str_type dictReset ''k'' 7 = Ok (1, ht', []) \<and> dict_map ht' = [''k'' \<mapsto> 7]"
  using dictReplace_refines_update [of str_type dictReset plenty plenty "''k''" 7] by auto

text \<open>
  Deleting removes exactly the key, destroys its key and value once each, counts down, and
  reports an error without any effect when the key is not there.
\<close>
theorem dictDelete_refines_removal:
  assumes "dict_type_ok T" "dict_inv T ht"
  shows "\<exists>ht'. dictDelete T ht key =
       (case dict_map ht key of
          None \<Rightarrow> Ok (DICT_ERR, ht, [])
        | Some v \<Rightarrow> Ok (DICT_OK, ht', dictFreeEntryKey T (key, v) @ dictFreeEntryVal T (key, v))) \<and>
     dict_inv T ht' \<and> dict_map ht' = (dict_map ht)(key := None) \<and>
     (key \<in> dom (dict_map ht) \<longrightarrow> dt_used ht' = dt_used ht - 1)"
  using assms by (rule dictDelete_spec)

definition one_entry :: "(string, nat) dict" where
  "one_entry = \<lparr>dt_table = Some [[(''k'', 7)], [], [], []], dt_size = 4, dt_sizemask = 3, dt_used = 1\<rparr>"

lemma one_entry_ok: "dict_inv str_type one_entry" "dict_map one_entry = [''k'' \<mapsto> 7]"
proof -
  have "slot_of str_type ''k'' 3 = 0"
    by (simp add: slot_of_def dictHashKey_def str_type_def dictGenHashFunction_def push_bit_eq_mult)
  then show "dict_inv str_type one_entry"
    by (auto simp: one_entry_def dict_inv_def chains_ok_def less_Suc_eq numeral_eq_Suc)
qed (simp add: one_entry_def dict_map_def)


theorem dictDelete_refines_removal_witness:
  "\<exists>ht'. dictDelete str_type one_entry ''k'' = Ok (DICT_OK, ht', [FreeKey ''k'', FreeVal 7]) \<and>
     dict_map ht' = Map.empty \<and> dt_used ht' = 0"
  using dictDelete_refines_removal [OF str_type_ok(1) one_entry_ok(1), of "''k''"] one_entry_ok(2)
  by (auto simp: dictFreeEntryKey_def dictFreeEntryVal_def str_type_def one_entry_def)

text \<open>
  C13. Any sequence of insertions and removals on a new dictionary, of at most \<open>2 ^ 30\<close> calls,
  runs without a fault and leaves a table in which every lookup gives what the same sequence
  leaves in a finite map, through every growth of the table.
\<close>
theorem dict_run_simulates_map:
  assumes "dict_type_ok T" "\<And>v. dictSetHashVal T v = v" "alloc_ok e" "length ops \<le> 2 ^ 30"
  shows "\<exists>ht. table_run (table_put e T) (table_del T) dictReset ops = Ok ht \<and> dict_inv T ht \<and>
     (\<forall>k. table_find T ht k = Ok (fold map_op ops Map.empty k))"
proof -
  have c: "dict_client T e" using assms(1-3) by unfold_locales
  from dict_client.finite_map_run_from_empty [OF c assms(4)] show ?thesis by blast
qed

theorem dict_run_simulates_map_witness:
  "\<exists>ht. table_run (table_put plenty str_type) (table_del str_type) dictReset [Put ''a'' 1, Del ''b'', Put ''a'' 2] = Ok ht \<and>
     (\<forall>k. table_find str_type ht k = Ok (if k = ''a'' then Some 2 else None))"
  using dict_run_simulates_map [of str_type plenty "[Put ''a'' 1, Del ''b'', Put ''a'' 2]"]
  by (auto simp: fun_upd_def cong: if_cong)

text \<open>
  C36. Iteration visits every entry exactly once: calling \<^verbatim>\<open>dictNext\<close> until it returns null
  terminates within as many calls as there are entries plus one, never leaves the table, and
  delivers a list without repeated keys that holds precisely the pairs of the map.
\<close>
theorem dict_iteration_exactly_once:
  assumes "dict_inv T ht" "dictGetIterator e = Ok it"
  shows "\<exists>ens. iterate (Suc (dt_used ht)) ht it = Ok ens \<and> distinct (map fst ens) \<and> map_of ens = dict_map ht"
  using iterate_all [OF assms] old_chains_inv(2,3) [OF assms(1)] by auto

theorem dict_iteration_exactly_once_witness:
  "\<exists>it ens. dictGetIterator plenty = Ok it \<and> iterate (Suc (dt_used one_entry)) one_entry it = Ok ens \<and>
     map_of ens = [''k'' \<mapsto> 7]"
proof -
  obtain it :: "(string, nat) dictIterator" where it: "dictGetIterator plenty = Ok it" by (simp add: dictGetIterator_def plenty_def)
  then show ?thesis
    using dict_iteration_exactly_once [OF one_entry_ok(1) it] one_entry_ok(2) by (auto simp del: iterate.simps)
qed

text \<open>
  Clearing destroys every key and every value of the dictionary exactly once, in the order of
  the chains, and leaves the empty dictionary.
\<close>
theorem dictClear_frees_all:
  assumes "dict_inv T ht" "keyDestructor T" "valDestructor T"
  shows "\<exists>ens. dictClear T ht = (DICT_OK, dictReset, concat (map (\<lambda>(k, v). [FreeKey k, FreeVal v]) ens)) \<and>
     distinct (map fst ens) \<and> map_of ens = dict_map ht"
proof -
  have "free_entry T = (\<lambda>(k, v). [FreeKey k, FreeVal v])"
    using assms by (auto simp: fun_eq_iff free_entry_def dictFreeEntryKey_def dictFreeEntryVal_def)
  then show ?thesis using dictClear_spec [OF assms(1)] old_chains_inv(2,3) [OF assms(1)] by auto
qed

theorem dictClear_frees_all_witness:
  "\<exists>ens. dictClear str_type one_entry = (DICT_OK, dictReset, concat (map (\<lambda>(k, v). [FreeKey k, FreeVal v]) ens)) \<and>
     map_of ens = [''k'' \<mapsto> 7]"
  using dictClear_frees_all [OF one_entry_ok(1)] one_entry_ok(2) by (auto simp: str_type_def)

end
