(* ===== verification/Async.thy ===== *)
theory Async
  imports Net Dict
begin

text \<open>
  The asynchronous client, \<^verbatim>\<open>src/win/hiredis/async.c\<close> and \<^verbatim>\<open>async.h\<close>: commands are queued with a
  callback, an event loop reports that the socket is readable or writable, and every reply that is
  complete is handed to the callback at the head of the queue; subscriptions keep their callbacks in
  two hash tables.

  A callback function is a number. What the callbacks do is the parameter \<open>usr\<close>: from everything
  that happened so far, the function, its private data and the value of the reply (\<open>None\<close> for the
  null reply) to the calls it makes on the context. During a callback the flag
  \<^verbatim>\<open>REDIS_IN_CALLBACK\<close> is set, so that \<^verbatim>\<open>redisAsyncDisconnect\<close> and \<^verbatim>\<open>redisAsyncFree\<close> only set a flag
  there (lemma \<open>in_callback_flags\<close>) and callbacks never nest. What happened is the log of the state:
  callbacks queued and run, hooks of the event loop, and the connect and disconnect callbacks, which
  get the context as a constant.
\<close>

unbundle bit_operations_syntax

section \<open>Data\<close>

definition REDIS_DISCONNECTING :: int where "REDIS_DISCONNECTING = 4"

definition REDIS_FREEING :: int where "REDIS_FREEING = 8"

definition REDIS_IN_CALLBACK :: int where "REDIS_IN_CALLBACK = 16"

definition REDIS_SUBSCRIBED :: int where "REDIS_SUBSCRIBED = 32"

definition REDIS_MONITORING :: int where "REDIS_MONITORING = 64"

lemmas flag_consts = REDIS_BLOCK_def REDIS_CONNECTED_def REDIS_DISCONNECTING_def REDIS_FREEING_def REDIS_IN_CALLBACK_def
  REDIS_SUBSCRIBED_def REDIS_MONITORING_def REDIS_REUSEADDR_def

record redisCallback =
  cb_fn :: "nat option"
  cb_privdata :: nat

datatype hook = AddRead | DelRead | AddWrite | DelWrite | CleanUp

datatype event =
    Queued redisCallback
  | Ran nat nat nat "resp option"
  | Hook hook
  | OnConnect int
  | OnDisconnect int

record redisAsyncContext =
  ac_c :: redisContext
  ac_err :: int
  ac_errstr :: bool
  ac_ev :: "hook \<Rightarrow> bool"
  ac_onDisconnect :: bool
  ac_onConnect :: bool
  ac_replies :: "redisCallback list"
  ac_invalid :: "redisCallback list"
  ac_channels :: "(string, redisCallback) dict"
  ac_patterns :: "(string, redisCallback) dict"

record astate =
  s_w :: world
  s_log :: "event list"

datatype act = Command redisCallback mem nat | Disconnect | Free

type_synonym user = "event list \<Rightarrow> nat \<Rightarrow> nat \<Rightarrow> resp option \<Rightarrow> act list"

definition emit :: "event \<Rightarrow> astate \<Rightarrow> astate" where
  "emit ev s = s\<lparr>s_log := s_log s @ [ev]\<rparr>"

definition el :: "hook \<Rightarrow> redisAsyncContext \<Rightarrow> astate \<Rightarrow> astate" where
  "el h ac s = (if ac_ev ac h then emit (Hook h) s else s)"

definition set_flag :: "int \<Rightarrow> redisAsyncContext \<Rightarrow> redisAsyncContext" where
  "set_flag f ac = ac\<lparr>ac_c := (ac_c ac)\<lparr>c_flags := c_flags (ac_c ac) OR f\<rparr>\<rparr>"

definition clear_flag :: "int \<Rightarrow> redisAsyncContext \<Rightarrow> redisAsyncContext" where
  "clear_flag f ac = ac\<lparr>ac_c := (ac_c ac)\<lparr>c_flags := c_flags (ac_c ac) AND NOT f\<rparr>\<rparr>"

definition has_flag :: "int \<Rightarrow> redisAsyncContext \<Rightarrow> bool" where
  "has_flag f ac \<longleftrightarrow> c_flags (ac_c ac) AND f \<noteq> 0"

section \<open>The tables of subscriptions\<close>

definition callbackHash :: "string \<Rightarrow> 32 word" where
  "callbackHash key = dictGenHashFunction key"

definition callbackValDup :: "redisCallback \<Rightarrow> redisCallback" where
  "callbackValDup src = src"

definition callbackKeyCompare :: "string \<Rightarrow> string \<Rightarrow> bool" where
  "callbackKeyCompare key1 key2 = (if length key1 \<noteq> length key2 then False else key1 = key2)"

definition callbackDict :: "(string, redisCallback) dictType" where
  "callbackDict = \<lparr>hashFunction = callbackHash, keyDup = None, valDup = Some callbackValDup, keyCompare = Some callbackKeyCompare,
     keyDestructor = True, valDestructor = True\<rparr>"

section \<open>Creation\<close>

definition redisAsyncInitialize :: "redisContext \<Rightarrow> world \<Rightarrow> (redisAsyncContext option \<times> world) cres" where
  "redisAsyncInitialize c w =
     (let es = envs w 0; w = tick w in
      if \<not> can_alloc (es 0) 344 then Ok (None, w)
      else
        cbind (dictCreate (es 1)) (\<lambda>channels.
        cbind (dictCreate (es 2)) (\<lambda>patterns.
        Ok (Some \<lparr>ac_c = c\<lparr>c_flags := c_flags c AND NOT REDIS_CONNECTED\<rparr>, ac_err = 0, ac_errstr = False, ac_ev = (\<lambda>_. False),
              ac_onDisconnect = False, ac_onConnect = False, ac_replies = [], ac_invalid = [],
              ac_channels = channels, ac_patterns = patterns\<rparr>, w))))"

definition redisAsyncCopyError :: "redisAsyncContext \<Rightarrow> redisAsyncContext" where
  "redisAsyncCopyError ac = ac\<lparr>ac_err := c_err (ac_c ac), ac_errstr := True\<rparr>"

text \<open>The two connecting functions that test for \<^verbatim>\<open>NULL\<close>, and the two that do not.\<close>

definition async_of :: "bool \<Rightarrow> (world \<Rightarrow> (redisContext option \<times> world) cres) \<Rightarrow> world \<Rightarrow> (redisAsyncContext option \<times> world) cres" where
  "async_of tested con w =
     cbind (con w) (\<lambda>(p, w).
       case p of
         None \<Rightarrow> if tested then Ok (None, w) else Fault NullDeref
       | Some c \<Rightarrow>
           cbind (redisAsyncInitialize c w) (\<lambda>(ac, w).
             case ac of
               None \<Rightarrow> if tested then cbind (redisFree (Some c) w) (\<lambda>w. Ok (None, w)) else Ok (None, w)
             | Some ac \<Rightarrow> Ok (Some (redisAsyncCopyError ac), w)))"

definition redisAsyncConnect :: "string \<Rightarrow> int \<Rightarrow> world \<Rightarrow> (redisAsyncContext option \<times> world) cres" where
  "redisAsyncConnect ip port = async_of True (redisConnectNonBlock ip port)"

definition redisAsyncConnectBind :: "string \<Rightarrow> int \<Rightarrow> string option \<Rightarrow> world \<Rightarrow> (redisAsyncContext option \<times> world) cres" where
  "redisAsyncConnectBind ip port source_addr = async_of False (redisConnectBindNonBlock ip port source_addr)"

definition redisAsyncConnectBindWithReuse :: "string \<Rightarrow> int \<Rightarrow> string option \<Rightarrow> world \<Rightarrow> (redisAsyncContext option \<times> world) cres" where
  "redisAsyncConnectBindWithReuse ip port source_addr = async_of False (redisConnectBindNonBlockWithReuse ip port source_addr)"

definition redisAsyncConnectUnix :: "string \<Rightarrow> world \<Rightarrow> (redisAsyncContext option \<times> world) cres" where
  "redisAsyncConnectUnix path = async_of True (redisConnectUnixNonBlock path)"

definition redisAsyncSetConnectCallback :: "redisAsyncContext \<Rightarrow> astate \<Rightarrow> int \<times> redisAsyncContext \<times> astate" where
  "redisAsyncSetConnectCallback ac s =
     (if \<not> ac_onConnect ac then (REDIS_OK, ac\<lparr>ac_onConnect := True\<rparr>, el AddWrite ac s) else (REDIS_ERR, ac, s))"

definition redisAsyncSetDisconnectCallback :: "redisAsyncContext \<Rightarrow> int \<times> redisAsyncContext" where
  "redisAsyncSetDisconnectCallback ac =
     (if \<not> ac_onDisconnect ac then (REDIS_OK, ac\<lparr>ac_onDisconnect := True\<rparr>) else (REDIS_ERR, ac))"

section \<open>The queue of callbacks\<close>

definition redisPushCallback :: "env \<Rightarrow> redisCallback list \<Rightarrow> redisCallback \<Rightarrow> int \<times> redisCallback list" where
  "redisPushCallback e cbs cb = (if can_alloc e 24 then (REDIS_OK, cbs @ [cb]) else (REDIS_ERR_OOM, cbs))"

definition redisShiftCallback :: "redisCallback list \<Rightarrow> int \<times> redisCallback option \<times> redisCallback list" where
  "redisShiftCallback cbs = (case cbs of [] \<Rightarrow> (REDIS_ERR, None, []) | cb # cbs \<Rightarrow> (REDIS_OK, Some cb, cbs))"

section \<open>Commands\<close>

text \<open>A pointer into the command is its offset.\<close>

fun find_chr :: "char \<Rightarrow> mem \<Rightarrow> int \<Rightarrow> int option cres" where
  "find_chr ch [] i = Fault OutOfBounds"
| "find_chr ch (x # xs) i = (if x = ch then Ok (Some i) else if x = NUL then Ok None else find_chr ch xs (i + 1))"

definition strchr_at :: "mem \<Rightarrow> int \<Rightarrow> char \<Rightarrow> int option cres" where
  "strchr_at m i ch = (if i < 0 then Fault OutOfBounds else find_chr ch (drop (nat i) m) i)"

definition strtol_dec :: "mem \<Rightarrow> int" where
  "strtol_dec t =
     (let t = dropWhile c_isspace t;
          neg = (t \<noteq> [] \<and> hd t = CHR ''-'');
          t = (if t \<noteq> [] \<and> (hd t = CHR ''-'' \<or> hd t = CHR ''+'') then tl t else t);
          n = int (digits_value (takeWhile c_isdigit t))
      in if neg then max (- 2147483648) (- n) else min 2147483647 n)"

text \<open>The offset after the argument, the offset of its text and its length.\<close>

definition nextArgument :: "mem \<Rightarrow> int \<Rightarrow> (int \<times> int \<times> nat) option cres" where
  "nextArgument m i =
     cbind (mem_read m i) (\<lambda>c.
     cbind (if c \<noteq> CHR ''$'' then strchr_at m i (CHR ''$'') else Ok (Some i)) (\<lambda>p.
       case p of
         None \<Rightarrow> Ok None
       | Some p \<Rightarrow>
           let len = to_i32 (strtol_dec (drop (nat (p + 1)) m)) in
           cbind (strchr_at m p CR) (\<lambda>q.
             case q of
               None \<Rightarrow> Fault AssertFailed
             | Some q \<Rightarrow> Ok (Some (q + 2 + len + 2, q + 2, to_size len)))))"

text \<open>Comparing a word in lower case with the text at an offset, ignoring the case of the text.\<close>

fun ci_prefix :: "mem \<Rightarrow> int \<Rightarrow> string \<Rightarrow> bool cres" where
  "ci_prefix m i [] = Ok True"
| "ci_prefix m i (x # xs) = cbind (mem_read m i) (\<lambda>c. if c_tolower c \<noteq> x then Ok False else ci_prefix m (i + 1) xs)"

datatype kind = Subscribe bool int | Unsubscribe | Monitor | Regular

definition command_kind :: "mem \<Rightarrow> kind cres" where
  "command_kind cmd =
     cbind (nextArgument cmd 0) (\<lambda>a.
       case a of
         None \<Rightarrow> Fault AssertFailed
       | Some (p, cs, _) \<Rightarrow>
           cbind (mem_read cmd p) (\<lambda>x.
           cbind (mem_read cmd cs) (\<lambda>y.
           let hasnext = (x = CHR ''$''); pvariant = (c_tolower y = CHR ''p''); cs = (if pvariant then cs + 1 else cs) in
           cbind (if hasnext then ci_prefix cmd cs (''subscribe'' @ [CR, LF]) else Ok False) (\<lambda>sub.
           if sub then Ok (Subscribe pvariant p)
           else cbind (ci_prefix cmd cs (''unsubscribe'' @ [CR, LF])) (\<lambda>unsub.
             if unsub then Ok Unsubscribe
             else cbind (ci_prefix cmd cs (''monitor'' @ [CR, LF])) (\<lambda>mon.
               Ok (if mon then Monitor else Regular)))))))"

text \<open>Every argument is entered with the callback; an argument ends after it began, so the length of the command bounds the rounds.\<close>

fun subscribe_loop :: "nat \<Rightarrow> bool \<Rightarrow> redisCallback \<Rightarrow> mem \<Rightarrow> int \<Rightarrow> redisAsyncContext \<Rightarrow> world \<Rightarrow> (redisAsyncContext \<times> world) cres" where
  "subscribe_loop 0 pvariant cb m p ac w = Fault OutOfFuel"
| "subscribe_loop (Suc n) pvariant cb m p ac w =
     cbind (nextArgument m p) (\<lambda>a.
       case a of
         None \<Rightarrow> Ok (ac, w)
       | Some (p, astr, alen) \<Rightarrow>
           let es = envs w 0; w = tick w in
           cderef (sdsnewlen (es 0) (Some (drop (nat astr) m)) alen) (\<lambda>sname.
           if \<not> can_alloc (es 3) 24 then Fault NullDeref
           else cbind (dictReplace (es 1) (es 2) callbackDict (if pvariant then ac_patterns ac else ac_channels ac) (sds_content sname) cb)
             (\<lambda>(ret, d, _). subscribe_loop n pvariant cb m p (if pvariant then ac\<lparr>ac_patterns := d\<rparr> else ac\<lparr>ac_channels := d\<rparr>) w)))"

definition push_reply :: "redisCallback \<Rightarrow> redisAsyncContext \<Rightarrow> astate \<Rightarrow> redisAsyncContext \<times> astate" where
  "push_reply cb ac s =
     (case redisPushCallback (envs (s_w s) 0 0) (ac_replies ac) cb of (res, l) \<Rightarrow>
      (ac\<lparr>ac_replies := l\<rparr>, (if res = REDIS_OK then emit (Queued cb) else id) (s\<lparr>s_w := tick (s_w s)\<rparr>)))"

definition push_invalid :: "redisCallback \<Rightarrow> redisAsyncContext \<Rightarrow> astate \<Rightarrow> redisAsyncContext \<times> astate" where
  "push_invalid cb ac s =
     (case redisPushCallback (envs (s_w s) 0 0) (ac_invalid ac) cb of (_, l) \<Rightarrow> (ac\<lparr>ac_invalid := l\<rparr>, s\<lparr>s_w := tick (s_w s)\<rparr>))"

text \<open>The end of \<^verbatim>\<open>__redisAsyncCommand\<close>: the result of appending the command is ignored.\<close>

definition append_async :: "mem \<Rightarrow> nat \<Rightarrow> redisAsyncContext \<Rightarrow> astate \<Rightarrow> (int \<times> redisAsyncContext \<times> astate) cres" where
  "append_async cmd len ac s =
     cbind (append_cmd (ac_c ac) (s_w s) cmd len) (\<lambda>(_, c, w).
       let ac = ac\<lparr>ac_c := c\<rparr> in Ok (REDIS_OK, ac, el AddWrite ac (s\<lparr>s_w := w\<rparr>)))"

text \<open>\<open>async_cmd\<close> is \<^verbatim>\<open>__redisAsyncCommand\<close>.\<close>

definition async_cmd :: "redisAsyncContext \<Rightarrow> astate \<Rightarrow> redisCallback \<Rightarrow> mem \<Rightarrow> nat \<Rightarrow> (int \<times> redisAsyncContext \<times> astate) cres" where
  "async_cmd ac s cb cmd len =
     (if has_flag (REDIS_DISCONNECTING OR REDIS_FREEING) ac then Ok (REDIS_ERR, ac, s)
      else cbind (command_kind cmd) (\<lambda>kd.
        case kd of
          Subscribe pvariant p \<Rightarrow>
            cbind (subscribe_loop (Suc (length cmd)) pvariant cb cmd p (set_flag REDIS_SUBSCRIBED ac) (s_w s))
              (\<lambda>(ac, w). append_async cmd len ac (s\<lparr>s_w := w\<rparr>))
        | Unsubscribe \<Rightarrow> if \<not> has_flag REDIS_SUBSCRIBED ac then Ok (REDIS_ERR, ac, s) else append_async cmd len ac s
        | Monitor \<Rightarrow> (case push_reply cb (set_flag REDIS_MONITORING ac) s of (ac, s) \<Rightarrow> append_async cmd len ac s)
        | Regular \<Rightarrow>
            if has_flag REDIS_SUBSCRIBED ac
            then (case push_invalid cb ac s of (ac, s) \<Rightarrow> append_async cmd len ac s)
            else (case push_reply cb ac s of (ac, s) \<Rightarrow> append_async cmd len ac s)))"

definition redisvAsyncCommand :: "(string \<Rightarrow> 'd \<Rightarrow> string) \<Rightarrow> redisAsyncContext \<Rightarrow> astate \<Rightarrow> redisCallback \<Rightarrow> string \<Rightarrow> 'd vararg list \<Rightarrow>
    (int \<times> redisAsyncContext \<times> astate) cres" where
  "redisvAsyncCommand dbl ac s cb format ap =
     (let es = envs (s_w s); s = s\<lparr>s_w := tick (s_w s)\<rparr> in
      cbind (redisvFormatCommand dbl (es 0 0) (es 0 1) (es 0 2) (\<lambda>i. es (Suc i)) True format ap) (\<lambda>(len, cmd).
        if len < 0 then Ok (REDIS_ERR, ac, s)
        else case cmd of None \<Rightarrow> Fault NullDeref | Some cmd \<Rightarrow> async_cmd ac s cb cmd (to_size len)))"

definition redisAsyncCommand :: "(string \<Rightarrow> 'd \<Rightarrow> string) \<Rightarrow> redisAsyncContext \<Rightarrow> astate \<Rightarrow> redisCallback \<Rightarrow> string \<Rightarrow> 'd vararg list \<Rightarrow>
    (int \<times> redisAsyncContext \<times> astate) cres" where
  "redisAsyncCommand dbl ac s cb format ap = redisvAsyncCommand dbl ac s cb format ap"

text \<open>A failed format leaves the command uninitialised, and it is used nevertheless.\<close>

definition redisAsyncCommandArgv :: "redisAsyncContext \<Rightarrow> astate \<Rightarrow> redisCallback \<Rightarrow> int \<Rightarrow> mem list \<Rightarrow> nat list option \<Rightarrow>
    (int \<times> redisAsyncContext \<times> astate) cres" where
  "redisAsyncCommandArgv ac s cb argc argv argvlen =
     (let es = envs (s_w s); s = s\<lparr>s_w := tick (s_w s)\<rparr> in
      cbind (redisFormatSdsCommandArgv (es 0 0) (es 0 1) (\<lambda>i. es (Suc i)) True argc argv argvlen) (\<lambda>(len, cmd).
        case cmd of None \<Rightarrow> Fault NullDeref | Some cmd \<Rightarrow> async_cmd ac s cb (sh_buf cmd) (to_size len)))"

definition redisAsyncFormattedCommand :: "redisAsyncContext \<Rightarrow> astate \<Rightarrow> redisCallback \<Rightarrow> mem \<Rightarrow> nat \<Rightarrow> (int \<times> redisAsyncContext \<times> astate) cres" where
  "redisAsyncFormattedCommand ac s cb cmd len = async_cmd ac s cb cmd len"

section \<open>Running callbacks\<close>

fun do_acts :: "act list \<Rightarrow> redisAsyncContext \<Rightarrow> astate \<Rightarrow> (redisAsyncContext \<times> astate) cres" where
  "do_acts [] ac s = Ok (ac, s)"
| "do_acts (Command cb cmd len # acts) ac s =
     cbind (redisAsyncFormattedCommand ac s cb cmd len) (\<lambda>(_, ac, s). do_acts acts ac s)"
| "do_acts (Disconnect # acts) ac s = do_acts acts (set_flag REDIS_DISCONNECTING ac) s"
| "do_acts (Free # acts) ac s = do_acts acts (set_flag REDIS_FREEING ac) s"

definition redisRunCallback :: "user \<Rightarrow> redisAsyncContext \<Rightarrow> redisCallback \<Rightarrow> nat \<Rightarrow> astate \<Rightarrow> (redisAsyncContext \<times> astate) cres" where
  "redisRunCallback usr ac cb reply s =
     (case cb_fn cb of
        None \<Rightarrow> Ok (ac, s)
      | Some f \<Rightarrow>
          let v = (if reply = 0 then None else reply_value 9 (hp_objs (w_heap (s_w s))) reply);
              acts = usr (s_log s) f (cb_privdata cb) v in
          cbind (do_acts acts (set_flag REDIS_IN_CALLBACK ac) (emit (Ran f (cb_privdata cb) reply v) s)) (\<lambda>(ac, s).
            Ok (clear_flag REDIS_IN_CALLBACK ac, s)))"

text \<open>
  The loops of \<^verbatim>\<open>__redisAsyncFree\<close>. No command is accepted any more, so a queue only gets shorter
  and its length bounds the rounds.
\<close>

fun run_replies :: "user \<Rightarrow> nat \<Rightarrow> redisAsyncContext \<Rightarrow> astate \<Rightarrow> (redisAsyncContext \<times> astate) cres" where
  "run_replies usr 0 ac s = Fault OutOfFuel"
| "run_replies usr (Suc n) ac s =
     (case redisShiftCallback (ac_replies ac) of
        (_, None, _) \<Rightarrow> Ok (ac, s)
      | (_, Some cb, l) \<Rightarrow> cbind (redisRunCallback usr (ac\<lparr>ac_replies := l\<rparr>) cb 0 s) (\<lambda>(ac, s). run_replies usr n ac s))"

fun run_invalid :: "user \<Rightarrow> nat \<Rightarrow> redisAsyncContext \<Rightarrow> astate \<Rightarrow> (redisAsyncContext \<times> astate) cres" where
  "run_invalid usr 0 ac s = Fault OutOfFuel"
| "run_invalid usr (Suc n) ac s =
     (case redisShiftCallback (ac_invalid ac) of
        (_, None, _) \<Rightarrow> Ok (ac, s)
      | (_, Some cb, l) \<Rightarrow> cbind (redisRunCallback usr (ac\<lparr>ac_invalid := l\<rparr>) cb 0 s) (\<lambda>(ac, s). run_invalid usr n ac s))"

fun run_subs :: "user \<Rightarrow> bool \<Rightarrow> nat \<Rightarrow> (string, redisCallback) dictIterator \<Rightarrow> redisAsyncContext \<Rightarrow> astate \<Rightarrow> (redisAsyncContext \<times> astate) cres" where
  "run_subs usr pat 0 it ac s = Fault OutOfFuel"
| "run_subs usr pat (Suc n) it ac s =
     cbind (dictNext (if pat then ac_patterns ac else ac_channels ac) it) (\<lambda>(de, it).
       case de of
         None \<Rightarrow> Ok (ac, s)
       | Some (_, cb) \<Rightarrow> cbind (redisRunCallback usr ac cb 0 s) (\<lambda>(ac, s). run_subs usr pat n it ac s))"

text \<open>\<open>async_free\<close> is \<^verbatim>\<open>__redisAsyncFree\<close>; the context is gone afterwards.\<close>

definition async_free :: "user \<Rightarrow> redisAsyncContext \<Rightarrow> astate \<Rightarrow> astate cres" where
  "async_free usr ac s =
     cbind (run_replies usr (Suc (length (ac_replies ac))) ac s) (\<lambda>(ac, s).
     cbind (run_invalid usr (Suc (length (ac_invalid ac))) ac s) (\<lambda>(ac, s).
     let es = envs (s_w s) 0; s = s\<lparr>s_w := tick (s_w s)\<rparr> in
     cbind (dictGetIterator (es 0)) (\<lambda>it.
     cbind (run_subs usr False (Suc (dt_used (ac_channels ac))) it ac s) (\<lambda>(ac, s).
     cbind (dictGetIterator (es 1)) (\<lambda>it.
     cbind (run_subs usr True (Suc (dt_used (ac_patterns ac))) it ac s) (\<lambda>(ac, s).
     let s = el CleanUp ac s;
         s = (if ac_onDisconnect ac \<and> has_flag REDIS_CONNECTED ac
              then emit (OnDisconnect (if has_flag REDIS_FREEING ac then REDIS_OK else if ac_err ac = 0 then REDIS_OK else REDIS_ERR)) s
              else s)
     in cbind (redisFree (Some (ac_c ac)) (s_w s)) (\<lambda>w. Ok (s\<lparr>s_w := w\<rparr>))))))))"

definition redisAsyncFree :: "user \<Rightarrow> redisAsyncContext \<Rightarrow> astate \<Rightarrow> (redisAsyncContext option \<times> astate) cres" where
  "redisAsyncFree usr ac s =
     (let ac = set_flag REDIS_FREEING ac in
      if \<not> has_flag REDIS_IN_CALLBACK ac then cbind (async_free usr ac s) (\<lambda>s. Ok (None, s)) else Ok (Some ac, s))"

text \<open>\<open>async_disconnect\<close> is \<^verbatim>\<open>__redisAsyncDisconnect\<close>.\<close>

definition async_disconnect :: "user \<Rightarrow> redisAsyncContext \<Rightarrow> astate \<Rightarrow> astate cres" where
  "async_disconnect usr ac s =
     (let ac = redisAsyncCopyError ac in
      if ac_err ac = 0 then
        (if fst (redisShiftCallback (ac_replies ac)) \<noteq> REDIS_ERR then Fault AssertFailed else async_free usr ac s)
      else async_free usr (set_flag REDIS_DISCONNECTING ac) s)"

definition redisAsyncDisconnect :: "user \<Rightarrow> redisAsyncContext \<Rightarrow> astate \<Rightarrow> (redisAsyncContext option \<times> astate) cres" where
  "redisAsyncDisconnect usr ac s =
     (let ac = set_flag REDIS_DISCONNECTING ac in
      if \<not> has_flag REDIS_IN_CALLBACK ac \<and> ac_replies ac = []
      then cbind (async_disconnect usr ac s) (\<lambda>s. Ok (None, s)) else Ok (Some ac, s))"

section \<open>Replies\<close>

text \<open>
  The callback of a message. When no callback is found the variable keeps what it held. The
  comparison with \<^verbatim>\<open>strcmp\<close>, which the Windows build puts in the place of \<^verbatim>\<open>strcasecmp\<close>, is on the
  texts up to their terminators.
\<close>

definition redisGetSubscribeCallback :: "redisAsyncContext \<Rightarrow> world \<Rightarrow> nat \<Rightarrow> redisCallback \<Rightarrow> (redisCallback \<times> redisAsyncContext \<times> world) cres" where
  "redisGetSubscribeCallback ac w reply dstcb =
     cbind (obj_at w reply) (\<lambda>r.
     if rr_type r = REDIS_REPLY_ARRAY then
       if rr_elements r < 2 then Fault AssertFailed
       else
         cbind (cbind (element_at r 0) (obj_at w)) (\<lambda>e0.
         if rr_type e0 \<noteq> REDIS_REPLY_STRING then Fault AssertFailed
         else
           cbind (str_of e0) (\<lambda>stype.
           cbind (mem_read stype 0) (\<lambda>x.
           let pvariant = (c_tolower x = CHR ''p''); callbacks = (if pvariant then ac_patterns ac else ac_channels ac) in
           cbind (cbind (element_at r 1) (obj_at w)) (\<lambda>e1.
           if rr_type e1 \<noteq> REDIS_REPLY_STRING then Fault AssertFailed
           else
             cbind (str_of e1) (\<lambda>name.
             cderef (sdsnewlen (envs w 0 0) (Some name) (to_size (rr_len e1))) (\<lambda>sname.
             let w = tick w in
             cbind (dictFind callbackDict callbacks (sds_content sname)) (\<lambda>de.
               case de of
                 None \<Rightarrow> Ok (dstcb, ac, w)
               | Some (_, cb) \<Rightarrow>
                   cbind (c_strlen stype) (\<lambda>n.
                   if drop (if pvariant then 1 else 0) (take n stype) = ''unsubscribe'' then
                     cbind (dictDelete callbackDict callbacks (sds_content sname)) (\<lambda>(_, d, _).
                     let ac = (if pvariant then ac\<lparr>ac_patterns := d\<rparr> else ac\<lparr>ac_channels := d\<rparr>) in
                     cbind (cbind (element_at r 2) (obj_at w)) (\<lambda>e2.
                       if rr_type e2 \<noteq> REDIS_REPLY_INTEGER then Fault AssertFailed
                       else Ok (cb, if rr_integer e2 = 0 then clear_flag REDIS_SUBSCRIBED ac else ac, w)))
                   else Ok (cb, ac, w)))))))))
     else
       (case redisShiftCallback (ac_invalid ac) of
          (_, None, _) \<Rightarrow> Ok (dstcb, ac, w)
        | (_, Some cb, l) \<Rightarrow> Ok (cb, ac\<lparr>ac_invalid := l\<rparr>, w)))"

definition free_reply :: "redisAsyncContext \<Rightarrow> nat \<Rightarrow> astate \<Rightarrow> astate cres" where
  "free_reply ac reply s =
     (case c_reader (ac_c ac) of
        None \<Rightarrow> Fault NullDeref
      | Some r \<Rightarrow>
          (case fn_of freeObject r of
             None \<Rightarrow> Fault NullDeref
           | Some f \<Rightarrow> cbind (f reply (w_heap (s_w s))) (\<lambda>h. Ok (s\<lparr>s_w := (s_w s)\<lparr>w_heap := h\<rparr>\<rparr>))))"

text \<open>
  The callback for a reply: the head of the queue, or the one of a subscription. An error reply that
  nobody waits for is the error of the connection.
\<close>

definition choose_callback :: "redisAsyncContext \<Rightarrow> astate \<Rightarrow> nat \<Rightarrow> redisCallback \<Rightarrow>
    (redisAsyncContext + redisCallback \<times> redisAsyncContext \<times> astate) cres" where
  "choose_callback ac s reply cb =
     (case redisShiftCallback (ac_replies ac) of
        (_, Some cb, l) \<Rightarrow> Ok (Inr (cb, ac\<lparr>ac_replies := l\<rparr>, s))
      | (_, None, _) \<Rightarrow>
          cbind (obj_at (s_w s) reply) (\<lambda>r.
          if rr_type r = REDIS_REPLY_ERROR then
            cbind (str_of r) (\<lambda>str.
            cbind (redisSetError (s_w s) (ac_c ac) REDIS_ERR_OTHER (Some str)) (\<lambda>c. Ok (Inl (ac\<lparr>ac_c := c\<rparr>))))
          else if \<not> (has_flag REDIS_SUBSCRIBED ac \<or> has_flag REDIS_MONITORING ac) then Fault AssertFailed
          else if has_flag REDIS_SUBSCRIBED ac then
            cbind (redisGetSubscribeCallback ac (s_w s) reply cb) (\<lambda>(cb, ac, w). Ok (Inr (cb, ac, s\<lparr>s_w := w\<rparr>)))
          else Ok (Inr (cb, ac, s))))"

text \<open>
  What a round of \<^verbatim>\<open>redisProcessCallbacks\<close> does when the reader has no further reply, and what it does
  with a reply; \<open>again\<close> is the next round.
\<close>

definition no_reply :: "user \<Rightarrow> redisCallback \<Rightarrow> redisAsyncContext \<Rightarrow> astate \<Rightarrow> (redisAsyncContext option \<times> astate) cres" where
  "no_reply usr cb ac s =
     (if has_flag REDIS_DISCONNECTING ac \<and> c_obuf (ac_c ac) = None then Fault NullDeref
      else if has_flag REDIS_DISCONNECTING ac \<and> sdslen (the (c_obuf (ac_c ac))) = 0 \<and> ac_replies ac = []
      then cbind (async_disconnect usr ac s) (\<lambda>s. Ok (None, s))
      else if has_flag REDIS_MONITORING ac then (case push_reply cb ac s of (ac, s) \<Rightarrow> Ok (Some ac, s))
      else Ok (Some ac, s))"

definition serve_reply :: "user \<Rightarrow> (redisCallback \<Rightarrow> redisAsyncContext \<Rightarrow> astate \<Rightarrow> (redisAsyncContext option \<times> astate) cres) \<Rightarrow> nat \<Rightarrow>
    redisCallback \<Rightarrow> redisAsyncContext \<Rightarrow> astate \<Rightarrow> (redisAsyncContext option \<times> astate) cres" where
  "serve_reply usr again reply cb ac s =
     (if cb_fn cb \<noteq> None then
        cbind (redisRunCallback usr ac cb reply s) (\<lambda>(ac, s).
        cbind (free_reply ac reply s) (\<lambda>s.
        if has_flag REDIS_FREEING ac then cbind (async_free usr ac s) (\<lambda>s. Ok (None, s))
        else again cb ac s))
      else cbind (free_reply ac reply s) (\<lambda>s. again cb ac s))"

definition take_reply :: "user \<Rightarrow> (redisCallback \<Rightarrow> redisAsyncContext \<Rightarrow> astate \<Rightarrow> (redisAsyncContext option \<times> astate) cres) \<Rightarrow> nat \<Rightarrow>
    redisCallback \<Rightarrow> redisAsyncContext \<Rightarrow> astate \<Rightarrow> (redisAsyncContext option \<times> astate) cres" where
  "take_reply usr again reply cb ac s =
     cbind (choose_callback ac s reply cb) (\<lambda>x.
       case x of
         Inl ac \<Rightarrow> cbind (free_reply ac reply s) (\<lambda>s. cbind (async_disconnect usr ac s) (\<lambda>s. Ok (None, s)))
       | Inr (cb, ac, s) \<Rightarrow> serve_reply usr again reply cb ac s)"

text \<open>
  The loop of \<^verbatim>\<open>redisProcessCallbacks\<close>; \<open>cb\<close> is its variable of that name, which keeps its value from
  round to round. Every round takes a reply out of the buffer of the reader, so its size bounds
  the rounds.
\<close>

fun process_loop_cb :: "user \<Rightarrow> nat \<Rightarrow> redisCallback \<Rightarrow> redisAsyncContext \<Rightarrow> astate \<Rightarrow> (redisAsyncContext option \<times> astate) cres" where
  "process_loop_cb usr 0 cb ac s = Fault OutOfFuel"
| "process_loop_cb usr (Suc n) cb ac s =
     cbind (redisGetReply (ac_c ac) (s_w s)) (\<lambda>(status, reply, c, w).
     let ac = ac\<lparr>ac_c := c\<rparr>; s = s\<lparr>s_w := w\<rparr> in
     if status \<noteq> REDIS_OK then cbind (async_disconnect usr ac s) (\<lambda>s. Ok (None, s))
     else if reply = 0 then no_reply usr cb ac s
     else take_reply usr (process_loop_cb usr n) reply cb ac s)"

definition redisProcessCallbacks :: "user \<Rightarrow> redisAsyncContext \<Rightarrow> astate \<Rightarrow> (redisAsyncContext option \<times> astate) cres" where
  "redisProcessCallbacks usr ac s =
     process_loop_cb usr (Suc (case c_reader (ac_c ac) of None \<Rightarrow> 0 | Some r \<Rightarrow> Suc (r_len r)))
       \<lparr>cb_fn = None, cb_privdata = 0\<rparr> ac s"

section \<open>Events of the socket\<close>

definition redisAsyncHandleConnect :: "user \<Rightarrow> redisAsyncContext \<Rightarrow> astate \<Rightarrow> (int \<times> redisAsyncContext option \<times> astate) cres" where
  "redisAsyncHandleConnect usr ac s =
     cbind (redisCheckSocketError (ac_c ac) (s_w s)) (\<lambda>(res, c, w).
     let ac = ac\<lparr>ac_c := c\<rparr>; s = s\<lparr>s_w := w\<rparr> in
     if res = REDIS_ERR then
       if w_errno w = EINPROGRESS then Ok (REDIS_OK, Some ac, s)
       else
         cbind (async_disconnect usr ac (if ac_onConnect ac then emit (OnConnect REDIS_ERR) s else s)) (\<lambda>s. Ok (REDIS_ERR, None, s))
     else
       Ok (REDIS_OK, Some (set_flag REDIS_CONNECTED ac), if ac_onConnect ac then emit (OnConnect REDIS_OK) s else s))"

text \<open>The common start of both handlers: continue only when the connection is established.\<close>

definition when_connected :: "user \<Rightarrow> redisAsyncContext \<Rightarrow> astate \<Rightarrow>
    (redisAsyncContext \<Rightarrow> astate \<Rightarrow> (redisAsyncContext option \<times> astate) cres) \<Rightarrow> (redisAsyncContext option \<times> astate) cres" where
  "when_connected usr ac s k =
     (if \<not> has_flag REDIS_CONNECTED ac then
        cbind (redisAsyncHandleConnect usr ac s) (\<lambda>(res, p, s).
          case p of
            None \<Rightarrow> Ok (None, s)
          | Some ac \<Rightarrow> if res \<noteq> REDIS_OK \<or> \<not> has_flag REDIS_CONNECTED ac then Ok (Some ac, s) else k ac s)
      else k ac s)"

definition redisAsyncHandleRead :: "user \<Rightarrow> redisAsyncContext \<Rightarrow> astate \<Rightarrow> (redisAsyncContext option \<times> astate) cres" where
  "redisAsyncHandleRead usr ac s =
     when_connected usr ac s (\<lambda>ac s.
       cbind (redisBufferRead (ac_c ac) (s_w s)) (\<lambda>(res, c, w).
       let ac = ac\<lparr>ac_c := c\<rparr>; s = s\<lparr>s_w := w\<rparr> in
       if res = REDIS_ERR then cbind (async_disconnect usr ac s) (\<lambda>s. Ok (None, s))
       else redisProcessCallbacks usr ac (el AddRead ac s)))"

definition redisAsyncHandleWrite :: "user \<Rightarrow> redisAsyncContext \<Rightarrow> astate \<Rightarrow> (redisAsyncContext option \<times> astate) cres" where
  "redisAsyncHandleWrite usr ac s =
     when_connected usr ac s (\<lambda>ac s.
       cbind (redisBufferWrite (ac_c ac) (s_w s)) (\<lambda>(res, wdone, c, w).
       let ac = ac\<lparr>ac_c := c\<rparr>; s = s\<lparr>s_w := w\<rparr> in
       if res = REDIS_ERR then cbind (async_disconnect usr ac s) (\<lambda>s. Ok (None, s))
       else Ok (Some ac, el AddRead ac (el (if \<not> wdone then AddWrite else DelWrite) ac s))))"


section \<open>Flags\<close>

lemma has_set_flag [simp]:
  "has_flag REDIS_SUBSCRIBED (set_flag REDIS_IN_CALLBACK ac) = has_flag REDIS_SUBSCRIBED ac"
  "has_flag REDIS_SUBSCRIBED (set_flag REDIS_DISCONNECTING ac) = has_flag REDIS_SUBSCRIBED ac"
  "has_flag REDIS_SUBSCRIBED (set_flag REDIS_FREEING ac) = has_flag REDIS_SUBSCRIBED ac"
  "has_flag REDIS_SUBSCRIBED (set_flag REDIS_CONNECTED ac) = has_flag REDIS_SUBSCRIBED ac"
  "has_flag REDIS_MONITORING (set_flag REDIS_IN_CALLBACK ac) = has_flag REDIS_MONITORING ac"
  "has_flag REDIS_MONITORING (set_flag REDIS_DISCONNECTING ac) = has_flag REDIS_MONITORING ac"
  "has_flag REDIS_MONITORING (set_flag REDIS_FREEING ac) = has_flag REDIS_MONITORING ac"
  "has_flag REDIS_MONITORING (set_flag REDIS_CONNECTED ac) = has_flag REDIS_MONITORING ac"
  "has_flag REDIS_SUBSCRIBED (clear_flag REDIS_IN_CALLBACK ac) = has_flag REDIS_SUBSCRIBED ac"
  "has_flag REDIS_MONITORING (clear_flag REDIS_IN_CALLBACK ac) = has_flag REDIS_MONITORING ac"
  "has_flag REDIS_IN_CALLBACK (set_flag REDIS_FREEING ac) = has_flag REDIS_IN_CALLBACK ac"
  "has_flag REDIS_IN_CALLBACK (set_flag REDIS_DISCONNECTING ac) = has_flag REDIS_IN_CALLBACK ac"
  "has_flag REDIS_BLOCK (set_flag REDIS_IN_CALLBACK ac) = has_flag REDIS_BLOCK ac"
  "has_flag REDIS_BLOCK (set_flag REDIS_DISCONNECTING ac) = has_flag REDIS_BLOCK ac"
  "has_flag REDIS_BLOCK (set_flag REDIS_FREEING ac) = has_flag REDIS_BLOCK ac"
  "has_flag REDIS_BLOCK (set_flag REDIS_CONNECTED ac) = has_flag REDIS_BLOCK ac"
  "has_flag REDIS_BLOCK (clear_flag REDIS_IN_CALLBACK ac) = has_flag REDIS_BLOCK ac"
  by (simp_all add: has_flag_def set_flag_def clear_flag_def flag_consts bit.conj_disj_distrib2 and.assoc)

lemma set_flag_has [simp]: "f \<noteq> 0 \<Longrightarrow> has_flag f (set_flag f ac)"
proof -
  have "(x OR f) AND f = f" for x :: int by (rule bit_eqI) (auto simp: bit_simps)
  then show "f \<noteq> 0 \<Longrightarrow> has_flag f (set_flag f ac)" by (simp add: has_flag_def set_flag_def)
qed

lemma flag_fields [simp]:
  "ac_replies (set_flag f ac) = ac_replies ac" "ac_invalid (set_flag f ac) = ac_invalid ac"
  "ac_channels (set_flag f ac) = ac_channels ac" "ac_patterns (set_flag f ac) = ac_patterns ac"
  "c_reader (ac_c (set_flag f ac)) = c_reader (ac_c ac)" "c_obuf (ac_c (set_flag f ac)) = c_obuf (ac_c ac)"
  "ac_replies (clear_flag f ac) = ac_replies ac" "ac_invalid (clear_flag f ac) = ac_invalid ac"
  "ac_channels (clear_flag f ac) = ac_channels ac" "ac_patterns (clear_flag f ac) = ac_patterns ac"
  "c_reader (ac_c (clear_flag f ac)) = c_reader (ac_c ac)" "c_obuf (ac_c (clear_flag f ac)) = c_obuf (ac_c ac)"
  by (simp_all add: set_flag_def clear_flag_def)

text \<open>
  Inside a callback the two functions that end the connection only set their flag, which is what
  the calls of a callback do.
\<close>

lemma in_callback_flags:
  assumes "has_flag REDIS_IN_CALLBACK ac"
  shows "redisAsyncFree usr ac s = Ok (Some (set_flag REDIS_FREEING ac), s)"
    "redisAsyncDisconnect usr ac s = Ok (Some (set_flag REDIS_DISCONNECTING ac), s)"
  using assms by (simp_all add: redisAsyncFree_def redisAsyncDisconnect_def Let_def)

section \<open>What the log says\<close>

definition target :: "redisCallback \<Rightarrow> (nat \<times> nat) list" where
  "target cb = (case cb_fn cb of None \<Rightarrow> [] | Some f \<Rightarrow> [(f, cb_privdata cb)])"

definition queued :: "event list \<Rightarrow> (nat \<times> nat) list" where
  "queued l = concat (map (\<lambda>e. case e of Queued cb \<Rightarrow> target cb | _ \<Rightarrow> []) l)"

definition runs :: "event list \<Rightarrow> ((nat \<times> nat) \<times> resp option) list" where
  "runs l = concat (map (\<lambda>e. case e of Ran f pd _ v \<Rightarrow> [((f, pd), v)] | _ \<Rightarrow> []) l)"

lemma log_simps [simp]:
  "queued [] = []" "runs [] = []" "queued (l @ [Queued cb]) = queued l @ target cb" "queued (l @ [Ran f pd p v]) = queued l"
  "queued (l @ [Hook h]) = queued l" "queued (l @ [OnConnect i]) = queued l" "queued (l @ [OnDisconnect i]) = queued l"
  "runs (l @ [Queued cb]) = runs l" "runs (l @ [Ran f pd p v]) = runs l @ [((f, pd), v)]"
  "runs (l @ [Hook h]) = runs l" "runs (l @ [OnConnect i]) = runs l" "runs (l @ [OnDisconnect i]) = runs l"
  by (simp_all add: queued_def runs_def)

lemma emit_simps [simp]: "s_log (emit e s) = s_log s @ [e]" "s_w (emit e s) = s_w s"
  by (simp_all add: emit_def)

lemma el_simps [simp]: "queued (s_log (el h ac s)) = queued (s_log s)" "runs (s_log (el h ac s)) = runs (s_log s)" "s_w (el h ac s) = s_w s"
  by (simp_all add: el_def)

text \<open>A context without subscriptions, and a queue that holds exactly the callbacks that were queued and not run.\<close>

definition plain :: "redisAsyncContext \<Rightarrow> bool" where
  "plain ac \<longleftrightarrow> \<not> has_flag REDIS_SUBSCRIBED ac \<and> \<not> has_flag REDIS_MONITORING ac \<and> ac_invalid ac = [] \<and>
     ac_channels ac = dictReset \<and> ac_patterns ac = dictReset \<and> \<not> has_flag REDIS_BLOCK ac \<and> (\<forall>cb \<in> set (ac_replies ac). cb_fn cb \<noteq> None)"

definition queue_ok :: "redisAsyncContext \<Rightarrow> astate \<Rightarrow> bool" where
  "queue_ok ac s \<longleftrightarrow> queued (s_log s) = map fst (runs (s_log s)) @ concat (map target (ac_replies ac))"

text \<open>The part of the state that only reading from the socket changes.\<close>

definition input :: "redisAsyncContext \<Rightarrow> astate \<Rightarrow> _" where
  "input ac s = (c_reader (ac_c ac), w_heap (s_w s), w_reads (s_w s), w_env (s_w s))"

lemma plain_flags [simp]:
  "plain (set_flag REDIS_IN_CALLBACK ac) = plain ac" "plain (set_flag REDIS_DISCONNECTING ac) = plain ac"
  "plain (set_flag REDIS_FREEING ac) = plain ac" "plain (clear_flag REDIS_IN_CALLBACK ac) = plain ac"
  "plain (set_flag REDIS_CONNECTED ac) = plain ac"
  "queue_ok (set_flag f ac) s = queue_ok ac s" "queue_ok (clear_flag f ac) s = queue_ok ac s"
  "input (set_flag f ac) s = input ac s" "input (clear_flag f ac) s = input ac s"
  by (simp_all add: plain_def queue_ok_def input_def)

section \<open>Commands and callbacks keep the queue\<close>

definition act_ok :: "act \<Rightarrow> bool" where
  "act_ok a = (case a of Command cb cmd _ \<Rightarrow> cb_fn cb \<noteq> None \<and> command_kind cmd = Ok Regular | _ \<Rightarrow> True)"

definition user_ok :: "user \<Rightarrow> bool" where
  "user_ok usr \<longleftrightarrow> (\<forall>l f pd v. list_all act_ok (usr l f pd v))"

definition calm :: "redisAsyncContext \<Rightarrow> astate \<Rightarrow> redisAsyncContext \<Rightarrow> astate \<Rightarrow> bool" where
  "calm ac s ac' s' \<longleftrightarrow> plain ac' \<and> input ac' s' = input ac s \<and> runs (s_log s') = runs (s_log s)"

lemma append_cmd_frame: "post (append_cmd c w t n) (\<lambda>(res, c', w'). c_reader c' = c_reader c \<and> c_flags c' = c_flags c \<and>
    w_heap w' = w_heap w \<and> w_reads w' = w_reads w \<and> w_env w' = w_env w)"
  by (auto simp: post_def append_cmd_def Let_def split: option.splits dest: set_error_frame)

lemma append_async_post:
  assumes "plain ac" "queue_ok ac s"
  shows "post (append_async cmd len ac s) (\<lambda>(res, ac', s'). calm ac s ac' s' \<and> queue_ok ac' s')"
  unfolding append_async_def
  by (rule post_bind [OF append_cmd_frame]) (use assms in \<open>auto simp: calm_def plain_def queue_ok_def input_def has_flag_def Let_def\<close>)

lemma push_reply_calm:
  assumes "plain ac" "queue_ok ac s" "cb_fn cb \<noteq> None" "push_reply cb ac s = (ac', s')"
  shows "calm ac s ac' s' \<and> queue_ok ac' s'"
  using assms by (auto simp: push_reply_def redisPushCallback_def calm_def plain_def queue_ok_def input_def has_flag_def redis_consts split: if_splits)

lemma async_cmd_post:
  assumes "plain ac" "queue_ok ac s" "cb_fn cb \<noteq> None" "command_kind cmd = Ok Regular"
  shows "post (async_cmd ac s cb cmd len) (\<lambda>(res, ac', s'). calm ac s ac' s' \<and> queue_ok ac' s')"
proof -
  obtain ac1 s1 where p: "push_reply cb ac s = (ac1, s1)" by (cases "push_reply cb ac s")
  note c = push_reply_calm [OF assms(1-3) p]
  have "post (append_async cmd len ac1 s1) (\<lambda>(res, ac', s'). calm ac s ac' s' \<and> queue_ok ac' s')"
    by (rule post_weaken [OF append_async_post]) (use c in \<open>auto simp: calm_def\<close>)
  then show ?thesis using assms p by (auto simp: async_cmd_def plain_def calm_def)
qed

lemma do_acts_post:
  "list_all act_ok acts \<Longrightarrow> plain ac \<Longrightarrow> queue_ok ac s \<Longrightarrow>
   post (do_acts acts ac s) (\<lambda>(ac', s'). calm ac s ac' s' \<and> queue_ok ac' s')"
proof (induction acts arbitrary: ac s)
  case Nil
  then show ?case by (simp add: calm_def)
next
  case (Cons a acts)
  have ih: "post (do_acts acts ac1 s1) (\<lambda>(ac', s'). calm ac s ac' s' \<and> queue_ok ac' s')" if "calm ac s ac1 s1" "queue_ok ac1 s1" for ac1 s1
    by (rule post_weaken [OF Cons.IH]) (use that Cons.prems in \<open>auto simp: calm_def\<close>)
  show ?case
  proof (cases a)
    case (Command cb cmd len)
    have "cb_fn cb \<noteq> None" "command_kind cmd = Ok Regular" using Cons.prems(1) Command by (auto simp: act_ok_def)
    from async_cmd_post [OF Cons.prems(2,3) this] show ?thesis
      unfolding Command do_acts.simps redisAsyncFormattedCommand_def by (rule post_bind) (use ih in auto)
  qed (use Cons.prems ih in \<open>auto simp: calm_def\<close>)
qed

text \<open>Running the callback at the head of the queue.\<close>

lemma redisRunCallback_post:
  assumes "user_ok usr" "plain ac" "cb_fn cb = Some f"
    "queued (s_log s) = map fst (runs (s_log s)) @ target cb @ concat (map target (ac_replies ac))"
  shows "post (redisRunCallback usr ac cb reply s) (\<lambda>(ac', s'). plain ac' \<and> queue_ok ac' s' \<and> input ac' s' = input ac s \<and>
    runs (s_log s') = runs (s_log s) @ [((f, cb_privdata cb), if reply = 0 then None else reply_value 9 (hp_objs (w_heap (s_w s))) reply)])"
proof -
  let ?v = "if reply = 0 then None else reply_value 9 (hp_objs (w_heap (s_w s))) reply"
  let ?s = "emit (Ran f (cb_privdata cb) reply ?v) s" and ?ac = "set_flag REDIS_IN_CALLBACK ac"
  have "queue_ok ?ac ?s" using assms(3,4) by (simp add: queue_ok_def target_def)
  moreover have "list_all act_ok (usr l f pd v)" for l pd v using assms(1) by (simp add: user_ok_def)
  ultimately have "post (do_acts (usr (s_log s) f (cb_privdata cb) ?v) ?ac ?s) (\<lambda>(ac', s'). calm ?ac ?s ac' s' \<and> queue_ok ac' s')"
    using assms(2) by (intro do_acts_post) simp_all
  then show ?thesis unfolding redisRunCallback_def assms(3) option.case Let_def
    by (rule post_bind) (auto simp: calm_def input_def)
qed


section \<open>No callback is lost\<close>

text \<open>The queue agrees with the log; and nothing waits any more, which is what freeing the context leaves.\<close>

definition aok :: "redisAsyncContext \<Rightarrow> astate \<Rightarrow> bool" where
  "aok ac s \<longleftrightarrow> plain ac \<and> queue_ok ac s"

definition settled :: "astate \<Rightarrow> bool" where
  "settled s \<longleftrightarrow> queued (s_log s) = map fst (runs (s_log s))"

definition apost :: "redisAsyncContext option \<times> astate \<Rightarrow> bool" where
  "apost = (\<lambda>(p, s). case p of None \<Rightarrow> settled s | Some ac \<Rightarrow> aok ac s)"

lemma apost_simps [simp]: "apost (None, s) = settled s" "apost (Some ac, s) = aok ac s"
  by (simp_all add: apost_def)

lemma aok_world [simp]: "aok ac (s\<lparr>s_w := w\<rparr>) = aok ac s" "settled (s\<lparr>s_w := w\<rparr>) = settled s"
  by (simp_all add: aok_def queue_ok_def settled_def)

lemma aok_el [simp]: "aok ac (el h ac' s) = aok ac s" "settled (el h ac' s) = settled s"
  by (simp_all add: aok_def queue_ok_def settled_def)

lemma aok_flags [simp]:
  "aok (set_flag REDIS_DISCONNECTING ac) s = aok ac s" "aok (set_flag REDIS_FREEING ac) s = aok ac s"
  "aok (set_flag REDIS_CONNECTED ac) s = aok ac s"
  by (simp_all add: aok_def)

lemma aok_emit [simp]: "aok ac (emit (OnConnect i) s) = aok ac s" "settled (emit (OnDisconnect i) s) = settled s"
  by (simp_all add: aok_def queue_ok_def settled_def)

lemma aok_context: "c_flags c = c_flags (ac_c ac) \<Longrightarrow> aok (ac\<lparr>ac_c := c\<rparr>) s = aok ac s"
  by (simp add: aok_def plain_def queue_ok_def has_flag_def)

lemma aok_shift: "aok ac s \<Longrightarrow> ac_replies ac = cb # l \<Longrightarrow>
    plain (ac\<lparr>ac_replies := l\<rparr>) \<and> (\<exists>f. cb_fn cb = Some f) \<and>
    queued (s_log s) = map fst (runs (s_log s)) @ target cb @ concat (map target (ac_replies (ac\<lparr>ac_replies := l\<rparr>)))"
  by (auto simp: aok_def plain_def queue_ok_def has_flag_def)

lemma run_head_post:
  assumes "user_ok usr" "aok ac s" "ac_replies ac = cb # l"
  shows "post (redisRunCallback usr (ac\<lparr>ac_replies := l\<rparr>) cb reply s) (\<lambda>(ac', s'). aok ac' s')"
proof -
  obtain f where f: "cb_fn cb = Some f" using aok_shift [OF assms(2,3)] by blast
  show ?thesis
    by (rule post_weaken [OF redisRunCallback_post [OF assms(1) _ f]]) (use aok_shift [OF assms(2,3)] in \<open>auto simp: aok_def\<close>)
qed

lemma run_replies_post:
  "user_ok usr \<Longrightarrow> aok ac s \<Longrightarrow> post (run_replies usr n ac s) (\<lambda>(ac', s'). aok ac' s' \<and> ac_replies ac' = [])"
proof (induction n arbitrary: ac s)
  case (Suc n)
  show ?case
  proof (cases "ac_replies ac")
    case Nil
    then show ?thesis using Suc.prems by (simp add: redisShiftCallback_def)
  next
    case (Cons cb l)
    have "post (cbind (redisRunCallback usr (ac\<lparr>ac_replies := l\<rparr>) cb 0 s) (\<lambda>(ac, s). run_replies usr n ac s))
        (\<lambda>(ac', s'). aok ac' s' \<and> ac_replies ac' = [])"
      by (rule post_bind [OF run_head_post [OF Suc.prems Cons]]) (use Suc in auto)
    then show ?thesis using Cons by (simp add: redisShiftCallback_def)
  qed
qed simp

lemma next_empty: "dictGetIterator e = Ok it \<Longrightarrow> \<exists>it'. dictNext dictReset it = Ok (None, it')"
  by (auto simp: dictGetIterator_def dictNext.simps dictReset_def split: if_splits)

lemma async_free_post:
  assumes "user_ok usr" "aok ac s"
  shows "post (async_free usr ac s) settled"
  unfolding async_free_def
proof (rule post_bind [OF run_replies_post [OF assms]], clarify)
  fix ac s
  assume a: "aok ac s" "ac_replies ac = []"
  then have e: "ac_invalid ac = []" "ac_channels ac = dictReset" "ac_patterns ac = dictReset" "settled s"
    by (auto simp: aok_def plain_def settled_def queue_ok_def)
  have sub: "run_subs usr pat (Suc n) it ac s' = Ok (ac, s')" if "dictGetIterator d = Ok it" for pat n it s' d
    using next_empty [OF that] e by auto
  have fr: "post (cbind (redisFree p w) (\<lambda>w. Ok (s'\<lparr>s_w := w\<rparr>))) settled" if "settled s'" for p w s'
    using that by (cases "redisFree p w") auto
  show "post (cbind (run_invalid usr (Suc (length (ac_invalid ac))) ac s) (\<lambda>(ac, s).
     let es = envs (s_w s) 0; s = s\<lparr>s_w := tick (s_w s)\<rparr> in
     cbind (dictGetIterator (es 0)) (\<lambda>it.
     cbind (run_subs usr False (Suc (dt_used (ac_channels ac))) it ac s) (\<lambda>(ac, s).
     cbind (dictGetIterator (es 1)) (\<lambda>it.
     cbind (run_subs usr True (Suc (dt_used (ac_patterns ac))) it ac s) (\<lambda>(ac, s).
     let s = el CleanUp ac s;
         s = (if ac_onDisconnect ac \<and> has_flag REDIS_CONNECTED ac
              then emit (OnDisconnect (if has_flag REDIS_FREEING ac then REDIS_OK else if ac_err ac = 0 then REDIS_OK else REDIS_ERR)) s
              else s)
     in cbind (redisFree (Some (ac_c ac)) (s_w s)) (\<lambda>w. Ok (s\<lparr>s_w := w\<rparr>)))))))) settled"
    using e sub fr
    by (cases "dictGetIterator (envs (s_w s) 0 0) :: (string, redisCallback) dictIterator cres";
        cases "dictGetIterator (envs (s_w s) 0 (Suc 0)) :: (string, redisCallback) dictIterator cres")
      (auto simp: redisShiftCallback_def Let_def simp del: run_subs.simps)
qed

lemma async_disconnect_post:
  assumes "user_ok usr" "aok ac s"
  shows "post (async_disconnect usr ac s) settled"
proof -
  have "aok (redisAsyncCopyError ac) s" using assms(2) by (simp add: redisAsyncCopyError_def aok_def plain_def queue_ok_def has_flag_def)
  then show ?thesis using async_free_post [OF assms(1)] by (simp add: async_disconnect_def Let_def)
qed

lemma ended_post: "post m settled \<Longrightarrow> post (cbind m (\<lambda>s. Ok (None, s))) apost"
  by (erule post_bind) simp


lemma redisGetReply_nonblocking:
  assumes "\<not> blocking c"
  shows "post (redisGetReply c w) (\<lambda>(st, p, c', w'). same_out c w c' w')"
proof -
  have "post (redisGetReplyFromReader c w) (\<lambda>(st, p, c', w'). same_out c w c' w')"
    by (auto simp: post_def dest: fromReader_out)
  then show ?thesis unfolding redisGetReply_def
    by (rule post_bind) (use assms in \<open>auto simp: same_out_def blocking_def\<close>)
qed

lemma plain_nonblocking: "plain ac \<Longrightarrow> \<not> blocking (ac_c ac)"
  by (simp add: plain_def has_flag_def blocking_def)

lemma free_reply_post: "post (free_reply ac reply s) (\<lambda>s'. s_log s' = s_log s)"
  by (auto simp: post_def free_reply_def split: option.splits)

lemma aok_log: "s_log s' = s_log s \<Longrightarrow> aok ac s \<Longrightarrow> aok ac s'"
  by (simp add: aok_def queue_ok_def)

lemma choose_post:
  assumes "aok ac s"
  shows "post (choose_callback ac s reply cb0) (\<lambda>x. case x of
      Inl ac' \<Rightarrow> aok ac' s
    | Inr (cb, ac', s') \<Rightarrow> \<exists>l. ac_replies ac = cb # l \<and> ac' = ac\<lparr>ac_replies := l\<rparr> \<and> s' = s)"
proof (cases "ac_replies ac")
  case Nil
  have np: "\<not> has_flag REDIS_SUBSCRIBED ac" "\<not> has_flag REDIS_MONITORING ac" using assms by (auto simp: aok_def plain_def)
  have er: "post (cbind (str_of r) (\<lambda>str. cbind (redisSetError (s_w s) (ac_c ac) REDIS_ERR_OTHER (Some str)) (\<lambda>c. Ok (Inl (ac\<lparr>ac_c := c\<rparr>)))))
      (\<lambda>x. case x of Inl ac' \<Rightarrow> aok ac' s | Inr y \<Rightarrow> Q y)" for r Q
    by (rule post_bind [of _ "\<lambda>_. True"], simp add: post_def, rule post_bind [OF setError_post])
      (use assms in \<open>simp add: kept_def aok_context\<close>)
  show ?thesis unfolding choose_callback_def Nil redisShiftCallback_def list.case prod.case option.case
    by (rule post_bind [of _ "\<lambda>_. True"]) (simp_all add: post_def [of "obj_at _ _"] np er)
qed (simp add: choose_callback_def redisShiftCallback_def)

lemma serve_post:
  assumes "user_ok usr" "aok ac s" "ac_replies ac = cb # l" "\<And>cb ac s. aok ac s \<Longrightarrow> post (again cb ac s) apost"
  shows "post (serve_reply usr again reply cb (ac\<lparr>ac_replies := l\<rparr>) s) apost"
proof -
  have fr: "post (cbind (free_reply ac reply s) (\<lambda>s.
      if has_flag REDIS_FREEING ac then cbind (async_free usr ac s) (\<lambda>s. Ok (None, s)) else again cb ac s)) apost" if "aok ac s" for ac s
    by (rule post_bind [OF free_reply_post], drule aok_log [OF _ that])
      (use assms(4) ended_post [OF async_free_post [OF assms(1)]] in simp)
  have "cb_fn cb \<noteq> None" using aok_shift [OF assms(2,3)] by auto
  then show ?thesis unfolding serve_reply_def
    by (simp, intro post_bind [OF run_head_post [OF assms(1-3)]]) (use fr in auto)
qed

lemma take_post:
  assumes "user_ok usr" "aok ac s" "\<And>cb ac s. aok ac s \<Longrightarrow> post (again cb ac s) apost"
  shows "post (take_reply usr again reply cb ac s) apost"
  unfolding take_reply_def
proof (rule post_bind [OF choose_post [OF assms(2)]])
  fix x
  assume x: "case x of Inl ac' \<Rightarrow> aok ac' s | Inr (cb, ac', s') \<Rightarrow> \<exists>l. ac_replies ac = cb # l \<and> ac' = ac\<lparr>ac_replies := l\<rparr> \<and> s' = s"
  have "post (cbind (free_reply ac' reply s) (\<lambda>s. cbind (async_disconnect usr ac' s) (\<lambda>s. Ok (None, s)))) apost" if "aok ac' s" for ac'
    by (rule post_bind [OF free_reply_post], rule ended_post, rule async_disconnect_post [OF assms(1)], erule aok_log [OF _ that])
  then show "post (case x of
       Inl ac \<Rightarrow> cbind (free_reply ac reply s) (\<lambda>s. cbind (async_disconnect usr ac s) (\<lambda>s. Ok (None, s)))
     | Inr (cb, ac, s) \<Rightarrow> serve_reply usr again reply cb ac s) apost"
    using x serve_post [OF assms(1,2) _ assms(3)] by (cases x) auto
qed

lemma process_loop_post:
  assumes "user_ok usr"
  shows "aok ac s \<Longrightarrow> post (process_loop_cb usr n cb ac s) apost"
proof (induction n arbitrary: ac s cb)
  case (Suc n)
  have nb: "\<not> blocking (ac_c ac)" using Suc.prems by (simp add: aok_def plain_nonblocking)
  show ?case unfolding process_loop_cb.simps
  proof (rule post_bind [OF redisGetReply_nonblocking [OF nb]], clarify)
    fix st reply c w
    assume "same_out (ac_c ac) (s_w s) c w"
    then have a: "aok (ac\<lparr>ac_c := c\<rparr>) (s\<lparr>s_w := w\<rparr>)" using Suc.prems by (simp add: same_out_def aok_context)
    then have nm: "\<not> has_flag REDIS_MONITORING (ac\<lparr>ac_c := c\<rparr>)" by (simp add: aok_def plain_def)
    note e = ended_post [OF async_disconnect_post [OF assms a]]
    have "post (no_reply usr cb (ac\<lparr>ac_c := c\<rparr>) (s\<lparr>s_w := w\<rparr>)) apost" using e nm a by (simp add: no_reply_def)
    moreover have "post (take_reply usr (process_loop_cb usr n) reply cb (ac\<lparr>ac_c := c\<rparr>) (s\<lparr>s_w := w\<rparr>)) apost"
      by (rule take_post [OF assms a Suc.IH])
    ultimately show "post (let ac = ac\<lparr>ac_c := c\<rparr>; s = s\<lparr>s_w := w\<rparr> in
       if st \<noteq> REDIS_OK then cbind (async_disconnect usr ac s) (\<lambda>s. Ok (None, s))
       else if reply = 0 then no_reply usr cb ac s
       else take_reply usr (process_loop_cb usr n) reply cb ac s) apost"
      using e by (simp add: Let_def)
  qed
qed simp


text \<open>The calls of the program and the events of the loop, in any order, until the context is freed.\<close>

datatype request = Issue redisCallback mem nat | Readable | Writable | Close | Release

fun handle :: "user \<Rightarrow> request \<Rightarrow> redisAsyncContext \<Rightarrow> astate \<Rightarrow> (redisAsyncContext option \<times> astate) cres" where
  "handle usr (Issue cb cmd len) ac s = cbind (redisAsyncFormattedCommand ac s cb cmd len) (\<lambda>(_, ac, s). Ok (Some ac, s))"
| "handle usr Readable ac s = redisAsyncHandleRead usr ac s"
| "handle usr Writable ac s = redisAsyncHandleWrite usr ac s"
| "handle usr Close ac s = redisAsyncDisconnect usr ac s"
| "handle usr Release ac s = redisAsyncFree usr ac s"

fun session :: "user \<Rightarrow> request list \<Rightarrow> redisAsyncContext \<Rightarrow> astate \<Rightarrow> (redisAsyncContext option \<times> astate) cres" where
  "session usr [] ac s = Ok (Some ac, s)"
| "session usr (x # xs) ac s =
     cbind (handle usr x ac s) (\<lambda>(p, s). case p of None \<Rightarrow> Ok (None, s) | Some ac \<Rightarrow> session usr xs ac s)"

definition request_ok :: "request \<Rightarrow> bool" where
  "request_ok x = (case x of Issue cb cmd _ \<Rightarrow> cb_fn cb \<noteq> None \<and> command_kind cmd = Ok Regular | _ \<Rightarrow> True)"

lemma handleConnect_post:
  assumes "user_ok usr" "aok ac s"
  shows "post (redisAsyncHandleConnect usr ac s) (\<lambda>(res, p, s). apost (p, s))"
proof -
  have "post (redisCheckSocketError (ac_c ac) (s_w s)) (step_post (ac_c ac) (s_w s) (w_mode (s_w s)))"
    by (rule checkSocket_post) simp_all
  then have c: "post (redisCheckSocketError (ac_c ac) (s_w s)) (\<lambda>(res, c, w). c_flags c = c_flags (ac_c ac))"
    by (rule post_weaken) (auto simp: step_post_def ok_post_def fail_post_def kept_def split: if_splits)
  have dis: "post (cbind (async_disconnect usr ac s) (\<lambda>s. Ok (REDIS_ERR, None, s))) (\<lambda>(res, p, s). apost (p, s))" if "aok ac s" for ac s
    by (rule post_bind [OF async_disconnect_post [OF assms(1) that]]) simp
  show ?thesis unfolding redisAsyncHandleConnect_def
    by (rule post_bind [OF c]) (use assms(2) dis in \<open>auto simp: Let_def aok_context\<close>)
qed

lemma when_connected_post:
  assumes "user_ok usr" "aok ac s" "\<And>ac s. aok ac s \<Longrightarrow> post (k ac s) apost"
  shows "post (when_connected usr ac s k) apost"
proof -
  have "post (cbind (redisAsyncHandleConnect usr ac s) (\<lambda>(res, p, s). case p of
        None \<Rightarrow> Ok (None, s)
      | Some ac \<Rightarrow> if res \<noteq> REDIS_OK \<or> \<not> has_flag REDIS_CONNECTED ac then Ok (Some ac, s) else k ac s)) apost"
    by (rule post_bind [OF handleConnect_post [OF assms(1,2)]]) (use assms(3) in \<open>auto split: option.splits\<close>)
  then show ?thesis using assms(2,3) by (simp add: when_connected_def)
qed

lemma handleRead_post:
  assumes "user_ok usr" "aok ac s"
  shows "post (redisAsyncHandleRead usr ac s) apost"
  unfolding redisAsyncHandleRead_def
proof (rule when_connected_post [OF assms])
  fix ac s
  assume a: "aok ac s"
  have r: "post (redisBufferRead (ac_c ac) (s_w s)) (\<lambda>(res, c, w). c_flags c = c_flags (ac_c ac))"
    by (auto simp: post_def same_out_def dest: redisBufferRead_out)
  show "post (cbind (redisBufferRead (ac_c ac) (s_w s)) (\<lambda>(res, c, w).
      let ac = ac\<lparr>ac_c := c\<rparr>; s = s\<lparr>s_w := w\<rparr> in
      if res = REDIS_ERR then cbind (async_disconnect usr ac s) (\<lambda>s. Ok (None, s))
      else redisProcessCallbacks usr ac (el AddRead ac s))) apost"
    by (rule post_bind [OF r])
      (use a in \<open>auto simp: Let_def aok_context redisProcessCallbacks_def
        intro!: ended_post async_disconnect_post [OF assms(1)] process_loop_post [OF assms(1)] simp del: process_loop_cb.simps\<close>)
qed

lemma post_any: "(\<And>x. post (f x) P) \<Longrightarrow> post (cbind m f) P"
  by (rule post_bind [of _ "\<lambda>_. True"]) (simp_all add: post_def [of m])

lemma set_error_flags: "post (set_error w c ty str) (\<lambda>(res, c', w'). c_flags c' = c_flags c)"
  by (auto simp: post_def dest: set_error_frame(5))

lemma bufferWrite_flags: "post (redisBufferWrite c w) (\<lambda>(res, d, c', w'). c_flags c' = c_flags c)"
proof (cases "c_obuf c")
  case (Some b)
  have "post (redisBufferWrite c w) (\<lambda>(res, d, c', w'). c_flags c' = c_flags c)" if "c_err c = 0"
    unfolding redisBufferWrite_def Some option.case
    by (subst if_not_P, simp add: that, rule post_bind [of _ "\<lambda>(res, c', w'). c_flags c' = c_flags c"])
      (auto simp: set_error_flags Let_def split: sum.splits option.splits intro!: post_any)
  then show ?thesis by (cases "c_err c = 0") (simp_all add: redisBufferWrite_def)
qed (simp add: redisBufferWrite_def)

lemma handleWrite_post:
  assumes "user_ok usr" "aok ac s"
  shows "post (redisAsyncHandleWrite usr ac s) apost"
  unfolding redisAsyncHandleWrite_def
proof (rule when_connected_post [OF assms])
  fix ac s
  assume a: "aok ac s"
  show "post (cbind (redisBufferWrite (ac_c ac) (s_w s)) (\<lambda>(res, wdone, c, w).
      let ac = ac\<lparr>ac_c := c\<rparr>; s = s\<lparr>s_w := w\<rparr> in
      if res = REDIS_ERR then cbind (async_disconnect usr ac s) (\<lambda>s. Ok (None, s))
      else Ok (Some ac, el AddRead ac (el (if \<not> wdone then AddWrite else DelWrite) ac s)))) apost"
    by (rule post_bind [OF bufferWrite_flags])
      (use a in \<open>auto simp: Let_def aok_context intro!: ended_post async_disconnect_post [OF assms(1)]\<close>)
qed

lemma handle_post:
  assumes "user_ok usr" "aok ac s" "request_ok x"
  shows "post (handle usr x ac s) apost"
proof (cases x)
  case (Issue cb cmd len)
  have "post (async_cmd ac s cb cmd len) (\<lambda>(res, ac', s'). calm ac s ac' s' \<and> queue_ok ac' s')"
    by (rule async_cmd_post) (use assms(2,3) Issue in \<open>auto simp: aok_def request_ok_def\<close>)
  then show ?thesis unfolding Issue handle.simps redisAsyncFormattedCommand_def
    by (rule post_bind) (auto simp: calm_def aok_def)
next
  case Close
  then show ?thesis using ended_post [OF async_disconnect_post [OF assms(1)], of "set_flag REDIS_DISCONNECTING ac" s] assms(2)
    by (simp add: redisAsyncDisconnect_def Let_def)
next
  case Release
  then show ?thesis using ended_post [OF async_free_post [OF assms(1)], of "set_flag REDIS_FREEING ac" s] assms(2)
    by (simp add: redisAsyncFree_def Let_def)
qed (use assms handleRead_post handleWrite_post in simp_all)

lemma session_post:
  "user_ok usr \<Longrightarrow> aok ac s \<Longrightarrow> list_all request_ok xs \<Longrightarrow> post (session usr xs ac s) apost"
proof (induction xs arbitrary: ac s)
  case (Cons x xs)
  show ?case unfolding session.simps
    by (rule post_bind [OF handle_post [OF Cons.prems(1,2)]]) (use Cons in \<open>auto split: option.splits\<close>)
qed simp


section \<open>A new context\<close>

lemma redisAsyncInitialize_fresh:
  assumes "redisAsyncInitialize c w = Ok (Some ac, w')"
  shows "ac_c ac = c\<lparr>c_flags := c_flags c AND NOT REDIS_CONNECTED\<rparr>" "ac_replies ac = []" "ac_invalid ac = []"
    "ac_channels ac = dictReset" "ac_patterns ac = dictReset"
  using assms by (auto simp: redisAsyncInitialize_def dictCreate_def Let_def split: if_splits)

lemma redisAsyncConnect_fresh:
  assumes "redisAsyncConnect ip port w0 = Ok (Some ac, w)"
  shows "c_flags (ac_c ac) = 0" "ac_replies ac = []" "ac_invalid ac = []" "ac_channels ac = dictReset" "ac_patterns ac = dictReset"
    "out_ok (ac_c ac)" "pending (ac_c ac) = []" "c_err (ac_c ac) = ac_err ac" "aok ac \<lparr>s_w = w, s_log = []\<rparr>"
    "\<exists>r e. c_reader (ac_c ac) = Some r \<and> redisReaderCreate e = Ok r"
proof -
  obtain c w1 where c: "redisConnectNonBlock ip port w0 = Ok (Some c, w1)"
    and x: "cbind (redisAsyncInitialize c w1) (\<lambda>(ac, w). case ac of
        None \<Rightarrow> cbind (redisFree (Some c) w) (\<lambda>w. Ok (None, w)) | Some ac \<Rightarrow> Ok (Some (redisAsyncCopyError ac), w)) = Ok (Some ac, w)"
    using assms unfolding redisAsyncConnect_def async_of_def
    by (cases "redisConnectNonBlock ip port w0") (auto split: option.splits)
  obtain ac1 where a: "redisAsyncInitialize c w1 = Ok (Some ac1, w)" "ac = redisAsyncCopyError ac1"
    using x by (cases "redisAsyncInitialize c w1") (auto split: option.splits)
  note f = redisAsyncInitialize_fresh [OF a(1)]
  show q: "ac_replies ac = []" "ac_invalid ac = []" "ac_channels ac = dictReset" "ac_patterns ac = dictReset" "c_err (ac_c ac) = ac_err ac"
    using f a(2) by (simp_all add: redisAsyncCopyError_def)
  have ac: "ac_c ac = c\<lparr>c_flags := c_flags c AND NOT REDIS_CONNECTED\<rparr>" using f(1) a(2) by (simp add: redisAsyncCopyError_def)
  obtain c0 w2 res where i: "redisContextInit w0 = Ok (Some c0, w2)"
    "tcp_connect False (c0\<lparr>c_flags := c_flags c0 AND NOT REDIS_BLOCK\<rparr>) w2 (Some ip) port None None = Ok (res, c, w1)"
    using c by (auto simp: redisConnectNonBlock_def connect_with_def redisContextConnectTcp_def split: option.splits if_splits)
  obtain ob rd where z: "sdsempty (envs w0 0 1) = Ok ob" "redisReaderCreate (envs w0 0 2) = Ok rd"
    "c_obuf c0 = Some ob" "c_reader c0 = Some rd" "c_flags c0 = 0"
    using i(1) by (auto simp: redisContextInit_def Let_def elim!: nullable.elims split: if_splits)
  have "c_flags (c0\<lparr>c_flags := c_flags c0 AND NOT REDIS_BLOCK\<rparr>) AND REDIS_REUSEADDR = 0" using z(5) by simp
  from postD [OF tcp_connect_post [OF this] i(2)]
  have k: "c_obuf c = Some ob" "c_reader c = Some rd" "c_flags c = 0 OR REDIS_CONNECTED \<or> c_flags c = 0"
    using z by (auto simp: attempt_post_def split: if_splits)
  show fl: "c_flags (ac_c ac) = 0" using k(3) ac by (auto simp: REDIS_CONNECTED_def)
  have "sds_wf ob \<and> sds_content ob = []" using sdsempty_spec [of "envs w0 0 1"] z(1) by simp
  then show "out_ok (ac_c ac)" "pending (ac_c ac) = []" using k ac by (simp_all add: out_ok_def pending_def)
  show "aok ac \<lparr>s_w = w, s_log = []\<rparr>" using fl q by (simp add: aok_def plain_def queue_ok_def has_flag_def)
  show "\<exists>r e. c_reader (ac_c ac) = Some r \<and> redisReaderCreate e = Ok r" using z k ac by auto
qed

end
