(* ===== verification/Async_Delivery.thy ===== *)
theory Async_Delivery
  imports Async
begin

text \<open>
  What the asynchronous client of \<^verbatim>\<open>src/win/hiredis/async.c\<close> promises: callbacks run in the order in
  which they were queued and none is lost, and against a server that answers, every handler
  returns and hands the replies to the callbacks one by one. The proofs follow one round of
  \<^verbatim>\<open>redisProcessCallbacks\<close>: the reader waits for a known list of replies (\<open>expects\<close>), the context
  can go on (\<open>flowing\<close>), and every round either delivers the next reply or ends the loop.
\<close>


unbundle bit_operations_syntax

section \<open>The replies the reader waits for\<close>

definition replies_ok :: "resp list \<Rightarrow> bool" where
  "replies_ok us \<longleftrightarrow> (\<forall>v \<in> set us. resp_ok v \<and> lines_fit v \<and> depth v \<le> 8)"

text \<open>The reader is between two replies, and the bytes it holds and those to come are these replies.\<close>

definition between :: "heap redisReader \<Rightarrow> string \<Rightarrow> resp list \<Rightarrow> heap \<Rightarrow> bool" where
  "between r u us h \<longleftrightarrow> idle (start (core r)) (Some defaultFunctions) 0 \<and> r_reply r = 0 \<and> rest_of r @ u = concat (map encode us) \<and> heap_ok h"

text \<open>A reply as the reader hands it out.\<close>

definition built :: "heap \<Rightarrow> nat \<Rightarrow> resp \<Rightarrow> bool" where
  "built h p v \<longleftrightarrow> heap_ok h \<and> 0 < p \<and> p + objects v \<le> hp_next h \<and> laid_out (hp_objs h) p v"

definition expects :: "heap redisReader \<Rightarrow> string \<Rightarrow> resp list \<Rightarrow> heap \<Rightarrow> bool" where
  "expects r u us h = (case us of
      [] \<Rightarrow> between r u [] h
    | v # us' \<Rightarrow> \<exists>p k h'. a_get (start (core r)) (rest_of r @ u) h = Ok (REDIS_OK, p, k, concat (map encode us'), h') \<and>
        idle k (Some defaultFunctions) 0 \<and> built h' p v)"

lemma between_expects:
  assumes "between r u us h" "replies_ok us"
  shows "expects r u us h"
proof (cases us)
  case (Cons v us')
  have v: "resp_ok v" "depth v \<le> 8" "heap_ok h" "idle (start (core r)) (Some defaultFunctions) 0"
    using assms Cons by (auto simp: replies_ok_def between_def)
  obtain p h' where b: "build (Some defaultFunctions) 0 None (- 1) v h = Ok (p, h')" "built h' p v"
    using heap_replies.build_law [OF v(3,1), of 0] by (auto simp: built_def)
  obtain k where "idle k (Some defaultFunctions) 0"
    "a_get (start (core r)) (encode v @ concat (map encode us')) h = Ok (REDIS_OK, p, k, concat (map encode us'), h')"
    using a_get_encode [OF v(4,1,2) b(1)] by blast
  then show ?thesis using b(2) assms(1) Cons by (auto simp: expects_def between_def)
qed (use assms in \<open>simp add: expects_def\<close>)

lemma a_get_cleared: "a_get c t h = Ok (REDIS_OK, p, k, t', h') \<Longrightarrow> p \<noteq> 0 \<Longrightarrow> r_reply k = 0"
  by (auto simp: a_get_def start_def redis_consts split: if_splits)

lemma start_core_fields: "r_reply (start (core r)) = r_reply r" "r_fn (start (core r)) = r_fn r"
  by (simp_all add: start_def core_def)

lemma getReply_idle:
  assumes "reader_inv r" "r_err r = 0" "rest_of r = []"
  shows "\<exists>r'. redisReaderGetReply r h = Ok (REDIS_OK, 0, r', h) \<and> start (core r') = start (core r) \<and> rest_of r' = []"
proof -
  have lv: "live (start (core r))" by (rule reader_live [OF assms(1,2)])
  then have "a_loop (start (core r)) [] h = Ok (start (core r), [], h)" by (intro a_loop_empty) (auto simp: live_def)
  then have "a_get (start (core r)) [] h = Ok (REDIS_OK, 0, start (core r), [], h)" using lv unfolding a_get_live [OF lv] by (auto simp: live_def)
  then show ?thesis using getReply_refines [OF assms(1), of h] assms(3) by (cases "redisReaderGetReply r h") auto
qed

text \<open>Asking a context that does not block: the next reply, or nothing yet.\<close>

lemma ask:
  assumes "rd_ok c w r" "\<not> blocking c" "expects r (data (w_reads w)) us (w_heap w)"
  shows "\<exists>q c1 w1 r1. redisGetReply c w = Ok (REDIS_OK, q, c1, w1) \<and> rd_ok c1 w1 r1 \<and> w_reads w1 = w_reads w \<and>
    r_len r1 \<le> r_len r \<and>
    (q = 0 \<and> expects r1 (data (w_reads w)) us (w_heap w1) \<and> (data (w_reads w) = [] \<longrightarrow> us = []) \<or>
     (\<exists>v us'. us = v # us' \<and> q \<noteq> 0 \<and> between r1 (data (w_reads w)) us' (w_heap w1) \<and> built (w_heap w1) q v))"
proof (cases us)
  case Nil
  have b: "between r (data (w_reads w)) [] (w_heap w)" and rd: "c_reader c = Some r" "reader_inv r" "r_err r = 0" "rest_of r = []"
    using assms Nil by (auto simp: expects_def rd_ok_def between_def)
  obtain r' where g: "redisReaderGetReply r (w_heap w) = Ok (REDIS_OK, 0, r', w_heap w)" "start (core r') = start (core r)" "rest_of r' = []"
    using getReply_idle [OF rd(2-4)] by blast
  have e: "r_err r' = 0" using arg_cong [OF g(2), of r_err] rd(3) by (simp add: start_def core_def split: if_splits)
  have i: "reader_inv r'" "r_len r' \<le> r_len r" using getReply_inv [OF rd(2) g(1)] e by auto
  have "r_reply r' = r_reply r" by (metis g(2) start_core_fields(1))
  then have bt: "between r' (data (w_reads w)) [] (w_heap w)" using b g by (simp add: between_def)
  have "sds_fits (r_len r' + length (data (w_reads w)))"
    by (rule sds_fits_mono [of "r_len r + length (data (w_reads w))"]) (use assms(1) i(2) in \<open>auto simp: rd_ok_def\<close>)
  then have "rd_ok (c\<lparr>c_reader := Some r'\<rparr>) (w\<lparr>w_heap := w_heap w\<rparr>) r'" using assms(1) i(1) e by (simp add: rd_ok_def env_ok_def)
  moreover have "redisGetReply c w = Ok (REDIS_OK, 0, c\<lparr>c_reader := Some r'\<rparr>, w\<lparr>w_heap := w_heap w\<rparr>)"
    using g(1) rd(1) assms(2) by (simp add: redisGetReply_def redisGetReplyFromReader_def redis_consts blocking_def)
  ultimately show ?thesis using Nil bt i(2) by (intro exI [of _ 0]) (auto simp: expects_def)
next
  case (Cons v us')
  obtain p k h' where x: "a_get (start (core r)) (rest_of r @ data (w_reads w)) (w_heap w) = Ok (REDIS_OK, p, k, concat (map encode us'), h')"
    "idle k (Some defaultFunctions) 0" "built h' p v" using assms(3) Cons by (auto simp: expects_def)
  have p: "p \<noteq> 0" using x(3) by (simp add: built_def)
  have rd: "c_reader c = Some r" "reader_inv r" "r_err r = 0" using assms(1) by (auto simp: rd_ok_def)
  obtain q c1 w1 r1 where g: "redisGetReplyFromReader c w = Ok (REDIS_OK, q, c1, w1)" "rd_ok c1 w1 r1" "w_reads w1 = w_reads w"
    "q = p \<and> w_heap w1 = h' \<and> start (core r1) = k \<and> concat (map encode us') = rest_of r1 @ data (w_reads w1) \<or>
     q = 0 \<and> data (w_reads w1) \<noteq> [] \<and>
       a_get (start (core r1)) (rest_of r1 @ data (w_reads w1)) (w_heap w1) = Ok (REDIS_OK, p, k, concat (map encode us'), h')"
    using fromReader_step [OF assms(1) x(1) p] by blast
  have "\<exists>res h1. redisReaderGetReply r (w_heap w) = Ok (res, q, r1, h1)"
    using g(1,2) rd by (auto simp: redisGetReplyFromReader_def rd_ok_def Let_def redis_consts split: if_splits)
  then have len: "r_len r1 \<le> r_len r" using getReply_inv [OF rd(2)] g(2) by (auto simp: rd_ok_def)
  have nb: "\<not> blocking c1" using fromReader_out [OF g(1)] assms(2) by (simp add: same_out_def blocking_def)
  then have r: "redisGetReply c w = Ok (REDIS_OK, q, c1, w1)" using g(1) by (simp add: redisGetReply_def redis_consts)
  from g(4) have "q = 0 \<and> expects r1 (data (w_reads w)) us (w_heap w1) \<and> (data (w_reads w) = [] \<longrightarrow> us = []) \<or>
     (\<exists>v us'. us = v # us' \<and> q \<noteq> 0 \<and> between r1 (data (w_reads w)) us' (w_heap w1) \<and> built (w_heap w1) q v)"
  proof
    assume a: "q = p \<and> w_heap w1 = h' \<and> start (core r1) = k \<and> concat (map encode us') = rest_of r1 @ data (w_reads w1)"
    have "r_reply r1 = 0" using a_get_cleared [OF x(1) p] a by (metis start_core_fields(1))
    then show ?thesis using a x p Cons g(3) by (auto simp: between_def built_def)
  qed (use x g(3) Cons in \<open>auto simp: expects_def\<close>)
  then show ?thesis using r g(2,3) len by blast
qed

text \<open>Freeing the reply after the callback.\<close>

lemma free_built:
  assumes "c_reader (ac_c ac) = Some r" "r_fn r = Some defaultFunctions" "built (w_heap (s_w s)) p v"
  shows "\<exists>h. free_reply ac p s = Ok (s\<lparr>s_w := (s_w s)\<lparr>w_heap := h\<rparr>\<rparr>) \<and> heap_ok h"
proof -
  let ?h = "w_heap (s_w s)"
  have "depth v < hp_next ?h" using depth_objects [of v] assms(3) by (simp add: built_def)
  from free_laid_out [OF _ _ this] assms(3) obtain m where
    f: "freeReplyObject (hp_next ?h) p ?h = Ok (?h\<lparr>hp_objs := m\<rparr>)" "m = (\<lambda>a. if p \<le> a \<and> a < p + objects v then None else hp_objs ?h a)"
    by (auto simp: built_def)
  have "heap_ok (?h\<lparr>hp_objs := m\<rparr>)" using assms(3) f(2) by (auto simp: built_def heap_ok_def)
  then show ?thesis using f(1) assms(1,2) by (auto simp: free_reply_def fn_of_def defaultFunctions_def)
qed


section \<open>A context that takes no more commands\<close>

definition refusing :: "redisAsyncContext \<Rightarrow> bool" where
  "refusing ac \<longleftrightarrow> has_flag (REDIS_DISCONNECTING OR REDIS_FREEING) ac"

definition flags_only :: "redisAsyncContext \<Rightarrow> redisAsyncContext \<Rightarrow> bool" where
  "flags_only ac ac' \<longleftrightarrow> (\<exists>fl. ac' = ac\<lparr>ac_c := (ac_c ac)\<lparr>c_flags := fl\<rparr>\<rparr>)"

lemma flags_only_set [simp]: "flags_only ac (set_flag f ac)" "flags_only ac (clear_flag f ac)"
  by (auto simp: flags_only_def set_flag_def clear_flag_def)

lemma flags_only_trans: "flags_only a b \<Longrightarrow> flags_only b c \<Longrightarrow> flags_only a c"
  by (auto simp: flags_only_def)

lemma flags_only_refl [simp]: "flags_only ac ac"
  unfolding flags_only_def by (rule exI [of _ "c_flags (ac_c ac)"]) simp

lemma flags_onlyD:
  "flags_only ac ac' \<Longrightarrow> ac_replies ac' = ac_replies ac \<and> ac_invalid ac' = ac_invalid ac \<and> ac_channels ac' = ac_channels ac \<and>
     ac_patterns ac' = ac_patterns ac \<and> c_reader (ac_c ac') = c_reader (ac_c ac)"
  by (auto simp: flags_only_def)

lemma empty_queue: "ac_replies ac = [] \<Longrightarrow> flags_only (ac\<lparr>ac_replies := []\<rparr>) ac"
  by (metis flags_only_refl redisAsyncContext.surjective redisAsyncContext.update_convs(7))

lemma flag_stays: "has_flag m ac \<Longrightarrow> has_flag m (set_flag f ac)"
  by (simp add: has_flag_def set_flag_def bit.conj_disj_distrib2 or_eq_0_iff)

lemma has_flag_or: "has_flag (f OR g) ac \<longleftrightarrow> has_flag f ac \<or> has_flag g ac"
  by (simp add: has_flag_def bit.conj_disj_distrib or_eq_0_iff)

lemma refusing_flags [simp]:
  "refusing (clear_flag REDIS_IN_CALLBACK ac) = refusing ac" "refusing (set_flag REDIS_FREEING ac)" "refusing (set_flag REDIS_DISCONNECTING ac)"
  "refusing (set_flag REDIS_IN_CALLBACK ac) = refusing ac"
  by (simp_all add: refusing_def has_flag_or)
    (simp_all add: has_flag_def set_flag_def clear_flag_def flag_consts and.assoc bit.conj_disj_distrib2 or_eq_0_iff)

lemma refusing_stays: "refusing ac \<Longrightarrow> refusing (set_flag f ac)"
  by (simp add: refusing_def flag_stays)

lemma refuse_acts: "refusing ac \<Longrightarrow> \<exists>ac'. do_acts acts ac s = Ok (ac', s) \<and> refusing ac' \<and> flags_only ac ac'"
proof (induction acts arbitrary: ac)
  case (Cons a acts)
  have "redisAsyncFormattedCommand ac s cb cmd len = Ok (REDIS_ERR, ac, s)" for cb cmd len
    using Cons.prems by (simp add: redisAsyncFormattedCommand_def async_cmd_def refusing_def)
  moreover have "\<exists>ac'. do_acts acts (set_flag f ac) s = Ok (ac', s) \<and> refusing ac' \<and> flags_only ac ac'" for f
    using Cons.IH [OF refusing_stays [OF Cons.prems], of f] flags_only_trans [OF flags_only_set(1)] by blast
  ultimately show ?case using Cons by (cases a) auto
qed simp

lemma run_refused:
  assumes "refusing ac" "cb_fn cb = Some f"
  shows "\<exists>ac'. redisRunCallback usr ac cb 0 s = Ok (ac', emit (Ran f (cb_privdata cb) 0 None) s) \<and> refusing ac' \<and> flags_only ac ac'"
proof -
  have "refusing (set_flag REDIS_IN_CALLBACK ac)" using assms(1) by simp
  from refuse_acts [OF this] obtain ac1 where
    a: "do_acts (usr (s_log s) f (cb_privdata cb) None) (set_flag REDIS_IN_CALLBACK ac) (emit (Ran f (cb_privdata cb) 0 None) s) =
      Ok (ac1, emit (Ran f (cb_privdata cb) 0 None) s)" "refusing ac1" "flags_only (set_flag REDIS_IN_CALLBACK ac) ac1" by blast
  have "flags_only ac (clear_flag REDIS_IN_CALLBACK ac1)"
    using a(3) flags_only_trans flags_only_set by blast
  then show ?thesis using a(1,2) assms(2) by (simp add: redisRunCallback_def)
qed

lemma run_replies_total:
  "refusing ac \<Longrightarrow> \<forall>cb \<in> set (ac_replies ac). cb_fn cb \<noteq> None \<Longrightarrow> length (ac_replies ac) < n \<Longrightarrow>
   \<exists>ac' l. run_replies usr n ac s = Ok (ac', s\<lparr>s_log := s_log s @ l\<rparr>) \<and> flags_only (ac\<lparr>ac_replies := []\<rparr>) ac' \<and>
     map snd (runs l) = replicate (length (ac_replies ac)) None"
proof (induction n arbitrary: ac s)
  case (Suc n)
  show ?case
  proof (cases "ac_replies ac")
    case Nil
    then show ?thesis by (intro exI [of _ ac] exI [of _ "[]"]) (simp add: redisShiftCallback_def empty_queue)
  next
    case (Cons cb q)
    obtain f where f: "cb_fn cb = Some f" using Suc.prems(2) Cons by auto
    have "refusing (ac\<lparr>ac_replies := q\<rparr>)" using Suc.prems(1) by (simp add: refusing_def has_flag_def)
    from run_refused [OF this f, of usr s] obtain ac1 where
      r: "redisRunCallback usr (ac\<lparr>ac_replies := q\<rparr>) cb 0 s = Ok (ac1, emit (Ran f (cb_privdata cb) 0 None) s)" "refusing ac1"
        "flags_only (ac\<lparr>ac_replies := q\<rparr>) ac1" by blast
    have q: "ac_replies ac1 = q" using flags_onlyD [OF r(3)] by simp
    from Suc.IH [OF r(2), of "emit (Ran f (cb_privdata cb) 0 None) s"] Suc.prems(2,3) Cons q obtain ac' l where
      i: "run_replies usr n ac1 (emit (Ran f (cb_privdata cb) 0 None) s) = Ok (ac', s\<lparr>s_log := (s_log s @ [Ran f (cb_privdata cb) 0 None]) @ l\<rparr>)"
        "flags_only (ac1\<lparr>ac_replies := []\<rparr>) ac'" "map snd (runs l) = replicate (length q) None" by (auto simp: emit_def)
    have "flags_only (ac\<lparr>ac_replies := []\<rparr>) (ac1\<lparr>ac_replies := []\<rparr>)" using r(3) by (cases ac) (auto simp: flags_only_def)
    then have "flags_only (ac\<lparr>ac_replies := []\<rparr>) ac'" using i(2) flags_only_trans by blast
    then show ?thesis using r(1) i(1,3) Cons
      by (intro exI [of _ ac'] exI [of _ "Ran f (cb_privdata cb) 0 None # l"]) (simp add: redisShiftCallback_def runs_def)
  qed
qed simp

text \<open>The queue and the log of queued callbacks only grow at the end.\<close>

definition later :: "astate \<Rightarrow> astate \<Rightarrow> bool" where
  "later s s' \<longleftrightarrow> (\<exists>l. queued (s_log s') = queued (s_log s) @ l)"

lemma later_trans: "later s s' \<Longrightarrow> later s' s'' \<Longrightarrow> later s s''"
  by (auto simp: later_def)

lemma later_same: "queued (s_log s') = queued (s_log s) \<Longrightarrow> later s s'"
  by (simp add: later_def)

lemma later_append: "s_log s' = s_log s @ l \<Longrightarrow> later s s'"
  by (simp add: later_def queued_def)

lemma async_free_total:
  assumes "plain ac" "refusing ac \<or> ac_replies ac = []" "env_ok (s_w s)" "c_reader (ac_c ac) = Some r" "r_reply r = 0"
  shows "\<exists>s'. async_free usr ac s = Ok s' \<and> map snd (runs (s_log s')) = map snd (runs (s_log s)) @ replicate (length (ac_replies ac)) None \<and>
    later s s'"
proof -
  obtain ac1 l where r: "run_replies usr (Suc (length (ac_replies ac))) ac s = Ok (ac1, s\<lparr>s_log := s_log s @ l\<rparr>)"
    "flags_only (ac\<lparr>ac_replies := []\<rparr>) ac1" "map snd (runs l) = replicate (length (ac_replies ac)) None"
  proof (cases "ac_replies ac")
    case Nil
    then show ?thesis using that [of ac "[]"] by (simp add: redisShiftCallback_def empty_queue)
  next
    case (Cons cb q)
    then have "refusing ac" "\<forall>cb \<in> set (ac_replies ac). cb_fn cb \<noteq> None" using assms(1,2) by (auto simp: plain_def)
    from run_replies_total [OF this, of "Suc (length (ac_replies ac))" usr s] that show ?thesis by blast
  qed
  let ?s = "s\<lparr>s_log := s_log s @ l, s_w := tick (s_w s)\<rparr>"
  have e: "ac_invalid ac1 = []" "ac_channels ac1 = dictReset" "ac_patterns ac1 = dictReset" "c_reader (ac_c ac1) = Some r"
    using flags_onlyD [OF r(2)] assms(1,4) by (auto simp: plain_def)
  have al: "can_alloc (envs (s_w s) 0 k) 32" for k using env_okD [OF assms(3)] by (simp add: alloc_ok_def)
  obtain it :: "(string, redisCallback) dictIterator" where it: "dictGetIterator (envs (s_w s) 0 k) = Ok it" for k
    using al by (simp add: dictGetIterator_def)
  have sub: "run_subs usr pat (Suc n) it ac1 s' = Ok (ac1, s')" for pat n s'
    using next_empty [OF it] e by auto
  have fr: "\<exists>w'. redisFree (Some (ac_c ac1)) w = Ok w'" for w
    using e(4) assms(5) by (auto simp: redisFree_def redisReaderFree_def Let_def split: option.splits)
  define s2 where "s2 = (let s = el CleanUp ac1 ?s in if ac_onDisconnect ac1 \<and> has_flag REDIS_CONNECTED ac1
      then emit (OnDisconnect (if has_flag REDIS_FREEING ac1 then REDIS_OK else if ac_err ac1 = 0 then REDIS_OK else REDIS_ERR)) s else s)"
  obtain w' where "redisFree (Some (ac_c ac1)) (s_w s2) = Ok w'" using fr by blast
  then have "async_free usr ac s = Ok (s2\<lparr>s_w := w'\<rparr>)"
    using r(1) it sub e by (simp add: async_free_def Let_def s2_def redisShiftCallback_def del: run_subs.simps run_replies.simps)
  moreover have "runs (s_log s2) = runs (s_log s) @ runs l" by (simp add: s2_def Let_def runs_def el_def emit_def)
  moreover have "later s (s2\<lparr>s_w := w'\<rparr>)"
    by (rule later_append [of _ _ "l @ drop (length (s_log s @ l)) (s_log s2)"]) (simp add: s2_def Let_def el_def emit_def)
  ultimately show ?thesis using r(3) by (intro exI [of _ "s2\<lparr>s_w := w'\<rparr>"]) simp
qed


section \<open>A context that can go on\<close>

text \<open>The output buffer is sound and has room for so many more bytes.\<close>

definition can_write :: "nat \<Rightarrow> redisAsyncContext \<Rightarrow> astate \<Rightarrow> bool" where
  "can_write n ac s \<longleftrightarrow> c_err (ac_c ac) = 0 \<and> out_ok (ac_c ac) \<and> env_ok (s_w s) \<and> writes_ok (w_writes (s_w s)) \<and>
     sds_fits (length (pending (ac_c ac)) + n)"

definition act_bytes :: "act \<Rightarrow> nat" where
  "act_bytes a = (case a of Command _ _ len \<Rightarrow> len | _ \<Rightarrow> 0)"

definition act_whole :: "act \<Rightarrow> bool" where
  "act_whole a = (case a of Command _ cmd len \<Rightarrow> len \<le> length cmd | _ \<Rightarrow> True)"

text \<open>A callback issues at most so many bytes of commands.\<close>

definition user_within :: "nat \<Rightarrow> user \<Rightarrow> bool" where
  "user_within K usr \<longleftrightarrow> (\<forall>l f pd v. list_all act_whole (usr l f pd v) \<and> sum_list (map act_bytes (usr l f pd v)) \<le> K)"

lemma act_bytes_simps [simp]: "act_bytes (Command cb cmd len) = len" "act_bytes Disconnect = 0" "act_bytes Free = 0"
  by (simp_all add: act_bytes_def)

definition goes_on :: "redisAsyncContext \<Rightarrow> astate \<Rightarrow> redisAsyncContext \<Rightarrow> astate \<Rightarrow> bool" where
  "goes_on ac s ac' s' \<longleftrightarrow> length (ac_replies ac) \<le> length (ac_replies ac') \<and>
     (has_flag REDIS_CONNECTED ac \<longrightarrow> has_flag REDIS_CONNECTED ac') \<and> later s s'"

lemma goes_on_trans: "goes_on a s b s' \<Longrightarrow> goes_on b s' c s'' \<Longrightarrow> goes_on a s c s''"
  by (auto simp: goes_on_def intro: later_trans)

lemma goes_on_flags: "goes_on ac s (set_flag f ac) s" "goes_on ac s (clear_flag REDIS_IN_CALLBACK ac) s"
  by (auto simp: goes_on_def flag_stays later_same) (simp add: has_flag_def clear_flag_def flag_consts and.assoc)

lemma can_write_flags [simp]: "can_write n (set_flag f ac) s = can_write n ac s" "can_write n (clear_flag f ac) s = can_write n ac s"
  by (simp_all add: can_write_def set_flag_def clear_flag_def out_ok_def pending_def)

lemma can_write_el [simp]: "can_write n ac (el h ac' s) = can_write n ac s" "can_write n ac (emit e s) = can_write n ac s"
  by (simp_all add: can_write_def)

lemma can_write_less: "can_write m ac s \<Longrightarrow> n \<le> m \<Longrightarrow> can_write n ac s"
  unfolding can_write_def using sds_fits_mono by (metis add_le_cancel_left)

lemma command_total:
  assumes "can_write (len + n) ac s" "plain ac" "command_kind cmd = Ok Regular" "len \<le> length cmd"
  shows "\<exists>res ac' s'. async_cmd ac s cb cmd len = Ok (res, ac', s') \<and> can_write n ac' s' \<and> goes_on ac s ac' s' \<and>
    c_flags (ac_c ac') = c_flags (ac_c ac) \<and> w_soerr (s_w s') = w_soerr (s_w s) \<and>
    ac_replies ac' = (if refusing ac then ac_replies ac else ac_replies ac @ [cb])"
proof (cases "refusing ac")
  case True
  then show ?thesis using assms(1) can_write_less [of "len + n" ac s n] by (simp add: async_cmd_def refusing_def goes_on_def later_same)
next
  case False
  have w: "c_err (ac_c ac) = 0" "out_ok (ac_c ac)" "env_ok (s_w s)" "sds_fits (length (pending (ac_c ac)) + (len + n))"
    "writes_ok (w_writes (s_w s))" using assms(1) by (auto simp: can_write_def)
  have "can_alloc (envs (s_w s) 0 0) 24" using env_okD [OF w(3)] by (simp add: alloc_ok_def)
  then have p: "push_reply cb ac s = (ac\<lparr>ac_replies := ac_replies ac @ [cb]\<rparr>, emit (Queued cb) (s\<lparr>s_w := tick (s_w s)\<rparr>))"
    by (simp add: push_reply_def redisPushCallback_def redis_consts)
  have "sds_fits (length (pending (ac_c ac)) + len)" by (rule sds_fits_mono [OF w(4)]) simp
  from append_cmd_goes [OF w(1,2) _ assms(4) this, of "tick (s_w s)"] w(3) obtain c where
    c: "append_cmd (ac_c ac) (tick (s_w s)) cmd len = Ok (REDIS_OK, c, tick (tick (s_w s)))" "c_reader c = c_reader (ac_c ac)"
      "c_flags c = c_flags (ac_c ac)" "out_ok c" "c_err c = 0" "pending c = pending (ac_c ac) @ take len cmd" by (auto simp: env_ok_def)
  let ?ac = "ac\<lparr>ac_replies := ac_replies ac @ [cb], ac_c := c\<rparr>"
  let ?s = "el AddWrite ?ac ((emit (Queued cb) (s\<lparr>s_w := tick (s_w s)\<rparr>))\<lparr>s_w := tick (tick (s_w s))\<rparr>)"
  have "async_cmd ac s cb cmd len = Ok (REDIS_OK, ?ac, ?s)"
    using False assms(2,3) p c(1) by (simp add: async_cmd_def refusing_def plain_def append_async_def Let_def)
  moreover have "can_write n ?ac ?s" using c w assms(4) by (simp add: can_write_def env_ok_def add.assoc min_def)
  ultimately show ?thesis using c(3) False by (simp add: goes_on_def has_flag_def tick_def later_def)
qed

lemma do_acts_total:
  "list_all act_ok acts \<Longrightarrow> list_all act_whole acts \<Longrightarrow> plain ac \<Longrightarrow> queue_ok ac s \<Longrightarrow> can_write (sum_list (map act_bytes acts) + n) ac s \<Longrightarrow>
   \<exists>ac' s'. do_acts acts ac s = Ok (ac', s') \<and> can_write n ac' s' \<and> goes_on ac s ac' s'"
proof (induction acts arbitrary: ac s)
  case (Cons a acts)
  show ?case
  proof (cases a)
    case (Command cb cmd len)
    have k: "cb_fn cb \<noteq> None" "command_kind cmd = Ok Regular" "len \<le> length cmd" using Cons.prems(1,2) Command by (auto simp: act_ok_def act_whole_def)
    have "can_write (len + (sum_list (map act_bytes acts) + n)) ac s" using Cons.prems(5) Command by (simp add: add.assoc)
    from command_total [OF this Cons.prems(3) k(2,3)] obtain res ac1 s1 where
      r: "async_cmd ac s cb cmd len = Ok (res, ac1, s1)" "can_write (sum_list (map act_bytes acts) + n) ac1 s1" "goes_on ac s ac1 s1" by blast
    have "plain ac1" "queue_ok ac1 s1"
      using postD [OF async_cmd_post [OF Cons.prems(3,4) k(1,2)] r(1)] by (auto simp: calm_def)
    from Cons.IH [OF _ _ this r(2)] Cons.prems(1,2) obtain ac2 s2 where
      "do_acts acts ac1 s1 = Ok (ac2, s2)" "can_write n ac2 s2" "goes_on ac1 s1 ac2 s2" by auto
    then show ?thesis using r Command goes_on_trans by (auto simp: redisAsyncFormattedCommand_def)
  next
    case Disconnect
    then show ?thesis using Cons.IH [of "set_flag REDIS_DISCONNECTING ac" s] Cons.prems goes_on_trans [OF goes_on_flags(1)]
      by simp blast
  next
    case Free
    then show ?thesis using Cons.IH [of "set_flag REDIS_FREEING ac" s] Cons.prems goes_on_trans [OF goes_on_flags(1)]
      by simp blast
  qed
qed (auto simp: goes_on_def later_same)

lemma run_total:
  assumes "user_ok usr" "user_within K usr" "plain ac" "cb_fn cb = Some f" "can_write (K + n) ac s"
    "queued (s_log s) = map fst (runs (s_log s)) @ target cb @ concat (map target (ac_replies ac))"
  shows "\<exists>ac' s'. redisRunCallback usr ac cb reply s = Ok (ac', s') \<and> can_write n ac' s' \<and> goes_on ac s ac' s'"
proof -
  let ?v = "if reply = 0 then None else reply_value 9 (hp_objs (w_heap (s_w s))) reply"
  let ?s = "emit (Ran f (cb_privdata cb) reply ?v) s" and ?ac = "set_flag REDIS_IN_CALLBACK ac"
  let ?acts = "usr (s_log s) f (cb_privdata cb) ?v"
  have u: "list_all act_ok ?acts" "list_all act_whole ?acts" "sum_list (map act_bytes ?acts) \<le> K"
    using assms(1,2) by (simp_all add: user_ok_def user_within_def)
  have q: "queue_ok ?ac ?s" using assms(4,6) by (simp add: queue_ok_def target_def)
  have c: "can_write (sum_list (map act_bytes ?acts) + n) ?ac ?s" by (rule can_write_less [of "K + n"]) (use assms(5) u(3) in simp_all)
  have "plain ?ac" using assms(3) by simp
  from do_acts_total [OF u(1,2) this q c] obtain ac1 s1 where
    r: "do_acts ?acts ?ac ?s = Ok (ac1, s1)" "can_write n ac1 s1" "goes_on ?ac ?s ac1 s1" by blast
  have "goes_on ac s ?ac ?s" using goes_on_flags(1) [of ac s] by (simp add: goes_on_def later_def)
  then have "goes_on ac s (clear_flag REDIS_IN_CALLBACK ac1) s1" using r(3) goes_on_trans goes_on_flags(2) by blast
  then show ?thesis using r(1,2) assms(4) by (simp add: redisRunCallback_def Let_def)
qed


section \<open>A round of the loop\<close>

abbreviation vals :: "astate \<Rightarrow> resp option list" where
  "vals s \<equiv> map snd (runs (s_log s))"

definition flow :: "nat \<Rightarrow> redisAsyncContext \<Rightarrow> astate \<Rightarrow> resp list \<Rightarrow> heap redisReader \<Rightarrow> bool" where
  "flow K ac s us r \<longleftrightarrow> aok ac s \<and> rd_ok (ac_c ac) (s_w s) r \<and> can_write (K * length us) ac s \<and>
     length us \<le> length (ac_replies ac) \<and> replies_ok us"

definition flowing :: "nat \<Rightarrow> redisAsyncContext \<Rightarrow> astate \<Rightarrow> resp list \<Rightarrow> heap redisReader \<Rightarrow> bool" where
  "flowing K ac s us r \<longleftrightarrow> flow K ac s us r \<and> has_flag REDIS_CONNECTED ac"

lemma flowing_nonblocking: "flowing K ac s us r \<Longrightarrow> \<not> blocking (ac_c ac)"
  by (simp add: flowing_def flow_def aok_def plain_nonblocking)

text \<open>A reply that the head of the queue takes.\<close>

lemma serve_total:
  assumes "user_ok usr" "user_within K usr" "flowing K ac s (v # us) r" "between r (data (w_reads (s_w s))) us (w_heap (s_w s))"
    "built (w_heap (s_w s)) q v"
  shows "\<exists>cb' ac' s'. take_reply usr again q cb ac s =
      (if has_flag REDIS_FREEING ac' then cbind (async_free usr ac' s') (\<lambda>s. Ok (None, s)) else again cb' ac' s') \<and>
    flowing K ac' s' us r \<and> between r (data (w_reads (s_w s'))) us (w_heap (s_w s')) \<and> w_reads (s_w s') = w_reads (s_w s) \<and>
    vals s' = vals s @ [Some (canon v)] \<and> later s s'"
proof -
  have fl: "aok ac s" "rd_ok (ac_c ac) (s_w s) r" "can_write (K + K * length us) ac s" "Suc (length us) \<le> length (ac_replies ac)"
    "replies_ok us" "has_flag REDIS_CONNECTED ac" "resp_ok v" "lines_fit v" "depth v \<le> 8"
    using assms(3) by (auto simp: flowing_def flow_def replies_ok_def)
  obtain cb1 l where q: "ac_replies ac = cb1 # l" using fl(4) by (cases "ac_replies ac") auto
  let ?ac = "ac\<lparr>ac_replies := l\<rparr>"
  obtain f where f: "cb_fn cb1 = Some f" "plain ?ac"
    "queued (s_log s) = map fst (runs (s_log s)) @ target cb1 @ concat (map target (ac_replies ?ac))"
    using aok_shift [OF fl(1) q] by auto
  have "can_write (K + K * length us) ?ac s" using fl(3) by (simp add: can_write_def)
  from run_total [OF assms(1,2) f(2,1) this f(3)] obtain ac1 s1 where
    r: "redisRunCallback usr ?ac cb1 q s = Ok (ac1, s1)" "can_write (K * length us) ac1 s1" "goes_on ?ac s ac1 s1" by blast
  have val: "reply_value 9 (hp_objs (w_heap (s_w s))) q = Some (canon v)"
    by (rule laid_out_value) (use assms(5) fl in \<open>auto simp: built_def\<close>)
  have q0: "q \<noteq> 0" using assms(5) by (simp add: built_def)
  have p: "plain ac1" "queue_ok ac1 s1" "input ac1 s1 = input ac s" "vals s1 = vals s @ [Some (canon v)]"
    using postD [OF redisRunCallback_post [OF assms(1) f(2,1,3)] r(1)] q0 val by (auto simp: input_def)
  have i: "c_reader (ac_c ac1) = Some r" "w_heap (s_w s1) = w_heap (s_w s)" "w_reads (s_w s1) = w_reads (s_w s)"
    using p(3) fl(2) by (auto simp: input_def rd_ok_def)
  have "r_fn r = Some defaultFunctions" using assms(4) start_core_fields(2) [of r] by (auto simp: between_def idle_def)
  from free_built [OF i(1) this] assms(5) i(2) obtain h where
    h: "free_reply ac1 q s1 = Ok (s1\<lparr>s_w := (s_w s1)\<lparr>w_heap := h\<rparr>\<rparr>)" "heap_ok h" by metis
  let ?s = "s1\<lparr>s_w := (s_w s1)\<lparr>w_heap := h\<rparr>\<rparr>"
  have "flowing K ac1 ?s us r"
    using p r(2,3) fl i q by (auto simp: flowing_def flow_def aok_def queue_ok_def rd_ok_def can_write_def env_ok_def goes_on_def has_flag_def)
  moreover have "between r (data (w_reads (s_w ?s))) us (w_heap (s_w ?s))" using assms(4) h(2) i(3) by (simp add: between_def)
  moreover have "take_reply usr again q cb ac s =
      (if has_flag REDIS_FREEING ac1 then cbind (async_free usr ac1 ?s) (\<lambda>s. Ok (None, s)) else again cb1 ac1 ?s)"
    using q f(1) r(1) h(1) by (simp add: take_reply_def choose_callback_def redisShiftCallback_def serve_reply_def)
  moreover have "later s ?s" using r(3) by (simp add: goes_on_def later_def)
  ultimately show ?thesis using p(4) i(3) by (intro exI [of _ cb1] exI [of _ ac1] exI [of _ ?s]) simp
qed


text \<open>
  How a handler ends: the replies delivered so far are the first ones of the server; the context
  waits for the others, or it is freed and the callbacks left got no reply.
\<close>

definition outcome :: "nat \<Rightarrow> (nat \<times> nat) list \<Rightarrow> resp list \<Rightarrow> redisAsyncContext option \<times> astate \<Rightarrow> bool" where
  "outcome K Q vs = (\<lambda>(p, s). \<exists>ds us l. vs = ds @ us \<and> queued (s_log s) = Q @ l \<and> (case p of
      None \<Rightarrow> \<exists>m. vals s = map (Some \<circ> canon) ds @ replicate m None
    | Some ac \<Rightarrow> vals s = map (Some \<circ> canon) ds \<and> (data (w_reads (s_w s)) = [] \<longrightarrow> us = []) \<and>
        (\<exists>r. flowing K ac s us r \<and> expects r (data (w_reads (s_w s))) us (w_heap (s_w s)))))"

definition waits :: "nat \<Rightarrow> (nat \<times> nat) list \<Rightarrow> resp list \<Rightarrow> redisAsyncContext \<Rightarrow> astate \<Rightarrow> resp list \<Rightarrow> heap redisReader \<Rightarrow> bool" where
  "waits K Q vs ac s us r \<longleftrightarrow> flowing K ac s us r \<and> expects r (data (w_reads (s_w s))) us (w_heap (s_w s)) \<and>
     (\<exists>ds l. vs = ds @ us \<and> vals s = map (Some \<circ> canon) ds \<and> queued (s_log s) = Q @ l)"

definition same_reads :: "astate \<Rightarrow> redisAsyncContext option \<times> astate \<Rightarrow> bool" where
  "same_reads s = (\<lambda>(p, s'). p = None \<or> w_reads (s_w s') = w_reads (s_w s))"

lemma waits_outcome: "waits K Q vs ac s us r \<Longrightarrow> data (w_reads (s_w s)) = [] \<longrightarrow> us = [] \<Longrightarrow> outcome K Q vs (Some ac, s)"
  by (auto simp: waits_def outcome_def)

lemma freed_outcome:
  assumes "flowing K ac s us r" "refusing ac \<or> ac_replies ac = []" "r_reply r = 0" "vs = ds @ us" "vals s = map (Some \<circ> canon) ds" "queued (s_log s) = Q @ l"
  shows "\<exists>s'. async_free usr ac s = Ok s' \<and> outcome K Q vs (None, s')"
proof -
  have "plain ac" "env_ok (s_w s)" "c_reader (ac_c ac) = Some r" using assms(1) by (auto simp: flowing_def flow_def aok_def rd_ok_def)
  from async_free_total [OF this(1) assms(2) this(2,3) assms(3)] obtain s' where
    "async_free usr ac s = Ok s'" "vals s' = vals s @ replicate (length (ac_replies ac)) None" "later s s'" by blast
  then show ?thesis using assms(4-6) by (auto simp: outcome_def later_def)
qed

lemma no_reply_total:
  assumes "waits K Q vs ac s us r" "data (w_reads (s_w s)) = [] \<longrightarrow> us = []"
  shows "\<exists>x. no_reply usr cb ac s = Ok x \<and> outcome K Q vs x \<and> same_reads s x"
proof -
  have fl: "flowing K ac s us r" "aok ac s" "c_err (ac_c ac) = 0" "out_ok (ac_c ac)" "length us \<le> length (ac_replies ac)"
    using assms(1) by (auto simp: waits_def flowing_def flow_def can_write_def)
  have nm: "\<not> has_flag REDIS_MONITORING ac" using fl(2) by (simp add: aok_def plain_def)
  obtain b where b: "c_obuf (ac_c ac) = Some b" using fl(4) by (auto simp: out_ok_def)
  show ?thesis
  proof (cases "has_flag REDIS_DISCONNECTING ac \<and> sdslen b = 0 \<and> ac_replies ac = []")
    case True
    let ?ac = "redisAsyncCopyError ac"
    have us: "us = []" using fl(5) True by simp
    then have "between r (data (w_reads (s_w s))) [] (w_heap (s_w s))" using assms(1) by (auto simp: waits_def expects_def)
    then have r0: "r_reply r = 0" by (simp add: between_def)
    have f: "flowing K ?ac s us r"
      using fl(1) by (simp add: flowing_def flow_def aok_def plain_def queue_ok_def can_write_def has_flag_def redisAsyncCopyError_def)
    obtain ds l where ds: "vs = ds @ us" "vals s = map (Some \<circ> canon) ds" "queued (s_log s) = Q @ l" using assms(1) by (auto simp: waits_def)
    have "ac_replies ?ac = []" using True by (simp add: redisAsyncCopyError_def)
    then obtain s' where "async_free usr ?ac s = Ok s'" "outcome K Q vs (None, s')"
      using freed_outcome [OF f _ r0 ds] by blast
    then show ?thesis using True b fl(3)
      by (simp add: no_reply_def async_disconnect_def redisAsyncCopyError_def redisShiftCallback_def same_reads_def)
  next
    case False
    then have "no_reply usr cb ac s = Ok (Some ac, s)" using b nm by (auto simp: no_reply_def)
    then show ?thesis using waits_outcome [OF assms] by (simp add: same_reads_def)
  qed
qed

text \<open>One round: the loop ends, or a reply was delivered and the reader is between two replies.\<close>

lemma round_total:
  assumes "user_ok usr" "user_within K usr" "waits K Q vs ac s us r"
  shows "(\<exists>x. process_loop_cb usr (Suc n) cb ac s = Ok x \<and> outcome K Q vs x \<and> same_reads s x) \<or>
    (\<exists>v us' cb' ac' s' r'. us = v # us' \<and> process_loop_cb usr (Suc n) cb ac s = process_loop_cb usr n cb' ac' s' \<and>
       waits K Q vs ac' s' us' r' \<and> between r' (data (w_reads (s_w s'))) us' (w_heap (s_w s')) \<and>
       w_reads (s_w s') = w_reads (s_w s) \<and> r_len r' \<le> r_len r)"
proof -
  have fl: "flowing K ac s us r" "expects r (data (w_reads (s_w s))) us (w_heap (s_w s))" "rd_ok (ac_c ac) (s_w s) r"
    using assms(3) by (auto simp: waits_def flowing_def flow_def)
  obtain ds l where ds: "vs = ds @ us" "vals s = map (Some \<circ> canon) ds" "queued (s_log s) = Q @ l" using assms(3) by (auto simp: waits_def)
  note nb = flowing_nonblocking [OF fl(1)]
  from ask [OF fl(3) nb fl(2)] obtain q c1 w1 r1 where
    a: "redisGetReply (ac_c ac) (s_w s) = Ok (REDIS_OK, q, c1, w1)" "rd_ok c1 w1 r1" "w_reads w1 = w_reads (s_w s)" "r_len r1 \<le> r_len r"
      "q = 0 \<and> expects r1 (data (w_reads (s_w s))) us (w_heap w1) \<and> (data (w_reads (s_w s)) = [] \<longrightarrow> us = []) \<or>
       (\<exists>v us'. us = v # us' \<and> q \<noteq> 0 \<and> between r1 (data (w_reads (s_w s))) us' (w_heap w1) \<and> built (w_heap w1) q v)" by blast
  let ?ac = "ac\<lparr>ac_c := c1\<rparr>" and ?s = "s\<lparr>s_w := w1\<rparr>"
  have so: "same_out (ac_c ac) (s_w s) c1 w1" using postD [OF redisGetReply_nonblocking [OF nb] a(1)] by simp
  have fl1: "flowing K ?ac ?s us r1"
    using fl(1) a(2) so same_out_flow [OF so] by (simp add: flowing_def flow_def aok_context same_out_def can_write_def rd_ok_def has_flag_def)
  from a(5) show ?thesis
  proof
    assume q: "q = 0 \<and> expects r1 (data (w_reads (s_w s))) us (w_heap w1) \<and> (data (w_reads (s_w s)) = [] \<longrightarrow> us = [])"
    then have "waits K Q vs ?ac ?s us r1" using fl1 ds a(3) by (simp add: waits_def)
    from no_reply_total [OF this, of usr cb] q a(3) obtain x where
      x: "no_reply usr cb ?ac ?s = Ok x" "outcome K Q vs x" "same_reads s x" by (auto simp: same_reads_def)
    have "process_loop_cb usr (Suc n) cb ac s = Ok x" using a(1) q x(1) by simp
    then show ?thesis using x(2,3) by blast
  next
    assume "\<exists>v us'. us = v # us' \<and> q \<noteq> 0 \<and> between r1 (data (w_reads (s_w s))) us' (w_heap w1) \<and> built (w_heap w1) q v"
    then obtain v us' where v: "us = v # us'" "q \<noteq> 0" "between r1 (data (w_reads (s_w ?s))) us' (w_heap (s_w ?s))" "built (w_heap (s_w ?s)) q v"
      using a(3) by auto
    from serve_total [OF assms(1,2) fl1 [unfolded v(1)] v(3,4), of "process_loop_cb usr n" cb] obtain cb2 ac2 s2 where
      t: "take_reply usr (process_loop_cb usr n) q cb ?ac ?s =
          (if has_flag REDIS_FREEING ac2 then cbind (async_free usr ac2 s2) (\<lambda>s. Ok (None, s)) else process_loop_cb usr n cb2 ac2 s2)"
        "flowing K ac2 s2 us' r1" "between r1 (data (w_reads (s_w s2))) us' (w_heap (s_w s2))" "w_reads (s_w s2) = w_reads (s_w s)"
        "vals s2 = vals s @ [Some (canon v)]" "later ?s s2" using a(3) by auto
    have l: "process_loop_cb usr (Suc n) cb ac s = take_reply usr (process_loop_cb usr n) q cb ?ac ?s" using a(1) v(2) by simp
    obtain l2 where d2: "vs = (ds @ [v]) @ us'" "vals s2 = map (Some \<circ> canon) (ds @ [v])" "queued (s_log s2) = Q @ l2"
      using ds v(1) t(5,6) by (auto simp: later_def)
    show ?thesis
    proof (cases "has_flag REDIS_FREEING ac2")
      case True
      then have "refusing ac2" by (simp add: refusing_def has_flag_or)
      moreover have "r_reply r1 = 0" using v(3) by (simp add: between_def)
      ultimately obtain s' where "async_free usr ac2 s2 = Ok s'" "outcome K Q vs (None, s')"
        using freed_outcome [OF t(2) _ _ d2] by blast
      then have "process_loop_cb usr (Suc n) cb ac s = Ok (None, s')" "outcome K Q vs (None, s')" "same_reads s (None, s')"
        using l t(1) True by (simp_all del: process_loop_cb.simps add: same_reads_def)
      then show ?thesis by blast
    next
      case False
      have "waits K Q vs ac2 s2 us' r1"
        using t(2) between_expects [OF t(3)] d2 unfolding waits_def flowing_def flow_def by blast
      moreover have "process_loop_cb usr (Suc n) cb ac s = process_loop_cb usr n cb2 ac2 s2"
        using l t(1) False by (simp del: process_loop_cb.simps)
      ultimately show ?thesis using t(3,4) v(1) a(4) by blast
    qed
  qed
qed


lemma encode_nonempty: "0 < length (encode v)"
  by (cases v) simp_all

lemma rest_of_len: "rd_ok c w r \<Longrightarrow> length (rest_of r) \<le> r_len r"
  by (auto simp: rd_ok_def reader_inv_def buffer_okD(3))

lemma process_between:
  assumes "user_ok usr" "user_within K usr"
  shows "waits K Q vs ac s us r \<Longrightarrow> between r (data (w_reads (s_w s))) us (w_heap (s_w s)) \<Longrightarrow> length (rest_of r) < n \<Longrightarrow>
    \<exists>x. process_loop_cb usr n cb ac s = Ok x \<and> outcome K Q vs x \<and> same_reads s x"
proof (induction n arbitrary: cb ac s us r)
  case (Suc n)
  from round_total [OF assms Suc.prems(1), of n cb] show ?case
  proof (elim disjE exE conjE)
    fix v us' cb' ac' s' r'
    assume a: "us = v # us'" "process_loop_cb usr (Suc n) cb ac s = process_loop_cb usr n cb' ac' s'" "waits K Q vs ac' s' us' r'"
      "between r' (data (w_reads (s_w s'))) us' (w_heap (s_w s'))" "w_reads (s_w s') = w_reads (s_w s)"
    have "rest_of r @ data (w_reads (s_w s)) = (encode v @ rest_of r') @ data (w_reads (s_w s))"
      using Suc.prems(2) a(1,4,5) by (simp add: between_def)
    then have "length (rest_of r) = length (encode v) + length (rest_of r')" by simp
    then have "length (rest_of r') < n" using Suc.prems(3) encode_nonempty [of v] by linarith
    from Suc.IH [OF a(3,4) this, of cb'] a(2,5) show ?thesis by (auto simp: same_reads_def)
  qed blast
qed simp

lemma processCallbacks_total:
  assumes "user_ok usr" "user_within K usr" "waits K Q vs ac s us r"
  shows "\<exists>x. redisProcessCallbacks usr ac s = Ok x \<and> outcome K Q vs x \<and> same_reads s x"
proof -
  let ?cb = "\<lparr>cb_fn = None, cb_privdata = 0\<rparr>"
  have "c_reader (ac_c ac) = Some r" using assms(3) by (simp add: waits_def flowing_def flow_def rd_ok_def)
  then have p: "redisProcessCallbacks usr ac s = process_loop_cb usr (Suc (Suc (r_len r))) ?cb ac s"
    by (simp add: redisProcessCallbacks_def del: process_loop_cb.simps)
  from round_total [OF assms, of "Suc (r_len r)" ?cb] show ?thesis unfolding p
  proof (elim disjE exE conjE)
    fix v us' cb' ac' s' r'
    assume a: "process_loop_cb usr (Suc (Suc (r_len r))) ?cb ac s = process_loop_cb usr (Suc (r_len r)) cb' ac' s'" "waits K Q vs ac' s' us' r'"
      "between r' (data (w_reads (s_w s'))) us' (w_heap (s_w s'))" "w_reads (s_w s') = w_reads (s_w s)" "r_len r' \<le> r_len r"
    have "length (rest_of r') \<le> r_len r'" using a(2) rest_of_len by (auto simp: waits_def flowing_def flow_def)
    then have "length (rest_of r') < Suc (r_len r)" using a(5) by simp
    from process_between [OF assms(1,2) a(2,3) this, of cb'] a(1,4)
    show "\<exists>x. process_loop_cb usr (Suc (Suc (r_len r))) ?cb ac s = Ok x \<and> outcome K Q vs x \<and> same_reads s x" by (auto simp: same_reads_def)
  qed blast
qed

section \<open>The event loop\<close>

text \<open>An event loop reports only what the socket is ready for.\<close>

fun fires :: "request \<Rightarrow> astate \<Rightarrow> bool" where
  "fires Readable s = (data (w_reads (s_w s)) \<noteq> [])"
| "fires Writable s = (w_writes (s_w s) \<noteq> [])"
| "fires _ s = False"

fun event_loop :: "user \<Rightarrow> request list \<Rightarrow> redisAsyncContext \<Rightarrow> astate \<Rightarrow> (redisAsyncContext option \<times> astate) cres" where
  "event_loop usr [] ac s = Ok (Some ac, s)"
| "event_loop usr (x # xs) ac s =
     (if fires x s then cbind (handle usr x ac s) (\<lambda>(p, s). case p of None \<Rightarrow> Ok (None, s) | Some ac \<Rightarrow> event_loop usr xs ac s)
      else event_loop usr xs ac s)"

text \<open>Connected, or connected once the socket is asked.\<close>

definition linked_up :: "redisAsyncContext \<Rightarrow> astate \<Rightarrow> bool" where
  "linked_up ac s \<longleftrightarrow> has_flag REDIS_CONNECTED ac \<or> (\<exists>xs. w_soerr (s_w s) = Inr None # xs)"

lemma when_connected_total:
  assumes "linked_up ac s"
  shows "\<exists>ac' s'. when_connected usr ac s k = k ac' s' \<and> has_flag REDIS_CONNECTED ac' \<and> runs (s_log s') = runs (s_log s) \<and>
    queued (s_log s') = queued (s_log s) \<and>
    (ac' = ac \<and> s' = s \<or> ac' = set_flag REDIS_CONNECTED ac \<and> (\<exists>xs. s_w s' = (s_w s)\<lparr>w_soerr := xs\<rparr>))"
proof (cases "has_flag REDIS_CONNECTED ac")
  case False
  then obtain xs where x: "w_soerr (s_w s) = Inr None # xs" using assms by (auto simp: linked_up_def)
  let ?s = "s\<lparr>s_w := (s_w s)\<lparr>w_soerr := xs\<rparr>\<rparr>"
  let ?t = "if ac_onConnect ac then emit (OnConnect REDIS_OK) ?s else ?s"
  have c: "has_flag REDIS_CONNECTED (set_flag REDIS_CONNECTED ac)" by (simp add: REDIS_CONNECTED_def)
  have "redisAsyncHandleConnect usr ac s = Ok (REDIS_OK, Some (set_flag REDIS_CONNECTED ac), ?t)"
    using x by (simp add: redisAsyncHandleConnect_def redisCheckSocketError_def redis_consts)
  then have "when_connected usr ac s k = k (set_flag REDIS_CONNECTED ac) ?t" using False c by (simp add: when_connected_def)
  then show ?thesis using c by (intro exI [of _ "set_flag REDIS_CONNECTED ac"] exI [of _ ?t]) auto
qed (auto simp: when_connected_def)


definition begins :: "nat \<Rightarrow> (nat \<times> nat) list \<Rightarrow> resp list \<Rightarrow> redisAsyncContext \<Rightarrow> astate \<Rightarrow> resp list \<Rightarrow> heap redisReader \<Rightarrow> bool" where
  "begins K Q vs ac s us r \<longleftrightarrow> linked_up ac s \<and> flow K ac s us r \<and> expects r (data (w_reads (s_w s))) us (w_heap (s_w s)) \<and>
     (data (w_reads (s_w s)) = [] \<longrightarrow> us = []) \<and>
     (\<exists>ds l. vs = ds @ us \<and> vals s = map (Some \<circ> canon) ds \<and> queued (s_log s) = Q @ l)"

lemma outcome_begins: "outcome K Q vs (Some ac, s) \<Longrightarrow> \<exists>us r. begins K Q vs ac s us r"
  by (auto simp: outcome_def begins_def linked_up_def flowing_def)

lemma connected_waits:
  assumes "begins K Q vs ac s us r"
  shows "\<exists>ac' s'. when_connected usr ac s k = k ac' s' \<and> waits K Q vs ac' s' us r \<and>
    w_reads (s_w s') = w_reads (s_w s) \<and> w_writes (s_w s') = w_writes (s_w s)"
proof -
  have b: "linked_up ac s" "flow K ac s us r" "expects r (data (w_reads (s_w s))) us (w_heap (s_w s))"
    using assms by (auto simp: begins_def)
  obtain ds l where ds: "vs = ds @ us" "vals s = map (Some \<circ> canon) ds" "queued (s_log s) = Q @ l" using assms by (auto simp: begins_def)
  obtain ac' s' where c: "when_connected usr ac s k = k ac' s'" "has_flag REDIS_CONNECTED ac'" "runs (s_log s') = runs (s_log s)"
    "queued (s_log s') = queued (s_log s)" "ac' = ac \<and> s' = s \<or> ac' = set_flag REDIS_CONNECTED ac \<and> (\<exists>xs. s_w s' = (s_w s)\<lparr>w_soerr := xs\<rparr>)"
    using when_connected_total [OF b(1), of usr k] by blast
  have w: "w_reads (s_w s') = w_reads (s_w s)" "w_writes (s_w s') = w_writes (s_w s)" "w_heap (s_w s') = w_heap (s_w s)"
    "w_env (s_w s') = w_env (s_w s)" using c(5) by auto
  have "aok ac' s = aok ac s" "can_write n ac' s = can_write n ac s" "rd_ok (ac_c ac') w r = rd_ok (ac_c ac) w r" "ac_replies ac' = ac_replies ac" for n w
    using c(5) by (auto simp: rd_ok_def set_flag_def simp del: set_flag_has) (auto simp: aok_def simp flip: set_flag_def)
  then have "flow K ac' s' us r"
    using b(2) w c(3,4) by (auto simp: flow_def aok_def queue_ok_def rd_ok_def can_write_def env_ok_def)
  then have "waits K Q vs ac' s' us r" using b(3) c(2,3,4) w(1,3) ds by (auto simp: waits_def flowing_def)
  then show ?thesis using c(1) w(1,2) by blast
qed

lemma expects_cong:
  assumes "core r' = core r" "rest_of r' @ u' = rest_of r @ u"
  shows "expects r' u' us h = expects r u us h"
proof -
  have "r_reply r' = r_reply r" using arg_cong [OF assms(1), of r_reply] by (simp add: core_def)
  then show ?thesis using assms by (simp add: expects_def between_def split: list.splits)
qed

lemma handleRead_total:
  assumes "user_ok usr" "user_within K usr" "begins K Q vs ac s us r" "data (w_reads (s_w s)) \<noteq> []"
  shows "\<exists>p s'. redisAsyncHandleRead usr ac s = Ok (p, s') \<and> outcome K Q vs (p, s') \<and>
    (p \<noteq> None \<longrightarrow> todo (w_reads (s_w s')) < todo (w_reads (s_w s)))"
proof -
  let ?k = "\<lambda>ac s. cbind (redisBufferRead (ac_c ac) (s_w s)) (\<lambda>(res, c, w).
       let ac = ac\<lparr>ac_c := c\<rparr>; s = s\<lparr>s_w := w\<rparr> in
       if res = REDIS_ERR then cbind (async_disconnect usr ac s) (\<lambda>s. Ok (None, s))
       else redisProcessCallbacks usr ac (el AddRead ac s))"
  obtain ac1 s1 where c: "redisAsyncHandleRead usr ac s = ?k ac1 s1" "waits K Q vs ac1 s1 us r" "w_reads (s_w s1) = w_reads (s_w s)"
    using connected_waits [OF assms(3), of usr ?k] unfolding redisAsyncHandleRead_def by blast
  have f: "rd_ok (ac_c ac1) (s_w s1) r" "flowing K ac1 s1 us r" using c(2) by (auto simp: waits_def flowing_def flow_def)
  obtain c2 w2 r2 where b: "redisBufferRead (ac_c ac1) (s_w s1) = Ok (REDIS_OK, c2, w2)" "rd_ok c2 w2 r2" "core r2 = core r"
    "w_heap w2 = w_heap (s_w s1)" "rest_of r2 @ data (w_reads w2) = rest_of r @ data (w_reads (s_w s1))"
    using redisBufferRead_step [OF f(1)] assms(4) c(3) by auto
  let ?ac = "ac1\<lparr>ac_c := c2\<rparr>"
  let ?s = "el AddRead ?ac (s1\<lparr>s_w := w2\<rparr>)"
  have e: "REDIS_OK \<noteq> REDIS_ERR" by (simp add: redis_consts)
  note so = redisBufferRead_out [OF b(1)]
  have "flowing K ?ac ?s us r2"
    using f(2) b(2) so same_out_flow [OF so]
    by (simp add: flowing_def flow_def aok_context same_out_def can_write_def rd_ok_def has_flag_def)
  then have "waits K Q vs ?ac ?s us r2"
    using c(2) expects_cong [OF b(3,5)] b(4) by (simp add: waits_def)
  from processCallbacks_total [OF assms(1,2) this] obtain p s' where
    p: "redisProcessCallbacks usr ?ac ?s = Ok (p, s')" "outcome K Q vs (p, s')" "same_reads ?s (p, s')" by auto
  have "redisAsyncHandleRead usr ac s = Ok (p, s')" using c(1) b(1) p(1) e by (simp add: Let_def)
  moreover have "todo (w_reads w2) < todo (w_reads (s_w s1))" by (rule redisBufferRead_less [OF b(1) e])
  ultimately show ?thesis using p(2,3) c(3) by (auto simp: same_reads_def)
qed

lemma handleWrite_total:
  assumes "begins K Q vs ac s us r" "w_writes (s_w s) \<noteq> []"
  shows "\<exists>ac' s'. redisAsyncHandleWrite usr ac s = Ok (Some ac', s') \<and> begins K Q vs ac' s' us r \<and> w_reads (s_w s') = w_reads (s_w s)"
proof -
  let ?k = "\<lambda>ac s. cbind (redisBufferWrite (ac_c ac) (s_w s)) (\<lambda>(res, wdone, c, w).
       let ac = ac\<lparr>ac_c := c\<rparr>; s = s\<lparr>s_w := w\<rparr> in
       if res = REDIS_ERR then cbind (async_disconnect usr ac s) (\<lambda>s. Ok (None, s))
       else Ok (Some ac, el AddRead ac (el (if \<not> wdone then AddWrite else DelWrite) ac s)))"
  obtain ac1 s1 where c: "redisAsyncHandleWrite usr ac s = ?k ac1 s1" "waits K Q vs ac1 s1 us r" "w_reads (s_w s1) = w_reads (s_w s)"
    "w_writes (s_w s1) = w_writes (s_w s)"
    using connected_waits [OF assms(1), of usr ?k] unfolding redisAsyncHandleWrite_def by blast
  have f: "flowing K ac1 s1 us r" "rd_ok (ac_c ac1) (s_w s1) r" "c_err (ac_c ac1) = 0" "out_ok (ac_c ac1)" "env_ok (s_w s1)"
    "writes_ok (w_writes (s_w s1))" "sds_fits (length (pending (ac_c ac1)) + K * length us)"
    using c(2) by (auto simp: waits_def flowing_def flow_def can_write_def)
  obtain c2 w2 where b: "redisBufferWrite (ac_c ac1) (s_w s1) = Ok (REDIS_OK, pending c2 = [], c2, w2)" "c_err c2 = 0" "out_ok c2"
    "env_ok w2" "writes_ok (w_writes w2)" "same_in (ac_c ac1) (s_w s1) c2 w2" "length (pending c2) \<le> length (pending (ac_c ac1))"
    using redisBufferWrite_goes [OF f(3-6)] assms(2) c(4) by auto
  let ?ac = "ac1\<lparr>ac_c := c2\<rparr>"
  let ?s = "el AddRead ?ac (el (if \<not> pending c2 = [] then AddWrite else DelWrite) ?ac (s1\<lparr>s_w := w2\<rparr>))"
  have e: "REDIS_OK \<noteq> REDIS_ERR" by (simp add: redis_consts)
  have "sds_fits (length (pending c2) + K * length us)" by (rule sds_fits_mono [OF f(7)]) (use b(7) in simp)
  then have "flowing K ?ac ?s us r"
    using f(1) b same_in_rd [OF b(6) f(2) b(2)]
    by (simp add: flowing_def flow_def aok_context can_write_def has_flag_def same_in_def)
  then have "begins K Q vs ?ac ?s us r"
    using c(2,3) b(6) assms(1) by (auto simp: begins_def waits_def flowing_def linked_up_def same_in_def)
  moreover have "redisAsyncHandleWrite usr ac s = Ok (Some ?ac, ?s)" using c(1) b(1) e by (simp add: Let_def)
  ultimately show ?thesis using c(3) b(6) by (auto simp: same_in_def)
qed

text \<open>How the loop ends; \<open>b\<close> says that everything has been read.\<close>

definition loop_end :: "nat \<Rightarrow> (nat \<times> nat) list \<Rightarrow> resp list \<Rightarrow> bool \<Rightarrow> redisAsyncContext option \<times> astate \<Rightarrow> bool" where
  "loop_end K Q vs b x = (case x of
      (None, s) \<Rightarrow> outcome K Q vs (None, s)
    | (Some ac, s) \<Rightarrow> (\<exists>us r. begins K Q vs ac s us r) \<and> (b \<longrightarrow> data (w_reads (s_w s)) = []))"

lemma loop_end_mono: "loop_end K Q vs b x \<Longrightarrow> (b' \<Longrightarrow> b) \<Longrightarrow> loop_end K Q vs b' x"
  by (auto simp: loop_end_def split: prod.splits option.splits)

lemma event_loop_total:
  assumes "user_ok usr" "user_within K usr"
  shows "begins K Q vs ac s us r \<Longrightarrow> \<exists>x. event_loop usr xs ac s = Ok x \<and>
    loop_end K Q vs (data (w_reads (s_w s)) = [] \<or> todo (w_reads (s_w s)) \<le> count_list xs Readable) x"
proof (induction xs arbitrary: ac s us r)
  case Nil
  have "data rs = []" if "todo rs = 0" for rs using that by (cases rs rule: todo.cases) auto
  then show ?case using Nil by (auto simp: loop_end_def)
next
  case (Cons x xs)
  show ?case
  proof (cases "fires x s")
    case False
    have d: "data (w_reads (s_w s)) = []" if "x = Readable" using False that by simp
    obtain y where y: "event_loop usr xs ac s = Ok y"
      "loop_end K Q vs (data (w_reads (s_w s)) = [] \<or> todo (w_reads (s_w s)) \<le> count_list xs Readable) y"
      using Cons.IH [OF Cons.prems] by blast
    have "event_loop usr (x # xs) ac s = Ok y" using y(1) False by simp
    moreover have "loop_end K Q vs (data (w_reads (s_w s)) = [] \<or> todo (w_reads (s_w s)) \<le> count_list (x # xs) Readable) y"
      by (rule loop_end_mono [OF y(2)]) (use d in \<open>auto split: if_splits\<close>)
    ultimately show ?thesis by blast
  next
    case True
    then consider "x = Readable" "data (w_reads (s_w s)) \<noteq> []" | "x = Writable" "w_writes (s_w s) \<noteq> []" by (cases x) auto
    then show ?thesis
    proof cases
      case 1
      obtain p s' where h: "handle usr x ac s = Ok (p, s')" "outcome K Q vs (p, s')" "p \<noteq> None \<longrightarrow> todo (w_reads (s_w s')) < todo (w_reads (s_w s))"
        using handleRead_total [OF assms Cons.prems 1(2)] 1(1) by auto
      show ?thesis
      proof (cases p)
        case None
        then show ?thesis using h(1,2) True by (simp add: loop_end_def)
      next
        case (Some ac')
        obtain us' r' where "begins K Q vs ac' s' us' r'" using outcome_begins h(2) Some by blast
        from Cons.IH [OF this] obtain y where y: "event_loop usr xs ac' s' = Ok y"
          "loop_end K Q vs (data (w_reads (s_w s')) = [] \<or> todo (w_reads (s_w s')) \<le> count_list xs Readable) y" by blast
        have "event_loop usr (x # xs) ac s = Ok y" using y(1) h(1) True Some by simp
        moreover have "loop_end K Q vs (data (w_reads (s_w s)) = [] \<or> todo (w_reads (s_w s)) \<le> count_list (x # xs) Readable) y"
          by (rule loop_end_mono [OF y(2)]) (use h(3) Some 1 in auto)
        ultimately show ?thesis by blast
      qed
    next
      case 2
      obtain ac' s' where "handle usr x ac s = Ok (Some ac', s')" "begins K Q vs ac' s' us r" "w_reads (s_w s') = w_reads (s_w s)"
        using handleWrite_total [OF Cons.prems 2(2), of usr] 2(1) by auto
      then show ?thesis using Cons.IH [of ac' s' us r] True 2(1) by simp
    qed
  qed
qed

lemma event_loop_post:
  assumes "user_ok usr"
  shows "aok ac s \<Longrightarrow> post (event_loop usr xs ac s) apost"
proof (induction xs arbitrary: ac s)
  case (Cons x xs)
  have "post (cbind (handle usr x ac s) (\<lambda>(p, s). case p of None \<Rightarrow> Ok (None, s) | Some ac \<Rightarrow> event_loop usr xs ac s)) apost" if "request_ok x"
    by (rule post_bind [OF handle_post [OF assms Cons.prems that]]) (use Cons.IH in \<open>auto split: option.splits\<close>)
  then show ?case using Cons by (cases x) (auto simp: request_ok_def)
qed simp

section \<open>Commands before the first reply\<close>

definition callback :: "nat \<times> nat \<Rightarrow> redisCallback" where
  "callback t = \<lparr>cb_fn = Some (fst t), cb_privdata = snd t\<rparr>"

text \<open>A formatted command is a C string; its length does not count the terminator.\<close>

definition issue :: "((nat \<times> nat) \<times> mem) list \<Rightarrow> request list" where
  "issue cmds = map (\<lambda>(t, cmd). Issue (callback t) (cmd @ [NUL]) (length cmd)) cmds"

lemma callback_simps [simp]: "cb_fn (callback t) = Some (fst t)" "target (callback t) = [t]"
  by (simp_all add: callback_def target_def)

lemma issue_total:
  "list_all (\<lambda>(t, cmd). command_kind (cmd @ [NUL]) = Ok Regular) cmds \<Longrightarrow> aok ac s \<Longrightarrow> \<not> refusing ac \<Longrightarrow>
   can_write (length (concat (map snd cmds)) + n) ac s \<Longrightarrow>
   \<exists>ac' s'. session usr (issue cmds) ac s = Ok (Some ac', s') \<and> aok ac' s' \<and> can_write n ac' s' \<and> input ac' s' = input ac s \<and>
     ac_replies ac' = ac_replies ac @ map (callback \<circ> fst) cmds \<and> c_flags (ac_c ac') = c_flags (ac_c ac) \<and>
     w_soerr (s_w s') = w_soerr (s_w s) \<and> runs (s_log s') = runs (s_log s)"
proof (induction cmds arbitrary: ac s)
  case (Cons x cmds)
  obtain t cmd where x: "x = (t, cmd)" "cb_fn (callback t) \<noteq> None" "command_kind (cmd @ [NUL]) = Ok Regular" using Cons.prems(1) by (cases x) auto
  have a: "plain ac" "queue_ok ac s" using Cons.prems(2) by (auto simp: aok_def)
  have "can_write (length cmd + (length (concat (map snd cmds)) + n)) ac s" using Cons.prems(4) x(1) by (simp add: add.assoc)
  from command_total [OF this a(1) x(3) _, of "callback t"] Cons.prems(3) obtain res ac1 s1 where
    r: "async_cmd ac s (callback t) (cmd @ [NUL]) (length cmd) = Ok (res, ac1, s1)" "can_write (length (concat (map snd cmds)) + n) ac1 s1"
      "c_flags (ac_c ac1) = c_flags (ac_c ac)" "w_soerr (s_w s1) = w_soerr (s_w s)" "ac_replies ac1 = ac_replies ac @ [callback t]" by auto
  have c: "aok ac1 s1" "input ac1 s1 = input ac s" "runs (s_log s1) = runs (s_log s)"
    using postD [OF async_cmd_post [OF a x(2,3)] r(1)] by (auto simp: calm_def aok_def)
  have "\<not> refusing ac1" using Cons.prems(3) r(3) by (simp add: refusing_def has_flag_def)
  from Cons.IH [OF _ c(1) this r(2)] Cons.prems(1) obtain ac2 s2 where
    "session usr (issue cmds) ac1 s1 = Ok (Some ac2, s2)" "aok ac2 s2" "can_write n ac2 s2" "input ac2 s2 = input ac1 s1"
    "ac_replies ac2 = ac_replies ac1 @ map (callback \<circ> fst) cmds" "c_flags (ac_c ac2) = c_flags (ac_c ac1)" "w_soerr (s_w s2) = w_soerr (s_w s1)"
    "runs (s_log s2) = runs (s_log s1)" by auto
  then show ?case using r c x(1) by (simp add: issue_def redisAsyncFormattedCommand_def)
qed (simp add: issue_def)


text \<open>Callbacks and values, paired.\<close>

lemma paired:
  assumes "map snd R = A @ replicate m None" "map fst R @ rest = Q @ l" "length A \<le> length Q"
  shows "R = zip (take (length A) Q) A @ map (\<lambda>t. (t, None)) (drop (length A) (map fst R)) \<and> length (drop (length A) (map fst R)) = m"
proof -
  have len: "length R = length A + m" using arg_cong [OF assms(1), of length] by simp
  have "take (length A) (map fst R @ rest) = take (length A) Q" unfolding assms(2) using assms(3) by simp
  then have f: "take (length A) (map fst R) = take (length A) Q" using len by simp
  have "drop (length A) (map snd R) = replicate m None" using assms(1) by simp
  then have "drop (length A) R = map (\<lambda>t. (t, None)) (drop (length A) (map fst R))"
    using len by (auto simp: list_eq_iff_nth_eq nth_append prod_eq_iff)
  moreover have "take (length A) R = zip (take (length A) Q) A"
  proof -
    have "take (length A) R = zip (take (length A) (map fst R)) (take (length A) (map snd R))" by (simp add: take_map zip_map_fst_snd)
    then show ?thesis using f assms(1) by simp
  qed
  ultimately show ?thesis using len by (metis append_take_drop_id diff_add_inverse length_drop length_map)
qed

lemma issued_begins:
  assumes "redisAsyncConnect ip port w0 = Ok (Some ac, w)" "ac_err ac = 0" "w_soerr w = Inr None # soerrs"
    "env_ok w" "heap_ok (w_heap w)" "reads_ok (w_reads w)" "writes_ok (w_writes w)"
    "data (w_reads w) = concat (map encode vs)" "sds_fits (length (data (w_reads w)))" "replies_ok vs"
    "list_all (\<lambda>(t, cmd). command_kind (cmd @ [NUL]) = Ok Regular) cmds" "sds_fits (length (concat (map snd cmds)) + K * length vs)" "length vs \<le> length cmds"
  shows "\<exists>ac1 s1 r. session usr (issue cmds) ac \<lparr>s_w = w, s_log = []\<rparr> = Ok (Some ac1, s1) \<and> begins K (map fst cmds) vs ac1 s1 vs r \<and>
    w_reads (s_w s1) = w_reads w"
proof -
  note f = redisAsyncConnect_fresh [OF assms(1)]
  let ?s = "\<lparr>s_w = w, s_log = []\<rparr>"
  have "can_write (length (concat (map snd cmds)) + K * length vs) ac ?s" using f(6-8) assms(2,4,7,12) by (simp add: can_write_def)
  moreover have "\<not> refusing ac" using f(1) by (simp add: refusing_def has_flag_def)
  ultimately obtain ac1 s1 where i: "session usr (issue cmds) ac ?s = Ok (Some ac1, s1)" "aok ac1 s1" "can_write (K * length vs) ac1 s1"
    "input ac1 s1 = input ac ?s" "ac_replies ac1 = map (callback \<circ> fst) cmds" "w_soerr (s_w s1) = w_soerr w" "runs (s_log s1) = []"
    using issue_total [OF assms(11) f(9), of "K * length vs" usr] f(2) by auto
  obtain r e where r: "c_reader (ac_c ac) = Some r" "redisReaderCreateWithFunctions e (Some defaultFunctions) = Ok r"
    using f(10) by (auto simp: redisReaderCreate_def)
  note g = fresh_reader [OF r(2)]
  have pd: "r_privdata r = 0" "r_reply r = 0" using r(2) by (auto simp: redisReaderCreateWithFunctions_def split: if_splits)
  have idle: "idle (start (core r)) (Some defaultFunctions) 0" using idle_start [of "core r"] g pd by (auto simp: reader_inv_def)
  have in1: "c_reader (ac_c ac1) = Some r" "w_heap (s_w s1) = w_heap w" "w_reads (s_w s1) = w_reads w" "w_env (s_w s1) = w_env w"
    using i(4) r(1) by (auto simp: input_def)
  have "between r (data (w_reads (s_w s1))) vs (w_heap (s_w s1))" using idle pd(2) g in1 assms(5,8) by (simp add: between_def)
  then have "expects r (data (w_reads (s_w s1))) vs (w_heap (s_w s1))" by (rule between_expects [OF _ assms(10)])
  moreover have "flow K ac1 s1 vs r"
    using i in1 g assms(4,6,9,10,13) by (auto simp: flow_def rd_ok_def can_write_def env_ok_def)
  moreover have "queued (s_log s1) = map fst cmds" using i(2,5,7) by (simp add: aok_def queue_ok_def comp_def)
  moreover have "data (w_reads w) = [] \<longrightarrow> vs = []" using assms(8) encode_nonempty by (cases vs) auto
  ultimately show ?thesis using i(1,6,7) in1(3) assms(3) by (auto simp: begins_def linked_up_def)
qed

section \<open>Properties\<close>





definition async_world :: world where
  "async_world = example_world\<lparr>w_resolve := (\<lambda>_ _ _. Inr [1]), w_sys := [Inr 5, Inr 0, Inr 0, Inl EINPROGRESS, Inr 0], w_soerr := [Inr None]\<rparr>"

definition ping :: string where
  "ping = ''*1'' @ crlf @ ''$4'' @ crlf @ ''PING'' @ crlf"

definition incr :: string where
  "incr = ''*2'' @ crlf @ ''$4'' @ crlf @ ''INCR'' @ crlf @ ''$1'' @ crlf @ ''x'' @ crlf"

definition pinger :: user where
  "pinger l f pd v = (if f = 1 \<and> v \<noteq> None then [Command (callback (3, 30)) (ping @ [NUL]) (length ping)] else [])"

lemma command_kinds: "command_kind (ping @ [NUL]) = Ok Regular" "command_kind (incr @ [NUL]) = Ok Regular"
  by (simp_all add: ping_def incr_def crlf_def) (code_simp+)

lemma pinger_ok: "user_ok pinger" "user_within 14 pinger"
  using command_kinds by (simp_all add: user_ok_def user_within_def pinger_def act_ok_def act_whole_def ping_def crlf_def)

lemma async_connects:
  "\<exists>ac w. redisAsyncConnect ''localhost'' 6379 (async_world\<lparr>w_reads := rs\<rparr>) = Ok (Some ac, w) \<and> ac_err ac = 0 \<and> w_soerr w = [Inr None] \<and>
     w_env w = w_env async_world \<and> w_heap w = w_heap async_world \<and> w_reads w = rs \<and> w_writes w = w_writes async_world"
proof -
  obtain b where b: "sdsempty plenty = Ok b" using returns_ex [OF sdsempty_spec alloc_ok_plenty] by blast
  obtain r where r: "redisReaderCreate plenty = Ok r" using create_plenty by (auto simp: redisReaderCreate_def)
  have pl: "can_alloc plenty n" for n by (simp add: plenty_def)
  show ?thesis using b r
    by (simp add: redisAsyncConnect_def async_of_def redisConnectNonBlock_def connect_with_def redisContextInit_def Let_def async_world_def
        example_world_def envs_def pl tick_def redisContextConnectTcp_def tcp_connect_def keep_params_def connect_loop.simps
        sys_socket_def sys_call_def redisSetBlocking_def bind_source_def finish_connect_def redisSetTcpNoDelay_def
        sys_setsockopt_def redis_consts REDIS_CONNECTED_def REDIS_BLOCK_def REDIS_REUSEADDR_def redisAsyncInitialize_def dictCreate_def
        redisAsyncCopyError_def)
qed



lemma session_append: "session usr (xs @ ys) ac s = cbind (session usr xs ac s) (\<lambda>(p, s). case p of None \<Rightarrow> Ok (None, s) | Some ac \<Rightarrow> session usr ys ac s)"
  by (induction xs arbitrary: ac s) (auto simp: cbind_assoc split: option.splits intro!: arg_cong2 [of _ _ _ _ cbind])


end
