(* ===== verification/Async_Subscribe.thy ===== *)
theory Async_Subscribe
  imports Async_Delivery
begin

text \<open>
  Subscriptions of the asynchronous client of \<^verbatim>\<open>src/win/hiredis/async.c\<close>: the arguments that
  \<^verbatim>\<open>__redisAsyncCommand\<close> reads back out of a formatted command are the words it was formatted from,
  a \<^verbatim>\<open>SUBSCRIBE\<close> enters the callback for every one of its channels in the hash table, and a message
  is handed to the callback of its channel until the channel is unsubscribed.
\<close>

section \<open>Reading a formatted command\<close>

lemma dec_nat_digits:
  "\<forall>c \<in> set (dec_nat n). c_isdigit c \<and> \<not> c_isspace c \<and> c \<noteq> NUL \<and> c \<noteq> CHR ''$''" "digits_value (dec_nat n) = n"
proof (induction n rule: dec_nat.induct)
  case (1 n)
  have s: "dec_nat n = (if n < 10 then [digit_char n] else dec_nat (n div 10) @ [digit_char (n mod 10)])" by (rule dec_nat.simps)
  have v: "digits_value (xs @ [c]) = digits_value xs * 10 + (of_char c - 48)" for xs c by (simp add: digits_value_def)
  {
    case 1
    show ?case using digit_char_facts [of n] digit_char_facts [of "n mod 10"] "1.IH"(1) unfolding s by auto
  next
    case 2
    show ?case using digit_char_facts(1) [of n] digit_char_facts(1) [of "n mod 10"] "1.IH"(2) unfolding s
      by (auto simp: v) (simp add: digits_value_def)
  }
qed

lemma strtol_digits:
  assumes "n \<le> 2147483647"
  shows "strtol_dec (dec_nat n @ CR # t) = int n"
proof -
  obtain c ds where d: "dec_nat n = c # ds" "c \<noteq> CHR ''-''" "c \<noteq> CHR ''+''" using dec_nat_head [of n] by blast
  have "\<not> c_isspace c" using dec_nat_digits(1) [of n] d(1) by simp
  then have w: "dropWhile c_isspace (dec_nat n @ CR # t) = dec_nat n @ CR # t" using d(1) by simp
  have cr: "\<not> c_isdigit CR" by (simp add: c_isdigit_def)
  have "takeWhile c_isdigit (dec_nat n @ CR # t) = dec_nat n" using dec_nat_digits(1) [of n] cr by (simp add: takeWhile_append2)
  then show ?thesis using assms d dec_nat_digits(2) [of n] unfolding strtol_dec_def w by (simp add: Let_def)
qed

lemma find_chr_skip: "ch \<notin> set xs \<Longrightarrow> NUL \<notin> set xs \<Longrightarrow> find_chr ch (xs @ ys) i = find_chr ch ys (i + int (length xs))"
  by (induction xs arbitrary: i) (auto simp: add.assoc)

lemma mem_read_at: "mem_read (pre @ c # rest) (int (length pre)) = Ok c"
  by (simp add: mem_read_def nth_append)

lemma next_bulk:
  assumes "length x \<le> 2147483647"
  shows "nextArgument (pre @ bulk_text x @ rest) (int (length pre)) =
    Ok (Some (int (length (pre @ bulk_text x)), int (length pre + length (dec_nat (length x)) + 3), length x))"
proof -
  let ?D = "dec_nat (length x)" and ?m = "pre @ bulk_text x @ rest"
  have m: "?m = pre @ CHR ''$'' # ?D @ CR # LF # x @ crlf @ rest" by (simp add: bulk_text_def crlf_def)
  have c: "mem_read ?m (int (length pre)) = Ok (CHR ''$'')" unfolding m by (simp add: mem_read_def nth_append)
  have t: "drop (nat (int (length pre) + 1)) ?m = ?D @ CR # LF # x @ crlf @ rest" unfolding m by (simp add: nat_add_distrib)
  have "CR \<notin> set (CHR ''$'' # ?D)" "NUL \<notin> set (CHR ''$'' # ?D)" using dec_nat_no_crlf(2) [of "length x"] dec_nat_digits(1) [of "length x"] by auto
  from find_chr_skip [OF this, of "CR # LF # x @ crlf @ rest" "int (length pre)"]
  have q: "strchr_at ?m (int (length pre)) CR = Ok (Some (int (length pre) + 1 + int (length ?D)))"
    unfolding strchr_at_def m by (simp add: add.commute add.left_commute)
  show ?thesis using c q t strtol_digits [OF assms, of "LF # x @ crlf @ rest"] assms
    by (simp add: nextArgument_def bulk_text_def crlf_def)
qed

lemma next_first:
  "nextArgument (CHR ''*'' # dec_nat k @ crlf @ bulk_text x @ rest) 0 =
   nextArgument (CHR ''*'' # dec_nat k @ crlf @ bulk_text x @ rest) (int (length (CHR ''*'' # dec_nat k @ crlf)))"
proof -
  let ?h = "CHR ''*'' # dec_nat k @ crlf"
  let ?m = "?h @ bulk_text x @ rest"
  have b: "bulk_text x @ rest = CHR ''$'' # dec_nat (length x) @ crlf @ x @ crlf @ rest" by (simp add: bulk_text_def)
  have "CHR ''$'' \<notin> set ?h" "NUL \<notin> set ?h" using dec_nat_digits(1) [of k] by (auto simp: crlf_def)
  from find_chr_skip [OF this, of "bulk_text x @ rest" 0]
  have f: "strchr_at ?m 0 (CHR ''$'') = Ok (Some (int (length ?h)))" unfolding strchr_at_def b by simp
  have c: "mem_read ?m 0 = Ok (CHR ''*'')" by (simp add: mem_read_def)
  have d: "mem_read ?m (int (length ?h)) = Ok (CHR ''$'')" unfolding b by (rule mem_read_at)
  have "nextArgument ?m 0 = nextArgument ?m (int (length ?h))" using f c d by (simp add: nextArgument_def del: append_Cons append.simps)
  then show ?thesis by simp
qed

lemma next_end: "nextArgument (pre @ [NUL]) (int (length pre)) = Ok None"
  by (simp add: nextArgument_def mem_read_def nth_append strchr_at_def)


lemma ci_prefix_ok:
  "map c_tolower t = u \<Longrightarrow> ci_prefix (pre @ t @ rest) (int (length pre)) u = Ok True"
proof (induction t arbitrary: pre u)
  case (Cons a t)
  have "ci_prefix ((pre @ [a]) @ t @ rest) (int (length (pre @ [a]))) (map c_tolower t) = Ok True" by (rule Cons.IH) simp
  then show ?case using Cons.prems mem_read_at [of pre a "t @ rest"] by (auto simp: add.commute)
qed simp

section \<open>The tables\<close>

definition table :: "bool \<Rightarrow> redisAsyncContext \<Rightarrow> (string, redisCallback) dict" where
  "table pat ac = (if pat then ac_patterns ac else ac_channels ac)"

definition set_table :: "bool \<Rightarrow> (string, redisCallback) dict \<Rightarrow> redisAsyncContext \<Rightarrow> redisAsyncContext" where
  "set_table pat d ac = (if pat then ac\<lparr>ac_patterns := d\<rparr> else ac\<lparr>ac_channels := d\<rparr>)"

lemma table_simps [simp]:
  "table pat (set_table pat d ac) = d" "set_table pat d (set_table pat e ac) = set_table pat d ac"
  "ac_c (set_table pat d ac) = ac_c ac" "ac_replies (set_table pat d ac) = ac_replies ac"
  "table pat (set_flag f ac) = table pat ac" "table pat (ac\<lparr>ac_c := c\<rparr>) = table pat ac"
  by (auto simp: table_def set_table_def)

lemma set_table_id [simp]: "set_table pat (table pat ac) ac = ac"
  by (simp add: table_def set_table_def)

lemma callbackDict_ok: "dict_type_ok callbackDict" "dictSetHashVal callbackDict v = v"
  by (auto simp: dict_type_ok_def callbackDict_def dictCompareHashKeys_def dictSetHashKey_def dictSetHashVal_def callbackKeyCompare_def callbackValDup_def)

lemma subscribe_loop_enters:
  "length chs < n \<Longrightarrow> env_ok w \<Longrightarrow> \<forall>x \<in> set chs. length x \<le> 2147483647 \<Longrightarrow> dict_inv callbackDict (table pat ac) \<Longrightarrow>
   dt_used (table pat ac) + length chs < 2 ^ 30 \<Longrightarrow>
   \<exists>d. subscribe_loop n pat cb (pre @ concat (map bulk_text chs) @ [NUL]) (int (length pre)) ac w = Ok (set_table pat d ac, (tick ^^ length chs) w) \<and>
     dict_inv callbackDict d \<and> dict_map d = (\<lambda>k. if k \<in> set chs then Some cb else dict_map (table pat ac) k)"
proof (induction chs arbitrary: n pre ac w)
  case Nil
  then show ?case using next_end [of pre] by (cases n) (auto intro!: exI [of _ "table pat ac"])
next
  case (Cons x chs)
  obtain k where n: "n = Suc k" "length chs < k" using Cons.prems(1) by (cases n) auto
  let ?D = "dec_nat (length x)" and ?rest = "concat (map bulk_text chs) @ [NUL]"
  let ?m = "pre @ bulk_text x @ ?rest"
  have len: "length x \<le> 2147483647" using Cons.prems(3) by simp
  note nx = next_bulk [OF len, of pre ?rest]
  have dr: "drop (length pre + length ?D + 3) ?m = x @ crlf @ ?rest"
  proof -
    have e: "length pre + length ?D + 3 = length (pre @ CHR ''$'' # ?D @ crlf)" "?m = (pre @ CHR ''$'' # ?D @ crlf) @ x @ crlf @ ?rest"
      by (simp_all add: bulk_text_def crlf_def)
    show ?thesis unfolding e by (rule append_eq_conv_conj [THEN iffD1, THEN conjunct2, symmetric]) (rule refl)
  qed
  have al: "alloc_ok (envs w 0 j)" for j by (rule env_okD [OF Cons.prems(2)])
  from returns_ex [OF sdsnewlen_spec [of "length x" "x @ crlf @ ?rest"] al] len obtain sn where
    sn: "sdsnewlen (envs w 0 0) (Some (x @ crlf @ ?rest)) (length x) = Ok sn" "sds_content sn = x" by auto
  have used: "dt_used (table pat ac) < 2 ^ 30" using Cons.prems(5) by simp
  from dictReplace_spec [OF callbackDict_ok(1) Cons.prems(4) al al used, of 1 2 x cb] obtain ret d1 ev where
    d1: "dictReplace (envs w 0 1) (envs w 0 2) callbackDict (table pat ac) x cb = Ok (ret, d1, ev)" "dict_inv callbackDict d1"
      "dict_map d1 = (dict_map (table pat ac))(x \<mapsto> cb)" by (auto simp: callbackDict_ok)
  have "card (dom (dict_map d1)) \<le> Suc (card (dom (dict_map (table pat ac))))" unfolding d1(3) by (simp add: card_insert_le_m1 card_insert_if)
  then have u1: "dt_used (table pat (set_table pat d1 ac)) + length chs < 2 ^ 30"
    using dict_count_card [OF d1(2)] dict_count_card [OF Cons.prems(4)] Cons.prems(5) by simp
  have "env_ok (tick w)" using Cons.prems(2) by (simp add: env_ok_def)
  from Cons.IH [OF n(2) this, of "set_table pat d1 ac" "pre @ bulk_text x"] Cons.prems(3) d1(2) u1 obtain d where
    i: "subscribe_loop k pat cb ((pre @ bulk_text x) @ ?rest) (int (length (pre @ bulk_text x))) (set_table pat d1 ac) (tick w) =
        Ok (set_table pat d ac, (tick ^^ length chs) (tick w))" "dict_inv callbackDict d"
      "dict_map d = (\<lambda>y. if y \<in> set chs then Some cb else dict_map d1 y)" by (auto cong: if_cong)
  have al24: "can_alloc (envs w 0 3) 24" using al by (simp add: alloc_ok_def)
  have "subscribe_loop n pat cb ?m (int (length pre)) ac w =
      subscribe_loop k pat cb ?m (int (length (pre @ bulk_text x))) (set_table pat d1 ac) (tick w)"
    using nx sn d1(1) al24 dr unfolding n(1) subscribe_loop.simps
    by (simp add: Let_def table_def set_table_def nat_add_distrib split: if_splits)
  then show ?case using i d1(3) by (auto simp: funpow_swap1 intro!: exI [of _ d])
qed


section \<open>Subscribing\<close>

definition subscribe_name :: "bool \<Rightarrow> string \<Rightarrow> bool" where
  "subscribe_name pat name \<longleftrightarrow> map c_tolower name = (if pat then ''psubscribe'' else ''subscribe'')"

lemma command_kind_subscribe:
  assumes "subscribe_name pat name" "chs \<noteq> []"
  shows "command_kind (command_text (name # chs) @ [NUL]) =
    Ok (Subscribe pat (int (length (CHR ''*'' # dec_nat (Suc (length chs)) @ crlf @ bulk_text name))))"
proof -
  let ?h = "CHR ''*'' # dec_nat (Suc (length chs)) @ crlf" and ?D = "dec_nat (length name)"
  obtain ch chs' where chs: "chs = ch # chs'" using assms(2) by (cases chs) auto
  let ?rest = "concat (map bulk_text chs) @ [NUL]"
  let ?m = "?h @ bulk_text name @ ?rest"
  have len: "length name \<le> 2147483647"
    using arg_cong [OF assms(1) [unfolded subscribe_name_def], of length] by (simp split: if_splits)
  obtain y t where y: "name = y # t" using assms(1) by (cases name) (auto simp: subscribe_name_def split: if_splits)
  have pv: "(c_tolower y = CHR ''p'') = pat" using assms(1) y by (auto simp: subscribe_name_def split: if_splits)
  define sub where "sub = (if pat then t else name) @ crlf"
  define pre where "pre = ?h @ CHR ''$'' # ?D @ crlf @ (if pat then [y] else [])"
  have m1: "?m = pre @ sub @ ?rest" using y by (simp add: pre_def sub_def bulk_text_def)
  have "c_tolower CR = CR" "c_tolower LF = LF" by (simp_all add: c_tolower_def)
  then have low: "map c_tolower sub = ''subscribe'' @ [CR, LF]"
    using assms(1) y by (auto simp: sub_def crlf_def subscribe_name_def split: if_splits)
  have ci: "ci_prefix ?m (int (length pre)) (''subscribe'' @ [CR, LF]) = Ok True"
    unfolding m1 by (rule ci_prefix_ok [OF low])
  have nx: "nextArgument ?m 0 = Ok (Some (int (length (?h @ bulk_text name)), int (length ?h + length ?D + 3), length name))"
    using next_first [of "Suc (length chs)" name ?rest] next_bulk [OF len, of ?h ?rest] by simp
  have "?rest = CHR ''$'' # dec_nat (length ch) @ crlf @ ch @ crlf @ concat (map bulk_text chs') @ [NUL]" by (simp add: chs bulk_text_def)
  then have rx: "mem_read ?m (int (length (?h @ bulk_text name))) = Ok (CHR ''$'')"
    using mem_read_at [of "?h @ bulk_text name" "CHR ''$''"] by simp
  have "?m = (?h @ CHR ''$'' # ?D @ crlf) @ y # t @ crlf @ ?rest" by (simp add: y bulk_text_def)
  then have ry: "mem_read ?m (int (length ?h + length ?D + 3)) = Ok y"
    using mem_read_at [of "?h @ CHR ''$'' # ?D @ crlf" y "t @ crlf @ ?rest"] by (simp add: crlf_def add.assoc)
  have lp: "int (length pre) = int (length ?h + length ?D + 3) + (if pat then 1 else 0)" by (simp add: pre_def crlf_def)
  have c: "command_text (name # chs) @ [NUL] = ?m" by (simp add: command_text_def)
  show ?thesis unfolding c command_kind_def using nx rx ry pv ci lp by (cases pat) (simp_all add: Let_def del: ci_prefix.simps)
qed

lemma tick_pow [simp]:
  "w_reads ((tick ^^ k) w) = w_reads w" "w_writes ((tick ^^ k) w) = w_writes w" "w_heap ((tick ^^ k) w) = w_heap w"
  "w_env ((tick ^^ k) w) = w_env w" "w_soerr ((tick ^^ k) w) = w_soerr w"
  by (induction k) (simp_all add: tick_def)

lemma subscribe_total:
  assumes "subscribe_name pat name" "chs \<noteq> []" "\<not> refusing ac" "can_write (length (command_text (name # chs))) ac s"
    "dict_inv callbackDict (table pat ac)" "dt_used (table pat ac) + length chs < 2 ^ 30"
  shows "\<exists>ac' s'. async_cmd ac s cb (command_text (name # chs) @ [NUL]) (length (command_text (name # chs))) = Ok (REDIS_OK, ac', s') \<and>
    dict_inv callbackDict (table pat ac') \<and> dict_map (table pat ac') = (\<lambda>k. if k \<in> set chs then Some cb else dict_map (table pat ac) k) \<and>
    table (\<not> pat) ac' = table (\<not> pat) ac \<and> ac_replies ac' = ac_replies ac \<and> c_flags (ac_c ac') = c_flags (ac_c ac) OR REDIS_SUBSCRIBED \<and>
    c_reader (ac_c ac') = c_reader (ac_c ac) \<and> pending (ac_c ac') = pending (ac_c ac) @ command_text (name # chs) \<and> can_write 0 ac' s' \<and>
    s_w s' = (tick ^^ Suc (length chs)) (s_w s) \<and> s_log s' = s_log (el AddWrite ac s)"
proof -
  let ?t = "command_text (name # chs)" and ?pre = "CHR ''*'' # dec_nat (Suc (length chs)) @ crlf @ bulk_text name"
  have w: "c_err (ac_c ac) = 0" "out_ok (ac_c ac)" "env_ok (s_w s)" "sds_fits (length (pending (ac_c ac)) + length ?t)" "writes_ok (w_writes (s_w s))"
    using assms(4) by (auto simp: can_write_def)
  have t: "?t @ [NUL] = ?pre @ concat (map bulk_text chs) @ [NUL]" by (simp add: command_text_def)
  have lim: "length ?t \<le> 2147483647" using w(4) by (simp add: sds_fits_def)
  have le: "length (concat (map bulk_text chs)) \<le> length ?t" by (simp add: command_text_def)
  have xs: "\<forall>x \<in> set chs. length x \<le> 2147483647"
  proof
    fix x
    assume "x \<in> set chs"
    then have "length (bulk_text x) \<le> length (concat (map bulk_text chs))" by (induction chs) auto
    then show "length x \<le> 2147483647" using lim le by (simp add: bulk_text_def)
  qed
  have "length chs < Suc (length (?t @ [NUL]))" using length_command_ge [of "name # chs"] by simp
  from subscribe_loop_enters [OF this w(3) xs, of pat "set_flag REDIS_SUBSCRIBED ac" cb ?pre] assms(5,6) obtain d where
    d: "subscribe_loop (Suc (length (?t @ [NUL]))) pat cb (?t @ [NUL]) (int (length ?pre)) (set_flag REDIS_SUBSCRIBED ac) (s_w s) =
        Ok (set_table pat d (set_flag REDIS_SUBSCRIBED ac), (tick ^^ length chs) (s_w s))"
      "dict_inv callbackDict d" "dict_map d = (\<lambda>k. if k \<in> set chs then Some cb else dict_map (table pat ac) k)"
    unfolding t by (auto cong: if_cong)
  let ?ac = "set_table pat d (set_flag REDIS_SUBSCRIBED ac)" and ?w = "(tick ^^ length chs) (s_w s)"
  have ew: "env_ok ((tick ^^ k) (s_w s))" for k using w(3) by (induction k) (simp_all add: env_ok_def)
  have fl: "c_err (ac_c ?ac) = 0" "out_ok (ac_c ?ac)" "pending (ac_c ?ac) = pending (ac_c ac)"
    using w(1,2) by (simp_all add: set_flag_def out_ok_def pending_def)
  have "sds_fits (length (pending (ac_c ?ac)) + length ?t)" using w(4) fl(3) by simp
  from append_cmd_goes [OF fl(1,2) ew _ this, of "?t @ [NUL]" "length chs"] obtain c where
    c: "append_cmd (ac_c ?ac) ?w (?t @ [NUL]) (length ?t) = Ok (REDIS_OK, c, tick ?w)" "c_flags c = c_flags (ac_c ac) OR REDIS_SUBSCRIBED"
      "pending c = pending (ac_c ac) @ ?t" "c_reader c = c_reader (ac_c ac)" "c_err c = 0" "out_ok c" using fl(3) by (auto simp: set_flag_def)
  let ?a = "?ac\<lparr>ac_c := c\<rparr>"
  let ?s = "el AddWrite ?a (s\<lparr>s_w := tick ?w\<rparr>)"
  have k: "command_kind (?t @ [NUL]) = Ok (Subscribe pat (int (length ?pre)))" using command_kind_subscribe [OF assms(1,2)] by simp
  have r: "async_cmd ac s cb (?t @ [NUL]) (length ?t) = Ok (REDIS_OK, ?a, ?s)"
    using assms(3) k d(1) c(1) unfolding async_cmd_def refusing_def by (simp add: append_async_def Let_def del: subscribe_loop.simps)
  have "env_ok (tick ?w)" using ew [of "length chs"] by (simp add: env_ok_def)
  then have "can_write 0 ?a ?s" using c(3,5,6) w(4,5) by (simp add: can_write_def)
  moreover have "ac_ev ?a = ac_ev ac" by (simp add: set_table_def set_flag_def)
  moreover have "table (\<not> pat) ?a = table (\<not> pat) ac" by (simp add: table_def set_table_def)
  ultimately show ?thesis using d(2,3) c(2-4)
    by (intro exI [of _ ?a] exI [of _ ?s] conjI) (simp_all add: r el_def emit_def del: subscribe_loop.simps)
qed


section \<open>Messages\<close>

text \<open>
  The variant of a message is told by its first letter; what follows the letter of the variant of
  patterns says what the message is.
\<close>

definition message_type :: "bool \<Rightarrow> string \<Rightarrow> bool" where
  "message_type pat ty \<longleftrightarrow> ty \<noteq> [] \<and> NUL \<notin> set ty \<and> (c_tolower (hd ty) = CHR ''p'') = pat"

abbreviation unvaried :: "bool \<Rightarrow> string \<Rightarrow> string" where
  "unvaried pat ty \<equiv> drop (if pat then 1 else 0) ty"

lemma message_objects:
  assumes "built (w_heap w) p (Multi (Bulk ty # Bulk ch # us))"
  shows "obj_at w p = Ok \<lparr>rr_type = REDIS_REPLY_ARRAY, rr_integer = 0, rr_len = 0, rr_str = None, rr_elements = Suc (Suc (length us)),
      rr_element = Some (Suc p # Suc (Suc p) # addresses (p + 3) us)\<rparr>"
    "obj_at w (Suc p) = Ok \<lparr>rr_type = REDIS_REPLY_STRING, rr_integer = 0, rr_len = to_i32 (int (length ty)),
      rr_str = Some (ty @ [NUL]), rr_elements = 0, rr_element = None\<rparr>"
    "obj_at w (Suc (Suc p)) = Ok \<lparr>rr_type = REDIS_REPLY_STRING, rr_integer = 0, rr_len = to_i32 (int (length ch)),
      rr_str = Some (ch @ [NUL]), rr_elements = 0, rr_element = None\<rparr>"
    "laid_list (hp_objs (w_heap w)) (p + 3) us"
  using assms by (auto simp: built_def obj_at_def numeral_3_eq_3)

text \<open>The name of the channel is found in the table of its variant.\<close>

lemma message_found:
  assumes "built (w_heap w) p (Multi (Bulk ty # Bulk ch # us))" "env_ok w" "length ch \<le> 2147483647" "message_type pat ty"
    "dict_inv callbackDict (table pat ac)"
  shows "redisGetSubscribeCallback ac w p dst =
    (case dict_map (table pat ac) ch of
       None \<Rightarrow> Ok (dst, ac, tick w)
     | Some cb \<Rightarrow>
         if unvaried pat ty = ''unsubscribe'' then
           cbind (dictDelete callbackDict (table pat ac) ch) (\<lambda>(_, d, _).
           cbind (case us of [] \<Rightarrow> Fault OutOfBounds | _ \<Rightarrow> obj_at w (p + 3)) (\<lambda>e2.
             if rr_type e2 \<noteq> REDIS_REPLY_INTEGER then Fault AssertFailed
             else Ok (cb, if rr_integer e2 = 0 then clear_flag REDIS_SUBSCRIBED (set_table pat d ac) else set_table pat d ac, tick w)))
         else Ok (cb, ac, tick w))"
proof -
  note o = message_objects [OF assms(1)]
  obtain y t where y: "ty = y # t" "NUL \<notin> set ty" "(c_tolower y = CHR ''p'') = pat" using assms(4) by (cases ty) (auto simp: message_type_def)
  have al: "alloc_ok (envs w 0 0)" by (rule env_okD [OF assms(2)])
  from returns_ex [OF sdsnewlen_spec [of "length ch" "ch @ [NUL]"] al] assms(3) obtain sn where
    sn: "sdsnewlen (envs w 0 0) (Some (ch @ [NUL])) (length ch) = Ok sn" "sds_content sn = ch" by auto
  have l: "to_size (to_i32 (int (length ch))) = length ch" using assms(3) by simp
  have sl: "c_strlen (ty @ [NUL]) = Ok (length ty)" using c_strlen_cstr [OF y(2)] by (simp add: cstr_def)
  have rd: "mem_read (ty @ [NUL]) 0 = Ok y" by (simp add: y(1) mem_read_def)
  have ob: "obj_at (tick w) = obj_at w" by (rule ext) (simp add: obj_at_def)
  have df: "dictFind callbackDict (table pat ac) ch = Ok (map_option (Pair ch) (dict_map (table pat ac) ch))"
    by (rule dictFind_spec [OF callbackDict_ok(1) assms(5)])
  have tb: "(if pat then ac_patterns ac else ac_channels ac) = table pat ac" by (simp add: table_def)
  have st: "(if pat then ac\<lparr>ac_patterns := d\<rparr> else ac\<lparr>ac_channels := d\<rparr>) = set_table pat d ac" for d by (simp add: set_table_def)
  show ?thesis
  proof (cases "dict_map (table pat ac) ch")
    case None
    then show ?thesis unfolding redisGetSubscribeCallback_def
      using sn by (simp add: o element_at_def str_of_def rd y(3) l tb df Let_def del: to_i32_id)
  next
    case (Some cb)
    show ?thesis unfolding redisGetSubscribeCallback_def
      using sn Some by (simp add: o element_at_def str_of_def rd y(3) l tb df st sl ob Let_def del: to_i32_id)
        (cases us; simp)
  qed
qed


section \<open>What a subscriber is told\<close>

text \<open>
  Subscriptions seen from outside are two maps from names to callbacks, one of channels and one of
  patterns. A message goes to the callback of its name; the confirmation that a name is
  unsubscribed goes there too and removes the name. The last name may only go with the last message
  (\<open>others\<close> says whether others follow).
\<close>

type_synonym names = "bool \<Rightarrow> string \<Rightarrow> redisCallback option"

inductive message :: "names \<Rightarrow> resp \<Rightarrow> bool \<Rightarrow> redisCallback \<Rightarrow> names \<Rightarrow> bool" where
  published: "m pat ch = Some cb \<Longrightarrow> message_type pat ty \<Longrightarrow> unvaried pat ty \<noteq> ''unsubscribe'' \<Longrightarrow> length ch \<le> 2147483647 \<Longrightarrow>
    message m (Multi (Bulk ty # Bulk ch # us)) others cb m"
| unsubscribed: "m pat ch = Some cb \<Longrightarrow> message_type pat ty \<Longrightarrow> unvaried pat ty = ''unsubscribe'' \<Longrightarrow> length ch \<le> 2147483647 \<Longrightarrow>
    (others \<longrightarrow> n \<noteq> 0) \<Longrightarrow> message m (Multi (Bulk ty # Bulk ch # Integer n # us)) others cb (m(pat := (m pat)(ch := None)))"

inductive messages :: "names \<Rightarrow> resp list \<Rightarrow> ((nat \<times> nat) \<times> resp option) list \<Rightarrow> names \<Rightarrow> bool" where
  no_message: "messages m [] [] m"
| next_message: "message m v (vs \<noteq> []) cb m1 \<Longrightarrow> messages m1 vs out m2 \<Longrightarrow>
    messages m (v # vs) (map (\<lambda>t. (t, Some (canon v))) (target cb) @ out) m2"

inductive_cases messages_ConsE: "messages m (v # vs) out m2"

definition subs :: "names \<Rightarrow> bool \<Rightarrow> redisAsyncContext \<Rightarrow> bool" where
  "subs m others ac \<longleftrightarrow> \<not> refusing ac \<and> \<not> has_flag REDIS_MONITORING ac \<and> \<not> has_flag REDIS_BLOCK ac \<and> has_flag REDIS_CONNECTED ac \<and>
     ac_replies ac = [] \<and> (others \<longrightarrow> has_flag REDIS_SUBSCRIBED ac) \<and>
     (\<forall>pat. dict_inv callbackDict (table pat ac) \<and> dict_map (table pat ac) = m pat)"

lemma clear_subscribed [simp]:
  "refusing (clear_flag REDIS_SUBSCRIBED ac) = refusing ac" "has_flag REDIS_MONITORING (clear_flag REDIS_SUBSCRIBED ac) = has_flag REDIS_MONITORING ac"
  "has_flag REDIS_BLOCK (clear_flag REDIS_SUBSCRIBED ac) = has_flag REDIS_BLOCK ac"
  "has_flag REDIS_CONNECTED (clear_flag REDIS_SUBSCRIBED ac) = has_flag REDIS_CONNECTED ac"
  by (simp_all add: refusing_def has_flag_def clear_flag_def flag_consts and.assoc)

lemma table_flags [simp]:
  "table pat (clear_flag f ac) = table pat ac" "has_flag f (set_table pat d ac) = has_flag f ac" "refusing (set_table pat d ac) = refusing ac"
  "table pat' (set_table pat d ac) = (if pat' = pat then d else table pat' ac)"
  by (auto simp: table_def set_table_def has_flag_def refusing_def)

lemma message_chosen:
  assumes "message m v others cb m1" "subs m True ac" "built (w_heap (s_w s)) q v" "env_ok (s_w s)"
  shows "\<exists>ac'. choose_callback ac s q cb0 = Ok (Inr (cb, ac', s\<lparr>s_w := tick (s_w s)\<rparr>)) \<and> subs m1 others ac' \<and>
    c_reader (ac_c ac') = c_reader (ac_c ac) \<and> c_err (ac_c ac') = c_err (ac_c ac) \<and> can_write 0 ac' s = can_write 0 ac s"
  using assms(1)
proof cases
  case (published pat ch ty us)
  have s: "ac_replies ac = []" "has_flag REDIS_SUBSCRIBED ac" "dict_inv callbackDict (table pat ac)" "dict_map (table pat ac) = m pat"
    using assms(2) by (auto simp: subs_def)
  note b = assms(3) [unfolded published(1)]
  have "redisGetSubscribeCallback ac (s_w s) q cb0 = Ok (cb, ac, tick (s_w s))"
    using message_found [OF b assms(4) published(6,4) s(3)] s(4) published(3,5) by simp
  then have "choose_callback ac s q cb0 = Ok (Inr (cb, ac, s\<lparr>s_w := tick (s_w s)\<rparr>))"
    using s message_objects(1) [OF b] by (simp add: choose_callback_def redisShiftCallback_def redis_consts)
  then show ?thesis using assms(2) published(2) by (auto simp: subs_def)
next
  case (unsubscribed pat ch ty n us)
  have s: "ac_replies ac = []" "has_flag REDIS_SUBSCRIBED ac" "dict_inv callbackDict (table pat ac)" "dict_map (table pat ac) = m pat"
    using assms(2) by (auto simp: subs_def)
  note b = assms(3) [unfolded unsubscribed(1)]
  obtain d ev where d: "dictDelete callbackDict (table pat ac) ch = Ok (DICT_OK, d, ev)" "dict_inv callbackDict d"
    "dict_map d = (m pat)(ch := None)" using dictDelete_spec [OF callbackDict_ok(1) s(3), of ch] s(4) unsubscribed(3) by auto
  let ?ac = "if n = 0 then clear_flag REDIS_SUBSCRIBED (set_table pat d ac) else set_table pat d ac"
  have "obj_at (s_w s) (q + 3) = Ok \<lparr>rr_type = REDIS_REPLY_INTEGER, rr_integer = n, rr_len = 0, rr_str = None, rr_elements = 0, rr_element = None\<rparr>"
    using message_objects(4) [OF b] by (simp add: obj_at_def)
  then have "redisGetSubscribeCallback ac (s_w s) q cb0 = Ok (cb, ?ac, tick (s_w s))"
    using message_found [OF b assms(4) unsubscribed(6,4) s(3)] s(4) unsubscribed(3,5) d(1) by simp
  then have "choose_callback ac s q cb0 = Ok (Inr (cb, ?ac, s\<lparr>s_w := tick (s_w s)\<rparr>))"
    using s message_objects(1) [OF b] by (simp add: choose_callback_def redisShiftCallback_def redis_consts)
  moreover have "subs m1 others ?ac" using assms(2) unsubscribed(2,7) d(2,3) by (auto simp: subs_def)
  moreover have "c_reader (ac_c ?ac) = c_reader (ac_c ac)" "c_err (ac_c ?ac) = c_err (ac_c ac)" "can_write 0 ?ac s = can_write 0 ac s"
    by (auto simp: can_write_def clear_flag_def out_ok_def pending_def)
  ultimately show ?thesis by blast
qed


text \<open>Callbacks that call nothing of the client.\<close>

definition quiet :: "user \<Rightarrow> bool" where
  "quiet usr \<longleftrightarrow> (\<forall>l f pd v. usr l f pd v = [])"

definition listens :: "names \<Rightarrow> resp list \<Rightarrow> redisAsyncContext \<Rightarrow> astate \<Rightarrow> heap redisReader \<Rightarrow> bool" where
  "listens m us ac s r \<longleftrightarrow> subs m (us \<noteq> []) ac \<and> rd_ok (ac_c ac) (s_w s) r \<and> can_write 0 ac s \<and> replies_ok us"

lemma subs_in_callback [simp]: "subs m others (clear_flag REDIS_IN_CALLBACK (set_flag REDIS_IN_CALLBACK ac)) = subs m others ac"
  by (simp add: subs_def) (simp add: refusing_def has_flag_def set_flag_def clear_flag_def flag_consts and.assoc bit.conj_disj_distrib2)

lemma quiet_run:
  assumes "quiet usr" "cb_fn cb = Some f" "q \<noteq> 0"
  shows "redisRunCallback usr ac cb q s = Ok (clear_flag REDIS_IN_CALLBACK (set_flag REDIS_IN_CALLBACK ac),
    emit (Ran f (cb_privdata cb) q (reply_value 9 (hp_objs (w_heap (s_w s))) q)) s)"
  using assms by (simp add: redisRunCallback_def quiet_def Let_def)

lemma serve_message:
  assumes "quiet usr" "listens m (v # vs) ac s r" "between r (data (w_reads (s_w s))) vs (w_heap (s_w s))" "built (w_heap (s_w s)) q v"
    "message m v (vs \<noteq> []) cb m1"
  shows "\<exists>ac' s'. take_reply usr again q cb0 ac s = again cb ac' s' \<and> listens m1 vs ac' s' r \<and>
    between r (data (w_reads (s_w s'))) vs (w_heap (s_w s')) \<and> w_reads (s_w s') = w_reads (s_w s) \<and>
    runs (s_log s') = runs (s_log s) @ map (\<lambda>t. (t, Some (canon v))) (target cb)"
proof -
  have l: "subs m True ac" "rd_ok (ac_c ac) (s_w s) r" "replies_ok vs" "resp_ok v" "lines_fit v" "depth v \<le> 8" "can_write 0 ac s"
    using assms(2) by (auto simp: listens_def replies_ok_def)
  have "env_ok (s_w s)" using l(2) by (simp add: rd_ok_def)
  from message_chosen [OF assms(5) l(1) assms(4) this, of cb0] obtain ac1 where
    c: "choose_callback ac s q cb0 = Ok (Inr (cb, ac1, s\<lparr>s_w := tick (s_w s)\<rparr>))" "subs m1 (vs \<noteq> []) ac1"
      "c_reader (ac_c ac1) = Some r" "c_err (ac_c ac1) = 0" "can_write 0 ac1 s" using l(2,7) by (auto simp: rd_ok_def)
  have q0: "q \<noteq> 0" using assms(4) by (simp add: built_def)
  have val: "reply_value 9 (hp_objs (w_heap (s_w s))) q = Some (canon v)"
    by (rule laid_out_value) (use assms(4) l in \<open>auto simp: built_def\<close>)
  define ac2 where "ac2 = (if cb_fn cb = None then ac1 else clear_flag REDIS_IN_CALLBACK (set_flag REDIS_IN_CALLBACK ac1))"
  define s2 where "s2 = (case cb_fn cb of None \<Rightarrow> s\<lparr>s_w := tick (s_w s)\<rparr> |
    Some f \<Rightarrow> emit (Ran f (cb_privdata cb) q (Some (canon v))) (s\<lparr>s_w := tick (s_w s)\<rparr>))"
  have a2: "subs m1 (vs \<noteq> []) ac2" "c_reader (ac_c ac2) = Some r" "c_err (ac_c ac2) = 0" "\<not> has_flag REDIS_FREEING ac2"
  proof -
    show s2: "subs m1 (vs \<noteq> []) ac2" "c_reader (ac_c ac2) = Some r" "c_err (ac_c ac2) = 0"
      using c(2-4) by (simp_all add: ac2_def) (simp add: set_flag_def clear_flag_def)
    show "\<not> has_flag REDIS_FREEING ac2" using s2(1) by (simp add: subs_def refusing_def has_flag_or)
  qed
  have cw: "can_write 0 ac2 s" using c(5) by (simp add: ac2_def)
  have w2: "s_w s2 = tick (s_w s)" by (simp add: s2_def split: option.splits)
  have "r_fn r = Some defaultFunctions" using assms(3) start_core_fields(2) [of r] by (auto simp: between_def idle_def)
  from free_built [OF a2(2) this, of s2 q v] assms(4) w2 obtain h where
    h: "free_reply ac2 q s2 = Ok (s2\<lparr>s_w := (tick (s_w s))\<lparr>w_heap := h\<rparr>\<rparr>)" "heap_ok h" by (auto simp: tick_def)
  let ?s = "s2\<lparr>s_w := (tick (s_w s))\<lparr>w_heap := h\<rparr>\<rparr>"
  have "take_reply usr again q cb0 ac s = again cb ac2 ?s"
    using c(1) h(1) a2(4) quiet_run [OF assms(1) _ q0] val
    by (cases "cb_fn cb") (auto simp: take_reply_def serve_reply_def ac2_def s2_def tick_def)
  moreover have "listens m1 vs ac2 ?s r" using a2 l(2,3) cw by (simp add: listens_def rd_ok_def env_ok_def tick_def can_write_def)
  moreover have "between r (data (w_reads (s_w ?s))) vs (w_heap (s_w ?s))" using assms(3) h(2) by (simp add: between_def tick_def)
  moreover have "runs (s_log ?s) = runs (s_log s) @ map (\<lambda>t. (t, Some (canon v))) (target cb)"
    by (simp add: s2_def target_def emit_def split: option.splits)
  ultimately show ?thesis by (intro exI [of _ ac2] exI [of _ ?s]) (simp add: tick_def)
qed


section \<open>The event loop of a subscriber\<close>

text \<open>
  \<open>out\<close> is all that the callbacks are told in the end; so far they were told the first part of it,
  and the replies \<open>us\<close> that are still to come account for the rest.
\<close>

definition hears :: "((nat \<times> nat) \<times> resp option) list \<Rightarrow> names \<Rightarrow> resp list \<Rightarrow> redisAsyncContext \<Rightarrow> astate \<Rightarrow> heap redisReader \<Rightarrow> bool" where
  "hears out m' us ac s r \<longleftrightarrow> expects r (data (w_reads (s_w s))) us (w_heap (s_w s)) \<and>
     (\<exists>m rest. out = runs (s_log s) @ rest \<and> messages m us rest m' \<and> listens m us ac s r)"

definition heard :: "((nat \<times> nat) \<times> resp option) list \<Rightarrow> names \<Rightarrow> redisAsyncContext \<Rightarrow> astate \<Rightarrow> bool" where
  "heard out m' ac s \<longleftrightarrow> (\<exists>us r. hears out m' us ac s r \<and> (data (w_reads (s_w s)) = [] \<longrightarrow> us = []))"

lemma message_round:
  assumes "quiet usr" "hears out m' us ac s r"
  shows "(\<exists>ac' s'. process_loop_cb usr (Suc n) cb ac s = Ok (Some ac', s') \<and> heard out m' ac' s' \<and> w_reads (s_w s') = w_reads (s_w s)) \<or>
    (\<exists>v us' cb' ac' s' r'. us = v # us' \<and> process_loop_cb usr (Suc n) cb ac s = process_loop_cb usr n cb' ac' s' \<and> hears out m' us' ac' s' r' \<and>
       between r' (data (w_reads (s_w s'))) us' (w_heap (s_w s')) \<and> w_reads (s_w s') = w_reads (s_w s) \<and> r_len r' \<le> r_len r)"
proof -
  obtain m rest where h: "expects r (data (w_reads (s_w s))) us (w_heap (s_w s))" "out = runs (s_log s) @ rest" "messages m us rest m'"
    "subs m (us \<noteq> []) ac" "rd_ok (ac_c ac) (s_w s) r" "replies_ok us" "can_write 0 ac s" using assms(2) by (auto simp: hears_def listens_def)
  have nb: "\<not> blocking (ac_c ac)" using h(4) by (simp add: subs_def blocking_def has_flag_def)
  from ask [OF h(5) nb h(1)] obtain q c1 w1 r1 where
    a: "redisGetReply (ac_c ac) (s_w s) = Ok (REDIS_OK, q, c1, w1)" "rd_ok c1 w1 r1" "w_reads w1 = w_reads (s_w s)" "r_len r1 \<le> r_len r"
      "q = 0 \<and> expects r1 (data (w_reads (s_w s))) us (w_heap w1) \<and> (data (w_reads (s_w s)) = [] \<longrightarrow> us = []) \<or>
       (\<exists>v us'. us = v # us' \<and> q \<noteq> 0 \<and> between r1 (data (w_reads (s_w s))) us' (w_heap w1) \<and> built (w_heap w1) q v)" by blast
  let ?ac = "ac\<lparr>ac_c := c1\<rparr>" and ?s = "s\<lparr>s_w := w1\<rparr>"
  have so: "same_out (ac_c ac) (s_w s) c1 w1" using postD [OF redisGetReply_nonblocking [OF nb] a(1)] by simp
  have sb: "subs m (us \<noteq> []) ?ac" using h(4) so by (simp add: subs_def has_flag_def refusing_def same_out_def)
  have cw: "can_write 0 ?ac ?s" using h(7) a(2) so same_out_flow [OF so] by (simp add: same_out_def can_write_def rd_ok_def)
  from a(5) show ?thesis
  proof
    assume q: "q = 0 \<and> expects r1 (data (w_reads (s_w s))) us (w_heap w1) \<and> (data (w_reads (s_w s)) = [] \<longrightarrow> us = [])"
    have "\<not> has_flag REDIS_DISCONNECTING ?ac" "\<not> has_flag REDIS_MONITORING ?ac" using sb by (simp_all add: subs_def refusing_def has_flag_or)
    then have "process_loop_cb usr (Suc n) cb ac s = Ok (Some ?ac, ?s)" using a(1) q by (simp add: no_reply_def)
    moreover have "heard out m' ?ac ?s" using q a(2,3) h(2,3,6) sb cw by (auto simp: heard_def hears_def listens_def)
    ultimately show ?thesis using a(3) by auto
  next
    assume "\<exists>v us'. us = v # us' \<and> q \<noteq> 0 \<and> between r1 (data (w_reads (s_w s))) us' (w_heap w1) \<and> built (w_heap w1) q v"
    then obtain v us' where v: "us = v # us'" "q \<noteq> 0" "between r1 (data (w_reads (s_w ?s))) us' (w_heap (s_w ?s))" "built (w_heap (s_w ?s)) q v"
      using a(3) by auto
    obtain cb1 m1 rest1 where g: "message m v (us' \<noteq> []) cb1 m1" "messages m1 us' rest1 m'"
      "rest = map (\<lambda>t. (t, Some (canon v))) (target cb1) @ rest1" using h(3) v(1) by (auto elim: messages_ConsE)
    have "listens m (v # us') ?ac ?s r1" using sb a(2) h(6) v(1) cw by (simp add: listens_def)
    from serve_message [OF assms(1) this v(3,4) g(1), of "process_loop_cb usr n" cb] obtain ac2 s2 where
      t: "take_reply usr (process_loop_cb usr n) q cb ?ac ?s = process_loop_cb usr n cb1 ac2 s2" "listens m1 us' ac2 s2 r1"
        "between r1 (data (w_reads (s_w s2))) us' (w_heap (s_w s2))" "w_reads (s_w s2) = w_reads w1"
        "runs (s_log s2) = runs (s_log s) @ map (\<lambda>t. (t, Some (canon v))) (target cb1)" by auto
    have "hears out m' us' ac2 s2 r1"
      using between_expects [OF t(3)] t(2,5) g(2,3) h(2) by (auto simp: hears_def listens_def)
    moreover have "process_loop_cb usr (Suc n) cb ac s = process_loop_cb usr n cb1 ac2 s2" using a(1) v(2) t(1) by simp
    ultimately show ?thesis using v(1) t(3,4) a(3,4) by auto
  qed
qed

lemma messages_between:
  assumes "quiet usr"
  shows "hears out m' us ac s r \<Longrightarrow> between r (data (w_reads (s_w s))) us (w_heap (s_w s)) \<Longrightarrow> length (rest_of r) < n \<Longrightarrow>
    \<exists>ac' s'. process_loop_cb usr n cb ac s = Ok (Some ac', s') \<and> heard out m' ac' s' \<and> w_reads (s_w s') = w_reads (s_w s)"
proof (induction n arbitrary: cb ac s us r)
  case (Suc n)
  from message_round [OF assms Suc.prems(1), of n cb] show ?case
  proof (elim disjE exE conjE)
    fix v us' cb' ac' s' r'
    assume a: "us = v # us'" "process_loop_cb usr (Suc n) cb ac s = process_loop_cb usr n cb' ac' s'" "hears out m' us' ac' s' r'"
      "between r' (data (w_reads (s_w s'))) us' (w_heap (s_w s'))" "w_reads (s_w s') = w_reads (s_w s)"
    have "rest_of r @ data (w_reads (s_w s)) = (encode v @ rest_of r') @ data (w_reads (s_w s))"
      using Suc.prems(2) a(1,4,5) by (simp add: between_def)
    then have "length (rest_of r) = length (encode v) + length (rest_of r')" by simp
    then have "length (rest_of r') < n" using Suc.prems(3) encode_nonempty [of v] by linarith
    from Suc.IH [OF a(3,4) this, of cb'] a(2,5) show ?thesis by auto
  qed blast
qed simp

lemma messages_processed:
  assumes "quiet usr" "hears out m' us ac s r"
  shows "\<exists>ac' s'. redisProcessCallbacks usr ac s = Ok (Some ac', s') \<and> heard out m' ac' s' \<and> w_reads (s_w s') = w_reads (s_w s)"
proof -
  let ?cb = "\<lparr>cb_fn = None, cb_privdata = 0\<rparr>"
  have "c_reader (ac_c ac) = Some r" using assms(2) by (auto simp: hears_def listens_def rd_ok_def)
  then have p: "redisProcessCallbacks usr ac s = process_loop_cb usr (Suc (Suc (r_len r))) ?cb ac s"
    by (simp add: redisProcessCallbacks_def del: process_loop_cb.simps)
  from message_round [OF assms, of "Suc (r_len r)" ?cb] show ?thesis unfolding p
  proof (elim disjE exE conjE)
    fix v us' cb' ac' s' r'
    assume a: "process_loop_cb usr (Suc (Suc (r_len r))) ?cb ac s = process_loop_cb usr (Suc (r_len r)) cb' ac' s'" "hears out m' us' ac' s' r'"
      "between r' (data (w_reads (s_w s'))) us' (w_heap (s_w s'))" "w_reads (s_w s') = w_reads (s_w s)" "r_len r' \<le> r_len r"
    have "length (rest_of r') \<le> r_len r'" using a(2) rest_of_len by (auto simp: hears_def listens_def)
    then have "length (rest_of r') < Suc (r_len r)" using a(5) by simp
    from messages_between [OF assms(1) a(2,3) this, of cb'] a(1,4)
    show "\<exists>ac' s'. process_loop_cb usr (Suc (Suc (r_len r))) ?cb ac s = Ok (Some ac', s') \<and> heard out m' ac' s' \<and> w_reads (s_w s') = w_reads (s_w s)" by auto
  qed blast
qed


text \<open>Before the first event the context may not know yet that it is connected.\<close>

definition tuned :: "((nat \<times> nat) \<times> resp option) list \<Rightarrow> names \<Rightarrow> redisAsyncContext \<Rightarrow> astate \<Rightarrow> bool" where
  "tuned out m' ac s \<longleftrightarrow> linked_up ac s \<and> heard out m' (set_flag REDIS_CONNECTED ac) s"

lemma set_connected [simp]:
  "refusing (set_flag REDIS_CONNECTED ac) = refusing ac" "has_flag REDIS_MONITORING (set_flag REDIS_CONNECTED ac) = has_flag REDIS_MONITORING ac"
  "has_flag REDIS_BLOCK (set_flag REDIS_CONNECTED ac) = has_flag REDIS_BLOCK ac"
  "has_flag REDIS_SUBSCRIBED (set_flag REDIS_CONNECTED ac) = has_flag REDIS_SUBSCRIBED ac"
  by (simp_all add: refusing_def has_flag_def set_flag_def flag_consts bit.conj_disj_distrib2)

lemma flag_connected [simp]: "has_flag REDIS_CONNECTED (set_flag REDIS_CONNECTED ac)"
  by (simp add: REDIS_CONNECTED_def)

lemma heard_connected: "has_flag REDIS_CONNECTED ac \<Longrightarrow> heard out m' (set_flag REDIS_CONNECTED ac) s = heard out m' ac s"
proof -
  assume "has_flag REDIS_CONNECTED ac"
  then have "subs m others (set_flag REDIS_CONNECTED ac) = subs m others ac" for m others by (simp add: subs_def)
  moreover have "rd_ok (ac_c (set_flag REDIS_CONNECTED ac)) (s_w s) r = rd_ok (ac_c ac) (s_w s) r" for r by (simp add: rd_ok_def set_flag_def)
  ultimately show ?thesis by (simp add: heard_def hears_def listens_def)
qed

lemma heard_flag: "heard out m' ac s \<Longrightarrow> has_flag REDIS_CONNECTED ac"
  by (auto simp: heard_def hears_def listens_def subs_def)

lemma heard_tuned: "heard out m' ac s \<Longrightarrow> tuned out m' ac s"
  using heard_flag [of out m' ac s] by (simp add: tuned_def heard_connected linked_up_def)

lemma tuned_connected:
  assumes "tuned out m' ac s"
  shows "\<exists>ac' s'. when_connected usr ac s k = k ac' s' \<and> heard out m' ac' s' \<and> w_reads (s_w s') = w_reads (s_w s) \<and> w_writes (s_w s') = w_writes (s_w s)"
proof -
  have t: "linked_up ac s" "heard out m' (set_flag REDIS_CONNECTED ac) s" using assms by (auto simp: tuned_def)
  obtain ac' s' where c: "when_connected usr ac s k = k ac' s'" "has_flag REDIS_CONNECTED ac'" "runs (s_log s') = runs (s_log s)"
    "ac' = ac \<and> s' = s \<or> ac' = set_flag REDIS_CONNECTED ac \<and> (\<exists>xs. s_w s' = (s_w s)\<lparr>w_soerr := xs\<rparr>)"
    using when_connected_total [OF t(1), of usr k] by blast
  from c(4) have "heard out m' ac' s'"
  proof
    assume e: "ac' = set_flag REDIS_CONNECTED ac \<and> (\<exists>xs. s_w s' = (s_w s)\<lparr>w_soerr := xs\<rparr>)"
    then obtain xs where x: "ac' = set_flag REDIS_CONNECTED ac" "s_w s' = (s_w s)\<lparr>w_soerr := xs\<rparr>" by blast
    have "heard out m' ac' s' = heard out m' ac' s"
      using x(2) c(3) by (simp add: heard_def hears_def listens_def rd_ok_def can_write_def env_ok_def)
    then show ?thesis using t(2) x(1) by simp
  qed (use t c(2) heard_connected [of ac out m' s] in auto)
  then show ?thesis using c(1,4) by (intro exI [of _ ac'] exI [of _ s']) auto
qed

lemma subscriber_reads:
  assumes "quiet usr" "tuned out m' ac s" "data (w_reads (s_w s)) \<noteq> []"
  shows "\<exists>ac' s'. redisAsyncHandleRead usr ac s = Ok (Some ac', s') \<and> tuned out m' ac' s' \<and> todo (w_reads (s_w s')) < todo (w_reads (s_w s))"
proof -
  let ?k = "\<lambda>ac s. cbind (redisBufferRead (ac_c ac) (s_w s)) (\<lambda>(res, c, w).
       let ac = ac\<lparr>ac_c := c\<rparr>; s = s\<lparr>s_w := w\<rparr> in
       if res = REDIS_ERR then cbind (async_disconnect usr ac s) (\<lambda>s. Ok (None, s))
       else redisProcessCallbacks usr ac (el AddRead ac s))"
  obtain ac1 s1 where c: "redisAsyncHandleRead usr ac s = ?k ac1 s1" "heard out m' ac1 s1" "w_reads (s_w s1) = w_reads (s_w s)"
    using tuned_connected [OF assms(2), of usr ?k] unfolding redisAsyncHandleRead_def by blast
  then obtain us r m rest where h: "expects r (data (w_reads (s_w s1))) us (w_heap (s_w s1))" "out = runs (s_log s1) @ rest"
    "messages m us rest m'" "subs m (us \<noteq> []) ac1" "rd_ok (ac_c ac1) (s_w s1) r" "can_write 0 ac1 s1" "replies_ok us"
    by (auto simp: heard_def hears_def listens_def)
  obtain c2 w2 r2 where b: "redisBufferRead (ac_c ac1) (s_w s1) = Ok (REDIS_OK, c2, w2)" "rd_ok c2 w2 r2" "core r2 = core r"
    "w_heap w2 = w_heap (s_w s1)" "rest_of r2 @ data (w_reads w2) = rest_of r @ data (w_reads (s_w s1))"
    using redisBufferRead_step [OF h(5)] assms(3) c(3) by auto
  let ?ac = "ac1\<lparr>ac_c := c2\<rparr>"
  let ?s = "el AddRead ?ac (s1\<lparr>s_w := w2\<rparr>)"
  have e: "REDIS_OK \<noteq> REDIS_ERR" by (simp add: redis_consts)
  note so = redisBufferRead_out [OF b(1)]
  have "subs m (us \<noteq> []) ?ac" using h(4) so by (simp add: subs_def has_flag_def refusing_def same_out_def)
  moreover have "can_write 0 ?ac ?s" using h(6) b(2) so same_out_flow [OF so] by (simp add: same_out_def can_write_def rd_ok_def)
  ultimately have "hears out m' us ?ac ?s r2"
    using h(1-3,7) b(2) expects_cong [OF b(3,5)] b(4) by (auto simp: hears_def listens_def)
  from messages_processed [OF assms(1) this] obtain ac' s' where
    p: "redisProcessCallbacks usr ?ac ?s = Ok (Some ac', s')" "heard out m' ac' s'" "w_reads (s_w s') = w_reads (s_w ?s)" by blast
  have "redisAsyncHandleRead usr ac s = Ok (Some ac', s')" using c(1) b(1) p(1) e by (simp add: Let_def)
  moreover have "todo (w_reads w2) < todo (w_reads (s_w s1))" by (rule redisBufferRead_less [OF b(1) e])
  ultimately show ?thesis using heard_tuned [OF p(2)] p(3) c(3) by simp
qed

lemma subscriber_writes:
  assumes "tuned out m' ac s" "w_writes (s_w s) \<noteq> []"
  shows "\<exists>ac' s'. redisAsyncHandleWrite usr ac s = Ok (Some ac', s') \<and> tuned out m' ac' s' \<and> w_reads (s_w s') = w_reads (s_w s)"
proof -
  let ?k = "\<lambda>ac s. cbind (redisBufferWrite (ac_c ac) (s_w s)) (\<lambda>(res, wdone, c, w).
       let ac = ac\<lparr>ac_c := c\<rparr>; s = s\<lparr>s_w := w\<rparr> in
       if res = REDIS_ERR then cbind (async_disconnect usr ac s) (\<lambda>s. Ok (None, s))
       else Ok (Some ac, el AddRead ac (el (if \<not> wdone then AddWrite else DelWrite) ac s)))"
  obtain ac1 s1 where c: "redisAsyncHandleWrite usr ac s = ?k ac1 s1" "heard out m' ac1 s1" "w_reads (s_w s1) = w_reads (s_w s)"
    "w_writes (s_w s1) = w_writes (s_w s)"
    using tuned_connected [OF assms(1), of usr ?k] unfolding redisAsyncHandleWrite_def by blast
  then obtain us r m rest where h: "expects r (data (w_reads (s_w s1))) us (w_heap (s_w s1))" "out = runs (s_log s1) @ rest"
    "messages m us rest m'" "subs m (us \<noteq> []) ac1" "rd_ok (ac_c ac1) (s_w s1) r" "can_write 0 ac1 s1" "replies_ok us"
    "data (w_reads (s_w s1)) = [] \<longrightarrow> us = []"
    by (auto simp: heard_def hears_def listens_def)
  have f: "c_err (ac_c ac1) = 0" "out_ok (ac_c ac1)" "env_ok (s_w s1)" "writes_ok (w_writes (s_w s1))" "sds_fits (length (pending (ac_c ac1)))"
    using h(6) by (auto simp: can_write_def)
  obtain c2 w2 where b: "redisBufferWrite (ac_c ac1) (s_w s1) = Ok (REDIS_OK, pending c2 = [], c2, w2)" "c_err c2 = 0" "out_ok c2"
    "env_ok w2" "writes_ok (w_writes w2)" "same_in (ac_c ac1) (s_w s1) c2 w2" "length (pending c2) \<le> length (pending (ac_c ac1))"
    using redisBufferWrite_goes [OF f(1-4)] assms(2) c(4) by auto
  let ?ac = "ac1\<lparr>ac_c := c2\<rparr>"
  let ?s = "el AddRead ?ac (el (if \<not> pending c2 = [] then AddWrite else DelWrite) ?ac (s1\<lparr>s_w := w2\<rparr>))"
  have e: "REDIS_OK \<noteq> REDIS_ERR" by (simp add: redis_consts)
  have "can_write 0 ?ac ?s" using b sds_fits_mono [OF f(5) b(7)] by (simp add: can_write_def)
  moreover have "subs m (us \<noteq> []) ?ac" using h(4) b(6) by (simp add: subs_def has_flag_def refusing_def same_in_def)
  moreover have "rd_ok c2 w2 r" by (rule same_in_rd [OF b(6) h(5) b(2)])
  ultimately have "heard out m' ?ac ?s"
    using h(1-3,7,8) b(6) by (auto simp: heard_def hears_def listens_def same_in_def intro!: exI [of _ us] exI [of _ r])
  moreover have "redisAsyncHandleWrite usr ac s = Ok (Some ?ac, ?s)" using c(1) b(1) e by (simp add: Let_def)
  ultimately show ?thesis using heard_tuned c(3) b(6) by (auto simp: same_in_def)
qed


lemma subscriber_loop:
  assumes "quiet usr"
  shows "tuned out m' ac s \<Longrightarrow> \<exists>ac' s'. event_loop usr xs ac s = Ok (Some ac', s') \<and> tuned out m' ac' s' \<and>
    (data (w_reads (s_w s)) = [] \<or> todo (w_reads (s_w s)) \<le> count_list xs Readable \<longrightarrow> data (w_reads (s_w s')) = [])"
proof (induction xs arbitrary: ac s)
  case Nil
  have "data rs = []" if "todo rs = 0" for rs using that by (cases rs rule: todo.cases) auto
  then show ?case using Nil by auto
next
  case (Cons x xs)
  show ?case
  proof (cases "fires x s")
    case False
    have "data (w_reads (s_w s)) = []" if "x = Readable" using False that by simp
    then show ?thesis using Cons.IH [OF Cons.prems] False by (auto split: if_splits)
  next
    case True
    then consider "x = Readable" "data (w_reads (s_w s)) \<noteq> []" | "x = Writable" "w_writes (s_w s) \<noteq> []" by (cases x) auto
    then show ?thesis
    proof cases
      case 1
      obtain ac1 s1 where h: "handle usr x ac s = Ok (Some ac1, s1)" "tuned out m' ac1 s1" "todo (w_reads (s_w s1)) < todo (w_reads (s_w s))"
        using subscriber_reads [OF assms Cons.prems 1(2)] 1(1) by auto
      then show ?thesis using Cons.IH [OF h(2)] True 1 by fastforce
    next
      case 2
      obtain ac1 s1 where h: "handle usr x ac s = Ok (Some ac1, s1)" "tuned out m' ac1 s1" "w_reads (s_w s1) = w_reads (s_w s)"
        using subscriber_writes [OF Cons.prems 2(2), of usr] 2(1) by auto
      then show ?thesis using Cons.IH [OF h(2)] True 2 by auto
    qed
  qed
qed


section \<open>Properties\<close>

lemma bulk_texts_long: "5 * length chs \<le> length (concat (map bulk_text chs))"
  by (induction chs) (auto simp: bulk_text_def crlf_def)

definition subscribed_names :: "bool \<Rightarrow> string list \<Rightarrow> redisCallback \<Rightarrow> names" where
  "subscribed_names pat chs cb = (\<lambda>p k. if p = pat \<and> k \<in> set chs then Some cb else None)"

lemma subscribed_tuned:
  assumes "redisAsyncConnect ip port w0 = Ok (Some ac, w)" "ac_err ac = 0" "w_soerr w = Inr None # soerrs"
    "env_ok w" "heap_ok (w_heap w)" "reads_ok (w_reads w)" "writes_ok (w_writes w)"
    "data (w_reads w) = concat (map encode vs)" "sds_fits (length (data (w_reads w)))" "replies_ok vs"
    "subscribe_name pat name" "chs \<noteq> []" "sds_fits (length (command_text (name # chs)))"
    "messages (subscribed_names pat chs cb) vs out m'"
  shows "\<exists>ac1 s1. async_cmd ac \<lparr>s_w = w, s_log = []\<rparr> cb (command_text (name # chs) @ [NUL]) (length (command_text (name # chs))) = Ok (REDIS_OK, ac1, s1) \<and>
    pending (ac_c ac1) = command_text (name # chs) \<and> tuned out m' ac1 s1 \<and> w_reads (s_w s1) = w_reads w"
proof -
  note f = redisAsyncConnect_fresh [OF assms(1)]
  let ?s = "\<lparr>s_w = w, s_log = []\<rparr>" and ?t = "command_text (name # chs)"
  have cw: "can_write (length ?t) ac ?s" using f(6-8) assms(2,4,7,13) by (simp add: can_write_def)
  have nr: "\<not> refusing ac" using f(1) by (simp add: refusing_def has_flag_def)
  have tb: "table p ac = dictReset" for p using f(4,5) by (simp add: table_def)
  have "5 * length chs \<le> length ?t" using bulk_texts_long [of chs] by (simp add: command_text_def)
  then have "dt_used (table pat ac) + length chs < 2 ^ 30" using assms(13) by (simp add: tb dictReset_def sds_fits_def)
  from subscribe_total [OF assms(11,12) nr cw _ this, of cb] obtain ac1 s1 where
    a: "async_cmd ac ?s cb (?t @ [NUL]) (length ?t) = Ok (REDIS_OK, ac1, s1)" "dict_inv callbackDict (table pat ac1)"
      "dict_map (table pat ac1) = (\<lambda>k. if k \<in> set chs then Some cb else dict_map dictReset k)" "table (\<not> pat) ac1 = dictReset"
      "ac_replies ac1 = []" "c_flags (ac_c ac1) = REDIS_SUBSCRIBED" "c_reader (ac_c ac1) = c_reader (ac_c ac)" "pending (ac_c ac1) = ?t"
      "can_write 0 ac1 s1" "s_w s1 = (tick ^^ Suc (length chs)) w" "s_log s1 = s_log (el AddWrite ac ?s)"
    using f(1,2,7) by (auto simp: tb cong: if_cong)
  have dm: "dict_map dictReset = (Map.empty :: string \<rightharpoonup> redisCallback)" by (simp add: dict_map_def dictReset_def)
  have "dict_inv callbackDict (table p ac1) \<and> dict_map (table p ac1) = subscribed_names pat chs cb p" for p
    using a(2-4) dm by (cases "p = pat") (auto simp: subscribed_names_def fun_eq_iff)
  moreover have "\<not> refusing ac1" "\<not> has_flag REDIS_MONITORING ac1" "\<not> has_flag REDIS_BLOCK ac1" "has_flag REDIS_SUBSCRIBED ac1"
    using a(6) by (simp_all add: refusing_def has_flag_def flag_consts)
  ultimately have sb: "subs (subscribed_names pat chs cb) (vs \<noteq> []) (set_flag REDIS_CONNECTED ac1)" using a(5) by (simp add: subs_def)
  obtain r e where r: "c_reader (ac_c ac) = Some r" "redisReaderCreateWithFunctions e (Some defaultFunctions) = Ok r"
    using f(10) by (auto simp: redisReaderCreate_def)
  note g = fresh_reader [OF r(2)]
  have pd: "r_privdata r = 0" "r_reply r = 0" using r(2) by (auto simp: redisReaderCreateWithFunctions_def split: if_splits)
  have idle: "idle (start (core r)) (Some defaultFunctions) 0" using idle_start [of "core r"] g pd by (auto simp: reader_inv_def)
  have in1: "w_heap (s_w s1) = w_heap w" "w_reads (s_w s1) = w_reads w" "w_env (s_w s1) = w_env w" "w_soerr (s_w s1) = w_soerr w"
    unfolding a(10) by (rule tick_pow)+
  have "between r (data (w_reads (s_w s1))) vs (w_heap (s_w s1))" using idle pd(2) g in1 assms(5,8) by (simp add: between_def)
  then have "expects r (data (w_reads (s_w s1))) vs (w_heap (s_w s1))" by (rule between_expects [OF _ assms(10)])
  moreover have "rd_ok (ac_c (set_flag REDIS_CONNECTED ac1)) (s_w s1) r"
    using a(7,9) r(1) in1 g assms(4,6,9) by (auto simp: rd_ok_def can_write_def env_ok_def set_flag_def)
  moreover have "data (w_reads w) = [] \<longrightarrow> vs = []" using assms(8) encode_nonempty by (cases vs) auto
  moreover have "runs (s_log s1) = []" using a(11) by (simp add: el_def emit_def runs_def)
  ultimately have "heard out m' (set_flag REDIS_CONNECTED ac1) s1"
    using sb a(9) assms(10,14) in1(2) unfolding heard_def hears_def listens_def by (intro exI [of _ vs] exI [of _ r]) auto
  then show ?thesis using a(1,8) in1(2,4) assms(3) by (auto simp: tuned_def linked_up_def)
qed

text \<open>
  C7. A subscriber is told every message, in order, once. A client that has connected subscribes to
  channels or patterns: the command is accepted whole, and it waits in the output buffer. Against a
  server that sends the messages \<open>vs\<close>, in whatever pieces they arrive and whatever other events come
  between, every handler returns and the context stays alive; the callbacks that have run are at any time the first of
  those the messages call for, each with its message; when everything has been read they are all of
  them, and the names that were unsubscribed, and only those, are gone from the tables.
\<close>
theorem subscriber_hears_messages:
  assumes "redisAsyncConnect ip port w0 = Ok (Some ac, w)" "ac_err ac = 0" "w_soerr w = Inr None # soerrs"
    "env_ok w" "heap_ok (w_heap w)" "reads_ok (w_reads w)" "writes_ok (w_writes w)"
    "data (w_reads w) = concat (map encode vs)" "sds_fits (length (data (w_reads w)))" "replies_ok vs"
    "subscribe_name pat name" "chs \<noteq> []" "sds_fits (length (command_text (name # chs)))"
    "messages (subscribed_names pat chs cb) vs out m'" "quiet usr"
  shows "\<exists>ac1 s1 ac2 s2 rest. async_cmd ac \<lparr>s_w = w, s_log = []\<rparr> cb (command_text (name # chs) @ [NUL]) (length (command_text (name # chs))) = Ok (REDIS_OK, ac1, s1) \<and>
    pending (ac_c ac1) = command_text (name # chs) \<and> event_loop usr evs ac1 s1 = Ok (Some ac2, s2) \<and> out = runs (s_log s2) @ rest \<and>
    (todo (w_reads w) \<le> count_list evs Readable \<longrightarrow>
       rest = [] \<and> dict_map (ac_channels ac2) = m' False \<and> dict_map (ac_patterns ac2) = m' True)"
proof -
  obtain ac1 s1 where a: "async_cmd ac \<lparr>s_w = w, s_log = []\<rparr> cb (command_text (name # chs) @ [NUL]) (length (command_text (name # chs))) = Ok (REDIS_OK, ac1, s1)"
    "pending (ac_c ac1) = command_text (name # chs)" "tuned out m' ac1 s1" "w_reads (s_w s1) = w_reads w"
    using subscribed_tuned [OF assms(1-14)] by blast
  from subscriber_loop [OF assms(15) a(3), of evs] obtain ac2 s2 where
    l: "event_loop usr evs ac1 s1 = Ok (Some ac2, s2)" "tuned out m' ac2 s2"
      "todo (w_reads w) \<le> count_list evs Readable \<longrightarrow> data (w_reads (s_w s2)) = []" using a(4) by auto
  obtain us m rest where h: "out = runs (s_log s2) @ rest" "messages m us rest m'" "data (w_reads (s_w s2)) = [] \<longrightarrow> us = []"
    "\<forall>pat. dict_map (table pat ac2) = m pat" using l(2) by (auto simp: tuned_def heard_def hears_def listens_def subs_def)
  have "rest = [] \<and> m' = m" if "us = []" using h(2) that by (auto elim: messages.cases)
  moreover have "dict_map (ac_channels ac2) = m False" "dict_map (ac_patterns ac2) = m True"
    using h(4) [rule_format, of False] h(4) [rule_format, of True] by (simp_all add: table_def)
  ultimately show ?thesis using a(1,2) l(1,3) h(1,3) by blast
qed


text \<open>A subscriber of one channel that is told of its subscription, gets a message and leaves.\<close>

definition news :: "resp list" where
  "news = [Multi [Bulk ''subscribe'', Bulk ''news'', Integer 1], Multi [Bulk ''message'', Bulk ''news'', Bulk ''hello''],
     Multi [Bulk ''unsubscribe'', Bulk ''news'', Integer 0]]"

lemma news_messages:
  "messages (subscribed_names False [''news''] (callback (1, 10))) news
     (map (\<lambda>v. ((1, 10), Some v)) news) (\<lambda>_ _. None)"
proof -
  let ?cb = "callback (1, 10)"
  let ?m = "subscribed_names False [''news''] ?cb"
  have e: "?m(False := (?m False)(''news'' := None)) = (\<lambda>_ _. None)" by (auto simp: subscribed_names_def fun_eq_iff)
  have s: "message ?m (Multi [Bulk ''subscribe'', Bulk ''news'', Integer 1]) True ?cb ?m"
    by (rule message.published [of _ False]) (simp_all add: subscribed_names_def message_type_def c_tolower_def)
  have p: "message ?m (Multi [Bulk ''message'', Bulk ''news'', Bulk ''hello'']) True ?cb ?m"
    by (rule message.published [of _ False]) (simp_all add: subscribed_names_def message_type_def c_tolower_def)
  have "message ?m (Multi [Bulk ''unsubscribe'', Bulk ''news'', Integer 0]) False ?cb (?m(False := (?m False)(''news'' := None)))"
    by (rule message.unsubscribed) (simp_all add: subscribed_names_def message_type_def c_tolower_def)
  then have u: "message ?m (Multi [Bulk ''unsubscribe'', Bulk ''news'', Integer 0]) False ?cb (\<lambda>_ _. None)" unfolding e .
  have "messages ?m [last news] [((1, 10), Some (last news))] (\<lambda>_ _. None)"
    using messages.next_message [of ?m "last news" "[]" ?cb, OF _ messages.no_message] u by (simp add: news_def)
  from messages.next_message [OF _ this, of ?m "news ! 1" ?cb] p
  have "messages ?m [news ! 1, last news] [((1, 10), Some (news ! 1)), ((1, 10), Some (last news))] (\<lambda>_ _. None)" by (simp add: news_def)
  from messages.next_message [OF _ this, of ?m "news ! 0" ?cb] s show ?thesis by (simp add: news_def)
qed

theorem subscriber_hears_messages_witness:
  "\<exists>ac w ac1 s1 ac2 s2.
     redisAsyncConnect ''localhost'' 6379 (async_world\<lparr>w_reads := [Inr (concat (map encode news))]\<rparr>) = Ok (Some ac, w) \<and>
     async_cmd ac \<lparr>s_w = w, s_log = []\<rparr> (callback (1, 10)) (command_text [''SUBSCRIBE'', ''news''] @ [NUL])
       (length (command_text [''SUBSCRIBE'', ''news''])) = Ok (REDIS_OK, ac1, s1) \<and>
     event_loop (\<lambda>_ _ _ _. []) (Writable # replicate 200 Readable) ac1 s1 = Ok (Some ac2, s2) \<and>
     runs (s_log s2) = map (\<lambda>v. ((1, 10), Some v)) news \<and> dict_map (ac_channels ac2) = Map.empty"
proof -
  let ?rs = "[Inr (concat (map encode news))]"
  obtain ac w where c: "redisAsyncConnect ''localhost'' 6379 (async_world\<lparr>w_reads := ?rs\<rparr>) = Ok (Some ac, w)" "ac_err ac = 0" "w_soerr w = [Inr None]"
    "w_env w = w_env async_world" "w_heap w = w_heap async_world" "w_reads w = ?rs" "w_writes w = w_writes async_world"
    using async_connects by blast
  have e: "env_ok w" "heap_ok (w_heap w)" "reads_ok (w_reads w)" "writes_ok (w_writes w)" "data (w_reads w) = concat (map encode news)"
    "sds_fits (length (data (w_reads w)))" "todo (w_reads w) \<le> 200"
    using c(4-7) by (simp_all add: env_ok_def async_world_def example_world_def empty_heap_ok news_def crlf_def dec_eval sds_fits_def SDS_MAX_PREALLOC_def)
  have l: "subscribe_name False ''SUBSCRIBE''" unfolding subscribe_name_def by code_simp
  have u: "replies_ok news" "[''news''] \<noteq> []" "sds_fits (length (command_text [''SUBSCRIBE'', ''news'']))" "quiet (\<lambda>_ _ _ _. [])"
    by (simp_all add: replies_ok_def news_def crlf_def sds_fits_def SDS_MAX_PREALLOC_def command_text_def bulk_text_def quiet_def dec_eval)
  have n: "count_list (replicate n x) x = n" for n and x :: request by (induction n) simp_all
  have "todo (w_reads w) \<le> count_list (Writable # replicate 200 Readable) Readable" using e(7) n by simp
  then show ?thesis
    using subscriber_hears_messages [OF c(1-3) e(1-6) u(1) l u(2,3) news_messages u(4), of "Writable # replicate 200 Readable"] c(1) by fastforce
qed

end
