(* ===== verification/Cpp_Prelude.thy ===== *)
theory Cpp_Prelude
  imports C_Prelude "HOL-Library.Sublist"
begin

text \<open>
  What the C++ sources of waspp use of the language and its standard library: results with
  exceptions, \<^verbatim>\<open>std::string\<close> positions (\<^verbatim>\<open>npos\<close>, \<^verbatim>\<open>find\<close>, \<^verbatim>\<open>find_first_of\<close>, \<^verbatim>\<open>find_last_of\<close>,
  \<^verbatim>\<open>substr\<close>), checked access to the last element of a vector, character classes and
  \<^verbatim>\<open>strtol\<close>. Memory is not limited here: a failed allocation throws \<^verbatim>\<open>std::bad_alloc\<close>,
  which none of the modelled functions handles. As in \<open>C_Prelude\<close>, \<open>long\<close> has 32 bits.
\<close>

section \<open>Results\<close>

datatype cpp_exn = OutOfRange | LengthError | RuntimeError string

datatype 'a cpp = Ret 'a | Throw cpp_exn | Undefined

fun xbind :: "'a cpp \<Rightarrow> ('a \<Rightarrow> 'b cpp) \<Rightarrow> 'b cpp" where
  "xbind (Ret x) f = f x"
| "xbind (Throw e) f = Throw e"
| "xbind Undefined f = Undefined"

lemma xbind_cong [fundef_cong]:
  "m = m' \<Longrightarrow> (\<And>x. m' = Ret x \<Longrightarrow> f x = f' x) \<Longrightarrow> xbind m f = xbind m' f'"
  by (cases m') auto

lemma xbind_eq_Ret [simp]: "xbind m f = Ret y \<longleftrightarrow> (\<exists>x. m = Ret x \<and> f x = Ret y)"
  by (cases m) auto

section \<open>Strings\<close>

definition npos :: nat where "npos = 18446744073709551615"

text \<open>The first occurrence of \<open>pat\<close> in \<open>s\<close>.\<close>

fun occurs_at :: "string \<Rightarrow> string \<Rightarrow> nat option" where
  "occurs_at pat [] = (if pat = [] then Some 0 else None)"
| "occurs_at pat (c # s) = (if prefix pat (c # s) then Some 0 else map_option Suc (occurs_at pat s))"

definition str_find :: "string \<Rightarrow> string \<Rightarrow> nat \<Rightarrow> nat" where
  "str_find s pat pos =
     (if length s < pos then npos
      else case occurs_at pat (drop pos s) of None \<Rightarrow> npos | Some k \<Rightarrow> pos + k)"

text \<open>The first position of a character of a set.\<close>

fun index_of :: "(char \<Rightarrow> bool) \<Rightarrow> string \<Rightarrow> nat option" where
  "index_of P [] = None"
| "index_of P (c # s) = (if P c then Some 0 else map_option Suc (index_of P s))"

definition find_first_of :: "string \<Rightarrow> string \<Rightarrow> nat \<Rightarrow> nat" where
  "find_first_of s cs pos = (case index_of (\<lambda>c. c \<in> set cs) (drop pos s) of None \<Rightarrow> npos | Some k \<Rightarrow> pos + k)"

definition find_last_of :: "string \<Rightarrow> string \<Rightarrow> nat" where
  "find_last_of s cs = (case index_of (\<lambda>c. c \<in> set cs) (rev s) of None \<Rightarrow> npos | Some k \<Rightarrow> length s - Suc k)"

definition substr :: "string \<Rightarrow> nat \<Rightarrow> nat \<Rightarrow> string cpp" where
  "substr s pos n = (if length s < pos then Throw OutOfRange else Ret (take n (drop pos s)))"

text \<open>\<open>xs.back()\<close> modified in place; no behaviour is defined on an empty vector.\<close>

definition upd_back :: "('a \<Rightarrow> 'a) \<Rightarrow> 'a list \<Rightarrow> 'a list cpp" where
  "upd_back f xs = (if xs = [] then Undefined else Ret (butlast xs @ [f (last xs)]))"

section \<open>Characters\<close>

text \<open>\<^verbatim>\<open>char\<close> is signed.\<close>

definition schar :: "char \<Rightarrow> int" where
  "schar c = (let n = (of_char c :: int) in if n < 128 then n else n - 256)"

definition to_char :: "int \<Rightarrow> char" where
  "to_char i = char_of (i mod 256)"

definition c_toupper :: "char \<Rightarrow> char" where
  "c_toupper c = (if (97 :: nat) \<le> of_char c \<and> (of_char c :: nat) \<le> 122 then char_of ((of_char c :: nat) - 32) else c)"

definition c_isalpha :: "char \<Rightarrow> bool" where
  "c_isalpha c \<longleftrightarrow> (65 :: nat) \<le> of_char c \<and> (of_char c :: nat) \<le> 90 \<or> (97 :: nat) \<le> of_char c \<and> (of_char c :: nat) \<le> 122"

definition c_isalnum :: "char \<Rightarrow> bool" where
  "c_isalnum c \<longleftrightarrow> c_isalpha c \<or> c_isdigit c"

definition c_isxdigit :: "char \<Rightarrow> bool" where
  "c_isxdigit c \<longleftrightarrow> c_isdigit c \<or> (65 :: nat) \<le> of_char c \<and> (of_char c :: nat) \<le> 70 \<or> (97 :: nat) \<le> of_char c \<and> (of_char c :: nat) \<le> 102"

text \<open>The value of a digit in bases up to sixteen.\<close>

definition digit_of :: "char \<Rightarrow> nat option" where
  "digit_of c =
     (if c_isdigit c then Some (of_char c - 48)
      else if (65 :: nat) \<le> of_char c \<and> (of_char c :: nat) \<le> 70 then Some (of_char c - 55)
      else if (97 :: nat) \<le> of_char c \<and> (of_char c :: nat) \<le> 102 then Some (of_char c - 87)
      else None)"

fun number_of :: "nat \<Rightarrow> nat \<Rightarrow> string \<Rightarrow> nat" where
  "number_of b acc [] = acc"
| "number_of b acc (c # s) =
     (case digit_of c of
        Some d \<Rightarrow> if d < b then number_of b (acc * b + d) s else acc
      | None \<Rightarrow> acc)"

text \<open>
  \<^verbatim>\<open>strtol(s, nullptr, 0)\<close> and its relatives: leading white space, a sign, a prefix that selects
  base sixteen or eight, the digits; a value out of range is clamped to \<open>lo\<close> or \<open>hi\<close>.
\<close>

definition strto :: "int \<Rightarrow> int \<Rightarrow> string \<Rightarrow> int" where
  "strto lo hi s =
     (let p = dropWhile c_isspace s;
          neg = (p \<noteq> [] \<and> hd p = CHR ''-'');
          q = (if p \<noteq> [] \<and> (hd p = CHR ''-'' \<or> hd p = CHR ''+'') then tl p else p);
          hex = (length q > 2 \<and> hd q = CHR ''0'' \<and> (q ! 1 = CHR ''x'' \<or> q ! 1 = CHR ''X'') \<and> c_isxdigit (q ! 2));
          n = int (if hex then number_of 16 0 (drop 2 q)
               else if q \<noteq> [] \<and> hd q = CHR ''0'' then number_of 8 0 q else number_of 10 0 q)
      in max lo (min hi (if neg then - n else n)))"

definition strtol :: "string \<Rightarrow> int" where
  "strtol s = strto (- 2147483648) 2147483647 s"

section \<open>Laws\<close>

lemma occurs_at_Some:
  "occurs_at pat s = Some k \<Longrightarrow> k + length pat \<le> length s \<and> take (length pat) (drop k s) = pat"
proof (induction s arbitrary: k)
  case (Cons c s)
  show ?case
  proof (cases "prefix pat (c # s)")
    case True
    then show ?thesis using Cons.prems prefix_length_le [OF True] by (auto simp: prefix_def)
  next
    case False
    then show ?thesis using Cons by auto
  qed
qed (auto split: if_splits)

lemma occurs_at_single: "occurs_at [c] s = index_of (\<lambda>x. x = c) s"
  by (induction s) (auto simp: prefix_def)

lemma index_of_Some: "index_of P s = Some k \<longleftrightarrow> k < length s \<and> P (s ! k) \<and> (\<forall>i < k. \<not> P (s ! i))"
proof (induction s arbitrary: k)
  case (Cons c s)
  show ?case
  proof (cases k)
    case 0
    then show ?thesis using Cons by auto
  next
    case (Suc j)
    have "(\<forall>i < Suc j. \<not> P ((c # s) ! i)) \<longleftrightarrow> \<not> P c \<and> (\<forall>i < j. \<not> P (s ! i))"
      by (metis (no_types, lifting) Suc_less_eq less_Suc_eq_0_disj nth_Cons_0 nth_Cons_Suc)
    then show ?thesis using Cons Suc by auto
  qed
qed simp

lemma index_of_None: "index_of P s = None \<longleftrightarrow> (\<forall>c \<in> set s. \<not> P c)"
  by (induction s) auto

lemma index_of_append:
  "\<forall>c \<in> set s. \<not> P c \<Longrightarrow> index_of P (s @ t) = map_option ((+) (length s)) (index_of P t)"
proof (induction s)
  case Nil
  then show ?case by (cases "index_of P t") auto
next
  case (Cons c s)
  then show ?case by (cases "index_of P t") auto
qed

section \<open>Reading a decimal numeral\<close>

lemma digit_of_digit: "d < 10 \<Longrightarrow> digit_of (digit_char d) = Some d" "d < 10 \<Longrightarrow> \<not> c_isspace (digit_char d)"
  using digit_char_facts [of d] by (simp_all add: digit_of_def)

lemma number_of_dec_nat: "number_of 10 acc (dec_nat n @ s) = number_of 10 (acc * 10 ^ length (dec_nat n) + n) s"
proof (induction n arbitrary: s rule: dec_nat.induct)
  case (1 n)
  show ?case
  proof (cases "n < 10")
    case True
    then show ?thesis by (simp add: dec_nat.simps digit_of_digit)
  next
    case False
    have d: "dec_nat n = dec_nat (n div 10) @ [digit_char (n mod 10)]" using False by (simp add: dec_nat.simps [of n])
    have e: "acc * 10 ^ length (dec_nat n) + n = (acc * 10 ^ length (dec_nat (n div 10)) + n div 10) * 10 + n mod 10"
      by (simp add: d algebra_simps)
    have "number_of 10 (acc * 10 ^ length (dec_nat n) + n) s =
        number_of 10 (acc * 10 ^ length (dec_nat (n div 10)) + n div 10) (digit_char (n mod 10) # s)"
      unfolding e by (simp add: digit_of_digit)
    then show ?thesis using 1 [OF False, of "digit_char (n mod 10) # s"] by (simp only: d append_assoc append_Cons append_Nil)
  qed
qed

lemma dec_nat_hd: "\<exists>d t. dec_nat n = digit_char d # t \<and> d < 10 \<and> (d = 0 \<longrightarrow> n = 0)"
proof (induction n rule: dec_nat.induct)
  case (1 n)
  show ?case
  proof (cases "n < 10")
    case True
    then show ?thesis by (auto simp: dec_nat.simps)
  next
    case False
    then show ?thesis using 1 [OF False] by (subst dec_nat.simps) auto
  qed
qed

lemma digit_char_inj: "d < 10 \<Longrightarrow> e < 10 \<Longrightarrow> digit_char d = digit_char e \<longleftrightarrow> d = e"
  using digit_of_digit(1) by (metis option.inject)

lemma strto_plain:
  assumes "\<not> c_isspace c" "c \<noteq> CHR ''-''" "c \<noteq> CHR ''+''" "c \<noteq> CHR ''0'' \<or> t = []"
  shows "strto lo hi (c # t) = max lo (min hi (int (number_of (if c = CHR ''0'' then 8 else 10) 0 (c # t))))"
  using assms unfolding strto_def Let_def by (cases "c = CHR ''0''") (simp_all del: number_of.simps)

lemma strto_dec_nat:
  assumes "lo \<le> 0" "int n \<le> hi"
  shows "strto lo hi (dec_nat n) = int n"
proof -
  obtain d t where d: "dec_nat n = digit_char d # t" "d < 10" "d = 0 \<longrightarrow> n = 0" using dec_nat_hd by blast
  have hd: "digit_char d \<noteq> CHR ''-''" "digit_char d \<noteq> CHR ''+''"
    using d(2) digit_of_digit(1) [of d] by (auto simp: digit_of_def c_isdigit_def)
  have z: "digit_char d = CHR ''0'' \<longleftrightarrow> n = 0"
  proof
    assume "digit_char d = CHR ''0''"
    then have "digit_char d = digit_char 0" by (simp add: digit_char_numeral)
    then show "n = 0" using d(2,3) digit_char_inj [of d 0] by simp
  next
    assume "n = 0"
    then show "digit_char d = CHR ''0''" using d(1) by (simp add: dec_nat.simps digit_char_numeral)
  qed
  have t: "n = 0 \<Longrightarrow> t = []" using d(1) by (simp add: dec_nat.simps)
  have ten: "number_of 10 0 (digit_char d # t) = n" using number_of_dec_nat [of 0 n "[]"] d(1) by simp
  have "number_of (if digit_char d = CHR ''0'' then 8 else 10) 0 (digit_char d # t) = n"
  proof (cases "n = 0")
    case True
    then have "d = 0" using z digit_char_inj [OF d(2), of 0] by (simp add: digit_char_numeral)
    then show ?thesis using t True by (simp add: digit_of_digit)
  next
    case False
    then show ?thesis using z ten by (simp del: number_of.simps)
  qed
  moreover have "strto lo hi (digit_char d # t) = max lo (min hi (int (number_of (if digit_char d = CHR ''0'' then 8 else 10) 0 (digit_char d # t))))"
    by (rule strto_plain) (use digit_of_digit(2) [OF d(2)] hd z t in auto)
  ultimately show ?thesis using assms d(1) by simp
qed

end
