(* ===== verification/Redis3m.thy ===== *)
theory Redis3m
  imports Net Cpp_Prelude
begin

text \<open>
  The classes \<^verbatim>\<open>reply\<close>, \<^verbatim>\<open>command\<close> and \<^verbatim>\<open>connection\<close> of \<^verbatim>\<open>src/src/redis3m.hpp\<close>, the C++ face of the
  blocking Redis client: a command is a vector of strings, a reply is copied out of the reply
  objects of hiredis, which are then freed, and an error of the client is an exception. A call
  gives the exception or the value, and the connection and the world it leaves.
\<close>

section \<open>Replies\<close>

text \<open>The enumerators of \<^verbatim>\<open>type_t\<close>, to which the type of a reply object is cast as it is.\<close>

definition T_STRING :: int where "T_STRING = 1"
definition T_ARRAY :: int where "T_ARRAY = 2"
definition T_INTEGER :: int where "T_INTEGER = 3"
definition T_NIL :: int where "T_NIL = 4"
definition T_STATUS :: int where "T_STATUS = 5"
definition T_ERROR :: int where "T_ERROR = 6"

lemmas type_consts = T_STRING_def T_ARRAY_def T_INTEGER_def T_NIL_def T_STATUS_def T_ERROR_def

datatype reply = Mk_reply (reply_type: int) (reply_str: string) (reply_integer: int) (reply_elements: "reply list")

definition reply_eq_string :: "reply \<Rightarrow> string \<Rightarrow> bool" where
  "reply_eq_string r rvalue = (if reply_type r = T_STRING \<or> reply_type r = T_ERROR \<or> reply_type r = T_STATUS then reply_str r = rvalue else False)"

definition reply_eq_int :: "reply \<Rightarrow> int \<Rightarrow> bool" where
  "reply_eq_int r rvalue = (if reply_type r = T_INTEGER then reply_integer r = rvalue else False)"

text \<open>Going on after a value, not after an exception.\<close>

definition tbind :: "(cpp_exn + 'a) cres \<Rightarrow> ('a \<Rightarrow> (cpp_exn + 'b) cres) \<Rightarrow> (cpp_exn + 'b) cres" where
  "tbind m f = cbind m (\<lambda>x. case x of Inl e \<Rightarrow> Ok (Inl e) | Inr y \<Rightarrow> f y)"

lemma tbind_simps [simp]: "tbind (Ok (Inr y)) f = f y" "tbind (Ok (Inl e)) f = Ok (Inl e)" "tbind (Fault x) f = Fault x"
  by (simp_all add: tbind_def)

text \<open>\<^verbatim>\<open>std::string(ptr, n)\<close>: no string is longer than \<^verbatim>\<open>max_size()\<close>.\<close>

definition new_string :: "mem \<Rightarrow> nat \<Rightarrow> (cpp_exn + string) cres" where
  "new_string m n = (if 9223372036854775807 < n then Ok (Inl LengthError) else cbind (mem_slice m 0 n) (\<lambda>s. Ok (Inr s)))"

primrec each_element :: "(nat \<Rightarrow> (cpp_exn + reply) cres) \<Rightarrow> redisReply \<Rightarrow> nat list \<Rightarrow> (cpp_exn + reply list) cres" where
  "each_element f r [] = Ok (Inr [])"
| "each_element f r (i # is) =
     cbind (element_at r i) (\<lambda>p. tbind (f p) (\<lambda>x. tbind (each_element f r is) (\<lambda>xs. Ok (Inr (x # xs)))))"

text \<open>The constructor from a reply object. The fuel bounds the nesting, as in \<open>freeReplyObject\<close>.\<close>

primrec new_reply :: "nat \<Rightarrow> world \<Rightarrow> nat \<Rightarrow> (cpp_exn + reply) cres" where
  "new_reply 0 w rep = Fault OutOfFuel"
| "new_reply (Suc n) w rep =
     cbind (obj_at w rep) (\<lambda>r.
       if rr_type r = T_ERROR \<or> rr_type r = T_STRING \<or> rr_type r = T_STATUS
       then cbind (str_of r) (\<lambda>m. tbind (new_string m (to_size (rr_len r))) (\<lambda>s. Ok (Inr (Mk_reply (rr_type r) s 0 []))))
       else if rr_type r = T_INTEGER then Ok (Inr (Mk_reply (rr_type r) [] (rr_integer r) []))
       else if rr_type r = T_ARRAY
       then tbind (each_element (new_reply n w) r [0..<rr_elements r]) (\<lambda>xs. Ok (Inr (Mk_reply (rr_type r) [] 0 xs)))
       else Ok (Inr (Mk_reply (rr_type r) [] 0 [])))"

section \<open>Commands\<close>

record redis_command =
  cmd_args :: "string list"

definition command_new :: redis_command where
  "command_new = \<lparr>cmd_args = []\<rparr>"

definition command_of :: "string \<Rightarrow> redis_command" where
  "command_of arg = \<lparr>cmd_args = [arg]\<rparr>"

definition command_push_cstr :: "redis_command \<Rightarrow> mem \<Rightarrow> redis_command cres" where
  "command_push_cstr cmd arg = cbind (c_strlen arg) (\<lambda>n. Ok (cmd\<lparr>cmd_args := cmd_args cmd @ [take n arg]\<rparr>))"

definition command_push :: "redis_command \<Rightarrow> string \<Rightarrow> redis_command" where
  "command_push cmd arg = cmd\<lparr>cmd_args := cmd_args cmd @ [arg]\<rparr>"

text \<open>The template for the arithmetic types; \<^verbatim>\<open>std::to_string\<close> of the type is a parameter.\<close>

definition command_push_value :: "('a \<Rightarrow> string) \<Rightarrow> redis_command \<Rightarrow> 'a \<Rightarrow> redis_command" where
  "command_push_value to_string cmd arg = cmd\<lparr>cmd_args := cmd_args cmd @ [to_string arg]\<rparr>"

section \<open>Connections\<close>

text \<open>The time of the last release is a \<^verbatim>\<open>std::tm\<close>; the clock is read outside.\<close>

record 'tm rdconnection =
  rd_c :: redisContext
  rd_released :: 'tm
  rd_pooled :: bool

type_synonym ('tm, 'a) rdcall = "((cpp_exn + 'a) \<times> 'tm rdconnection \<times> world) cres"

definition set_released :: "'tm \<Rightarrow> 'tm rdconnection \<Rightarrow> 'tm rdconnection" where
  "set_released tm k = k\<lparr>rd_released := tm\<rparr>"

definition set_pooled :: "bool \<Rightarrow> 'tm rdconnection \<Rightarrow> 'tm rdconnection" where
  "set_pooled pooled k = k\<lparr>rd_pooled := pooled\<rparr>"

definition connection_new :: "'tm \<Rightarrow> string \<Rightarrow> nat \<Rightarrow> bool \<Rightarrow> world \<Rightarrow> ((cpp_exn + 'tm rdconnection) \<times> world) cres" where
  "connection_new now host port pooled w =
     cbind (redisConnectWithTimeout (takeWhile (\<lambda>c. c \<noteq> NUL) host) (to_i32 (int port)) (1, 0) w) (\<lambda>(c, w).
       case c of
         None \<Rightarrow> Fault NullDeref
       | Some c \<Rightarrow>
           if c_err c \<noteq> REDIS_OK then Ok (Inl (RuntimeError ''redisConnectWithTimeout failed''), w)
           else Ok (Inr \<lparr>rd_c = c, rd_released = now, rd_pooled = pooled\<rparr>, w))"

text \<open>\<^verbatim>\<open>connect\<close> with its default arguments.\<close>

definition connection_connect :: "'tm \<Rightarrow> world \<Rightarrow> ((cpp_exn + 'tm rdconnection) \<times> world) cres" where
  "connection_connect now = connection_new now ''localhost'' 6379 True"

definition connection_delete :: "'tm rdconnection \<Rightarrow> world \<Rightarrow> world cres" where
  "connection_delete k w = redisFree (Some (rd_c k)) w"

definition is_valid :: "'tm rdconnection \<Rightarrow> bool" where
  "is_valid k \<longleftrightarrow> c_err (rd_c k) = REDIS_OK"

definition connection_append :: "string list \<Rightarrow> 'tm rdconnection \<Rightarrow> world \<Rightarrow> ('tm, unit) rdcall" where
  "connection_append args k w =
     (let argv = map cstr args; argv_lengths = map length args in
      cbind (redisAppendCommandArgv (rd_c k) w (to_i32 (int (length args))) argv (Some argv_lengths)) (\<lambda>(result, c, w).
        let k = k\<lparr>rd_c := c\<rparr> in
        if result \<noteq> REDIS_OK then Ok (Inl (RuntimeError ''redisAppendCommandArgv failed''), k, w) else Ok (Inr (), k, w)))"

definition connection_get_reply :: "'tm rdconnection \<Rightarrow> world \<Rightarrow> ('tm, reply) rdcall" where
  "connection_get_reply k w =
     cbind (redisGetReply (rd_c k) w) (\<lambda>(result, r, c, w).
     let k = k\<lparr>rd_c := c\<rparr> in
     if result \<noteq> REDIS_OK then Ok (Inl (RuntimeError ''redisGetReply failed''), k, w)
     else
       cbind (new_reply (hp_next (w_heap w)) w r) (\<lambda>x.
         case x of
           Inl e \<Rightarrow> Ok (Inl e, k, w)
         | Inr rep \<Rightarrow>
             cbind (freeReplyObject (hp_next (w_heap w)) r (w_heap w)) (\<lambda>h.
             let w = w\<lparr>w_heap := h\<rparr> in
             if reply_type rep = T_ERROR \<and> str_find (reply_str rep) ''READONLY'' 0 = 0 then Ok (Inl (RuntimeError ''read only''), k, w)
             else Ok (Inr rep, k, w))))"

primrec connection_get_replies :: "nat \<Rightarrow> 'tm rdconnection \<Rightarrow> world \<Rightarrow> ('tm, reply list) rdcall" where
  "connection_get_replies 0 k w = Ok (Inr [], k, w)"
| "connection_get_replies (Suc n) k w =
     cbind (connection_get_reply k w) (\<lambda>(x, k, w).
       case x of
         Inl e \<Rightarrow> Ok (Inl e, k, w)
       | Inr r \<Rightarrow> cbind (connection_get_replies n k w) (\<lambda>(x, k, w). Ok (map_sum id (Cons r) x, k, w)))"

definition connection_run :: "string list \<Rightarrow> 'tm rdconnection \<Rightarrow> world \<Rightarrow> ('tm, reply) rdcall" where
  "connection_run args k w =
     cbind (connection_append args k w) (\<lambda>(x, k, w). case x of Inl e \<Rightarrow> Ok (Inl e, k, w) | Inr _ \<Rightarrow> connection_get_reply k w)"


section \<open>Copying a reply\<close>

text \<open>The reply of the wrapper for a reply of the server. Both kinds of nil become the same.\<close>

fun reply_of :: "resp \<Rightarrow> reply" where
  "reply_of (Status s) = Mk_reply T_STATUS s 0 []"
| "reply_of (Error s) = Mk_reply T_ERROR s 0 []"
| "reply_of (Integer i) = Mk_reply T_INTEGER [] i []"
| "reply_of (Bulk s) = Mk_reply T_STRING s 0 []"
| "reply_of NilBulk = Mk_reply T_NIL [] 0 []"
| "reply_of NilMulti = Mk_reply T_NIL [] 0 []"
| "reply_of (Multi vs) = Mk_reply T_ARRAY [] 0 (map reply_of vs)"

lemma new_string_text: "length s \<le> 2147483647 \<Longrightarrow> new_string (s @ [NUL]) (to_size (to_i32 (int (length s)))) = Ok (Inr s)"
  by (simp add: new_string_def mem_slice_def)

lemma each_element_all:
  assumes "rr_element r = Some (ps @ qs)" "list_all2 (\<lambda>p x. f p = Ok (Inr x)) qs xs"
  shows "each_element f r [length ps..<length ps + length qs] = Ok (Inr xs)"
  using assms(2,1)
proof (induction arbitrary: ps rule: list_all2_induct)
  case (Cons q qs x xs)
  have "each_element f r [Suc (length ps)..<Suc (length ps) + length qs] = Ok (Inr xs)" using Cons.IH [of "ps @ [q]"] Cons.prems by simp
  moreover have "[length ps..<length ps + length (q # qs)] = length ps # [Suc (length ps)..<Suc (length ps) + length qs]" by (simp add: upt_rec)
  ultimately show ?case using Cons.hyps(1) Cons.prems by (simp add: element_at_def del: upt_Suc)
qed simp

lemma addresses_length: "length (addresses b vs) = length vs"
  by (induction vs arbitrary: b) simp_all

lemma new_reply_laid_out:
  "laid_out (hp_objs (w_heap w)) b v \<Longrightarrow> 0 < b \<Longrightarrow> resp_ok v \<Longrightarrow> lines_fit v \<Longrightarrow> depth v < n \<Longrightarrow> new_reply n w b = Ok (Inr (reply_of v))"
proof (induction v arbitrary: b n)
  case (Multi vs)
  then obtain n' where n: "n = Suc n'" by (cases n) auto
  have dep: "depth v < n'" if "v \<in> set vs" for v
    using Multi.prems(5) n that fold_max_ge(2) [of "depth v" "map depth vs" 0] by simp
  have "set us \<subseteq> set vs \<Longrightarrow> 0 < c \<Longrightarrow> laid_list (hp_objs (w_heap w)) c us \<Longrightarrow>
      list_all2 (\<lambda>p x. new_reply n' w p = Ok (Inr x)) (addresses c us) (map reply_of us)" for us c
  proof (induction us arbitrary: c)
    case (Cons u us)
    then have "new_reply n' w c = Ok (Inr (reply_of u))"
      using Multi.IH [of u c n'] Multi.prems(3,4) dep by (auto simp: list_all_iff)
    then show ?case using Cons by simp
  qed simp
  from this [of vs "Suc b"] have "list_all2 (\<lambda>p x. new_reply n' w p = Ok (Inr x)) (addresses (Suc b) vs) (map reply_of vs)"
    using Multi.prems(1) by simp
  from each_element_all [OF _ this, of _ "[]"] show ?case using Multi.prems(1) n
    by (cases "vs = []") (simp_all add: obj_at_def redis_consts type_consts addresses_length del: upt_Suc)
next
  case (Bulk s)
  then show ?case by (cases n) (simp_all add: new_string_text obj_at_def str_of_def redis_consts type_consts del: to_i32_id)
next
  case (Status s)
  then show ?case by (cases n) (simp_all add: new_string_text obj_at_def str_of_def redis_consts type_consts del: to_i32_id)
next
  case (Error s)
  then show ?case by (cases n) (simp_all add: new_string_text obj_at_def str_of_def redis_consts type_consts del: to_i32_id)
next
  case NilMulti
  then show ?case by (cases n) (simp_all add: obj_at_def redis_consts type_consts)
qed (auto simp: gr0_conv_Suc obj_at_def redis_consts type_consts)


section \<open>Asking for replies\<close>

definition read_only :: "resp \<Rightarrow> bool" where
  "read_only v = (case v of Error s \<Rightarrow> prefix ''READONLY'' s | _ \<Rightarrow> False)"

lemma str_find_start: "pat \<noteq> [] \<Longrightarrow> str_find s pat 0 = 0 \<longleftrightarrow> prefix pat s"
  by (cases s) (auto simp: str_find_def npos_def split: option.splits)

lemma read_only_reply: "reply_type (reply_of v) = T_ERROR \<and> str_find (reply_str (reply_of v)) ''READONLY'' 0 = 0 \<longleftrightarrow> read_only v"
  by (cases v) (simp_all add: read_only_def type_consts str_find_start)

text \<open>
  A connection between two replies: what it holds and what is to come are the replies \<open>vs\<close>; no
  command waits while there are bytes of replies at hand.
\<close>

definition awaits :: "resp list \<Rightarrow> 'tm rdconnection \<Rightarrow> world \<Rightarrow> bool" where
  "awaits vs k w \<longleftrightarrow> (\<exists>r. ready (rd_c k) w r \<and> rest_of r @ data (w_reads w) = concat (map encode vs) \<and>
     (rest_of r = [] \<or> pending (rd_c k) = [])) \<and> heap_ok (w_heap w) \<and> (\<forall>v \<in> set vs. resp_ok v \<and> lines_fit v \<and> depth v \<le> 8)"

text \<open>Reply objects do not outlive the call: the heap has the objects it had before.\<close>

lemma get_reply_step:
  assumes "awaits (v # vs) k w"
  shows "\<exists>k' w'. connection_get_reply k w = Ok (if read_only v then Inl (RuntimeError ''read only'') else Inr (reply_of v), k', w') \<and>
    awaits vs k' w' \<and> pending (rd_c k') = [] \<and> w_sent w' = w_sent w @ pending (rd_c k) \<and> hp_objs (w_heap w') = hp_objs (w_heap w)"
proof -
  let ?h = "w_heap w"
  obtain r where r: "rd_ok (rd_c k) w r" "wr_ok (rd_c k) w" "blocking (rd_c k)" "idle (start (core r)) (Some defaultFunctions) 0"
    "rest_of r @ data (w_reads w) = encode v @ concat (map encode vs)" "rest_of r = [] \<or> pending (rd_c k) = []"
    using assms by (auto simp: awaits_def ready_def)
  have v: "resp_ok v" "lines_fit v" "depth v \<le> 8" "heap_ok ?h" using assms by (auto simp: awaits_def)
  have "slot_ok ?h None (- 1)" by (simp add: slot_ok_def)
  with builds_all [of v] v(1,4) obtain h' where
    b: "build (Some defaultFunctions) 0 None (- 1) v ?h = Ok (hp_next ?h, h')" "heap_ok h'" "hp_next h' = hp_next ?h + objects v"
      "laid_out (hp_objs h') (hp_next ?h) v" "\<forall>a < hp_next ?h. hp_objs h' a = hp_objs ?h a"
    unfolding builds_def linked_def by fastforce
  obtain c where c: "idle c (Some defaultFunctions) 0" "hp_next ?h \<noteq> 0"
    "a_get (start (core r)) (encode v @ concat (map encode vs)) ?h = Ok (REDIS_OK, hp_next ?h, c, concat (map encode vs), h')"
    using a_get_encode [OF r(4) v(1,3) b(1)] by blast
  from redisGetReply_gets [OF r(1-3) c(2) r(6) c(3) [folded r(5)]] obtain c1 w1 r1 where
    g: "redisGetReply (rd_c k) w = Ok (REDIS_OK, hp_next ?h, c1, w1)" "rd_ok c1 w1 r1" "wr_ok c1 w1" "blocking c1" "w_heap w1 = h'"
      "start (core r1) = c" "rest_of r1 @ data (w_reads w1) = concat (map encode vs)" "pending c1 = []"
      "w_sent w1 = w_sent w @ pending (rd_c k)" by auto
  have p0: "0 < hp_next ?h" using c(2) by simp
  have d: "depth v < hp_next h'" using depth_objects [of v] b(3) p0 by simp
  let ?m = "\<lambda>a. if hp_next ?h \<le> a \<and> a < hp_next ?h + objects v then None else hp_objs h' a"
  have n: "new_reply (hp_next h') w1 (hp_next ?h) = Ok (Inr (reply_of v))"
    by (rule new_reply_laid_out) (use b(4) g(5) p0 v(1,2) d in auto)
  have f: "freeReplyObject (hp_next h') (hp_next ?h) h' = Ok (h'\<lparr>hp_objs := ?m\<rparr>)" by (rule free_laid_out [OF b(4) p0 d])
  have m: "?m = hp_objs ?h"
  proof
    fix a
    show "?m a = hp_objs ?h a" using b(2,3,5) v(4) by (cases "a < hp_next ?h") (auto simp: heap_ok_def)
  qed
  let ?k = "k\<lparr>rd_c := c1\<rparr>" and ?w = "w1\<lparr>w_heap := h'\<lparr>hp_objs := hp_objs ?h\<rparr>\<rparr>"
  have "connection_get_reply k w = Ok (if read_only v then Inl (RuntimeError ''read only'') else Inr (reply_of v), ?k, ?w)"
    using g(1,5) n f read_only_reply [of v] unfolding m by (simp add: connection_get_reply_def Let_def)
  moreover have "heap_ok (h'\<lparr>hp_objs := hp_objs ?h\<rparr>)" using b(2,3) v(4) by (simp add: heap_ok_def)
  then have "awaits vs ?k ?w"
    using g c(1) assms unfolding awaits_def ready_def
    by (auto simp: rd_ok_def wr_ok_def env_ok_def intro!: exI [of _ r1])
  ultimately show ?thesis using g(8,9) by (intro exI [of _ ?k] exI [of _ ?w]) simp
qed

text \<open>
  What asking for all of them gives: the replies in order, or an exception at the first refusal, with
  the replies after it left for a later call.
\<close>

definition unread :: "resp list \<Rightarrow> resp list" where
  "unread vs = drop 1 (dropWhile (\<lambda>v. \<not> read_only v) vs)"

lemma get_replies_step:
  "awaits vs k w \<Longrightarrow> \<exists>k' w'. connection_get_replies (length vs) k w =
      Ok (if list_ex read_only vs then Inl (RuntimeError ''read only'') else Inr (map reply_of vs), k', w') \<and>
    awaits (unread vs) k' w' \<and> (vs \<noteq> [] \<longrightarrow> pending (rd_c k') = [] \<and> w_sent w' = w_sent w @ pending (rd_c k)) \<and>
    hp_objs (w_heap w') = hp_objs (w_heap w)"
proof (induction vs arbitrary: k w)
  case Nil
  then show ?case by (simp add: unread_def)
next
  case (Cons v vs)
  obtain k1 w1 where g: "connection_get_reply k w = Ok (if read_only v then Inl (RuntimeError ''read only'') else Inr (reply_of v), k1, w1)"
    "awaits vs k1 w1" "pending (rd_c k1) = []" "w_sent w1 = w_sent w @ pending (rd_c k)" "hp_objs (w_heap w1) = hp_objs (w_heap w)"
    using get_reply_step [OF Cons.prems] by blast
  show ?case
  proof (cases "read_only v")
    case True
    then show ?thesis using g by (simp add: unread_def)
  next
    case False
    obtain k2 w2 where i: "connection_get_replies (length vs) k1 w1 =
        Ok (if list_ex read_only vs then Inl (RuntimeError ''read only'') else Inr (map reply_of vs), k2, w2)"
      "awaits (unread vs) k2 w2" "vs \<noteq> [] \<longrightarrow> pending (rd_c k2) = [] \<and> w_sent w2 = w_sent w1 @ pending (rd_c k1)"
      "hp_objs (w_heap w2) = hp_objs (w_heap w1)" using Cons.IH [OF g(2)] by blast
    have "pending (rd_c k2) = [] \<and> w_sent w2 = w_sent w @ pending (rd_c k)" using i(1,3) g(3,4) by (cases "vs = []") auto
    then show ?thesis using False g(1,5) i(1,2,4) by (simp add: unread_def)
  qed
qed


section \<open>Sending commands\<close>

lemma argv_texts:
  "args_text (map cstr args) (Some (map length args)) (length args) = args" "\<forall>j < length args. arg_valid (map cstr args) (Some (map length args)) j"
  by (auto simp: args_text_def arg_text_def arg_valid_def cstr_def intro!: nth_equalityI)

lemma append_step:
  assumes "wr_ok (rd_c k) w" "sds_fits (Suc (length (pending (rd_c k)) + length (command_text args)))"
    "length (pending (rd_c k)) + length (command_text args) \<le> capacity (w_writes w)"
  shows "\<exists>c' w'. connection_append args k w = Ok (Inr (), k\<lparr>rd_c := c'\<rparr>, w') \<and> wr_ok c' w' \<and> same_in (rd_c k) w c' w' \<and>
    pending c' = pending (rd_c k) @ command_text args \<and> w_sent w' = w_sent w \<and> w_writes w' = w_writes w"
proof -
  let ?t = "command_text args" and ?n = "length args" and ?p = "pending (rd_c k)"
  have al: "alloc_ok (envs w i j)" for i j using assms(1) by (simp add: wr_ok_def env_okD)
  have sz: "sds_fits (Suc (length ?t))" by (rule sds_fits_mono [OF assms(2)]) simp
  obtain s where
    f: "redisFormatSdsCommandArgv (envs w 0 0) (envs w 0 1) (\<lambda>i. envs w (Suc i)) True (int ?n) (map cstr args) (Some (map length args)) =
        Ok (int (length ?t), Some s)" "sds_wf s" "sds_content s = ?t"
    using redisFormatSdsCommandArgv_spec [OF argv_texts(2), of args "envs w 0 0" "envs w 0 1" "\<lambda>i. envs w (Suc i)"] sz al
    by (auto simp: argv_texts(1))
  have lim: "length ?t \<le> 2147483647" using assms(2) by (simp add: sds_fits_def)
  have n: "to_i32 (int ?n) = int ?n" using length_command_ge [of args] lim by simp
  have tk: "length ?t \<le> length (sh_buf s)" "take (length ?t) (sh_buf s) = ?t"
    unfolding f(3) [symmetric] sds_content_def by (simp_all add: min_def)
  have "wr_ok (rd_c k) (tick w)" using assms(1) by (simp add: wr_ok_def env_ok_def)
  moreover have "sds_fits (length ?p + length ?t)" by (rule sds_fits_mono [OF assms(2)]) simp
  ultimately obtain c1 w1 where
    a: "append_cmd (rd_c k) (tick w) (sh_buf s) (length ?t) = Ok (REDIS_OK, c1, w1)" "same_in (rd_c k) (tick w) c1 w1" "out_ok c1" "c_err c1 = 0"
      "pending c1 = ?p @ ?t" "w_sent w1 = w_sent w" "w_writes w1 = w_writes w"
    using append_cmd_step [of "rd_c k" "tick w" "length ?t" "sh_buf s"] tk by auto
  have "connection_append args k w = Ok (Inr (), k\<lparr>rd_c := c1\<rparr>, w1)"
    using f(1) a(1) n lim by (simp add: connection_append_def redisAppendCommandArgv_def Let_def)
  moreover have "wr_ok c1 w1" using a assms(1,3) by (auto simp: wr_ok_def same_in_def env_ok_def)
  ultimately show ?thesis using a by (auto simp: same_in_def)
qed

primrec append_commands :: "string list list \<Rightarrow> 'tm rdconnection \<Rightarrow> world \<Rightarrow> ('tm, unit) rdcall" where
  "append_commands [] k w = Ok (Inr (), k, w)"
| "append_commands (args # cmds) k w =
     cbind (connection_append args k w) (\<lambda>(x, k, w). case x of Inl e \<Rightarrow> Ok (Inl e, k, w) | Inr _ \<Rightarrow> append_commands cmds k w)"

lemma same_in_refl [simp]: "same_in c w c w"
  by (simp add: same_in_def)

lemma append_commands_step:
  "wr_ok (rd_c k) w \<Longrightarrow> sds_fits (Suc (length (pending (rd_c k)) + length (concat (map command_text cmds)))) \<Longrightarrow>
   length (pending (rd_c k)) + length (concat (map command_text cmds)) \<le> capacity (w_writes w) \<Longrightarrow>
   \<exists>c' w'. append_commands cmds k w = Ok (Inr (), k\<lparr>rd_c := c'\<rparr>, w') \<and> wr_ok c' w' \<and> same_in (rd_c k) w c' w' \<and>
     pending c' = pending (rd_c k) @ concat (map command_text cmds) \<and> w_sent w' = w_sent w"
proof (induction cmds arbitrary: k w)
  case Nil
  then show ?case by (intro exI [of _ "rd_c k"] exI [of _ w]) simp
next
  case (Cons args cmds)
  have "sds_fits (Suc (length (pending (rd_c k)) + length (command_text args)))" by (rule sds_fits_mono [OF Cons.prems(2)]) simp
  from append_step [OF Cons.prems(1) this] Cons.prems(3) obtain c1 w1 where
    a: "connection_append args k w = Ok (Inr (), k\<lparr>rd_c := c1\<rparr>, w1)" "wr_ok c1 w1" "same_in (rd_c k) w c1 w1"
      "pending c1 = pending (rd_c k) @ command_text args" "w_sent w1 = w_sent w" "w_writes w1 = w_writes w" by auto
  from Cons.IH [of "k\<lparr>rd_c := c1\<rparr>" w1] a Cons.prems(2,3) obtain c2 w2 where
    "append_commands cmds (k\<lparr>rd_c := c1\<rparr>) w1 = Ok (Inr (), k\<lparr>rd_c := c2\<rparr>, w2)" "wr_ok c2 w2" "same_in c1 w1 c2 w2"
    "pending c2 = pending c1 @ concat (map command_text cmds)" "w_sent w2 = w_sent w1" by (auto simp: add.assoc)
  then show ?case using a by (auto simp: same_in_def)
qed

section \<open>A new connection\<close>

text \<open>The clock, the resolver and the system calls apart, a connection that could be made is ready for use.\<close>

lemma connection_new_ready:
  assumes "connection_new now host port pooled w0 = Ok (Inr k, w)" "env_ok w" "writes_ok (w_writes w)" "reads_ok (w_reads w)"
    "sds_fits (length (data (w_reads w)))"
  shows "\<exists>r. ready (rd_c k) w r \<and> rest_of r = []" "pending (rd_c k) = []" "rd_pooled k = pooled" "rd_released k = now" "is_valid k"
proof -
  let ?ip = "takeWhile (\<lambda>c. c \<noteq> NUL) host" and ?port = "to_i32 (int port)"
  obtain c where c: "redisConnectWithTimeout ?ip ?port (1, 0) w0 = Ok (Some c, w)" "c_err c = REDIS_OK"
    and k: "k = \<lparr>rd_c = c, rd_released = now, rd_pooled = pooled\<rparr>"
    using assms(1) by (auto simp: connection_new_def split: option.splits if_splits)
  show "rd_pooled k = pooled" "rd_released k = now" "is_valid k" using k c(2) by (simp_all add: is_valid_def)
  obtain c0 w2 res where i: "redisContextInit w0 = Ok (Some c0, w2)"
    "tcp_connect False (c0\<lparr>c_flags := c_flags c0 OR REDIS_BLOCK\<rparr>) w2 (Some ?ip) ?port (Some (1, 0)) None = Ok (res, c, w)"
    using c by (auto simp: redisConnectWithTimeout_def connect_with_def redisContextConnectTcp_def split: option.splits if_splits)
  obtain ob rd where z: "sdsempty (envs w0 0 1) = Ok ob" "redisReaderCreate (envs w0 0 2) = Ok rd"
    "c_obuf c0 = Some ob" "c_reader c0 = Some rd" "c_flags c0 = 0"
    using i(1) by (auto simp: redisContextInit_def Let_def elim!: nullable.elims split: if_splits)
  have "c_flags (c0\<lparr>c_flags := c_flags c0 OR REDIS_BLOCK\<rparr>) AND REDIS_REUSEADDR = 0" using z(5) by (simp add: REDIS_BLOCK_def REDIS_REUSEADDR_def)
  from postD [OF tcp_connect_post [OF this] i(2)]
  have q: "c_obuf c = Some ob" "c_reader c = Some rd" "c_flags c = REDIS_BLOCK OR REDIS_CONNECTED \<or> c_flags c = REDIS_BLOCK"
    using z by (auto simp: attempt_post_def split: if_splits)
  have ob: "sds_wf ob \<and> sds_content ob = []" using sdsempty_spec [of "envs w0 0 1"] z(1) by simp
  then show pe: "pending (rd_c k) = []" using k q(1) by (simp add: pending_def)
  have cr: "redisReaderCreateWithFunctions (envs w0 0 2) (Some defaultFunctions) = Ok rd" using z(2) by (simp add: redisReaderCreate_def)
  note g = fresh_reader [OF cr]
  have pd: "r_privdata rd = 0" using cr by (auto simp: redisReaderCreateWithFunctions_def split: if_splits)
  have "idle (start (core rd)) (Some defaultFunctions) 0" using idle_start [of "core rd"] g pd by (auto simp: reader_inv_def)
  moreover have "blocking c" using q(3) by (auto simp: blocking_def REDIS_BLOCK_def REDIS_CONNECTED_def)
  moreover have "rd_ok c w rd" using c(2) q(2) g assms(2,4,5) by (simp add: rd_ok_def redis_consts)
  moreover have "wr_ok c w" using c(2) q(1) ob pe k assms(2,3) by (simp add: wr_ok_def out_ok_def redis_consts)
  ultimately show "\<exists>r. ready (rd_c k) w r \<and> rest_of r = []" using k g(3) by (auto simp: ready_def)
qed


section \<open>Properties\<close>

lemma commands_await:
  assumes "connection_new now host port pooled w0 = Ok (Inr k, w)" "env_ok w" "heap_ok (w_heap w)"
    "writes_ok (w_writes w)" "length (concat (map command_text cmds)) \<le> capacity (w_writes w)" "sds_fits (Suc (length (concat (map command_text cmds))))"
    "reads_ok (w_reads w)" "data (w_reads w) = concat (map encode vs)" "sds_fits (length (data (w_reads w)))"
    "\<forall>v \<in> set vs. resp_ok v \<and> lines_fit v \<and> depth v \<le> 8"
  shows "\<exists>k1 w1. append_commands cmds k w = Ok (Inr (), k1, w1) \<and> awaits vs k1 w1 \<and> pending (rd_c k1) = concat (map command_text cmds) \<and>
    w_sent w1 = w_sent w \<and> w_heap w1 = w_heap w"
proof -
  obtain r where r: "ready (rd_c k) w r" "rest_of r = []" and pe: "pending (rd_c k) = []"
    using connection_new_ready [OF assms(1,2,4,7,9)] by blast
  obtain c1 w1 where a: "append_commands cmds k w = Ok (Inr (), k\<lparr>rd_c := c1\<rparr>, w1)" "wr_ok c1 w1" "same_in (rd_c k) w c1 w1"
    "pending c1 = concat (map command_text cmds)" "w_sent w1 = w_sent w"
    using append_commands_step [of k w cmds] r(1) pe assms(5,6) by (auto simp: ready_def)
  have "ready c1 w1 r" using same_in_rd [OF a(3), of r] r(1) a(2,3) by (auto simp: ready_def wr_ok_def same_in_def blocking_def)
  then have "awaits vs (k\<lparr>rd_c := c1\<rparr>) w1" using a(3) r(2) assms(3,8,10) by (auto simp: awaits_def same_in_def)
  then show ?thesis using a by (auto simp: same_in_def)
qed

text \<open>
  C8. Commands and replies through the wrapper. On a new connection any commands can be appended;
  when the server answers with the replies \<open>vs\<close>, whatever the pieces in which bytes are sent and
  received, asking for as many replies returns: exactly the commands have been sent, each argument
  as it is, and the result is the replies, copied into values, in order; or the exception that
  the server is read only, exactly if one of the replies says so. No reply object is left in
  memory, and the connection stays usable.
\<close>
theorem redis3m_pipeline:
  assumes "connection_new now host port pooled w0 = Ok (Inr k, w)" "env_ok w" "heap_ok (w_heap w)"
    "writes_ok (w_writes w)" "length (concat (map command_text cmds)) \<le> capacity (w_writes w)" "sds_fits (Suc (length (concat (map command_text cmds))))"
    "reads_ok (w_reads w)" "data (w_reads w) = concat (map encode vs)" "sds_fits (length (data (w_reads w)))"
    "\<forall>v \<in> set vs. resp_ok v \<and> lines_fit v \<and> depth v \<le> 8" "vs \<noteq> []"
  shows "\<exists>k1 w1 k2 w2. append_commands cmds k w = Ok (Inr (), k1, w1) \<and>
    connection_get_replies (length vs) k1 w1 =
      Ok (if list_ex read_only vs then Inl (RuntimeError ''read only'') else Inr (map reply_of vs), k2, w2) \<and>
    w_sent w2 = w_sent w @ concat (map (\<lambda>args. encode (Multi (map Bulk args))) cmds) \<and>
    hp_objs (w_heap w2) = hp_objs (w_heap w) \<and> is_valid k2"
proof -
  obtain k1 w1 where a: "append_commands cmds k w = Ok (Inr (), k1, w1)" "awaits vs k1 w1" "pending (rd_c k1) = concat (map command_text cmds)"
    "w_sent w1 = w_sent w" "w_heap w1 = w_heap w" using commands_await [OF assms(1-10)] by blast
  obtain k2 w2 where g: "connection_get_replies (length vs) k1 w1 =
      Ok (if list_ex read_only vs then Inl (RuntimeError ''read only'') else Inr (map reply_of vs), k2, w2)"
    "awaits (unread vs) k2 w2" "w_sent w2 = w_sent w1 @ pending (rd_c k1)" "hp_objs (w_heap w2) = hp_objs (w_heap w1)"
    using get_replies_step [OF a(2)] assms(11) by blast
  have "is_valid k2" using g(2) by (auto simp: awaits_def ready_def rd_ok_def is_valid_def redis_consts)
  moreover have "command_text = (\<lambda>args. encode (Multi (map Bulk args)))" by (rule ext) (rule command_text_encode)
  ultimately show ?thesis using a g by (intro exI [of _ k1] exI [of _ w1] exI [of _ k2] exI [of _ w2]) simp
qed

text \<open>
  Replies behind a refusal stay in the connection: after the exception the next caller, who asks
  for replies of its own, is given those.
\<close>
theorem redis3m_stale_replies:
  assumes "awaits (vs @ Error (''READONLY'' @ msg) # us) k w" "list_all (\<lambda>v. \<not> read_only v) (vs @ us)"
  shows "\<exists>k1 w1 k2 w2. connection_get_replies (length (vs @ Error (''READONLY'' @ msg) # us)) k w = Ok (Inl (RuntimeError ''read only''), k1, w1) \<and>
    connection_get_replies (length us) k1 w1 = Ok (Inr (map reply_of us), k2, w2)"
proof -
  let ?all = "vs @ Error (''READONLY'' @ msg) # us"
  have ro: "read_only (Error (''READONLY'' @ msg))" by (simp add: read_only_def)
  have u: "unread ?all = us" "list_ex read_only ?all" "\<not> list_ex read_only us"
    using assms(2) ro by (auto simp: unread_def dropWhile_append list_ex_iff list_all_iff)
  obtain k1 w1 where g: "connection_get_replies (length ?all) k w = Ok (Inl (RuntimeError ''read only''), k1, w1)" "awaits us k1 w1"
    using get_replies_step [OF assms(1)] u(1,2) by auto
  then show ?thesis using get_replies_step [OF g(2)] u(3) by auto
qed

definition redis3m_world :: world where
  "redis3m_world = example_world\<lparr>w_resolve := (\<lambda>_ _ _. Inr [1]), w_sys := [Inr 5, Inr 0, Inr 0, Inr 0, Inr 0, Inr 0, Inr 0],
     w_reads := [Inr (''+O''), Inl EINTR, Inr (''K'' @ crlf @ ''$3'' @ crlf @ ''bar'' @ crlf)]\<rparr>"

lemma redis3m_connects:
  "\<exists>k w. connection_connect () redis3m_world = Ok (Inr k, w) \<and> w_env w = w_env redis3m_world \<and> w_sent w = [] \<and>
     w_heap w = w_heap redis3m_world \<and> w_reads w = w_reads redis3m_world \<and> w_writes w = w_writes redis3m_world"
proof -
  obtain b where b: "sdsempty plenty = Ok b" using returns_ex [OF sdsempty_spec alloc_ok_plenty] by blast
  obtain r where r: "redisReaderCreate plenty = Ok r" using create_plenty by (auto simp: redisReaderCreate_def)
  have pl: "can_alloc plenty n" for n by (simp add: plenty_def)
  show ?thesis using b r
    by (simp add: connection_connect_def connection_new_def redisConnectWithTimeout_def connect_with_def redisContextInit_def Let_def redis3m_world_def
        example_world_def envs_def pl tick_def redisContextConnectTcp_def tcp_connect_def keep_params_def connect_loop.simps
        sys_socket_def sys_call_def redisSetBlocking_def bind_source_def finish_connect_def redisSetTcpNoDelay_def
        sys_setsockopt_def redis_consts REDIS_CONNECTED_def REDIS_BLOCK_def REDIS_REUSEADDR_def)
qed

theorem redis3m_pipeline_witness:
  "\<exists>k w k1 w1 k2 w2. connection_connect () redis3m_world = Ok (Inr k, w) \<and>
     append_commands [cmd_args (command_push (command_push (command_of ''SET'') ''foo'') ''bar''), cmd_args (command_push (command_of ''GET'') ''foo'')] k w = Ok (Inr (), k1, w1) \<and>
     connection_get_replies 2 k1 w1 = Ok (Inr [Mk_reply T_STATUS ''OK'' 0 [], Mk_reply T_STRING ''bar'' 0 []], k2, w2) \<and>
     hp_objs (w_heap w2) = hp_objs (w_heap w)"
proof -
  let ?vs = "[Status ''OK'', Bulk ''bar'']" and ?cmds = "[[''SET'', ''foo'', ''bar''], [''GET'', ''foo'']]"
  obtain k w where c: "connection_connect () redis3m_world = Ok (Inr k, w)" "w_env w = w_env redis3m_world"
    "w_heap w = w_heap redis3m_world" "w_reads w = w_reads redis3m_world" "w_writes w = w_writes redis3m_world"
    using redis3m_connects by blast
  have three: "digit_char (Suc (Suc (Suc 0))) = CHR ''3''" by code_simp
  have "\<exists>k1 w1 k2 w2. append_commands ?cmds k w = Ok (Inr (), k1, w1) \<and>
    connection_get_replies (length ?vs) k1 w1 =
      Ok (if list_ex read_only ?vs then Inl (RuntimeError ''read only'') else Inr (map reply_of ?vs), k2, w2) \<and>
    w_sent w2 = w_sent w @ concat (map (\<lambda>args. encode (Multi (map Bulk args))) ?cmds) \<and>
    hp_objs (w_heap w2) = hp_objs (w_heap w) \<and> is_valid k2"
    by (rule redis3m_pipeline [OF c(1) [unfolded connection_connect_def]])
      (use c(2-5) in \<open>simp_all add: redis3m_world_def example_world_def env_ok_def empty_heap_ok command_text_def bulk_text_def crlf_def
        sds_fits_def SDS_MAX_PREALLOC_def dec_eval three\<close>)
  then show ?thesis using c(1)
    by (auto simp: command_push_def command_of_def read_only_def numeral_2_eq_2 simp del: append_commands.simps connection_get_replies.simps)
qed

end
