(* ===== verification/Cpp_Time.thy ===== *)
theory Cpp_Time
  imports Cpp_Prelude
begin

text \<open>
  What the sources use of \<^verbatim>\<open><ctime>\<close> and \<^verbatim>\<open><cstdio>\<close>: \<^verbatim>\<open>std::tm\<close>, \<^verbatim>\<open>strftime\<close> with numeric
  conversions, and \<^verbatim>\<open>sscanf\<close> with decimal ones. \<^verbatim>\<open>mktime\<close> and \<^verbatim>\<open>localtime\<close> depend on the time zone
  and are parameters where they are used.
\<close>

section \<open>Broken-down times\<close>

record tm =
  tm_year :: int
  tm_mon :: int
  tm_mday :: int
  tm_hour :: int
  tm_min :: int
  tm_sec :: int
  tm_isdst :: int

definition to_u32 :: "int \<Rightarrow> int" where
  "to_u32 x = x mod 4294967296"

lemma to_u32_id [simp]: "0 \<le> x \<Longrightarrow> x < 4294967296 \<Longrightarrow> to_u32 x = x"
  by (simp add: to_u32_def)

text \<open>A difference of type \<^verbatim>\<open>int\<close>: an overflow has no defined behaviour.\<close>

definition int_sub :: "int \<Rightarrow> int \<Rightarrow> int cpp" where
  "int_sub a b = (if - 2147483648 \<le> a - b \<and> a - b \<le> 2147483647 then Ret (a - b) else Undefined)"

section \<open>Printing\<close>

datatype conv = Conv_Y | Conv_m | Conv_d | Conv_H | Conv_M | Conv_S | Plain char

definition pad2 :: "int \<Rightarrow> string" where
  "pad2 n = [digit_char (nat n div 10), digit_char (nat n mod 10)]"

text \<open>
  A member out of its normal range makes \<^verbatim>\<open>strftime\<close> write unspecified characters; this counts as
  undefined here.
\<close>

definition ranged :: "int \<Rightarrow> int \<Rightarrow> int \<Rightarrow> string cpp" where
  "ranged lo hi n = (if lo \<le> n \<and> n \<le> hi then Ret (pad2 n) else Undefined)"

fun conv_text :: "tm \<Rightarrow> conv \<Rightarrow> string cpp" where
  "conv_text t Conv_Y = Ret (dec_int (tm_year t + 1900))"
| "conv_text t Conv_m = ranged 1 12 (tm_mon t + 1)"
| "conv_text t Conv_d = ranged 1 31 (tm_mday t)"
| "conv_text t Conv_H = ranged 0 23 (tm_hour t)"
| "conv_text t Conv_M = ranged 0 59 (tm_min t)"
| "conv_text t Conv_S = ranged 0 60 (tm_sec t)"
| "conv_text t (Plain c) = Ret [c]"

fun strftime :: "conv list \<Rightarrow> tm \<Rightarrow> string cpp" where
  "strftime [] t = Ret []"
| "strftime (c # cs) t = xbind (conv_text t c) (\<lambda>x. xbind (strftime cs t) (\<lambda>y. Ret (x @ y)))"

section \<open>Reading\<close>

text \<open>One \<^verbatim>\<open>%d\<close>: white space, a sign, at least one digit. A value that is no \<^verbatim>\<open>int\<close> is undefined.\<close>

definition scan_int :: "string \<Rightarrow> (int \<times> string) option cpp" where
  "scan_int s =
     (let p = dropWhile c_isspace s;
          neg = (p \<noteq> [] \<and> hd p = CHR ''-'');
          q = (if p \<noteq> [] \<and> (hd p = CHR ''-'' \<or> hd p = CHR ''+'') then tl p else p);
          v = (if neg then - int (number_of 10 0 q) else int (number_of 10 0 q)) in
      if q = [] \<or> \<not> c_isdigit (hd q) then Ret None
      else if v < - 2147483648 \<or> 2147483647 < v then Undefined
      else Ret (Some (v, dropWhile c_isdigit q)))"

datatype scan = Scan_d | Scan_space | Scan_char char

text \<open>
  The values that \<^verbatim>\<open>sscanf\<close> assigns, in order; its result is their number, or \<^verbatim>\<open>EOF\<close> when the input
  ends before the first of them.
\<close>

fun sscanf :: "scan list \<Rightarrow> string \<Rightarrow> int list cpp" where
  "sscanf [] s = Ret []"
| "sscanf (Scan_d # ds) s =
     xbind (scan_int s) (\<lambda>x. case x of None \<Rightarrow> Ret [] | Some (v, s') \<Rightarrow> xbind (sscanf ds s') (\<lambda>vs. Ret (v # vs)))"
| "sscanf (Scan_space # ds) s = sscanf ds (dropWhile c_isspace s)"
| "sscanf (Scan_char c # ds) s = (if s \<noteq> [] \<and> hd s = c then sscanf ds (tl s) else Ret [])"

section \<open>Laws\<close>

text \<open>A numeral: a nonempty string of digits with a value.\<close>

definition numeral_of :: "string \<Rightarrow> nat \<Rightarrow> bool" where
  "numeral_of ds n \<longleftrightarrow> ds \<noteq> [] \<and> (\<forall>c \<in> set ds. \<exists>d < 10. c = digit_char d) \<and> (\<forall>s. number_of 10 0 (ds @ s) = number_of 10 n s)"

lemma numeral_dec_nat: "numeral_of (dec_nat n) n"
proof -
  have "\<forall>c \<in> set (dec_nat n). \<exists>d < 10. c = digit_char d"
  proof (induction n rule: dec_nat.induct)
    case (1 n)
    show ?case
    proof (cases "n < 10")
      case True
      then show ?thesis by (auto simp: dec_nat.simps [of n])
    next
      case False
      then show ?thesis using 1 [OF False] by (auto simp: dec_nat.simps [of n] intro: exI [of _ "n mod 10"])
    qed
  qed
  moreover have "dec_nat n \<noteq> []" using dec_nat_hd [of n] by auto
  ultimately show ?thesis by (simp add: numeral_of_def number_of_dec_nat)
qed

lemma numeral_pad2: "0 \<le> n \<Longrightarrow> n < 100 \<Longrightarrow> numeral_of (pad2 n) (nat n)"
proof -
  assume n: "0 \<le> n" "n < 100"
  then have "nat n div 10 < 10" "nat n mod 10 < 10" by (simp_all add: nat_less_iff)
  moreover have "\<exists>d < 10. digit_char (nat n mod 10) = digit_char d" by (intro exI [of _ "nat n mod 10"]) simp
  ultimately show ?thesis by (auto simp: numeral_of_def pad2_def digit_of_digit)
qed

lemma scan_numeral:
  assumes "numeral_of ds n" "n \<le> 2147483647" "s = [] \<or> \<not> c_isdigit (hd s)"
  shows "scan_int (ds @ s) = Ret (Some (int n, s))"
proof -
  obtain d t where d: "ds = digit_char d # t" "d < 10" using assms(1) by (cases ds) (auto simp: numeral_of_def)
  have dg: "\<forall>c \<in> set ds. c_isdigit c" using assms(1) digit_char_facts(2) by (auto simp: numeral_of_def)
  have "number_of 10 n s = n" using assms(3) by (cases s) (auto simp: digit_of_def)
  then have v: "number_of 10 0 (ds @ s) = n" using assms(1) by (simp add: numeral_of_def)
  have r: "dropWhile c_isdigit (ds @ s) = s" using dg assms(3) by (cases s) (auto simp: dropWhile_append2)
  show ?thesis using digit_char_facts [OF d(2)] v r assms(2) unfolding scan_int_def d(1) Let_def
    by (simp del: number_of.simps dropWhile.simps add: dropWhile.simps(2) [of c_isspace])
qed

end
