(* ===== verification/Mysqlpp_Datetime.thy ===== *)
theory Mysqlpp_Datetime
  imports Cpp_Time
begin

text \<open>
  The structure \<^verbatim>\<open>datetime\<close> of \<^verbatim>\<open>src/src/mysqlpp.hpp\<close>: points in time as MySQL has them, made from the
  clock or from a text, and printed. \<^verbatim>\<open>mktime\<close> is a parameter, and so is what the automatic variable
  of the constructor holds before it is assigned. A text that was printed is read back as the same
  time.
\<close>

section \<open>Operations\<close>

text \<open>The members are of type \<^verbatim>\<open>unsigned int\<close>.\<close>

record datetime =
  dt_year :: int
  dt_month :: int
  dt_day :: int
  dt_hour :: int
  dt_minute :: int
  dt_second :: int

definition set_time :: "tm \<Rightarrow> datetime" where
  "set_time t = \<lparr>dt_year = to_u32 (to_u32 (tm_year t) + 1900), dt_month = to_u32 (to_u32 (tm_mon t) + 1),
     dt_day = to_u32 (tm_mday t), dt_hour = to_u32 (tm_hour t), dt_minute = to_u32 (tm_min t), dt_second = to_u32 (tm_sec t)\<rparr>"

text \<open>The default constructor; \<open>now\<close> is the local time.\<close>

definition datetime_now :: "tm \<Rightarrow> datetime" where
  "datetime_now now = set_time now"

definition c_tm :: "datetime \<Rightarrow> tm cpp" where
  "c_tm d =
     xbind (int_sub (to_i32 (dt_year d)) 1900) (\<lambda>y.
     xbind (int_sub (to_i32 (dt_month d)) 1) (\<lambda>m.
     Ret \<lparr>tm_year = y, tm_mon = m, tm_mday = to_i32 (dt_day d), tm_hour = to_i32 (dt_hour d), tm_min = to_i32 (dt_minute d),
       tm_sec = to_i32 (dt_second d), tm_isdst = - 1\<rparr>))"

definition datetime_str :: "datetime \<Rightarrow> string cpp" where
  "datetime_str d =
     xbind (c_tm d) (\<lambda>t. strftime [Conv_Y, Plain (CHR ''-''), Conv_m, Plain (CHR ''-''), Conv_d, Plain (CHR '' ''),
       Conv_H, Plain (CHR '':''), Conv_M, Plain (CHR '':''), Conv_S] t)"

text \<open>The members that \<^verbatim>\<open>sscanf\<close> assigns, in the order of its arguments.\<close>

definition assign :: "tm \<Rightarrow> int list \<Rightarrow> tm" where
  "assign t vs =
     (let at = (\<lambda>i old. if i < length vs then vs ! i else old) in
      t\<lparr>tm_year := at 0 (tm_year t), tm_mon := at 1 (tm_mon t), tm_mday := at 2 (tm_mday t),
        tm_hour := at 3 (tm_hour t), tm_min := at 4 (tm_min t), tm_sec := at 5 (tm_sec t)\<rparr>)"

definition cast_failed :: "'a cpp" where
  "cast_failed = Throw (RuntimeError ''datetime cast failed'')"

definition datetime_of :: "(tm \<Rightarrow> int \<times> tm) \<Rightarrow> tm \<Rightarrow> string \<Rightarrow> datetime cpp" where
  "datetime_of mktime held str =
     (if length str > 19 then cast_failed
      else
        xbind (sscanf [Scan_d, Scan_char (CHR ''-''), Scan_d, Scan_char (CHR ''-''), Scan_d, Scan_space,
            Scan_d, Scan_char (CHR '':''), Scan_d, Scan_char (CHR '':''), Scan_d] (takeWhile (\<lambda>c. c \<noteq> NUL) str)) (\<lambda>vs.
        let t = assign held vs in
        if length vs \<noteq> 3 \<and> length vs \<noteq> 6 then cast_failed
        else
          xbind (int_sub (tm_year t) 1900) (\<lambda>y.
          xbind (int_sub (tm_mon t) 1) (\<lambda>m.
            case mktime (t\<lparr>tm_year := y, tm_mon := m, tm_isdst := - 1\<rparr>) of (r, t) \<Rightarrow>
              if r = - 1 then cast_failed else Ret (set_time t)))))"

section \<open>Times that can be printed\<close>

definition printable :: "datetime \<Rightarrow> bool" where
  "printable d \<longleftrightarrow> 0 \<le> dt_year d \<and> dt_year d \<le> 9999 \<and> 1 \<le> dt_month d \<and> dt_month d \<le> 12 \<and> 1 \<le> dt_day d \<and> dt_day d \<le> 31 \<and>
     0 \<le> dt_hour d \<and> dt_hour d \<le> 23 \<and> 0 \<le> dt_minute d \<and> dt_minute d \<le> 59 \<and> 0 \<le> dt_second d \<and> dt_second d \<le> 59"

text \<open>\<^verbatim>\<open>mktime\<close> does not change a date and time that the calendar and the time zone have.\<close>

definition mktime_keeps :: "(tm \<Rightarrow> int \<times> tm) \<Rightarrow> tm \<Rightarrow> bool" where
  "mktime_keeps mktime t \<longleftrightarrow> fst (mktime t) \<noteq> - 1 \<and>
     (let u = snd (mktime t) in tm_year u = tm_year t \<and> tm_mon u = tm_mon t \<and> tm_mday u = tm_mday t \<and> tm_hour u = tm_hour t \<and>
        tm_min u = tm_min t \<and> tm_sec u = tm_sec t)"

definition date_text :: "datetime \<Rightarrow> string" where
  "date_text d = dec_nat (nat (dt_year d)) @ CHR ''-'' # pad2 (dt_month d) @ CHR ''-'' # pad2 (dt_day d)"

definition time_text :: "datetime \<Rightarrow> string" where
  "time_text d = pad2 (dt_hour d) @ CHR '':'' # pad2 (dt_minute d) @ CHR '':'' # pad2 (dt_second d)"

lemma c_tm_printable:
  assumes "printable d"
  shows "c_tm d = Ret \<lparr>tm_year = dt_year d - 1900, tm_mon = dt_month d - 1, tm_mday = dt_day d, tm_hour = dt_hour d, tm_min = dt_minute d,
    tm_sec = dt_second d, tm_isdst = - 1\<rparr>"
  using assms by (simp add: c_tm_def int_sub_def printable_def)

lemma datetime_str_text:
  assumes "printable d"
  shows "datetime_str d = Ret (date_text d @ CHR '' '' # time_text d)"
  using assms unfolding datetime_str_def c_tm_printable [OF assms]
  by (simp add: printable_def ranged_def date_text_def time_text_def dec_int_def)

lemma length_dec_nat_le4: "n \<le> 9999 \<Longrightarrow> length (dec_nat n) \<le> 4"
  by (simp add: dec_nat.simps [of n] dec_nat.simps [of "n div 10"] dec_nat.simps [of "n div 10 div 10"] dec_nat.simps [of "n div 10 div 10 div 10"])

lemma not_digits [simp]: "\<not> c_isdigit (CHR ''-'')" "\<not> c_isdigit (CHR '' '')" "\<not> c_isdigit (CHR '':'')" "c_isspace (CHR '' '')"
  by (simp_all add: c_isdigit_def c_isspace_def)

lemma no_nul: "numeral_of ds n \<Longrightarrow> NUL \<notin> set ds"
  using digit_char_facts(6) unfolding numeral_of_def by metis

lemma pad2_nospace: "0 \<le> n \<Longrightarrow> n < 100 \<Longrightarrow> dropWhile c_isspace (pad2 n @ s) = pad2 n @ s"
  using digit_char_facts(3) [of "nat n div 10"] by (simp add: pad2_def nat_less_iff)

lemma scan_texts:
  assumes "printable d"
  shows "sscanf [Scan_d, Scan_char (CHR ''-''), Scan_d, Scan_char (CHR ''-''), Scan_d, Scan_space,
      Scan_d, Scan_char (CHR '':''), Scan_d, Scan_char (CHR '':''), Scan_d] (date_text d @ CHR '' '' # time_text d) =
    Ret [dt_year d, dt_month d, dt_day d, dt_hour d, dt_minute d, dt_second d]"
proof -
  have p: "scan_int (pad2 n @ s) = Ret (Some (n, s))" if "0 \<le> n" "n < 100" "s = [] \<or> \<not> c_isdigit (hd s)" for n s
    using scan_numeral [OF numeral_pad2 [OF that(1,2)], of s] that by simp
  have y: "scan_int (dec_nat (nat (dt_year d)) @ CHR ''-'' # s) = Ret (Some (dt_year d, CHR ''-'' # s))" for s
    using scan_numeral [OF numeral_dec_nat [of "nat (dt_year d)"], of "CHR ''-'' # s"] assms by (simp add: printable_def nat_le_iff)
  show ?thesis using assms y p p [of "dt_second d" "[]"] by (simp add: printable_def date_text_def time_text_def pad2_nospace)
qed

section \<open>Properties\<close>

text \<open>
  C40. A time that is printed and read again is the same time: \<^verbatim>\<open>str\<close> of a date and time of the
  calendar returns, and the constructor makes the same \<^verbatim>\<open>datetime\<close> out of the text, whatever its
  automatic variable held, when \<^verbatim>\<open>mktime\<close> knows that date and time.
\<close>
theorem datetime_roundtrip:
  assumes "printable d" "\<And>t. c_tm d = Ret t \<Longrightarrow> mktime_keeps mktime t"
  shows "xbind (datetime_str d) (datetime_of mktime held) = Ret d"
proof -
  let ?s = "date_text d @ CHR '' '' # time_text d"
  let ?t = "\<lparr>tm_year = dt_year d - 1900, tm_mon = dt_month d - 1, tm_mday = dt_day d, tm_hour = dt_hour d, tm_min = dt_minute d,
    tm_sec = dt_second d, tm_isdst = - 1\<rparr>"
  have b: "0 \<le> dt_year d" "dt_year d \<le> 9999" "1 \<le> dt_month d" "dt_month d \<le> 12" using assms(1) by (simp_all add: printable_def)
  have len: "length ?s \<le> 19" using length_dec_nat_le4 [of "nat (dt_year d)"] b by (simp add: date_text_def time_text_def pad2_def)
  have pd: "NUL \<notin> set (pad2 n)" if "0 \<le> n" "n < 100" for n by (rule no_nul [OF numeral_pad2 [OF that]])
  have "NUL \<notin> set ?s" using no_nul [OF numeral_dec_nat, of "nat (dt_year d)"] assms(1) by (simp add: pd date_text_def time_text_def printable_def)
  then have tw: "takeWhile (\<lambda>c. c \<noteq> NUL) ?s = ?s" by (simp only: takeWhile_eq_all_conv) metis
  have a: "assign held [dt_year d, dt_month d, dt_day d, dt_hour d, dt_minute d, dt_second d] =
      held\<lparr>tm_year := dt_year d, tm_mon := dt_month d, tm_mday := dt_day d, tm_hour := dt_hour d, tm_min := dt_minute d, tm_sec := dt_second d\<rparr>"
    by (simp add: assign_def)
  have j: "held\<lparr>tm_mday := e, tm_hour := h, tm_min := n, tm_sec := s, tm_year := y, tm_mon := m, tm_isdst := z\<rparr> =
      \<lparr>tm_year = y, tm_mon = m, tm_mday = e, tm_hour = h, tm_min = n, tm_sec = s, tm_isdst = z\<rparr>" for y m e h n s z by (cases held) simp
  obtain r u where u: "mktime ?t = (r, u)" by (cases "mktime ?t")
  have k: "r \<noteq> - 1" "tm_year u = dt_year d - 1900" "tm_mon u = dt_month d - 1" "tm_mday u = dt_day d" "tm_hour u = dt_hour d"
    "tm_min u = dt_minute d" "tm_sec u = dt_second d" using assms(2) [OF c_tm_printable [OF assms(1)]] u by (simp_all add: mktime_keeps_def Let_def)
  have "to_u32 (to_u32 (dt_year d - 1900) + 1900) = dt_year d" using b unfolding to_u32_def by (simp add: mod_add_left_eq)
  then have st: "set_time u = d" using k assms(1) by (simp add: set_time_def printable_def)
  have "datetime_of mktime held ?s = Ret d"
    using len tw scan_texts [OF assms(1)] u k(1) st b unfolding datetime_of_def tw by (simp add: a j int_sub_def Let_def del: sscanf.simps)
  then show ?thesis using datetime_str_text [OF assms(1)] by simp
qed

text \<open>A year with more digits than four is printed, but the text is refused.\<close>

theorem datetime_long_year_refused: "length s > 19 \<Longrightarrow> datetime_of mktime held s = Throw (RuntimeError ''datetime cast failed'')"
  by (simp add: datetime_of_def cast_failed_def)

text \<open>
  From a date alone only the date is assigned; the time of the result is whatever the automatic
  variable held.
\<close>
theorem datetime_date_only_junk:
  "datetime_of (\<lambda>t. (0, t)) \<lparr>tm_year = 0, tm_mon = 0, tm_mday = 0, tm_hour = h, tm_min = m, tm_sec = s, tm_isdst = 0\<rparr> ''2014-02-03'' =
     Ret \<lparr>dt_year = 2014, dt_month = 2, dt_day = 3, dt_hour = to_u32 h, dt_minute = to_u32 m, dt_second = to_u32 s\<rparr>"
  by (simp add: datetime_of_def scan_int_def c_isdigit_def c_isspace_def digit_of_def assign_def int_sub_def set_time_def)

theorem datetime_roundtrip_witness:
  "xbind (datetime_str \<lparr>dt_year = 2014, dt_month = 2, dt_day = 3, dt_hour = 4, dt_minute = 5, dt_second = 6\<rparr>)
     (datetime_of (\<lambda>t. (0, t)) \<lparr>tm_year = 7, tm_mon = 7, tm_mday = 7, tm_hour = 7, tm_min = 7, tm_sec = 7, tm_isdst = 7\<rparr>) =
   Ret \<lparr>dt_year = 2014, dt_month = 2, dt_day = 3, dt_hour = 4, dt_minute = 5, dt_second = 6\<rparr>"
  by (rule datetime_roundtrip) (simp_all add: printable_def mktime_keeps_def)

end
