(* ===== verification/Mysqlpp.thy ===== *)
theory Mysqlpp
  imports Cpp_Prelude "HOL-Library.Multiset"
begin

text \<open>
  The classes \<^verbatim>\<open>statement\<close>, \<^verbatim>\<open>result\<close> and \<^verbatim>\<open>connection\<close> of \<^verbatim>\<open>src/src/mysqlpp.hpp\<close> and its three source
  files. The MySQL client library is not part of the repository: it is a table of functions over
  a state of its own, and every definition takes the table as its argument. Null pointers are zero.
  The objects that a connection owns are kept with the pointers it has handed out, and the calls
  that acquire and release handles of the library are recorded in order. The position in the source
  that the exceptions of the wrapper carry is left out.
\<close>

section \<open>Calls with a state\<close>

type_synonym ('s, 'a) act = "'s \<Rightarrow> ((cpp_exn + 'a) \<times> 's) cres"

definition give :: "'a \<Rightarrow> ('s, 'a) act" where
  "give x = (\<lambda>s. Ok (Inr x, s))"

definition throw :: "cpp_exn \<Rightarrow> ('s, 'a) act" where
  "throw e = (\<lambda>s. Ok (Inl e, s))"

definition fault :: "fault \<Rightarrow> ('s, 'a) act" where
  "fault f = (\<lambda>s. Fault f)"

definition andthen :: "('s, 'a) act \<Rightarrow> ('a \<Rightarrow> ('s, 'b) act) \<Rightarrow> ('s, 'b) act" where
  "andthen m f = (\<lambda>s. cbind (m s) (\<lambda>(x, s). case x of Inl e \<Rightarrow> Ok (Inl e, s) | Inr y \<Rightarrow> f y s))"

text \<open>\<^verbatim>\<open>catch (...) { f; throw; }\<close>\<close>

definition on_throw :: "('s, 'a) act \<Rightarrow> ('s \<Rightarrow> 's) \<Rightarrow> ('s, 'a) act" where
  "on_throw m f = (\<lambda>s. cbind (m s) (\<lambda>(x, s). case x of Inl e \<Rightarrow> Ok (Inl e, f s) | Inr y \<Rightarrow> Ok (Inr y, s)))"

section \<open>Data\<close>

text \<open>The enumerators that the wrapper names; \<open>MYSQL_TYPE_other 0\<close> is the one with the value zero.\<close>

datatype enum_field_types = MYSQL_TYPE_TINY | MYSQL_TYPE_SHORT | MYSQL_TYPE_LONG | MYSQL_TYPE_LONGLONG | MYSQL_TYPE_FLOAT | MYSQL_TYPE_DOUBLE |
  MYSQL_TYPE_STRING | MYSQL_TYPE_BLOB | MYSQL_TYPE_NULL | MYSQL_TYPE_DATETIME | MYSQL_TYPE_other nat

text \<open>
  Pointers that are stored for the library: to a variable of the caller, to a variable of a function
  that has returned, to an element of the lengths of the statement, to a member of a column of the
  result.
\<close>

datatype ptr = Null_ptr | Caller nat | Dead | Length_at nat | Column_buffer nat | Column_length nat | Column_null nat | Column_error nat

record st_mysql_bind =
  bd_type :: enum_field_types
  bd_buffer :: ptr
  bd_buffer_length :: nat
  bd_length :: ptr
  bd_is_null :: ptr
  bd_error :: ptr
  bd_is_unsigned :: bool

definition new_bind :: st_mysql_bind where
  "new_bind = \<lparr>bd_type = MYSQL_TYPE_other 0, bd_buffer = Null_ptr, bd_buffer_length = 0, bd_length = Null_ptr, bd_is_null = Null_ptr,
     bd_error = Null_ptr, bd_is_unsigned = False\<rparr>"

record field =
  fd_name :: string
  fd_type :: enum_field_types
  fd_length :: nat

text \<open>The name of a column points into the metadata it was taken from.\<close>

record st_mysql_column =
  col_type :: enum_field_types
  col_name :: "nat \<times> string"
  col_buffer :: mem
  col_length :: nat
  col_is_unsigned :: bool
  col_is_null :: int
  col_error :: int

record statement =
  st_stmt :: nat
  st_param_count :: int
  st_bind_index :: int
  st_binds :: "st_mysql_bind list"
  st_lengths :: "nat list"

record result_obj =
  rs_stmt :: nat
  rs_metadata :: nat
  rs_field_count :: nat
  rs_binds :: "st_mysql_bind list"
  rs_columns :: "st_mysql_column list"

datatype handle = Mysql nat | Stmt nat | Metadata nat

datatype call = Acquire handle | Release handle

text \<open>
  A connection with the state of the library; \<open>cn_bound\<close> says into which result the library stores
  the rows of a statement.
\<close>

record ('l, 'tm) dbconn =
  cn_lib :: 'l
  cn_calls :: "call list"
  cn_bound :: "nat \<rightharpoonup> nat"
  cn_next :: nat
  cn_mysql :: nat
  cn_released :: 'tm
  cn_pooled :: bool
  cn_statements :: "(nat \<times> statement) list"
  cn_results :: "(nat \<times> result_obj) list"

datatype fetch_code = Code int | MYSQL_NO_DATA

text \<open>What a fetch stores in a column: bytes, length, and the two flags.\<close>

record stored =
  so_bytes :: mem
  so_length :: nat
  so_null :: int
  so_error :: int

record 'l mysql_api =
  api_init :: "'l \<Rightarrow> nat \<times> 'l"
  api_real_connect :: "nat \<Rightarrow> string \<Rightarrow> string \<Rightarrow> string \<Rightarrow> string \<Rightarrow> nat \<Rightarrow> 'l \<Rightarrow> bool \<times> 'l"
  api_set_character_set :: "nat \<Rightarrow> string \<Rightarrow> 'l \<Rightarrow> int \<times> 'l"
  api_error :: "nat \<Rightarrow> 'l \<Rightarrow> string"
  api_close :: "nat \<Rightarrow> 'l \<Rightarrow> 'l"
  api_ping :: "nat \<Rightarrow> 'l \<Rightarrow> int \<times> 'l"
  api_real_escape_string :: "nat \<Rightarrow> string \<Rightarrow> 'l \<Rightarrow> string \<times> 'l"
  api_stmt_init :: "nat \<Rightarrow> 'l \<Rightarrow> nat \<times> 'l"
  api_stmt_prepare :: "nat \<Rightarrow> string \<Rightarrow> 'l \<Rightarrow> int \<times> 'l"
  api_stmt_error :: "nat \<Rightarrow> 'l \<Rightarrow> string"
  api_stmt_param_count :: "nat \<Rightarrow> 'l \<Rightarrow> nat"
  api_stmt_close :: "nat \<Rightarrow> 'l \<Rightarrow> 'l"
  api_stmt_bind_param :: "nat \<Rightarrow> st_mysql_bind list \<Rightarrow> nat list \<Rightarrow> 'l \<Rightarrow> int \<times> 'l"
  api_stmt_execute :: "nat \<Rightarrow> 'l \<Rightarrow> int \<times> 'l"
  api_stmt_affected_rows :: "nat \<Rightarrow> 'l \<Rightarrow> nat"
  api_stmt_result_metadata :: "nat \<Rightarrow> 'l \<Rightarrow> nat \<times> 'l"
  api_free_result :: "nat \<Rightarrow> 'l \<Rightarrow> 'l"
  api_stmt_field_count :: "nat \<Rightarrow> 'l \<Rightarrow> nat"
  api_fetch_fields :: "nat \<Rightarrow> 'l \<Rightarrow> field list"
  api_stmt_bind_result :: "nat \<Rightarrow> st_mysql_bind list \<Rightarrow> 'l \<Rightarrow> int \<times> 'l"
  api_stmt_store_result :: "nat \<Rightarrow> 'l \<Rightarrow> int \<times> 'l"
  api_stmt_num_rows :: "nat \<Rightarrow> 'l \<Rightarrow> nat"
  api_stmt_fetch :: "nat \<Rightarrow> 'l \<Rightarrow> (fetch_code \<times> stored list) \<times> 'l"
  api_stmt_next_result :: "nat \<Rightarrow> 'l \<Rightarrow> int \<times> 'l"

text \<open>A change to the object at the address \<open>p\<close>.\<close>

definition write_back :: "nat \<Rightarrow> 'a \<Rightarrow> (nat \<times> 'a) list \<Rightarrow> (nat \<times> 'a) list" where
  "write_back p y l = map (\<lambda>(q, x). (q, if q = p then y else x)) l"

section \<open>Calls of the library\<close>

definition lib_do :: "('l \<Rightarrow> 'a \<times> 'l) \<Rightarrow> (('l, 'tm) dbconn, 'a) act" where
  "lib_do f = (\<lambda>s. case f (cn_lib s) of (x, l) \<Rightarrow> Ok (Inr x, s\<lparr>cn_lib := l\<rparr>))"

definition lib_ask :: "('l \<Rightarrow> 'a) \<Rightarrow> (('l, 'tm) dbconn, 'a) act" where
  "lib_ask f = (\<lambda>s. Ok (Inr (f (cn_lib s)), s))"

definition acquire :: "(nat \<Rightarrow> handle) \<Rightarrow> ('l \<Rightarrow> nat \<times> 'l) \<Rightarrow> (('l, 'tm) dbconn, nat) act" where
  "acquire k f = (\<lambda>s. case f (cn_lib s) of (h, l) \<Rightarrow>
     Ok (Inr h, s\<lparr>cn_lib := l, cn_calls := cn_calls s @ (if h = 0 then [] else [Acquire (k h)])\<rparr>))"

text \<open>Freeing a result or closing a connection that is a null pointer does nothing.\<close>

definition release :: "(nat \<Rightarrow> handle) \<Rightarrow> (nat \<Rightarrow> 'l \<Rightarrow> 'l) \<Rightarrow> nat \<Rightarrow> ('l, 'tm) dbconn \<Rightarrow> ('l, 'tm) dbconn" where
  "release k f h s = (if h = 0 then s else s\<lparr>cn_lib := f h (cn_lib s), cn_calls := cn_calls s @ [Release (k h)]\<rparr>)"

text \<open>An exception with the message of the library.\<close>

definition throw_stmt_error :: "'l mysql_api \<Rightarrow> nat \<Rightarrow> (('l, 'tm) dbconn, 'a) act" where
  "throw_stmt_error api stmt = andthen (lib_ask (api_stmt_error api stmt)) (\<lambda>m. throw (RuntimeError m))"


section \<open>Parameters of a statement\<close>

text \<open>\<^verbatim>\<open>get_bind\<close> gives the place of the next parameter.\<close>

definition get_bind :: "statement \<Rightarrow> (nat \<times> statement) cpp" where
  "get_bind st =
     (if st_bind_index st < 0 \<or> st_bind_index st \<ge> st_param_count st then Throw (RuntimeError ''invalid bind_index'')
      else if length (st_binds st) \<le> nat (st_bind_index st) then Undefined
      else Ret (nat (st_bind_index st), st\<lparr>st_bind_index := st_bind_index st + 1\<rparr>))"

definition set_bind :: "nat \<Rightarrow> (st_mysql_bind \<Rightarrow> st_mysql_bind) \<Rightarrow> statement \<Rightarrow> statement" where
  "set_bind i f st = st\<lparr>st_binds := (st_binds st)[i := f (st_binds st ! i)]\<rparr>"

text \<open>An integer parameter, at the address \<open>p\<close>.\<close>

definition param_integer :: "enum_field_types \<Rightarrow> bool \<Rightarrow> nat \<Rightarrow> statement \<Rightarrow> statement cpp" where
  "param_integer ty uns p st =
     xbind (get_bind st) (\<lambda>(i, st). Ret (set_bind i (\<lambda>b. b\<lparr>bd_type := ty, bd_buffer := Caller p, bd_is_unsigned := uns,
       bd_is_null := Null_ptr, bd_length := Null_ptr\<rparr>) st))"

definition param_uint8 :: "nat \<Rightarrow> statement \<Rightarrow> statement cpp" where "param_uint8 = param_integer MYSQL_TYPE_TINY True"
definition param_int16 :: "nat \<Rightarrow> statement \<Rightarrow> statement cpp" where "param_int16 = param_integer MYSQL_TYPE_SHORT False"
definition param_uint16 :: "nat \<Rightarrow> statement \<Rightarrow> statement cpp" where "param_uint16 = param_integer MYSQL_TYPE_SHORT True"
definition param_int32 :: "nat \<Rightarrow> statement \<Rightarrow> statement cpp" where "param_int32 = param_integer MYSQL_TYPE_LONG False"
definition param_uint32 :: "nat \<Rightarrow> statement \<Rightarrow> statement cpp" where "param_uint32 = param_integer MYSQL_TYPE_LONG True"
definition param_int64 :: "nat \<Rightarrow> statement \<Rightarrow> statement cpp" where "param_int64 = param_integer MYSQL_TYPE_LONGLONG False"
definition param_uint64 :: "nat \<Rightarrow> statement \<Rightarrow> statement cpp" where "param_uint64 = param_integer MYSQL_TYPE_LONGLONG True"

text \<open>The element \<^verbatim>\<open>lengths[bind_index - 1]\<close> is set and pointed to; \<^verbatim>\<open>unsigned long\<close> has 32 bits.\<close>

definition set_length :: "nat \<Rightarrow> nat \<Rightarrow> statement \<Rightarrow> statement cpp" where
  "set_length i n st = (if i < length (st_lengths st) then Ret (st\<lparr>st_lengths := (st_lengths st)[i := n mod 4294967296]\<rparr>) else Undefined)"

definition param_floating :: "enum_field_types \<Rightarrow> nat \<Rightarrow> nat \<Rightarrow> statement \<Rightarrow> statement cpp" where
  "param_floating ty sz p st =
     xbind (get_bind st) (\<lambda>(i, st).
     xbind (set_length i sz (set_bind i (\<lambda>b. b\<lparr>bd_type := ty, bd_buffer := Caller p, bd_is_null := Null_ptr\<rparr>) st)) (\<lambda>st.
     Ret (set_bind i (\<lambda>b. b\<lparr>bd_length := Length_at i\<rparr>) st)))"

definition param_float :: "nat \<Rightarrow> statement \<Rightarrow> statement cpp" where "param_float = param_floating MYSQL_TYPE_FLOAT 4"
definition param_double :: "nat \<Rightarrow> statement \<Rightarrow> statement cpp" where "param_double = param_floating MYSQL_TYPE_DOUBLE 8"

text \<open>A string parameter: the address of its characters and its size.\<close>

definition param_text :: "enum_field_types \<Rightarrow> nat \<Rightarrow> nat \<Rightarrow> statement \<Rightarrow> statement cpp" where
  "param_text ty p sz st =
     xbind (get_bind st) (\<lambda>(i, st).
     xbind (set_length i sz (set_bind i (\<lambda>b. b\<lparr>bd_type := ty, bd_buffer := Caller p, bd_is_null := Null_ptr\<rparr>) st)) (\<lambda>st.
     Ret (set_bind i (\<lambda>b. b\<lparr>bd_buffer_length := st_lengths st ! i, bd_length := Length_at i\<rparr>) st)))"

definition param_string :: "nat \<Rightarrow> nat \<Rightarrow> statement \<Rightarrow> statement cpp" where "param_string = param_text MYSQL_TYPE_STRING"
definition param_blob :: "nat \<Rightarrow> nat \<Rightarrow> statement \<Rightarrow> statement cpp" where "param_blob = param_text MYSQL_TYPE_BLOB"

text \<open>The flag is a parameter of the function itself, which has returned when the library reads it.\<close>

definition param_null :: "statement \<Rightarrow> statement cpp" where
  "param_null st = xbind (get_bind st) (\<lambda>(i, st). Ret (set_bind i (\<lambda>b. b\<lparr>bd_type := MYSQL_TYPE_NULL, bd_is_null := Dead\<rparr>) st))"

text \<open>The overloads, by the type of their argument.\<close>

datatype arg = Uint8 nat | Int16 nat | Uint16 nat | Int32 nat | Uint32 nat | Int64 nat | Uint64 nat | Float nat | Double nat |
  String nat nat | Blob nat nat | Null_value

fun param :: "arg \<Rightarrow> statement \<Rightarrow> statement cpp" where
  "param (Uint8 p) = param_uint8 p"
| "param (Int16 p) = param_int16 p"
| "param (Uint16 p) = param_uint16 p"
| "param (Int32 p) = param_int32 p"
| "param (Uint32 p) = param_uint32 p"
| "param (Int64 p) = param_int64 p"
| "param (Uint64 p) = param_uint64 p"
| "param (Float p) = param_float p"
| "param (Double p) = param_double p"
| "param (String p n) = param_string p n"
| "param (Blob p n) = param_blob p n"
| "param Null_value = param_null"

section \<open>Statements\<close>

definition new_statement :: "'l mysql_api \<Rightarrow> nat \<Rightarrow> string \<Rightarrow> (('l, 'tm) dbconn, statement) act" where
  "new_statement api mysql query =
     andthen (acquire Stmt (api_stmt_init api mysql)) (\<lambda>stmt.
       on_throw
         (if stmt = 0 then throw (RuntimeError ''stmt_init failed'')
          else
            andthen (lib_do (api_stmt_prepare api stmt query)) (\<lambda>r.
            if r \<noteq> 0 then throw_stmt_error api stmt
            else
              andthen (lib_ask (api_stmt_param_count api stmt)) (\<lambda>n.
              let param_count = to_i32 (int n) in
              if param_count < 0 then throw LengthError
              else give \<lparr>st_stmt = stmt, st_param_count = param_count, st_bind_index = 0,
                st_binds = replicate (nat param_count) new_bind, st_lengths = replicate (nat param_count) 0\<rparr>)))
         (\<lambda>s. if stmt \<noteq> 0 then release Stmt (api_stmt_close api) stmt s else s))"

definition delete_statement :: "'l mysql_api \<Rightarrow> statement \<Rightarrow> ('l, 'tm) dbconn \<Rightarrow> ('l, 'tm) dbconn" where
  "delete_statement api st s = release Stmt (api_stmt_close api) (st_stmt st) s"

definition the_statement :: "nat \<Rightarrow> (('l, 'tm) dbconn, statement) act" where
  "the_statement p = (\<lambda>s. case map_of (cn_statements s) p of None \<Rightarrow> Fault UseAfterFree | Some st \<Rightarrow> Ok (Inr st, s))"

text \<open>The common part of \<^verbatim>\<open>execute\<close> and \<^verbatim>\<open>query\<close>.\<close>

definition bind_and_execute :: "'l mysql_api \<Rightarrow> statement \<Rightarrow> (('l, 'tm) dbconn, unit) act" where
  "bind_and_execute api st =
     andthen (if st_param_count st > 0 \<and> st_binds st \<noteq> []
              then andthen (lib_do (api_stmt_bind_param api (st_stmt st) (st_binds st) (st_lengths st))) (\<lambda>r.
                if r \<noteq> 0 then throw_stmt_error api (st_stmt st) else give ())
              else give ()) (\<lambda>_.
     andthen (lib_do (api_stmt_execute api (st_stmt st))) (\<lambda>r.
       if r \<noteq> 0 then throw_stmt_error api (st_stmt st) else give ()))"

definition execute :: "'l mysql_api \<Rightarrow> nat \<Rightarrow> (('l, 'tm) dbconn, nat) act" where
  "execute api p =
     andthen (the_statement p) (\<lambda>st.
     andthen (bind_and_execute api st) (\<lambda>_. lib_ask (api_stmt_affected_rows api (st_stmt st))))"

definition set_param :: "nat \<Rightarrow> arg \<Rightarrow> (('l, 'tm) dbconn, unit) act" where
  "set_param p a =
     andthen (the_statement p) (\<lambda>st s.
       case param a st of
         Ret st' \<Rightarrow> Ok (Inr (), s\<lparr>cn_statements := write_back p st' (cn_statements s)\<rparr>)
       | Throw e \<Rightarrow> Ok (Inl e, s)
       | Undefined \<Rightarrow> Fault OutOfBounds)"


section \<open>Results\<close>

text \<open>A column for a field, and its bind. The first byte of an empty buffer has no address.\<close>

definition new_column :: "nat \<Rightarrow> field \<Rightarrow> st_mysql_column" where
  "new_column md f = \<lparr>col_type = (if fd_type f = MYSQL_TYPE_DATETIME then MYSQL_TYPE_STRING else fd_type f), col_name = (md, fd_name f),
     col_buffer = replicate (fd_length f) NUL, col_length = fd_length f, col_is_unsigned = False, col_is_null = 0, col_error = 0\<rparr>"

definition column_bind :: "nat \<Rightarrow> st_mysql_column \<Rightarrow> st_mysql_bind cpp" where
  "column_bind i c =
     (if col_buffer c = [] then Undefined
      else Ret \<lparr>bd_type = col_type c, bd_buffer = Column_buffer i, bd_buffer_length = col_length c, bd_length = Column_length i,
        bd_is_null = Column_null i, bd_error = Column_error i, bd_is_unsigned = col_is_unsigned c\<rparr>)"

fun column_binds :: "nat \<Rightarrow> st_mysql_column list \<Rightarrow> st_mysql_bind list cpp" where
  "column_binds i [] = Ret []"
| "column_binds i (c # cs) = xbind (column_bind i c) (\<lambda>b. xbind (column_binds (Suc i) cs) (\<lambda>bs. Ret (b # bs)))"

text \<open>
  \<^verbatim>\<open>bind\<close> of the result \<open>rs\<close> at the address \<open>self\<close>. Its exception is given as a value, together with
  the members it leaves.
\<close>

definition bind_result :: "'l mysql_api \<Rightarrow> nat \<Rightarrow> result_obj \<Rightarrow> (('l, 'tm) dbconn, (cpp_exn + bool) \<times> result_obj) act" where
  "bind_result api self rs =
     andthen (lib_ask (api_stmt_field_count api (rs_stmt rs))) (\<lambda>n.
     let rs = rs\<lparr>rs_field_count := n\<rparr> in
     if n = 0 then give (Inr False, rs)
     else
       andthen (lib_ask (api_fetch_fields api (rs_metadata rs))) (\<lambda>fields.
       if length fields < n then fault OutOfBounds
       else
         let columns = map (new_column (rs_metadata rs)) (take n fields) in
         case column_binds 0 columns of
           Ret binds \<Rightarrow>
             let rs = rs\<lparr>rs_columns := columns, rs_binds := binds\<rparr> in
             andthen (lib_do (api_stmt_bind_result api (rs_stmt rs) binds)) (\<lambda>r.
             if r \<noteq> 0 then andthen (lib_ask (api_stmt_error api (rs_stmt rs))) (\<lambda>m. give (Inl (RuntimeError m), rs))
             else (\<lambda>s. Ok (Inr (Inr True, rs), s\<lparr>cn_bound := (cn_bound s)(rs_stmt rs \<mapsto> self)\<rparr>)))
         | _ \<Rightarrow> fault OutOfBounds))"

definition new_result :: "'l mysql_api \<Rightarrow> nat \<Rightarrow> nat \<Rightarrow> (('l, 'tm) dbconn, result_obj) act" where
  "new_result api self stmt =
     andthen (acquire Metadata (api_stmt_result_metadata api stmt)) (\<lambda>md.
       on_throw
         (if md = 0 then throw_stmt_error api stmt
          else
            andthen (bind_result api self \<lparr>rs_stmt = stmt, rs_metadata = md, rs_field_count = 0, rs_binds = [], rs_columns = []\<rparr>) (\<lambda>(b, rs).
            case b of
              Inl e \<Rightarrow> throw e
            | Inr _ \<Rightarrow>
                andthen (lib_do (api_stmt_store_result api stmt)) (\<lambda>r. if r \<noteq> 0 then throw_stmt_error api stmt else give rs)))
         (\<lambda>s. if md \<noteq> 0 then release Metadata (api_free_result api) md s else s))"

definition delete_result :: "'l mysql_api \<Rightarrow> result_obj \<Rightarrow> ('l, 'tm) dbconn \<Rightarrow> ('l, 'tm) dbconn" where
  "delete_result api rs s = release Metadata (api_free_result api) (rs_metadata rs) s"

definition the_result :: "nat \<Rightarrow> (('l, 'tm) dbconn, result_obj) act" where
  "the_result p = (\<lambda>s. case map_of (cn_results s) p of None \<Rightarrow> Fault UseAfterFree | Some rs \<Rightarrow> Ok (Inr rs, s))"

definition put_result :: "nat \<Rightarrow> result_obj \<Rightarrow> ('l, 'tm) dbconn \<Rightarrow> ('l, 'tm) dbconn" where
  "put_result p rs s = s\<lparr>cn_results := write_back p rs (cn_results s)\<rparr>"

definition num_rows :: "'l mysql_api \<Rightarrow> nat \<Rightarrow> (('l, 'tm) dbconn, nat) act" where
  "num_rows api p = andthen (the_result p) (\<lambda>rs. lib_ask (api_stmt_num_rows api (rs_stmt rs)))"

text \<open>The library stores a row through the pointers it was given; bytes beyond the buffer are written past its end.\<close>

definition store_column :: "stored \<Rightarrow> st_mysql_column \<Rightarrow> st_mysql_column cres" where
  "store_column v c =
     (if length (col_buffer c) < length (so_bytes v) then Fault OutOfBounds
      else Ok (c\<lparr>col_buffer := so_bytes v @ drop (length (so_bytes v)) (col_buffer c), col_length := so_length v,
        col_is_null := so_null v, col_error := so_error v\<rparr>))"

fun store_row :: "stored list \<Rightarrow> st_mysql_column list \<Rightarrow> st_mysql_column list cres" where
  "store_row [] cs = Ok cs"
| "store_row (v # vs) [] = Fault OutOfBounds"
| "store_row (v # vs) (c # cs) = cbind (store_column v c) (\<lambda>c. cbind (store_row vs cs) (\<lambda>cs. Ok (c # cs)))"

definition stmt_fetch :: "'l mysql_api \<Rightarrow> nat \<Rightarrow> (('l, 'tm) dbconn, fetch_code) act" where
  "stmt_fetch api stmt =
     andthen (lib_do (api_stmt_fetch api stmt)) (\<lambda>(code, row) s.
       if row = [] then Ok (Inr code, s)
       else case cn_bound s stmt of
         None \<Rightarrow> Fault NullDeref
       | Some p \<Rightarrow>
           cbind (the_result p s) (\<lambda>(x, _).
             case x of
               Inl e \<Rightarrow> Ok (Inl e, s)
             | Inr rs \<Rightarrow> cbind (store_row row (rs_columns rs)) (\<lambda>cs. Ok (Inr code, put_result p (rs\<lparr>rs_columns := cs\<rparr>) s))))"

definition fetch_stmt_result :: "'l mysql_api \<Rightarrow> nat \<Rightarrow> (('l, 'tm) dbconn, bool) act" where
  "fetch_stmt_result api p =
     andthen (the_result p) (\<lambda>rs. andthen (stmt_fetch api (rs_stmt rs)) (\<lambda>code. give (code \<noteq> MYSQL_NO_DATA)))"

text \<open>The loop of \<^verbatim>\<open>fetch_proc_result\<close>; the library may go on for ever, so it has fuel.\<close>

fun drain :: "nat \<Rightarrow> 'l mysql_api \<Rightarrow> nat \<Rightarrow> (('l, 'tm) dbconn, unit) act" where
  "drain 0 api stmt = fault OutOfFuel"
| "drain (Suc n) api stmt = andthen (stmt_fetch api stmt) (\<lambda>code. if code = Code 1 \<or> code = MYSQL_NO_DATA then give () else drain n api stmt)"

definition fetch_proc_result :: "nat \<Rightarrow> 'l mysql_api \<Rightarrow> nat \<Rightarrow> (('l, 'tm) dbconn, bool) act" where
  "fetch_proc_result n api p =
     andthen (the_result p) (\<lambda>rs s.
       andthen (acquire Metadata (api_stmt_result_metadata api (rs_stmt rs))) (\<lambda>md s.
         let rs = rs\<lparr>rs_metadata := md\<rparr> in
         if md = 0 then throw_stmt_error api (rs_stmt rs) (put_result p rs s)
         else
           andthen (bind_result api p rs) (\<lambda>(b, rs) s.
             let s = put_result p rs s in
             case b of
               Inl e \<Rightarrow> Ok (Inl e, s)
             | Inr False \<Rightarrow> Ok (Inr False, s)
             | Inr True \<Rightarrow>
                 andthen (drain n api (rs_stmt rs)) (\<lambda>_.
                 andthen (lib_do (api_stmt_next_result api (rs_stmt rs))) (\<lambda>r.
                   if r > 0 then throw_stmt_error api (rs_stmt rs) else give True)) s) s)
         (release Metadata (api_free_result api) (rs_metadata rs) s))"

definition fetch_result :: "nat \<Rightarrow> 'l mysql_api \<Rightarrow> nat \<Rightarrow> bool \<Rightarrow> (('l, 'tm) dbconn, bool) act" where
  "fetch_result n api p is_proc = (if is_proc then fetch_proc_result n api p else fetch_stmt_result api p)"


section \<open>Values of a row\<close>

definition get_column_at :: "nat \<Rightarrow> result_obj \<Rightarrow> st_mysql_column cpp" where
  "get_column_at i rs =
     (if i \<ge> rs_field_count rs then Throw (RuntimeError ''invalid column_index'')
      else if length (rs_columns rs) \<le> i then Undefined else Ret (rs_columns rs ! i))"

text \<open>The search by name: the names must still be those of the metadata that the result holds.\<close>

fun find_column :: "string \<Rightarrow> nat \<Rightarrow> nat \<Rightarrow> st_mysql_column list \<Rightarrow> st_mysql_column cpp" where
  "find_column name md 0 cs = Throw (RuntimeError ''invalid column_name'')"
| "find_column name md (Suc n) [] = Undefined"
| "find_column name md (Suc n) (c # cs) =
     (if fst (col_name c) \<noteq> md then Undefined
      else if name = takeWhile (\<lambda>x. x \<noteq> NUL) (snd (col_name c)) then Ret c else find_column name md n cs)"

definition get_column_named :: "string \<Rightarrow> result_obj \<Rightarrow> st_mysql_column cpp" where
  "get_column_named name rs = find_column name (rs_metadata rs) (rs_field_count rs) (rs_columns rs)"

definition is_null_at :: "nat \<Rightarrow> result_obj \<Rightarrow> bool cpp" where
  "is_null_at i rs = xbind (get_column_at i rs) (\<lambda>c. Ret (col_is_null c = 1))"

definition is_null_named :: "string \<Rightarrow> result_obj \<Rightarrow> bool cpp" where
  "is_null_named name rs = xbind (get_column_named name rs) (\<lambda>c. Ret (col_is_null c = 1))"

text \<open>\<^verbatim>\<open>set_value\<close>, by the type of the value. \<^verbatim>\<open>char\<close> is signed, and integers are stored with their lowest byte first.\<close>

definition front :: "mem \<Rightarrow> int cpp" where
  "front m = (if m = [] then Undefined else Ret (schar (hd m)))"

fun le_value :: "mem \<Rightarrow> int" where
  "le_value [] = 0"
| "le_value (c # m) = of_char c + 256 * le_value m"

definition bytes_at_front :: "nat \<Rightarrow> mem \<Rightarrow> mem cpp" where
  "bytes_at_front n m = (if length m < n then Undefined else Ret (take n m))"

definition value_int8 :: "st_mysql_column \<Rightarrow> int cpp" where "value_int8 c = front (col_buffer c)"
definition value_uint8 :: "st_mysql_column \<Rightarrow> int cpp" where "value_uint8 c = xbind (front (col_buffer c)) (\<lambda>x. Ret (x mod 256))"
definition value_int16 :: "st_mysql_column \<Rightarrow> int cpp" where "value_int16 c = front (col_buffer c)"
definition value_uint16 :: "st_mysql_column \<Rightarrow> int cpp" where "value_uint16 c = xbind (front (col_buffer c)) (\<lambda>x. Ret (x mod 65536))"
definition value_int32 :: "st_mysql_column \<Rightarrow> int cpp" where "value_int32 c = front (col_buffer c)"
definition value_uint32 :: "st_mysql_column \<Rightarrow> int cpp" where "value_uint32 c = xbind (front (col_buffer c)) (\<lambda>x. Ret (x mod 4294967296))"

definition value_int64 :: "st_mysql_column \<Rightarrow> int cpp" where
  "value_int64 c = xbind (bytes_at_front 8 (col_buffer c)) (\<lambda>m. Ret (to_i64 (le_value m)))"

definition value_uint64 :: "st_mysql_column \<Rightarrow> int cpp" where
  "value_uint64 c = xbind (bytes_at_front 8 (col_buffer c)) (\<lambda>m. Ret (le_value m))"

text \<open>Floating-point values as their bytes.\<close>

definition value_float :: "st_mysql_column \<Rightarrow> mem cpp" where "value_float c = bytes_at_front 4 (col_buffer c)"
definition value_double :: "st_mysql_column \<Rightarrow> mem cpp" where "value_double c = bytes_at_front 8 (col_buffer c)"

definition value_string :: "st_mysql_column \<Rightarrow> string cpp" where
  "value_string c = (if col_buffer c = [] then Undefined else bytes_at_front (col_length c) (col_buffer c))"

text \<open>The template \<^verbatim>\<open>get\<close>, for the type that \<open>val\<close> reads.\<close>

definition get_at :: "(st_mysql_column \<Rightarrow> 'a cpp) \<Rightarrow> nat \<Rightarrow> result_obj \<Rightarrow> 'a cpp" where
  "get_at val i rs = xbind (get_column_at i rs) (\<lambda>c. if col_is_null c \<noteq> 0 then Throw (RuntimeError ''null value field'') else val c)"

definition get_named :: "(st_mysql_column \<Rightarrow> 'a cpp) \<Rightarrow> string \<Rightarrow> result_obj \<Rightarrow> 'a cpp" where
  "get_named val name rs = xbind (get_column_named name rs) (\<lambda>c. if col_is_null c \<noteq> 0 then Throw (RuntimeError ''null value field'') else val c)"

section \<open>Connections\<close>

definition c_text :: "string \<Rightarrow> string" where
  "c_text s = takeWhile (\<lambda>c. c \<noteq> NUL) s"

definition new_connection :: "'l mysql_api \<Rightarrow> 'tm \<Rightarrow> string \<Rightarrow> string \<Rightarrow> string \<Rightarrow> string \<Rightarrow> nat \<Rightarrow> string \<Rightarrow> bool \<Rightarrow> 'l \<Rightarrow>
    ((cpp_exn + unit) \<times> ('l, 'tm) dbconn) cres" where
  "new_connection api now host userid passwd database port charset pooled l =
     andthen (acquire Mysql (api_init api)) (\<lambda>h.
       andthen
         (on_throw
           (andthen (lib_do (api_real_connect api h (c_text host) (c_text userid) (c_text passwd) (c_text database) port)) (\<lambda>ok.
            if \<not> ok then andthen (lib_ask (api_error api h)) (\<lambda>m. throw (RuntimeError m))
            else
              andthen (lib_do (api_set_character_set api h (c_text charset))) (\<lambda>r.
              if r \<noteq> 0 then andthen (lib_ask (api_error api h)) (\<lambda>m. throw (RuntimeError m)) else give ())))
           (release Mysql (api_close api) h))
         (\<lambda>_ s. Ok (Inr (), s\<lparr>cn_mysql := h, cn_released := now, cn_pooled := pooled\<rparr>)))
       \<lparr>cn_lib = l, cn_calls = [], cn_bound = Map.empty, cn_next = 1, cn_mysql = 0, cn_released = now, cn_pooled = False,
         cn_statements = [], cn_results = []\<rparr>"

definition ping :: "'l mysql_api \<Rightarrow> (('l, 'tm) dbconn, bool) act" where
  "ping api = (\<lambda>s. andthen (lib_do (api_ping api (cn_mysql s))) (\<lambda>r. give (r = 0)) s)"

text \<open>A new statement is at a new address.\<close>

definition prepare :: "'l mysql_api \<Rightarrow> string \<Rightarrow> (('l, 'tm) dbconn, nat) act" where
  "prepare api query =
     (\<lambda>s. andthen (new_statement api (cn_mysql s) query) (\<lambda>st s.
        Ok (Inr (cn_next s), s\<lparr>cn_next := Suc (cn_next s), cn_statements := cn_statements s @ [(cn_next s, st)]\<rparr>)) s)"

text \<open>The escaped keyword is copied into the query up to its terminator.\<close>

definition like_query :: "string \<Rightarrow> bool \<Rightarrow> string \<Rightarrow> bool \<Rightarrow> string" where
  "like_query query left_percent escaped right_percent =
     query @ '' '' @ [CHR 0x27] @ (if left_percent then ''%'' else []) @ c_text escaped @ (if right_percent then ''%'' else []) @ [CHR 0x27]"

definition prepare_like :: "'l mysql_api \<Rightarrow> string \<Rightarrow> bool \<Rightarrow> string \<Rightarrow> bool \<Rightarrow> (('l, 'tm) dbconn, nat) act" where
  "prepare_like api query left_percent keyword right_percent =
     (\<lambda>s. andthen (lib_do (api_real_escape_string api (cn_mysql s) keyword)) (\<lambda>escaped.
        if 2 * length keyword < length escaped then fault OutOfBounds
        else prepare api (like_query query left_percent escaped right_percent)) s)"

text \<open>\<^verbatim>\<open>__query\<close> and \<^verbatim>\<open>statement::query\<close>.\<close>

definition conn_query :: "'l mysql_api \<Rightarrow> nat \<Rightarrow> (('l, 'tm) dbconn, nat) act" where
  "conn_query api stmt =
     (\<lambda>s. let p = cn_next s in
        andthen (new_result api p stmt) (\<lambda>rs s. Ok (Inr p, s\<lparr>cn_results := cn_results s @ [(p, rs)]\<rparr>)) (s\<lparr>cn_next := Suc p\<rparr>))"

definition statement_query :: "'l mysql_api \<Rightarrow> nat \<Rightarrow> (('l, 'tm) dbconn, nat) act" where
  "statement_query api p =
     andthen (the_statement p) (\<lambda>st. andthen (bind_and_execute api st) (\<lambda>_. conn_query api (st_stmt st)))"

definition clear :: "'l mysql_api \<Rightarrow> ('l, 'tm) dbconn \<Rightarrow> ('l, 'tm) dbconn" where
  "clear api s =
     (let s = fold (\<lambda>(_, rs) s. delete_result api rs s) (cn_results s) s;
          s = s\<lparr>cn_results := []\<rparr>;
          s = fold (\<lambda>(_, st) s. delete_statement api st s) (cn_statements s) s in
      s\<lparr>cn_statements := []\<rparr>)"

definition delete_connection :: "'l mysql_api \<Rightarrow> ('l, 'tm) dbconn \<Rightarrow> ('l, 'tm) dbconn" where
  "delete_connection api s = (let s = clear api s in release Mysql (api_close api) (cn_mysql s) s)"

section \<open>A concrete library\<close>

text \<open>A library that hands out the handles 1, 2, ..., refuses the query \<^verbatim>\<open>bad\<close> and whose second statement has no result.\<close>

definition demo_api :: "nat mysql_api" where
  "demo_api = \<lparr>api_init = (\<lambda>l. (Suc l, Suc l)), api_real_connect = (\<lambda>_ host _ _ _ _ l. (host = ''db'', l)), api_set_character_set = (\<lambda>_ _ l. (0, l)),
     api_error = (\<lambda>_ _. ''refused''), api_close = (\<lambda>_ l. l), api_ping = (\<lambda>_ l. (0, l)), api_real_escape_string = (\<lambda>_ k l. (k, l)),
     api_stmt_init = (\<lambda>_ l. (Suc l, Suc l)), api_stmt_prepare = (\<lambda>_ q l. (if q = ''bad'' then 1 else 0, l)), api_stmt_error = (\<lambda>_ _. ''error''),
     api_stmt_param_count = (\<lambda>_ _. 1), api_stmt_close = (\<lambda>_ l. l), api_stmt_bind_param = (\<lambda>_ _ _ l. (0, l)), api_stmt_execute = (\<lambda>_ l. (0, l)),
     api_stmt_affected_rows = (\<lambda>_ _. 1), api_stmt_result_metadata = (\<lambda>st l. if st = 2 then (Suc l, Suc l) else (0, l)), api_free_result = (\<lambda>_ l. l),
     api_stmt_field_count = (\<lambda>_ _. 1), api_fetch_fields = (\<lambda>_ _. [\<lparr>fd_name = ''id'', fd_type = MYSQL_TYPE_TINY, fd_length = 1\<rparr>]),
     api_stmt_bind_result = (\<lambda>_ _ l. (0, l)), api_stmt_store_result = (\<lambda>_ l. (0, l)), api_stmt_num_rows = (\<lambda>_ _. 1),
     api_stmt_fetch = (\<lambda>_ l. if l < 5 then ((Code 0, [\<lparr>so_bytes = [CHR 0x07], so_length = 1, so_null = 0, so_error = 0\<rparr>]), Suc l) else ((MYSQL_NO_DATA, []), l)),
     api_stmt_next_result = (\<lambda>_ l. (0, l))\<rparr>"


definition demo_connection :: "(nat, unit) dbconn" where
  "demo_connection = \<lparr>cn_lib = 1, cn_calls = [Acquire (Mysql 1)], cn_bound = Map.empty, cn_next = 1, cn_mysql = 1, cn_released = (), cn_pooled = True,
     cn_statements = [], cn_results = []\<rparr>"

lemmas demo_simps = demo_api_def demo_connection_def prepare_def new_statement_def acquire_def andthen_def on_throw_def lib_do_def lib_ask_def
  give_def throw_def throw_stmt_error_def new_bind_def to_i32_def set_param_def the_statement_def param_string_def param_text_def get_bind_def set_bind_def set_length_def
  write_back_def statement_query_def bind_and_execute_def conn_query_def new_result_def bind_result_def new_column_def column_bind_def fetch_result_def
  fetch_proc_result_def stmt_fetch_def the_result_def put_result_def store_column_def release_def fault_def fetch_stmt_result_def Let_def

end
