(* ===== verification/Mysqlpp_Values.thy ===== *)
theory Mysqlpp_Values
  imports Mysqlpp
begin

text \<open>
  What passes through the MySQL wrapper of \<open>Mysqlpp\<close>: the parameters of a statement, which are bound
  with the type, the signedness and the length that their C++ type asks for; the keyword of
  \<^verbatim>\<open>prepare_like\<close>, which stays inside its literal; the values of a row, read back as the library stored
  them.
\<close>

section \<open>Parameters\<close>

fun params :: "arg list \<Rightarrow> statement \<Rightarrow> statement cpp" where
  "params [] st = Ret st"
| "params (a # as) st = xbind (param a st) (params as)"

text \<open>The types of the library, by the type of the argument.\<close>

fun arg_type :: "arg \<Rightarrow> enum_field_types \<times> bool" where
  "arg_type (Uint8 p) = (MYSQL_TYPE_TINY, True)"
| "arg_type (Int16 p) = (MYSQL_TYPE_SHORT, False)"
| "arg_type (Uint16 p) = (MYSQL_TYPE_SHORT, True)"
| "arg_type (Int32 p) = (MYSQL_TYPE_LONG, False)"
| "arg_type (Uint32 p) = (MYSQL_TYPE_LONG, True)"
| "arg_type (Int64 p) = (MYSQL_TYPE_LONGLONG, False)"
| "arg_type (Uint64 p) = (MYSQL_TYPE_LONGLONG, True)"
| "arg_type (Float p) = (MYSQL_TYPE_FLOAT, False)"
| "arg_type (Double p) = (MYSQL_TYPE_DOUBLE, False)"
| "arg_type (String p n) = (MYSQL_TYPE_STRING, False)"
| "arg_type (Blob p n) = (MYSQL_TYPE_BLOB, False)"
| "arg_type Null_value = (MYSQL_TYPE_NULL, False)"

text \<open>Where the value is, and its bytes when the library asks for their number.\<close>

fun arg_address :: "arg \<Rightarrow> ptr" where
  "arg_address (Uint8 p) = Caller p"
| "arg_address (Int16 p) = Caller p"
| "arg_address (Uint16 p) = Caller p"
| "arg_address (Int32 p) = Caller p"
| "arg_address (Uint32 p) = Caller p"
| "arg_address (Int64 p) = Caller p"
| "arg_address (Uint64 p) = Caller p"
| "arg_address (Float p) = Caller p"
| "arg_address (Double p) = Caller p"
| "arg_address (String p n) = Caller p"
| "arg_address (Blob p n) = Caller p"
| "arg_address Null_value = Null_ptr"

fun arg_bytes :: "arg \<Rightarrow> nat option" where
  "arg_bytes (Float p) = Some 4"
| "arg_bytes (Double p) = Some 8"
| "arg_bytes (String p n) = Some (n mod 2 ^ 32)"
| "arg_bytes (Blob p n) = Some (n mod 2 ^ 32)"
| "arg_bytes _ = None"

definition arg_length :: "arg \<Rightarrow> nat" where
  "arg_length a = (case arg_bytes a of None \<Rightarrow> 0 | Some n \<Rightarrow> n)"

definition is_text :: "arg \<Rightarrow> bool" where
  "is_text a \<longleftrightarrow> fst (arg_type a) \<in> {MYSQL_TYPE_STRING, MYSQL_TYPE_BLOB}"

definition arg_bind :: "nat \<times> arg \<Rightarrow> st_mysql_bind" where
  "arg_bind = (\<lambda>(i, a). \<lparr>bd_type = fst (arg_type a), bd_buffer = arg_address a, bd_buffer_length = (if is_text a then arg_length a else 0),
     bd_length = (if arg_bytes a = None then Null_ptr else Length_at i), bd_is_null = (if a = Null_value then Dead else Null_ptr),
     bd_error = Null_ptr, bd_is_unsigned = snd (arg_type a)\<rparr>)"

text \<open>A statement of \<open>n\<close> parameters after the first of them, \<open>as\<close>, have been given.\<close>

definition given :: "nat \<Rightarrow> nat \<Rightarrow> arg list \<Rightarrow> statement" where
  "given h n as = \<lparr>st_stmt = h, st_param_count = int n, st_bind_index = int (length as),
     st_binds = map arg_bind (enumerate 0 as) @ replicate (n - length as) new_bind,
     st_lengths = map arg_length as @ replicate (n - length as) 0\<rparr>"

lemma param_given:
  assumes "length as < n"
  shows "param a (given h n as) = Ret (given h n (as @ [a]))"
proof -
  have u: "xs @ replicate (n - length as) z = xs @ z # replicate (n - Suc (length as)) z" for xs and z :: 'z
    using assms by (cases "n - length as") auto
  show ?thesis using assms unfolding given_def u
    by (cases a)
      (simp_all add: param_uint8_def param_int16_def param_uint16_def param_int32_def param_uint32_def param_int64_def param_uint64_def
       param_float_def param_double_def param_string_def param_blob_def param_null_def param_integer_def param_floating_def param_text_def
       get_bind_def set_bind_def set_length_def nth_append list_update_append enumerate_append_eq new_bind_def arg_bind_def is_text_def arg_length_def)
qed

lemma param_full: "length as \<ge> n \<Longrightarrow> param a (given h n as) = Throw (RuntimeError ''invalid bind_index'')"
  by (cases a)
    (simp_all add: param_uint8_def param_int16_def param_uint16_def param_int32_def param_uint32_def param_int64_def param_uint64_def
      param_float_def param_double_def param_string_def param_blob_def param_null_def param_integer_def param_floating_def param_text_def get_bind_def given_def)

lemma params_given:
  "length as \<le> n \<Longrightarrow> params bs (given h n as) =
     (if length as + length bs \<le> n then Ret (given h n (as @ bs)) else Throw (RuntimeError ''invalid bind_index''))"
proof (induction bs arbitrary: as)
  case (Cons b bs)
  then show ?case by (cases "length as < n") (auto simp: param_given param_full)
qed simp

lemma new_statement_given:
  assumes "new_statement api mysql query s = Ok (Inr st, s')"
  shows "st = given (st_stmt st) (nat (st_param_count st)) []"
  using assms by (auto simp: new_statement_def andthen_def on_throw_def acquire_def lib_do_def lib_ask_def throw_def give_def throw_stmt_error_def given_def Let_def
    split: prod.splits if_splits sum.splits)

text \<open>
  C21. A prepared statement takes exactly as many parameters as its query has. The first that are
  given, in order, are each bound in the place of its own with the type and the signedness of its C++
  type, the address of its value, and for texts and floating-point numbers the number of its bytes
  and the element of the lengths that holds it; the other places stay as they were, and no access is
  out of bounds. One parameter too many throws, which keeps the library from being given a wrong place.
\<close>
theorem statement_parameters_typed:
  assumes "new_statement api mysql query s = Ok (Inr st, s')"
  shows "params as st =
    (if int (length as) \<le> st_param_count st
     then Ret (st\<lparr>st_bind_index := int (length as), st_binds := map arg_bind (enumerate 0 as) @ drop (length as) (st_binds st),
       st_lengths := map arg_length as @ drop (length as) (st_lengths st)\<rparr>)
     else Throw (RuntimeError ''invalid bind_index''))"
proof -
  obtain h n where "st = given h n []" using new_statement_given [OF assms] by blast
  then show ?thesis using params_given [of "[]" n as h] by (simp add: given_def)
qed

theorem statement_parameters_typed_witness:
  "case new_statement demo_api 1 ''q'' demo_connection of
     Ok (Inr st, _) \<Rightarrow> params [String 9 5] st = Ret (st\<lparr>st_bind_index := 1, st_lengths := [5], st_binds :=
         [new_bind\<lparr>bd_type := MYSQL_TYPE_STRING, bd_buffer := Caller 9, bd_buffer_length := 5, bd_length := Length_at 0\<rparr>]\<rparr>) \<and>
       params [Int32 4, Null_value] st = Throw (RuntimeError ''invalid bind_index'')
   | _ \<Rightarrow> False"
proof -
  let ?st = "\<lparr>st_stmt = 2, st_param_count = 1, st_bind_index = 0, st_binds = [new_bind], st_lengths = [0]\<rparr>"
  have n: "new_statement demo_api 1 ''q'' demo_connection = Ok (Inr ?st, demo_connection\<lparr>cn_lib := 2, cn_calls := [Acquire (Mysql 1), Acquire (Stmt 2)]\<rparr>)"
    by (simp add: demo_simps)
  show ?thesis unfolding n using statement_parameters_typed [OF n, of "[String 9 5]"] statement_parameters_typed [OF n, of "[Int32 4, Null_value]"]
    by (simp add: arg_bind_def is_text_def arg_length_def new_bind_def del: params.simps)
qed


section \<open>Keywords\<close>

text \<open>
  The documented result of \<^verbatim>\<open>mysql_real_escape_string\<close>, for a character set of single bytes and the
  default SQL mode, and the documented value of a literal in single quotes, from behind the opening
  quote: a backslash takes the next character, two quotes are one, and a quote ends it.
\<close>

fun escape_char :: "char \<Rightarrow> string" where
  "escape_char c =
     (if c = NUL then [CHR 0x5C, CHR 0x30] else if c = CHR 0x0A then [CHR 0x5C, CHR 0x6E] else if c = CHR 0x0D then [CHR 0x5C, CHR 0x72]
      else if c = CHR 0x1A then [CHR 0x5C, CHR 0x5A] else if c \<in> {CHR 0x5C, CHR 0x27, CHR 0x22} then [CHR 0x5C, c] else [c])"

definition unescape_char :: "char \<Rightarrow> char" where
  "unescape_char c = (if c = CHR 0x30 then NUL else if c = CHR 0x6E then CHR 0x0A else if c = CHR 0x72 then CHR 0x0D else if c = CHR 0x5A then CHR 0x1A
     else if c = CHR 0x62 then CHR 0x08 else if c = CHR 0x74 then CHR 0x09 else c)"

fun sql_literal :: "string \<Rightarrow> (string \<times> string) option" where
  "sql_literal [] = None"
| "sql_literal [c] = (if c = CHR 0x27 then Some ([], []) else None)"
| "sql_literal (c # d # s) =
     (if c = CHR 0x5C then map_option (\<lambda>(v, r). (unescape_char d # v, r)) (sql_literal s)
      else if c = CHR 0x27 then (if d = CHR 0x27 then map_option (\<lambda>(v, r). (CHR 0x27 # v, r)) (sql_literal s) else Some ([], d # s))
      else map_option (\<lambda>(v, r). (c # v, r)) (sql_literal (d # s)))"

definition escapes :: "'l mysql_api \<Rightarrow> bool" where
  "escapes api \<longleftrightarrow> (\<forall>h keyword l. fst (api_real_escape_string api h keyword l) = concat (map escape_char keyword))"

lemma sql_literal_plain: "c \<noteq> CHR 0x5C \<Longrightarrow> c \<noteq> CHR 0x27 \<Longrightarrow> sql_literal (c # s) = map_option (\<lambda>(v, r). (c # v, r)) (sql_literal s)"
  by (cases s) auto

lemma sql_literal_escaped: "sql_literal (concat (map escape_char keyword) @ s) = map_option (\<lambda>(v, r). (keyword @ v, r)) (sql_literal s)"
  by (induction keyword) (auto simp: sql_literal_plain unescape_char_def option.map_comp comp_def case_prod_beta option.map_ident)

lemma escaped_text: "NUL \<notin> set (concat (map escape_char keyword))" "length (concat (map escape_char keyword)) \<le> 2 * length keyword"
  by (induction keyword) auto

lemma c_text_id: "NUL \<notin> set s \<Longrightarrow> c_text s = s"
  unfolding c_text_def by (rule takeWhile_eq_all_conv [THEN iffD2]) auto

definition percent :: "bool \<Rightarrow> string" where
  "percent b = (if b then ''%'' else [])"

lemma like_literal:
  "\<exists>q. like_query query lp (concat (map escape_char keyword)) rp = query @ CHR 0x20 # CHR 0x27 # q \<and> sql_literal q = Some (percent lp @ keyword @ percent rp, [])"
proof (intro exI conjI)
  let ?q = "percent lp @ concat (map escape_char keyword) @ percent rp @ [CHR 0x27]"
  show "like_query query lp (concat (map escape_char keyword)) rp = query @ CHR 0x20 # CHR 0x27 # ?q"
    by (simp add: like_query_def c_text_id [OF escaped_text(1)] percent_def)
  have r: "sql_literal (percent rp @ [CHR 0x27]) = Some (percent rp, [])" by (simp add: percent_def sql_literal_plain)
  show "sql_literal ?q = Some (percent lp @ keyword @ percent rp, [])"
    by (cases lp) (simp_all add: percent_def [of True] percent_def [of False] sql_literal_plain sql_literal_escaped r)
qed

text \<open>
  C20. \<^verbatim>\<open>prepare_like\<close> keeps the keyword inside its literal: with a library that escapes as documented,
  no keyword overruns the buffer of twice its length, and the statement that is prepared is the given
  query followed by one literal, which ends where the text ends and whose value is the keyword itself
  between the percent signs that were asked for, whatever quotes, backslashes or null characters the
  keyword has.
\<close>
theorem prepare_like_confined:
  assumes "escapes api"
  shows "\<exists>q l. prepare_like api query left_percent keyword right_percent s = prepare api (query @ CHR 0x20 # CHR 0x27 # q) (s\<lparr>cn_lib := l\<rparr>) \<and>
    sql_literal q = Some (percent left_percent @ keyword @ percent right_percent, [])"
proof -
  obtain l where e: "api_real_escape_string api (cn_mysql s) keyword (cn_lib s) = (concat (map escape_char keyword), l)"
    using assms unfolding escapes_def by (metis prod.collapse)
  have "prepare_like api query left_percent keyword right_percent s =
      prepare api (like_query query left_percent (concat (map escape_char keyword)) right_percent) (s\<lparr>cn_lib := l\<rparr>)"
    using escaped_text(2) [of keyword] by (simp add: prepare_like_def andthen_def lib_do_def e)
  then show ?thesis using like_literal [of query left_percent keyword right_percent] by metis
qed

definition escaping_api :: "nat mysql_api" where
  "escaping_api = demo_api\<lparr>api_real_escape_string := \<lambda>_ k l. (concat (map escape_char k), l)\<rparr>"

theorem prepare_like_confined_witness:
  "\<exists>q l. prepare_like escaping_api ''select id from t where name like'' True [CHR 0x27, CHR 0x5C] True demo_connection =
     prepare escaping_api (''select id from t where name like'' @ CHR 0x20 # CHR 0x27 # q) (demo_connection\<lparr>cn_lib := l\<rparr>) \<and>
     sql_literal q = Some ([CHR 0x25, CHR 0x27, CHR 0x5C, CHR 0x25], [])"
  using prepare_like_confined [of escaping_api "''select id from t where name like''" True "[CHR 0x27, CHR 0x5C]" True demo_connection]
  by (simp add: escapes_def escaping_api_def percent_def del: sql_literal.simps)

end
