(* ===== verification/Mysqlpp_Handles.thy ===== *)
theory Mysqlpp_Handles
  imports Mysqlpp
begin

text \<open>
  The handles of the MySQL library that a connection of \<open>Mysqlpp\<close> holds. Replaying the calls that
  acquire and release handles gives the handles held, and fails when one is released that is not
  held. At any time they are exactly the handles in the objects that the connection owns, whatever
  the library answers and wherever an exception is thrown, so the destructor leaves none behind.
\<close>

section \<open>Replaying the calls\<close>

fun replay :: "call list \<Rightarrow> handle multiset \<Rightarrow> handle multiset option" where
  "replay [] M = Some M"
| "replay (Acquire h # cs) M = replay cs (add_mset h M)"
| "replay (Release h # cs) M = (if h \<in># M then replay cs (M - {#h#}) else None)"

lemma replay_append: "replay (cs @ ds) M = Option.bind (replay cs M) (replay ds)"
  by (induction cs M rule: replay.induct) auto

definition hs :: "(nat \<Rightarrow> handle) \<Rightarrow> nat \<Rightarrow> handle multiset" where
  "hs k h = (if h = 0 then {#} else {#k h#})"

definition same_objects :: "('l, 'tm) dbconn \<Rightarrow> ('l, 'tm) dbconn \<Rightarrow> bool" where
  "same_objects s s' \<longleftrightarrow> cn_statements s' = cn_statements s \<and> cn_results s' = cn_results s \<and> cn_mysql s' = cn_mysql s \<and> cn_next s' = cn_next s"

definition held :: "handle multiset \<Rightarrow> ('l, 'tm) dbconn \<Rightarrow> ('l, 'tm) dbconn \<Rightarrow> bool" where
  "held M s0 s \<longleftrightarrow> replay (cn_calls s) {#} = Some M \<and> same_objects s0 s"

text \<open>
  From the handles \<open>M\<close> a call goes to \<open>N y\<close> when it gives \<open>y\<close>, which satisfies \<open>R\<close>, and to \<open>E\<close>
  when it throws. It leaves the objects of the connection as they are.
\<close>

definition spec :: "handle multiset \<Rightarrow> (('l, 'tm) dbconn, 'a) act \<Rightarrow> ('a \<Rightarrow> handle multiset) \<Rightarrow> ('a \<Rightarrow> bool) \<Rightarrow> handle multiset \<Rightarrow> bool" where
  "spec M m N R E \<longleftrightarrow> (\<forall>s0 s x s'. held M s0 s \<longrightarrow> m s = Ok (x, s') \<longrightarrow> (case x of Inl _ \<Rightarrow> held E s0 s' | Inr y \<Rightarrow> R y \<and> held (N y) s0 s'))"

named_theorems specs

lemma andthen_given: "m s = Ok (Inr y, s') \<Longrightarrow> andthen m f s = f y s'"
  by (simp add: andthen_def)

lemma andthen_eq_Inr: "andthen m f s = Ok (Inr x, s') \<longleftrightarrow> (\<exists>y s1. m s = Ok (Inr y, s1) \<and> f y s1 = Ok (Inr x, s'))"
proof (cases "m s")
  case (Ok z)
  then show ?thesis by (cases z; cases "fst z") (auto simp: andthen_def)
qed (auto simp: andthen_def)

lemma on_throw_eq_Inr: "on_throw m f s = Ok (Inr x, s') \<longleftrightarrow> m s = Ok (Inr x, s')"
  unfolding on_throw_def by (cases "m s") (auto split: prod.splits sum.splits)

lemma spec_andthen:
  assumes "spec M m N R E" "\<And>y. R y \<Longrightarrow> spec (N y) (f y) N' R' E"
  shows "spec M (andthen m f) N' R' E"
  unfolding spec_def
proof (intro allI impI)
  fix s0 s x s'
  assume h: "held M s0 s" "andthen m f s = Ok (x, s')"
  obtain y s1 where y: "m s = Ok (y, s1)" using h(2) by (cases "m s") (auto simp: andthen_def)
  note sp = assms(1) [unfolded spec_def, rule_format, OF h(1) y]
  show "case x of Inl _ \<Rightarrow> held E s0 s' | Inr y \<Rightarrow> R' y \<and> held (N' y) s0 s'"
  proof (cases y)
    case (Inl e)
    then show ?thesis using h(2) y sp by (auto simp: andthen_def)
  next
    case (Inr z)
    then have "R z" "held (N z) s0 s1" "f z s1 = Ok (x, s')" using h(2) y sp by (auto simp: andthen_def)
    then show ?thesis using assms(2) [of z] unfolding spec_def by blast
  qed
qed

lemma spec_on_throw:
  assumes "spec M m N R E'" "\<And>s0 s. held E' s0 s \<Longrightarrow> held E s0 (f s)"
  shows "spec M (on_throw m f) N R E"
  unfolding spec_def
proof (intro allI impI)
  fix s0 s x s'
  assume h: "held M s0 s" "on_throw m f s = Ok (x, s')"
  obtain y s1 where y: "m s = Ok (y, s1)" using h(2) by (cases "m s") (auto simp: on_throw_def)
  then show "case x of Inl _ \<Rightarrow> held E s0 s' | Inr y \<Rightarrow> R y \<and> held (N y) s0 s'"
    using assms(1) [unfolded spec_def, rule_format, OF h(1) y] assms(2) h(2) by (auto simp: on_throw_def split: sum.splits)
qed

lemma spec_weaken: "spec M m N R E \<Longrightarrow> (\<And>y. R y \<Longrightarrow> R' y) \<Longrightarrow> spec M m N R' E"
  unfolding spec_def by (fastforce split: sum.splits)

lemma spec_steps [specs]:
  "spec M (lib_do f) (\<lambda>_. M) (\<lambda>_. True) E" "spec M (lib_ask g) (\<lambda>_. M) (\<lambda>_. True) E" "spec M (throw e) N R M" "spec M (fault z) N R E"
  "spec M (acquire k i) (\<lambda>h. M + hs k h) (\<lambda>_. True) E"
  by (auto simp: spec_def lib_do_def lib_ask_def throw_def fault_def acquire_def held_def same_objects_def replay_append hs_def split: prod.splits)

lemma spec_give: "R y \<Longrightarrow> N y = M \<Longrightarrow> spec M (give y) N R E"
  by (auto simp: spec_def give_def)

lemma spec_throw_error [specs]: "spec M (throw_stmt_error api stmt) N R M"
  unfolding throw_stmt_error_def by (rule spec_andthen [OF specs(2)]) (rule specs)

lemma held_release: "held (M + hs k h) s0 s \<Longrightarrow> held M s0 (release k f h s)"
  by (auto simp: held_def release_def hs_def same_objects_def replay_append)

lemma held_release_if: "held (M + hs k h) s0 s \<Longrightarrow> held M s0 (if h \<noteq> 0 then release k f h s else s)"
  using held_release [of M k h s0 s] by (auto simp: hs_def)

section \<open>Statements and results\<close>

lemma new_statement_spec: "spec M (new_statement api mysql query) (\<lambda>st. M + hs Stmt (st_stmt st)) (\<lambda>_. True) M"
  unfolding new_statement_def
proof (rule spec_andthen [OF specs(5)], rule spec_on_throw)
  fix stmt
  show "spec (M + hs Stmt stmt)
      (if stmt = 0 then throw (RuntimeError ''stmt_init failed'')
       else andthen (lib_do (api_stmt_prepare api stmt query)) (\<lambda>r.
         if r \<noteq> 0 then throw_stmt_error api stmt
         else andthen (lib_ask (api_stmt_param_count api stmt)) (\<lambda>n.
           let param_count = to_i32 (int n) in
           if param_count < 0 then throw LengthError
           else give \<lparr>st_stmt = stmt, st_param_count = param_count, st_bind_index = 0,
             st_binds = replicate (nat param_count) new_bind, st_lengths = replicate (nat param_count) 0\<rparr>)))
      (\<lambda>st. M + hs Stmt (st_stmt st)) (\<lambda>_. True) (M + hs Stmt stmt)"
    by (auto simp: Let_def intro!: specs spec_andthen [OF specs(1)] spec_andthen [OF specs(2)] spec_give)
qed (rule held_release_if)

lemma bound_spec: "spec M (\<lambda>s. Ok (Inr y, s\<lparr>cn_bound := b s\<rparr>)) (\<lambda>_. M) (\<lambda>z. z = y) E"
  by (auto simp: spec_def held_def same_objects_def)

lemma bind_result_spec: "spec M (bind_result api self rs) (\<lambda>_. M) (\<lambda>(b, rs'). rs_metadata rs' = rs_metadata rs \<and> rs_stmt rs' = rs_stmt rs) E"
  unfolding bind_result_def Let_def
  by (auto intro!: specs spec_andthen [OF specs(1)] spec_andthen [OF specs(2)] spec_give spec_weaken [OF bound_spec] split: cpp.splits)

lemma store_spec:
  "M' = M + hs Metadata (rs_metadata rs) \<Longrightarrow>
   spec M' (andthen (lib_do (api_stmt_store_result api stmt)) (\<lambda>r. if r \<noteq> 0 then throw_stmt_error api stmt else give rs))
     (\<lambda>rs. M + hs Metadata (rs_metadata rs)) (\<lambda>_. True) M'"
  by (auto intro!: specs spec_andthen [OF specs(1)] spec_give)

lemma new_result_spec: "spec M (new_result api self stmt) (\<lambda>rs. M + hs Metadata (rs_metadata rs)) (\<lambda>_. True) M"
  unfolding new_result_def
proof (rule spec_andthen [OF specs(5)], rule spec_on_throw)
  fix md
  let ?rs = "\<lparr>rs_stmt = stmt, rs_metadata = md, rs_field_count = 0, rs_binds = [], rs_columns = []\<rparr>"
  show "spec (M + hs Metadata md)
      (if md = 0 then throw_stmt_error api stmt
       else andthen (bind_result api self ?rs) (\<lambda>(b, rs). case b of Inl e \<Rightarrow> throw e
         | Inr _ \<Rightarrow> andthen (lib_do (api_stmt_store_result api stmt)) (\<lambda>r. if r \<noteq> 0 then throw_stmt_error api stmt else give rs)))
      (\<lambda>rs. M + hs Metadata (rs_metadata rs)) (\<lambda>_. True) (M + hs Metadata md)"
    by (auto intro!: specs store_spec spec_andthen [OF bind_result_spec] split: sum.splits)
qed (rule held_release_if)


section \<open>What a connection owns\<close>

definition stmt_handles :: "(nat \<times> statement) list \<Rightarrow> handle multiset" where
  "stmt_handles l = sum_list (map (\<lambda>(p, st). hs Stmt (st_stmt st)) l)"

definition result_handles :: "(nat \<times> result_obj) list \<Rightarrow> handle multiset" where
  "result_handles l = sum_list (map (\<lambda>(p, rs). hs Metadata (rs_metadata rs)) l)"

definition owned :: "('l, 'tm) dbconn \<Rightarrow> handle multiset" where
  "owned s = hs Mysql (cn_mysql s) + stmt_handles (cn_statements s) + result_handles (cn_results s)"

definition addresses_below :: "nat \<Rightarrow> (nat \<times> 'a) list \<Rightarrow> bool" where
  "addresses_below n l \<longleftrightarrow> distinct (map fst l) \<and> (\<forall>p \<in> set (map fst l). p < n)"

definition addresses_ok :: "('l, 'tm) dbconn \<Rightarrow> bool" where
  "addresses_ok s \<longleftrightarrow> addresses_below (cn_next s) (cn_statements s) \<and> addresses_below (cn_next s) (cn_results s)"

definition sound :: "('l, 'tm) dbconn \<Rightarrow> bool" where
  "sound s \<longleftrightarrow> replay (cn_calls s) {#} = Some (owned s) \<and> addresses_ok s"

definition keeps_sound :: "(('l, 'tm) dbconn, 'a) act \<Rightarrow> bool" where
  "keeps_sound m \<longleftrightarrow> (\<forall>s x s'. sound s \<longrightarrow> m s = Ok (x, s') \<longrightarrow> sound s')"

lemma addresses_below_simps [simp]:
  "addresses_below n []" "addresses_below n l \<Longrightarrow> addresses_below (Suc n) l" "addresses_below n l \<Longrightarrow> addresses_below (Suc n) (l @ [(n, x)])"
  "addresses_below n l \<Longrightarrow> distinct (map fst l)"
  by (auto simp: addresses_below_def less_Suc_eq)

lemma stmt_handles_simps [simp]:
  "stmt_handles [] = {#}" "stmt_handles ((p, st) # l) = hs Stmt (st_stmt st) + stmt_handles l" "stmt_handles (l @ l') = stmt_handles l + stmt_handles l'"
  by (simp_all add: stmt_handles_def)

lemma result_handles_simps [simp]:
  "result_handles [] = {#}" "result_handles ((p, rs) # l) = hs Metadata (rs_metadata rs) + result_handles l"
  "result_handles (l @ l') = result_handles l + result_handles l'"
  by (simp_all add: result_handles_def)

lemma sound_held: "sound s \<Longrightarrow> held (owned s) s s"
  by (simp add: sound_def held_def same_objects_def)

lemma same_objects_owned: "same_objects s s' \<Longrightarrow> owned s' = owned s \<and> addresses_ok s' = addresses_ok s"
  by (simp add: same_objects_def owned_def addresses_ok_def)

lemma held_sound: "sound s \<Longrightarrow> held (owned s) s s' \<Longrightarrow> sound s'"
  using same_objects_owned [of s s'] by (simp add: held_def sound_def)

lemma spec_keeps:
  assumes "\<And>M. spec M m (\<lambda>_. M) R M"
  shows "keeps_sound m"
  unfolding keeps_sound_def
proof (intro allI impI)
  fix s x s'
  assume a: "sound s" "m s = Ok (x, s')"
  then have "held (owned s) s s'" using assms [of "owned s", unfolded spec_def, rule_format, OF sound_held a(2)] by (auto split: sum.splits)
  then show "sound s'" by (rule held_sound [OF a(1)])
qed

lemma keeps_andthen:
  assumes "keeps_sound m" "\<And>y. keeps_sound (f y)"
  shows "keeps_sound (andthen m f)"
  unfolding keeps_sound_def
proof (intro allI impI)
  fix s x s'
  assume a: "sound s" "andthen m f s = Ok (x, s')"
  then obtain y s1 where y: "m s = Ok (y, s1)" by (cases "m s") (auto simp: andthen_def)
  then have "sound s1" using assms(1) a(1) unfolding keeps_sound_def by blast
  then show "sound s'" using a(2) y assms(2) unfolding keeps_sound_def by (cases y) (auto simp: andthen_def)
qed

lemma the_object_keeps: "keeps_sound (the_statement p)" "keeps_sound (the_result p)"
  by (auto simp: keeps_sound_def the_statement_def the_result_def split: option.splits)

lemma keeps_steps: "keeps_sound (give y)" "keeps_sound (lib_ask g)" "keeps_sound (lib_do f)" "keeps_sound (throw_stmt_error api stmt)" "keeps_sound (fault z)"
  by (rule spec_keeps, rule spec_give [where R = "\<lambda>_. True"], simp, simp) (rule spec_keeps, rule specs)+

text \<open>Writing back an object in place of itself.\<close>

lemma write_back_handles:
  fixes g :: "'a \<Rightarrow> handle multiset"
  assumes "addresses_below n l" "map_of l p = Some x0"
  shows "sum_list (map (\<lambda>(q, x). g x) (write_back p y l)) + g x0 = sum_list (map (\<lambda>(q, x). g x) l) + g y"
  using addresses_below_simps(4) [OF assms(1)] assms(2)
proof (induction l)
  case (Cons a l)
  obtain q x where a: "a = (q, x)" by (cases a)
  show ?case
  proof (cases "q = p")
    case True
    then have "p \<notin> fst ` set l" using Cons.prems(1) a by simp
    then have "write_back p y l = l" unfolding write_back_def by (induction l) auto
    then show ?thesis using True Cons.prems(2) a by (simp add: write_back_def add.commute add.left_commute)
  next
    case False
    then show ?thesis using Cons a by (simp add: write_back_def add.assoc del: map_map)
  qed
qed simp

lemma addresses_write_back [simp]: "addresses_below n (write_back p y l) = addresses_below n l"
proof -
  have "map fst (write_back p y l) = map fst l" unfolding write_back_def by (induction l) auto
  then show ?thesis by (simp only: addresses_below_def)
qed

lemma put_result_owned:
  assumes "addresses_ok s" "map_of (cn_results s) p = Some rs0"
  shows "owned (put_result p rs s) + hs Metadata (rs_metadata rs0) = owned s + hs Metadata (rs_metadata rs)"
    and "addresses_ok (put_result p rs s)" "cn_calls (put_result p rs s) = cn_calls s"
proof -
  have "result_handles (write_back p rs (cn_results s)) + hs Metadata (rs_metadata rs0) = result_handles (cn_results s) + hs Metadata (rs_metadata rs)"
    using write_back_handles [of "cn_next s" "cn_results s" p rs0 "\<lambda>rs. hs Metadata (rs_metadata rs)" rs] assms by (simp add: result_handles_def addresses_ok_def)
  then show "owned (put_result p rs s) + hs Metadata (rs_metadata rs0) = owned s + hs Metadata (rs_metadata rs)"
    by (simp add: owned_def put_result_def add.assoc)
  show "addresses_ok (put_result p rs s)" using assms(1) by (simp add: addresses_ok_def put_result_def)
qed (simp add: put_result_def)

lemma put_same_metadata:
  assumes "sound s" "map_of (cn_results s) p = Some rs0" "rs_metadata rs = rs_metadata rs0"
  shows "sound (put_result p rs s)"
  using assms put_result_owned [of s p rs0 rs] by (simp add: sound_def)

lemma put_new_metadata:
  assumes s: "sound s" and rs0: "map_of (cn_results s) p = Some rs0" and K: "owned s = K + hs Metadata (rs_metadata rs0)"
    and h: "held (K + hs Metadata (rs_metadata rs)) s s'"
  shows "sound (put_result p rs s')"
proof -
  have ok: "addresses_ok s'" "map_of (cn_results s') p = Some rs0" "owned s' = owned s"
    using s rs0 h same_objects_owned [of s s'] by (auto simp: sound_def held_def same_objects_def)
  then have "owned (put_result p rs s') + hs Metadata (rs_metadata rs0) = (K + hs Metadata (rs_metadata rs)) + hs Metadata (rs_metadata rs0)"
    using put_result_owned(1) [OF ok(1,2), of rs] K by (simp add: ac_simps)
  then have "owned (put_result p rs s') = K + hs Metadata (rs_metadata rs)" by simp
  then show ?thesis using put_result_owned(2,3) [OF ok(1,2), of rs] h by (simp add: sound_def held_def)
qed

lemma result_handle_owned:
  assumes "map_of (cn_results s) p = Some rs"
  obtains K where "owned s = K + hs Metadata (rs_metadata rs)"
proof -
  obtain l l' where "cn_results s = l @ (p, rs) # l'" using map_of_SomeD [OF assms] by (meson split_list)
  then have "owned s = (hs Mysql (cn_mysql s) + stmt_handles (cn_statements s) + result_handles l + result_handles l') + hs Metadata (rs_metadata rs)"
    by (simp add: owned_def ac_simps)
  then show ?thesis by (rule that)
qed


section \<open>Every operation keeps the objects and the handles together\<close>

lemma param_stmt: "param a st = Ret st' \<Longrightarrow> st_stmt st' = st_stmt st"
  by (cases a)
     (auto simp: param_uint8_def param_int16_def param_uint16_def param_int32_def param_uint32_def param_int64_def param_uint64_def
       param_float_def param_double_def param_string_def param_blob_def param_null_def param_integer_def param_floating_def param_text_def
       get_bind_def set_bind_def set_length_def split: if_splits)

lemma set_param_keeps: "keeps_sound (set_param p a)"
  unfolding keeps_sound_def
proof (intro allI impI)
  fix s :: "('l, 'tm) dbconn" and x s'
  assume s: "sound s" and m: "set_param p a s = Ok (x, s')"
  obtain st where st: "map_of (cn_statements s) p = Some st" using m by (cases "map_of (cn_statements s) p") (auto simp: set_param_def andthen_def the_statement_def)
  show "sound s'"
  proof (cases "param a st")
    case (Ret st')
    have "stmt_handles (write_back p st' (cn_statements s)) = stmt_handles (cn_statements s)"
      using write_back_handles [of "cn_next s" "cn_statements s" p st "\<lambda>st. hs Stmt (st_stmt st)" st'] st s param_stmt [OF Ret]
      by (simp add: stmt_handles_def sound_def addresses_ok_def)
    then have "sound (s\<lparr>cn_statements := write_back p st' (cn_statements s)\<rparr>)" using s by (simp add: sound_def owned_def addresses_ok_def)
    then show ?thesis using m st Ret by (auto simp: set_param_def andthen_def the_statement_def)
  qed (use m st s in \<open>auto simp: set_param_def andthen_def the_statement_def\<close>)
qed

lemma stmt_fetch_keeps: "keeps_sound (stmt_fetch api stmt)"
  unfolding stmt_fetch_def
proof (rule keeps_andthen [OF keeps_steps(3)])
  fix y :: "fetch_code \<times> stored list"
  show "keeps_sound (case y of (code, row) \<Rightarrow> \<lambda>s. if row = [] then Ok (Inr code, s)
       else case cn_bound s stmt of None \<Rightarrow> Fault NullDeref
       | Some p \<Rightarrow> cbind (the_result p s) (\<lambda>(x, _). case x of Inl e \<Rightarrow> Ok (Inl e, s)
             | Inr rs \<Rightarrow> cbind (store_row row (rs_columns rs)) (\<lambda>cs. Ok (Inr code, put_result p (rs\<lparr>rs_columns := cs\<rparr>) s))))"
    by (cases y) (auto simp: keeps_sound_def the_result_def put_same_metadata split: option.splits if_splits)
qed

lemma drain_keeps: "keeps_sound (drain n api stmt)"
  by (induction n) (auto intro!: keeps_andthen stmt_fetch_keeps keeps_steps)

lemmas keeps_intros = keeps_andthen keeps_steps the_object_keeps stmt_fetch_keeps drain_keeps set_param_keeps

lemma simple_operations_keep:
  "keeps_sound (bind_and_execute api st)" "keeps_sound (execute api p)" "keeps_sound (num_rows api p)" "keeps_sound (fetch_stmt_result api p)"
  by (auto simp: bind_and_execute_def execute_def num_rows_def fetch_stmt_result_def intro!: keeps_intros)

lemma ping_keeps: "keeps_sound (ping api)"
  unfolding keeps_sound_def ping_def
proof (intro allI impI)
  fix s x s'
  show "sound s \<Longrightarrow> andthen (lib_do (api_ping api (cn_mysql s))) (\<lambda>r. give (r = 0)) s = Ok (x, s') \<Longrightarrow> sound s'"
    by (rule keeps_andthen [OF keeps_steps(3) keeps_steps(1), unfolded keeps_sound_def, rule_format])
qed

text \<open>A call that may leave any handles when it throws does not throw.\<close>

lemma never_throws:
  assumes "\<And>E. spec M m N R E" "held M s0 s" "m s = Ok (x, s')"
  obtains y where "x = Inr y" "R y" "held (N y) s0 s'"
proof (cases x)
  case (Inl e)
  have "held E s0 s'" for E using assms(1) [of E, unfolded spec_def, rule_format, OF assms(2,3)] Inl by simp
  then have "held {#} s0 s'" "held {#Stmt 0#} s0 s'" by blast+
  then show ?thesis by (simp add: held_def)
next
  case (Inr y)
  then show ?thesis using assms(1) [unfolded spec_def, rule_format, OF assms(2,3)] that by simp
qed

text \<open>The metadata of a result is freed and taken anew.\<close>

definition after_bind :: "nat \<Rightarrow> 'l mysql_api \<Rightarrow> nat \<Rightarrow> (cpp_exn + bool) \<times> result_obj \<Rightarrow> (('l, 'tm) dbconn, bool) act" where
  "after_bind n api p = (\<lambda>(b, rs) s. let s = put_result p rs s in
     case b of Inl e \<Rightarrow> Ok (Inl e, s) | Inr False \<Rightarrow> Ok (Inr False, s)
     | Inr True \<Rightarrow> andthen (drain n api (rs_stmt rs)) (\<lambda>_. andthen (lib_do (api_stmt_next_result api (rs_stmt rs))) (\<lambda>r.
         if r > 0 then throw_stmt_error api (rs_stmt rs) else give True)) s)"

lemma after_bind_keeps:
  assumes "sound (put_result p rs s)" "after_bind n api p (b, rs) s = Ok (x, s')"
  shows "sound s'"
proof -
  have "keeps_sound (andthen (drain n api (rs_stmt rs)) (\<lambda>_. andthen (lib_do (api_stmt_next_result api (rs_stmt rs))) (\<lambda>r.
      if r > 0 then throw_stmt_error api (rs_stmt rs) else give True)))"
    by (auto intro!: keeps_intros)
  then show ?thesis using assms unfolding keeps_sound_def by (auto simp: after_bind_def Let_def split: sum.splits bool.splits)
qed

lemma fetch_proc_result_keeps: "keeps_sound (fetch_proc_result n api p)"
  unfolding keeps_sound_def
proof (intro allI impI)
  fix s x s'
  assume s: "sound s" and m: "fetch_proc_result n api p s = Ok (x, s')"
  obtain rs where rs: "map_of (cn_results s) p = Some rs"
    using m by (cases "map_of (cn_results s) p") (auto simp: fetch_proc_result_def andthen_def the_result_def)
  obtain K where K: "owned s = K + hs Metadata (rs_metadata rs)" using result_handle_owned [OF rs] .
  let ?s1 = "release Metadata (api_free_result api) (rs_metadata rs) s"
  have h1: "held K s ?s1" using held_release sound_held [OF s] K by metis
  obtain md s2 where md: "acquire Metadata (api_stmt_result_metadata api (rs_stmt rs)) ?s1 = Ok (Inr md, s2)"
    by (cases "api_stmt_result_metadata api (rs_stmt rs) (cn_lib ?s1)") (simp add: acquire_def)
  have h2: "held (K + hs Metadata md) s s2"
    using specs(5) [of K Metadata "api_stmt_result_metadata api (rs_stmt rs)", unfolded spec_def, rule_format, OF h1 md] by simp
  let ?rs = "rs\<lparr>rs_metadata := md\<rparr>"
  have rs': "the_result p s = Ok (Inr rs, s)" using rs by (simp add: the_result_def)
  have "fetch_proc_result n api p s = (if md = 0 then throw_stmt_error api (rs_stmt rs) (put_result p ?rs s2)
      else andthen (bind_result api p ?rs) (after_bind n api p) s2)"
    unfolding fetch_proc_result_def after_bind_def andthen_given [of "the_result p", OF rs']
    by (simp add: andthen_given [of "acquire k f" for k f, OF md] Let_def)
  then have step: "(if md = 0 then throw_stmt_error api (rs_stmt rs) (put_result p ?rs s2)
      else andthen (bind_result api p ?rs) (after_bind n api p) s2) = Ok (x, s')" using m by simp
  show "sound s'"
  proof (cases "md = 0")
    case True
    have "sound (put_result p ?rs s2)" by (rule put_new_metadata [OF s rs K]) (simp add: h2)
    then show ?thesis using step True keeps_steps(4) [of api "rs_stmt rs"] by (auto simp: keeps_sound_def)
  next
    case False
    then obtain y s3 where y: "bind_result api p ?rs s2 = Ok (y, s3)" using step by (auto simp: andthen_def)
    obtain b rs' where b: "y = Inr (b, rs')" "rs_metadata rs' = md" "held (K + hs Metadata md) s s3"
      by (rule never_throws [OF bind_result_spec h2 y]) auto
    have "sound (put_result p rs' s3)" by (rule put_new_metadata [OF s rs K]) (simp add: b)
    then show ?thesis using step False y b(1) by (auto simp: andthen_def intro: after_bind_keeps)
  qed
qed

lemma prepare_keeps: "keeps_sound (prepare api query)"
  unfolding keeps_sound_def
proof (intro allI impI)
  fix s x s'
  assume s: "sound s" and m: "prepare api query s = Ok (x, s')"
  obtain y s1 where y: "new_statement api (cn_mysql s) query s = Ok (y, s1)" using m by (auto simp: prepare_def andthen_def)
  note sp = new_statement_spec [unfolded spec_def, rule_format, OF sound_held [OF s] y]
  show "sound s'"
  proof (cases y)
    case (Inl e)
    then show ?thesis using held_sound [OF s] sp m y by (auto simp: prepare_def andthen_def)
  next
    case (Inr st)
    then have h: "held (owned s + hs Stmt (st_stmt st)) s s1" using sp by simp
    have "s' = s1\<lparr>cn_next := Suc (cn_next s1), cn_statements := cn_statements s1 @ [(cn_next s1, st)]\<rparr>" using m y Inr by (simp add: prepare_def andthen_def)
    then show ?thesis using h s by (auto simp: held_def same_objects_def sound_def owned_def addresses_ok_def ac_simps)
  qed
qed

lemma conn_query_keeps: "keeps_sound (conn_query api stmt)"
  unfolding keeps_sound_def
proof (intro allI impI)
  fix s x s'
  assume "sound s" and m: "conn_query api stmt s = Ok (x, s')"
  let ?s = "s\<lparr>cn_next := Suc (cn_next s)\<rparr>"
  have s: "sound ?s" "owned ?s = owned s" using \<open>sound s\<close> by (auto simp: sound_def owned_def addresses_ok_def)
  obtain y s1 where y: "new_result api (cn_next s) stmt ?s = Ok (y, s1)" using m by (auto simp: conn_query_def andthen_def Let_def)
  note sp = new_result_spec [unfolded spec_def, rule_format, OF sound_held [OF s(1)] y]
  show "sound s'"
  proof (cases y)
    case (Inl e)
    then show ?thesis using held_sound [OF s(1)] sp m y by (auto simp: conn_query_def andthen_def Let_def)
  next
    case (Inr rs)
    then have h: "held (owned s + hs Metadata (rs_metadata rs)) ?s s1" using sp s(2) by simp
    have "s' = s1\<lparr>cn_results := cn_results s1 @ [(cn_next s, rs)]\<rparr>" using m y Inr by (simp add: conn_query_def andthen_def Let_def)
    then show ?thesis using h \<open>sound s\<close> by (auto simp: held_def same_objects_def sound_def owned_def addresses_ok_def ac_simps)
  qed
qed


lemma query_operations_keep: "keeps_sound (prepare_like api query lp keyword rp)" "keeps_sound (statement_query api p)" "keeps_sound (fetch_result n api p b)"
proof -
  show "keeps_sound (prepare_like api query lp keyword rp)"
    unfolding keeps_sound_def prepare_like_def
  proof (intro allI impI)
    fix s x s'
    show "sound s \<Longrightarrow> andthen (lib_do (api_real_escape_string api (cn_mysql s) keyword)) (\<lambda>escaped.
        if 2 * length keyword < length escaped then fault OutOfBounds else prepare api (like_query query lp escaped rp)) s = Ok (x, s') \<Longrightarrow> sound s'"
      by (rule keeps_andthen [OF keeps_steps(3), unfolded keeps_sound_def, rule_format]) (auto simp: fault_def intro: prepare_keeps [unfolded keeps_sound_def, rule_format] split: if_splits)
  qed
qed (auto simp: statement_query_def fetch_result_def intro!: keeps_intros simple_operations_keep conn_query_keeps fetch_proc_result_keeps)

section \<open>Freeing everything\<close>

lemma held_delete_results: "held (M + result_handles l) s0 s \<Longrightarrow> held M s0 (fold (\<lambda>(_, rs) s. delete_result api rs s) l s)"
proof (induction l arbitrary: s)
  case (Cons a l)
  obtain p rs where a: "a = (p, rs)" by (cases a)
  have "held ((M + result_handles l) + hs Metadata (rs_metadata rs)) s0 s" using Cons.prems a by (simp add: ac_simps)
  then show ?case using Cons.IH [OF held_release] a by (simp add: delete_result_def)
qed simp

lemma held_delete_statements: "held (M + stmt_handles l) s0 s \<Longrightarrow> held M s0 (fold (\<lambda>(_, st) s. delete_statement api st s) l s)"
proof (induction l arbitrary: s)
  case (Cons a l)
  obtain p st where a: "a = (p, st)" by (cases a)
  have "held ((M + stmt_handles l) + hs Stmt (st_stmt st)) s0 s" using Cons.prems a by (simp add: ac_simps)
  then show ?case using Cons.IH [OF held_release] a by (simp add: delete_statement_def)
qed simp

lemma clear_held:
  assumes "sound s"
  shows "held (hs Mysql (cn_mysql s)) (s\<lparr>cn_results := [], cn_statements := []\<rparr>) (clear api s)"
proof -
  let ?s1 = "(fold (\<lambda>(_, rs) s. delete_result api rs s) (cn_results s) s)\<lparr>cn_results := []\<rparr>"
  have "held (hs Mysql (cn_mysql s) + stmt_handles (cn_statements s)) s (fold (\<lambda>(_, rs) s. delete_result api rs s) (cn_results s) s)"
    using held_delete_results sound_held [OF assms] unfolding owned_def by blast
  then have 1: "held (hs Mysql (cn_mysql s) + stmt_handles (cn_statements s)) (s\<lparr>cn_results := []\<rparr>) ?s1" "cn_statements ?s1 = cn_statements s"
    by (simp_all add: held_def same_objects_def)
  then have "held (hs Mysql (cn_mysql s)) (s\<lparr>cn_results := []\<rparr>) (fold (\<lambda>(_, st) s. delete_statement api st s) (cn_statements ?s1) ?s1)"
    using held_delete_statements by metis
  then show ?thesis by (simp add: clear_def Let_def held_def same_objects_def)
qed

lemma clear_sound: "sound s \<Longrightarrow> sound (clear api s)"
  using clear_held [of s api] by (simp add: sound_def held_def same_objects_def owned_def addresses_ok_def)

lemma delete_connection_frees:
  assumes "sound s"
  shows "replay (cn_calls (delete_connection api s)) {#} = Some {#}"
proof -
  have h: "held ({#} + hs Mysql (cn_mysql s)) (s\<lparr>cn_results := [], cn_statements := []\<rparr>) (clear api s)" using clear_held [OF assms] by simp
  then have "cn_mysql (clear api s) = cn_mysql s" by (simp add: held_def same_objects_def)
  then show ?thesis using held_release [OF h, of "api_close api"] by (simp add: delete_connection_def Let_def held_def)
qed

lemma new_connection_replay:
  assumes "new_connection api now host userid passwd database port charset pooled l = Ok (x, s)"
  shows "case x of Inl _ \<Rightarrow> replay (cn_calls s) {#} = Some {#} | Inr _ \<Rightarrow> sound s"
  using assms
  by (auto simp: new_connection_def acquire_def andthen_def on_throw_def lib_do_def lib_ask_def throw_def give_def release_def sound_def owned_def hs_def addresses_ok_def
    split: prod.splits if_splits sum.splits)


section \<open>Deleting what a connection owns\<close>

definition releases :: "('l, 'tm) dbconn \<Rightarrow> handle list" where
  "releases s = concat (map (\<lambda>(p, rs). if rs_metadata rs = 0 then [] else [Metadata (rs_metadata rs)]) (cn_results s)) @
     concat (map (\<lambda>(p, st). if st_stmt st = 0 then [] else [Stmt (st_stmt st)]) (cn_statements s))"

lemma fold_delete_results:
  "cn_calls (fold (\<lambda>(_, rs) s. delete_result api rs s) l s) = cn_calls s @ map Release (concat (map (\<lambda>(p, rs). if rs_metadata rs = 0 then [] else [Metadata (rs_metadata rs)]) l)) \<and>
   cn_statements (fold (\<lambda>(_, rs) s. delete_result api rs s) l s) = cn_statements s"
  by (induction l arbitrary: s) (auto simp: delete_result_def release_def)

lemma fold_delete_statements:
  "cn_calls (fold (\<lambda>(_, st) s. delete_statement api st s) l s) = cn_calls s @ map Release (concat (map (\<lambda>(p, st). if st_stmt st = 0 then [] else [Stmt (st_stmt st)]) l))"
  by (induction l arbitrary: s) (auto simp: delete_statement_def release_def)

lemma clear_calls: "cn_calls (clear api s) = cn_calls s @ map Release (releases s)"
  by (simp add: clear_def Let_def releases_def fold_delete_results fold_delete_statements)

lemma replay_releases: "replay (map Release ks) M = (if mset ks \<subseteq># M then Some (M - mset ks) else None)"
proof (induction ks arbitrary: M)
  case (Cons h ks)
  have "mset (h # ks) \<subseteq># M \<longleftrightarrow> h \<in># M \<and> mset ks \<subseteq># M - {#h#}"
    by (auto simp: insert_subset_eq_iff dest: mset_subset_eqD)
  then show ?case using Cons by auto
qed simp

lemma releases_statement: "map_of (cn_statements s) p = Some st \<Longrightarrow> st_stmt st \<noteq> 0 \<Longrightarrow> Stmt (st_stmt st) \<in> set (releases s)"
  using map_of_SomeD [of "cn_statements s" p st] by (force simp: releases_def)

lemma releases_owned: "mset (releases s) + hs Mysql (cn_mysql s) = owned s"
proof -
  have "mset (concat (map (\<lambda>(p, rs). if rs_metadata rs = 0 then [] else [Metadata (rs_metadata rs)]) l)) = result_handles l" for l
    by (induction l) (auto simp: hs_def)
  moreover have "mset (concat (map (\<lambda>(p, st). if st_stmt st = 0 then [] else [Stmt (st_stmt st)]) l)) = stmt_handles l" for l
    by (induction l) (auto simp: hs_def)
  ultimately show ?thesis by (simp add: releases_def owned_def ac_simps)
qed

text \<open>
  The pages keep statements and results in \<^verbatim>\<open>stmt_ptr\<close> and \<^verbatim>\<open>rs_ptr\<close> of \<^verbatim>\<open>dbconn_pool.hpp\<close>, which are
  unique pointers and delete them, but the connection owns them as well. A statement that was
  deleted by its unique pointer is released a second time when the connection is cleared.
\<close>
theorem unique_pointer_releases_twice:
  assumes "sound s" "map_of (cn_statements s) p = Some st" "st_stmt st \<noteq> 0"
  shows "replay (cn_calls (clear api (delete_statement api st s))) {#} = None"
proof -
  let ?h = "Stmt (st_stmt st)"
  have h: "?h \<in># mset (releases s)" using releases_statement [OF assms(2,3)] by simp
  have o: "replay (cn_calls s) {#} = Some (mset (releases s) + hs Mysql (cn_mysql s))" using assms(1) by (simp add: sound_def releases_owned)
  have "releases (delete_statement api st s) = releases s" by (simp add: releases_def delete_statement_def release_def)
  then have c: "cn_calls (clear api (delete_statement api st s)) = cn_calls s @ Release ?h # map Release (releases s)"
    using assms(3) by (simp add: clear_calls delete_statement_def release_def)
  have "\<not> mset (releases s) \<subseteq># mset (releases s) + hs Mysql (cn_mysql s) - {#?h#}"
  proof
    assume "mset (releases s) \<subseteq># mset (releases s) + hs Mysql (cn_mysql s) - {#?h#}"
    then have "count (mset (releases s)) ?h \<le> count (mset (releases s) + hs Mysql (cn_mysql s) - {#?h#}) ?h" by (rule mset_subset_eq_count)
    moreover obtain k where "count (mset (releases s)) ?h = Suc k" using h by (metis count_greater_zero_iff gr0_implies_Suc)
    ultimately show False by (simp add: hs_def split: if_splits)
  qed
  then show ?thesis using o h by (simp add: c replay_append replay_releases)
qed

section \<open>Programs over a connection\<close>

text \<open>
  The calls that a program makes on a connection and on the objects it has got from it, at the
  addresses \<open>p\<close>. \<open>Fetch\<close> has the fuel for the loop of \<^verbatim>\<open>fetch_proc_result\<close>. Exceptions are caught by the
  program, which goes on.
\<close>

datatype op = Prepare string | Prepare_like string bool string bool | Param nat arg | Execute nat | Query nat | Num_rows nat | Fetch nat nat bool | Ping | Clear

definition caught :: "(('l, 'tm) dbconn, 'a) act \<Rightarrow> ('l, 'tm) dbconn \<Rightarrow> ('l, 'tm) dbconn cres" where
  "caught m s = cbind (m s) (\<lambda>(_, s). Ok s)"

fun run_op :: "'l mysql_api \<Rightarrow> op \<Rightarrow> ('l, 'tm) dbconn \<Rightarrow> ('l, 'tm) dbconn cres" where
  "run_op api (Prepare query) s = caught (prepare api query) s"
| "run_op api (Prepare_like query left_percent keyword right_percent) s = caught (prepare_like api query left_percent keyword right_percent) s"
| "run_op api (Param p a) s = caught (set_param p a) s"
| "run_op api (Execute p) s = caught (execute api p) s"
| "run_op api (Query p) s = caught (statement_query api p) s"
| "run_op api (Num_rows p) s = caught (num_rows api p) s"
| "run_op api (Fetch n p is_proc) s = caught (fetch_result n api p is_proc) s"
| "run_op api Ping s = caught (ping api) s"
| "run_op api Clear s = Ok (clear api s)"

fun run_ops :: "'l mysql_api \<Rightarrow> op list \<Rightarrow> ('l, 'tm) dbconn \<Rightarrow> ('l, 'tm) dbconn cres" where
  "run_ops api [] s = Ok s"
| "run_ops api (x # xs) s = cbind (run_op api x s) (run_ops api xs)"

lemma caught_sound: "keeps_sound m \<Longrightarrow> caught m s = Ok s' \<Longrightarrow> sound s \<Longrightarrow> sound s'"
  by (auto simp: caught_def keeps_sound_def)

lemma run_op_sound: "run_op api x s = Ok s' \<Longrightarrow> sound s \<Longrightarrow> sound s'"
  by (cases x) (auto simp: clear_sound intro: caught_sound [OF prepare_keeps] caught_sound [OF set_param_keeps] caught_sound [OF ping_keeps]
    simple_operations_keep [THEN caught_sound] query_operations_keep [THEN caught_sound])

lemma run_ops_sound: "run_ops api xs s = Ok s' \<Longrightarrow> sound s \<Longrightarrow> sound s'"
  by (induction xs arbitrary: s) (auto dest: run_op_sound)


definition demo_ops :: "op list" where
  "demo_ops = [Prepare ''call p(?)'', Param 1 (String 7 3), Query 1, Fetch (Suc (Suc 0)) 2 True, Prepare ''bad'', Prepare ''x'', Query 3]"

lemma demo_connection: "new_connection demo_api () ''db'' ''u'' ''p'' ''d'' 3306 ''utf8'' True 0 = Ok (Inr (), demo_connection)"
  by (simp add: new_connection_def demo_api_def acquire_def andthen_def on_throw_def lib_do_def give_def c_text_def demo_connection_def)

text \<open>A row is fetched from the second result of a procedure, the second query is refused and the third one has no result.\<close>

lemma demo_run: "(case run_ops demo_api demo_ops demo_connection of Ok s' \<Rightarrow> cn_calls s' | _ \<Rightarrow> []) =
    [Acquire (Mysql 1), Acquire (Stmt 2), Acquire (Metadata 3), Release (Metadata 3), Acquire (Metadata 4), Acquire (Stmt 6), Release (Stmt 6), Acquire (Stmt 7)]"
  by (simp add: demo_simps caught_def demo_ops_def)


end
