(* ===== verification/Mysqlpp_Rows.thy ===== *)
theory Mysqlpp_Rows
  imports Mysqlpp_Handles
begin

text \<open>
  The rows of a query, read back through \<open>fetch\<close> and \<open>get\<close> of the MySQL wrapper: what the library
  stores in the columns of a result is what the program gets, row after row, until the library has
  no more data.
\<close>

section \<open>Values and their bytes\<close>

fun le_bytes :: "nat \<Rightarrow> int \<Rightarrow> mem" where
  "le_bytes 0 v = []"
| "le_bytes (Suc n) v = char_of (v mod 256) # le_bytes n (v div 256)"

lemma length_le_bytes [simp]: "length (le_bytes n v) = n"
  by (induction n arbitrary: v) auto

lemma le_value_le_bytes: "le_value (le_bytes n v) = v mod 256 ^ n"
proof (induction n arbitrary: v)
  case (Suc n)
  have "of_char (char_of (v mod 256) :: char) = v mod 256" by simp
  then show ?case using Suc by (simp add: zmod_zmult2_eq)
qed simp

datatype db_value = Integer int | Unsigned int | Text string | Null_field

text \<open>What the library stores for a value, and the values that a column of its type has.\<close>

fun stored_value :: "db_value \<Rightarrow> stored" where
  "stored_value (Integer v) = \<lparr>so_bytes = le_bytes 8 v, so_length = 8, so_null = 0, so_error = 0\<rparr>"
| "stored_value (Unsigned v) = \<lparr>so_bytes = le_bytes 8 v, so_length = 8, so_null = 0, so_error = 0\<rparr>"
| "stored_value (Text t) = \<lparr>so_bytes = t, so_length = length t, so_null = 0, so_error = 0\<rparr>"
| "stored_value Null_field = \<lparr>so_bytes = [], so_length = 0, so_null = 1, so_error = 0\<rparr>"

fun in_range :: "db_value \<Rightarrow> bool" where
  "in_range (Integer v) \<longleftrightarrow> - (2 ^ 63) \<le> v \<and> v < 2 ^ 63"
| "in_range (Unsigned v) \<longleftrightarrow> 0 \<le> v \<and> v < 2 ^ 64"
| "in_range _ \<longleftrightarrow> True"

text \<open>The program reads the value in the column \<open>i\<close> with the overload of its type.\<close>

fun reads :: "db_value \<Rightarrow> nat \<Rightarrow> result_obj \<Rightarrow> bool" where
  "reads (Integer v) i rs \<longleftrightarrow> get_at value_int64 i rs = Ret v \<and> is_null_at i rs = Ret False"
| "reads (Unsigned v) i rs \<longleftrightarrow> get_at value_uint64 i rs = Ret v \<and> is_null_at i rs = Ret False"
| "reads (Text t) i rs \<longleftrightarrow> get_at value_string i rs = Ret t \<and> is_null_at i rs = Ret False"
| "reads Null_field i rs \<longleftrightarrow> get_at value_int64 i rs = Throw (RuntimeError ''null value field'') \<and>
     get_at value_uint64 i rs = Throw (RuntimeError ''null value field'') \<and> get_at value_string i rs = Throw (RuntimeError ''null value field'') \<and>
     is_null_at i rs = Ret True"

definition row_reads :: "db_value list \<Rightarrow> result_obj \<Rightarrow> bool" where
  "row_reads vs rs \<longleftrightarrow> (\<forall>i < length vs. reads (vs ! i) i rs)"

definition room :: "db_value \<Rightarrow> st_mysql_column \<Rightarrow> bool" where
  "room v c \<longleftrightarrow> in_range v \<and> length (so_bytes (stored_value v)) \<le> length (col_buffer c) \<and> col_buffer c \<noteq> []"

text \<open>
  The overloads for integers of 16 and 32 bits read one byte only: of a column that holds \<open>v\<close> they give
  its lowest byte with the sign of a \<^verbatim>\<open>char\<close>, 44 for 300.
\<close>

theorem wide_integers_lose_bytes:
  assumes "col_buffer c = le_bytes (Suc k) v @ rest"
  shows "value_int16 c = Ret (schar (char_of (v mod 256)))" "value_int32 c = Ret (schar (char_of (v mod 256)))"
  using assms by (simp_all add: value_int16_def value_int32_def front_def)

section \<open>One fetch\<close>

definition stored_in :: "stored \<Rightarrow> st_mysql_column \<Rightarrow> st_mysql_column" where
  "stored_in v c = c\<lparr>col_buffer := so_bytes v @ drop (length (so_bytes v)) (col_buffer c), col_length := so_length v, col_is_null := so_null v, col_error := so_error v\<rparr>"

lemma store_row_room:
  "list_all2 room vs cs \<Longrightarrow> store_row (map stored_value vs) cs = Ok (map2 (\<lambda>v c. stored_in (stored_value v) c) vs cs)"
  by (induction vs cs rule: list_all2_induct) (auto simp: store_column_def room_def stored_in_def)

lemma to_i64_mod:
  assumes "- 9223372036854775808 \<le> v" "v < 9223372036854775808"
  shows "to_i64 (v mod 18446744073709551616) = v"
proof -
  have "to_i64 (v mod 18446744073709551616) = to_i64 v" unfolding to_i64_def by (simp add: mod_add_left_eq)
  then show ?thesis using assms by simp
qed

definition widths :: "st_mysql_column list \<Rightarrow> nat list" where
  "widths cs = map (\<lambda>c. length (col_buffer c)) cs"

lemma widths_stored: "list_all2 room vs cs \<Longrightarrow> widths (map2 (\<lambda>v c. stored_in (stored_value v) c) vs cs) = widths cs"
  by (induction vs cs rule: list_all2_induct) (auto simp: widths_def stored_in_def room_def)

lemma column_reads:
  assumes "room v c" "i < rs_field_count rs" "i < length (rs_columns rs)" "rs_columns rs ! i = stored_in (stored_value v) c"
  shows "reads v i rs"
  using assms
  by (cases v) (auto simp: get_at_def is_null_at_def get_column_at_def stored_in_def value_int64_def value_uint64_def value_string_def bytes_at_front_def
    room_def le_value_le_bytes to_i64_mod mod_pos_pos_trivial)

text \<open>A result whose columns are the ones the library stores the rows of its statement in.\<close>

definition bound_result :: "('l, 'tm) dbconn \<Rightarrow> nat \<Rightarrow> result_obj \<Rightarrow> bool" where
  "bound_result s p rs \<longleftrightarrow> map_of (cn_results s) p = Some rs \<and> (rs_columns rs \<noteq> [] \<longrightarrow> cn_bound s (rs_stmt rs) = Some p) \<and>
     length (rs_columns rs) = rs_field_count rs"

lemma map_of_write_back: "map_of l p = Some x \<Longrightarrow> map_of (write_back p y l) p = Some y"
  unfolding write_back_def by (induction l) auto

lemma fetch_no_data:
  assumes "bound_result s p rs" "api_stmt_fetch api (rs_stmt rs) (cn_lib s) = ((MYSQL_NO_DATA, []), l)"
  shows "fetch_stmt_result api p s = Ok (Inr False, s\<lparr>cn_lib := l\<rparr>)"
  using assms by (simp add: bound_result_def fetch_stmt_result_def stmt_fetch_def andthen_def the_result_def lib_do_def give_def)

lemma fetch_row:
  assumes b: "bound_result s p rs" and f: "api_stmt_fetch api (rs_stmt rs) (cn_lib s) = ((Code 0, map stored_value vs), l)"
    and r: "list_all2 room vs (rs_columns rs)"
  obtains s' rs' where "fetch_stmt_result api p s = Ok (Inr True, s')" "the_result p s' = Ok (Inr rs', s')" "bound_result s' p rs'" "row_reads vs rs'"
    "cn_lib s' = l" "rs_stmt rs' = rs_stmt rs" "widths (rs_columns rs') = widths (rs_columns rs)"
proof -
  let ?rs = "rs\<lparr>rs_columns := map2 (\<lambda>v c. stored_in (stored_value v) c) vs (rs_columns rs)\<rparr>"
  let ?s = "put_result p ?rs (s\<lparr>cn_lib := l\<rparr>)"
  have len: "length vs = length (rs_columns rs)" using r by (rule list_all2_lengthD)
  have m: "map_of (cn_results ?s) p = Some ?rs" using b by (simp add: bound_result_def put_result_def map_of_write_back)
  have bufs: "widths (rs_columns ?rs) = widths (rs_columns rs)"
    using widths_stored [OF r] by simp
  show ?thesis
  proof (cases "vs = []")
    case True
    show ?thesis
      by (rule that [of "s\<lparr>cn_lib := l\<rparr>" rs]) (use True b f len in \<open>simp_all add: bound_result_def fetch_stmt_result_def stmt_fetch_def andthen_def the_result_def lib_do_def give_def row_reads_def\<close>)
  next
    case False
    then have "fetch_stmt_result api p s = Ok (Inr True, ?s)"
      using b f len store_row_room [OF r] by (auto simp: bound_result_def fetch_stmt_result_def stmt_fetch_def andthen_def the_result_def lib_do_def give_def)
    moreover have "bound_result ?s p ?rs" using b m len False by (auto simp: bound_result_def put_result_def)
    moreover have "reads (vs ! i) i ?rs" if "i < length vs" for i
      by (rule column_reads [of _ "rs_columns rs ! i"]) (use that len b r in \<open>auto simp: bound_result_def list_all2_conv_all_nth\<close>)
    ultimately show ?thesis using m bufs by (intro that [of ?s ?rs]) (auto simp: the_result_def row_reads_def put_result_def)
  qed
qed

section \<open>All rows\<close>

text \<open>The loop of a program over a result: \<^verbatim>\<open>while (rs->fetch())\<close>, with what it sees of the result in each round.\<close>

fun read_rows :: "nat \<Rightarrow> 'l mysql_api \<Rightarrow> nat \<Rightarrow> (('l, 'tm) dbconn, result_obj list) act" where
  "read_rows 0 api p = fault OutOfFuel"
| "read_rows (Suc n) api p = andthen (fetch_stmt_result api p) (\<lambda>b. if b then andthen (the_result p) (\<lambda>rs. andthen (read_rows n api p) (\<lambda>rss. give (rs # rss)))
     else give [])"

text \<open>The library delivers the rows of a statement and then no more.\<close>

fun delivers :: "'l mysql_api \<Rightarrow> nat \<Rightarrow> 'l \<Rightarrow> db_value list list \<Rightarrow> bool" where
  "delivers api h l [] \<longleftrightarrow> fst (api_stmt_fetch api h l) = (MYSQL_NO_DATA, [])"
| "delivers api h l (vs # rows) \<longleftrightarrow> fst (api_stmt_fetch api h l) = (Code 0, map stored_value vs) \<and> delivers api h (snd (api_stmt_fetch api h l)) rows"

definition fits :: "db_value list \<Rightarrow> nat list \<Rightarrow> bool" where
  "fits vs ns \<longleftrightarrow> list_all2 (\<lambda>v n. in_range v \<and> length (so_bytes (stored_value v)) \<le> n \<and> 0 < n) vs ns"

lemma fits_room: "fits vs (widths cs) \<Longrightarrow> list_all2 room vs cs"
  by (auto simp: fits_def widths_def list_all2_map2 room_def elim: list_all2_mono)

lemma read_rows_delivered:
  assumes "bound_result s p rs" "delivers api (rs_stmt rs) (cn_lib s) rows" "list_all (\<lambda>vs. fits vs (widths (rs_columns rs))) rows" "length rows < n"
  shows "\<exists>rss s'. read_rows n api p s = Ok (Inr rss, s') \<and> list_all2 row_reads rows rss"
  using assms
proof (induction rows arbitrary: s rs n)
  case Nil
  then obtain k where "n = Suc k" by (cases n) auto
  then show ?case using Nil fetch_no_data [OF Nil(1), of api "snd (api_stmt_fetch api (rs_stmt rs) (cn_lib s))"]
    by (auto simp: andthen_def give_def prod_eq_iff)
next
  case (Cons vs rows)
  then obtain k where n: "n = Suc k" by (cases n) auto
  let ?f = "api_stmt_fetch api (rs_stmt rs) (cn_lib s)"
  have f: "?f = ((Code 0, map stored_value vs), snd ?f)" using Cons.prems(2) by (metis delivers.simps(2) prod.collapse)
  have r: "list_all2 room vs (rs_columns rs)" by (rule fits_room) (use Cons.prems(3) in simp)
  obtain s' rs' where s': "fetch_stmt_result api p s = Ok (Inr True, s')" "the_result p s' = Ok (Inr rs', s')" "bound_result s' p rs'" "row_reads vs rs'"
    "cn_lib s' = snd ?f" "rs_stmt rs' = rs_stmt rs" "widths (rs_columns rs') = widths (rs_columns rs)"
    using fetch_row [OF Cons.prems(1) f r] .
  obtain rss s2 where "read_rows k api p s' = Ok (Inr rss, s2)" "list_all2 row_reads rows rss"
    using Cons.IH [OF s'(3), of k] Cons.prems n s' by auto
  then show ?case using s' by (auto simp: n andthen_def give_def)
qed


section \<open>The result of a query\<close>

lemma bind_result_shape:
  assumes "bind_result api p rs s = Ok (Inr (Inr b, rs'), s')"
  shows "b \<longrightarrow> length (rs_columns rs') = rs_field_count rs'" "rs_stmt rs' = rs_stmt rs" "b \<longrightarrow> cn_bound s' (rs_stmt rs) = Some p" "\<not> b \<longrightarrow> rs' = rs\<lparr>rs_field_count := 0\<rparr>"
  using assms
  by (auto simp: bind_result_def andthen_def lib_ask_def lib_do_def give_def fault_def Let_def split: prod.splits if_splits cpp.splits sum.splits)

lemma new_result_shape:
  assumes "new_result api p stmt s = Ok (Inr rs, s')"
  shows "rs_stmt rs = stmt" "rs_columns rs \<noteq> [] \<longrightarrow> cn_bound s' stmt = Some p" "length (rs_columns rs) = rs_field_count rs"
proof -
  obtain md a rs' s1 s2 where a: "bind_result api p \<lparr>rs_stmt = stmt, rs_metadata = md, rs_field_count = 0, rs_binds = [], rs_columns = []\<rparr> s1 = Ok (Inr (a, rs'), s2)"
    "(case a of Inl e \<Rightarrow> throw e | Inr _ \<Rightarrow> andthen (lib_do (api_stmt_store_result api stmt)) (\<lambda>r. if r \<noteq> 0 then throw_stmt_error api stmt else give rs')) s2 = Ok (Inr rs, s')"
    using assms by (auto simp: new_result_def andthen_eq_Inr on_throw_eq_Inr throw_stmt_error_def throw_def split: if_splits)
  then obtain b where b: "bind_result api p \<lparr>rs_stmt = stmt, rs_metadata = md, rs_field_count = 0, rs_binds = [], rs_columns = []\<rparr> s1 = Ok (Inr (Inr b, rs), s2)"
    "cn_bound s' = cn_bound s2"
    by (cases a) (auto simp: andthen_eq_Inr throw_stmt_error_def lib_do_def throw_def give_def split: if_splits prod.splits)
  show "rs_stmt rs = stmt" "rs_columns rs \<noteq> [] \<longrightarrow> cn_bound s' stmt = Some p" "length (rs_columns rs) = rs_field_count rs"
    using bind_result_shape [OF b(1)] b by (cases b; simp)+
qed

lemma query_bound:
  assumes s: "sound s" and q: "statement_query api q s = Ok (Inr p, s1)" and rs: "map_of (cn_results s1) p = Some rs"
  shows "bound_result s1 p rs"
proof -
  obtain st where st: "map_of (cn_statements s) q = Some st" using q by (cases "map_of (cn_statements s) q") (auto simp: statement_query_def andthen_def the_statement_def)
  then have "the_statement q s = Ok (Inr st, s)" by (simp add: the_statement_def)
  then have "andthen (bind_and_execute api st) (\<lambda>_. conn_query api (st_stmt st)) s = Ok (Inr p, s1)"
    using q by (simp add: statement_query_def andthen_given [of "the_statement q" s st s])
  then obtain s2 where b: "bind_and_execute api st s = Ok (Inr (), s2)" and c: "conn_query api (st_stmt st) s2 = Ok (Inr p, s1)"
    by (auto simp: andthen_eq_Inr)
  have "sound s2" using s b simple_operations_keep(1) [of api st] unfolding keeps_sound_def by blast
  let ?s = "s2\<lparr>cn_next := Suc (cn_next s2)\<rparr>"
  obtain rs' s3 where n: "new_result api (cn_next s2) (st_stmt st) ?s = Ok (Inr rs', s3)" and p: "p = cn_next s2" "s1 = s3\<lparr>cn_results := cn_results s3 @ [(p, rs')]\<rparr>"
    using c by (auto simp: conn_query_def andthen_eq_Inr Let_def)
  have "sound ?s" using \<open>sound s2\<close> by (simp add: sound_def owned_def addresses_ok_def)
  then have "cn_results s3 = cn_results s2" using new_result_spec [unfolded spec_def, rule_format, OF sound_held n] by (auto simp: held_def same_objects_def)
  moreover have "map_of (cn_results s2) p = None" using \<open>sound s2\<close> p(1) by (auto simp: sound_def addresses_ok_def addresses_below_def map_of_eq_None_iff)
  ultimately have "rs = rs'" using rs p(2) by (simp add: map_add_def)
  then show ?thesis using rs new_result_shape [OF n] p by (auto simp: bound_result_def)
qed



text \<open>A library with one query, of an integer and a text, and two rows.\<close>

definition rows_api :: "nat mysql_api" where
  "rows_api = demo_api\<lparr>api_stmt_field_count := \<lambda>_ _. 2,
     api_fetch_fields := \<lambda>_ _. [\<lparr>fd_name = ''id'', fd_type = MYSQL_TYPE_LONGLONG, fd_length = 8\<rparr>, \<lparr>fd_name = ''name'', fd_type = MYSQL_TYPE_STRING, fd_length = 4\<rparr>],
     api_stmt_fetch := \<lambda>_ l. if l = 3 then ((Code 0, map stored_value [Integer (-5), Text ''ab'']), 4)
       else if l = 4 then ((Code 0, map stored_value [Null_field, Text ''c'']), 5) else ((MYSQL_NO_DATA, []), l)\<rparr>"

definition rows_statement :: "(nat, unit) dbconn" where
  "rows_statement = demo_connection\<lparr>cn_lib := 2, cn_calls := [Acquire (Mysql 1), Acquire (Stmt 2)], cn_next := 2,
     cn_statements := [(1, \<lparr>st_stmt = 2, st_param_count = 1, st_bind_index = 0, st_binds = [new_bind], st_lengths = [0]\<rparr>)]\<rparr>"

definition rows_columns :: "st_mysql_column list" where
  "rows_columns =
     [\<lparr>col_type = MYSQL_TYPE_LONGLONG, col_name = (3, ''id''), col_buffer = replicate 8 NUL, col_length = 8, col_is_unsigned = False, col_is_null = 0, col_error = 0\<rparr>,
      \<lparr>col_type = MYSQL_TYPE_STRING, col_name = (3, ''name''), col_buffer = replicate 4 NUL, col_length = 4, col_is_unsigned = False, col_is_null = 0, col_error = 0\<rparr>]"

lemma rows_connection: "new_connection rows_api () ''db'' ''u'' ''p'' ''d'' 3306 ''utf8'' True 0 = Ok (Inr (), demo_connection)"
  by (simp add: rows_api_def new_connection_def demo_simps c_text_def)

lemma rows_prepared: "run_ops rows_api [Prepare ''q''] demo_connection = Ok rows_statement"
  by (simp add: rows_api_def caught_def rows_statement_def demo_simps)

lemma rows_query: "\<exists>s1 rs. statement_query rows_api 1 rows_statement = Ok (Inr 2, s1) \<and> map_of (cn_results s1) 2 = Some rs \<and> rs_stmt rs = 2 \<and> rs_columns rs = rows_columns \<and> cn_lib s1 = 3"
  by (simp add: rows_api_def rows_statement_def rows_columns_def demo_simps eval_nat_numeral)


end
