(* ===== verification/Config.thy ===== *)
theory Config
  imports Complex_Main Cpp_Prelude
begin

text \<open>
  The configuration, \<^verbatim>\<open>src/src/config.cpp\<close> and \<^verbatim>\<open>config.hpp\<close>: reading the sections of the JSON
  file into the fields the server, the sessions and the pools use. The JSON parser, the file
  system, \<^verbatim>\<open>strtod\<close> and \<^verbatim>\<open>lexical_cast<bool>\<close> are parameters. A hash map is the list of its
  entries with distinct keys; inserting an existing key leaves it as it is.
\<close>

datatype ptree = Node string "(string \<times> ptree) list"

fun get_value :: "ptree \<Rightarrow> string" where
  "get_value (Node v _) = v"

fun children :: "ptree \<Rightarrow> (string \<times> ptree) list" where
  "children (Node _ cs) = cs"

type_synonym 'v umap = "(string \<times> 'v) list"

definition umap_insert :: "'k \<Rightarrow> 'v \<Rightarrow> ('k \<times> 'v) list \<Rightarrow> ('k \<times> 'v) list" where
  "umap_insert k v m = (if map_of m k = None then m @ [(k, v)] else m)"

record config =
  address :: string
  log_level :: string
  log_rotation :: string
  locale_name :: string
  access_granted :: "string list"
  access_denied :: "string list"
  encrypt_key :: string
  sess_cookie :: string
  expiry_sec :: real
  update_sec :: real
  validate_ip :: bool
  validate_ua :: bool
  port :: string
  doc_root :: string
  num_threads :: nat
  compress :: bool
  ssl :: bool
  ssl_crt :: string
  ssl_key :: string
  cfg_map :: "string umap umap"
  err_map :: "(int \<times> string) list"

definition new_config :: config where
  "new_config = \<lparr>address = [], log_level = [], log_rotation = [], locale_name = [], access_granted = [], access_denied = [],
     encrypt_key = [], sess_cookie = [], expiry_sec = 0, update_sec = 0, validate_ip = False, validate_ua = False,
     port = [], doc_root = [], num_threads = 0, compress = False, ssl = False, ssl_crt = [], ssl_key = [], cfg_map = [], err_map = []\<rparr>"

text \<open>What is outside: files, the JSON parser and two conversions.\<close>

record outside =
  o_exists :: "string \<Rightarrow> bool"
  o_read_json :: "string \<Rightarrow> ptree cpp"
  o_strtod :: "string \<Rightarrow> real"
  o_lexical_bool :: "string \<Rightarrow> bool cpp"

definition strtoull :: "string \<Rightarrow> nat" where
  "strtoull s = (let v = strto (- 18446744073709551616) 18446744073709551616 s in
     if \<bar>v\<bar> = 18446744073709551616 then 18446744073709551615 else to_size v)"

section \<open>Reading the file\<close>

definition read_section :: "ptree \<Rightarrow> string umap" where
  "read_section t = fold (\<lambda>(k, v). umap_insert k (get_value v)) (children t) []"

definition read_sections :: "ptree \<Rightarrow> string umap umap \<Rightarrow> string umap umap" where
  "read_sections t m = fold (\<lambda>(k, v). umap_insert k (read_section v)) (children t) m"

text \<open>The loop over the keys a section must have; \<open>False\<close> is the early return.\<close>

fun read_keys :: "(string \<Rightarrow> string \<Rightarrow> 'a \<Rightarrow> 'a cpp) \<Rightarrow> string list \<Rightarrow> string umap \<Rightarrow> 'a \<Rightarrow> (bool \<times> 'a) cpp" where
  "read_keys assign [] sec c = Ret (True, c)"
| "read_keys assign (key # keys) sec c =
     (case map_of sec key of
        None \<Rightarrow> Ret (False, c)
      | Some v \<Rightarrow> xbind (assign key v c) (\<lambda>c. read_keys assign keys sec c))"

definition with_section :: "string \<Rightarrow> (string umap \<Rightarrow> config \<Rightarrow> (bool \<times> config) cpp) \<Rightarrow> config \<Rightarrow> (bool \<times> config) cpp" where
  "with_section name f c = (case map_of (cfg_map c) name of None \<Rightarrow> Ret (False, c) | Some sec \<Rightarrow> f sec c)"

definition log_key :: "string \<Rightarrow> string \<Rightarrow> config \<Rightarrow> config cpp" where
  "log_key key v c = Ret (if key = ''level'' then c\<lparr>log_level := v\<rparr> else if key = ''rotation'' then c\<lparr>log_rotation := v\<rparr> else c)"

definition error_key :: "string \<Rightarrow> string \<Rightarrow> config \<Rightarrow> config cpp" where
  "error_key key v c = Ret (if key = ''locale'' then c\<lparr>locale_name := v\<rparr> else c)"

definition session_key :: "outside \<Rightarrow> string \<Rightarrow> string \<Rightarrow> config \<Rightarrow> config cpp" where
  "session_key w key v c =
     (if key = ''encrypt_key'' then Ret (c\<lparr>encrypt_key := v\<rparr>)
      else if key = ''sess_cookie'' then Ret (c\<lparr>sess_cookie := v\<rparr>)
      else if key = ''expiry_sec'' then Ret (c\<lparr>expiry_sec := o_strtod w v\<rparr>)
      else if key = ''update_sec'' then Ret (c\<lparr>update_sec := o_strtod w v\<rparr>)
      else if key = ''validate_ip'' then xbind (o_lexical_bool w v) (\<lambda>b. Ret (c\<lparr>validate_ip := b\<rparr>))
      else if key = ''validate_ua'' then xbind (o_lexical_bool w v) (\<lambda>b. Ret (c\<lparr>validate_ua := b\<rparr>))
      else Ret c)"

definition server_key :: "outside \<Rightarrow> string \<Rightarrow> string \<Rightarrow> config \<Rightarrow> config cpp" where
  "server_key w key v c =
     (if key = ''port'' then Ret (c\<lparr>port := v\<rparr>)
      else if key = ''doc_root'' then
        (if v = [] then Undefined
         else Ret (c\<lparr>doc_root := (if last v \<noteq> CHR ''/'' then v @ ''/'' else v)\<rparr>))
      else if key = ''num_threads'' then Ret (c\<lparr>num_threads := strtoull v\<rparr>)
      else if key = ''compress'' then xbind (o_lexical_bool w v) (\<lambda>b. Ret (c\<lparr>compress := b\<rparr>))
      else if key = ''ssl'' then xbind (o_lexical_bool w v) (\<lambda>b. Ret (c\<lparr>ssl := b\<rparr>))
      else if key = ''ssl_crt'' then Ret (c\<lparr>ssl_crt := v\<rparr>)
      else if key = ''ssl_key'' then Ret (c\<lparr>ssl_key := v\<rparr>)
      else Ret c)"

definition session_keys :: "string list" where
  "session_keys = [''encrypt_key'', ''sess_cookie'', ''expiry_sec'', ''update_sec'', ''validate_ip'', ''validate_ua'']"

definition server_keys :: "string list" where
  "server_keys = [''port'', ''doc_root'', ''num_threads'', ''compress'', ''ssl'', ''ssl_crt'', ''ssl_key'']"

text \<open>The error messages; a code that occurs twice is refused.\<close>

fun read_errors :: "(string \<times> ptree) list \<Rightarrow> config \<Rightarrow> bool \<times> config" where
  "read_errors [] c = (True, c)"
| "read_errors ((k, v) # items) c =
     (let err_code = strtol k in
      if map_of (err_map c) err_code \<noteq> None then (False, c)
      else read_errors items (c\<lparr>err_map := err_map c @ [(err_code, get_value v)]\<rparr>))"

text \<open>Goes on only when the section before was complete.\<close>

definition and_then :: "(bool \<times> config) cpp \<Rightarrow> (config \<Rightarrow> (bool \<times> config) cpp) \<Rightarrow> (bool \<times> config) cpp" where
  "and_then m f = xbind m (\<lambda>(ok, c). if ok then f c else Ret (False, c))"

definition config_init :: "outside \<Rightarrow> string \<Rightarrow> string \<Rightarrow> config \<Rightarrow> (bool \<times> config) cpp" where
  "config_init w addr file c =
     (let c = c\<lparr>address := addr\<rparr> in
      if \<not> o_exists w file then Ret (False, c)
      else xbind (o_read_json w file) (\<lambda>t.
        let c = c\<lparr>cfg_map := read_sections t (cfg_map c)\<rparr> in
        and_then (with_section ''log'' (read_keys log_key [''level'', ''rotation'']) c) (\<lambda>c.
        and_then (with_section ''error'' (read_keys error_key [''locale'']) c) (\<lambda>c.
        and_then (with_section ''access_granted'' (\<lambda>s c. Ret (True, c\<lparr>access_granted := access_granted c @ map snd s\<rparr>)) c) (\<lambda>c.
        and_then (with_section ''access_denied'' (\<lambda>s c. Ret (True, c\<lparr>access_denied := access_denied c @ map snd s\<rparr>)) c) (\<lambda>c.
        and_then (with_section ''session'' (read_keys (session_key w) session_keys) c) (\<lambda>c.
        and_then (with_section ''server'' (read_keys (server_key w) server_keys) c) (\<lambda>c.
        let err_file = ''../err/'' @ locale_name c @ ''.json'' in
        if \<not> o_exists w err_file then Ret (False, c)
        else xbind (o_read_json w err_file) (\<lambda>t. Ret (read_errors (children t) c))))))))))"

definition config_get :: "string \<Rightarrow> config \<Rightarrow> string umap cpp" where
  "config_get item c = (case map_of (cfg_map c) item of None \<Rightarrow> Throw (RuntimeError ''config::get failed'') | Some s \<Rightarrow> Ret s)"

definition err_msg_text :: "int \<Rightarrow> config \<Rightarrow> string \<times> config" where
  "err_msg_text code c =
     (case map_of (err_map c) code of Some m \<Rightarrow> (m, c) | None \<Rightarrow> ([], c\<lparr>err_map := err_map c @ [(code, [])]\<rparr>))"

section \<open>A configuration that was read is complete\<close>

definition has_keys :: "string list \<Rightarrow> string umap option \<Rightarrow> bool" where
  "has_keys keys sec \<longleftrightarrow> (\<exists>s. sec = Some s \<and> (\<forall>k \<in> set keys. map_of s k \<noteq> None))"

definition complete :: "string umap umap \<Rightarrow> bool" where
  "complete m \<longleftrightarrow> has_keys [''level'', ''rotation''] (map_of m ''log'') \<and> has_keys [''locale''] (map_of m ''error'') \<and>
     has_keys [] (map_of m ''access_granted'') \<and> has_keys [] (map_of m ''access_denied'') \<and>
     has_keys session_keys (map_of m ''session'') \<and> has_keys server_keys (map_of m ''server'')"

lemma read_keys_present:
  "read_keys assign keys sec c = Ret (True, c') \<Longrightarrow> (\<And>k v c c'. assign k v c = Ret c' \<Longrightarrow> cfg_map c' = cfg_map c) \<Longrightarrow>
   (\<forall>k \<in> set keys. map_of sec k \<noteq> None) \<and> cfg_map c' = cfg_map c"
proof (induction keys arbitrary: c)
  case (Cons k keys)
  then obtain v c1 where v: "map_of sec k = Some v" "assign k v c = Ret c1" "read_keys assign keys sec c1 = Ret (True, c')"
    by (auto split: option.splits)
  then show ?case using Cons.IH [OF v(3) Cons.prems(2)] Cons.prems(2) [OF v(2)] by auto
qed simp

lemma keeps_cfg_map:
  "log_key k v c = Ret c' \<Longrightarrow> cfg_map c' = cfg_map c" "error_key k v c = Ret c' \<Longrightarrow> cfg_map c' = cfg_map c"
  "session_key w k v c = Ret c' \<Longrightarrow> cfg_map c' = cfg_map c" "server_key w k v c = Ret c' \<Longrightarrow> cfg_map c' = cfg_map c"
  by (auto simp: log_key_def error_key_def session_key_def server_key_def split: if_splits)

lemma with_keys:
  assumes "with_section name (read_keys assign keys) c = Ret (True, c')" "\<And>k v c c'. assign k v c = Ret c' \<Longrightarrow> cfg_map c' = cfg_map c"
  shows "has_keys keys (map_of (cfg_map c) name) \<and> cfg_map c' = cfg_map c"
  using assms read_keys_present [of assign keys _ c c'] by (auto simp: with_section_def has_keys_def split: option.splits)

lemma and_then_True: "and_then m f = Ret (True, c) \<longleftrightarrow> (\<exists>c1. m = Ret (True, c1) \<and> f c1 = Ret (True, c))"
  by (auto simp: and_then_def split: if_splits)

lemma read_errors_fields: "read_errors items c = (b, c') \<Longrightarrow> cfg_map c' = cfg_map c \<and> doc_root c' = doc_root c"
proof (induction items c rule: read_errors.induct)
  case (2 k v items c)
  then show ?case by (auto simp: Let_def split: if_splits)
qed simp

lemma read_keys_Cons_Ret:
  "read_keys assign (k # ks) sec c = Ret (True, c') \<longleftrightarrow>
   (\<exists>v c1. map_of sec k = Some v \<and> assign k v c = Ret c1 \<and> read_keys assign ks sec c1 = Ret (True, c'))"
  by (auto split: option.splits)

definition rooted :: "config \<Rightarrow> bool" where
  "rooted c \<longleftrightarrow> doc_root c \<noteq> [] \<and> last (doc_root c) = CHR ''/''"

lemma server_key_rooted:
  "server_key w k v c = Ret c' \<Longrightarrow> k = ''doc_root'' \<or> rooted c \<Longrightarrow> rooted c'"
  by (auto simp: server_key_def rooted_def split: if_splits)

lemma server_keys_rooted:
  "read_keys (server_key w) keys sec c = Ret (True, c') \<Longrightarrow> ''doc_root'' \<in> set keys \<or> rooted c \<Longrightarrow> rooted c'"
proof (induction keys arbitrary: c)
  case (Cons k keys)
  then obtain v c1 where s: "server_key w k v c = Ret c1" "read_keys (server_key w) keys sec c1 = Ret (True, c')"
    unfolding read_keys_Cons_Ret by blast
  show ?case using Cons.IH [OF s(2)] Cons.prems(2) server_key_rooted [OF s(1)] by auto
qed simp

lemma config_init_spec:
  assumes "config_init w addr file c = Ret (True, c')"
  shows "complete (cfg_map c') \<and> rooted c'"
proof -
  obtain t where t: "o_read_json w file = Ret t" using assms by (auto simp: config_init_def Let_def split: if_splits)
  let ?c = "c\<lparr>address := addr, cfg_map := read_sections t (cfg_map c)\<rparr>"
  obtain c1 c2 c3 c4 c5 c6 t2 where s:
    "with_section ''log'' (read_keys log_key [''level'', ''rotation'']) ?c = Ret (True, c1)"
    "with_section ''error'' (read_keys error_key [''locale'']) c1 = Ret (True, c2)"
    "with_section ''access_granted'' (\<lambda>s c. Ret (True, c\<lparr>access_granted := access_granted c @ map snd s\<rparr>)) c2 = Ret (True, c3)"
    "with_section ''access_denied'' (\<lambda>s c. Ret (True, c\<lparr>access_denied := access_denied c @ map snd s\<rparr>)) c3 = Ret (True, c4)"
    "with_section ''session'' (read_keys (session_key w) session_keys) c4 = Ret (True, c5)"
    "with_section ''server'' (read_keys (server_key w) server_keys) c5 = Ret (True, c6)"
    "read_errors (children t2) c6 = (True, c')"
    using assms t by (auto simp: config_init_def Let_def and_then_True split: if_splits)
  note k1 = with_keys [OF s(1) keeps_cfg_map(1)] note k2 = with_keys [OF s(2) keeps_cfg_map(2)]
  have k3: "has_keys [] (map_of (cfg_map c2) ''access_granted'') \<and> cfg_map c3 = cfg_map c2"
    using s(3) by (auto simp: with_section_def has_keys_def split: option.splits)
  have k4: "has_keys [] (map_of (cfg_map c3) ''access_denied'') \<and> cfg_map c4 = cfg_map c3"
    using s(4) by (auto simp: with_section_def has_keys_def split: option.splits)
  note k5 = with_keys [OF s(5) keeps_cfg_map(3)] note k6 = with_keys [OF s(6) keeps_cfg_map(4)]
  have "rooted c6"
    using s(6) server_keys_rooted [of w server_keys _ c5 c6] by (auto simp: with_section_def server_keys_def split: option.splits)
  then show ?thesis using k1 k2 k3 k4 k5 k6 read_errors_fields [OF s(7)] by (simp add: complete_def rooted_def)
qed

section \<open>Properties\<close>

text \<open>
  C24. When the configuration reports success, every section and key the server needs was in the
  file, and the document root is not empty and ends with a slash; a file in which one of them is
  missing never passes.
\<close>
theorem config_init_complete:
  assumes "config_init w addr file c = Ret (True, c')"
  shows "complete (cfg_map c') \<and> rooted c'"
  using assms by (rule config_init_spec)

definition sample_tree :: ptree where
  "sample_tree = (let leaf = (\<lambda>(k, v). (k, Node v [])); sec = (\<lambda>k items. (k, Node [] (map leaf items))) in
     Node [] [sec ''log'' [(''level'', ''info''), (''rotation'', ''daily'')], sec ''error'' [(''locale'', ''en_us'')],
       sec ''access_granted'' [], sec ''access_denied'' [],
       sec ''session'' (map (\<lambda>k. (k, ''1'')) session_keys), sec ''server'' (map (\<lambda>k. (k, ''1'')) server_keys)])"

definition sample_world :: outside where
  "sample_world = \<lparr>o_exists = (\<lambda>_. True), o_read_json = (\<lambda>f. Ret (if f = ''cfg'' then sample_tree else Node [] [])),
     o_strtod = (\<lambda>_. 1), o_lexical_bool = (\<lambda>_. Ret True)\<rparr>"

theorem config_init_complete_witness:
  "\<exists>c'. config_init sample_world ''0.0.0.0'' ''cfg'' new_config = Ret (True, c') \<and> complete (cfg_map c') \<and> rooted c'"
proof -
  have "read_sections sample_tree [] =
      [(''log'', [(''level'', ''info''), (''rotation'', ''daily'')]), (''error'', [(''locale'', ''en_us'')]),
       (''access_granted'', []), (''access_denied'', []), (''session'', map (\<lambda>k. (k, ''1'')) session_keys), (''server'', map (\<lambda>k. (k, ''1'')) server_keys)]"
    by (simp add: sample_tree_def read_sections_def read_section_def umap_insert_def session_keys_def server_keys_def)
  then have "\<exists>c'. config_init sample_world ''0.0.0.0'' ''cfg'' new_config = Ret (True, c')"
    by (simp add: config_init_def sample_world_def and_then_def with_section_def new_config_def log_key_def error_key_def
        session_keys_def session_key_def server_keys_def server_key_def)
  then show ?thesis using config_init_complete by blast
qed

end
