(* ===== verification/Pool.thy ===== *)
theory Pool
  imports Config
begin

text \<open>
  The pools of connections of \<^verbatim>\<open>src/src/dbconn_pool.cpp\<close> and \<^verbatim>\<open>redis_pool.cpp\<close> with the lock of
  \<^verbatim>\<open>spinlock.hpp\<close>, and the choice of a pool in \<^verbatim>\<open>database.cpp\<close>. Threads take and return connections
  in any interleaving: the code between two accesses to shared memory is one step. The two pools
  run the same code. A connection is named by a number, its address; making one may throw, and
  what a ping answers is left open.
\<close>

section \<open>Settings\<close>

definition strtoul :: "string \<Rightarrow> nat" where
  "strtoul s = (let v = strto (- 4294967296) 4294967296 s in
     if \<bar>v\<bar> = 4294967296 then 4294967295 else nat (v mod 4294967296))"

record pool_settings =
  ps_host :: string
  ps_userid :: string
  ps_passwd :: string
  ps_database :: string
  ps_port :: nat
  ps_charset :: string
  ps_pool_size :: nat
  ps_timeout :: real

definition new_pool_settings :: pool_settings where
  "new_pool_settings = \<lparr>ps_host = [], ps_userid = [], ps_passwd = [], ps_database = [], ps_port = 0, ps_charset = [],
     ps_pool_size = 0, ps_timeout = 0\<rparr>"

definition dbpool_key :: "(string \<Rightarrow> real) \<Rightarrow> string \<Rightarrow> string \<Rightarrow> pool_settings \<Rightarrow> pool_settings cpp" where
  "dbpool_key strtod key v p = Ret
     (if key = ''host'' then p\<lparr>ps_host := v\<rparr>
      else if key = ''userid'' then p\<lparr>ps_userid := v\<rparr>
      else if key = ''passwd'' then p\<lparr>ps_passwd := v\<rparr>
      else if key = ''database'' then p\<lparr>ps_database := v\<rparr>
      else if key = ''port'' then p\<lparr>ps_port := strtoul v\<rparr>
      else if key = ''charset'' then p\<lparr>ps_charset := v\<rparr>
      else if key = ''pool_size'' then p\<lparr>ps_pool_size := strtoull v\<rparr>
      else if key = ''wait_timeout_sec'' then p\<lparr>ps_timeout := strtod v\<rparr>
      else p)"

definition dbpool_keys :: "string list" where
  "dbpool_keys = [''host'', ''userid'', ''passwd'', ''database'', ''port'', ''charset'', ''pool_size'', ''wait_timeout_sec'']"

definition db_init_pool :: "(string \<Rightarrow> real) \<Rightarrow> string umap \<Rightarrow> pool_settings \<Rightarrow> (bool \<times> pool_settings) cpp" where
  "db_init_pool strtod cfg p = read_keys (dbpool_key strtod) dbpool_keys cfg p"

definition rdpool_key :: "(string \<Rightarrow> real) \<Rightarrow> string \<Rightarrow> string \<Rightarrow> pool_settings \<Rightarrow> pool_settings cpp" where
  "rdpool_key strtod key v p = Ret
     (if key = ''host'' then p\<lparr>ps_host := v\<rparr>
      else if key = ''port'' then p\<lparr>ps_port := strtoul v\<rparr>
      else if key = ''pool_size'' then p\<lparr>ps_pool_size := strtoull v\<rparr>
      else if key = ''timeout_sec'' then p\<lparr>ps_timeout := strtod v\<rparr>
      else p)"

definition rd_init_pool :: "(string \<Rightarrow> real) \<Rightarrow> string umap \<Rightarrow> pool_settings \<Rightarrow> (bool \<times> pool_settings) cpp" where
  "rd_init_pool strtod cfg p = read_keys (rdpool_key strtod) [''host'', ''port'', ''pool_size'', ''timeout_sec''] cfg p"

section \<open>The lock\<close>

datatype lock_state = locked | unlocked

text \<open>\<^verbatim>\<open>state_.exchange(locked)\<close>: the old value and the new one.\<close>

definition exchange_locked :: "lock_state \<Rightarrow> lock_state \<times> lock_state" where
  "exchange_locked l = (l, locked)"

definition store_unlocked :: "lock_state \<Rightarrow> lock_state" where
  "store_unlocked l = unlocked"

section \<open>Shared state and threads\<close>

text \<open>
  \<open>alive\<close> are the allocated connections and \<open>pooled\<close> those made for the pool; \<open>fault\<close> records an
  access to an empty vector or to a connection that was deleted.
\<close>

record shared =
  lock :: lock_state
  pool :: "nat list"
  alive :: "nat set"
  pooled :: "nat set"
  fresh_id :: nat
  fault :: bool

datatype pc = Out | G_lock | G_test | G_empty | G_back | G_pop nat | G_unlock nat | G_check nat | G_connect bool
  | R_start nat | R_lock nat | R_push nat | R_unlock

text \<open>\<open>held\<close> are the connections in the scoped objects of the thread.\<close>

record thread =
  pc :: pc
  held :: "nat list"

definition new_conn :: "bool \<Rightarrow> shared \<Rightarrow> shared" where
  "new_conn b s = s\<lparr>alive := insert (fresh_id s) (alive s), pooled := (if b then insert (fresh_id s) (pooled s) else pooled s),
     fresh_id := Suc (fresh_id s)\<rparr>"

definition delete_conn :: "nat \<Rightarrow> shared \<Rightarrow> shared" where
  "delete_conn c s = (if c \<in> alive s then s\<lparr>alive := alive s - {c}\<rparr> else s\<lparr>fault := True\<rparr>)"

section \<open>Filling the pool\<close>

text \<open>\<open>ping\<close> says for each connection whether making it throws and whether it answers.\<close>

fun fill_loop :: "(nat \<Rightarrow> bool cpp) \<Rightarrow> nat \<Rightarrow> shared \<Rightarrow> (bool \<times> shared) cpp" where
  "fill_loop ping 0 s = Ret (True, s)"
| "fill_loop ping (Suc n) s =
     xbind (ping (fresh_id s)) (\<lambda>ok.
       let c = fresh_id s; s = new_conn True s in
       if \<not> ok then Ret (False, delete_conn c s)
       else fill_loop ping n (s\<lparr>pool := pool s @ [c]\<rparr>))"

definition fill_pool :: "(nat \<Rightarrow> bool cpp) \<Rightarrow> pool_settings \<Rightarrow> shared \<Rightarrow> (bool \<times> shared) cpp" where
  "fill_pool ping p s = (if ps_pool_size p = 0 then Ret (False, s) else fill_loop ping (ps_pool_size p) s)"

definition new_shared :: shared where
  "new_shared = \<lparr>lock = unlocked, pool = [], alive = {}, pooled = {}, fresh_id = 0, fault = False\<rparr>"

section \<open>Taking and returning a connection\<close>

inductive pool_act :: "shared \<Rightarrow> thread \<Rightarrow> shared \<Rightarrow> thread \<Rightarrow> bool" where
  get_call: "pc th = Out \<Longrightarrow> pool_act s th s (th\<lparr>pc := G_lock\<rparr>)"
| get_spin: "pc th = G_lock \<Longrightarrow> fst (exchange_locked (lock s)) = locked \<Longrightarrow> pool_act s th (s\<lparr>lock := snd (exchange_locked (lock s))\<rparr>) th"
| get_acquire: "pc th = G_lock \<Longrightarrow> fst (exchange_locked (lock s)) \<noteq> locked \<Longrightarrow>
     pool_act s th (s\<lparr>lock := snd (exchange_locked (lock s))\<rparr>) (th\<lparr>pc := G_test\<rparr>)"
| get_test: "pc th = G_test \<Longrightarrow> pool_act s th s (th\<lparr>pc := (if pool s = [] then G_empty else G_back)\<rparr>)"
| get_empty: "pc th = G_empty \<Longrightarrow> pool_act s th (s\<lparr>lock := store_unlocked (lock s)\<rparr>) (th\<lparr>pc := G_connect False\<rparr>)"
| get_back: "pc th = G_back \<Longrightarrow> pool_act s th (s\<lparr>fault := (fault s \<or> pool s = [])\<rparr>) (th\<lparr>pc := G_pop (last (pool s))\<rparr>)"
| get_pop: "pc th = G_pop c \<Longrightarrow> pool_act s th (s\<lparr>fault := (fault s \<or> pool s = []), pool := butlast (pool s)\<rparr>) (th\<lparr>pc := G_unlock c\<rparr>)"
| get_unlock: "pc th = G_unlock c \<Longrightarrow> pool_act s th (s\<lparr>lock := store_unlocked (lock s)\<rparr>) (th\<lparr>pc := G_check c\<rparr>)"
| get_keep: "pc th = G_check c \<Longrightarrow> pool_act s th (s\<lparr>fault := (fault s \<or> c \<notin> alive s)\<rparr>) (th\<lparr>pc := Out, held := c # held th\<rparr>)"
| get_drop: "pc th = G_check c \<Longrightarrow> pool_act s th (delete_conn c s) (th\<lparr>pc := G_connect True\<rparr>)"
| get_connect: "pc th = G_connect b \<Longrightarrow> pool_act s th (new_conn b s) (th\<lparr>pc := Out, held := fresh_id s # held th\<rparr>)"
| get_throw: "pc th = G_connect b \<Longrightarrow> pool_act s th s (th\<lparr>pc := Out\<rparr>)"
| release_call: "pc th = Out \<Longrightarrow> c \<in> set (held th) \<Longrightarrow> pool_act s th s (th\<lparr>pc := R_start c, held := remove1 c (held th)\<rparr>)"
| release_delete: "pc th = R_start c \<Longrightarrow> c \<notin> pooled s \<Longrightarrow> pool_act s th (delete_conn c s) (th\<lparr>pc := Out\<rparr>)"
| release_mark: "pc th = R_start c \<Longrightarrow> c \<in> pooled s \<Longrightarrow> pool_act s th (s\<lparr>fault := (fault s \<or> c \<notin> alive s)\<rparr>) (th\<lparr>pc := R_lock c\<rparr>)"
| release_spin: "pc th = R_lock c \<Longrightarrow> fst (exchange_locked (lock s)) = locked \<Longrightarrow> pool_act s th (s\<lparr>lock := snd (exchange_locked (lock s))\<rparr>) th"
| release_acquire: "pc th = R_lock c \<Longrightarrow> fst (exchange_locked (lock s)) \<noteq> locked \<Longrightarrow>
     pool_act s th (s\<lparr>lock := snd (exchange_locked (lock s))\<rparr>) (th\<lparr>pc := R_push c\<rparr>)"
| release_push: "pc th = R_push c \<Longrightarrow> pool_act s th (s\<lparr>pool := pool s @ [c]\<rparr>) (th\<lparr>pc := R_unlock\<rparr>)"
| release_unlock: "pc th = R_unlock \<Longrightarrow> pool_act s th (s\<lparr>lock := store_unlocked (lock s)\<rparr>) (th\<lparr>pc := Out\<rparr>)"

text \<open>Any thread may take the next step.\<close>

inductive pool_step :: "shared \<times> (nat \<Rightarrow> thread) \<Rightarrow> shared \<times> (nat \<Rightarrow> thread) \<Rightarrow> bool" where
  pool_stepI: "pool_act s (ts t) s' th' \<Longrightarrow> pool_step (s, ts) (s', ts(t := th'))"

inductive reachable :: "shared \<Rightarrow> shared \<times> (nat \<Rightarrow> thread) \<Rightarrow> bool" for s0 where
  reachable_init: "reachable s0 (s0, \<lambda>_. \<lparr>pc = Out, held = []\<rparr>)"
| reachable_step: "reachable s0 st \<Longrightarrow> pool_step st st' \<Longrightarrow> reachable s0 st'"

inductive_cases pool_act_cases: "pool_act s th s' th'"
inductive_cases pool_step_cases: "pool_step (s, ts) st'"

section \<open>What a lock promises\<close>

locale try_lock =
  fixes attempt :: "'l \<Rightarrow> 'l \<times> 'l" and release :: "'l \<Rightarrow> 'l" and taken :: "'l \<Rightarrow> bool" and failed :: "'l \<Rightarrow> bool"
  assumes failed_iff: "failed (fst (attempt l)) \<longleftrightarrow> taken l"
    and try_takes: "taken (snd (attempt l))"
    and release_frees: "\<not> taken (release l)"
begin

lemma acquired_from_free: "\<not> failed (fst (attempt l)) \<Longrightarrow> \<not> taken l \<and> taken (snd (attempt l))"
  using failed_iff try_takes by blast

lemma spin_keeps: "failed (fst (attempt l)) \<Longrightarrow> taken l \<and> taken (snd (attempt l))"
  using failed_iff try_takes by blast

end

interpretation spin: try_lock exchange_locked store_unlocked "\<lambda>l. l = locked" "\<lambda>l. l = locked"
  by unfold_locales (simp_all add: exchange_locked_def store_unlocked_def)

section \<open>The invariant\<close>

fun pc_own :: "pc \<Rightarrow> nat list" where
  "pc_own (G_unlock c) = [c]"
| "pc_own (G_check c) = [c]"
| "pc_own (R_start c) = [c]"
| "pc_own (R_lock c) = [c]"
| "pc_own (R_push c) = [c]"
| "pc_own _ = []"

definition own :: "thread \<Rightarrow> nat list" where
  "own th = pc_own (pc th) @ held th"

fun crit_pc :: "pc \<Rightarrow> bool" where
  "crit_pc G_test = True"
| "crit_pc G_empty = True"
| "crit_pc G_back = True"
| "crit_pc (G_pop c) = True"
| "crit_pc (G_unlock c) = True"
| "crit_pc (R_push c) = True"
| "crit_pc R_unlock = True"
| "crit_pc _ = False"

abbreviation crit :: "thread \<Rightarrow> bool" where
  "crit th \<equiv> crit_pc (pc th)"

text \<open>What a program point says about the pool and the connection at hand.\<close>

fun pc_ok :: "shared \<Rightarrow> pc \<Rightarrow> bool" where
  "pc_ok s G_back \<longleftrightarrow> pool s \<noteq> []"
| "pc_ok s (G_pop c) \<longleftrightarrow> pool s \<noteq> [] \<and> c = last (pool s)"
| "pc_ok s (G_unlock c) \<longleftrightarrow> c \<in> pooled s"
| "pc_ok s (G_check c) \<longleftrightarrow> c \<in> pooled s"
| "pc_ok s (R_lock c) \<longleftrightarrow> c \<in> pooled s"
| "pc_ok s (R_push c) \<longleftrightarrow> c \<in> pooled s"
| "pc_ok s _ \<longleftrightarrow> True"

definition shared_ok :: "shared \<Rightarrow> bool" where
  "shared_ok s \<longleftrightarrow> \<not> fault s \<and> distinct (pool s) \<and> set (pool s) \<subseteq> alive s \<inter> pooled s \<and> alive s \<union> pooled s \<subseteq> {..< fresh_id s}"

definition thread_ok :: "shared \<Rightarrow> thread \<Rightarrow> bool" where
  "thread_ok s th \<longleftrightarrow> distinct (own th) \<and> set (own th) \<subseteq> alive s - set (pool s) \<and> pc_ok s (pc th) \<and> (crit th \<longrightarrow> lock s = locked)"

text \<open>What a step of one thread leaves to the others.\<close>

definition leaves :: "shared \<Rightarrow> thread \<Rightarrow> shared \<Rightarrow> thread \<Rightarrow> bool" where
  "leaves s th s' th' \<longleftrightarrow>
     set (own th') \<union> set (pool s') \<subseteq> set (own th) \<union> set (pool s) \<union> {fresh_id s} \<and>
     alive s - set (own th) \<subseteq> alive s' \<and> pooled s \<subseteq> pooled s' \<and>
     (\<not> crit th \<longrightarrow> pool s' = pool s \<and> (crit th' \<longrightarrow> lock s \<noteq> locked) \<and> (lock s = locked \<longrightarrow> lock s' = locked)) \<and>
     (\<not> crit th \<longrightarrow> \<not> crit th' \<longrightarrow> lock s' = lock s) \<and>
     (crit th' \<longrightarrow> lock s' = locked) \<and> (crit th \<longrightarrow> \<not> crit th' \<longrightarrow> lock s' \<noteq> locked)"

lemma butlast_facts:
  "xs \<noteq> [] \<Longrightarrow> distinct xs \<Longrightarrow> distinct (butlast xs)"
  "xs \<noteq> [] \<Longrightarrow> distinct xs \<Longrightarrow> last xs \<notin> set (butlast xs)"
  "xs \<noteq> [] \<Longrightarrow> last xs \<in> set xs"
  "set (butlast xs) \<subseteq> set xs"
  by (auto simp: distinct_butlast dest: in_set_butlastD) (metis append_butlast_last_id distinct_append disjoint_iff list.set_intros(1))

lemma act_ok:
  assumes "pool_act s th s' th'" "shared_ok s" "thread_ok s th"
  shows "shared_ok s' \<and> thread_ok s' th' \<and> leaves s th s' th'"
  using assms
proof cases
  case (get_pop c)
  have p: "pool s \<noteq> []" "c = last (pool s)" using assms(3) get_pop by (simp_all add: thread_ok_def)
  have "c \<notin> set (own th)" using p assms(3) by (auto simp: thread_ok_def)
  then show ?thesis using get_pop assms(2,3) butlast_facts(1,2,3) [OF p(1)] butlast_facts(4) [of "pool s"] p
    by (auto simp: shared_ok_def thread_ok_def leaves_def own_def)
next
  case (release_call c)
  then show ?thesis using assms(2,3) by (auto simp: shared_ok_def thread_ok_def leaves_def own_def dest: notin_set_remove1)
qed (auto simp: shared_ok_def thread_ok_def leaves_def own_def new_conn_def delete_conn_def spin.try_takes spin.release_frees
    dest: spin.acquired_from_free spin.spin_keeps split: if_splits)

fun pool_inv :: "shared \<times> (nat \<Rightarrow> thread) \<Rightarrow> bool" where
  "pool_inv (s, ts) \<longleftrightarrow> shared_ok s \<and> (\<forall>t. thread_ok s (ts t)) \<and>
     (\<forall>t u. t \<noteq> u \<longrightarrow> set (own (ts t)) \<inter> set (own (ts u)) = {} \<and> \<not> (crit (ts t) \<and> crit (ts u))) \<and>
     (lock s = locked \<longrightarrow> (\<exists>t. crit (ts t)))"

lemma pc_ok_leaves:
  assumes "pc_ok s (pc u)" "pooled s \<subseteq> pooled s'" "crit u \<longrightarrow> pool s' = pool s"
  shows "pc_ok s' (pc u)"
  using assms by (cases "pc u") auto

text \<open>A step of one thread does not disturb another.\<close>

lemma other_ok:
  assumes "leaves s th s' th'" "shared_ok s" "thread_ok s th" "thread_ok s u"
    "set (own th) \<inter> set (own u) = {}" "\<not> (crit th \<and> crit u)"
  shows "thread_ok s' u \<and> set (own th') \<inter> set (own u) = {} \<and> \<not> (crit th' \<and> crit u)"
proof -
  have u: "set (own u) \<subseteq> alive s - set (pool s)" "fresh_id s \<notin> set (own u)" "crit u \<longrightarrow> lock s = locked"
    using assms(2,4) by (auto simp: shared_ok_def thread_ok_def)
  have p: "crit u \<longrightarrow> pool s' = pool s \<and> lock s' = locked" using assms(1,6) u(3) by (auto simp: leaves_def)
  have l: "set (own th') \<union> set (pool s') \<subseteq> set (own th) \<union> set (pool s) \<union> {fresh_id s}" "alive s - set (own th) \<subseteq> alive s'"
    using assms(1) by (simp_all add: leaves_def)
  have "set (own u) \<inter> (set (own th) \<union> set (pool s) \<union> {fresh_id s}) = {}" using u(1,2) assms(5) by auto
  then have d: "\<forall>x \<in> set (own u). x \<notin> set (own th') \<union> set (pool s')" using l(1) by (meson disjoint_iff subsetD)
  have "set (own u) \<subseteq> alive s - set (own th)" using u(1) assms(5) by auto
  then have "set (own u) \<subseteq> alive s'" using l(2) by (rule order_trans)
  then have "set (own u) \<subseteq> alive s' - set (pool s')" "set (own th') \<inter> set (own u) = {}" using d by auto
  moreover have "\<not> (crit th' \<and> crit u)" using assms(1,6) u(3) by (auto simp: leaves_def)
  moreover have "pc_ok s' (pc u)" 
  proof (rule pc_ok_leaves)
    show "pc_ok s (pc u)" using assms(4) by (simp add: thread_ok_def)
    show "pooled s \<subseteq> pooled s'" using assms(1) by (simp add: leaves_def)
    show "crit u \<longrightarrow> pool s' = pool s" using p by simp
  qed
  ultimately show ?thesis using assms(4) p by (simp add: thread_ok_def)
qed

lemma pool_inv_step:
  assumes "pool_inv st" "pool_step st st'"
  shows "pool_inv st'"
  using assms(2)
proof cases
  case (pool_stepI s ts t s' th')
  have i: "shared_ok s" "\<And>u. thread_ok s (ts u)"
      "\<And>u v. u \<noteq> v \<Longrightarrow> set (own (ts u)) \<inter> set (own (ts v)) = {} \<and> \<not> (crit (ts u) \<and> crit (ts v))"
      "lock s = locked \<longrightarrow> (\<exists>u. crit (ts u))"
    using assms(1) pool_stepI(1) by auto
  have a: "shared_ok s'" "thread_ok s' th'" "leaves s (ts t) s' th'" using act_ok [OF pool_stepI(3) i(1,2)] by auto
  have o: "thread_ok s' (ts u) \<and> set (own th') \<inter> set (own (ts u)) = {} \<and> \<not> (crit th' \<and> crit (ts u))" if "u \<noteq> t" for u
    using other_ok [OF a(3) i(1) i(2) i(2)] i(3) that by blast
  have "\<exists>u. crit ((ts(t := th')) u)" if l: "lock s' = locked"
  proof (cases "crit th'")
    case False
    then have "\<not> crit (ts t)" "lock s = locked" using a(3) l by (auto simp: leaves_def)
    then obtain u where "crit (ts u)" "u \<noteq> t" using i(4) by blast
    then show ?thesis by (intro exI [of _ u]) simp
  qed (auto intro: exI [of _ t])
  then show ?thesis using a(1,2) o i(3) pool_stepI(2) by (auto simp: disjoint_iff)
qed

lemma pool_inv_init: "shared_ok s \<Longrightarrow> lock s = unlocked \<Longrightarrow> pool_inv (s, \<lambda>_. \<lparr>pc = Out, held = []\<rparr>)"
  by (simp add: thread_ok_def own_def)

lemma reachable_inv: "reachable s0 st \<Longrightarrow> shared_ok s0 \<Longrightarrow> lock s0 = unlocked \<Longrightarrow> pool_inv st"
proof (induction rule: reachable.induct)
  case reachable_init
  then show ?case by (rule pool_inv_init)
next
  case (reachable_step st st')
  then show ?case using pool_inv_step by blast
qed

section \<open>Capacity\<close>

definition slot :: "thread \<Rightarrow> nat" where
  "slot th = (if pc th = G_connect True then 1 else 0)"

lemma act_slots:
  assumes "pool_act s th s' th'" "shared_ok s" "thread_ok s th" "finite (alive s)"
  shows "finite (alive s') \<and> card (alive s' \<inter> pooled s') + slot th' \<le> card (alive s \<inter> pooled s) + slot th"
  using assms
proof cases
  case (get_drop c)
  then have c: "c \<in> alive s \<inter> pooled s" using assms(3) by (auto simp: thread_ok_def own_def)
  have "(alive s - {c}) \<inter> pooled s = alive s \<inter> pooled s - {c}" by auto
  then have "card ((alive s - {c}) \<inter> pooled s) = card (alive s \<inter> pooled s) - 1" using c by (simp only: card_Diff_singleton)
  moreover have "0 < card (alive s \<inter> pooled s)" using c assms(4) by (auto simp: card_gt_0_iff)
  ultimately show ?thesis using get_drop c assms(4) by (simp add: delete_conn_def slot_def)
next
  case (get_connect b)
  have "fresh_id s \<notin> alive s \<union> pooled s" using assms(2) by (auto simp: shared_ok_def)
  then show ?thesis using get_connect assms(4) by (cases b) (auto simp: new_conn_def slot_def Int_insert_right)
next
  case (release_delete c)
  then show ?thesis using assms(4) by (auto simp: delete_conn_def slot_def intro: card_mono)
qed (use assms(4) in \<open>auto simp: slot_def\<close>)

definition waiting :: "(nat \<Rightarrow> thread) \<Rightarrow> nat set" where
  "waiting ts = {t. pc (ts t) = G_connect True}"

lemma card_waiting:
  assumes "finite (waiting ts)"
  shows "finite (waiting (ts(t := th'))) \<and> card (waiting (ts(t := th'))) + slot (ts t) = card (waiting ts) + slot th'"
proof -
  have w: "waiting (ts(t := th')) = (if pc th' = G_connect True then insert t (waiting ts) else waiting ts - {t})"
    by (auto simp: waiting_def)
  have "t \<in> waiting ts \<longleftrightarrow> pc (ts t) = G_connect True" by (simp add: waiting_def)
  then show ?thesis unfolding w slot_def using assms card.remove [OF assms, of t] by (auto simp: insert_absorb)
qed

fun cap_inv :: "nat \<Rightarrow> shared \<times> (nat \<Rightarrow> thread) \<Rightarrow> bool" where
  "cap_inv n (s, ts) \<longleftrightarrow> finite (alive s) \<and> finite (waiting ts) \<and> card (alive s \<inter> pooled s) + card (waiting ts) \<le> n"

lemma cap_inv_step:
  assumes "pool_step st st'" "pool_inv st" "cap_inv n st"
  shows "cap_inv n st'"
  using assms(1)
proof cases
  case (pool_stepI s ts t s' th')
  have "finite (alive s') \<and> card (alive s' \<inter> pooled s') + slot th' \<le> card (alive s \<inter> pooled s) + slot (ts t)"
    using act_slots [OF pool_stepI(3)] assms(2,3) pool_stepI(1) by simp
  moreover have "finite (waiting (ts(t := th'))) \<and> card (waiting (ts(t := th'))) + slot (ts t) = card (waiting ts) + slot th'"
    using card_waiting assms(3) pool_stepI(1) by simp
  ultimately show ?thesis using assms(3) pool_stepI(1,2) by simp
qed

lemma reachable_cap:
  assumes "reachable s0 st" "shared_ok s0" "lock s0 = unlocked" "finite (alive s0)"
  shows "cap_inv (card (alive s0 \<inter> pooled s0)) st"
  using assms
proof (induction rule: reachable.induct)
  case reachable_init
  then show ?case by (simp add: waiting_def)
next
  case (reachable_step st st')
  then show ?case using cap_inv_step reachable_inv by blast
qed

lemma fill_loop_ok:
  assumes "fill_loop ping n s = Ret (True, s')" "shared_ok s" "alive s = set (pool s)" "pooled s = set (pool s)"
  shows "shared_ok s' \<and> lock s' = lock s \<and> alive s' = set (pool s') \<and> pooled s' = set (pool s') \<and> length (pool s') = length (pool s) + n"
  using assms
proof (induction n arbitrary: s)
  case (Suc n)
  let ?s = "new_conn True s" and ?c = "fresh_id s"
  have ok: "shared_ok (?s\<lparr>pool := pool ?s @ [?c]\<rparr>)" using Suc.prems by (auto simp: shared_ok_def new_conn_def)
  have "fill_loop ping n (?s\<lparr>pool := pool ?s @ [?c]\<rparr>) = Ret (True, s')" using Suc.prems(1) by (auto simp: Let_def split: if_splits)
  from Suc.IH [OF this ok] Suc.prems(3,4) show ?case by (simp add: new_conn_def insert_commute)
qed simp

lemma fill_pool_ok:
  assumes "fill_pool ping p new_shared = Ret (True, s)"
  shows "shared_ok s" "lock s = unlocked" "finite (alive s)" "card (alive s \<inter> pooled s) = ps_pool_size p"
proof -
  have f: "fill_loop ping (ps_pool_size p) new_shared = Ret (True, s)" using assms by (simp add: fill_pool_def split: if_splits)
  have "shared_ok new_shared" by (simp add: new_shared_def shared_ok_def)
  from fill_loop_ok [OF f this] have s: "shared_ok s" "lock s = unlocked" "alive s = set (pool s)" "pooled s = set (pool s)" "length (pool s) = ps_pool_size p"
    by (simp_all add: new_shared_def)
  moreover have "distinct (pool s)" using s(1) by (simp add: shared_ok_def)
  ultimately show "shared_ok s" "lock s = unlocked" "finite (alive s)" "card (alive s \<inter> pooled s) = ps_pool_size p"
    by (simp_all add: distinct_card)
qed

section \<open>Releasing the lock\<close>

definition frees :: "shared \<Rightarrow> thread \<Rightarrow> bool" where
  "frees s th \<longleftrightarrow> (\<exists>s' th'. (\<lambda>(s, th) (s', th'). pool_act s th s' th')\<^sup>+\<^sup>+ (s, th) (s', th') \<and> lock s' = unlocked)"

lemma frees_now: "pool_act s th s' th' \<Longrightarrow> lock s' = unlocked \<Longrightarrow> frees s th"
  unfolding frees_def by (intro exI conjI, rule tranclp.r_into_trancl) auto

lemma frees_later:
  assumes "pool_act s th s1 th1" "frees s1 th1"
  shows "frees s th"
proof -
  have "(\<lambda>(s, th) (s', th'). pool_act s th s' th') (s, th) (s1, th1)" using assms(1) by simp
  then show ?thesis using assms(2) unfolding frees_def by (meson tranclp_into_tranclp2)
qed

lemma unlocking_frees:
  "pc th = G_unlock c \<Longrightarrow> frees s th" "pc th = G_empty \<Longrightarrow> frees s th" "pc th = R_unlock \<Longrightarrow> frees s th"
  by (erule frees_now [OF get_unlock] frees_now [OF get_empty] frees_now [OF release_unlock], simp add: store_unlocked_def)+

lemma crit_frees: "crit th \<Longrightarrow> frees s th"
proof -
  have at_pop: "frees s th" if "pc th = G_pop c" for s th c
    by (rule frees_later [OF get_pop [OF that]], rule unlocking_frees(1)) simp
  have at_back: "frees s th" if "pc th = G_back" for s th
    by (rule frees_later [OF get_back [OF that]], rule at_pop) simp
  have at_test: "frees s th" if "pc th = G_test" for s th
    by (rule frees_later [OF get_test [OF that]], cases "pool s = []") (auto intro: unlocking_frees(2) at_back)
  have at_push: "frees s th" if "pc th = R_push c" for s th c
    by (rule frees_later [OF release_push [OF that]], rule unlocking_frees(3)) simp
  assume "crit th"
  then show ?thesis by (cases "pc th") (auto intro: at_test at_back at_pop at_push unlocking_frees)
qed

section \<open>Properties\<close>

text \<open>
  C11. Under every interleaving of any number of threads, no connection of a filled pool is handed
  out twice and none is used after it was deleted: no access of the pool code to a vector or a
  connection is invalid, the connections a thread holds are alive, not in the pool and not held
  by another thread, and never are two threads between the locking and the unlocking.
\<close>
theorem pool_exclusive:
  assumes "fill_pool ping p new_shared = Ret (True, s0)" "reachable s0 (s, ts)"
  shows "\<not> fault s \<and> (\<forall>t. distinct (held (ts t)) \<and> set (held (ts t)) \<subseteq> alive s - set (pool s)) \<and>
    (\<forall>t u. t \<noteq> u \<longrightarrow> set (held (ts t)) \<inter> set (held (ts u)) = {} \<and> \<not> (crit (ts t) \<and> crit (ts u)))"
proof -
  have "pool_inv (s, ts)" using reachable_inv [OF assms(2)] fill_pool_ok [OF assms(1)] by blast
  then have i: "shared_ok s" "\<And>t. thread_ok s (ts t)"
      "\<And>t u. t \<noteq> u \<Longrightarrow> set (own (ts t)) \<inter> set (own (ts u)) = {} \<and> \<not> (crit (ts t) \<and> crit (ts u))" by auto
  have "distinct (held (ts t)) \<and> set (held (ts t)) \<subseteq> alive s - set (pool s)" for t
    using i(2) [of t] by (auto simp: thread_ok_def own_def)
  moreover have "set (held (ts t)) \<inter> set (held (ts u)) = {}" if "t \<noteq> u" for t u
    using i(3) [OF that] by (auto simp: own_def)
  ultimately show ?thesis using i(1,3) by (auto simp: shared_ok_def)
qed

text \<open>
  C32. The pool stays within its size: however many threads take and return connections, and
  whichever of them are replaced, there are never more pooled connections than the configured
  number, in the pool or out of it.
\<close>
theorem pool_bounded:
  assumes "fill_pool ping p new_shared = Ret (True, s0)" "reachable s0 (s, ts)"
  shows "length (pool s) \<le> ps_pool_size p \<and> card (alive s \<inter> pooled s) \<le> ps_pool_size p"
proof -
  note ok = fill_pool_ok [OF assms(1)]
  have c: "finite (alive s)" "card (alive s \<inter> pooled s) \<le> ps_pool_size p"
    using reachable_cap [OF assms(2) ok(1,2,3)] ok(4) by auto
  have "shared_ok s" using reachable_inv [OF assms(2) ok(1,2)] by simp
  then have "length (pool s) = card (set (pool s))" "set (pool s) \<subseteq> alive s \<inter> pooled s"
    by (simp_all add: shared_ok_def distinct_card)
  then have "length (pool s) \<le> card (alive s \<inter> pooled s)" using c(1) by (simp add: card_mono)
  then show ?thesis using c(2) by simp
qed

text \<open>
  C33. The lock is always released: in every reachable state in which it is taken, exactly one
  thread is responsible, and that thread comes to a state with the lock free by its own steps,
  whatever the others do.
\<close>
theorem pool_lock_released:
  assumes "fill_pool ping p new_shared = Ret (True, s0)" "reachable s0 (s, ts)" "lock s = locked"
  shows "\<exists>!t. crit (ts t) \<and> frees s (ts t)"
proof -
  have "pool_inv (s, ts)" using reachable_inv [OF assms(2)] fill_pool_ok [OF assms(1)] by blast
  then have "\<exists>t. crit (ts t)" "\<And>t u. crit (ts t) \<Longrightarrow> crit (ts u) \<Longrightarrow> t = u" using assms(3) by auto
  then show ?thesis using crit_frees by blast
qed

definition sample_pool :: pool_settings where
  "sample_pool = new_pool_settings\<lparr>ps_pool_size := 2\<rparr>"

definition filled :: shared where
  "filled = \<lparr>lock = unlocked, pool = [0, 1], alive = {0, 1}, pooled = {0, 1}, fresh_id = 2, fault = False\<rparr>"

lemma filled_ok: "fill_pool (\<lambda>_. Ret True) sample_pool new_shared = Ret (True, filled)"
  by (simp add: fill_pool_def sample_pool_def new_pool_settings_def numeral_2_eq_2 new_conn_def new_shared_def filled_def insert_commute)

definition running :: "nat \<Rightarrow> thread" where
  "running = (\<lambda>_. \<lparr>pc = Out, held = []\<rparr>)(0 := \<lparr>pc = G_test, held = []\<rparr>)"

lemma running_reachable: "reachable filled (filled\<lparr>lock := locked\<rparr>, running)"
proof -
  let ?out = "\<lambda>_. \<lparr>pc = Out, held = []\<rparr>" and ?wait = "(\<lambda>_. \<lparr>pc = Out, held = []\<rparr>)(0 := \<lparr>pc = G_lock, held = []\<rparr>)"
  have "pool_act filled (?out 0) filled \<lparr>pc = G_lock, held = []\<rparr>" using get_call [of "?out 0" filled] by simp
  then have 1: "reachable filled (filled, ?wait)" using reachable_step [OF reachable_init] pool_stepI by metis
  have "pool_act filled (?wait 0) (filled\<lparr>lock := locked\<rparr>) \<lparr>pc = G_test, held = []\<rparr>"
    using get_acquire [of "?wait 0" filled] by (simp add: exchange_locked_def filled_def)
  from pool_stepI [of filled ?wait 0, OF this] show ?thesis
    using reachable_step [OF 1] by (metis fun_upd_upd running_def)
qed

theorem pool_exclusive_witness:
  "\<not> fault (filled\<lparr>lock := locked\<rparr>) \<and> \<not> (crit (running 0) \<and> crit (running 1)) \<and> set (held (running 0)) \<inter> set (held (running 1)) = {}"
proof -
  note x = pool_exclusive [OF filled_ok running_reachable]
  have "(0 :: nat) \<noteq> 1" by simp
  then show ?thesis using x by blast
qed

theorem pool_bounded_witness: "length (pool (filled\<lparr>lock := locked\<rparr>)) \<le> 2"
  using pool_bounded [OF filled_ok running_reachable] by (simp add: sample_pool_def)

theorem pool_lock_released_witness: "\<exists>!t. crit (running t) \<and> frees (filled\<lparr>lock := locked\<rparr>) (running t)"
  by (rule pool_lock_released [OF filled_ok running_reachable]) simp

end
