(* ===== verification/Database.thy ===== *)
theory Database
  imports Pool
begin

text \<open>
  The sets of pools of \<^verbatim>\<open>src/src/database.cpp\<close> and \<^verbatim>\<open>redis.cpp\<close>: reading the number of shards,
  setting up one filled pool per name, and choosing the pool of a shard key. The checksum of
  Boost, making a connection and \<^verbatim>\<open>strtod\<close> are parameters.
\<close>

record shard_set =
  shard_count :: nat
  shard_format :: string
  pools :: "(pool_settings \<times> shared) list"

definition new_shard_set :: shard_set where
  "new_shard_set = \<lparr>shard_count = 0, shard_format = [], pools = []\<rparr>"

definition shard_key :: "string \<Rightarrow> string \<Rightarrow> string \<Rightarrow> shard_set \<Rightarrow> shard_set cpp" where
  "shard_key pre key v d = Ret
     (if key = pre @ ''_shard_count'' then d\<lparr>shard_count := strtoul v\<rparr>
      else if key = pre @ ''_shard_format'' then d\<lparr>shard_format := v\<rparr>
      else d)"

text \<open>The loop over the names; the new pool is deleted when it cannot be set up.\<close>

fun add_pools :: "(string umap \<Rightarrow> pool_settings \<Rightarrow> (bool \<times> pool_settings) cpp) \<Rightarrow> (nat \<Rightarrow> bool cpp) \<Rightarrow> config \<Rightarrow>
    string list \<Rightarrow> shard_set \<Rightarrow> (bool \<times> shard_set) cpp" where
  "add_pools init_pool ping cfg [] d = Ret (True, d)"
| "add_pools init_pool ping cfg (n # ns) d =
     xbind (config_get n cfg) (\<lambda>sec.
     xbind (init_pool sec new_pool_settings) (\<lambda>(ok, p).
     if \<not> ok then Ret (False, d)
     else xbind (fill_pool ping p new_shared) (\<lambda>(ok, s).
       if \<not> ok then Ret (False, d)
       else add_pools init_pool ping cfg ns (d\<lparr>pools := pools d @ [(p, s)]\<rparr>))))"

definition shards_init :: "string \<Rightarrow> (string umap \<Rightarrow> pool_settings \<Rightarrow> (bool \<times> pool_settings) cpp) \<Rightarrow> (nat \<Rightarrow> bool cpp) \<Rightarrow> config \<Rightarrow>
    string list \<Rightarrow> shard_set \<Rightarrow> (bool \<times> shard_set) cpp" where
  "shards_init pre init_pool ping cfg names d =
     xbind (config_get (pre @ ''_shard'') cfg) (\<lambda>sec.
     xbind (read_keys (shard_key pre) [pre @ ''_shard_count'', pre @ ''_shard_format''] sec d) (\<lambda>(ok, d).
     if \<not> ok then Ret (False, d) else add_pools init_pool ping cfg names d))"

definition database_init :: "(string \<Rightarrow> real) \<Rightarrow> (nat \<Rightarrow> bool cpp) \<Rightarrow> config \<Rightarrow> string list \<Rightarrow> shard_set \<Rightarrow> (bool \<times> shard_set) cpp" where
  "database_init strtod ping cfg dbnames d = shards_init ''db'' (db_init_pool strtod) ping cfg dbnames d"

definition redis_init :: "(string \<Rightarrow> real) \<Rightarrow> (nat \<Rightarrow> bool cpp) \<Rightarrow> config \<Rightarrow> string list \<Rightarrow> shard_set \<Rightarrow> (bool \<times> shard_set) cpp" where
  "redis_init strtod ping cfg rdnames d = shards_init ''rd'' (rd_init_pool strtod) ping cfg rdnames d"

text \<open>The pool at a position; there is no check of the position, and none of a zero divisor.\<close>

definition pool_at :: "nat \<Rightarrow> shard_set \<Rightarrow> (pool_settings \<times> shared) cpp" where
  "pool_at i d = (if i < length (pools d) then Ret (pools d ! i) else Undefined)"

definition get_dbpool_key :: "nat \<Rightarrow> shard_set \<Rightarrow> (pool_settings \<times> shared) cpp" where
  "get_dbpool_key key d = (if shard_count d = 0 then Undefined else pool_at (key mod shard_count d) d)"

definition get_dbpool_text :: "(string \<Rightarrow> nat) \<Rightarrow> string \<Rightarrow> shard_set \<Rightarrow> (pool_settings \<times> shared) cpp" where
  "get_dbpool_text crc32 key d = (if shard_count d = 0 then Undefined else pool_at (crc32 key mod shard_count d) d)"

section \<open>Every key has a filled pool\<close>

lemma add_pools_ok:
  assumes "add_pools ip ping cfg names d = Ret (True, d')"
  shows "shard_count d' = shard_count d \<and> (\<exists>ps. pools d' = pools d @ ps \<and> length ps = length names \<and>
    (\<forall>(p, s) \<in> set ps. fill_pool ping p new_shared = Ret (True, s)))"
  using assms
proof (induction names arbitrary: d)
  case (Cons n ns)
  then obtain sec p s where e: "config_get n cfg = Ret sec" "ip sec new_pool_settings = Ret (True, p)" "fill_pool ping p new_shared = Ret (True, s)"
      "add_pools ip ping cfg ns (d\<lparr>pools := pools d @ [(p, s)]\<rparr>) = Ret (True, d')"
    by (auto split: if_splits)
  then obtain ps where "shard_count d' = shard_count d" "pools d' = pools d @ [(p, s)] @ ps" "length ps = length ns"
      "\<forall>(p, s) \<in> set ps. fill_pool ping p new_shared = Ret (True, s)" using Cons.IH [OF e(4)] by auto
  then show ?case using e(3) by (auto intro!: exI [of _ "(p, s) # ps"])
qed simp

lemma shards_init_ok:
  assumes "shards_init pre ip ping cfg names new_shard_set = Ret (True, d)"
  shows "length (pools d) = length names" "\<forall>(p, s) \<in> set (pools d). fill_pool ping p new_shared = Ret (True, s)"
proof -
  obtain sec d1 where d1: "read_keys (shard_key pre) [pre @ ''_shard_count'', pre @ ''_shard_format''] sec new_shard_set = Ret (True, d1)"
      "add_pools ip ping cfg names d1 = Ret (True, d)"
    using assms by (auto simp: shards_init_def split: if_splits)
  have "pools d1 = []" using d1(1) by (auto simp: shard_key_def new_shard_set_def split: option.splits)
  then show "length (pools d) = length names" "\<forall>(p, s) \<in> set (pools d). fill_pool ping p new_shared = Ret (True, s)"
    using add_pools_ok [OF d1(2)] by auto
qed

text \<open>
  After a successful set-up with a number of shards that is not zero and not larger than the
  number of names, every shard key, as a number or a text, selects a pool that was completely filled.
\<close>
lemma database_shard_total:
  assumes "database_init strtod ping cfg dbnames new_shard_set = Ret (True, d)" "0 < shard_count d" "shard_count d \<le> length dbnames"
  shows "\<exists>p s. get_dbpool_key key d = Ret (p, s) \<and> fill_pool ping p new_shared = Ret (True, s)"
    and "\<exists>p s. get_dbpool_text crc32 text d = Ret (p, s) \<and> fill_pool ping p new_shared = Ret (True, s)"
proof -
  note ok = shards_init_ok [OF assms(1) [unfolded database_init_def]]
  have at: "\<exists>p s. pool_at (k mod shard_count d) d = Ret (p, s) \<and> fill_pool ping p new_shared = Ret (True, s)" for k
  proof -
    have "k mod shard_count d < length (pools d)" using assms(2,3) ok(1) mod_less_divisor [of "shard_count d" k] by linarith
    then show ?thesis using ok(2) nth_mem [of "k mod shard_count d" "pools d"]
      by (cases "pools d ! (k mod shard_count d)") (auto simp: pool_at_def)
  qed
  show "\<exists>p s. get_dbpool_key key d = Ret (p, s) \<and> fill_pool ping p new_shared = Ret (True, s)"
    "\<exists>p s. get_dbpool_text crc32 text d = Ret (p, s) \<and> fill_pool ping p new_shared = Ret (True, s)"
    using at assms(2) by (simp_all add: get_dbpool_key_def get_dbpool_text_def)
qed

end
