(* ===== verification/Scoped.thy ===== *)
theory Scoped
  imports Mysqlpp_Handles Database
begin

text \<open>
  The objects \<^verbatim>\<open>scoped_db\<close> of \<^verbatim>\<open>src/src/database.cpp\<close>, where the pool of connections and the
  MySQL wrapper meet: a scoped object takes a connection from the pool, the thread works with it,
  and the destructor clears it and gives it back. Connections come back to the pool without
  statements and results, whichever threads run and however they are interleaved, and when the pool is
  destroyed every handle of the MySQL library has been released.
\<close>

section \<open>The connections of a pool\<close>

text \<open>
  What an action of the pool does to the connection objects: \<open>made\<close> is the result of \<^verbatim>\<open>new connection\<close>,
  \<^verbatim>\<open>delete\<close> runs the destructor, the destructor of a scoped object clears its connection before it
  releases it, and the time of the release is noted.
\<close>

definition conn_effect :: "'l mysql_api \<Rightarrow> ('l, 'tm) dbconn \<Rightarrow> 'tm \<Rightarrow> shared \<Rightarrow> thread \<Rightarrow> shared \<Rightarrow> thread \<Rightarrow> (nat \<Rightarrow> ('l, 'tm) dbconn) \<Rightarrow> nat \<Rightarrow> ('l, 'tm) dbconn" where
  "conn_effect api made now s th s' th' cs c =
     (if c \<in> alive s' - alive s then made
      else if c \<in> alive s - alive s' then delete_connection api (cs c)
      else if pc th' = R_start c then clear api (cs c)
      else if pc th = R_start c \<and> pc th' = R_lock c then (cs c)\<lparr>cn_released := now\<rparr>
      else cs c)"

text \<open>
  A step of some thread: an action of the pool, a call on a connection of one of its scoped objects, or
  the \<^verbatim>\<open>ping\<close> of \<^verbatim>\<open>get_dbconn\<close>. Each connection has its part of the state of the library.
\<close>

inductive scoped_step :: "'l mysql_api \<Rightarrow> pool_settings \<Rightarrow> shared \<times> (nat \<Rightarrow> thread) \<times> (nat \<Rightarrow> ('l, 'tm) dbconn) \<Rightarrow>
    shared \<times> (nat \<Rightarrow> thread) \<times> (nat \<Rightarrow> ('l, 'tm) dbconn) \<Rightarrow> bool" for api settings where
  scoped_pool: "pool_act s (ts t) s' th' \<Longrightarrow>
     new_connection api now (ps_host settings) (ps_userid settings) (ps_passwd settings) (ps_database settings) (ps_port settings) (ps_charset settings)
       (fresh_id s \<in> pooled s') l = Ok (Inr (), made) \<Longrightarrow>
     scoped_step api settings (s, ts, cs) (s', ts(t := th'), conn_effect api made now s (ts t) s' th' cs)"
| scoped_use: "pc (ts t) = Out \<Longrightarrow> c \<in> set (Pool.held (ts t)) \<Longrightarrow> run_op api x (cs c) = Ok d \<Longrightarrow> scoped_step api settings (s, ts, cs) (s, ts, cs(c := d))"
| scoped_ping: "pc (ts t) = G_check c \<Longrightarrow> run_op api Ping (cs c) = Ok d \<Longrightarrow> scoped_step api settings (s, ts, cs) (s, ts, cs(c := d))"

inductive scoped_reachable :: "'l mysql_api \<Rightarrow> pool_settings \<Rightarrow> shared \<Rightarrow> (nat \<Rightarrow> ('l, 'tm) dbconn) \<Rightarrow>
    shared \<times> (nat \<Rightarrow> thread) \<times> (nat \<Rightarrow> ('l, 'tm) dbconn) \<Rightarrow> bool" for api settings s0 cs0 where
  scoped_init: "scoped_reachable api settings s0 cs0 (s0, \<lambda>_. \<lparr>pc = Out, held = []\<rparr>, cs0)"
| scoped_more: "scoped_reachable api settings s0 cs0 st \<Longrightarrow> scoped_step api settings st st' \<Longrightarrow> scoped_reachable api settings s0 cs0 st'"

text \<open>\<^verbatim>\<open>dbconn_pool::~dbconn_pool\<close> deletes the connections in the pool.\<close>

definition delete_pool :: "'l mysql_api \<Rightarrow> shared \<Rightarrow> (nat \<Rightarrow> ('l, 'tm) dbconn) \<Rightarrow> nat \<Rightarrow> ('l, 'tm) dbconn" where
  "delete_pool api s cs = fold (\<lambda>c cs. cs(c := delete_connection api (cs c))) (pool s) cs"

section \<open>Clean connections\<close>

definition clean :: "('l, 'tm) dbconn \<Rightarrow> bool" where
  "clean d \<longleftrightarrow> sound d \<and> cn_statements d = [] \<and> cn_results d = []"

definition freed :: "('l, 'tm) dbconn \<Rightarrow> bool" where
  "freed d \<longleftrightarrow> replay (cn_calls d) {#} = Some {#}"

lemma clean_clear: "sound d \<Longrightarrow> clean (clear api d)"
  using clear_held [of d api] by (simp add: clean_def clear_sound Mysqlpp_Handles.held_def same_objects_def)

lemma clean_facts [simp]:
  "clean d \<Longrightarrow> sound d" "sound d \<Longrightarrow> freed (delete_connection api d)" "clean (d\<lparr>cn_released := now\<rparr>) = clean d" "sound (d\<lparr>cn_released := now\<rparr>) = sound d"
  by (simp_all add: clean_def freed_def delete_connection_frees sound_def owned_def addresses_ok_def)

lemma clean_new: "new_connection api now host userid passwd db prt cset b l = Ok (Inr (), d) \<Longrightarrow> clean d"
  using new_connection_replay [of api now host userid passwd db prt cset b l "Inr ()" d]
  by (auto simp: clean_def new_connection_def acquire_def andthen_def on_throw_def lib_do_def lib_ask_def throw_def give_def release_def split: prod.splits if_splits sum.splits)

lemma clean_ping:
  assumes "clean d" "run_op api Ping d = Ok d'"
  shows "clean d'"
proof -
  have "sound d'" using assms run_op_sound clean_facts(1) by blast
  moreover have "\<exists>l. d' = d\<lparr>cn_lib := l\<rparr>"
    using assms(2) by (auto simp: caught_def ping_def andthen_def lib_do_def give_def split: prod.splits)
  ultimately show ?thesis using assms(1) by (auto simp: clean_def)
qed

section \<open>The invariant\<close>

lemma pool_inv_facts:
  assumes "pool_inv (s, ts)"
  shows "shared_ok s" "thread_ok s (ts t)" "t \<noteq> u \<Longrightarrow> set (own (ts t)) \<inter> set (own (ts u)) = {}"
  using assms by auto

text \<open>What holds of the objects of a pool and one thread, and what a step of the thread does to them.\<close>

definition objects_ok :: "('o \<Rightarrow> bool) \<Rightarrow> ('o \<Rightarrow> bool) \<Rightarrow> ('o \<Rightarrow> bool) \<Rightarrow> shared \<Rightarrow> thread \<Rightarrow> (nat \<Rightarrow> 'o) \<Rightarrow> bool" where
  "objects_ok live tidy gone s th os \<longleftrightarrow> (\<forall>c \<in> alive s. live (os c)) \<and> (\<forall>c \<in> set (pool s) \<union> set (pc_own (pc th)). tidy (os c)) \<and>
     (\<forall>c. c \<notin> alive s \<longrightarrow> c < fresh_id s \<longrightarrow> gone (os c))"

definition object_effect :: "('o \<Rightarrow> 'o) \<Rightarrow> ('o \<Rightarrow> 'o) \<Rightarrow> ('o \<Rightarrow> 'o) \<Rightarrow> 'o \<Rightarrow> shared \<Rightarrow> thread \<Rightarrow> shared \<Rightarrow> thread \<Rightarrow> (nat \<Rightarrow> 'o) \<Rightarrow> nat \<Rightarrow> 'o" where
  "object_effect tidied destroyed stamped made s th s' th' os c =
     (if c \<in> alive s' - alive s then made
      else if c \<in> alive s - alive s' then destroyed (os c)
      else if pc th' = R_start c then tidied (os c)
      else if pc th = R_start c \<and> pc th' = R_lock c then stamped (os c)
      else os c)"

lemma object_frame:
  assumes "pool_act s th s' th'" "shared_ok s" "thread_ok s th" "c \<notin> set (own th)" "c \<noteq> fresh_id s"
  shows "object_effect tidied destroyed stamped made s th s' th' os c = os c"
  using assms by (cases; auto simp: object_effect_def own_def new_conn_def delete_conn_def thread_ok_def split: if_splits)

text \<open>
  What the pool asks of the objects it keeps: a live one can be made tidy and can be destroyed, after
  which it is gone, and noting the time of its release changes neither.
\<close>

locale pooled_object =
  fixes live tidy gone :: "'o \<Rightarrow> bool" and tidied destroyed stamped :: "'o \<Rightarrow> 'o"
  assumes tidy_live: "tidy d \<Longrightarrow> live d"
    and tidied_tidy: "live d \<Longrightarrow> tidy (tidied d)"
    and destroyed_gone: "live d \<Longrightarrow> gone (destroyed d)"
    and stamped_same: "tidy (stamped d) = tidy d" "live (stamped d) = live d"
begin

lemmas laws = tidy_live tidied_tidy destroyed_gone stamped_same

lemma act_objects:
  assumes "pool_act s th s' th'" "shared_ok s" "thread_ok s th" "objects_ok live tidy gone s th os" "tidy made"
  shows "objects_ok live tidy gone s' th' (object_effect tidied destroyed stamped made s th s' th' os)"
  using assms
proof cases
  case (release_call c)
  then show ?thesis using assms(2-5) by (auto simp: objects_ok_def object_effect_def shared_ok_def thread_ok_def own_def laws)
qed (auto simp: objects_ok_def object_effect_def shared_ok_def thread_ok_def own_def new_conn_def delete_conn_def laws dest: in_set_butlastD split: if_splits)

text \<open>The other threads keep what they have.\<close>

lemma other_objects:
  assumes "pool_act s th s' th'" "shared_ok s" "thread_ok s th" "objects_ok live tidy gone s th os" "tidy made"
    and u: "thread_ok s u" "set (own th) \<inter> set (own u) = {}" "objects_ok live tidy gone s u os"
  shows "objects_ok live tidy gone s' u (object_effect tidied destroyed stamped made s th s' th' os)"
proof -
  have "tidy (object_effect tidied destroyed stamped made s th s' th' os c)" if c: "c \<in> set (pc_own (pc u))" for c
  proof -
    have "c \<notin> set (own th)" "c \<noteq> fresh_id s" using c u(1,2) assms(2) by (auto simp: own_def thread_ok_def shared_ok_def)
    then show ?thesis using u(3) c by (simp add: objects_ok_def object_frame [OF assms(1-3)])
  qed
  then show ?thesis using act_objects [OF assms(1-5)] by (auto simp: objects_ok_def)
qed

text \<open>An object in the hands of a thread may change as long as it stays live.\<close>

lemma used_objects:
  assumes "pool_inv (s, ts)" "\<forall>t. objects_ok live tidy gone s (ts t) os" "c \<in> set (Pool.held (ts t))" "live d"
  shows "objects_ok live tidy gone s (ts u) (os(c := d))"
proof -
  have c: "c \<in> alive s" "c \<notin> set (pool s)" "c \<notin> set (pc_own (pc (ts t)))"
    using pool_inv_facts(2) [OF assms(1), of t] assms(3) by (auto simp: thread_ok_def own_def)
  have "c \<notin> set (pc_own (pc (ts u)))"
  proof (cases "u = t")
    case False
    then show ?thesis using pool_inv_facts(3) [OF assms(1), of t u] assms(3) by (auto simp: own_def)
  qed (use c in simp)
  then show ?thesis using c assms(2,4) by (auto simp: objects_ok_def)
qed

end

text \<open>The connections of the MySQL wrapper keep the contract.\<close>

interpretation mysql: pooled_object sound clean freed "clear api" "delete_connection api" "\<lambda>d. d\<lparr>cn_released := now\<rparr>" for api now
  by unfold_locales (simp_all add: clean_clear)

abbreviation conns_ok :: "shared \<Rightarrow> thread \<Rightarrow> (nat \<Rightarrow> ('l, 'tm) dbconn) \<Rightarrow> bool" where
  "conns_ok \<equiv> objects_ok sound clean freed"

lemma conn_effect_object: "conn_effect api made now = object_effect (clear api) (delete_connection api) (\<lambda>d. d\<lparr>cn_released := now\<rparr>) made"
  by (intro ext) (simp add: conn_effect_def object_effect_def)

lemma act_accounts:
  assumes "pool_act s th s' th'" "shared_ok s" "thread_ok s th" "alive s \<subseteq> set (pool s) \<union> set (own th) \<union> X"
  shows "alive s' \<subseteq> set (pool s') \<union> set (own th') \<union> X"
  using assms
proof cases
  case (get_pop c)
  have p: "pool s \<noteq> []" "c = last (pool s)" using assms(3) get_pop by (simp_all add: thread_ok_def)
  then have "set (pool s) = insert c (set (butlast (pool s)))" by (metis append_butlast_last_id set_append list.set(1,2) Un_insert_right sup_bot_right)
  then show ?thesis using get_pop assms(4) by (auto simp: own_def)
qed (auto simp: own_def new_conn_def delete_conn_def split: if_splits)


definition scoped_inv :: "shared \<times> (nat \<Rightarrow> thread) \<times> (nat \<Rightarrow> ('l, 'tm) dbconn) \<Rightarrow> bool" where
  "scoped_inv = (\<lambda>(s, ts, cs). pool_inv (s, ts) \<and> (\<forall>t. conns_ok s (ts t) cs) \<and> alive s \<subseteq> set (pool s) \<union> (\<Union>t. set (own (ts t))))"

lemma scoped_inv_step:
  assumes "scoped_inv st" "scoped_step api settings st st'"
  shows "scoped_inv st'"
  using assms(2)
proof cases
  case (scoped_pool s ts t s' th' now l made cs)
  have p: "pool_inv (s, ts)" and k: "\<And>t. conns_ok s (ts t) cs" and al: "alive s \<subseteq> set (pool s) \<union> (\<Union>t. set (own (ts t)))"
    using assms(1) scoped_pool(1) by (auto simp: scoped_inv_def)
  note f = pool_inv_facts [OF p]
  let ?cs = "conn_effect api made now s (ts t) s' th' cs"
  have k': "conns_ok s' th' ?cs"
    using mysql.act_objects [OF scoped_pool(3) f(1,2) k clean_new [OF scoped_pool(4)]] by (simp add: conn_effect_object)
  have ku: "conns_ok s' (ts u) ?cs" if "u \<noteq> t" for u
    using mysql.other_objects [OF scoped_pool(3) f(1,2) k clean_new [OF scoped_pool(4)] f(2) f(3) k] that by (simp add: conn_effect_object)
  have "alive s' \<subseteq> set (pool s') \<union> set (own th') \<union> (\<Union>u \<in> - {t}. set (own (ts u)))"
    using al by (intro act_accounts [OF scoped_pool(3) f(1,2)]) auto
  moreover have "set (own th') \<union> (\<Union>u \<in> - {t}. set (own (ts u))) \<subseteq> (\<Union>u. set (own ((ts(t := th')) u)))"
    by (auto intro: exI [of _ t] simp: fun_upd_def)
  ultimately have "alive s' \<subseteq> set (pool s') \<union> (\<Union>u. set (own ((ts(t := th')) u)))" by blast
  moreover have "pool_inv (s', ts(t := th'))" using pool_inv_step [OF p] pool_stepI [of s ts t, OF scoped_pool(3)] by blast
  ultimately show ?thesis using ku k' scoped_pool(2) by (simp add: scoped_inv_def)
next
  case (scoped_use ts t c x cs d s)
  have p: "pool_inv (s, ts)" and k: "\<forall>t. conns_ok s (ts t) cs" and al: "alive s \<subseteq> set (pool s) \<union> (\<Union>t. set (own (ts t)))"
    using assms(1) scoped_use(1) by (auto simp: scoped_inv_def)
  have "c \<in> alive s" using pool_inv_facts(2) [OF p, of t] scoped_use(4) by (auto simp: thread_ok_def own_def)
  then have "sound d" using k run_op_sound [OF scoped_use(5)] by (auto simp: objects_ok_def)
  then show ?thesis using mysql.used_objects [OF p k scoped_use(4)] p al scoped_use(2) by (simp add: scoped_inv_def)
next
  case (scoped_ping ts t c cs d s)
  have k: "\<forall>t. conns_ok s (ts t) cs" using assms(1) scoped_ping(1) by (auto simp: scoped_inv_def)
  have "clean (cs c)" using k scoped_ping(3) by (auto simp: objects_ok_def dest!: spec [of _ t])
  then have "clean d" using clean_ping scoped_ping(4) by blast
  moreover have "c \<in> alive s" using assms(1) scoped_ping(1,3) by (auto simp: scoped_inv_def thread_ok_def own_def dest!: spec [of _ t])
  ultimately show ?thesis using assms(1) k scoped_ping(1,2) by (auto simp: scoped_inv_def objects_ok_def)
qed

lemma fill_loop_ids: "fill_loop answers n s = Ret (True, s') \<Longrightarrow> alive s = {..< fresh_id s} \<Longrightarrow> alive s' = {..< fresh_id s'}"
  by (induction n arbitrary: s) (auto simp: Let_def new_conn_def delete_conn_def lessThan_Suc split: if_splits)

lemma scoped_reachable_inv:
  assumes "scoped_reachable api settings s0 cs0 st" and "fill_pool answers settings new_shared = Ret (True, s0)" and "\<forall>c < fresh_id s0. clean (cs0 c)"
  shows "scoped_inv st"
  using assms
proof (induction rule: scoped_reachable.induct)
  case scoped_init
  have f: "fill_loop answers (ps_pool_size settings) new_shared = Ret (True, s0)" using scoped_init(1) by (auto simp: fill_pool_def split: if_splits)
  then have "alive s0 = {..< fresh_id s0}" using fill_loop_ids by (fastforce simp: new_shared_def)
  moreover have "alive s0 = set (pool s0)" using fill_loop_ok [OF f] by (simp add: new_shared_def shared_ok_def)
  moreover have "pool_inv (s0, \<lambda>_. \<lparr>pc = Out, held = []\<rparr>)" using pool_inv_init fill_pool_ok [OF scoped_init(1)] by blast
  ultimately show ?case using scoped_init(2) by (auto simp: scoped_inv_def objects_ok_def)
qed (blast intro: scoped_inv_step)


lemma delete_all_at:
  "distinct ps \<Longrightarrow> fold (\<lambda>c cs. cs(c := delete_connection api (cs c))) ps cs c = (if c \<in> set ps then delete_connection api (cs c) else cs c)"
  by (induction ps arbitrary: cs) auto

lemma delete_pool_at: "distinct (pool s) \<Longrightarrow> delete_pool api s cs c = (if c \<in> set (pool s) then delete_connection api (cs c) else cs c)"
  by (simp add: delete_pool_def delete_all_at)



section \<open>A thread that takes, uses and returns a connection\<close>

definition demo_settings :: pool_settings where
  "demo_settings = \<lparr>ps_host = ''db'', ps_userid = ''u'', ps_passwd = ''p'', ps_database = ''d'', ps_port = 3306, ps_charset = ''utf8'', ps_pool_size = 1, ps_timeout = 0\<rparr>"

definition one_conn :: "lock_state \<Rightarrow> nat list \<Rightarrow> shared" where
  "one_conn l p = \<lparr>lock = l, pool = p, alive = {0}, pooled = {0}, fresh_id = 1, fault = False\<rparr>"

definition demo_reach :: "shared \<Rightarrow> thread \<Rightarrow> (nat, unit) dbconn \<Rightarrow> bool" where
  "demo_reach s th d \<longleftrightarrow> (\<exists>cs. scoped_reachable demo_api demo_settings (one_conn unlocked [0]) (\<lambda>_. demo_connection) (s, (\<lambda>_. \<lparr>pc = Out, held = []\<rparr>)(0 := th), cs) \<and> cs 0 = d)"

lemma demo_filled: "fill_pool (\<lambda>_. Ret True) demo_settings new_shared = Ret (True, one_conn unlocked [0])"
  by (simp add: fill_pool_def demo_settings_def new_shared_def new_conn_def one_conn_def eval_nat_numeral Let_def)

lemma demo_connects: "new_connection demo_api () ''db'' ''u'' ''p'' ''d'' 3306 ''utf8'' b 0 = Ok (Inr (), demo_connection\<lparr>cn_pooled := b\<rparr>)"
  by (simp add: new_connection_def demo_simps c_text_def)

lemma demo_start: "demo_reach (one_conn unlocked [0]) \<lparr>pc = Out, held = []\<rparr> demo_connection"
  unfolding demo_reach_def by (intro exI [of _ "\<lambda>_. demo_connection"] conjI) (simp_all add: scoped_init fun_upd_idem)

lemma demo_act:
  assumes "demo_reach s th d" "pool_act s th s1 th1" "s1 = s'" "th1 = th'" "alive s' = alive s"
  shows "demo_reach s' th' (if pc th' = R_start 0 then clear demo_api d else d)"
proof -
  obtain cs where cs: "scoped_reachable demo_api demo_settings (one_conn unlocked [0]) (\<lambda>_. demo_connection) (s, (\<lambda>_. \<lparr>pc = Out, held = []\<rparr>)(0 := th), cs)" "cs 0 = d"
    using assms(1) by (auto simp: demo_reach_def)
  let ?ts = "(\<lambda>_. \<lparr>pc = Out, held = []\<rparr>)(0 := th)"
  have a: "pool_act s (?ts 0) s' th'" using assms(2-4) by simp
  have n: "new_connection demo_api () (ps_host demo_settings) (ps_userid demo_settings) (ps_passwd demo_settings) (ps_database demo_settings) (ps_port demo_settings)
      (ps_charset demo_settings) (fresh_id s \<in> pooled s') 0 = Ok (Inr (), demo_connection\<lparr>cn_pooled := fresh_id s \<in> pooled s'\<rparr>)"
    using demo_connects by (simp add: demo_settings_def)
  show ?thesis unfolding demo_reach_def
    using scoped_more [OF cs(1) scoped_step.scoped_pool [where ts = ?ts, OF a n]] assms(5) cs(2)
    by (intro exI conjI, simp) (simp add: conn_effect_def)
qed

lemma demo_use:
  assumes "demo_reach s \<lparr>pc = Out, held = [0]\<rparr> d" "run_op demo_api x d = Ok d'"
  shows "demo_reach s \<lparr>pc = Out, held = [0]\<rparr> d'"
proof -
  obtain cs where cs: "scoped_reachable demo_api demo_settings (one_conn unlocked [0]) (\<lambda>_. demo_connection) (s, (\<lambda>_. \<lparr>pc = Out, held = []\<rparr>)(0 := \<lparr>pc = Out, held = [0]\<rparr>), cs)" "cs 0 = d"
    using assms(1) by (auto simp: demo_reach_def)
  let ?ts = "(\<lambda>_. \<lparr>pc = Out, held = []\<rparr>)(0 := \<lparr>pc = Out, held = [0]\<rparr>) :: nat \<Rightarrow> thread"
  have "scoped_step demo_api demo_settings (s, ?ts, cs) (s, ?ts, cs(0 := d'))" by (rule scoped_use [of ?ts 0 _ _ x]) (simp_all add: cs(2) assms(2))
  then show ?thesis unfolding demo_reach_def using scoped_more [OF cs(1)] by (intro exI [of _ "cs(0 := d')"]) simp
qed


definition used_connection :: "(nat, unit) dbconn" where
  "used_connection = demo_connection\<lparr>cn_lib := 2, cn_calls := [Acquire (Mysql 1), Acquire (Stmt 2)], cn_next := 2,
     cn_statements := [(1, \<lparr>st_stmt = 2, st_param_count = 1, st_bind_index = 0, st_binds = [new_bind], st_lengths = [0]\<rparr>)]\<rparr>"

lemma demo_used: "run_op demo_api (Prepare ''q'') demo_connection = Ok used_connection"
  by (simp add: demo_simps caught_def used_connection_def)

lemma demo_taken: "demo_reach (one_conn unlocked []) \<lparr>pc = Out, held = [0]\<rparr> used_connection"
proof -
  note sp = exchange_locked_def store_unlocked_def one_conn_def
  have 1: "demo_reach (one_conn unlocked [0]) \<lparr>pc = G_lock, held = []\<rparr> demo_connection"
    using demo_act [OF demo_start get_call, of "one_conn unlocked [0]" "\<lparr>pc = G_lock, held = []\<rparr>"] by simp
  have 2: "demo_reach (one_conn locked [0]) \<lparr>pc = G_test, held = []\<rparr> demo_connection"
    using demo_act [OF 1 get_acquire, of "one_conn locked [0]" "\<lparr>pc = G_test, held = []\<rparr>"] by (simp add: sp)
  have 3: "demo_reach (one_conn locked [0]) \<lparr>pc = G_back, held = []\<rparr> demo_connection"
    using demo_act [OF 2 get_test, of "one_conn locked [0]" "\<lparr>pc = G_back, held = []\<rparr>"] by (simp add: sp)
  have 4: "demo_reach (one_conn locked [0]) \<lparr>pc = G_pop 0, held = []\<rparr> demo_connection"
    using demo_act [OF 3 get_back, of "one_conn locked [0]" "\<lparr>pc = G_pop 0, held = []\<rparr>"] by (simp add: sp)
  have 5: "demo_reach (one_conn locked []) \<lparr>pc = G_unlock 0, held = []\<rparr> demo_connection"
    using demo_act [OF 4 get_pop, of 0 "one_conn locked []" "\<lparr>pc = G_unlock 0, held = []\<rparr>"] by (simp add: sp)
  have 6: "demo_reach (one_conn unlocked []) \<lparr>pc = G_check 0, held = []\<rparr> demo_connection"
    using demo_act [OF 5 get_unlock, of 0 "one_conn unlocked []" "\<lparr>pc = G_check 0, held = []\<rparr>"] by (simp add: sp)
  have 7: "demo_reach (one_conn unlocked []) \<lparr>pc = Out, held = [0]\<rparr> demo_connection"
    using demo_act [OF 6 get_keep, of 0 "one_conn unlocked []" "\<lparr>pc = Out, held = [0]\<rparr>"] by (simp add: sp)
  show ?thesis using demo_use [OF 7 demo_used] .
qed

lemma demo_returned: "demo_reach (one_conn unlocked [0]) \<lparr>pc = Out, held = []\<rparr> (clear demo_api used_connection)"
proof -
  note sp = exchange_locked_def store_unlocked_def one_conn_def
  have 1: "demo_reach (one_conn unlocked []) \<lparr>pc = R_start 0, held = []\<rparr> (clear demo_api used_connection)"
    using demo_act [OF demo_taken release_call, of 0 "one_conn unlocked []" "\<lparr>pc = R_start 0, held = []\<rparr>"] by simp
  have 2: "demo_reach (one_conn unlocked []) \<lparr>pc = R_lock 0, held = []\<rparr> (clear demo_api used_connection)"
    using demo_act [OF 1 release_mark, of 0 "one_conn unlocked []" "\<lparr>pc = R_lock 0, held = []\<rparr>"] by (simp add: sp)
  have 3: "demo_reach (one_conn locked []) \<lparr>pc = R_push 0, held = []\<rparr> (clear demo_api used_connection)"
    using demo_act [OF 2 release_acquire, of 0 "one_conn locked []" "\<lparr>pc = R_push 0, held = []\<rparr>"] by (simp add: sp)
  have 4: "demo_reach (one_conn locked [0]) \<lparr>pc = R_unlock, held = []\<rparr> (clear demo_api used_connection)"
    using demo_act [OF 3 release_push, of 0 "one_conn locked [0]" "\<lparr>pc = R_unlock, held = []\<rparr>"] by (simp add: sp)
  show ?thesis
    using demo_act [OF 4 release_unlock, of "one_conn unlocked [0]" "\<lparr>pc = Out, held = []\<rparr>"] by (simp add: sp)
qed


end
