(* ===== verification/Logger.thy ===== *)
theory Logger
  imports Config Cpp_Time
begin

text \<open>
  The logger, \<^verbatim>\<open>src/src/logger.cpp\<close> and \<^verbatim>\<open>logger.hpp\<close>: the messages of all threads are queued for one
  background thread, which writes them to a file and renames the file when its minute, hour or day
  is over. The file system is a map from paths to contents; the clock is read where the code reads
  it. An exception in the background thread ends the program.
\<close>

section \<open>Data\<close>

datatype log_level_type = Debug | Info | Warn | Error | Fatal

fun level_value :: "log_level_type \<Rightarrow> nat" where
  "level_value Debug = 1"
| "level_value Info = 2"
| "level_value Warn = 3"
| "level_value Error = 4"
| "level_value Fatal = 5"

datatype log_rotation_type = Every_minute | Hourly | Daily

text \<open>The functions posted to the background thread: of \<open>file\<close>, \<open>init\<close>, \<open>write\<close> and \<open>rotate\<close>.\<close>

datatype task = Open_file string | Configure log_level_type log_rotation_type | Put string | Rename_to string

text \<open>The output stream: the file it is open on, and whether an operation has failed since it was cleared.\<close>

record logger =
  lg_queue :: "task list"
  lg_stream :: "string option"
  lg_failed :: bool
  lg_file :: string
  lg_created :: tm
  lg_level :: log_level_type
  lg_rotation :: log_rotation_type
  lg_fs :: "string \<rightharpoonup> string"

definition new_logger :: "tm \<Rightarrow> (string \<rightharpoonup> string) \<Rightarrow> logger" where
  "new_logger now fs = \<lparr>lg_queue = [], lg_stream = None, lg_failed = False, lg_file = [], lg_created = now, lg_level = Debug, lg_rotation = Every_minute, lg_fs = fs\<rparr>"

definition post :: "task \<Rightarrow> logger \<Rightarrow> logger" where
  "post t s = s\<lparr>lg_queue := lg_queue s @ [t]\<rparr>"

section \<open>The stream\<close>

definition stream_close :: "logger \<Rightarrow> logger" where
  "stream_close s = (if lg_stream s = None then s\<lparr>lg_failed := True\<rparr> else s\<lparr>lg_stream := None\<rparr>)"

text \<open>Opening for appending creates a file that is missing; \<open>openable\<close> says which paths can be opened.\<close>

definition stream_open :: "(string \<Rightarrow> bool) \<Rightarrow> string \<Rightarrow> logger \<Rightarrow> logger" where
  "stream_open openable path s =
     (if openable path
      then s\<lparr>lg_stream := Some path, lg_failed := False, lg_fs := (if lg_fs s path = None then (lg_fs s)(path \<mapsto> []) else lg_fs s)\<rparr>
      else s\<lparr>lg_failed := True\<rparr>)"

definition stream_put :: "string \<Rightarrow> logger \<Rightarrow> logger" where
  "stream_put text s =
     (case lg_stream s of
        None \<Rightarrow> s\<lparr>lg_failed := True\<rparr>
      | Some path \<Rightarrow> if lg_failed s then s else s\<lparr>lg_fs := (lg_fs s)(path \<mapsto> (case lg_fs s path of None \<Rightarrow> [] | Some old \<Rightarrow> old) @ text)\<rparr>)"

text \<open>\<^verbatim>\<open>boost::filesystem::rename\<close> replaces the target and throws without a source.\<close>

definition rename :: "string \<Rightarrow> string \<Rightarrow> logger \<Rightarrow> logger cpp" where
  "rename from to s =
     (case lg_fs s from of
        None \<Rightarrow> Throw (RuntimeError ''filesystem_error'')
      | Some text \<Rightarrow> Ret (if from = to then s else s\<lparr>lg_fs := (lg_fs s)(to \<mapsto> text, from := None)\<rparr>))"

section \<open>The background thread\<close>

text \<open>One task; \<open>now\<close> is the local time at which it runs. The line ends with a newline.\<close>

fun run_task :: "(string \<Rightarrow> bool) \<Rightarrow> tm \<Rightarrow> task \<Rightarrow> logger \<Rightarrow> logger cpp" where
  "run_task openable now (Open_file file) s =
     Ret (stream_open openable file ((stream_close (s\<lparr>lg_file := file, lg_created := now\<rparr>))\<lparr>lg_failed := False\<rparr>))"
| "run_task openable now (Configure level rotation) s = Ret (s\<lparr>lg_level := level, lg_rotation := rotation\<rparr>)"
| "run_task openable now (Put message) s = Ret (stream_put (message @ [CHR 0x0A]) s)"
| "run_task openable now (Rename_to file_to) s =
     (if lg_fs s file_to \<noteq> None then Ret s
      else
        xbind (rename (lg_file s) file_to (stream_close s)) (\<lambda>s.
        Ret (stream_open openable (lg_file s) (s\<lparr>lg_created := now, lg_failed := False\<rparr>))))"

definition run_next :: "(string \<Rightarrow> bool) \<Rightarrow> tm \<Rightarrow> logger \<Rightarrow> logger cpp" where
  "run_next openable now s = (case lg_queue s of [] \<Rightarrow> Ret s | t # ts \<Rightarrow> run_task openable now t (s\<lparr>lg_queue := ts\<rparr>))"

section \<open>The callers\<close>

definition log_file :: "string \<Rightarrow> logger \<Rightarrow> logger" where
  "log_file file s = post (Open_file file) s"

definition level_of :: "string \<Rightarrow> log_level_type option" where
  "level_of v = (if v = ''debug'' then Some Debug else if v = ''info'' then Some Info else if v = ''warn'' then Some Warn
     else if v = ''error'' then Some Error else None)"

definition rotation_of :: "string \<Rightarrow> log_rotation_type option" where
  "rotation_of v = (if v = ''every_minute'' then Some Every_minute else if v = ''hourly'' then Some Hourly else if v = ''daily'' then Some Daily else None)"

definition init :: "config \<Rightarrow> logger \<Rightarrow> bool \<times> logger" where
  "init cfg s =
     (case level_of (log_level cfg) of
        None \<Rightarrow> (False, s)
      | Some level \<Rightarrow> (case rotation_of (log_rotation cfg) of
            None \<Rightarrow> (False, s)
          | Some rotation \<Rightarrow> (True, post (Configure level rotation) s)))"

definition day_format :: "conv list" where
  "day_format = [Plain (CHR ''.''), Conv_Y, Plain (CHR ''-''), Conv_m, Plain (CHR ''-''), Conv_d]"

text \<open>The ending of the file that is over, in a buffer of 32 bytes; none when it is not over.\<close>

definition ending :: "tm \<Rightarrow> logger \<Rightarrow> string option cpp" where
  "ending t s =
     (let format = (\<lambda>f. xbind (strftime f (lg_created s)) (\<lambda>d. if length d < 32 then Ret (Some d) else Undefined)) in
      if lg_rotation s = Every_minute \<and> tm_min t \<noteq> tm_min (lg_created s) then format (day_format @ [Plain (CHR ''_''), Conv_H, Conv_M])
      else if lg_rotation s = Hourly \<and> tm_hour t \<noteq> tm_hour (lg_created s) then format (day_format @ [Plain (CHR ''_''), Conv_H])
      else if lg_rotation s = Daily \<and> tm_mday t \<noteq> tm_mday (lg_created s) then format day_format
      else Ret None)"

definition rotate :: "tm \<Rightarrow> logger \<Rightarrow> logger cpp" where
  "rotate t s = xbind (ending t s) (\<lambda>d. Ret (case d of None \<Rightarrow> s | Some d \<Rightarrow> post (Rename_to (lg_file s @ d)) s))"

definition logger_write :: "tm \<Rightarrow> string \<Rightarrow> logger \<Rightarrow> logger cpp" where
  "logger_write t message s = xbind (rotate t s) (\<lambda>s. Ret (post (Put message) s))"

section \<open>Messages\<close>

text \<open>
  A \<^verbatim>\<open>log\<close> object, from its construction at the time \<open>t\<close>, which is printed as \<open>stamp\<close>. Only the first
  \<open><<\<close> after it is the one of the class; the others are those of its string stream.
\<close>

record log_entry =
  le_logging :: bool
  le_time :: tm
  le_text :: string

definition new_log :: "logger \<Rightarrow> log_level_type \<Rightarrow> tm \<Rightarrow> string \<Rightarrow> log_entry" where
  "new_log s level t stamp =
     (if level_value level < level_value (lg_level s) then \<lparr>le_logging = False, le_time = t, le_text = []\<rparr>
      else \<lparr>le_logging = True, le_time = t, le_text = stamp @
        (case level of Debug \<Rightarrow> ''DEBUG,'' | Info \<Rightarrow> ''INFO,'' | Warn \<Rightarrow> ''WARN,'' | Error \<Rightarrow> ''ERROR,'' | Fatal \<Rightarrow> ''FATAL,'')\<rparr>)"

definition log_first :: "string \<Rightarrow> log_entry \<Rightarrow> log_entry" where
  "log_first v e = (if le_logging e then e\<lparr>le_text := le_text e @ v\<rparr> else e)"

definition log_next :: "string \<Rightarrow> log_entry \<Rightarrow> log_entry" where
  "log_next v e = e\<lparr>le_text := le_text e @ v\<rparr>"

definition delete_log :: "log_entry \<Rightarrow> logger \<Rightarrow> logger cpp" where
  "delete_log e s = (if le_logging e then logger_write (le_time e) (le_text e) s else Ret s)"

text \<open>The statement \<^verbatim>\<open>log(level) << v << ...;\<close> as a whole.\<close>

fun log_values :: "string list \<Rightarrow> log_entry \<Rightarrow> log_entry" where
  "log_values [] e = e"
| "log_values (v # vs) e = fold log_next vs (log_first v e)"

definition log_statement :: "log_level_type \<Rightarrow> tm \<Rightarrow> string \<Rightarrow> string list \<Rightarrow> logger \<Rightarrow> logger cpp" where
  "log_statement level t stamp vs s = delete_log (log_values vs (new_log s level t stamp)) s"

section \<open>The end\<close>

text \<open>The destructor lets the background thread run what is queued, at the times \<open>now\<close> of its rounds, and closes the file.\<close>

fun drain_queue :: "(string \<Rightarrow> bool) \<Rightarrow> tm \<Rightarrow> nat \<Rightarrow> logger \<Rightarrow> logger cpp" where
  "drain_queue openable now 0 s = Ret s"
| "drain_queue openable now (Suc n) s = xbind (run_next openable now s) (drain_queue openable now n)"

definition delete_logger :: "(string \<Rightarrow> bool) \<Rightarrow> tm \<Rightarrow> logger \<Rightarrow> logger cpp" where
  "delete_logger openable now s =
     xbind (drain_queue openable now (length (lg_queue s)) s) (\<lambda>s. Ret (if lg_stream s \<noteq> None then stream_close s else s))"


section \<open>No line is lost\<close>

text \<open>A local time, of a year with at most four digits.\<close>

definition valid_tm :: "tm \<Rightarrow> bool" where
  "valid_tm t \<longleftrightarrow> - 1900 \<le> tm_year t \<and> tm_year t \<le> 8099 \<and> 0 \<le> tm_mon t \<and> tm_mon t \<le> 11 \<and> 1 \<le> tm_mday t \<and> tm_mday t \<le> 31 \<and>
     0 \<le> tm_hour t \<and> tm_hour t \<le> 23 \<and> 0 \<le> tm_min t \<and> tm_min t \<le> 59"

lemma dec_nat_short: "n < 10 ^ Suc k \<Longrightarrow> length (dec_nat n) \<le> Suc k"
proof (induction k arbitrary: n)
  case (Suc k)
  then have "length (dec_nat (n div 10)) \<le> Suc k" by (auto simp: less_mult_imp_div_less)
  then show ?case by (simp add: dec_nat.simps [of n])
qed (simp add: dec_nat.simps)

lemma ending_defined:
  assumes "valid_tm (lg_created s)"
  shows "\<exists>d. ending t s = Ret d \<and> d \<noteq> Some []"
proof -
  have y: "length (dec_int (tm_year (lg_created s) + 1900)) \<le> 4"
  proof -
    have "nat (tm_year (lg_created s) + 1900) < 10 ^ Suc 3" using assms by (simp add: valid_tm_def nat_less_iff)
    from dec_nat_short [OF this] show ?thesis using assms by (simp add: valid_tm_def dec_int_def)
  qed
  then show ?thesis using assms by (auto simp: ending_def day_format_def ranged_def valid_tm_def pad2_def)
qed

text \<open>What the queued tasks will write.\<close>

definition pending :: "task list \<Rightarrow> string" where
  "pending ts = concat (map (\<lambda>t. case t of Put m \<Rightarrow> m @ [CHR 0x0A] | _ \<Rightarrow> []) ts)"

definition contents :: "(string \<rightharpoonup> string) \<Rightarrow> string list \<Rightarrow> string" where
  "contents fs ps = concat (map (\<lambda>p. the (fs p)) ps)"

lemma contents_simps [simp]: "contents fs [] = []" "contents fs (ps @ qs) = contents fs ps @ contents fs qs" "contents fs [p] = the (fs p)"
  by (simp_all add: contents_def)

lemma contents_upd [simp]: "p \<notin> set ps \<Longrightarrow> contents (fs(p := x)) ps = contents fs ps"
  by (auto simp: contents_def intro!: arg_cong [where f = concat])

text \<open>
  The renamed files \<open>rs\<close>, oldest first, the current file \<open>f\<close> and the queue hold together what the
  file held before and what has been logged since, \<open>text\<close>; no other file of \<open>fs0\<close> has changed.
\<close>

definition keeps_text :: "(string \<rightharpoonup> string) \<Rightarrow> string \<Rightarrow> string list \<Rightarrow> string \<Rightarrow> logger \<Rightarrow> bool" where
  "keeps_text fs0 f rs text s \<longleftrightarrow>
     lg_stream s = Some f \<and> \<not> lg_failed s \<and> lg_file s = f \<and> lg_fs s f \<noteq> None \<and> valid_tm (lg_created s) \<and>
     (\<forall>t \<in> set (lg_queue s). (\<forall>p. t \<noteq> Open_file p) \<and> t \<noteq> Rename_to f) \<and>
     distinct rs \<and> f \<notin> set rs \<and> (\<forall>p \<in> set rs. fs0 p = None \<and> lg_fs s p \<noteq> None) \<and> (\<forall>p. p \<notin> set rs \<longrightarrow> p \<noteq> f \<longrightarrow> lg_fs s p = fs0 p) \<and>
     contents (lg_fs s) rs @ the (lg_fs s f) @ pending (lg_queue s) = text"

lemma pending_simps [simp]: "pending [] = []" "pending (Put m # ts) = m @ CHR 0x0A # pending ts" "pending (ts @ ts') = pending ts @ pending ts'"
  "pending (Rename_to p # ts) = pending ts" "pending (Configure l r # ts) = pending ts"
  by (simp_all add: pending_def)

lemma keeps_background:
  assumes k: "keeps_text fs0 f rs text s" and "valid_tm now" "openable f"
  shows "\<exists>s' rs'. run_next openable now s = Ret s' \<and> keeps_text fs0 f rs' text s' \<and> length (lg_queue s') = length (lg_queue s) - 1"
proof (cases "lg_queue s")
  case Nil
  then show ?thesis using k by (auto simp: run_next_def)
next
  case (Cons t ts)
  show ?thesis
  proof (cases t)
    case (Open_file p)
    then show ?thesis using k Cons by (simp add: keeps_text_def)
  next
    case (Configure l r)
    then show ?thesis using k Cons by (auto simp: run_next_def keeps_text_def intro!: exI [of _ rs])
  next
    case (Put m)
    show ?thesis using k Cons Put by (auto simp: run_next_def keeps_text_def stream_put_def intro!: exI [of _ rs])
  next
    case (Rename_to p)
    then have p: "p \<noteq> f" using k Cons by (auto simp: keeps_text_def)
    show ?thesis
    proof (cases "lg_fs s p")
      case (Some x)
      then show ?thesis using k Cons Rename_to by (auto simp: run_next_def keeps_text_def intro!: exI [of _ rs])
    next
      case None
      obtain cur where cur: "lg_fs s f = Some cur" using k by (auto simp: keeps_text_def)
      have n: "p \<notin> set rs" using k None by (auto simp: keeps_text_def)
      let ?s = "s\<lparr>lg_queue := ts, lg_created := now, lg_fs := (lg_fs s)(p \<mapsto> cur, f \<mapsto> [])\<rparr>"
      have "run_next openable now s = Ret ?s" 
        using k None cur p assms(3) Cons Rename_to by (simp add: run_next_def keeps_text_def stream_close_def rename_def stream_open_def)
      moreover have "keeps_text fs0 f (rs @ [p]) text ?s" using k None n p cur Cons Rename_to assms(2)
        by (auto simp: keeps_text_def)
      ultimately show ?thesis using Cons by auto
    qed
  qed
qed


lemma keeps_post:
  assumes "keeps_text fs0 f rs text s" "\<forall>p. t \<noteq> Open_file p" "t \<noteq> Rename_to f"
  shows "keeps_text fs0 f rs (text @ pending [t]) (post t s)"
  using assms by (auto simp: keeps_text_def post_def)

lemma keeps_write:
  assumes "keeps_text fs0 f rs text s"
  shows "\<exists>s'. logger_write t m s = Ret s' \<and> keeps_text fs0 f rs (text @ m @ [CHR 0x0A]) s'"
proof -
  have "valid_tm (lg_created s)" using assms by (simp add: keeps_text_def)
  then obtain d where d: "ending t s = Ret d" "d \<noteq> Some []" using ending_defined by blast
  have "\<exists>s1. rotate t s = Ret s1 \<and> keeps_text fs0 f rs text s1"
  proof (cases d)
    case None
    then show ?thesis using d assms by (simp add: rotate_def)
  next
    case (Some x)
    have f: "lg_file s = f" using assms by (simp add: keeps_text_def)
    have "Rename_to (lg_file s @ x) \<noteq> Rename_to f" using d(2) Some f by simp
    then have "keeps_text fs0 f rs text (post (Rename_to (lg_file s @ x)) s)" using keeps_post [OF assms, of "Rename_to (lg_file s @ x)"] by simp
    moreover have "rotate t s = Ret (post (Rename_to (lg_file s @ x)) s)" unfolding rotate_def d(1) Some by simp
    ultimately show ?thesis by blast
  qed
  then obtain s1 where s1: "rotate t s = Ret s1" "keeps_text fs0 f rs text s1" by blast
  show ?thesis using keeps_post [OF s1(2), of "Put m"] s1(1) by (simp add: logger_write_def)
qed

lemma log_values_logging: "le_logging e \<Longrightarrow> log_values vs e = e\<lparr>le_text := le_text e @ concat vs\<rparr>"
proof -
  have nx: "fold log_next vs e = e\<lparr>le_text := le_text e @ concat vs\<rparr>" for vs and e :: log_entry
    by (induction vs arbitrary: e) (auto simp: log_next_def)
  show "le_logging e \<Longrightarrow> ?thesis" by (cases vs) (auto simp: nx log_first_def)
qed

lemma log_values_silent: "\<not> le_logging e \<Longrightarrow> \<not> le_logging (log_values vs e)"
proof -
  have nx: "le_logging (fold log_next vs e) = le_logging e" for vs and e :: log_entry
    by (induction vs arbitrary: e) (auto simp: log_next_def)
  show "\<not> le_logging e \<Longrightarrow> ?thesis" by (cases vs) (auto simp: nx log_first_def)
qed

text \<open>The line of a message, when its level is logged.\<close>

definition level_name :: "log_level_type \<Rightarrow> string" where
  "level_name level = (case level of Debug \<Rightarrow> ''DEBUG'' | Info \<Rightarrow> ''INFO'' | Warn \<Rightarrow> ''WARN'' | Error \<Rightarrow> ''ERROR'' | Fatal \<Rightarrow> ''FATAL'')"

definition line :: "logger \<Rightarrow> log_level_type \<Rightarrow> string \<Rightarrow> string list \<Rightarrow> string" where
  "line s level stamp vs = (if level_value level < level_value (lg_level s) then [] else stamp @ level_name level @ '','' @ concat vs @ [CHR 0x0A])"

lemma keeps_statement:
  assumes "keeps_text fs0 f rs text s"
  shows "\<exists>s'. log_statement level t stamp vs s = Ret s' \<and> keeps_text fs0 f rs (text @ line s level stamp vs) s'"
proof (cases "level_value level < level_value (lg_level s)")
  case True
  then show ?thesis using assms log_values_silent [of "new_log s level t stamp" vs] by (simp add: log_statement_def delete_log_def line_def new_log_def)
next
  case False
  then show ?thesis using keeps_write [OF assms, of "le_time (new_log s level t stamp)" "le_text (new_log s level t stamp) @ concat vs"]
    log_values_logging [of "new_log s level t stamp" vs]
    by (cases level) (simp_all add: log_statement_def delete_log_def line_def new_log_def level_name_def)
qed

text \<open>
  What happens to a logger, in any order: messages of any thread, the configuration, and rounds of the
  background thread. The second component collects the lines.
\<close>

datatype event = Message log_level_type tm string "string list" | Configured config | Background tm

fun run_event :: "(string \<Rightarrow> bool) \<Rightarrow> event \<Rightarrow> logger \<Rightarrow> (logger \<times> string) cpp" where
  "run_event openable (Message level t stamp vs) s = xbind (log_statement level t stamp vs s) (\<lambda>s'. Ret (s', line s level stamp vs))"
| "run_event openable (Configured cfg) s = Ret (snd (init cfg s), [])"
| "run_event openable (Background now) s = xbind (run_next openable now s) (\<lambda>s. Ret (s, []))"

fun run_events :: "(string \<Rightarrow> bool) \<Rightarrow> event list \<Rightarrow> logger \<Rightarrow> (logger \<times> string) cpp" where
  "run_events openable [] s = Ret (s, [])"
| "run_events openable (e # es) s = xbind (run_event openable e s) (\<lambda>(s, x). xbind (run_events openable es s) (\<lambda>(s, y). Ret (s, x @ y)))"

fun valid_event :: "event \<Rightarrow> bool" where
  "valid_event (Background now) = valid_tm now"
| "valid_event _ = True"

lemma keeps_event:
  assumes "keeps_text fs0 f rs text s" "valid_event e" "openable f"
  shows "\<exists>s' x rs'. run_event openable e s = Ret (s', x) \<and> keeps_text fs0 f rs' (text @ x) s'"
proof (cases e)
  case (Message level t stamp vs)
  then show ?thesis using keeps_statement [OF assms(1), of level t stamp vs] by auto
next
  case (Configured cfg)
  have "keeps_text fs0 f rs text (snd (init cfg s))"
    using keeps_post [OF assms(1), of "Configure l r" for l r] assms(1) by (auto simp: init_def split: option.splits)
  then show ?thesis using Configured by auto
next
  case (Background now)
  then show ?thesis using keeps_background [OF assms(1), of now openable] assms(2,3) by auto
qed

lemma keeps_events:
  "keeps_text fs0 f rs w s \<Longrightarrow> list_all valid_event es \<Longrightarrow> openable f \<Longrightarrow>
   \<exists>s' x rs'. run_events openable es s = Ret (s', x) \<and> keeps_text fs0 f rs' (w @ x) s'"
proof (induction es arbitrary: rs w s)
  case (Cons e es)
  obtain s1 x rs1 where 1: "run_event openable e s = Ret (s1, x)" "keeps_text fs0 f rs1 (w @ x) s1"
    using keeps_event [where openable = openable and e = e, OF Cons.prems(1) _ Cons.prems(3)] Cons.prems(2) by auto
  obtain s2 y rs2 where "run_events openable es s1 = Ret (s2, y)" "keeps_text fs0 f rs2 ((w @ x) @ y) s2" using Cons.IH [OF 1(2)] Cons.prems by auto
  then show ?case using 1 by auto
qed auto

lemma keeps_drain:
  "keeps_text fs0 f rs text s \<Longrightarrow> length (lg_queue s) = n \<Longrightarrow> valid_tm now \<Longrightarrow> openable f \<Longrightarrow>
   \<exists>s' rs'. drain_queue openable now n s = Ret s' \<and> keeps_text fs0 f rs' text s' \<and> lg_queue s' = []"
proof (induction n arbitrary: rs s)
  case (Suc n)
  obtain s1 rs1 where "run_next openable now s = Ret s1" "keeps_text fs0 f rs1 text s1" "length (lg_queue s1) = n"
    using keeps_background [where openable = openable, OF Suc.prems(1,3,4)] Suc.prems(2) by auto
  then show ?case using Suc.IH [of rs1 s1] Suc.prems by auto
qed auto



definition minute :: "int \<Rightarrow> tm" where
  "minute m = \<lparr>tm_year = 124, tm_mon = 4, tm_mday = 6, tm_hour = 7, tm_min = m, tm_sec = 0, tm_isdst = 0\<rparr>"

definition started_logger :: logger where
  "started_logger = \<lparr>lg_queue = [], lg_stream = Some ''app.csv'', lg_failed = False, lg_file = ''app.csv'', lg_created = minute 0, lg_level = Debug,
     lg_rotation = Every_minute, lg_fs = [''app.csv'' \<mapsto> ''old.'']\<rparr>"

definition demo_events :: "event list" where
  "demo_events = [Message Error (minute 0) ''10:00,'' [''a''], Background (minute 0), Message Debug (minute 1) ''10:01,'' [''b'', ''c''],
     Background (minute 1), Message Info (minute 1) ''10:01,'' [''d'']]"

lemma demo_started: "run_next (\<lambda>p. True) (minute 0) (log_file ''app.csv'' (new_logger (minute 0) [''app.csv'' \<mapsto> ''old.''])) = Ret started_logger"
  by (simp add: run_next_def log_file_def new_logger_def post_def stream_open_def stream_close_def started_logger_def)

lemma demo_lines: "map_option snd (case run_events (\<lambda>p. True) demo_events started_logger of Ret x \<Rightarrow> Some x | _ \<Rightarrow> None) =
    Some (''10:00,ERROR,a'' @ CHR 0x0A # ''10:01,DEBUG,bc'' @ CHR 0x0A # ''10:01,INFO,d'' @ [CHR 0x0A])"
  by (simp add: demo_events_def started_logger_def log_statement_def delete_log_def new_log_def log_first_def log_next_def logger_write_def rotate_def ending_def
    minute_def day_format_def ranged_def pad2_def dec_eval post_def run_next_def stream_put_def stream_close_def rename_def stream_open_def line_def level_name_def)


end
