(* ===== verification/Server.thy ===== *)
theory Server
  imports Logger Database
begin

text \<open>
  Starting the program, \<^verbatim>\<open>src/src/main.cpp\<close>, and the servers of \<^verbatim>\<open>server.cpp\<close> and
  \<^verbatim>\<open>server_ssl.cpp\<close>, which differ in the connections they make. Asio is given by the events it
  reports, in any order: an accept that has ended, a signal that has arrived. The messages that the
  handlers log are kept with the server. Resolving the address
  and listening on it, the clock and the texts of exceptions are parameters.
\<close>

section \<open>The server\<close>

datatype signal = SIGHUP | SIGINT | SIGQUIT | SIGTERM

text \<open>An accept has ended with a socket or with an error; a signal has arrived, or the wait for one has failed.\<close>

datatype 'k server_event = Accepted "'k option" | Signalled "signal option"

record 'k server =
  sv_ssl :: bool
  sv_waiting :: bool
  sv_accepting :: bool
  sv_stopped :: bool
  sv_started :: "'k list"
  sv_messages :: "string list"

definition do_await_stop :: "'k server \<Rightarrow> 'k server" where
  "do_await_stop s = s\<lparr>sv_waiting := True\<rparr>"

definition do_accept :: "'k server \<Rightarrow> 'k server" where
  "do_accept s = s\<lparr>sv_accepting := True\<rparr>"

definition new_server :: "(string \<Rightarrow> string \<Rightarrow> unit cpp) \<Rightarrow> config \<Rightarrow> 'k server cpp" where
  "new_server listens cfg =
     (let s = do_await_stop \<lparr>sv_ssl = ssl cfg, sv_waiting = False, sv_accepting = False, sv_stopped = False, sv_started = [], sv_messages = []\<rparr> in
      xbind (listens (address cfg) (port cfg)) (\<lambda>_. Ret (do_accept s)))"

text \<open>The handlers given to \<^verbatim>\<open>async_accept\<close> and \<^verbatim>\<open>async_wait\<close>.\<close>

definition on_accept :: "'k option \<Rightarrow> 'k server \<Rightarrow> 'k server" where
  "on_accept e s = do_accept (case e of Some k \<Rightarrow> s\<lparr>sv_started := sv_started s @ [k]\<rparr> | None \<Rightarrow> s)"

definition on_signal :: "signal option \<Rightarrow> 'k server \<Rightarrow> 'k server" where
  "on_signal n s = (if n = Some SIGHUP then s
     else s\<lparr>sv_messages := sv_messages s @ [(if sv_ssl s then ''server_ssl'' else ''server'') @ '' stopping..''], sv_stopped := True\<rparr>)"

text \<open>A handler runs once for each time it was given; a stopped \<^verbatim>\<open>io_service\<close> runs none.\<close>

fun server_step :: "'k server_event \<Rightarrow> 'k server \<Rightarrow> 'k server" where
  "server_step (Accepted e) s = (if sv_stopped s \<or> \<not> sv_accepting s then s else on_accept e (s\<lparr>sv_accepting := False\<rparr>))"
| "server_step (Signalled n) s = (if sv_stopped s \<or> \<not> sv_waiting s then s else on_signal n (s\<lparr>sv_waiting := False\<rparr>))"

text \<open>Without threads \<^verbatim>\<open>run\<close> returns at once.\<close>

definition server_run :: "config \<Rightarrow> 'k server_event list \<Rightarrow> 'k server \<Rightarrow> 'k server" where
  "server_run cfg evs s = (if num_threads cfg = 0 then s else fold server_step evs s)"

section \<open>The program\<close>

text \<open>\<open>mw_log\<close> is the time and its text when a message is logged, \<open>mw_what\<close> the text of an exception.\<close>

record main_world =
  mw_outside :: outside
  mw_strtod :: "string \<Rightarrow> real"
  mw_db_ping :: "nat \<Rightarrow> bool cpp"
  mw_rd_ping :: "nat \<Rightarrow> bool cpp"
  mw_listens :: "string \<Rightarrow> string \<Rightarrow> unit cpp"
  mw_log :: "tm \<times> string"
  mw_what :: "cpp_exn \<Rightarrow> string"

record 'k outcome =
  mo_code :: int
  mo_server :: "'k server option"
  mo_config :: config
  mo_db :: shard_set
  mo_rd :: shard_set
  mo_logger :: logger

text \<open>The end of \<^verbatim>\<open>main\<close>, after a message; the position in the source that is logged with it is left out.\<close>

definition quit :: "main_world \<Rightarrow> int \<Rightarrow> string \<Rightarrow> config \<Rightarrow> shard_set \<Rightarrow> shard_set \<Rightarrow> logger \<Rightarrow> 'k outcome cpp" where
  "quit w code message cfg db rd lg =
     xbind (log_statement Fatal (fst (mw_log w)) (snd (mw_log w)) [message] lg) (\<lambda>lg.
     Ret \<lparr>mo_code = code, mo_server = None, mo_config = cfg, mo_db = db, mo_rd = rd, mo_logger = lg\<rparr>)"

text \<open>A call whose exceptions the handler at the end of \<^verbatim>\<open>main\<close> catches.\<close>

definition guarded :: "main_world \<Rightarrow> config \<Rightarrow> shard_set \<Rightarrow> shard_set \<Rightarrow> logger \<Rightarrow> 'a cpp \<Rightarrow> ('a \<Rightarrow> 'k outcome cpp) \<Rightarrow> 'k outcome cpp" where
  "guarded w cfg db rd lg m f = (case m of Ret x \<Rightarrow> f x | Throw e \<Rightarrow> quit w 0 (mw_what w e) cfg db rd lg | Undefined \<Rightarrow> Undefined)"

definition main_serve :: "main_world \<Rightarrow> config \<Rightarrow> shard_set \<Rightarrow> shard_set \<Rightarrow> logger \<Rightarrow> 'k server_event list \<Rightarrow> 'k outcome cpp" where
  "main_serve w cfg db rd lg evs =
     guarded w cfg db rd lg (new_server (mw_listens w) cfg) (\<lambda>s.
     xbind (log_statement Info (fst (mw_log w)) (snd (mw_log w)) [if ssl cfg then ''server_ssl starting..'' else ''server starting..''] lg) (\<lambda>lg.
     Ret \<lparr>mo_code = 0, mo_server = Some (server_run cfg evs s), mo_config = cfg, mo_db = db, mo_rd = rd, mo_logger = lg\<rparr>))"

definition main_redis :: "main_world \<Rightarrow> config \<Rightarrow> shard_set \<Rightarrow> logger \<Rightarrow> 'k server_event list \<Rightarrow> 'k outcome cpp" where
  "main_redis w cfg db lg evs =
     guarded w cfg db new_shard_set lg (redis_init (mw_strtod w) (mw_rd_ping w) cfg [''rd_rnk''] new_shard_set) (\<lambda>(ok, rd).
     if \<not> ok then quit w 1 ''redis::init failed'' cfg db rd lg else main_serve w cfg db rd lg evs)"

definition main_database :: "main_world \<Rightarrow> config \<Rightarrow> logger \<Rightarrow> 'k server_event list \<Rightarrow> 'k outcome cpp" where
  "main_database w cfg lg evs =
     guarded w cfg new_shard_set new_shard_set lg (database_init (mw_strtod w) (mw_db_ping w) cfg [''db_000'', ''db_001'', ''db_etc''] new_shard_set) (\<lambda>(ok, db).
     if \<not> ok then quit w 1 ''database::init failed'' cfg db new_shard_set lg else main_redis w cfg db lg evs)"

definition main_logger :: "main_world \<Rightarrow> config \<Rightarrow> logger \<Rightarrow> 'k server_event list \<Rightarrow> 'k outcome cpp" where
  "main_logger w cfg lg evs =
     (let (ok, lg) = init cfg lg in
      if \<not> ok then quit w 1 ''logger::init failed'' cfg new_shard_set new_shard_set lg else main_database w cfg lg evs)"

text \<open>The arguments give the phase and the address, three of them with the name of the program.\<close>

definition main :: "main_world \<Rightarrow> string list \<Rightarrow> logger \<Rightarrow> 'k server_event list \<Rightarrow> 'k outcome cpp" where
  "main w argv lg evs =
     (let (phase, addr) = (if length argv = 3 then (argv ! 1, argv ! 2) else (''develop'', ''0.0.0.0''));
          lg = log_file (''../log/'' @ phase @ ''.csv'') lg in
      guarded w new_config new_shard_set new_shard_set lg (config_init (mw_outside w) addr (''../cfg/'' @ phase @ ''.json'') new_config) (\<lambda>(ok, cfg).
      if \<not> ok then quit w 1 ''config::init failed'' cfg new_shard_set new_shard_set lg else main_logger w cfg lg evs))"

section \<open>What a server has served\<close>

definition accepted :: "'k server_event list \<Rightarrow> 'k list" where
  "accepted evs = concat (map (\<lambda>e. case e of Accepted (Some k) \<Rightarrow> [k] | _ \<Rightarrow> []) evs)"

fun first_signal :: "'k server_event list \<Rightarrow> signal option option" where
  "first_signal [] = None"
| "first_signal (Accepted k # evs) = first_signal evs"
| "first_signal (Signalled n # evs) = Some n"

definition stops :: "'k server_event list \<Rightarrow> bool" where
  "stops evs \<longleftrightarrow> first_signal evs \<notin> {None, Some (Some SIGHUP)}"

fun before_signal :: "'k server_event list \<Rightarrow> 'k server_event list" where
  "before_signal [] = []"
| "before_signal (Accepted k # evs) = Accepted k # before_signal evs"
| "before_signal (Signalled n # evs) = []"

lemma accepted_simps [simp]: "accepted [] = []" "accepted (Signalled n # evs) = accepted evs" "accepted (Accepted None # evs) = accepted evs"
  "accepted (Accepted (Some k) # evs) = k # accepted evs"
  by (simp_all add: accepted_def)

lemma stopped_server: "sv_stopped s \<Longrightarrow> fold server_step evs s = s"
proof (induction evs)
  case (Cons e evs)
  then show ?case by (cases e) auto
qed simp

lemma deaf_server:
  "sv_accepting s \<Longrightarrow> \<not> sv_waiting s \<Longrightarrow> \<not> sv_stopped s \<Longrightarrow>
   sv_started (fold server_step evs s) = sv_started s @ accepted evs \<and> \<not> sv_stopped (fold server_step evs s)"
proof (induction evs arbitrary: s)
  case (Cons e evs)
  then show ?case by (cases e) (auto simp: on_accept_def do_accept_def split: option.splits)
qed simp

lemma server_run_fold:
  "sv_accepting s \<Longrightarrow> sv_waiting s \<Longrightarrow> \<not> sv_stopped s \<Longrightarrow>
   sv_started (fold server_step evs s) = sv_started s @ accepted (if stops evs then before_signal evs else evs) \<and>
   (sv_stopped (fold server_step evs s) \<longleftrightarrow> stops evs)"
proof (induction evs arbitrary: s)
  case (Cons e evs)
  show ?case
  proof (cases e)
    case (Accepted k)
    then show ?thesis using Cons by (auto simp: on_accept_def do_accept_def stops_def split: option.splits)
  next
    case (Signalled n)
    show ?thesis
    proof (cases "n = Some SIGHUP")
      case True
      then show ?thesis using Cons.prems Signalled deaf_server [of "s\<lparr>sv_waiting := False\<rparr>" evs] by (simp add: on_signal_def stops_def)
    next
      case False
      then show ?thesis using Cons.prems Signalled by (simp add: on_signal_def stops_def stopped_server)
    qed
  qed
qed (simp add: stops_def)

lemma new_server_ready:
  "new_server listens cfg = Ret s \<Longrightarrow> sv_accepting s \<and> sv_waiting s \<and> \<not> sv_stopped s \<and> sv_started s = [] \<and> listens (address cfg) (port cfg) = Ret ()"
  by (auto simp: new_server_def do_await_stop_def do_accept_def Let_def)

text \<open>
  After a hang-up the server does not wait for signals any more: no other signal stops it.
\<close>
theorem server_deaf_after_hangup:
  assumes "new_server listens cfg = Ret s" "num_threads cfg \<noteq> 0"
  shows "\<not> sv_stopped (server_run cfg (Signalled (Some SIGHUP) # evs) s)"
  using server_run_fold [of s "Signalled (Some SIGHUP) # evs"] new_server_ready [OF assms(1)] assms(2) by (simp add: server_run_def stops_def)

section \<open>What is ready when it serves\<close>

lemma filled_pool: "fill_pool answers p new_shared = Ret (True, s) \<Longrightarrow> length (pool s) = ps_pool_size p \<and> 0 < ps_pool_size p"
  using fill_loop_ok [of answers "ps_pool_size p" new_shared s] by (auto simp: fill_pool_def new_shared_def shared_ok_def split: if_splits)

definition filled_pools :: "nat \<Rightarrow> shard_set \<Rightarrow> bool" where
  "filled_pools n d \<longleftrightarrow> length (pools d) = n \<and> (\<forall>(p, s) \<in> set (pools d). length (pool s) = ps_pool_size p \<and> 0 < ps_pool_size p)"

lemma shards_filled:
  assumes "shards_init pre ip answers cfg names new_shard_set = Ret (True, d)"
  shows "filled_pools (length names) d"
  using shards_init_ok [OF assms] by (auto simp: filled_pools_def dest!: bspec filled_pool)

lemma quit_serves_none: "quit w code message cfg db rd lg = Ret r \<Longrightarrow> mo_server r = None"
  by (auto simp: quit_def)

lemma guarded_serves: "guarded w cfg db rd lg m f = Ret r \<Longrightarrow> mo_server r = Some sv \<Longrightarrow> \<exists>x. m = Ret x \<and> f x = Ret r"
  by (cases m) (auto simp: guarded_def dest: quit_serves_none)

lemma main_serve_served:
  assumes "main_serve w cfg db rd lg evs = Ret r" "mo_server r = Some sv"
  shows "mo_config r = cfg \<and> mo_db r = db \<and> mo_rd r = rd \<and> mo_code r = 0 \<and> (\<exists>s. new_server (mw_listens w) cfg = Ret s \<and> sv = server_run cfg evs s)"
  using guarded_serves [OF assms(1) [unfolded main_serve_def] assms(2)] assms(2) by auto

lemma main_redis_served:
  assumes "main_redis w cfg db lg evs = Ret r" "mo_server r = Some sv"
  shows "\<exists>rd. redis_init (mw_strtod w) (mw_rd_ping w) cfg [''rd_rnk''] new_shard_set = Ret (True, rd) \<and> main_serve w cfg db rd lg evs = Ret r"
  using guarded_serves [OF assms(1) [unfolded main_redis_def] assms(2)] quit_serves_none [of w] assms(2) by (fastforce split: if_splits)

lemma main_database_served:
  assumes "main_database w cfg lg evs = Ret r" "mo_server r = Some sv"
  shows "\<exists>db. database_init (mw_strtod w) (mw_db_ping w) cfg [''db_000'', ''db_001'', ''db_etc''] new_shard_set = Ret (True, db) \<and> main_redis w cfg db lg evs = Ret r"
  using guarded_serves [OF assms(1) [unfolded main_database_def] assms(2)] quit_serves_none [of w] assms(2) by (fastforce split: if_splits)

lemma main_logger_served:
  assumes "main_logger w cfg lg evs = Ret r" "mo_server r = Some sv"
  shows "\<exists>lg'. init cfg lg = (True, lg') \<and> main_database w cfg lg' evs = Ret r"
  using assms quit_serves_none [of w] by (cases "init cfg lg") (fastforce simp: main_logger_def split: if_splits)

lemma main_config_served:
  assumes "main w argv lg evs = Ret r" "mo_server r = Some sv"
  shows "\<exists>addr path cfg lg'. config_init (mw_outside w) addr path new_config = Ret (True, cfg) \<and> main_logger w cfg lg' evs = Ret r"
proof -
  obtain phase addr where pa: "(if length argv = 3 then (argv ! 1, argv ! 2) else (''develop'', ''0.0.0.0'')) = (phase, addr)" by fastforce
  show ?thesis using guarded_serves [OF assms(1) [unfolded main_def pa Let_def prod.case] assms(2)] quit_serves_none [of w] assms(2)
    by (fastforce split: if_splits)
qed

text \<open>
  C18. The server serves only when everything it needs is ready. If \<^verbatim>\<open>main\<close> gets as far as running a
  server, then the configuration was complete and its document root ends with a slash, the level
  and the rotation of the log are known ones, each of the three MySQL pools and the Redis pool
  was filled to its size, and the address is listened on. From then on every socket that is accepted gets
  exactly one connection, in order, whatever accepts fail in between, up to the first signal, which stops the server unless it is a
  hang-up; a server without threads returns at once and serves none.
\<close>
theorem main_serves_ready:
  assumes "main w argv lg evs = Ret r" "mo_server r = Some sv"
  shows "complete (cfg_map (mo_config r)) \<and> rooted (mo_config r) \<and> level_of (log_level (mo_config r)) \<noteq> None \<and> rotation_of (log_rotation (mo_config r)) \<noteq> None \<and>
    filled_pools 3 (mo_db r) \<and> filled_pools 1 (mo_rd r) \<and>
    mw_listens w (address (mo_config r)) (port (mo_config r)) = Ret () \<and>
    sv_started sv = (if num_threads (mo_config r) = 0 then [] else accepted (if stops evs then before_signal evs else evs)) \<and>
    (sv_stopped sv \<longleftrightarrow> num_threads (mo_config r) \<noteq> 0 \<and> stops evs)"
proof -
  obtain addr path lg1 lg2 where m: "config_init (mw_outside w) addr path new_config = Ret (True, mo_config r)" "init (mo_config r) lg1 = (True, lg2)"
    and db: "database_init (mw_strtod w) (mw_db_ping w) (mo_config r) [''db_000'', ''db_001'', ''db_etc''] new_shard_set = Ret (True, mo_db r)"
    and rd: "redis_init (mw_strtod w) (mw_rd_ping w) (mo_config r) [''rd_rnk''] new_shard_set = Ret (True, mo_rd r)"
    and s: "\<exists>s. new_server (mw_listens w) (mo_config r) = Ret s \<and> sv = server_run (mo_config r) evs s"
    using main_config_served [OF assms] main_logger_served [OF _ assms(2)] main_database_served [OF _ assms(2)] main_redis_served [OF _ assms(2)] main_serve_served [OF _ assms(2)] by metis
  then obtain s where s: "new_server (mw_listens w) (mo_config r) = Ret s" "sv = server_run (mo_config r) evs s" by blast
  have "filled_pools 3 (mo_db r)" "filled_pools 1 (mo_rd r)"
    using shards_filled [OF db [unfolded database_init_def]] shards_filled [OF rd [unfolded redis_init_def]] by (simp_all add: eval_nat_numeral)
  moreover note config_init_spec [OF m(1)]
  moreover have "level_of (log_level (mo_config r)) \<noteq> None" "rotation_of (log_rotation (mo_config r)) \<noteq> None"
    using m(2) by (auto simp: init_def split: option.splits)
  moreover have "sv_started sv = (if num_threads (mo_config r) = 0 then [] else accepted (if stops evs then before_signal evs else evs)) \<and>
      (sv_stopped sv \<longleftrightarrow> num_threads (mo_config r) \<noteq> 0 \<and> stops evs)"
    using new_server_ready [OF s(1)] server_run_fold [of s evs] by (simp add: s(2) server_run_def)
  moreover have "mw_listens w (address (mo_config r)) (port (mo_config r)) = Ret ()" using new_server_ready [OF s(1)] by simp
  ultimately show ?thesis by simp
qed


section \<open>A program that starts\<close>

definition ones :: "string list \<Rightarrow> string umap" where
  "ones keys = map (\<lambda>k. (k, ''1'')) keys"

definition demo_sections :: "string umap umap" where
  "demo_sections = [(''log'', [(''level'', ''info''), (''rotation'', ''daily'')]), (''error'', [(''locale'', ''en_us'')]), (''access_granted'', []), (''access_denied'', []),
     (''session'', ones session_keys), (''server'', ones server_keys), (''db_shard'', ones [''db_shard_count'', ''db_shard_format'']), (''db_000'', ones dbpool_keys),
     (''db_001'', ones dbpool_keys), (''db_etc'', ones dbpool_keys), (''rd_shard'', ones [''rd_shard_count'', ''rd_shard_format'']),
     (''rd_rnk'', ones [''host'', ''port'', ''pool_size'', ''timeout_sec''])]"

definition demo_tree :: ptree where
  "demo_tree = Node [] (map (\<lambda>(k, items). (k, Node [] (map (\<lambda>(k, v). (k, Node v [])) items))) demo_sections)"

definition demo_world :: main_world where
  "demo_world = \<lparr>mw_outside = \<lparr>o_exists = (\<lambda>_. True), o_read_json = (\<lambda>f. Ret (if f = ''../cfg/develop.json'' then demo_tree else Node [] [])), o_strtod = (\<lambda>_. 1),
       o_lexical_bool = (\<lambda>_. Ret True)\<rparr>, mw_strtod = (\<lambda>_. 1), mw_db_ping = (\<lambda>_. Ret True), mw_rd_ping = (\<lambda>_. Ret True), mw_listens = (\<lambda>_ _. Ret ()),
     mw_log = (minute 0, ''10:00,''), mw_what = (\<lambda>_. ''error'')\<rparr>"

definition demo_accepts :: "nat server_event list" where
  "demo_accepts = [Accepted (Some 7), Accepted None, Accepted (Some 8), Signalled (Some SIGTERM), Accepted (Some 9)]"

lemma demo_one: "strtoull ''1'' = 1" "strtoul ''1'' = 1"
proof -
  have "strto (- c) c ''1'' = 1" if "1 \<le> c" for c
    using strto_dec_nat [of "- c" 1 c] that by (simp add: dec_eval)
  from this [of 18446744073709551616] this [of 4294967296] show "strtoull ''1'' = 1" "strtoul ''1'' = 1"
    by (simp_all add: strtoull_def strtoul_def)
qed

lemma fold_insert_distinct:
  "distinct (map fst m @ map fst l) \<Longrightarrow> fold (\<lambda>(k, v). umap_insert k (f v)) l m = m @ map (\<lambda>(k, v). (k, f v)) l"
proof (induction l arbitrary: m)
  case (Cons a l)
  obtain k v where a: "a = (k, v)" by (cases a)
  have "map_of m k = None" using Cons.prems a by (auto simp: map_of_eq_None_iff)
  then show ?case using Cons a by (simp add: umap_insert_def)
qed simp

lemma demo_distinct: "distinct (map fst demo_sections)" "\<forall>(k, items) \<in> set demo_sections. distinct (map fst items)"
  by (simp_all add: demo_sections_def ones_def session_keys_def server_keys_def dbpool_keys_def)

lemma demo_read: "read_sections demo_tree [] = demo_sections"
proof -
  have sec: "read_section (Node [] (map (\<lambda>(k, v). (k, Node v [])) items)) = items" if "distinct (map fst items)" for items
    using fold_insert_distinct [of "[]" "map (\<lambda>(k, v). (k, Node v [])) items" get_value] that
    by (simp add: read_section_def comp_def case_prod_beta)
  have "read_sections demo_tree [] = map (\<lambda>(k, items). (k, read_section (Node [] (map (\<lambda>(k, v). (k, Node v [])) items)))) demo_sections"
    using fold_insert_distinct [of "[]" "map (\<lambda>(k, items). (k, Node [] (map (\<lambda>(k, v). (k, Node v [])) items))) demo_sections" read_section] demo_distinct(1)
    by (simp add: read_sections_def demo_tree_def comp_def case_prod_beta)
  also have "\<dots> = map (\<lambda>x. x) demo_sections" by (rule map_cong) (use demo_distinct(2) sec in auto)
  finally show ?thesis by simp
qed

lemma demo_config:
  "\<exists>cfg. config_init (mw_outside demo_world) ''0.0.0.0'' ''../cfg/develop.json'' new_config = Ret (True, cfg) \<and> cfg_map cfg = demo_sections \<and> log_level cfg = ''info'' \<and>
     log_rotation cfg = ''daily'' \<and> num_threads cfg = 1"
  using demo_read
  by (simp add: config_init_def demo_world_def and_then_def with_section_def new_config_def) (simp add: demo_sections_def ones_def log_key_def error_key_def
      session_keys_def session_key_def server_keys_def server_key_def demo_one Let_def)


definition demo_pool :: pool_settings where
  "demo_pool = \<lparr>ps_host = ''1'', ps_userid = ''1'', ps_passwd = ''1'', ps_database = ''1'', ps_port = 1, ps_charset = ''1'', ps_pool_size = 1, ps_timeout = 1\<rparr>"

lemma demo_pools:
  "db_init_pool (\<lambda>_. 1) (ones dbpool_keys) new_pool_settings = Ret (True, demo_pool)"
  "rd_init_pool (\<lambda>_. 1) (ones [''host'', ''port'', ''pool_size'', ''timeout_sec'']) new_pool_settings =
     Ret (True, new_pool_settings\<lparr>ps_host := ''1'', ps_port := 1, ps_pool_size := 1, ps_timeout := 1\<rparr>)"
  "ps_pool_size p = 1 \<Longrightarrow> \<exists>s. fill_pool (\<lambda>_. Ret True) p new_shared = Ret (True, s)"
  by (simp_all add: db_init_pool_def rd_init_pool_def ones_def dbpool_keys_def dbpool_key_def rdpool_key_def new_pool_settings_def demo_one demo_pool_def
      fill_pool_def eval_nat_numeral Let_def)

lemma demo_shards:
  assumes "cfg_map cfg = demo_sections"
  shows "\<exists>d. database_init (\<lambda>_. 1) (\<lambda>_. Ret True) cfg [''db_000'', ''db_001'', ''db_etc''] new_shard_set = Ret (True, d)"
    and "\<exists>d. redis_init (\<lambda>_. 1) (\<lambda>_. Ret True) cfg [''rd_rnk''] new_shard_set = Ret (True, d)"
proof -
  obtain s where s: "fill_pool (\<lambda>_. Ret True) demo_pool new_shared = Ret (True, s)" using demo_pools(3) by (force simp: demo_pool_def)
  obtain t where t: "fill_pool (\<lambda>_. Ret True) (new_pool_settings\<lparr>ps_host := ''1'', ps_port := 1, ps_pool_size := 1, ps_timeout := 1\<rparr>) new_shared = Ret (True, t)"
    using demo_pools(3) by force
  have g: "config_get ''db_shard'' cfg = Ret (ones [''db_shard_count'', ''db_shard_format''])" "config_get ''db_000'' cfg = Ret (ones dbpool_keys)"
    "config_get ''db_001'' cfg = Ret (ones dbpool_keys)" "config_get ''db_etc'' cfg = Ret (ones dbpool_keys)"
    "config_get ''rd_shard'' cfg = Ret (ones [''rd_shard_count'', ''rd_shard_format''])" "config_get ''rd_rnk'' cfg = Ret (ones [''host'', ''port'', ''pool_size'', ''timeout_sec''])"
    by (simp_all add: config_get_def assms demo_sections_def)
  show "\<exists>d. database_init (\<lambda>_. 1) (\<lambda>_. Ret True) cfg [''db_000'', ''db_001'', ''db_etc''] new_shard_set = Ret (True, d)"
    using g(1-4) demo_pools(1) s by (simp add: database_init_def shards_init_def shard_key_def ones_def)
  show "\<exists>d. redis_init (\<lambda>_. 1) (\<lambda>_. Ret True) cfg [''rd_rnk''] new_shard_set = Ret (True, d)"
    using g(5,6) demo_pools(2) t by (simp add: redis_init_def shards_init_def shard_key_def ones_def)
qed


lemma demo_logs:
  assumes "lg_created lg = minute 0"
  shows "\<exists>lg'. log_statement level (minute 0) stamp vs lg = Ret lg'"
proof -
  have t: "le_time (log_values vs (new_log lg level (minute 0) stamp)) = minute 0"
  proof -
    have "le_time (fold log_next xs e) = le_time e" for xs e by (induction xs arbitrary: e) (auto simp: log_next_def)
    then show ?thesis by (cases vs) (auto simp: log_first_def new_log_def)
  qed
  show ?thesis using assms by (simp add: log_statement_def delete_log_def logger_write_def rotate_def ending_def t)
qed

lemma demo_main: "\<exists>r s. main demo_world [] (new_logger (minute 0) Map.empty) demo_accepts = Ret r \<and> mo_server r = Some s \<and> num_threads (mo_config r) = 1"
proof -
  let ?lg = "log_file ''../log/develop.csv'' (new_logger (minute 0) Map.empty)"
  obtain cfg where c: "config_init (mw_outside demo_world) ''0.0.0.0'' ''../cfg/develop.json'' new_config = Ret (True, cfg)" "cfg_map cfg = demo_sections"
    "log_level cfg = ''info''" "log_rotation cfg = ''daily''" "num_threads cfg = 1" using demo_config by blast
  obtain db where db: "database_init (\<lambda>_. 1) (\<lambda>_. Ret True) cfg [''db_000'', ''db_001'', ''db_etc''] new_shard_set = Ret (True, db)" using demo_shards(1) [OF c(2)] by blast
  obtain rd where rd: "redis_init (\<lambda>_. 1) (\<lambda>_. Ret True) cfg [''rd_rnk''] new_shard_set = Ret (True, rd)" using demo_shards(2) [OF c(2)] by blast
  let ?lg' = "post (Configure Info Daily) ?lg"
  have i: "init cfg ?lg = (True, ?lg')" using c(3,4) by (simp add: init_def level_of_def rotation_of_def)
  have "lg_created ?lg' = minute 0" by (simp add: log_file_def post_def new_logger_def)
  then obtain lg2 where "log_statement Info (minute 0) ''10:00,'' [if ssl cfg then ''server_ssl starting..'' else ''server starting..''] ?lg' = Ret lg2"
    using demo_logs by blast
  then show ?thesis using c(1,5) db rd i
    by (simp add: main_def guarded_def main_logger_def main_database_def main_redis_def main_serve_def new_server_def Let_def demo_world_def)
qed

theorem main_serves_ready_witness:
  "\<exists>r sv. main demo_world [] (new_logger (minute 0) Map.empty) demo_accepts = Ret r \<and> mo_server r = Some sv \<and> filled_pools 3 (mo_db r) \<and> filled_pools 1 (mo_rd r) \<and>
     sv_started sv = [7, 8] \<and> sv_stopped sv"
proof -
  obtain r sv where r: "main demo_world [] (new_logger (minute 0) Map.empty) demo_accepts = Ret r" "mo_server r = Some sv" "num_threads (mo_config r) = 1"
    using demo_main by blast
  show ?thesis using main_serves_ready [OF r(1,2)] r by (simp add: demo_accepts_def stops_def)
qed

end
