(* ===== verification/Utility.thy ===== *)
theory Utility
  imports Cpp_Prelude
begin

text \<open>
  The helpers of \<^verbatim>\<open>src/src/utility.cpp\<close>: file extensions, case-insensitive comparison, text
  between separators, percent encoding and base64. A byte of a string is a number below 256 where
  the code computes with it. The theory shows the two round trips, that encoded text uses only
  its alphabet, and that the comparisons agree with comparing upper-case prefixes.
\<close>

unbundle bit_operations_syntax

section \<open>Text\<close>

definition get_extension :: "string \<Rightarrow> string cpp" where
  "get_extension path =
     (let last_slash_pos = find_last_of path ''/''; last_dot_pos = find_last_of path ''.'' in
      if last_dot_pos \<noteq> npos \<and> last_slash_pos < last_dot_pos then substr path (last_dot_pos + 1) npos
      else Ret [])"

fun upper_equal :: "string \<Rightarrow> string \<Rightarrow> bool" where
  "upper_equal (a # s) (b # t) = (if c_toupper a \<noteq> c_toupper b then False else upper_equal s t)"
| "upper_equal _ _ = True"

definition strings_are_equal :: "string \<Rightarrow> string \<Rightarrow> bool" where
  "strings_are_equal s1 s2 = (if \<not> upper_equal s1 s2 then False else length s2 = length s1)"

definition strings_are_equal_n :: "string \<Rightarrow> string \<Rightarrow> nat \<Rightarrow> bool" where
  "strings_are_equal_n s1 s2 n =
     (let good = (n \<le> length s1 \<and> n \<le> length s2);
          l1 = (if good then take n s1 else s1); l2 = (if good then take n s2 else s2)
      in if \<not> upper_equal l1 l2 then False else good)"

definition extract_between :: "string \<Rightarrow> string \<Rightarrow> string \<Rightarrow> string cpp" where
  "extract_between data separator1 separator2 =
     (let start = str_find data separator1 0 in
      if start \<noteq> npos then
        let start = start + length separator1; limit = str_find data separator2 start in
        if limit \<noteq> npos then substr data start (limit - start) else Ret []
      else Ret [])"

definition extract_between_same :: "string \<Rightarrow> string \<Rightarrow> string cpp" where
  "extract_between_same datas separators = extract_between datas separators separators"

section \<open>Percent encoding\<close>

definition char2hex :: "char \<Rightarrow> string" where
  "char2hex c =
     (let first = (schar c AND 0xF0) div 16;
          first = first + (if first > 9 then 65 - 10 else 48);
          second = schar c AND 0x0F;
          second = second + (if second > 9 then 65 - 10 else 48)
      in [to_char first, to_char second])"

definition hex2char :: "char \<Rightarrow> char \<Rightarrow> char" where
  "hex2char first second =
     (let val = (\<lambda>c. if schar c \<ge> 65 then ((schar c AND 0xDF) - 65) + 10 else schar c - 48) in
      to_char (val first * 16 + val second))"

definition unreserved :: "char \<Rightarrow> bool" where
  "unreserved c \<longleftrightarrow> c_isalnum c \<or> c \<in> set ''-_.!~*()'' \<or> c = CHR 0x27"

definition percent_encode :: "string \<Rightarrow> string" where
  "percent_encode src =
     concat (map (\<lambda>c. if c = CHR '' '' then ''%20'' else if unreserved c then [c] else CHR ''%'' # char2hex c) src)"

text \<open>
  The test of the distance to the end lets \<^verbatim>\<open>*(iter + 2)\<close> be the end of the string, where the
  terminator is stored.
\<close>

fun percent_decode :: "string \<Rightarrow> string" where
  "percent_decode [] = []"
| "percent_decode (c # s) =
     (if c = CHR ''+'' then CHR '' '' # percent_decode s
      else if c = CHR ''%'' then
        (case s of
           a # b # s' \<Rightarrow>
             if c_isxdigit a \<and> c_isxdigit b then hex2char a b # percent_decode s' else CHR ''%'' # percent_decode s
         | [a] \<Rightarrow> if c_isxdigit a \<and> c_isxdigit NUL then [hex2char a NUL] else CHR ''%'' # percent_decode s
         | [] \<Rightarrow> CHR ''%'' # percent_decode s)
      else c # percent_decode s)"

section \<open>Base64\<close>

definition base64_chars :: string where
  "base64_chars = ''ABCDEFGHIJKLMNOPQRSTUVWXYZabcdefghijklmnopqrstuvwxyz0123456789+/''"

definition is_base64 :: "char \<Rightarrow> bool" where
  "is_base64 c \<longleftrightarrow> c_isalnum c \<or> c = CHR ''+'' \<or> c = CHR ''/''"

text \<open>Three bytes to four indices and back; the arithmetic is on \<^verbatim>\<open>unsigned char\<close>.\<close>

definition pack4 :: "nat list \<Rightarrow> nat list" where
  "pack4 a =
     [drop_bit 2 (a ! 0 AND 0xfc),
      (push_bit 4 (a ! 0 AND 0x03) + drop_bit 4 (a ! 1 AND 0xf0)) mod 256,
      (push_bit 2 (a ! 1 AND 0x0f) + drop_bit 6 (a ! 2 AND 0xc0)) mod 256,
      a ! 2 AND 0x3f]"

definition pack3 :: "nat list \<Rightarrow> nat list" where
  "pack3 a =
     [(push_bit 2 (a ! 0) + drop_bit 4 (a ! 1 AND 0x30)) mod 256,
      (push_bit 4 (a ! 1 AND 0xf) + drop_bit 2 (a ! 2 AND 0x3c)) mod 256,
      (push_bit 6 (a ! 2 AND 0x3) + a ! 3) mod 256]"

text \<open>
  The loops: \<open>buf\<close> holds the \<open>i\<close> bytes stored so far of the group. The lengths are kept in
  32-bit integers, so only the length modulo two to the 32 is processed.
\<close>

fun encode_loop :: "string \<Rightarrow> nat list \<Rightarrow> string \<Rightarrow> string \<times> nat list" where
  "encode_loop [] buf ret = (ret, buf)"
| "encode_loop (c # s) buf ret =
     (let buf = buf @ [of_char c] in
      if length buf = 3 then encode_loop s [] (ret @ map (\<lambda>i. base64_chars ! i) (pack4 buf))
      else encode_loop s buf ret)"

definition base64_encode :: "string \<Rightarrow> string" where
  "base64_encode src =
     (let (ret, buf) = encode_loop (take (length src mod 4294967296) src) [] []; i = length buf in
      if i \<noteq> 0 then
        ret @ map (\<lambda>j. base64_chars ! j) (take (i + 1) (pack4 (buf @ replicate (3 - i) 0))) @ replicate (3 - i) (CHR ''='')
      else ret)"

definition chars_find :: "char \<Rightarrow> nat" where
  "chars_find c = str_find base64_chars [c] 0 mod 256"

fun decode_loop :: "string \<Rightarrow> string \<Rightarrow> string \<Rightarrow> string \<times> string" where
  "decode_loop [] buf ret = (ret, buf)"
| "decode_loop (c # s) buf ret =
     (if c \<noteq> CHR ''='' \<and> is_base64 c then
        let buf = buf @ [c] in
        if length buf = 4 then decode_loop s [] (ret @ map char_of (pack3 (map chars_find buf)))
        else decode_loop s buf ret
      else (ret, buf))"

definition base64_decode :: "string \<Rightarrow> string" where
  "base64_decode src =
     (let (ret, buf) = decode_loop (take (length src mod 4294967296) src) [] []; i = length buf in
      if i \<noteq> 0 then
        ret @ map char_of (take (i - 1) (pack3 (map chars_find (buf @ replicate (4 - i) NUL))))
      else ret)"

section \<open>Percent encoding is inverted by decoding\<close>

definition hex_char :: "int \<Rightarrow> char" where
  "hex_char h = to_char (h + (if h > 9 then 65 - 10 else 48))"

definition hex_val :: "char \<Rightarrow> int" where
  "hex_val c = (if schar c \<ge> 65 then ((schar c AND 0xDF) - 65) + 10 else schar c - 48)"

lemma hex_digit_cases:
  fixes h :: int
  assumes "0 \<le> h" "h < 16"
  shows "h \<in> {0, 1, 2, 3, 4, 5, 6, 7, 8, 9, 10, 11, 12, 13, 14, 15}"
  using assms unfolding insert_iff empty_iff by presburger

lemma of_char_bounds: "0 \<le> (of_char c :: int)" "(of_char c :: int) < 256"
  using nat_of_char_less_256 [of c] of_nat_of_char [of c, where 'a = int] by linarith+

lemma hex_char_numeral:
  "hex_char 0 = CHR ''0''" "hex_char 1 = CHR ''1''" "hex_char 2 = CHR ''2''" "hex_char 3 = CHR ''3''"
  "hex_char 4 = CHR ''4''" "hex_char 5 = CHR ''5''" "hex_char 6 = CHR ''6''" "hex_char 7 = CHR ''7''"
  "hex_char 8 = CHR ''8''" "hex_char 9 = CHR ''9''" "hex_char 10 = CHR ''A''" "hex_char 11 = CHR ''B''"
  "hex_char 12 = CHR ''C''" "hex_char 13 = CHR ''D''" "hex_char 14 = CHR ''E''" "hex_char 15 = CHR ''F''"
  by (simp_all add: hex_char_def to_char_def char_of_def bit_0)

lemma hex_val_char:
  "hex_val CHR ''0'' = 0" "hex_val CHR ''1'' = 1" "hex_val CHR ''2'' = 2" "hex_val CHR ''3'' = 3"
  "hex_val CHR ''4'' = 4" "hex_val CHR ''5'' = 5" "hex_val CHR ''6'' = 6" "hex_val CHR ''7'' = 7"
  "hex_val CHR ''8'' = 8" "hex_val CHR ''9'' = 9" "hex_val CHR ''A'' = 10" "hex_val CHR ''B'' = 11"
  "hex_val CHR ''C'' = 12" "hex_val CHR ''D'' = 13" "hex_val CHR ''E'' = 14" "hex_val CHR ''F'' = 15"
  by (simp_all add: hex_val_def schar_def)

lemma hex_char_xdigit: "c \<in> set ''0123456789ABCDEF'' \<Longrightarrow> c_isxdigit c"
  by (auto simp: c_isxdigit_def c_isdigit_def)

lemma hex_char_props:
  assumes "0 \<le> h" "h < 16"
  shows "c_isxdigit (hex_char h) \<and> hex_val (hex_char h) = h"
proof -
  have "hex_char h \<in> set ''0123456789ABCDEF'' \<and> hex_val (hex_char h) = h"
    using hex_digit_cases [OF assms] by (elim insertE emptyE) (simp_all only: hex_char_numeral hex_val_char, simp_all)
  then show ?thesis using hex_char_xdigit by blast
qed

lemma schar_nibbles: "schar c AND 0x0F = of_char c mod 16" "(schar c AND 0xF0) div 16 = of_char c div 16"
proof -
  let ?n = "of_char c :: int"
  have n: "0 \<le> ?n" "?n < 256" by (rule of_char_bounds)+
  show "schar c AND 0x0F = ?n mod 16"
  proof -
    have "schar c AND 0x0F = schar c mod 16"
      using take_bit_eq_mask [of 4 "schar c"] by (simp add: mask_eq_exp_minus_1 take_bit_eq_mod)
    also have "\<dots> = ?n mod 16" using mod_mult_self1 [of ?n "- 16" 16] by (simp add: schar_def Let_def)
    finally show ?thesis .
  qed
  have "(schar c AND 0xF0) div 16 = drop_bit 4 (schar c AND 0xF0)" by (simp add: drop_bit_eq_div)
  also have "\<dots> = drop_bit 4 (schar c) AND 0x0F" by (simp add: drop_bit_and)
  also have "\<dots> = schar c div 16 mod 16"
    using take_bit_eq_mask [of 4 "drop_bit 4 (schar c)"] by (simp add: mask_eq_exp_minus_1 take_bit_eq_mod drop_bit_eq_div)
  also have "\<dots> = ?n div 16"
  proof -
    have "?n div 16 < 16" "0 \<le> ?n div 16" using n by linarith+
    then show ?thesis using div_mult_self1 [of 16 ?n "- 16"] mod_mult_self1 [of "?n div 16" "- 1" 16] by (simp add: schar_def Let_def)
  qed
  finally show "(schar c AND 0xF0) div 16 = ?n div 16" .
qed

lemma to_char_of_char: "to_char (of_char c) = c"
  by (simp add: to_char_def)

lemma char2hex_decodes: "\<exists>a b. char2hex c = [a, b] \<and> c_isxdigit a \<and> c_isxdigit b \<and> hex2char a b = c"
proof -
  let ?n = "of_char c :: int"
  let ?a = "hex_char (?n div 16)" and ?b = "hex_char (?n mod 16)"
  have n: "0 \<le> ?n" "?n < 256" by (rule of_char_bounds)+
  have "0 \<le> ?n div 16" "?n div 16 < 16" using n by auto
  from hex_char_props [OF this] have a: "c_isxdigit ?a" "hex_val ?a = ?n div 16" by auto
  have b: "c_isxdigit ?b" "hex_val ?b = ?n mod 16" using hex_char_props [of "?n mod 16"] by auto
  have "char2hex c = [?a, ?b]" by (simp add: char2hex_def Let_def schar_nibbles hex_char_def)
  moreover have "hex2char ?a ?b = to_char (hex_val ?a * 16 + hex_val ?b)" by (simp add: hex2char_def hex_val_def Let_def)
  then have "hex2char ?a ?b = c" by (simp add: a b to_char_of_char)
  ultimately show ?thesis using a b by blast
qed

lemma unreserved_not_special: "unreserved c \<Longrightarrow> c \<noteq> CHR ''%'' \<and> c \<noteq> CHR ''+''"
  by (auto simp: unreserved_def c_isalnum_def c_isalpha_def c_isdigit_def)

lemma percent_decode_encode: "percent_decode (percent_encode s @ t) = s @ percent_decode t"
proof (induction s)
  case (Cons c s)
  consider "c = CHR '' ''" | "c \<noteq> CHR '' ''" "unreserved c" | "c \<noteq> CHR '' ''" "\<not> unreserved c" by blast
  then show ?case
  proof cases
    case 1
    then have "percent_encode (c # s) @ t = ''%20'' @ percent_encode s @ t" by (simp add: percent_encode_def)
    then show ?thesis using Cons 1
      by (simp add: c_isxdigit_def c_isdigit_def hex2char_def schar_def to_char_def char_of_def bit_0)
  next
    case 2
    then show ?thesis using Cons unreserved_not_special [of c] by (simp add: percent_encode_def)
  next
    case 3
    obtain a b where ab: "char2hex c = [a, b]" "c_isxdigit a" "c_isxdigit b" "hex2char a b = c" using char2hex_decodes by blast
    then have "percent_encode (c # s) @ t = CHR ''%'' # a # b # percent_encode s @ t" using 3 by (simp add: percent_encode_def)
    then show ?thesis using Cons ab by simp
  qed
qed (simp add: percent_encode_def)

lemma percent_encode_alphabet: "set (percent_encode s) \<subseteq> {c. unreserved c} \<union> {CHR ''%''}"
proof -
  have "c_isxdigit c \<Longrightarrow> unreserved c" for c
    by (auto simp: c_isxdigit_def unreserved_def c_isalnum_def c_isalpha_def)
  then have "set (char2hex c) \<subseteq> {c. unreserved c}" for c using char2hex_decodes [of c] by auto
  moreover have "unreserved (CHR ''2'')" "unreserved (CHR ''0'')" by (simp_all add: unreserved_def c_isalnum_def c_isdigit_def)
  ultimately show ?thesis by (auto simp: percent_encode_def)
qed

section \<open>Base64 decoding inverts encoding\<close>

lemma and_low: "(n :: nat) AND 63 = n mod 64" "(n :: nat) AND 15 = n mod 16" "(n :: nat) AND 3 = n mod 4"
  using take_bit_eq_mask [of 6 n] take_bit_eq_mask [of 4 n] take_bit_eq_mask [of 2 n]
  by (simp_all add: mask_eq_exp_minus_1 take_bit_eq_mod)

lemma and_high:
  "drop_bit 2 ((n :: nat) AND 252) = n div 4 mod 64" "drop_bit 4 ((n :: nat) AND 240) = n div 16 mod 16"
  "drop_bit 6 ((n :: nat) AND 192) = n div 64 mod 4" "drop_bit 4 ((n :: nat) AND 48) = n div 16 mod 4"
  "drop_bit 2 ((n :: nat) AND 60) = n div 4 mod 16"
  unfolding drop_bit_and by (simp_all add: and_low drop_bit_eq_div)

lemmas bit_arith = and_low and_high push_bit_eq_mult drop_bit_eq_div

lemma pack4_arith:
  assumes "a < 256" "b < 256" "c < 256"
  shows "pack4 [a, b, c] = [a div 4, a mod 4 * 16 + b div 16, b mod 16 * 4 + c div 64, c mod 64]"
  using assms unfolding pack4_def and_high by (simp add: bit_arith numeral_2_eq_2 [symmetric])

lemma pack3_arith:
  assumes "w < 64" "x < 64" "y < 64"
  shows "pack3 [w, x, y, z] = [w * 4 + x div 16, x mod 16 * 16 + y div 4, (y mod 4 * 64 + z) mod 256]"
  using assms unfolding pack3_def and_high by (simp add: bit_arith numeral_2_eq_2 [symmetric] numeral_3_eq_3 [symmetric])

abbreviation b64 :: "nat \<Rightarrow> char" where "b64 i \<equiv> base64_chars ! i"

lemma base64_chars_props: "length base64_chars = 64" "distinct base64_chars" "\<forall>c \<in> set base64_chars. is_base64 c \<and> c \<noteq> CHR ''=''"
  by (simp_all add: base64_chars_def is_base64_def c_isalnum_def c_isalpha_def c_isdigit_def)

lemma b64_props:
  assumes "i < 64"
  shows "is_base64 (b64 i)" "b64 i \<noteq> CHR ''=''" "chars_find (b64 i) = i"
proof -
  show "is_base64 (b64 i)" "b64 i \<noteq> CHR ''=''" using base64_chars_props assms by auto
  have "\<forall>j < i. base64_chars ! j \<noteq> b64 i"
    using assms base64_chars_props(1,2) by (metis less_trans nat_neq_iff nth_eq_iff_index_eq)
  then have "index_of (\<lambda>x. x = b64 i) base64_chars = Some i" using assms base64_chars_props(1) by (auto simp: index_of_Some)
  then show "chars_find (b64 i) = i" using assms by (simp add: chars_find_def str_find_def occurs_at_single)
qed

lemma chars_find_NUL: "chars_find NUL = 255"
proof -
  have "index_of (\<lambda>x. x = NUL) base64_chars = None" by (simp add: index_of_None base64_chars_def)
  then show ?thesis by (simp add: chars_find_def str_find_def occurs_at_single npos_def)
qed

text \<open>The indices of the three bytes of a group.\<close>

definition sextets :: "char \<Rightarrow> char \<Rightarrow> char \<Rightarrow> nat list" where
  "sextets a b c =
     [of_char a div 4, of_char a mod 4 * 16 + of_char b div 16, of_char b mod 16 * 4 + of_char c div 64, of_char c mod 64]"

lemma char_lt [simp]: "(of_char c :: nat) < 256"
  by (rule nat_of_char_less_256)

lemma pack4_group: "pack4 [of_char a, of_char b, of_char c] = sextets a b c"
  by (simp add: pack4_arith sextets_def)

lemma mix_lt: "(x :: nat) < m \<Longrightarrow> y < k \<Longrightarrow> x * k + y < m * k"
proof -
  assume "x < m" "y < k"
  then have "x * k + y < Suc x * k" "Suc x * k \<le> m * k" by (simp, intro mult_le_mono1, simp)
  then show "x * k + y < m * k" by (rule less_le_trans)
qed

lemma group_bounds: "i \<in> set (sextets a b c) \<Longrightarrow> i < 64"
proof -
  have "of_char a div 4 < (64 :: nat)" "of_char b div 16 < (16 :: nat)" "of_char c div 64 < (4 :: nat)"
    using char_lt [of a] char_lt [of b] char_lt [of c] by linarith+
  then have "of_char a mod 4 * 16 + of_char b div 16 < (64 :: nat)" "of_char b mod 16 * 4 + of_char c div 64 < (64 :: nat)"
    using mix_lt [of "of_char a mod 4" 4 "of_char b div 16" 16] mix_lt [of "of_char b mod 16" 16 "of_char c div 64" 4] by simp_all
  moreover assume "i \<in> set (sextets a b c)"
  ultimately show "i < 64" using \<open>of_char a div 4 < 64\<close> by (auto simp: sextets_def)
qed

lemma pack3_bytes:
  fixes a b c :: nat
  assumes "a < 256" "b < 256" "c < 256"
  shows "pack3 [a div 4, a mod 4 * 16 + b div 16, b mod 16 * 4 + c div 64, c mod 64] = [a, b, c]"
proof -
  have h: "a div 4 < 64" "b div 16 < 16" "c div 64 < 4" using assms by linarith+
  then have lt: "a mod 4 * 16 + b div 16 < 64" "b mod 16 * 4 + c div 64 < 64" 
    using mix_lt [of "a mod 4" 4 "b div 16" 16] mix_lt [of "b mod 16" 16 "c div 64" 4] by simp_all
  have x: "(a mod 4 * 16 + b div 16) div 16 = a mod 4" "(a mod 4 * 16 + b div 16) mod 16 = b div 16" using h(2) by simp_all
  have y: "(b mod 16 * 4 + c div 64) div 4 = b mod 16" "(b mod 16 * 4 + c div 64) mod 4 = c div 64" using h(3) by simp_all
  show ?thesis using assms by (simp add: pack3_arith [OF h(1) lt] x y)
qed

lemma pack3_group: "pack3 (sextets a b c) = [of_char a, of_char b, of_char c]"
  by (simp add: sextets_def pack3_bytes)

lemma encode_loop_group: "encode_loop (a # b # c # s) [] ret = encode_loop s [] (ret @ map b64 (sextets a b c))"
  by (simp add: pack4_group)

lemma length_group: "length (sextets a b c) = 4"
  by (simp add: sextets_def)

lemma group_nonempty [simp]: "sextets a b c \<noteq> []"
  by (simp add: sextets_def)

lemma group_list: obtains w x y z where "sextets a b c = [w, x, y, z]" "w < 64" "x < 64" "y < 64" "z < 64"
  by (rule that [OF sextets_def]) (auto intro!: group_bounds [of _ a b c] simp: sextets_def)

lemma decode_loop_group: "decode_loop (map b64 (sextets a b c) @ t) [] ret = decode_loop t [] (ret @ [a, b, c])"
proof -
  obtain w x y z where g: "sextets a b c = [w, x, y, z]" "w < 64" "x < 64" "y < 64" "z < 64" by (rule group_list)
  have "decode_loop (map b64 (sextets a b c) @ t) [] ret = decode_loop t [] (ret @ map char_of (pack3 [w, x, y, z]))"
    using g(2-5) by (simp add: g(1) b64_props Let_def)
  then show ?thesis using pack3_group [of a b c] g(1) by simp
qed

lemma encode_loop_ret: "encode_loop s buf ret = (ret @ fst (encode_loop s buf []), snd (encode_loop s buf []))"
proof (induction s arbitrary: buf ret)
  case (Cons c s)
  show ?case
  proof (cases "length (buf @ [of_char c]) = 3")
    case True
    let ?x = "map b64 (pack4 (buf @ [of_char c]))"
    show ?thesis using Cons.IH [of "[]" "ret @ ?x"] Cons.IH [of "[]" ?x] True by (simp add: Let_def)
  next
    case False
    then show ?thesis using Cons.IH [of "buf @ [of_char c]" ret] by (simp add: Let_def)
  qed
qed simp

lemma length_encode_loop:
  assumes "length s = 3 * k + r" "r < 3"
  shows "length (fst (encode_loop s [] [])) = 4 * k \<and> length (snd (encode_loop s [] [])) = r"
  using assms
proof (induction k arbitrary: s)
  case 0
  then consider "s = []" | a where "s = [a]" | a b where "s = [a, b]" by (cases s; cases "tl s"; cases "tl (tl s)") auto
  then show ?case using 0 by cases auto
next
  case (Suc k)
  then obtain a b c t where s: "s = a # b # c # t" "length t = 3 * k + r" by (cases s; cases "tl s"; cases "tl (tl s)") auto
  from Suc.IH [OF s(2) Suc.prems(2)] show ?case
    using encode_loop_group [of a b c t "[]"] encode_loop_ret [of t "[]" "map b64 (sextets a b c)"]
    by (simp add: s(1) length_group del: encode_loop.simps)
qed

lemma decode_loop_encode:
  "decode_loop (fst (encode_loop s [] []) @ t) [] ret =
   decode_loop t [] (ret @ take (length s - length (snd (encode_loop s [] []))) s)"
proof (induction "length s" arbitrary: s ret rule: less_induct)
  case less
  consider "s = []" | a where "s = [a]" | a b where "s = [a, b]" | a b c u where "s = a # b # c # u"
    by (cases s; cases "tl s"; cases "tl (tl s)") auto
  then show ?case
  proof cases
    case 4
    obtain k r where kr: "length u = 3 * k + r" "r < 3" by (metis mod_less_divisor mult_div_mod_eq zero_less_numeral)
    have e: "encode_loop s [] [] = (map b64 (sextets a b c) @ fst (encode_loop u [] []), snd (encode_loop u [] []))"
      using encode_loop_group [of a b c u "[]"] encode_loop_ret [of u "[]" "map b64 (sextets a b c)"] 4 by simp
    have r: "length (snd (encode_loop u [] [])) \<le> length u" using length_encode_loop [OF kr] kr by simp
    have "decode_loop (fst (encode_loop s [] []) @ t) [] ret = decode_loop (fst (encode_loop u [] []) @ t) [] (ret @ [a, b, c])"
      by (simp add: e decode_loop_group)
    also have "\<dots> = decode_loop t [] ((ret @ [a, b, c]) @ take (length u - length (snd (encode_loop u [] []))) u)"
      by (rule less) (simp add: 4)
    finally show ?thesis using r unfolding e by (simp add: 4 Suc_diff_le)
  qed auto
qed

lemma encode_loop_buf:
  "snd (encode_loop s [] []) = map of_char (drop (length s - length (snd (encode_loop s [] []))) s)"
proof (induction "length s" arbitrary: s rule: less_induct)
  case less
  consider "s = []" | a where "s = [a]" | a b where "s = [a, b]" | a b c u where "s = a # b # c # u"
    by (cases s; cases "tl s"; cases "tl (tl s)") auto
  then show ?case
  proof cases
    case 4
    obtain k r where kr: "length u = 3 * k + r" "r < 3" by (metis mod_less_divisor mult_div_mod_eq zero_less_numeral)
    have e: "snd (encode_loop s [] []) = snd (encode_loop u [] [])"
      using encode_loop_group [of a b c u "[]"] encode_loop_ret [of u "[]" "map b64 (sextets a b c)"] 4 by simp
    have r: "length (snd (encode_loop u [] [])) \<le> length u" using length_encode_loop [OF kr] kr by simp
    show ?thesis using less [of u] r unfolding e by (simp add: 4 Suc_diff_le)
  qed auto
qed

text \<open>The last group of one or two bytes.\<close>

lemma pack4_tail:
  "take 2 (pack4 [of_char a, 0, 0]) = take 2 (sextets a NUL NUL)"
  "take 3 (pack4 [of_char a, of_char b, 0]) = take 3 (sextets a b NUL)"
  using pack4_group [of a NUL NUL] pack4_group [of a b NUL] by simp_all

lemma decode_tail1:
  "decode_loop (map b64 (take 2 (sextets a NUL NUL)) @ ''=='') [] ret = (ret, map b64 (take 2 (sextets a NUL NUL)))"
  "take 1 (pack3 (map chars_find (map b64 (take 2 (sextets a NUL NUL)) @ [NUL, NUL]))) = [of_char a]"
proof -
  obtain w x y z where g: "sextets a NUL NUL = [w, x, y, z]" "w < 64" "x < 64" "y < 64" "z < 64" by (rule group_list)
  show "decode_loop (map b64 (take 2 (sextets a NUL NUL)) @ ''=='') [] ret = (ret, map b64 (take 2 (sextets a NUL NUL)))"
    using g by (simp add: b64_props Let_def)
  have "take 1 (pack3 [w, x, y, z]) = [of_char a]" using pack3_group [of a NUL NUL] g(1) by simp
  then show "take 1 (pack3 (map chars_find (map b64 (take 2 (sextets a NUL NUL)) @ [NUL, NUL]))) = [of_char a]"
    using g by (simp add: b64_props pack3_def)
qed

lemma decode_tail2:
  "decode_loop (map b64 (take 3 (sextets a b NUL)) @ ''='') [] ret = (ret, map b64 (take 3 (sextets a b NUL)))"
  "take 2 (pack3 (map chars_find (map b64 (take 3 (sextets a b NUL)) @ [NUL]))) = [of_char a, of_char b]"
proof -
  obtain w x y z where g: "sextets a b NUL = [w, x, y, z]" "w < 64" "x < 64" "y < 64" "z < 64" by (rule group_list)
  show "decode_loop (map b64 (take 3 (sextets a b NUL)) @ ''='') [] ret = (ret, map b64 (take 3 (sextets a b NUL)))"
    using g by (simp add: b64_props Let_def)
  have "take 2 (pack3 [w, x, y, z]) = [of_char a, of_char b]" using pack3_group [of a b NUL] g(1) by simp
  then show "take 2 (pack3 (map chars_find (map b64 (take 3 (sextets a b NUL)) @ [NUL]))) = [of_char a, of_char b]"
    using g by (simp add: b64_props pack3_def)
qed

lemma length_base64_encode:
  assumes "length s < 4294967296"
  shows "length (base64_encode s) = 4 * ((length s + 2) div 3)"
proof -
  obtain k r where kr: "length s = 3 * k + r" "r < 3" by (metis mod_less_divisor mult_div_mod_eq zero_less_numeral)
  note l = length_encode_loop [OF kr]
  have d: "(3 * k + r + 2) div 3 = k + (if r = 0 then 0 else 1)" using kr(2) by auto
  have "length (take (r + 1) (pack4 (snd (encode_loop s [] []) @ replicate (3 - r) 0))) = r + 1" using kr(2) by (simp add: pack4_def)
  moreover have "snd (encode_loop s [] []) = [] \<longleftrightarrow> r = 0" using l by auto
  ultimately show ?thesis using l kr assms d by (auto simp: base64_encode_def case_prod_unfold Let_def)
qed

lemma base64_roundtrip:
  assumes "length s < 3221225470"
  shows "base64_decode (base64_encode s) = s"
proof -
  obtain k r where kr: "length s = 3 * k + r" "r < 3" by (metis mod_less_divisor mult_div_mod_eq zero_less_numeral)
  note l = length_encode_loop [OF kr]
  let ?body = "fst (encode_loop s [] [])" and ?buf = "snd (encode_loop s [] [])"
  define tl where "tl = drop (length s - r) s"
  have tl: "length tl = r" "?buf = map of_char tl" "take (length s - r) s @ tl = s"
    using kr encode_loop_buf [of s] l by (simp_all add: tl_def)
  have mod: "length s mod 4294967296 = length s" using assms by simp
  have "length (base64_encode s) < 4294967296" using length_base64_encode [of s] assms by linarith
  then have dec: "base64_decode (base64_encode s) =
      (let (ret, buf) = decode_loop (base64_encode s) [] []; i = length buf in
       if i \<noteq> 0 then ret @ map char_of (take (i - 1) (pack3 (map chars_find (buf @ replicate (4 - i) NUL)))) else ret)"
    by (simp add: base64_decode_def)
  have enc: "base64_encode s = ?body @ (if r = 0 then [] else
      map b64 (take (r + 1) (pack4 (?buf @ replicate (3 - r) 0))) @ replicate (3 - r) (CHR ''=''))"
    using l by (cases "?buf = []") (auto simp: base64_encode_def mod case_prod_unfold Let_def)
  have loop: "decode_loop (?body @ t) [] [] = decode_loop t [] (take (length s - r) s)" for t
    using decode_loop_encode [of s t "[]"] l by simp
  consider "r = 0" | a where "r = 1" "tl = [a]" | a b where "r = 2" "tl = [a, b]"
    using kr(2) tl(1) by (cases tl; cases "List.tl tl"; cases "List.tl (List.tl tl)") auto
  then show ?thesis
  proof cases
    case 1
    then have "decode_loop (base64_encode s) [] [] = (s, [])" using loop [of "[]"] tl enc by simp
    then show ?thesis by (simp add: dec)
  next
    case 2
    have e: "base64_encode s = ?body @ map b64 (take 2 (sextets a NUL NUL)) @ ''==''"
      using enc tl(2) 2 pack4_tail(1) [of a] by (simp add: numeral_2_eq_2)
    have "decode_loop (base64_encode s) [] [] = (take (length s - r) s, map b64 (take 2 (sextets a NUL NUL)))"
      unfolding e loop by (rule decode_tail1(1))
    then show ?thesis using decode_tail1(2) [of a] tl(3) 2
      by (simp add: dec length_group numeral_2_eq_2)
  next
    case 3
    have e: "base64_encode s = ?body @ map b64 (take 3 (sextets a b NUL)) @ ''=''"
      using enc tl(2) 3 pack4_tail(2) [of a b] by (simp add: numeral_3_eq_3)
    have "decode_loop (base64_encode s) [] [] = (take (length s - r) s, map b64 (take 3 (sextets a b NUL)))"
      unfolding e loop by (rule decode_tail2(1))
    then show ?thesis using decode_tail2(2) [of a b] tl(3) 3
      by (simp add: dec length_group)
  qed
qed

section \<open>Comparison, extensions and separators\<close>

lemma upper_equal_prefix: "upper_equal s t \<longleftrightarrow> (let n = min (length s) (length t) in map c_toupper (take n s) = map c_toupper (take n t))"
  by (induction s t rule: upper_equal.induct) (auto simp: Let_def)

lemma strings_are_equal_iff: "strings_are_equal s t \<longleftrightarrow> map c_toupper s = map c_toupper t"
proof
  assume "strings_are_equal s t"
  then show "map c_toupper s = map c_toupper t" by (simp add: strings_are_equal_def upper_equal_prefix Let_def split: if_splits)
next
  assume a: "map c_toupper s = map c_toupper t"
  then have "length s = length t" by (metis length_map)
  then show "strings_are_equal s t" using a by (simp add: strings_are_equal_def upper_equal_prefix Let_def)
qed

lemma strings_are_equal_n_iff:
  "strings_are_equal_n s t n \<longleftrightarrow> n \<le> length s \<and> n \<le> length t \<and> map c_toupper (take n s) = map c_toupper (take n t)"
  by (auto simp: strings_are_equal_n_def upper_equal_prefix Let_def min_def)

lemma extract_between_total: "\<exists>t. extract_between d a b = Ret t"
proof -
  have "str_find d a 0 + length a \<le> length d" if "str_find d a 0 \<noteq> npos"
    using that occurs_at_Some [of a d] by (auto simp: str_find_def split: option.splits)
  then show ?thesis by (cases "str_find d a 0 = npos") (auto simp: extract_between_def Let_def substr_def)
qed

section \<open>Properties\<close>

text \<open>
  Percent decoding inverts percent encoding on every byte string, and encoded text consists
  of unreserved characters and percent signs only, so it can stand in a URI, a form body or a
  cookie without being split there.
\<close>
theorem percent_roundtrip:
  "percent_decode (percent_encode s) = s \<and> set (percent_encode s) \<subseteq> {c. unreserved c} \<union> {CHR ''%''}"
  using percent_decode_encode [of s "[]"] percent_encode_alphabet by simp



end
