(* ===== verification/Request.thy ===== *)
theory Request
  imports Utility
begin

text \<open>
  The request of \<^verbatim>\<open>src/src/request.hpp\<close> and \<^verbatim>\<open>request.cpp\<close>: name/value pairs, uploads, the
  look-ups that add an empty entry for a missing name, and the connection option.
\<close>

record name_value =
  nv_name :: string
  nv_value :: string

definition name_value :: "string \<Rightarrow> string \<Rightarrow> name_value" where
  "name_value name value = \<lparr>nv_name = name, nv_value = value\<rparr>"

record multipart_header =
  mh_disposition :: string
  mh_name :: string
  mh_filename :: string
  mh_filetype :: string

record multipart_content =
  mc_name :: string
  mc_filename :: string
  mc_filetype :: string
  mc_data :: string

record request =
  remote_addr :: string
  remote_port :: nat
  connection_option :: char
  rq_method :: string
  rq_uri :: string
  http_version_major :: int
  http_version_minor :: int
  headers :: "name_value list"
  rq_content :: string
  content_length :: int
  cookies :: "name_value list"
  params :: "name_value list"
  rest_params :: "string list"
  uploads :: "multipart_content list"

text \<open>A request before anything is parsed into it; the integers are not initialised by the code.\<close>

definition new_request :: request where
  "new_request = \<lparr>remote_addr = [], remote_port = 0, connection_option = NUL, rq_method = [], rq_uri = [],
     http_version_major = 0, http_version_minor = 0, headers = [], rq_content = [], content_length = 0,
     cookies = [], params = [], rest_params = [], uploads = []\<rparr>"

text \<open>
  The look-up the three accessors share: the first pair of that name, added with an empty
  value when there is none. The result is the value and the vector afterwards.
\<close>

fun find_name :: "string \<Rightarrow> name_value list \<Rightarrow> name_value option" where
  "find_name name [] = None"
| "find_name name (nv # nvs) = (if nv_name nv = name then Some nv else find_name name nvs)"

definition lookup_nv :: "string \<Rightarrow> name_value list \<Rightarrow> string \<times> name_value list" where
  "lookup_nv name nvs =
     (case find_name name nvs of
        Some nv \<Rightarrow> (nv_value nv, nvs)
      | None \<Rightarrow> ([], nvs @ [name_value name []]))"

definition header :: "string \<Rightarrow> request \<Rightarrow> string \<times> request" where
  "header name req = (case lookup_nv name (headers req) of (v, nvs) \<Rightarrow> (v, req\<lparr>headers := nvs\<rparr>))"

definition cookie :: "string \<Rightarrow> request \<Rightarrow> string \<times> request" where
  "cookie name req = (case lookup_nv name (cookies req) of (v, nvs) \<Rightarrow> (v, req\<lparr>cookies := nvs\<rparr>))"

definition param :: "string \<Rightarrow> request \<Rightarrow> string \<times> request" where
  "param name req = (case lookup_nv name (params req) of (v, nvs) \<Rightarrow> (v, req\<lparr>params := nvs\<rparr>))"

definition parse_connection_header :: "request \<Rightarrow> request" where
  "parse_connection_header req =
     (let req = req\<lparr>connection_option := CHR ''K''\<rparr>;
          req = (if http_version_major req = 1 \<and> http_version_minor req = 0 then req\<lparr>connection_option := CHR ''c''\<rparr> else req);
          (v, req) = header ''Connection'' req
      in if v \<noteq> [] then case header ''Connection'' req of (v, req) \<Rightarrow> req\<lparr>connection_option := hd v\<rparr> else req)"

section \<open>Laws of the look-ups\<close>

definition value_of :: "string \<Rightarrow> name_value list \<Rightarrow> string" where
  "value_of name nvs = (case find_name name nvs of None \<Rightarrow> [] | Some nv \<Rightarrow> nv_value nv)"

lemma name_value_sel [simp]: "nv_name (name_value n v) = n" "nv_value (name_value n v) = v"
  by (simp_all add: name_value_def)

lemma find_name_append: "find_name n (xs @ ys) = (case find_name n xs of None \<Rightarrow> find_name n ys | Some v \<Rightarrow> Some v)"
  by (induction xs) auto

lemma fst_lookup [simp]: "fst (lookup_nv n nvs) = value_of n nvs"
  by (simp add: lookup_nv_def value_of_def split: option.splits)

lemma value_of_lookup: "value_of m (snd (lookup_nv n nvs)) = value_of m nvs"
  by (auto simp: lookup_nv_def value_of_def find_name_append split: option.splits)

lemma lookup_idem: "snd (lookup_nv n (snd (lookup_nv n nvs))) = snd (lookup_nv n nvs)"
  by (simp add: lookup_nv_def find_name_append split: option.splits)

lemma lookup_prefix: "\<exists>ys. snd (lookup_nv n nvs) = nvs @ ys"
  by (simp add: lookup_nv_def split: option.splits)

lemma fst_header [simp]: "fst (header n req) = value_of n (headers req)"
  by (simp add: header_def case_prod_unfold)

lemma snd_header [simp]: "snd (header n req) = req\<lparr>headers := snd (lookup_nv n (headers req))\<rparr>"
  by (simp add: header_def case_prod_unfold)

lemma connection_option_spec:
  "connection_option (parse_connection_header req) =
     (if value_of ''Connection'' (headers req) \<noteq> [] then hd (value_of ''Connection'' (headers req))
      else if http_version_major req = 1 \<and> http_version_minor req = 0 then CHR ''c'' else CHR ''K'')"
  by (simp add: parse_connection_header_def Let_def case_prod_unfold value_of_lookup)

end
