(* ===== verification/Response.thy ===== *)
theory Response
  imports Request
begin

text \<open>
  The response of \<^verbatim>\<open>src/src/response.hpp\<close> and \<^verbatim>\<open>response.cpp\<close>: status lines, the pages of the
  fixed responses, cookies, redirection and the bytes sent to the client. \<open>unlisted\<close> stands for
  a value of the enumeration type that none of its names has.
\<close>

datatype status_type =
    st_ok | st_created | st_accepted | st_no_content | st_multiple_choices
  | st_moved_permanently | st_moved_temporarily | st_not_modified | st_bad_request
  | st_unauthorized | st_forbidden | st_not_found | st_internal_server_error
  | st_not_implemented | st_bad_gateway | st_service_unavailable | unlisted int

fun to_buffer :: "status_type \<Rightarrow> string" where
  "to_buffer st_ok = ''HTTP/1.1 200 OK'' @ [CHR 0x0D, CHR 0x0A]"
| "to_buffer st_created = ''HTTP/1.1 201 Created'' @ [CHR 0x0D, CHR 0x0A]"
| "to_buffer st_accepted = ''HTTP/1.1 202 Accepted'' @ [CHR 0x0D, CHR 0x0A]"
| "to_buffer st_no_content = ''HTTP/1.1 204 No Content'' @ [CHR 0x0D, CHR 0x0A]"
| "to_buffer st_multiple_choices = ''HTTP/1.1 300 Multiple Choices'' @ [CHR 0x0D, CHR 0x0A]"
| "to_buffer st_moved_permanently = ''HTTP/1.1 301 Moved Permanently'' @ [CHR 0x0D, CHR 0x0A]"
| "to_buffer st_moved_temporarily = ''HTTP/1.1 302 Moved Temporarily'' @ [CHR 0x0D, CHR 0x0A]"
| "to_buffer st_not_modified = ''HTTP/1.1 304 Not Modified'' @ [CHR 0x0D, CHR 0x0A]"
| "to_buffer st_bad_request = ''HTTP/1.1 400 Bad Request'' @ [CHR 0x0D, CHR 0x0A]"
| "to_buffer st_unauthorized = ''HTTP/1.1 401 Unauthorized'' @ [CHR 0x0D, CHR 0x0A]"
| "to_buffer st_forbidden = ''HTTP/1.1 403 Forbidden'' @ [CHR 0x0D, CHR 0x0A]"
| "to_buffer st_not_found = ''HTTP/1.1 404 Not Found'' @ [CHR 0x0D, CHR 0x0A]"
| "to_buffer st_internal_server_error = ''HTTP/1.1 500 Internal Server Error'' @ [CHR 0x0D, CHR 0x0A]"
| "to_buffer st_not_implemented = ''HTTP/1.1 501 Not Implemented'' @ [CHR 0x0D, CHR 0x0A]"
| "to_buffer st_bad_gateway = ''HTTP/1.1 502 Bad Gateway'' @ [CHR 0x0D, CHR 0x0A]"
| "to_buffer st_service_unavailable = ''HTTP/1.1 503 Service Unavailable'' @ [CHR 0x0D, CHR 0x0A]"
| "to_buffer (unlisted i) = ''HTTP/1.1 500 Internal Server Error'' @ [CHR 0x0D, CHR 0x0A]"

definition page :: "string \<Rightarrow> string \<Rightarrow> string" where
  "page title heading =
     ''<html><head><title>'' @ title @ ''</title></head><body><h1>'' @ heading @ ''</h1></body></html>''"

fun static_page :: "status_type \<Rightarrow> string" where
  "static_page st_ok = []"
| "static_page st_created = page ''Created'' ''201 Created''"
| "static_page st_accepted = page ''Accepted'' ''202 Accepted''"
| "static_page st_no_content = page ''No Content'' ''204 Content''"
| "static_page st_multiple_choices = page ''Multiple Choices'' ''300 Multiple Choices''"
| "static_page st_moved_permanently = page ''Moved Permanently'' ''301 Moved Permanently''"
| "static_page st_moved_temporarily = page ''Moved Temporarily'' ''302 Moved Temporarily''"
| "static_page st_not_modified = page ''Not Modified'' ''304 Not Modified''"
| "static_page st_bad_request = page ''Bad Request'' ''400 Bad Request''"
| "static_page st_unauthorized = page ''Unauthorized'' ''401 Unauthorized''"
| "static_page st_forbidden = page ''Forbidden'' ''403 Forbidden''"
| "static_page st_not_found = page ''Not Found'' ''404 Not Found''"
| "static_page st_internal_server_error = page ''Internal Server Error'' ''500 Internal Server Error''"
| "static_page st_not_implemented = page ''Not Implemented'' ''501 Not Implemented''"
| "static_page st_bad_gateway = page ''Bad Gateway'' ''502 Bad Gateway''"
| "static_page st_service_unavailable = page ''Service Unavailable'' ''503 Service Unavailable''"
| "static_page (unlisted i) = page ''Internal Server Error'' ''500 Internal Server Error''"

record response =
  status :: status_type
  res_headers :: "name_value list"
  res_cookies :: "name_value list"
  res_content :: string
  content_extension :: string

definition new_response :: response where
  "new_response = \<lparr>status = unlisted 0, res_headers = [], res_cookies = [], res_content = [], content_extension = []\<rparr>"

text \<open>The first cookie of that name gets the value.\<close>

fun assign_nv :: "string \<Rightarrow> string \<Rightarrow> name_value list \<Rightarrow> name_value list" where
  "assign_nv name value [] = [name_value name value]"
| "assign_nv name value (nv # nvs) = (if nv_name nv = name then nv\<lparr>nv_value := value\<rparr> # nvs else nv # assign_nv name value nvs)"

definition set_cookie :: "string \<Rightarrow> string \<Rightarrow> response \<Rightarrow> response" where
  "set_cookie name value res = res\<lparr>res_cookies := assign_nv name value (res_cookies res)\<rparr>"

definition delete_cookie :: "string \<Rightarrow> response \<Rightarrow> response" where
  "delete_cookie name res = set_cookie name [] res"

definition redirect_to :: "string \<Rightarrow> response \<Rightarrow> response" where
  "redirect_to url res = res\<lparr>res_headers := res_headers res @ [name_value ''Refresh'' (''0; url='' @ url)],
     res_content := '' '', content_extension := ''html''\<rparr>"

definition to_buffers :: "response \<Rightarrow> string list" where
  "to_buffers res =
     [to_buffer (status res)] @
     concat (map (\<lambda>h. [nv_name h, '': '', nv_value h, [CHR 0x0D, CHR 0x0A]]) (res_headers res)) @
     [[CHR 0x0D, CHR 0x0A], res_content res]"

definition static_response :: "status_type \<Rightarrow> response" where
  "static_response s =
     \<lparr>status = s,
      res_headers = [name_value ''Content-Length'' (dec_nat (length (static_page s))), name_value ''Content-Type'' ''text/html'',
        name_value ''Keep-Alive'' ''timeout=0, max=0''],
      res_cookies = [], res_content = static_page s, content_extension = []\<rparr>"

section \<open>Laws\<close>

lemma value_of_assign: "value_of m (assign_nv n v nvs) = (if m = n then v else value_of m nvs)"
  by (induction nvs) (auto simp: value_of_def)

lemma assign_names: "map nv_name (assign_nv n v nvs) = (if n \<in> set (map nv_name nvs) then map nv_name nvs else map nv_name nvs @ [n])"
  by (induction nvs) auto

text \<open>The bytes on the wire, and a receiver that cuts them by the announced length.\<close>

definition wire :: "response \<Rightarrow> string" where
  "wire res = concat (to_buffers res)"

definition framed :: "response \<Rightarrow> bool" where
  "framed res \<longleftrightarrow> value_of ''Content-Length'' (res_headers res) = dec_nat (length (res_content res))"

lemma wire_shape:
  "wire res = to_buffer (status res) @ concat (map (\<lambda>h. nv_name h @ '': '' @ nv_value h @ [CHR 0x0D, CHR 0x0A]) (res_headers res)) @
     [CHR 0x0D, CHR 0x0A] @ res_content res"
proof -
  have "concat (concat (map (\<lambda>h. [nv_name h, '': '', nv_value h, [CHR 0x0D, CHR 0x0A]]) hs)) =
      concat (map (\<lambda>h. nv_name h @ '': '' @ nv_value h @ [CHR 0x0D, CHR 0x0A]) hs)" for hs
    by (induction hs) auto
  then show ?thesis by (simp add: wire_def to_buffers_def)
qed

lemma static_framed: "framed (static_response s)"
  by (simp add: framed_def static_response_def value_of_def)

end
