(* ===== verification/Request_Handler.thy ===== *)
theory Request_Handler
  imports Response Config
begin

text \<open>
  Answering a complete request: the file types of \<^verbatim>\<open>src/src/mime_types.cpp\<close>, the routes and
  static files of \<^verbatim>\<open>router.cpp\<close>, and \<^verbatim>\<open>request_handler.cpp\<close>. The file system and the
  compressor are parameters, and so is what the page functions of the routes do with a request.
\<close>

section \<open>File types\<close>

definition mappings :: "(string \<times> string) list" where
  "mappings = [(''css'', ''text/css''), (''gif'', ''image/gif''), (''htm'', ''text/html''), (''html'', ''text/html''),
     (''ico'', ''image/x-icon''), (''jpg'', ''image/jpeg''), (''js'', ''application/javascript''), (''json'', ''application/json''),
     (''png'', ''image/png''), (''txt'', ''text/plain''), (''xhtml'', ''text/html''), (''xml'', ''application/xml'')]"

definition extension_to_type :: "string \<Rightarrow> string" where
  "extension_to_type extension =
     (if extension = [] then ''application/octet-stream''
      else case map_of mappings extension of Some t \<Rightarrow> t | None \<Rightarrow> ''application/octet-stream'')"

definition compressible :: "string list" where
  "compressible = [''css'', ''htm'', ''html'', ''js'', ''json'', ''txt'', ''xhtml'', ''xml'']"

definition is_compressible :: "string \<Rightarrow> bool" where
  "is_compressible extension \<longleftrightarrow> extension \<in> set compressible"

section \<open>Routes and files\<close>

datatype page_func =
    forum_index_html | forum_index_jsonp | forum_show_html | forum_show_jsonp | forum_form_html | forum_form_jsonp
  | forum_del | forum_post | user_signin_html | user_auth | user_signup_html | user_post | user_signout | performance_test

definition routes :: "(string \<times> page_func) list" where
  "routes =
     [(''/dir/forum/index/'', forum_index_html), (''/_/dir/forum/index/'', forum_index_jsonp),
      (''/dir/forum/show/'', forum_show_html), (''/_/dir/forum/show/'', forum_show_jsonp),
      (''/dir/forum/form/'', forum_form_html), (''/_/dir/forum/form/'', forum_form_jsonp),
      (''/dir/forum/del/'', forum_del), (''/dir/forum/post/'', forum_post),
      (''/dir/user/signin/'', user_signin_html), (''/dir/user/auth/'', user_auth),
      (''/dir/user/signup/'', user_signup_html), (''/dir/user/post/'', user_post),
      (''/dir/user/signout/'', user_signout), (''/dir/performance/test/'', performance_test)]"

fun first_route :: "string \<Rightarrow> (string \<times> page_func) list \<Rightarrow> page_func option" where
  "first_route request_uri [] = None"
| "first_route request_uri ((u, f) # rs) = (if str_find request_uri u 0 = 0 then Some f else first_route request_uri rs)"

definition get_func :: "string \<Rightarrow> (page_func option \<times> string) cpp" where
  "get_func request_uri =
     (if request_uri = [] then Undefined
      else
        let request_uri = (if last request_uri \<noteq> CHR ''/'' then request_uri @ ''/'' else request_uri) in
        Ret (first_route request_uri routes, request_uri))"

text \<open>The file system maps a path, as far as its first zero byte, to the bytes of the file.\<close>

definition get_file :: "(string \<Rightarrow> string option) \<Rightarrow> config \<Rightarrow> response \<Rightarrow> string \<Rightarrow> (bool \<times> response) cpp" where
  "get_file fs cfg res request_path =
     (let full_path = doc_root cfg @ request_path in
      if full_path = [] then Undefined
      else
        let full_path = (if last full_path = CHR ''/'' then full_path @ ''/index.html'' else full_path) in
        case fs (takeWhile (\<lambda>c. c \<noteq> NUL) full_path) of
          None \<Rightarrow> Ret (False, res)
        | Some bytes \<Rightarrow>
            let res = res\<lparr>res_content := res_content res @ bytes\<rparr> in
            xbind (get_extension full_path) (\<lambda>ext. Ret (True, res\<lparr>content_extension := ext\<rparr>)))"

definition set_jsonp :: "request \<Rightarrow> response \<Rightarrow> response" where
  "set_jsonp req res =
     res\<lparr>res_content := res_content res @ [CHR 0x0A] @ ''<script src='' @ [CHR 0x27] @ ''/_.js'' @ [CHR 0x27] @ ''></script>'' @
       [CHR 0x0A] @ ''<script src='' @ [CHR 0x27] @ ''/_'' @ rq_uri req @ [CHR 0x27] @ ''></script>'' @ [CHR 0x0A]\<rparr>"

definition err_msg :: "(string \<Rightarrow> string option) \<Rightarrow> config \<Rightarrow> response \<Rightarrow> int \<Rightarrow> (response \<times> config) cpp" where
  "err_msg fs cfg res err_code =
     xbind (get_file fs cfg (res\<lparr>res_content := []\<rparr>) ''dir_include_header.html'') (\<lambda>(_, res).
     case err_msg_text err_code cfg of (m, cfg) \<Rightarrow>
     xbind (get_file fs cfg (res\<lparr>res_content := res_content res @ ''<h2>Error : '' @ m @ ''</h2>''\<rparr>) ''dir_include_footer.html'') (\<lambda>(_, res).
     Ret (res\<lparr>content_extension := ''html''\<rparr>, snd (err_msg_text err_code cfg))))"

section \<open>The handler\<close>

text \<open>
  The search runs from the beginning of one copy of the list to the end of another, as
  \<^verbatim>\<open>config::access_granted\<close> returns the list by value: no behaviour is defined for it.
\<close>

definition is_access_granted :: "config \<Rightarrow> string \<Rightarrow> bool cpp" where
  "is_access_granted cfg addr = (if access_granted cfg = [] then Ret True else Undefined)"

definition is_access_denied :: "config \<Rightarrow> string \<Rightarrow> bool cpp" where
  "is_access_denied cfg addr = (if access_denied cfg = [] then Ret False else Undefined)"

text \<open>
  \<^verbatim>\<open>is >> std::hex >> value\<close> on the two characters after a percent sign: white space is skipped, a
  sign is taken, and the longest run of hexadecimal digits must not be empty, nor consist of a
  prefix \<^verbatim>\<open>0x\<close> alone.
\<close>

definition read_hex :: "string \<Rightarrow> int option" where
  "read_hex s =
     (let p = dropWhile c_isspace s;
          neg = (p \<noteq> [] \<and> hd p = CHR ''-'');
          q = (if p \<noteq> [] \<and> (hd p = CHR ''-'' \<or> hd p = CHR ''+'') then tl p else p)
      in if q = [] \<or> \<not> c_isxdigit (hd q) \<or> (length q = 2 \<and> hd q = CHR ''0'' \<and> (q ! 1 = CHR ''x'' \<or> q ! 1 = CHR ''X'')) then None
         else Some ((if neg then - 1 else 1) * int (number_of 16 0 q)))"

fun percent_decode_and_validate :: "string \<Rightarrow> string \<Rightarrow> bool \<times> string" where
  "percent_decode_and_validate [] out = (True, out)"
| "percent_decode_and_validate (c # inp) out =
     (if c = CHR ''%'' then
        (case inp of
           a # b # inp' \<Rightarrow>
             (case read_hex [a, b] of
                Some value \<Rightarrow> percent_decode_and_validate inp' (out @ [to_char value])
              | None \<Rightarrow> (False, out))
         | _ \<Rightarrow> (False, out))
      else if c = CHR ''+'' then percent_decode_and_validate inp (out @ '' '')
      else percent_decode_and_validate inp (out @ [c]))"

definition cookie_headers :: "name_value list \<Rightarrow> name_value list" where
  "cookie_headers cs = map (\<lambda>c. name_value ''Set-Cookie'' (nv_name c @ ''='' @ nv_value c @ ''; path=/'')) cs"

definition push_header :: "string \<Rightarrow> string \<Rightarrow> response \<Rightarrow> response" where
  "push_header n v res = res\<lparr>res_headers := res_headers res @ [name_value n v]\<rparr>"

text \<open>Filling out the response after the page was made.\<close>

definition fill_response :: "(string \<Rightarrow> string) \<Rightarrow> config \<Rightarrow> request \<Rightarrow> response \<Rightarrow> request \<times> response" where
  "fill_response gzip cfg req res =
     (let res = push_header ''Content-Type'' (extension_to_type (content_extension res)) res;
          res = push_header ''Keep-Alive'' ''timeout=0, max=0'' res;
          res = res\<lparr>res_headers := res_headers res @ cookie_headers (res_cookies res)\<rparr>;
          (req, zip) = (if compress cfg then
             case header ''Accept-Encoding'' req of (v, req) \<Rightarrow> (req, v = ''gzip, deflate'' \<and> is_compressible (content_extension res))
             else (req, False));
          res = (if zip then (push_header ''Content-Encoding'' ''gzip'' res)\<lparr>res_content := gzip (res_content res)\<rparr> else res);
          res = push_header ''Content-Length'' (dec_nat (length (res_content res))) res
      in (req, res\<lparr>status := st_ok\<rparr>))"

text \<open>The body of the \<^verbatim>\<open>try\<close> block.\<close>

definition handle_try :: "(string \<Rightarrow> string option) \<Rightarrow> (string \<Rightarrow> string) \<Rightarrow>
    (page_func \<Rightarrow> config \<Rightarrow> request \<Rightarrow> response \<Rightarrow> (config \<times> request \<times> response) cpp) \<Rightarrow>
    config \<Rightarrow> request \<Rightarrow> response \<Rightarrow> (config \<times> request \<times> response) cpp" where
  "handle_try fs gzip run cfg req res =
     xbind (is_access_granted cfg (remote_addr req)) (\<lambda>granted.
     xbind (if \<not> granted then Ret True else is_access_denied cfg (remote_addr req)) (\<lambda>refused.
     if refused then Ret (cfg, req, static_response st_unauthorized)
     else
       case percent_decode_and_validate (rq_uri req) [] of (valid, request_uri) \<Rightarrow>
       if \<not> valid then Ret (cfg, req, static_response st_bad_request)
       else if request_uri = [] \<or> hd request_uri \<noteq> CHR ''/'' \<or> str_find request_uri ''..'' 0 \<noteq> npos
       then Ret (cfg, req, static_response st_bad_request)
       else
         let request_path = request_uri in
         xbind (get_func request_uri) (\<lambda>(func, request_uri).
         xbind (case func of
             None \<Rightarrow> xbind (get_file fs cfg res request_path) (\<lambda>(found, res). Ret (found, cfg, req, res))
           | Some f \<Rightarrow> xbind (run f cfg req res) (\<lambda>(cfg, req, res). Ret (True, cfg, req, res)))
           (\<lambda>(found, cfg, req, res).
              if \<not> found then Ret (cfg, req, static_response st_not_found)
              else Ret (cfg, fill_response gzip cfg req res)))))"

definition handle_request :: "(string \<Rightarrow> string option) \<Rightarrow> (string \<Rightarrow> string) \<Rightarrow>
    (page_func \<Rightarrow> config \<Rightarrow> request \<Rightarrow> response \<Rightarrow> (config \<times> request \<times> response) cpp) \<Rightarrow>
    config \<Rightarrow> request \<Rightarrow> response \<Rightarrow> (config \<times> request \<times> response) cpp" where
  "handle_request fs gzip run cfg req res =
     (case handle_try fs gzip run cfg req res of
        Throw e \<Rightarrow> Ret (cfg, req, static_response st_internal_server_error)
      | r \<Rightarrow> r)"

end
