(* ===== verification/Service.thy ===== *)
theory Service
  imports Request_Handler
begin

text \<open>
  What a client can rely on: the files a request can reach, and the bytes it gets back. The
  lexical resolution of paths and the receiving client are specifications, not code of waspp.
\<close>

section \<open>Specifications\<close>

text \<open>A path cut at its slashes, and the walk down and up a tree of directories it describes.\<close>

fun steps :: "string \<Rightarrow> string list" where
  "steps [] = [[]]"
| "steps (c # s) = (if c = CHR ''/'' then [] # steps s else (c # hd (steps s)) # tl (steps s))"

fun walk :: "string list \<Rightarrow> string list \<Rightarrow> string list" where
  "walk cwd [] = cwd"
| "walk cwd (x # xs) = walk (if x = [] \<or> x = ''.'' then cwd else if x = ''..'' then butlast cwd else cwd @ [x]) xs"

definition below :: "string \<Rightarrow> string \<Rightarrow> bool" where
  "below dir p \<longleftrightarrow> prefix (walk [] (steps dir)) (walk [] (steps p))"

text \<open>A client: a line ends at the first carriage return and line feed, the fields at the first empty line.\<close>

fun cut_line :: "string \<Rightarrow> string \<times> string" where
  "cut_line [] = ([], [])"
| "cut_line (c # s) =
     (if c = CHR 0x0D \<and> s \<noteq> [] \<and> hd s = CHR 0x0A then ([], tl s)
      else (c # fst (cut_line s), snd (cut_line s)))"

lemma cut_line_length: "length (snd (cut_line s)) \<le> length s"
  by (induction s) auto

lemma cut_line_less: "fst (cut_line s) \<noteq> [] \<Longrightarrow> length (snd (cut_line s)) < length s"
  using cut_line_length [of "tl s"] by (cases s) (auto split: if_splits)

definition field :: "string \<Rightarrow> name_value" where
  "field l = name_value (takeWhile (\<lambda>c. c \<noteq> CHR '':'') l) (drop 2 (dropWhile (\<lambda>c. c \<noteq> CHR '':'') l))"

function read_fields :: "string \<Rightarrow> name_value list \<times> string" where
  "read_fields w =
     (if fst (cut_line w) = [] then ([], snd (cut_line w))
      else (field (fst (cut_line w)) # fst (read_fields (snd (cut_line w))), snd (read_fields (snd (cut_line w)))))"
  by auto
termination
  by (relation "measure length") (auto simp: cut_line_less)

declare read_fields.simps [simp del]

definition receive :: "string \<Rightarrow> string \<times> name_value list \<times> string \<times> string" where
  "receive w =
     (case cut_line w of (l, r) \<Rightarrow> case read_fields r of (fs, b) \<Rightarrow>
      let n = number_of 10 0 (value_of ''Content-Length'' fs) in (l, fs, take n b, drop n b))"

text \<open>Header fields that keep to their line.\<close>

definition clean_field :: "name_value \<Rightarrow> bool" where
  "clean_field h \<longleftrightarrow> CHR 0x0D \<notin> set (nv_name h) \<and> CHR '':'' \<notin> set (nv_name h) \<and> CHR 0x0D \<notin> set (nv_value h)"

definition clean_page :: "response \<Rightarrow> bool" where
  "clean_page res \<longleftrightarrow> list_all clean_field (res_headers res) \<and> list_all clean_field (res_cookies res) \<and>
     ''Content-Length'' \<notin> nv_name ` set (res_headers res)"

section \<open>Confinement\<close>

lemma steps_not_Nil [simp]: "steps s \<noteq> []"
  by (cases s) auto

lemma steps_append: "steps (s @ CHR ''/'' # t) = steps s @ steps t"
  by (induction s) auto

lemma steps_sublist: "x \<in> set (steps s) \<Longrightarrow> sublist x s" "prefix (hd (steps s)) s"
proof (induction s arbitrary: x)
  case (Cons c s)
  { case 1
    then consider "x = []" | "x \<in> set (steps s)" | "x = c # hd (steps s)"
      using list.set_sel(2) [of "steps s" x] by (auto split: if_splits)
    then show ?case using Cons.IH by cases (auto simp: sublist_Cons_right)
  next
    case 2
    then show ?case using Cons.IH by auto
  }
qed auto

lemma walk_append: "walk cwd (xs @ ys) = walk (walk cwd xs) ys"
  by (induction cwd xs rule: walk.induct) auto

lemma walk_prefix: "''..'' \<notin> set xs \<Longrightarrow> prefix cwd (walk cwd xs)"
  by (induction cwd xs rule: walk.induct) (auto intro: append_prefixD)

lemma below_append:
  assumes "\<not> sublist ''..'' p" "p = CHR ''/'' # q"
  shows "below dir (dir @ p)"
proof -
  have "sublist q p" using assms(2) by (simp add: sublist_Cons_right)
  then have "''..'' \<notin> set (steps q)"
    using assms(1) steps_sublist(1) sublist_order.order_trans by blast
  then show ?thesis by (simp add: below_def assms(2) steps_append walk_append walk_prefix)
qed

lemma occurs_at_None: "occurs_at pat s = None \<longleftrightarrow> \<not> sublist pat s"
  by (induction s) (auto simp: sublist_Cons_right)

lemma get_file_confined:
  assumes root: "NUL \<notin> set (doc_root cfg)" and agree: "\<And>p. below (doc_root cfg) p \<Longrightarrow> fs p = fs' p"
    and path: "p \<noteq> []" "hd p = CHR ''/''" "str_find p ''..'' 0 = npos" and len: "length p < npos"
  shows "get_file fs cfg res p = get_file fs' cfg res p"
proof -
  let ?full = "doc_root cfg @ p"
  let ?p = "if last ?full = CHR ''/'' then p @ ''/index.html'' else p"
  obtain q where q: "p = CHR ''/'' # q" using path by (cases p) auto
  have nodots: "\<not> sublist ''..'' p"
    using path(3) len occurs_at_Some [of "''..''" p]
    by (auto simp: str_find_def occurs_at_None [symmetric] split: option.splits)
  have index: "\<not> sublist ''..'' (p @ ''/index.html'')" if "last p = CHR ''/''"
  proof
    assume "sublist ''..'' (p @ ''/index.html'')"
    then obtain xs ys where "xs @ ys = ''..''" "suffix xs p" "prefix ys ''/index.html''"
      using nodots by (auto simp: sublist_append sublist_Cons_right)
    then show False using nodots by (auto simp: append_eq_Cons_conv prefix_Cons suffix_imp_sublist)
  qed
  have nodots': "\<not> sublist ''..'' ?p" using nodots index q by auto
  let ?t = "takeWhile (\<lambda>c. c \<noteq> NUL) ?p"
  have "\<not> sublist ''..'' ?t"
    using nodots' sublist_order.order_trans [OF _ prefix_imp_sublist [OF takeWhile_is_prefix]] by blast
  moreover have "?t = CHR ''/'' # takeWhile (\<lambda>c. c \<noteq> NUL) (tl ?p)" using q by simp
  ultimately have "below (doc_root cfg) (doc_root cfg @ ?t)" by (rule below_append)
  moreover have "takeWhile (\<lambda>c. c \<noteq> NUL) (doc_root cfg @ ?p) = doc_root cfg @ ?t"
    using root by (simp add: takeWhile_append2 takeWhile_append)
  ultimately have "fs (takeWhile (\<lambda>c. c \<noteq> NUL) (doc_root cfg @ ?p)) = fs' (takeWhile (\<lambda>c. c \<noteq> NUL) (doc_root cfg @ ?p))"
    using agree by simp
  then show ?thesis by (simp add: get_file_def Let_def if_distrib [where f = "append (doc_root cfg)"] cong: if_cong split: if_splits)
qed

lemma percent_decode_length:
  "length (snd (percent_decode_and_validate inp out)) \<le> length out + length inp"
  by (induction inp out rule: percent_decode_and_validate.induct)
    (auto split: list.splits option.splits, force+)

text \<open>
  C12. Confinement: a request reads no file outside the document root, however its target is
  written (dots may be percent-encoded, a zero byte may cut the path). Two file systems that agree
  on every path that resolves to a place below the document root give the same response, the same
  request and the same configuration.
\<close>
theorem handle_request_confined:
  assumes "NUL \<notin> set (doc_root cfg)" "length (rq_uri req) < npos"
    and "\<forall>p. below (doc_root cfg) p \<longrightarrow> fs p = fs' p"
  shows "handle_request fs gzip run cfg req res = handle_request fs' gzip run cfg req res"
proof -
  obtain valid uri where uri: "percent_decode_and_validate (rq_uri req) [] = (valid, uri)" by fastforce
  have "length uri < npos" using percent_decode_length [of "rq_uri req" "[]"] assms(2) uri by simp
  then have same: "uri \<noteq> [] \<Longrightarrow> hd uri = CHR ''/'' \<Longrightarrow> str_find uri ''..'' 0 = npos \<Longrightarrow> get_file fs cfg res uri = get_file fs' cfg res uri"
    using get_file_confined assms(1,3) by blast
  have "handle_try fs gzip run cfg req res = handle_try fs' gzip run cfg req res"
    unfolding handle_try_def uri prod.case Let_def
    by (intro xbind_cong refl if_cong prod.case_cong option.case_cong) (simp_all add: same)
  then show ?thesis by (simp add: handle_request_def)
qed

theorem handle_request_confined_witness:
  "handle_request (\<lambda>p. if p = ''/www//a'' then Some ''A'' else if p = ''/etc/x'' then Some ''X'' else None) (\<lambda>s. s) (\<lambda>f cfg req res. Throw OutOfRange)
      (new_config\<lparr>doc_root := ''/www/''\<rparr>) (new_request\<lparr>rq_uri := ''/%2e%2e/etc/x''\<rparr>) new_response =
   handle_request (\<lambda>p. if p = ''/www//a'' then Some ''A'' else None) (\<lambda>s. s) (\<lambda>f cfg req res. Throw OutOfRange)
      (new_config\<lparr>doc_root := ''/www/''\<rparr>) (new_request\<lparr>rq_uri := ''/%2e%2e/etc/x''\<rparr>) new_response"
proof (rule handle_request_confined)
  show "NUL \<notin> set (doc_root (new_config\<lparr>doc_root := ''/www/''\<rparr>))" by simp
  show "length (rq_uri (new_request\<lparr>rq_uri := ''/%2e%2e/etc/x''\<rparr>)) < npos" by (simp add: npos_def)
  have "\<not> below ''/www/'' ''/etc/x''" by (simp add: below_def)
  then show "\<forall>p. below (doc_root (new_config\<lparr>doc_root := ''/www/''\<rparr>)) p \<longrightarrow>
      (if p = ''/www//a'' then Some ''A'' else if p = ''/etc/x'' then Some ''X'' else None) =
      (if p = ''/www//a'' then Some ''A'' else None)" by auto
qed

section \<open>Delivery\<close>

lemma cut_line_clean: "CHR 0x0D \<notin> set l \<Longrightarrow> cut_line (l @ CHR 0x0D # CHR 0x0A # s) = (l, s)"
  by (induction l) auto

lemma field_line:
  assumes "clean_field h"
  shows "field (nv_name h @ '': '' @ nv_value h) = h"
proof -
  have "takeWhile (\<lambda>c. c \<noteq> CHR '':'') (nv_name h @ '': '' @ nv_value h) = nv_name h"
    "dropWhile (\<lambda>c. c \<noteq> CHR '':'') (nv_name h @ '': '' @ nv_value h) = '': '' @ nv_value h"
    using assms by (auto simp: clean_field_def takeWhile_append dropWhile_append)
  then show ?thesis by (simp add: field_def name_value_def)
qed

lemma read_fields_clean:
  "list_all clean_field hs \<Longrightarrow>
   read_fields (concat (map (\<lambda>h. nv_name h @ '': '' @ nv_value h @ [CHR 0x0D, CHR 0x0A]) hs) @ CHR 0x0D # CHR 0x0A # b) = (hs, b)"
proof (induction hs)
  case Nil
  then show ?case by (simp add: read_fields.simps)
next
  case (Cons h hs)
  let ?t = "concat (map (\<lambda>h. nv_name h @ '': '' @ nv_value h @ [CHR 0x0D, CHR 0x0A]) hs) @ CHR 0x0D # CHR 0x0A # b"
  have "cut_line ((nv_name h @ '': '' @ nv_value h) @ CHR 0x0D # CHR 0x0A # ?t) = (nv_name h @ '': '' @ nv_value h, ?t)"
    by (rule cut_line_clean) (use Cons.prems in \<open>simp add: clean_field_def\<close>)
  then show ?case using Cons field_line [of h] by (subst read_fields.simps) simp
qed

lemma status_line_clean: "\<exists>l. to_buffer s = l @ [CHR 0x0D, CHR 0x0A] \<and> CHR 0x0D \<notin> set l"
  by (cases s) simp_all

lemma receive_wire:
  assumes "list_all clean_field (res_headers res)" "framed res"
  shows "\<exists>l. receive (wire res @ rest) = (l, res_headers res, res_content res, rest) \<and> to_buffer (status res) = l @ [CHR 0x0D, CHR 0x0A]"
proof -
  obtain l where l: "to_buffer (status res) = l @ [CHR 0x0D, CHR 0x0A]" "CHR 0x0D \<notin> set l" using status_line_clean by blast
  have "number_of 10 0 (dec_nat n) = n" for n using number_of_dec_nat [of 0 n "[]"] by simp
  then show ?thesis using l assms(2) read_fields_clean [OF assms(1), of "res_content res @ rest"]
    by (simp add: receive_def wire_shape cut_line_clean framed_def)
qed

lemma extension_to_type_clean: "CHR 0x0D \<notin> set (extension_to_type e)"
  by (simp add: extension_to_type_def mappings_def)

lemma dec_nat_clean: "CHR 0x0D \<notin> set (dec_nat n)"
proof (induction n rule: dec_nat.induct)
  case (1 n)
  have "c_isspace (CHR 0x0D)" by (simp add: c_isspace_def)
  then have "CHR 0x0D \<noteq> digit_char d" if "d < 10" for d
    using digit_of_digit(2) [OF that] by metis
  then show ?case using 1 by (subst dec_nat.simps) auto
qed

lemma static_clean: "list_all clean_field (res_headers (static_response s))"
  by (simp add: static_response_def clean_field_def name_value_def dec_nat_clean)

lemma cookie_headers_clean:
  "list_all clean_field cs \<Longrightarrow> list_all clean_field (cookie_headers cs)"
  "''Content-Length'' \<notin> nv_name ` set (cookie_headers cs)"
  by (auto simp: cookie_headers_def list_all_iff clean_field_def name_value_def)

lemma value_of_snoc: "n \<notin> nv_name ` set hs \<Longrightarrow> value_of n (hs @ [name_value n v]) = v"
  by (induction hs) (auto simp: value_of_def name_value_def)

lemma fill_response_good:
  assumes "clean_page res" "fill_response gzip cfg req res = (req', res')"
  shows "list_all clean_field (res_headers res')" "framed res'"
proof -
  let ?head = "res_headers res @ [name_value ''Content-Type'' (extension_to_type (content_extension res)),
    name_value ''Keep-Alive'' ''timeout=0, max=0''] @ cookie_headers (res_cookies res)"
  have head: "list_all clean_field ?head" "''Content-Length'' \<notin> nv_name ` set ?head"
    using assms(1) extension_to_type_clean cookie_headers_clean [of "res_cookies res"]
    by (simp_all add: clean_page_def clean_field_def image_Un name_value_def)
  have zip: "clean_field (name_value ''Content-Encoding'' ''gzip'')" "nv_name (name_value ''Content-Encoding'' ''gzip'') \<noteq> ''Content-Length''"
    by (simp_all add: clean_field_def name_value_def)
  let ?zip = "compress cfg \<and> value_of ''Accept-Encoding'' (headers req) = ''gzip, deflate'' \<and> is_compressible (content_extension res)"
  have "res_headers res' = (?head @ (if ?zip then [name_value ''Content-Encoding'' ''gzip''] else [])) @
      [name_value ''Content-Length'' (dec_nat (length (res_content res')))]"
    using assms(2) by (cases "compress cfg"; cases ?zip) (auto simp: fill_response_def push_header_def Let_def case_prod_unfold)
  then obtain hs where hs: "res_headers res' = hs @ [name_value ''Content-Length'' (dec_nat (length (res_content res')))]"
      "list_all clean_field hs" "''Content-Length'' \<notin> nv_name ` set hs"
    using head zip by (auto split: if_splits)
  then show "list_all clean_field (res_headers res')" "framed res'"
    by (simp_all add: framed_def value_of_snoc [unfolded name_value_def] clean_field_def dec_nat_clean name_value_def)
qed

text \<open>
  What the application's page functions have to keep to: no undefined behaviour, clean header
  fields, and of the configuration they change at most the error messages (a look-up adds a missing one).
\<close>

definition same_settings :: "config \<Rightarrow> config \<Rightarrow> bool" where
  "same_settings cfg cfg' \<longleftrightarrow> cfg'\<lparr>err_map := err_map cfg\<rparr> = cfg"

definition pages_ok :: "(page_func \<Rightarrow> config \<Rightarrow> request \<Rightarrow> response \<Rightarrow> (config \<times> request \<times> response) cpp) \<Rightarrow> bool" where
  "pages_ok run \<longleftrightarrow> (\<forall>f cfg req res. run f cfg req res \<noteq> Undefined \<and>
     (\<forall>cfg' req' res'. clean_page res \<longrightarrow> run f cfg req res = Ret (cfg', req', res') \<longrightarrow> clean_page res' \<and> same_settings cfg cfg'))"

lemma get_file_defined:
  assumes "doc_root cfg \<noteq> []"
  shows "get_file fs cfg res p \<noteq> Undefined" "get_file fs cfg res p = Ret (b, res') \<Longrightarrow> clean_page res \<Longrightarrow> clean_page res'"
  using assms by (auto simp: get_file_def get_extension_def substr_def Let_def clean_page_def split: option.splits if_splits)

lemma handle_try_cases:
  assumes "access_granted cfg = []" "access_denied cfg = []" "doc_root cfg \<noteq> []" "pages_ok run" "clean_page res"
  shows "(\<exists>e. handle_try fs gzip run cfg req res = Throw e) \<or> (\<exists>cfg' req' res'.
    handle_try fs gzip run cfg req res = Ret (cfg', req', res') \<and> list_all clean_field (res_headers res') \<and> framed res' \<and> same_settings cfg cfg')"
proof -
  have refl: "same_settings cfg cfg" by (simp add: same_settings_def)
  obtain valid uri where uri: "percent_decode_and_validate (rq_uri req) [] = (valid, uri)" by fastforce
  show ?thesis
  proof (cases "\<not> valid \<or> uri = [] \<or> hd uri \<noteq> CHR ''/'' \<or> str_find uri ''..'' 0 \<noteq> npos")
    case True
    then have "handle_try fs gzip run cfg req res = Ret (cfg, req, static_response st_bad_request)"
      using assms(1,2) by (auto simp: handle_try_def is_access_granted_def is_access_denied_def uri)
    then show ?thesis using static_clean static_framed refl by blast
  next
    case False
    let ?page = "case first_route (if last uri \<noteq> CHR ''/'' then uri @ ''/'' else uri) routes of
             None \<Rightarrow> xbind (get_file fs cfg res uri) (\<lambda>(found, res). Ret (found, cfg, req, res))
           | Some f \<Rightarrow> xbind (run f cfg req res) (\<lambda>(cfg, req, res). Ret (True, cfg, req, res))"
    have ht: "handle_try fs gzip run cfg req res = xbind ?page (\<lambda>(found, cfg, req, res).
              if \<not> found then Ret (cfg, req, static_response st_not_found) else Ret (cfg, fill_response gzip cfg req res))"
      using False assms(1,2) by (simp add: handle_try_def is_access_granted_def is_access_denied_def uri get_func_def Let_def)
    show ?thesis
    proof (cases ?page)
      case (Ret x)
      obtain found cfg' req' res' where x: "x = (found, cfg', req', res')" by (cases x) auto
      have "clean_page res' \<and> same_settings cfg cfg'"
        using Ret refl assms(4,5) get_file_defined(2) [OF assms(3), of fs res uri found res'] unfolding x
        by (auto simp: pages_ok_def split: option.splits)
      then show ?thesis
        using fill_response_good [of res' gzip cfg' req'] static_clean static_framed
        by (cases found; cases "fill_response gzip cfg' req' res'") (auto simp: ht Ret x)
    next
      case (Throw e)
      then show ?thesis by (simp add: ht)
    next
      case Undefined
      have "xbind (get_file fs cfg res uri) (\<lambda>(found, res). Ret (found, cfg, req, res)) \<noteq> Undefined"
        using get_file_defined(1) [OF assms(3)] by (cases "get_file fs cfg res uri") auto
      moreover have "xbind (run f cfg req res) (\<lambda>(cfg, req, res). Ret (True, cfg, req, res)) \<noteq> Undefined" for f
        using assms(4) by (cases "run f cfg req res") (auto simp: pages_ok_def)
      ultimately show ?thesis using Undefined by (simp split: option.splits)
    qed
  qed
qed

lemma handle_request_good:
  assumes "access_granted cfg = []" "access_denied cfg = []" "doc_root cfg \<noteq> []" "pages_ok run"
  obtains cfg' req' res' where "handle_request fs gzip run cfg req new_response = Ret (cfg', req', res')"
    "list_all clean_field (res_headers res')" "framed res'" "same_settings cfg cfg'"
proof -
  have "clean_page new_response" by (simp add: clean_page_def new_response_def)
  moreover have "same_settings cfg cfg" by (simp add: same_settings_def)
  ultimately show thesis
    using handle_try_cases [OF assms, of new_response fs gzip req] static_clean static_framed that
    by (fastforce simp: handle_request_def)
qed



text \<open>
  A configured access list stops the server from having a defined answer: the accessors of
  the lists return copies, and the search compares positions of two different copies.
\<close>
lemma access_lists_undefined:
  assumes "access_granted cfg \<noteq> [] \<or> access_denied cfg \<noteq> []"
  shows "handle_request fs gzip run cfg req res = Undefined"
  using assms by (cases "access_granted cfg = []") (simp_all add: handle_request_def handle_try_def is_access_granted_def is_access_denied_def)

end
