(* ===== verification/Request_Parser.thy ===== *)
theory Request_Parser
  imports Request
begin

text \<open>
  The incremental request parser, \<^verbatim>\<open>src/src/request_parser.hpp\<close> and the character classes of
  \<^verbatim>\<open>request_parser.cpp\<close>: the states, one step per state, the loops over the input as the code
  has them, and the answer \<^verbatim>\<open>boost::tribool\<close>. The model keeps the access to the last parameter
  or header checked.
\<close>

datatype tribool = Yes | No | Indeterminate

datatype state =
    method_start | method_st | uri | param_name_start | param_name | param_value_start | param_value
  | http_version_h | http_version_t_1 | http_version_t_2 | http_version_p | http_version_slash
  | http_version_major_start | http_version_major_st | http_version_minor_start | http_version_minor_st
  | expecting_newline_1 | header_line_start | header_lws | header_name | space_before_header_value
  | header_value | expecting_newline_2 | expecting_newline_3 | content_start | content

section \<open>Character classes\<close>

definition is_char :: "int \<Rightarrow> bool" where
  "is_char c \<longleftrightarrow> 0 \<le> c \<and> c \<le> 127"

definition is_ctl :: "int \<Rightarrow> bool" where
  "is_ctl c \<longleftrightarrow> (0 \<le> c \<and> c \<le> 31) \<or> c = 127"

definition is_tspecial :: "int \<Rightarrow> bool" where
  "is_tspecial c \<longleftrightarrow> c \<in> {40, 41, 60, 62, 64, 44, 59, 58, 92, 34, 47, 91, 93, 63, 61, 123, 125, 32, 9}"

definition is_digit :: "int \<Rightarrow> bool" where
  "is_digit c \<longleftrightarrow> 48 \<le> c \<and> c \<le> 57"

abbreviation bad_token :: "char \<Rightarrow> bool" where
  "bad_token c \<equiv> \<not> is_char (schar c) \<or> is_ctl (schar c) \<or> is_tspecial (schar c)"

section \<open>One character\<close>

text \<open>
  \<open>Brk\<close>: the step leaves the \<^verbatim>\<open>switch\<close> with a result; \<open>Cont\<close>: an inner loop goes on with the
  next character.
\<close>

datatype step = Brk state request tribool | Cont request

definition method_start_step :: "request \<Rightarrow> char \<Rightarrow> step cpp" where
  "method_start_step req input =
     (if bad_token input then Ret (Brk method_start req No)
      else Ret (Brk method_st (req\<lparr>rq_method := rq_method req @ [input]\<rparr>) Indeterminate))"

definition method_step :: "request \<Rightarrow> char \<Rightarrow> step cpp" where
  "method_step req input =
     (if input = CHR '' '' then Ret (Brk uri req Indeterminate)
      else if bad_token input then Ret (Brk method_st req No)
      else Ret (Cont (req\<lparr>rq_method := rq_method req @ [input]\<rparr>)))"

definition push_uri :: "char \<Rightarrow> request \<Rightarrow> request" where
  "push_uri c req = req\<lparr>rq_uri := rq_uri req @ [c]\<rparr>"

definition uri_step :: "request \<Rightarrow> char \<Rightarrow> step cpp" where
  "uri_step req input =
     (if input = CHR ''?'' then Ret (Brk param_name_start (push_uri input req) Indeterminate)
      else if input = CHR '' '' then Ret (Brk http_version_h req Indeterminate)
      else if is_ctl (schar input) then Ret (Brk uri req No)
      else Ret (Cont (push_uri input req)))"

definition push_name :: "char \<Rightarrow> name_value \<Rightarrow> name_value" where
  "push_name c nv = nv\<lparr>nv_name := nv_name nv @ [c]\<rparr>"

definition push_value :: "char \<Rightarrow> name_value \<Rightarrow> name_value" where
  "push_value c nv = nv\<lparr>nv_value := nv_value nv @ [c]\<rparr>"

definition param_name_start_step :: "request \<Rightarrow> char \<Rightarrow> step cpp" where
  "param_name_start_step req input =
     (if input = CHR '' '' then Ret (Brk http_version_h req Indeterminate)
      else if bad_token input then Ret (Brk param_name_start req No)
      else
        let req = push_uri input req in
        xbind (upd_back (push_name input) (params req @ [name_value [] []])) (\<lambda>ps.
          Ret (Brk param_name (req\<lparr>params := ps\<rparr>) Indeterminate)))"

definition param_name_step :: "request \<Rightarrow> char \<Rightarrow> step cpp" where
  "param_name_step req input =
     (if input = CHR '' '' then Ret (Brk http_version_h req Indeterminate)
      else if input = CHR ''='' then Ret (Brk param_value (push_uri input req) Indeterminate)
      else if bad_token input then Ret (Brk param_name req No)
      else xbind (upd_back (push_name input) (params req)) (\<lambda>ps. Ret (Cont ((push_uri input req)\<lparr>params := ps\<rparr>))))"

definition param_value_step :: "request \<Rightarrow> char \<Rightarrow> step cpp" where
  "param_value_step req input =
     (if input = CHR '' '' then Ret (Brk http_version_h req Indeterminate)
      else if input = CHR ''&'' then Ret (Brk param_name_start (push_uri input req) Indeterminate)
      else if bad_token input then Ret (Brk param_value req No)
      else xbind (upd_back (push_value input) (params req)) (\<lambda>ps. Ret (Cont ((push_uri input req)\<lparr>params := ps\<rparr>))))"

text \<open>The states that expect one given character.\<close>

definition expect_step :: "state \<Rightarrow> char \<Rightarrow> state \<Rightarrow> request \<Rightarrow> char \<Rightarrow> step cpp" where
  "expect_step here c to req input =
     (if input = c then Ret (Brk to req Indeterminate) else Ret (Brk here req No))"

definition http_version_slash_step :: "request \<Rightarrow> char \<Rightarrow> step cpp" where
  "http_version_slash_step req input =
     (if input = CHR ''/''
      then Ret (Brk http_version_major_start (req\<lparr>http_version_major := 0, http_version_minor := 0\<rparr>) Indeterminate)
      else Ret (Brk http_version_slash req No))"

definition add_digit :: "int \<Rightarrow> char \<Rightarrow> int" where
  "add_digit n c = to_i32 (n * 10 + schar c - 48)"

definition http_version_major_start_step :: "request \<Rightarrow> char \<Rightarrow> step cpp" where
  "http_version_major_start_step req input =
     (if is_digit (schar input)
      then Ret (Brk http_version_major_st (req\<lparr>http_version_major := add_digit (http_version_major req) input\<rparr>) Indeterminate)
      else Ret (Brk http_version_major_start req No))"

definition http_version_major_step :: "request \<Rightarrow> char \<Rightarrow> step cpp" where
  "http_version_major_step req input =
     (if input = CHR ''.'' then Ret (Brk http_version_minor_start req Indeterminate)
      else if is_digit (schar input)
      then Ret (Brk http_version_major_st (req\<lparr>http_version_major := add_digit (http_version_major req) input\<rparr>) Indeterminate)
      else Ret (Brk http_version_major_st req No))"

definition http_version_minor_start_step :: "request \<Rightarrow> char \<Rightarrow> step cpp" where
  "http_version_minor_start_step req input =
     (if is_digit (schar input)
      then Ret (Brk http_version_minor_st (req\<lparr>http_version_minor := add_digit (http_version_minor req) input\<rparr>) Indeterminate)
      else Ret (Brk http_version_minor_start req No))"

definition http_version_minor_step :: "request \<Rightarrow> char \<Rightarrow> step cpp" where
  "http_version_minor_step req input =
     (if input = CHR 0x0D then Ret (Brk expecting_newline_1 req Indeterminate)
      else if is_digit (schar input)
      then Ret (Brk http_version_minor_st (req\<lparr>http_version_minor := add_digit (http_version_minor req) input\<rparr>) Indeterminate)
      else Ret (Brk http_version_minor_st req No))"

definition header_line_start_step :: "request \<Rightarrow> char \<Rightarrow> step cpp" where
  "header_line_start_step req input =
     (if input = CHR 0x0D then Ret (Brk expecting_newline_3 req Indeterminate)
      else if headers req \<noteq> [] \<and> (input = CHR '' '' \<or> input = CHR 0x09) then Ret (Brk header_lws req Indeterminate)
      else if bad_token input then Ret (Brk header_line_start req No)
      else xbind (upd_back (push_name input) (headers req @ [name_value [] []])) (\<lambda>hs.
        Ret (Brk header_name (req\<lparr>headers := hs\<rparr>) Indeterminate)))"

definition header_lws_step :: "request \<Rightarrow> char \<Rightarrow> step cpp" where
  "header_lws_step req input =
     (if input = CHR 0x0D then Ret (Brk expecting_newline_2 req Indeterminate)
      else if input = CHR '' '' \<or> input = CHR 0x09 then Ret (Brk header_lws req Indeterminate)
      else if is_ctl (schar input) then Ret (Brk header_lws req No)
      else xbind (upd_back (push_value input) (headers req)) (\<lambda>hs.
        Ret (Brk header_value (req\<lparr>headers := hs\<rparr>) Indeterminate)))"

definition header_name_step :: "request \<Rightarrow> char \<Rightarrow> step cpp" where
  "header_name_step req input =
     (if input = CHR '':'' then Ret (Brk space_before_header_value req Indeterminate)
      else if bad_token input then Ret (Brk header_name req No)
      else xbind (upd_back (push_name input) (headers req)) (\<lambda>hs. Ret (Cont (req\<lparr>headers := hs\<rparr>))))"

definition header_value_step :: "request \<Rightarrow> char \<Rightarrow> step cpp" where
  "header_value_step req input =
     (if input = CHR 0x0D then Ret (Brk expecting_newline_2 req Indeterminate)
      else if is_ctl (schar input) then Ret (Brk header_value req No)
      else xbind (upd_back (push_value input) (headers req)) (\<lambda>hs. Ret (Cont (req\<lparr>headers := hs\<rparr>))))"

definition set_content_length :: "request \<Rightarrow> request" where
  "set_content_length req = (case header ''Content-Length'' req of (v, req) \<Rightarrow> req\<lparr>content_length := to_i32 (strtol v)\<rparr>)"

definition expecting_newline_3_step :: "request \<Rightarrow> char \<Rightarrow> step cpp" where
  "expecting_newline_3_step req input =
     (if rq_method req = ''GET'' \<and> input = CHR 0x0A then Ret (Brk expecting_newline_3 req Yes)
      else if rq_method req = ''POST'' \<and> input = CHR 0x0A then
        (case header ''Content-Length'' req of (v, req) \<Rightarrow>
           if v = [] then Ret (Brk expecting_newline_3 req No)
           else Ret (Brk content_start (set_content_length req) Indeterminate))
      else Ret (Brk expecting_newline_3 req No))"

text \<open>One byte of the content: the counter goes down, at zero it is set again and the request is complete.\<close>

definition take_content :: "request \<Rightarrow> char \<Rightarrow> bool \<times> request" where
  "take_content req input =
     (let req = req\<lparr>content_length := to_i32 (content_length req - 1), rq_content := rq_content req @ [input]\<rparr> in
      if content_length req = 0 then (True, set_content_length req) else (False, req))"

definition content_start_step :: "request \<Rightarrow> char \<Rightarrow> step cpp" where
  "content_start_step req input =
     (if rq_content req \<noteq> [] then Ret (Brk content_start req No)
      else if bad_token input then Ret (Brk content_start req No)
      else case take_content req input of (done, req) \<Rightarrow>
        if done then Ret (Brk content_start req Yes) else Ret (Brk content req Indeterminate))"

definition content_step :: "request \<Rightarrow> char \<Rightarrow> step cpp" where
  "content_step req input =
     (case take_content req input of (done, req) \<Rightarrow> Ret (Brk content req (if done then Yes else Indeterminate)))"

section \<open>The loops\<close>

text \<open>An inner \<^verbatim>\<open>do ... while (begin != end)\<close> loop; \<open>st\<close> and \<open>result\<close> are left as they are when the input ends.\<close>

fun do_while :: "(request \<Rightarrow> char \<Rightarrow> step cpp) \<Rightarrow> state \<Rightarrow> tribool \<Rightarrow> request \<Rightarrow> string \<Rightarrow> (state \<times> request \<times> tribool \<times> string) cpp" where
  "do_while f st result req [] = Ret (st, req, result, [])"
| "do_while f st result req (c # rest) =
     xbind (f req c) (\<lambda>s. case s of
       Brk st' req' result' \<Rightarrow> Ret (st', req', result', rest)
     | Cont req' \<Rightarrow> if rest = [] then Ret (st, req', result, []) else do_while f st result req' rest)"

text \<open>A state that reads one character.\<close>

definition once :: "(request \<Rightarrow> char \<Rightarrow> step cpp) \<Rightarrow> state \<Rightarrow> tribool \<Rightarrow> request \<Rightarrow> string \<Rightarrow> (state \<times> request \<times> tribool \<times> string) cpp" where
  "once f st result req input =
     (case input of
        [] \<Rightarrow> Undefined
      | c # rest \<Rightarrow> xbind (f req c) (\<lambda>s. case s of
          Brk st' req' result' \<Rightarrow> Ret (st', req', result', rest)
        | Cont req' \<Rightarrow> Ret (st, req', result, rest)))"

text \<open>The \<^verbatim>\<open>switch\<close>.\<close>

definition dispatch :: "state \<Rightarrow> request \<Rightarrow> tribool \<Rightarrow> string \<Rightarrow> (state \<times> request \<times> tribool \<times> string) cpp" where
  "dispatch st req result input =
     (case st of
        method_start \<Rightarrow> once method_start_step st result req input
      | method_st \<Rightarrow> do_while method_step st result req input
      | uri \<Rightarrow> do_while uri_step st result req input
      | param_name_start \<Rightarrow> once param_name_start_step st result req input
      | param_name \<Rightarrow> do_while param_name_step st result req input
      | param_value \<Rightarrow> do_while param_value_step st result req input
      | http_version_h \<Rightarrow> do_while (expect_step st (CHR ''H'') http_version_t_1) st result req input
      | http_version_t_1 \<Rightarrow> once (expect_step st (CHR ''T'') http_version_t_2) st result req input
      | http_version_t_2 \<Rightarrow> once (expect_step st (CHR ''T'') http_version_p) st result req input
      | http_version_p \<Rightarrow> once (expect_step st (CHR ''P'') http_version_slash) st result req input
      | http_version_slash \<Rightarrow> once http_version_slash_step st result req input
      | http_version_major_start \<Rightarrow> once http_version_major_start_step st result req input
      | http_version_major_st \<Rightarrow> once http_version_major_step st result req input
      | http_version_minor_start \<Rightarrow> once http_version_minor_start_step st result req input
      | http_version_minor_st \<Rightarrow> once http_version_minor_step st result req input
      | expecting_newline_1 \<Rightarrow> once (expect_step st (CHR 0x0A) header_line_start) st result req input
      | header_line_start \<Rightarrow> once header_line_start_step st result req input
      | header_lws \<Rightarrow> once header_lws_step st result req input
      | header_name \<Rightarrow> do_while header_name_step st result req input
      | space_before_header_value \<Rightarrow> once (expect_step st (CHR '' '') header_value) st result req input
      | header_value \<Rightarrow> do_while header_value_step st result req input
      | expecting_newline_2 \<Rightarrow> once (expect_step st (CHR 0x0A) header_line_start) st result req input
      | expecting_newline_3 \<Rightarrow> once expecting_newline_3_step st result req input
      | content_start \<Rightarrow> once content_start_step st result req input
      | content \<Rightarrow> once content_step st result req input
      | param_value_start \<Rightarrow> Ret (st, req, No, input))"

lemma step_case_Ret:
  "(case s of Brk a b c \<Rightarrow> F a b c | Cont q \<Rightarrow> G q) = Ret y \<longleftrightarrow>
   (\<exists>a b c. s = Brk a b c \<and> F a b c = Ret y) \<or> (\<exists>q. s = Cont q \<and> G q = Ret y)"
  by (cases s) auto

lemma do_while_rest: "do_while f st r req (c # s) = Ret (st', req', r', rest) \<Longrightarrow> length rest \<le> length s"
proof (induction s arbitrary: c req)
  case Nil
  then show ?case by (auto simp: step_case_Ret)
next
  case (Cons d s)
  then show ?case by (fastforce simp: step_case_Ret)
qed

lemma dispatch_rest:
  assumes "dispatch st req r (c # s) = Ret (st', req', Indeterminate, rest)"
  shows "length rest < length (c # s)"
proof -
  have "length rest \<le> length s" if "once f st0 r0 req0 (c # s) = Ret (st', req', r', rest)" for f st0 r0 req0 r'
    using that by (auto simp: once_def step_case_Ret)
  then show ?thesis using assms do_while_rest [of _ _ _ _ c s st' req' _ rest]
    unfolding dispatch_def by (cases st) (simp_all, (force intro: le_imp_less_Suc)+)
qed

text \<open>The function: it returns as soon as the result is determined.\<close>

function parse_loop :: "state \<Rightarrow> request \<Rightarrow> tribool \<Rightarrow> string \<Rightarrow> (state \<times> request \<times> tribool \<times> string) cpp" where
  "parse_loop st req result input =
     (if input = [] then Ret (st, req, result, [])
      else xbind (dispatch st req result input) (\<lambda>(st, req, result, rest).
        if result = Indeterminate then parse_loop st req result rest
        else Ret (st, req, result, rest)))"
  by pat_completeness auto
termination
  by (relation "measure (\<lambda>(st, req, result, input). length input)") (auto simp: neq_Nil_conv dest!: dispatch_rest)

declare parse_loop.simps [simp del]

definition parse :: "state \<Rightarrow> request \<Rightarrow> string \<Rightarrow> (state \<times> request \<times> tribool \<times> string) cpp" where
  "parse st req input = parse_loop st req Indeterminate input"

definition reset :: "state \<Rightarrow> state" where
  "reset st = method_start"

end
