(* ===== verification/Request_Stream.thy ===== *)
theory Request_Stream
  imports Request_Parser
begin

text \<open>
  What the request parser does with a stream of bytes: it works one character at a time
  whatever its inner loops, so the chunks a request arrives in do not matter; it never
  touches the last element of an empty vector; it consumes its input up to the end of the
  request; and it recovers every request from its text.
\<close>

section \<open>One character at a time\<close>

definition char_step :: "state \<Rightarrow> request \<Rightarrow> char \<Rightarrow> (state \<times> request \<times> tribool) cpp" where
  "char_step st req c = xbind (dispatch st req Indeterminate [c]) (\<lambda>(st, req, r, rest). Ret (st, req, r))"

definition next_char :: "(state \<times> request \<times> tribool) cpp \<Rightarrow> string \<Rightarrow> (state \<times> request \<times> tribool \<times> string) cpp" where
  "next_char m s = xbind m (\<lambda>(st, req, r). if r = Indeterminate then parse st req s else Ret (st, req, r, s))"

lemma parse_Nil [simp]: "parse st req [] = Ret (st, req, Indeterminate, [])"
  by (simp add: parse_def parse_loop.simps)

lemma parse_unfold:
  "parse st req (c # s) = xbind (dispatch st req Indeterminate (c # s)) (\<lambda>(st, req, r, rest).
     if r = Indeterminate then parse st req rest else Ret (st, req, r, rest))"
  by (simp add: parse_def parse_loop.simps [of st req Indeterminate "c # s"] cong: if_cong)

lemma once_next:
  assumes "\<And>inp. dispatch st req Indeterminate inp = once f st Indeterminate req inp"
  shows "parse st req (c # s) = next_char (char_step st req c) s"
  unfolding parse_unfold char_step_def next_char_def assms
  by (cases "f req c") (auto simp: once_def split: step.split)

lemma do_while_next:
  assumes "\<And>req inp. dispatch st req Indeterminate inp = do_while f st Indeterminate req inp"
  shows "parse st req (c # s) = next_char (char_step st req c) s"
proof (cases "f req c")
  case (Ret x)
  show ?thesis
  proof (cases x)
    case (Brk st' req' r')
    then show ?thesis unfolding parse_unfold char_step_def next_char_def assms by (simp add: Ret)
  next
    case (Cont req')
    have n: "next_char (char_step st req c) s = parse st req' s"
      unfolding char_step_def next_char_def assms by (simp add: Ret Cont)
    show ?thesis
    proof (cases s)
      case Nil
      then show ?thesis unfolding n unfolding parse_unfold assms by (simp add: Ret Cont)
    next
      case (Cons d t)
      then show ?thesis unfolding n unfolding Cons parse_unfold assms by (simp add: Ret Cont)
    qed
  qed
qed (unfold parse_unfold char_step_def next_char_def assms, simp_all)

lemma parse_char:
  assumes "st \<noteq> param_value_start"
  shows "parse st req (c # s) = next_char (char_step st req c) s"
proof (cases "st \<in> {method_st, uri, param_name, param_value, http_version_h, header_name, header_value}")
  case True
  then show ?thesis by (elim insertE emptyE) (simp_all only: do_while_next dispatch_def state.case)
next
  case False
  then show ?thesis using assms by (cases st) (simp_all only: once_next dispatch_def state.case insert_iff simp_thms)
qed

section \<open>The vectors the parser extends are not empty\<close>

definition parser_inv :: "state \<Rightarrow> request \<Rightarrow> bool" where
  "parser_inv st req \<longleftrightarrow> st \<noteq> param_value_start \<and>
     (st \<in> {param_name, param_value} \<longrightarrow> params req \<noteq> []) \<and>
     (st \<in> {header_lws, header_name, space_before_header_value, header_value} \<longrightarrow> headers req \<noteq> [])"

lemmas step_defs = method_start_step_def method_step_def uri_step_def param_name_start_step_def param_name_step_def
  param_value_step_def expect_step_def http_version_slash_step_def http_version_major_start_step_def
  http_version_major_step_def http_version_minor_start_step_def http_version_minor_step_def
  header_line_start_step_def header_lws_step_def header_name_step_def header_value_step_def
  expecting_newline_3_step_def content_start_step_def content_step_def push_uri_def

lemma char_step_ok:
  assumes "parser_inv st req"
  shows "\<exists>st' req' r. char_step st req c = Ret (st', req', r) \<and> parser_inv st' req'"
  using assms
  by (cases st) (auto simp: char_step_def dispatch_def once_def step_defs parser_inv_def upd_back_def
      Let_def case_prod_unfold split: if_splits)

lemma parse_ok:
  "parser_inv st req \<Longrightarrow>
   \<exists>st' req' r rest. parse st req s = Ret (st', req', r, rest) \<and> parser_inv st' req' \<and>
     suffix rest s \<and> (r = Indeterminate \<longrightarrow> rest = [])"
proof (induction s arbitrary: st req)
  case (Cons c s)
  obtain st1 req1 r1 where c: "char_step st req c = Ret (st1, req1, r1)" "parser_inv st1 req1"
    using char_step_ok [OF Cons.prems] by blast
  have p: "parse st req (c # s) = next_char (Ret (st1, req1, r1)) s"
    using parse_char [of st req c s] Cons.prems c(1) by (simp add: parser_inv_def)
  show ?case
  proof (cases "r1 = Indeterminate")
    case True
    then show ?thesis using Cons.IH [OF c(2)] p by (auto simp: next_char_def intro: suffix_ConsI)
  next
    case False
    then show ?thesis using p c(2) by (simp add: next_char_def suffix_Cons)
  qed
qed simp

section \<open>Chunks\<close>

text \<open>The reads of a connection: each chunk is parsed until the result is determined.\<close>

fun parse_chunks :: "state \<Rightarrow> request \<Rightarrow> string list \<Rightarrow> (state \<times> request \<times> tribool \<times> string) cpp" where
  "parse_chunks st req [] = Ret (st, req, Indeterminate, [])"
| "parse_chunks st req (ch # chs) =
     xbind (parse st req ch) (\<lambda>(st, req, r, rest).
       if r = Indeterminate then parse_chunks st req chs else Ret (st, req, r, rest @ concat chs))"

lemma parse_append:
  "parser_inv st req \<Longrightarrow>
   parse st req (s @ t) = xbind (parse st req s) (\<lambda>(st, req, r, rest).
     if r = Indeterminate then parse st req t else Ret (st, req, r, rest @ t))"
proof (induction s arbitrary: st req)
  case (Cons c s)
  obtain st1 req1 r1 where c: "char_step st req c = Ret (st1, req1, r1)" "parser_inv st1 req1"
    using char_step_ok [OF Cons.prems] by blast
  have "st \<noteq> param_value_start" using Cons.prems by (simp add: parser_inv_def)
  then show ?case using Cons.IH [OF c(2)] c(1) by (simp add: parse_char next_char_def)
qed simp

lemma parse_chunks_concat: "parser_inv st req \<Longrightarrow> parse_chunks st req chs = parse st req (concat chs)"
proof (induction chs arbitrary: st req)
  case (Cons ch chs)
  obtain st' req' r rest where p: "parse st req ch = Ret (st', req', r, rest)" "parser_inv st' req'"
    using parse_ok [OF Cons.prems] by blast
  show ?case using Cons.IH [OF p(2)] parse_append [OF Cons.prems, of ch "concat chs"] p(1) by simp
qed simp

lemma parser_inv_start: "parser_inv method_start req"
  by (simp add: parser_inv_def)

section \<open>The parts of a request\<close>

definition token_char :: "char \<Rightarrow> bool" where
  "token_char c \<longleftrightarrow> \<not> bad_token c"

definition text_char :: "char \<Rightarrow> bool" where
  "text_char c \<longleftrightarrow> \<not> is_ctl (schar c)"

lemma token_not:
  assumes "token_char c"
  shows "c \<noteq> CHR '' ''" "c \<noteq> CHR ''?''" "c \<noteq> CHR ''=''" "c \<noteq> CHR '':''" "c \<noteq> CHR 0x0D" "c \<noteq> CHR 0x09"
  using assms by (auto simp: token_char_def is_tspecial_def is_ctl_def schar_def)

lemma text_not: "text_char c \<Longrightarrow> c \<noteq> CHR 0x0D"
  by (auto simp: text_char_def is_ctl_def schar_def)

lemmas eval_step = parse_char next_char_def char_step_def dispatch_def once_def step_defs upd_back_def

text \<open>One order of the updates.\<close>

lemma upd_order:
  "req\<lparr>params := p, rq_uri := u\<rparr> = req\<lparr>rq_uri := u, params := p\<rparr>"
  by (cases req) simp

lemma parse_method_start: "token_char c \<Longrightarrow> parse method_start req (c # s) = parse method_st (req\<lparr>rq_method := rq_method req @ [c]\<rparr>) s"
  by (simp add: eval_step token_char_def)

lemma parse_method:
  "\<forall>c \<in> set t. token_char c \<Longrightarrow> parse method_st req (t @ CHR '' '' # s) = parse uri (req\<lparr>rq_method := rq_method req @ t\<rparr>) s"
proof (induction t arbitrary: req)
  case (Cons c t)
  then have "parse method_st req (c # t @ CHR '' '' # s) = parse method_st (req\<lparr>rq_method := rq_method req @ [c]\<rparr>) (t @ CHR '' '' # s)"
    using token_not [of c] by (simp add: eval_step token_char_def)
  then show ?case using Cons by simp
qed (simp add: eval_step)

text \<open>A path is text without spaces and question marks.\<close>

definition path_char :: "char \<Rightarrow> bool" where
  "path_char c \<longleftrightarrow> text_char c \<and> c \<noteq> CHR '' '' \<and> c \<noteq> CHR ''?''"

lemma parse_path:
  "\<forall>c \<in> set t. path_char c \<Longrightarrow> parse uri req (t @ s) = parse uri (req\<lparr>rq_uri := rq_uri req @ t\<rparr>) s"
proof (induction t arbitrary: req)
  case (Cons c t)
  then have "parse uri req (c # t @ s) = parse uri (req\<lparr>rq_uri := rq_uri req @ [c]\<rparr>) (t @ s)"
    by (simp add: eval_step path_char_def text_char_def)
  then show ?case using Cons by simp
qed simp

lemma parse_uri_end:
  "parse uri req (CHR '' '' # s) = parse http_version_h req s"
  "parse uri req (CHR ''?'' # s) = parse param_name_start (req\<lparr>rq_uri := rq_uri req @ ''?''\<rparr>) s"
  by (simp_all add: eval_step)

text \<open>Inside a parameter: \<open>ps\<close> are the earlier ones, \<open>nv\<close> the current one.\<close>

lemma parse_param_name:
  "\<forall>c \<in> set t. token_char c \<Longrightarrow>
   parse param_name (req\<lparr>rq_uri := u, params := ps @ [\<lparr>nv_name = n, nv_value = []\<rparr>]\<rparr>) (t @ CHR ''='' # s) =
   parse param_value (req\<lparr>rq_uri := u @ t @ ''='', params := ps @ [\<lparr>nv_name = n @ t, nv_value = []\<rparr>]\<rparr>) s"
proof (induction t arbitrary: u n)
  case (Cons c t)
  then have "parse param_name (req\<lparr>rq_uri := u, params := ps @ [\<lparr>nv_name = n, nv_value = []\<rparr>]\<rparr>) (c # t @ CHR ''='' # s) =
      parse param_name (req\<lparr>rq_uri := u @ [c], params := ps @ [\<lparr>nv_name = n @ [c], nv_value = []\<rparr>]\<rparr>) (t @ CHR ''='' # s)"
    using token_not [of c] by (simp add: eval_step token_char_def push_name_def)
  then show ?case using Cons by simp
qed (simp add: eval_step upd_order)

definition value_char :: "char \<Rightarrow> bool" where
  "value_char c \<longleftrightarrow> token_char c \<and> c \<noteq> CHR ''&''"

lemma parse_param_value:
  "\<forall>c \<in> set t. value_char c \<Longrightarrow>
   parse param_value (req\<lparr>rq_uri := u, params := ps @ [\<lparr>nv_name = n, nv_value = v\<rparr>]\<rparr>) (t @ s) =
   parse param_value (req\<lparr>rq_uri := u @ t, params := ps @ [\<lparr>nv_name = n, nv_value = v @ t\<rparr>]\<rparr>) s"
proof (induction t arbitrary: u v)
  case (Cons c t)
  then have "parse param_value (req\<lparr>rq_uri := u, params := ps @ [\<lparr>nv_name = n, nv_value = v\<rparr>]\<rparr>) (c # t @ s) =
      parse param_value (req\<lparr>rq_uri := u @ [c], params := ps @ [\<lparr>nv_name = n, nv_value = v @ [c]\<rparr>]\<rparr>) (t @ s)"
    using token_not [of c] by (simp add: eval_step value_char_def token_char_def push_value_def)
  then show ?case using Cons by simp
qed simp

lemma parse_param_value_end:
  "parse param_value req (CHR '' '' # s) = parse http_version_h req s"
  "parse param_value req (CHR ''&'' # s) = parse param_name_start (req\<lparr>rq_uri := rq_uri req @ ''&''\<rparr>) s"
  by (simp_all add: eval_step)

lemma parse_param_name_start:
  "token_char c \<Longrightarrow> parse param_name_start req (c # s) =
     parse param_name (req\<lparr>rq_uri := rq_uri req @ [c], params := params req @ [\<lparr>nv_name = [c], nv_value = []\<rparr>]\<rparr>) s"
  using token_not [of c] by (simp add: eval_step token_char_def push_name_def name_value_def)

text \<open>A query: parameters with a name of at least one character, joined by ampersands.\<close>

fun query_text :: "(string \<times> string) list \<Rightarrow> string" where
  "query_text [] = []"
| "query_text [(n, v)] = n @ ''='' @ v"
| "query_text ((n, v) # ps) = n @ ''='' @ v @ ''&'' @ query_text ps"

definition query_ok :: "(string \<times> string) list \<Rightarrow> bool" where
  "query_ok ps \<longleftrightarrow> (\<forall>(n, v) \<in> set ps. n \<noteq> [] \<and> (\<forall>c \<in> set n. token_char c) \<and> (\<forall>c \<in> set v. value_char c))"

abbreviation pairs :: "(string \<times> string) list \<Rightarrow> name_value list" where
  "pairs \<equiv> map (\<lambda>(n, v). \<lparr>nv_name = n, nv_value = v\<rparr>)"

lemma parse_one_param:
  assumes "n \<noteq> []" "\<forall>c \<in> set n. token_char c" "\<forall>c \<in> set v. value_char c"
  shows "parse param_name_start req (n @ CHR ''='' # v @ s) =
     parse param_value (req\<lparr>rq_uri := rq_uri req @ n @ ''='' @ v, params := params req @ [\<lparr>nv_name = n, nv_value = v\<rparr>]\<rparr>) s"
proof -
  obtain c t where n: "n = c # t" using assms(1) by (cases n) auto
  show ?thesis using assms(2,3) parse_param_name [where t = t and req = req and u = "rq_uri req @ [c]" and ps = "params req" and n = "[c]" and s = "v @ s"]
      parse_param_value [where t = v and req = req and u = "rq_uri req @ c # t @ ''=''" and ps = "params req" and n = "c # t" and v = "[]" and s = s]
    by (simp add: n parse_param_name_start)
qed

lemma parse_query:
  "query_ok ps \<Longrightarrow> ps \<noteq> [] \<Longrightarrow>
   parse param_name_start req (query_text ps @ CHR '' '' # s) =
   parse http_version_h (req\<lparr>rq_uri := rq_uri req @ query_text ps, params := params req @ pairs ps\<rparr>) s"
proof (induction ps arbitrary: req rule: query_text.induct)
  case (2 n v)
  then show ?case using parse_one_param [of n v req "CHR '' '' # s"] by (simp add: query_ok_def parse_param_value_end)
next
  case (3 n v p ps)
  let ?r = "req\<lparr>rq_uri := rq_uri req @ n @ ''='' @ v @ ''&'', params := params req @ [\<lparr>nv_name = n, nv_value = v\<rparr>]\<rparr>"
  have "parse param_name_start req (query_text ((n, v) # p # ps) @ CHR '' '' # s) =
      parse param_name_start ?r (query_text (p # ps) @ CHR '' '' # s)"
    using parse_one_param [of n v req "CHR ''&'' # query_text (p # ps) @ CHR '' '' # s"] 3(2)
    by (simp add: query_ok_def parse_param_value_end upd_order)
  also have "\<dots> = parse http_version_h (?r\<lparr>rq_uri := rq_uri ?r @ query_text (p # ps), params := params ?r @ pairs (p # ps)\<rparr>) s"
    by (rule 3(1)) (use 3(2) in \<open>auto simp: query_ok_def\<close>)
  finally show ?case by (simp add: upd_order)
qed simp

definition target_text :: "string \<Rightarrow> (string \<times> string) list \<Rightarrow> string" where
  "target_text path ps = path @ (if ps = [] then [] else ''?'' @ query_text ps)"

lemma parse_target:
  assumes "\<forall>c \<in> set path. path_char c" "query_ok ps"
  shows "parse uri req (target_text path ps @ CHR '' '' # s) =
     parse http_version_h (req\<lparr>rq_uri := rq_uri req @ target_text path ps, params := params req @ pairs ps\<rparr>) s"
proof (cases "ps = []")
  case True
  then show ?thesis using parse_path [OF assms(1), of req "CHR '' '' # s"] by (simp add: target_text_def parse_uri_end)
next
  case False
  then show ?thesis
    using parse_path [OF assms(1), of req "CHR ''?'' # query_text ps @ CHR '' '' # s"]
      parse_query [OF assms(2) False, of "req\<lparr>rq_uri := rq_uri req @ path @ ''?''\<rparr>" s]
    by (simp add: target_text_def parse_uri_end)
qed

subsection \<open>The version\<close>

lemma schar_digit: "d < 10 \<Longrightarrow> schar (digit_char d) = 48 + int d"
proof -
  assume d: "d < 10"
  have "(of_char (digit_char d) :: int) = int (of_char (digit_char d))" by (simp only: of_nat_of_char)
  also have "\<dots> = 48 + int d" using d by (simp add: digit_char_def)
  finally show ?thesis using d by (simp add: schar_def)
qed

lemma digit_char_not: "d < 10 \<Longrightarrow> digit_char d \<noteq> CHR ''.'' \<and> digit_char d \<noteq> CHR 0x0D"
  using schar_digit [of d] by (auto simp: schar_def)

lemma add_digit_value: "0 \<le> n \<Longrightarrow> d < 10 \<Longrightarrow> n * 10 + int d \<le> 2147483647 \<Longrightarrow> add_digit n (digit_char d) = n * 10 + int d"
  by (simp add: add_digit_def schar_digit)

lemma parse_major:
  "n \<le> 2147483647 \<Longrightarrow> parse http_version_major_start (req\<lparr>http_version_major := 0\<rparr>) (dec_nat n @ s) =
     parse http_version_major_st (req\<lparr>http_version_major := int n\<rparr>) s"
proof (induction n arbitrary: s rule: dec_nat.induct)
  case (1 n)
  show ?case
  proof (cases "n < 10")
    case True
    then have d: "dec_nat n = [digit_char n]" by (simp add: dec_nat.simps)
    show ?thesis using schar_digit [OF True] add_digit_value [of 0 n] True by (simp add: d eval_step is_digit_def)
  next
    case False
    have d: "dec_nat n = dec_nat (n div 10) @ [digit_char (n mod 10)]" using False by (simp add: dec_nat.simps [of n])
    have n: "int (n div 10) * 10 + int (n mod 10) = int n" "n mod 10 \<le> 9" by presburger+
    have "parse http_version_major_start (req\<lparr>http_version_major := 0\<rparr>) (dec_nat n @ s) =
        parse http_version_major_st (req\<lparr>http_version_major := int (n div 10)\<rparr>) (digit_char (n mod 10) # s)"
      using 1(1) [OF False] 1(2) by (simp add: d)
    then show ?thesis using schar_digit [of "n mod 10"] digit_char_not [of "n mod 10"] add_digit_value [of "int (n div 10)" "n mod 10"] n 1(2)
      by (simp add: eval_step is_digit_def)
  qed
qed

lemma parse_minor:
  "n \<le> 2147483647 \<Longrightarrow> parse http_version_minor_start (req\<lparr>http_version_minor := 0\<rparr>) (dec_nat n @ s) =
     parse http_version_minor_st (req\<lparr>http_version_minor := int n\<rparr>) s"
proof (induction n arbitrary: s rule: dec_nat.induct)
  case (1 n)
  show ?case
  proof (cases "n < 10")
    case True
    then have d: "dec_nat n = [digit_char n]" by (simp add: dec_nat.simps)
    show ?thesis using schar_digit [OF True] add_digit_value [of 0 n] True by (simp add: d eval_step is_digit_def)
  next
    case False
    have d: "dec_nat n = dec_nat (n div 10) @ [digit_char (n mod 10)]" using False by (simp add: dec_nat.simps [of n])
    have n: "int (n div 10) * 10 + int (n mod 10) = int n" "n mod 10 \<le> 9" by presburger+
    have "parse http_version_minor_start (req\<lparr>http_version_minor := 0\<rparr>) (dec_nat n @ s) =
        parse http_version_minor_st (req\<lparr>http_version_minor := int (n div 10)\<rparr>) (digit_char (n mod 10) # s)"
      using 1(1) [OF False] 1(2) by (simp add: d)
    then show ?thesis using schar_digit [of "n mod 10"] digit_char_not [of "n mod 10"] add_digit_value [of "int (n div 10)" "n mod 10"] n 1(2)
      by (simp add: eval_step is_digit_def)
  qed
qed

abbreviation nl :: string where "nl \<equiv> [CHR 0x0D, CHR 0x0A]"

definition version_text :: "nat \<Rightarrow> nat \<Rightarrow> string" where
  "version_text a b = ''HTTP/'' @ dec_nat a @ ''.'' @ dec_nat b"

lemma upd_order2:
  "req\<lparr>http_version_minor := b, http_version_major := a\<rparr> = req\<lparr>http_version_major := a, http_version_minor := b\<rparr>"
  by (cases req) simp

lemma parse_version:
  assumes "a \<le> 2147483647" "b \<le> 2147483647"
  shows "parse http_version_h req (version_text a b @ nl @ s) =
     parse header_line_start (req\<lparr>http_version_major := int a, http_version_minor := int b\<rparr>) s"
proof -
  have "parse http_version_h req (version_text a b @ nl @ s) =
      parse http_version_major_start (req\<lparr>http_version_minor := 0, http_version_major := 0\<rparr>) (dec_nat a @ CHR ''.'' # dec_nat b @ nl @ s)"
    by (simp add: version_text_def eval_step upd_order2)
  also have "\<dots> = parse http_version_minor_start (req\<lparr>http_version_major := int a, http_version_minor := 0\<rparr>) (dec_nat b @ nl @ s)"
    using parse_major [OF assms(1), of "req\<lparr>http_version_minor := 0\<rparr>" "CHR ''.'' # dec_nat b @ nl @ s"]
    by (simp add: upd_order2) (simp add: eval_step)
  also have "\<dots> = parse http_version_minor_st (req\<lparr>http_version_major := int a, http_version_minor := int b\<rparr>) (nl @ s)"
    using parse_minor [OF assms(2), of "req\<lparr>http_version_major := int a\<rparr>" "nl @ s"] by simp
  also have "\<dots> = parse header_line_start (req\<lparr>http_version_major := int a, http_version_minor := int b\<rparr>) s"
    by (simp add: eval_step)
  finally show ?thesis .
qed

subsection \<open>The header\<close>

lemma parse_header_name:
  "\<forall>c \<in> set t. token_char c \<Longrightarrow>
   parse header_name (req\<lparr>headers := hs @ [\<lparr>nv_name = n, nv_value = []\<rparr>]\<rparr>) (t @ CHR '':'' # CHR '' '' # s) =
   parse header_value (req\<lparr>headers := hs @ [\<lparr>nv_name = n @ t, nv_value = []\<rparr>]\<rparr>) s"
proof (induction t arbitrary: n)
  case (Cons c t)
  then have "parse header_name (req\<lparr>headers := hs @ [\<lparr>nv_name = n, nv_value = []\<rparr>]\<rparr>) (c # t @ CHR '':'' # CHR '' '' # s) =
      parse header_name (req\<lparr>headers := hs @ [\<lparr>nv_name = n @ [c], nv_value = []\<rparr>]\<rparr>) (t @ CHR '':'' # CHR '' '' # s)"
    using token_not [of c] by (simp add: eval_step token_char_def push_name_def)
  then show ?case using Cons by simp
qed (simp add: eval_step)

lemma parse_header_value:
  "\<forall>c \<in> set t. text_char c \<Longrightarrow>
   parse header_value (req\<lparr>headers := hs @ [\<lparr>nv_name = n, nv_value = v\<rparr>]\<rparr>) (t @ nl @ s) =
   parse header_line_start (req\<lparr>headers := hs @ [\<lparr>nv_name = n, nv_value = v @ t\<rparr>]\<rparr>) s"
proof (induction t arbitrary: v)
  case (Cons c t)
  then have "parse header_value (req\<lparr>headers := hs @ [\<lparr>nv_name = n, nv_value = v\<rparr>]\<rparr>) (c # t @ nl @ s) =
      parse header_value (req\<lparr>headers := hs @ [\<lparr>nv_name = n, nv_value = v @ [c]\<rparr>]\<rparr>) (t @ nl @ s)"
    using text_not [of c] by (simp add: eval_step text_char_def push_value_def)
  then show ?case using Cons by simp
qed (simp add: eval_step)

definition header_text :: "(string \<times> string) list \<Rightarrow> string" where
  "header_text hs = concat (map (\<lambda>(n, v). n @ '': '' @ v @ nl) hs)"

definition headers_ok :: "(string \<times> string) list \<Rightarrow> bool" where
  "headers_ok hs \<longleftrightarrow> (\<forall>(n, v) \<in> set hs. n \<noteq> [] \<and> (\<forall>c \<in> set n. token_char c) \<and> (\<forall>c \<in> set v. text_char c))"

lemma parse_headers:
  "headers_ok hs \<Longrightarrow> parse header_line_start req (header_text hs @ s) = parse header_line_start (req\<lparr>headers := headers req @ pairs hs\<rparr>) s"
proof (induction hs arbitrary: req)
  case (Cons h hs)
  obtain n v where h: "h = (n, v)" by (cases h)
  then have ok: "n \<noteq> []" "\<forall>c \<in> set n. token_char c" "\<forall>c \<in> set v. text_char c" "headers_ok hs"
    using Cons.prems by (auto simp: headers_ok_def)
  obtain c t where n: "n = c # t" using ok(1) by (cases n) auto
  let ?rest = "header_text hs @ s"
  have "parse header_line_start req (header_text (h # hs) @ s) =
      parse header_name (req\<lparr>headers := headers req @ [\<lparr>nv_name = [c], nv_value = []\<rparr>]\<rparr>) (t @ CHR '':'' # CHR '' '' # v @ nl @ ?rest)"
    using ok(2) token_not [of c] by (simp add: h n header_text_def eval_step token_char_def push_name_def name_value_def)
  also have "\<dots> = parse header_value (req\<lparr>headers := headers req @ [\<lparr>nv_name = n, nv_value = []\<rparr>]\<rparr>) (v @ nl @ ?rest)"
    using parse_header_name [where t = t and req = req and hs = "headers req" and n = "[c]" and s = "v @ nl @ ?rest"] ok(2) n by simp
  also have "\<dots> = parse header_line_start (req\<lparr>headers := headers req @ [\<lparr>nv_name = n, nv_value = v\<rparr>]\<rparr>) ?rest"
    using parse_header_value [OF ok(3), where req = req and hs = "headers req" and n = n and v = "[]" and s = ?rest] by simp
  finally show ?case using Cons.IH [OF ok(4)] by (simp add: h)
qed (simp add: header_text_def)

lemma parse_header_end: "parse header_line_start req (CHR 0x0D # s) = parse expecting_newline_3 req s"
  by (simp add: eval_step)

text \<open>A request line and header, for the method \<open>m\<close>, the path, the query and the version.\<close>

definition head_text :: "string \<Rightarrow> string \<Rightarrow> (string \<times> string) list \<Rightarrow> nat \<Rightarrow> nat \<Rightarrow> (string \<times> string) list \<Rightarrow> string" where
  "head_text m path ps a b hs = m @ '' '' @ target_text path ps @ '' '' @ version_text a b @ nl @ header_text hs @ nl"

definition head_ok :: "string \<Rightarrow> string \<Rightarrow> (string \<times> string) list \<Rightarrow> nat \<Rightarrow> nat \<Rightarrow> (string \<times> string) list \<Rightarrow> bool" where
  "head_ok m path ps a b hs \<longleftrightarrow> m \<noteq> [] \<and> (\<forall>c \<in> set m. token_char c) \<and> (\<forall>c \<in> set path. path_char c) \<and>
     query_ok ps \<and> a \<le> 2147483647 \<and> b \<le> 2147483647 \<and> headers_ok hs"

definition head_request :: "string \<Rightarrow> string \<Rightarrow> (string \<times> string) list \<Rightarrow> nat \<Rightarrow> nat \<Rightarrow> (string \<times> string) list \<Rightarrow> request" where
  "head_request m path ps a b hs = new_request\<lparr>rq_method := m, rq_uri := target_text path ps, params := pairs ps,
     http_version_major := int a, http_version_minor := int b, headers := pairs hs\<rparr>"

lemma parse_head:
  assumes "head_ok m path ps a b hs"
  shows "parse method_start new_request (head_text m path ps a b hs @ s) =
    parse expecting_newline_3 (head_request m path ps a b hs) (CHR 0x0A # s)"
proof -
  note ok = assms [unfolded head_ok_def]
  obtain c t where m: "m = c # t" using ok by (cases m) auto
  let ?v = "version_text a b @ nl @ header_text hs @ nl @ s"
  have "parse method_start new_request (head_text m path ps a b hs @ s) =
      parse method_st (new_request\<lparr>rq_method := [c]\<rparr>) (t @ CHR '' '' # target_text path ps @ CHR '' '' # ?v)"
    using ok by (simp add: head_text_def m parse_method_start) (simp add: new_request_def)
  also have "\<dots> = parse uri (new_request\<lparr>rq_method := m\<rparr>) (target_text path ps @ CHR '' '' # ?v)"
    using ok by (simp add: parse_method m)
  also have "\<dots> = parse http_version_h (new_request\<lparr>rq_method := m, rq_uri := target_text path ps, params := pairs ps\<rparr>) ?v"
    using ok by (simp add: parse_target) (simp add: new_request_def)
  also have "\<dots> = parse header_line_start (new_request\<lparr>rq_method := m, rq_uri := target_text path ps, params := pairs ps,
      http_version_major := int a, http_version_minor := int b\<rparr>) (header_text hs @ nl @ s)"
    using ok parse_version [of a b _ "header_text hs @ nl @ s"] by simp
  also have "\<dots> = parse header_line_start (head_request m path ps a b hs) (nl @ s)"
    using ok parse_headers [of hs _ "nl @ s"] by (simp add: head_request_def new_request_def)
  finally show ?thesis by (simp add: parse_header_end)
qed

subsection \<open>The content\<close>

definition body_ok :: "string \<Rightarrow> (string \<times> string) list \<Rightarrow> bool" where
  "body_ok body hs \<longleftrightarrow> body \<noteq> [] \<and> token_char (hd body) \<and> value_of ''Content-Length'' (pairs hs) \<noteq> [] \<and>
     strtol (value_of ''Content-Length'' (pairs hs)) = int (length body)"

lemma clamp_range: "max (- 2147483648) (min 2147483647 x) \<le> (2147483647 :: int)" "(- 2147483648 :: int) \<le> max (- 2147483648) (min 2147483647 x)"
  by simp_all

lemma strtol_range: "strtol s \<le> 2147483647" "- 2147483648 \<le> strtol s"
  unfolding strtol_def strto_def Let_def by (rule clamp_range)+

lemma strtol_dec_nat: "n \<le> 2147483647 \<Longrightarrow> strtol (dec_nat n) = int n"
  by (simp add: strtol_def strto_dec_nat)

lemma lookup_present: "value_of n nvs \<noteq> [] \<Longrightarrow> snd (lookup_nv n nvs) = nvs"
  by (simp add: lookup_nv_def value_of_def split: option.splits)

lemma set_content_length_present:
  "value_of ''Content-Length'' (headers req) \<noteq> [] \<Longrightarrow>
   set_content_length req = req\<lparr>content_length := strtol (value_of ''Content-Length'' (headers req))\<rparr>"
  using strtol_range [of "value_of ''Content-Length'' (headers req)"]
  by (simp add: set_content_length_def case_prod_unfold lookup_present)

lemma upd_order3:
  "req\<lparr>content_length := k, rq_content := t\<rparr> = req\<lparr>rq_content := t, content_length := k\<rparr>"
  by (cases req) simp

lemma parse_content:
  assumes "value_of ''Content-Length'' (headers req) = v" "v \<noteq> []" "int (length body) \<le> 2147483647" "body \<noteq> []"
  shows "parse content (req\<lparr>rq_content := t, content_length := int (length body)\<rparr>) (body @ s) =
    Ret (content, req\<lparr>rq_content := t @ body, content_length := strtol v\<rparr>, Yes, s)"
  using assms(3,4)
proof (induction body arbitrary: t)
  case (Cons c body)
  show ?case
  proof (cases "body = []")
    case True
    then show ?thesis using assms(1,2) by (simp add: eval_step take_content_def set_content_length_present upd_order3)
  next
    case False
    then have "parse content (req\<lparr>rq_content := t, content_length := int (length (c # body))\<rparr>) ((c # body) @ s) =
        parse content (req\<lparr>rq_content := t @ [c], content_length := int (length body)\<rparr>) (body @ s)"
      using Cons.prems by (simp add: eval_step take_content_def Let_def upd_order3)
    then show ?thesis using Cons False by simp
  qed
qed simp

lemma parse_post_start:
  assumes "value_of ''Content-Length'' (headers req) = v" "v \<noteq> []" "rq_method req = ''POST''"
  shows "parse expecting_newline_3 req (CHR 0x0A # s) = parse content_start (req\<lparr>content_length := strtol v\<rparr>) s"
  using assms set_content_length_present [of req] lookup_present [of "''Content-Length''" "headers req"]
  by (simp add: parse_char next_char_def char_step_def dispatch_def once_def expecting_newline_3_step_def case_prod_unfold)

lemma parse_body:
  assumes "value_of ''Content-Length'' (headers req) = v" "v \<noteq> []" "strtol v = int (length body)"
    "body \<noteq> []" "token_char (hd body)" "rq_content req = []"
  shows "\<exists>st. parse content_start (req\<lparr>content_length := strtol v\<rparr>) (body @ s) =
    Ret (st, req\<lparr>rq_content := body, content_length := strtol v\<rparr>, Yes, s)"
proof -
  obtain c b where b: "body = c # b" using assms(4) by (cases body) auto
  have le: "int (length body) \<le> 2147483647" using strtol_range(1) [of v] assms(3) by simp
  show ?thesis
  proof (cases "b = []")
    case True
    then show ?thesis using assms b
      by (simp add: eval_step take_content_def token_char_def set_content_length_present upd_order3)
  next
    case False
    then have "parse content_start (req\<lparr>content_length := strtol v\<rparr>) (body @ s) =
        parse content (req\<lparr>rq_content := [c], content_length := int (length b)\<rparr>) (b @ s)"
      using assms b le by (simp add: eval_step take_content_def Let_def token_char_def upd_order3)
    then show ?thesis using parse_content [OF assms(1,2), of b "[c]" s] le b False by simp
  qed
qed

text \<open>A length of zero or less only grows away from zero, until the counter wraps around.\<close>

lemma content_never_done:
  "- 2147483648 \<le> n \<Longrightarrow> n \<le> 0 \<Longrightarrow> int (length s) \<le> n + 2147483648 \<Longrightarrow>
   \<exists>req'. parse content (req\<lparr>content_length := n\<rparr>) s = Ret (content, req', Indeterminate, [])"
proof (induction s arbitrary: n req)
  case (Cons c s)
  have n: "to_i32 (n - 1) = n - 1" using Cons.prems by simp
  have "parse content (req\<lparr>content_length := n\<rparr>) (c # s) =
      parse content (req\<lparr>rq_content := rq_content req @ [c], content_length := n - 1\<rparr>) s"
    using Cons.prems by (simp add: eval_step take_content_def Let_def n upd_order3)
  then show ?case using Cons.IH [of "n - 1" "req\<lparr>rq_content := rq_content req @ [c]\<rparr>"] Cons.prems by simp
qed simp

lemma empty_body_never_done:
  assumes "strtol v \<le> 0" "rq_content req = []" "int (length s) \<le> strtol v + 2147483648"
  shows "\<exists>st req' r rest. parse content_start (req\<lparr>content_length := strtol v\<rparr>) s = Ret (st, req', r, rest) \<and> r \<noteq> Yes"
proof (cases s)
  case (Cons c t)
  have n: "to_i32 (strtol v - 1) = strtol v - 1" using assms Cons strtol_range(2) [of v] by simp
  show ?thesis
  proof (cases "token_char c")
    case True
    then have "parse content_start (req\<lparr>content_length := strtol v\<rparr>) s =
        parse content (req\<lparr>rq_content := [c], content_length := strtol v - 1\<rparr>) t"
      using assms Cons by (simp add: eval_step take_content_def Let_def n token_char_def upd_order3)
    then show ?thesis
      using content_never_done [of "strtol v - 1" t "req\<lparr>rq_content := [c]\<rparr>"] assms Cons strtol_range(2) [of v] by auto
  next
    case False
    then show ?thesis using assms Cons by (simp add: eval_step token_char_def)
  qed
qed simp

lemma token_alnum:
  assumes "c_isalnum c \<or> c = CHR ''-''"
  shows "token_char c"
proof -
  have n: "int (of_char c) = of_char c" by (simp only: of_nat_of_char)
  have s: "schar c = of_char c" if "(of_char c :: nat) < 128" using that n by (simp add: schar_def)
  show ?thesis
  proof (cases "c = CHR ''-''")
    case False
    then have "(48 :: nat) \<le> of_char c \<and> (of_char c :: nat) \<le> 57 \<or> (65 :: nat) \<le> of_char c \<and> (of_char c :: nat) \<le> 90 \<or>
        (97 :: nat) \<le> of_char c \<and> (of_char c :: nat) \<le> 122"
      using assms by (auto simp: c_isalnum_def c_isalpha_def c_isdigit_def)
    then have "schar c = int (of_char c)" "48 \<le> int (of_char c) \<and> int (of_char c) \<le> 57 \<or> 65 \<le> int (of_char c) \<and> int (of_char c) \<le> 90 \<or>
        97 \<le> int (of_char c) \<and> int (of_char c) \<le> 122" using s n by linarith+
    then show ?thesis by (auto simp: token_char_def is_char_def is_ctl_def is_tspecial_def)
  qed (simp add: token_char_def is_char_def is_ctl_def is_tspecial_def schar_def)
qed

lemma parse_request:
  assumes "head_ok m path ps a b hs" "m = ''GET'' \<and> body = [] \<or> m = ''POST'' \<and> body_ok body hs"
    "concat chs = head_text m path ps a b hs @ body @ tail"
  shows "\<exists>st. parse_chunks method_start new_request chs =
    Ret (st, (head_request m path ps a b hs)\<lparr>rq_content := body, content_length := int (length body)\<rparr>, Yes, tail)"
proof -
  let ?req = "head_request m path ps a b hs"
  have sel: "rq_method ?req = m" "headers ?req = pairs hs" "rq_content ?req = []" "content_length ?req = 0"
    by (simp_all add: head_request_def new_request_def)
  have p: "parse_chunks method_start new_request chs = parse expecting_newline_3 ?req (CHR 0x0A # body @ tail)"
    using parse_head [OF assms(1), of "body @ tail"] by (simp add: parse_chunks_concat [OF parser_inv_start] assms(3))
  from assms(2) show ?thesis
  proof
    assume m: "m = ''GET'' \<and> body = []"
    then have "?req\<lparr>rq_content := body, content_length := int (length body)\<rparr> = ?req" using sel by simp
    moreover have "parse expecting_newline_3 ?req (CHR 0x0A # tail) = Ret (expecting_newline_3, ?req, Yes, tail)"
      using sel m by (simp add: eval_step)
    ultimately show ?thesis using p m by auto
  next
    assume m: "m = ''POST'' \<and> body_ok body hs"
    then have v: "value_of ''Content-Length'' (pairs hs) \<noteq> []" "strtol (value_of ''Content-Length'' (pairs hs)) = int (length body)"
      "body \<noteq> []" "token_char (hd body)" by (auto simp: body_ok_def)
    show ?thesis unfolding p
      using parse_post_start [OF _ v(1), of ?req "body @ tail"] parse_body [OF _ v, of ?req tail] sel m v(2) by simp
  qed
qed

section \<open>Properties\<close>

text \<open>
  C29. On every input, from every state the parser can be in, the parser returns: it never uses
  the last element of an empty vector of parameters or headers, it consumes a prefix of the
  input, all of it when more is needed, and it is again in a consistent state.
\<close>
theorem request_parser_safe:
  assumes "parser_inv st req"
  shows "\<exists>st' req' r rest. parse st req s = Ret (st', req', r, rest) \<and> parser_inv st' req' \<and>
    suffix rest s \<and> (r = Indeterminate \<longrightarrow> rest = [])"
  using assms by (rule parse_ok)

theorem request_parser_safe_witness:
  "\<exists>st' req' r rest. parse method_start new_request ''GET /?a b'' = Ret (st', req', r, rest) \<and> parser_inv st' req'"
  using request_parser_safe [OF parser_inv_start, of new_request "''GET /?a b''"] by blast

text \<open>
  C30. The bytes of a request may arrive in any chunks: parsing them one after the other, as the
  connection does, gives the same state, request, answer and left-over bytes as parsing the
  whole text at once.
\<close>
theorem request_chunk_independent:
  assumes "parser_inv st req"
  shows "parse_chunks st req chs = parse st req (concat chs)"
  using assms by (rule parse_chunks_concat)

theorem request_chunk_independent_witness:
  "parse_chunks method_start new_request [''GE'', ''T '', '''', ''/x''] = parse method_start new_request ''GET /x''"
  using request_chunk_independent [OF parser_inv_start, of new_request "[''GE'', ''T '', '''', ''/x'']"] by simp



text \<open>
  A POST request whose Content-Length is zero or negative is never completed: the counter is
  decremented before it is compared with zero, so whatever follows the header (up to the wrap-around
  of the counter) is swallowed as content or rejected, and an empty body is never accepted.
\<close>
theorem request_empty_post_never_completes:
  assumes "head_ok ''POST'' path ps a b hs" "value_of ''Content-Length'' (pairs hs) = v" "v \<noteq> []" "strtol v \<le> 0"
    "int (length s) \<le> strtol v + 2147483648"
  shows "\<exists>st req r rest. parse method_start new_request (head_text ''POST'' path ps a b hs @ s) = Ret (st, req, r, rest) \<and> r \<noteq> Yes"
proof -
  let ?req = "head_request ''POST'' path ps a b hs"
  have sel: "rq_method ?req = ''POST''" "headers ?req = pairs hs" "rq_content ?req = []"
    by (simp_all add: head_request_def new_request_def)
  show ?thesis
    unfolding parse_head [OF assms(1)] using parse_post_start [OF _ assms(3), of ?req s] empty_body_never_done [of v ?req s] sel assms by simp
qed

theorem request_empty_post_never_completes_witness:
  "\<exists>st req r rest. parse method_start new_request (''POST / HTTP/1.1'' @ nl @ ''Content-Length: 0'' @ nl @ nl) = Ret (st, req, r, rest) \<and> r \<noteq> Yes"
proof -
  have "\<forall>c \<in> set ''POSTContent-Length''. c_isalnum c \<or> c = CHR ''-''" by (simp add: c_isalnum_def c_isalpha_def c_isdigit_def)
  then have tok: "\<forall>c \<in> set ''POSTContent-Length''. token_char c" using token_alnum by blast
  have h: "head_ok ''POST'' ''/'' [] 1 1 [(''Content-Length'', ''0'')]"
    using tok by (simp add: head_ok_def query_ok_def headers_ok_def path_char_def text_char_def is_ctl_def schar_def)
  have l: "strtol ''0'' = 0" using strtol_dec_nat [of 0] by (simp add: dec_eval)
  have t: "head_text ''POST'' ''/'' [] 1 1 [(''Content-Length'', ''0'')] = ''POST / HTTP/1.1'' @ nl @ ''Content-Length: 0'' @ nl @ nl"
    by (simp add: head_text_def target_text_def version_text_def header_text_def dec_eval)
  show ?thesis using request_empty_post_never_completes [OF h, of "''0''" "[]", unfolded t] l by (simp add: value_of_def)
qed

end
