(* ===== verification/Request_Content.thy ===== *)
theory Request_Content
  imports Request_Stream
begin

text \<open>
  What \<^verbatim>\<open>src/src/request_parser.cpp\<close> does with a complete request: the parts of the path, the
  decoded query, the cookies, and the parameters and uploads of the body (url-encoded or
  multipart). Positions are 64-bit and wrap around where the code computes with \<^verbatim>\<open>npos\<close>.
\<close>

section \<open>Path and query\<close>

text \<open>\<^verbatim>\<open>std::getline\<close> until the stream is empty.\<close>

function split :: "string \<Rightarrow> char \<Rightarrow> string list" where
  "split s c =
     (if s = [] then []
      else takeWhile (\<lambda>x. x \<noteq> c) s #
        (case dropWhile (\<lambda>x. x \<noteq> c) s of [] \<Rightarrow> [] | d # t \<Rightarrow> split t c))"
  by pat_completeness auto
termination
proof (relation "measure (\<lambda>(s, c). length s)")
  fix s :: string and c d t
  assume "dropWhile (\<lambda>x. x \<noteq> c) s = d # t"
  then have "length (d # t) \<le> length s" by (metis length_dropWhile_le)
  then show "((t, c), (s, c)) \<in> measure (\<lambda>(s, c). length s)" by simp
qed simp

declare split.simps [simp del]

definition parse_params :: "request \<Rightarrow> request cpp" where
  "parse_params req =
     (let request_uri = percent_decode (rq_uri req);
          rest = rest_params req @ split request_uri (CHR ''/'')
      in if rest = [] then Undefined
         else
           let req = req\<lparr>rest_params := tl rest\<rparr> in
           if params req = [] then Ret req
           else Ret (req\<lparr>params := map (\<lambda>nv. nv\<lparr>nv_name := percent_decode (nv_name nv), nv_value := percent_decode (nv_value nv)\<rparr>) (params req)\<rparr>))"

section \<open>Cookies\<close>

definition parse_cookie :: "request \<Rightarrow> string \<Rightarrow> request cpp" where
  "parse_cookie req data =
     (let pos = str_find data ''='' 0 in
      if pos = npos then Ret req
      else
        let space_count = length (takeWhile c_isspace data) in
        xbind (substr data space_count (to_size (int pos - int space_count))) (\<lambda>name.
        xbind (substr data (pos + 1) npos) (\<lambda>value.
        Ret (req\<lparr>cookies := cookies req @ [name_value name value]\<rparr>))))"

lemma str_find_bound: "str_find s pat pos \<noteq> npos \<Longrightarrow> pos \<le> str_find s pat pos \<and> str_find s pat pos + length pat \<le> length s"
  using occurs_at_Some [of pat "drop pos s"] by (fastforce simp: str_find_def split: if_splits option.splits)

lemma find_first_of_bound: "find_first_of s cs pos \<noteq> npos \<Longrightarrow> pos \<le> find_first_of s cs pos \<and> find_first_of s cs pos < length s"
  by (cases "index_of (\<lambda>c. c \<in> set cs) (drop pos s)") (auto simp: find_first_of_def dest!: iffD1 [OF index_of_Some])

function cookies_loop :: "request \<Rightarrow> string \<Rightarrow> nat \<Rightarrow> request cpp" where
  "cookies_loop req data old_pos =
     (let pos = str_find data '';'' old_pos in
      if pos = npos then xbind (substr data old_pos npos) (\<lambda>d. parse_cookie req d)
      else
        xbind (substr data old_pos (pos - old_pos)) (\<lambda>d.
        xbind (parse_cookie req d) (\<lambda>req.
        cookies_loop req data (pos + 1))))"
  by pat_completeness auto
termination
  by (relation "measure (\<lambda>(req, data, old_pos). Suc (length data) - old_pos)") (auto dest!: str_find_bound)

declare cookies_loop.simps [simp del]

definition parse_cookies :: "request \<Rightarrow> request cpp" where
  "parse_cookies req =
     (case header ''Cookie'' req of (data, req) \<Rightarrow> if data = [] then Ret req else cookies_loop req data 0)"

section \<open>Url-encoded content\<close>

text \<open>One parameter is appended to the vector.\<close>

definition add_param :: "string \<Rightarrow> string \<Rightarrow> request \<Rightarrow> request" where
  "add_param name value req = req\<lparr>params := params req @ [name_value name value]\<rparr>"

function form_loop :: "request \<Rightarrow> string \<Rightarrow> nat \<Rightarrow> request cpp" where
  "form_loop req body old_pos =
     (let pos = find_first_of body ''&='' old_pos in
      if pos = npos then Ret req
      else if body ! pos = CHR ''&'' then
        let old_pos = old_pos + length (takeWhile (\<lambda>c. c = CHR ''&'') (drop old_pos body)) in
        if pos \<le> old_pos then form_loop req body (pos + 1)
        else xbind (substr body old_pos (pos - old_pos)) (\<lambda>n.
               form_loop (add_param (percent_decode n) [] req) body (pos + 1))
      else
        xbind (substr body old_pos (pos - old_pos)) (\<lambda>n.
        let old_pos = pos + 1; pos = find_first_of body '';&'' old_pos in
        xbind (substr body old_pos (to_size (int pos - int old_pos))) (\<lambda>v.
        let req = add_param (percent_decode n) (percent_decode v) req in
        if pos = npos then Ret req else form_loop req body (pos + 1))))"
  by pat_completeness auto
termination
  by (relation "measure (\<lambda>(req, body, old_pos). Suc (length body) - old_pos)") (auto dest!: find_first_of_bound)

declare form_loop.simps [simp del]

section \<open>Multipart content\<close>

definition parse_multipart_header :: "string \<Rightarrow> multipart_header cpp" where
  "parse_multipart_header data =
     xbind (extract_between data ''Content-Disposition: '' '';'') (\<lambda>disposition.
     xbind (extract_between data (''name='' @ [CHR 0x22]) [CHR 0x22]) (\<lambda>name.
     xbind (extract_between data (''filename='' @ [CHR 0x22]) [CHR 0x22]) (\<lambda>filename.
     xbind (extract_between data ''Content-Type: '' (nl @ nl)) (\<lambda>c_type.
     Ret \<lparr>mh_disposition = disposition, mh_name = name, mh_filename = percent_decode filename, mh_filetype = c_type\<rparr>))))"

definition parse_multipart_content :: "request \<Rightarrow> string \<Rightarrow> request cpp" where
  "parse_multipart_content req data =
     (let head_limit = str_find data (nl @ nl) 0 in
      if head_limit = npos then Throw (RuntimeError ''invalid part header'')
      else
        let value_start = head_limit + 4 in
        xbind (substr data value_start (to_size (int (length data) - int value_start - 2))) (\<lambda>value.
        xbind (substr data 0 value_start) (\<lambda>h.
        xbind (parse_multipart_header h) (\<lambda>head.
        Ret (if mh_filename head = [] then add_param (mh_name head) value req
             else req\<lparr>uploads := uploads req @ [\<lparr>mc_name = mh_name head, mc_filename = mh_filename head,
                    mc_filetype = mh_filetype head, mc_data = value\<rparr>]\<rparr>)))))"

text \<open>The two separators; \<open>pos\<close> may be \<^verbatim>\<open>npos\<close>, and then the sum wraps around.\<close>

definition separator :: "string \<Rightarrow> nat \<Rightarrow> string \<Rightarrow> string cpp" where
  "separator content_type pos tail =
     xbind (substr content_type (to_size (int pos + 9)) npos) (\<lambda>sep.
     xbind (if str_find sep '';'' 0 \<noteq> npos then substr sep 0 (str_find sep '';'' 0) else Ret sep) (\<lambda>sep.
     Ret (''--'' @ sep @ tail)))"

text \<open>The loop over the parts; the separator is not empty, so the position grows.\<close>

fun parts_loop :: "nat \<Rightarrow> request \<Rightarrow> string \<Rightarrow> string \<Rightarrow> nat \<Rightarrow> (request \<times> nat) cpp" where
  "parts_loop 0 req body sep1 old_pos = Undefined"
| "parts_loop (Suc fuel) req body sep1 old_pos =
     (let pos = str_find body sep1 old_pos in
      if pos = npos then Ret (req, old_pos)
      else
        xbind (substr body old_pos (pos - old_pos)) (\<lambda>d.
        xbind (parse_multipart_content req d) (\<lambda>req.
        parts_loop fuel req body sep1 (pos + length sep1))))"

definition parse_content_fn :: "request \<Rightarrow> request cpp" where
  "parse_content_fn req =
     (if rq_content req = [] then Ret req
      else
        case header ''Content-Type'' req of (content_type, req) \<Rightarrow>
        if content_type = [] \<or> strings_are_equal_n content_type ''application/x-www-form-urlencoded'' 33
        then form_loop req (rq_content req) 0
        else if strings_are_equal_n ''multipart/form-data'' content_type 19 then
          let pos = str_find content_type ''boundary='' 0 in
          xbind (separator content_type pos nl) (\<lambda>sep1.
          xbind (separator content_type pos (''--'' @ nl)) (\<lambda>sep2.
          let start = str_find (rq_content req) sep1 0; old_pos = to_size (int start + int (length sep1)) in
          xbind (parts_loop (Suc (length (rq_content req))) req (rq_content req) sep1 old_pos) (\<lambda>(req, old_pos).
          let pos = str_find (rq_content req) sep2 old_pos in
          if pos \<noteq> npos then xbind (substr (rq_content req) old_pos (pos - old_pos)) (\<lambda>d. parse_multipart_content req d)
          else Ret req)))
        else Ret req)"

section \<open>Searching in a text of known shape\<close>

lemma find_first_of_hit:
  assumes "\<forall>x \<in> set t. x \<notin> set cs" "c \<in> set cs"
  shows "find_first_of (pre @ t @ c # rest) cs (length pre) = length pre + length t"
  using assms index_of_append [of t "\<lambda>x. x \<in> set cs" "c # rest"] by (simp add: find_first_of_def)

lemma find_first_of_miss:
  assumes "\<forall>x \<in> set t. x \<notin> set cs"
  shows "find_first_of (pre @ t) cs (length pre) = npos"
  using assms by (simp add: find_first_of_def index_of_None [THEN iffD2])

lemma str_find_char_hit:
  assumes "c \<notin> set t"
  shows "str_find (pre @ t @ c # rest) [c] (length pre) = length pre + length t"
proof -
  have "index_of (\<lambda>x. x = c) (t @ c # rest) = Some (length t)"
    using index_of_append [of t "\<lambda>x. x = c" "c # rest"] assms by auto
  then show ?thesis by (simp add: str_find_def occurs_at_single)
qed

lemma str_find_char_miss:
  assumes "c \<notin> set t"
  shows "str_find (pre @ t) [c] (length pre) = npos"
proof -
  have "index_of (\<lambda>x. x = c) t = None" using assms by (auto simp: index_of_None)
  then show ?thesis by (simp add: str_find_def occurs_at_single)
qed

section \<open>Forms\<close>

fun form_text :: "(string \<times> string) list \<Rightarrow> string" where
  "form_text [] = []"
| "form_text [(n, v)] = percent_encode n @ ''='' @ percent_encode v"
| "form_text ((n, v) # ps) = percent_encode n @ ''='' @ percent_encode v @ ''&'' @ form_text ps"

lemma percent_encode_chars: "c \<in> set (percent_encode s) \<Longrightarrow> c \<notin> set ''&=;''"
proof -
  assume "c \<in> set (percent_encode s)"
  then have "unreserved c \<or> c = CHR ''%''" using percent_encode_alphabet [of s] by auto
  then show "c \<notin> set ''&=;''" by (auto simp: unreserved_def c_isalnum_def c_isalpha_def c_isdigit_def)
qed

lemma decode_encoded [simp]: "percent_decode (percent_encode s) = s"
  using percent_decode_encode [of s "[]"] by simp

lemma form_loop_pair:
  fixes n v :: string
  defines "N \<equiv> percent_encode n" and "V \<equiv> percent_encode v"
  assumes "body = pre @ N @ CHR ''='' # V @ rest" "length body < npos" "rest = [] \<or> (\<exists>t. rest = CHR ''&'' # t)"
  shows "form_loop req body (length pre) =
    (if rest = [] then Ret (add_param n v req) else form_loop (add_param n v req) body (Suc (length (pre @ N @ CHR ''='' # V))))"
proof -
  have N: "\<forall>x \<in> set N. x \<notin> set ''&=''" and V: "\<forall>x \<in> set V. x \<notin> set '';&''" using percent_encode_chars unfolding N_def V_def by fastforce+
  have p1: "find_first_of body ''&='' (length pre) = length pre + length N"
    unfolding assms(3) by (rule find_first_of_hit [OF N]) simp
  have b1: "body ! (length pre + length N) = CHR ''=''" "length pre + length N \<noteq> npos" using assms(3,4) by (auto simp: nth_append)
  have s1: "substr body (length pre) (length N) = Ret N" using assms(3) by (simp add: substr_def)
  let ?q = "pre @ N @ ''=''"
  have body: "body = ?q @ V @ rest" using assms(3) by simp
  have p2: "find_first_of body '';&'' (length ?q) = (if rest = [] then npos else length ?q + length V)"
  proof (cases "rest = []")
    case True
    then show ?thesis using find_first_of_miss [OF V, of ?q] body by simp
  next
    case False
    then obtain t where t: "rest = CHR ''&'' # t" using assms(5) by blast
    then show ?thesis unfolding body using find_first_of_hit [OF V, of "CHR ''&''" ?q t] by simp
  qed
  have s2: "substr body (length ?q) (to_size (int (if rest = [] then npos else length ?q + length V) - int (length ?q))) = Ret V"
  proof (cases "rest = []")
    case True
    have "length V \<le> to_size (int npos - int (length ?q))" using assms(4) body True by (simp add: to_size_def npos_def)
    then show ?thesis using body True by (simp add: substr_def)
  next
    case False
    then show ?thesis using body assms(4) by (simp add: substr_def to_size_def npos_def)
  qed
  have nn: "length ?q + length V \<noteq> npos" using body assms(4) by simp
  have ql: "length ?q = length pre + length N + 1" by simp
  have dec: "percent_decode N = n" "percent_decode V = v" by (simp_all add: N_def V_def)
  have ne: "CHR ''='' \<noteq> CHR ''&''" "pre @ N @ CHR ''='' # V = ?q @ V" by simp_all
  show ?thesis
    unfolding form_loop.simps [of req body "length pre"] Let_def p1 b1(1) ne(2) length_append [of ?q V]
    using b1(2) nn s1 dec p2 s2 unfolding ql by (cases "rest = []") simp_all
qed

lemma add_param_pairs: "add_param n v req = req\<lparr>params := params req @ pairs [(n, v)]\<rparr>"
  by (simp add: add_param_def name_value_def)

lemma form_loop_text:
  "body = pre @ form_text ps \<Longrightarrow> length body < npos \<Longrightarrow> ps \<noteq> [] \<Longrightarrow>
   form_loop req body (length pre) = Ret (req\<lparr>params := params req @ pairs ps\<rparr>)"
proof (induction ps arbitrary: pre req rule: form_text.induct)
  case (2 n v)
  then show ?case using form_loop_pair [of body pre n v "[]" req] by (simp add: add_param_pairs)
next
  case (3 n v p ps)
  let ?pre = "pre @ percent_encode n @ CHR ''='' # percent_encode v @ ''&''"
  have "form_loop req body (length pre) = form_loop (add_param n v req) body (length ?pre)"
    using form_loop_pair [of body pre n v "CHR ''&'' # form_text (p # ps)" req] 3(2,3) by simp
  also have "\<dots> = Ret ((add_param n v req)\<lparr>params := params (add_param n v req) @ pairs (p # ps)\<rparr>)"
    by (rule 3(1)) (use 3(2,3) in simp_all)
  finally show ?case by (simp add: add_param_pairs)
qed simp

definition form_type :: "string \<Rightarrow> bool" where
  "form_type t \<longleftrightarrow> t = [] \<or> strings_are_equal_n t ''application/x-www-form-urlencoded'' 33"

section \<open>Cookie headers\<close>

fun cookie_text :: "(string \<times> string) list \<Rightarrow> string" where
  "cookie_text [] = []"
| "cookie_text [(n, v)] = n @ ''='' @ v"
| "cookie_text ((n, v) # cs) = n @ ''='' @ v @ ''; '' @ cookie_text cs"

definition cookies_ok :: "(string \<times> string) list \<Rightarrow> bool" where
  "cookies_ok cs \<longleftrightarrow> (\<forall>(n, v) \<in> set cs. n \<noteq> [] \<and> \<not> c_isspace (hd n) \<and> CHR ''='' \<notin> set n \<and> CHR '';'' \<notin> set n \<and> CHR '';'' \<notin> set v)"

lemma parse_cookie_pair:
  assumes "\<forall>c \<in> set sp. c_isspace c" "n \<noteq> []" "\<not> c_isspace (hd n)" "CHR ''='' \<notin> set n" "length (sp @ n @ ''='' @ v) < npos"
  shows "parse_cookie req (sp @ n @ ''='' @ v) = Ret (req\<lparr>cookies := cookies req @ pairs [(n, v)]\<rparr>)"
proof -
  obtain c t where n: "n = c # t" using assms(2) by (cases n) auto
  have sp: "takeWhile c_isspace (sp @ n @ ''='' @ v) = sp" using assms(1,3) n by (subst takeWhile_append2) auto
  have "\<not> c_isspace (CHR ''='')" by (simp add: c_isspace_def)
  then have "CHR ''='' \<notin> set sp" using assms(1) by blast
  then have p: "str_find (sp @ n @ ''='' @ v) ''='' 0 = length sp + length n"
    using str_find_char_hit [of "CHR ''=''" "sp @ n" "[]" v] assms(4) by simp
  have s: "to_size (int (length sp + length n) - int (length sp)) = length n" using assms(5) by (simp add: to_size_def npos_def)
  have v: "take npos v = v" using assms(5) by simp
  show ?thesis using assms(5) unfolding parse_cookie_def Let_def p sp s by (simp add: substr_def v name_value_def)
qed

lemma cookies_loop_text:
  "data = pre @ sp @ cookie_text cs \<Longrightarrow> length data < npos \<Longrightarrow> cs \<noteq> [] \<Longrightarrow> cookies_ok cs \<Longrightarrow> \<forall>c \<in> set sp. c = CHR '' '' \<Longrightarrow>
   cookies_loop req data (length pre) = Ret (req\<lparr>cookies := cookies req @ pairs cs\<rparr>)"
proof (induction cs arbitrary: pre sp req rule: cookie_text.induct)
  case (2 n v)
  have ok: "n \<noteq> []" "\<not> c_isspace (hd n)" "CHR ''='' \<notin> set n" "CHR '';'' \<notin> set (sp @ n @ ''='' @ v)"
    "\<forall>c \<in> set sp. c_isspace c" using 2(4,5) by (auto simp: cookies_ok_def c_isspace_def)
  have f: "str_find data '';'' (length pre) = npos" using str_find_char_miss [OF ok(4), of pre] 2(1) by simp
  have s: "substr data (length pre) npos = Ret (sp @ n @ ''='' @ v)" using 2(1,2) by (simp add: substr_def)
  show ?case using f s parse_cookie_pair [OF ok(5,1-3), of v req] 2(1,2) by (subst cookies_loop.simps) (simp add: Let_def)
next
  case (3 n v c cs)
  have ok: "n \<noteq> []" "\<not> c_isspace (hd n)" "CHR ''='' \<notin> set n" "CHR '';'' \<notin> set (sp @ n @ ''='' @ v)"
    "\<forall>c \<in> set sp. c_isspace c" using 3(5,6) by (auto simp: cookies_ok_def c_isspace_def)
  let ?d = "sp @ n @ ''='' @ v"
  have data: "data = pre @ ?d @ CHR '';'' # CHR '' '' # cookie_text (c # cs)" using 3(2) by simp
  have f: "str_find data '';'' (length pre) = length pre + length ?d" unfolding data by (rule str_find_char_hit [OF ok(4)])
  have s: "substr data (length pre) (length ?d) = Ret ?d" using data by (simp add: substr_def)
  have l: "length ?d < npos" "length pre + length ?d \<noteq> npos" using 3(3) data by auto
  have "cookies_loop req data (length pre) = cookies_loop (req\<lparr>cookies := cookies req @ pairs [(n, v)]\<rparr>) data (length (pre @ ?d @ '';''))"
    using f s l parse_cookie_pair [OF ok(5,1-3) l(1), of req]
    by (subst cookies_loop.simps) (simp add: Let_def del: append.simps append_assoc)
  also have "\<dots> = Ret (req\<lparr>cookies := cookies req @ pairs ((n, v) # c # cs)\<rparr>)"
    using 3(1) [of "pre @ ?d @ '';''" "'' ''" "req\<lparr>cookies := cookies req @ pairs [(n, v)]\<rparr>"] 3(3,5) data by (simp add: cookies_ok_def)
  finally show ?case .
qed simp

section \<open>Path segments\<close>

definition path_text :: "string list \<Rightarrow> string" where
  "path_text segs = concat (map (\<lambda>s. CHR ''/'' # percent_encode s) segs)"

lemma percent_decode_slash: "percent_decode (CHR ''/'' # s) = CHR ''/'' # percent_decode s"
  by simp

lemma decode_path: "percent_decode (path_text segs) = concat (map (\<lambda>s. CHR ''/'' # s) segs)"
  by (induction segs) (simp_all add: path_text_def percent_decode_encode)

lemma split_segments:
  assumes "\<forall>s \<in> set segs. c \<notin> set s" "segs \<noteq> []" "last segs \<noteq> []"
  shows "split (concat (map (\<lambda>s. c # s) segs)) c = [] # segs"
proof -
  have "split (s @ concat (map (\<lambda>s. c # s) us)) c = s # us" if "c \<notin> set s" "\<forall>u \<in> set us. c \<notin> set u" "last (s # us) \<noteq> []" for s us
    using that
  proof (induction us arbitrary: s)
    case Nil
    then have "takeWhile (\<lambda>x. x \<noteq> c) s = s" "dropWhile (\<lambda>x. x \<noteq> c) s = []" by (auto simp: takeWhile_eq_all_conv)
    then show ?case using Nil by (subst split.simps) (simp del: dropWhile_eq_Nil_conv takeWhile_eq_all_conv)
  next
    case (Cons u us)
    have t: "takeWhile (\<lambda>x. x \<noteq> c) (s @ c # u @ concat (map (\<lambda>s. c # s) us)) = s"
      "dropWhile (\<lambda>x. x \<noteq> c) (s @ c # u @ concat (map (\<lambda>s. c # s) us)) = c # u @ concat (map (\<lambda>s. c # s) us)"
      using Cons.prems(1) by (auto simp: takeWhile_append dropWhile_append)
    show ?case using Cons.IH [of u] Cons.prems by (subst split.simps) (simp add: t)
  qed
  from this [of "[]" segs] assms show ?thesis by simp
qed

lemma parse_params_path:
  assumes "rq_uri req = path_text segs" "rest_params req = []" "\<forall>s \<in> set segs. CHR ''/'' \<notin> set s" "segs \<noteq> []" "last segs \<noteq> []"
  shows "\<exists>req'. parse_params req = Ret req' \<and> rest_params req' = segs"
  using assms split_segments [OF assms(3-5)] by (simp add: parse_params_def decode_path Let_def)

lemma percent_decode_Nil: "percent_decode s = [] \<longleftrightarrow> s = []"
  by (cases s) (auto split: list.splits)

section \<open>Every content is handled or rejected\<close>

lemma form_loop_total: "\<exists>req'. form_loop req body old_pos = Ret req'"
proof (induction req body old_pos rule: form_loop.induct)
  case (1 req body old_pos)
  define pos where "pos = find_first_of body ''&='' old_pos"
  show ?case
  proof (cases "pos = npos")
    case True
    then show ?thesis by (subst form_loop.simps) (simp add: pos_def)
  next
    case False
    note b = find_first_of_bound [OF False [unfolded pos_def], folded pos_def]
    show ?thesis
    proof (cases "body ! pos = CHR ''&''")
      case True
      let ?old = "old_pos + length (takeWhile (\<lambda>c. c = CHR ''&'') (drop old_pos body))"
      show ?thesis
      proof (cases "pos \<le> ?old")
        case le: True
        then show ?thesis using 1(1) [OF pos_def False True refl le] False True by (subst form_loop.simps) (simp add: pos_def [symmetric] Let_def)
      next
        case gt: False
        then have s: "substr body ?old (pos - ?old) = Ret (take (pos - ?old) (drop ?old body))" using b by (simp add: substr_def)
        show ?thesis using 1(2) [OF pos_def False True refl gt s] False True gt s by (subst form_loop.simps) (simp add: pos_def [symmetric] Let_def)
      qed
    next
      case eq: False
      define p2 where "p2 = find_first_of body '';&'' (Suc pos)"
      have p2: "p2 = find_first_of body '';&'' (pos + 1)" by (simp add: p2_def)
      have s: "substr body old_pos (pos - old_pos) = Ret (take (pos - old_pos) (drop old_pos body))" using b by (simp add: substr_def)
      let ?n = "to_size (int p2 - int (pos + 1))"
      have s2: "substr body (pos + 1) ?n = Ret (take ?n (drop (pos + 1) body))" using b by (simp add: substr_def)
      show ?thesis
      proof (cases "p2 = npos")
        case True
        then show ?thesis using False eq s s2 by (subst form_loop.simps) (simp add: pos_def [symmetric] p2_def [symmetric] Let_def)
      next
        case n2: False
        show ?thesis using 1(3) [OF pos_def False eq s refl p2 s2 refl n2] False eq s s2 n2
          by (subst form_loop.simps) (simp add: pos_def [symmetric] p2_def [symmetric] Let_def)
      qed
    qed
  qed
qed

lemma parse_multipart_content_outcome:
  "(\<exists>req'. parse_multipart_content req d = Ret req') \<or> parse_multipart_content req d = Throw (RuntimeError ''invalid part header'')"
proof (cases "str_find d (nl @ nl) 0 = npos")
  case False
  have b: "str_find d (nl @ nl) 0 + 4 \<le> length d" using str_find_bound [OF False] by simp
  obtain h where "parse_multipart_header (take (str_find d (nl @ nl) 0 + 4) d) = Ret h"
    using extract_between_total by (auto simp: parse_multipart_header_def) (metis xbind.simps(1))
  then show ?thesis using False b by (simp add: parse_multipart_content_def Let_def substr_def)
qed (simp add: parse_multipart_content_def)

lemma parts_loop_outcome:
  "0 < length sep \<Longrightarrow> length body - old_pos < fuel \<Longrightarrow>
   (\<exists>req' p. parts_loop fuel req body sep old_pos = Ret (req', p)) \<or>
   parts_loop fuel req body sep old_pos = Throw (RuntimeError ''invalid part header'')"
proof (induction fuel arbitrary: req old_pos)
  case (Suc fuel)
  define pos where "pos = str_find body sep old_pos"
  show ?case
  proof (cases "pos = npos")
    case False
    note b = str_find_bound [OF False [unfolded pos_def], folded pos_def]
    have s: "substr body old_pos (pos - old_pos) = Ret (take (pos - old_pos) (drop old_pos body))" using b by (simp add: substr_def)
    have f: "length body - (pos + length sep) < fuel" using b Suc.prems by linarith
    let ?d = "take (pos - old_pos) (drop old_pos body)"
    have step: "parts_loop (Suc fuel) req body sep old_pos =
        xbind (parse_multipart_content req ?d) (\<lambda>req. parts_loop fuel req body sep (pos + length sep))"
      using False s by (simp add: pos_def [symmetric] Let_def)
    from parse_multipart_content_outcome [of req ?d] show ?thesis
    proof
      assume "\<exists>req'. parse_multipart_content req ?d = Ret req'"
      then obtain req' where r: "parse_multipart_content req ?d = Ret req'" by blast
      show ?thesis unfolding step r xbind.simps by (rule Suc.IH [OF Suc.prems(1) f])
    qed (simp only: step xbind.simps, simp)
  qed (simp add: pos_def [symmetric])
qed simp

lemma to_size_le: "0 \<le> x \<Longrightarrow> to_size x \<le> nat x"
  by (simp add: to_size_def nat_mono zmod_le_nonneg_dividend)

lemma separator_total:
  assumes "19 \<le> length t"
  shows "\<exists>u. separator t (str_find t ''boundary='' 0) w = Ret (''--'' @ u @ w)"
proof -
  have p: "to_size (int (str_find t ''boundary='' 0) + 9) \<le> length t"
  proof (cases "str_find t ''boundary='' 0 = npos")
    case True
    then show ?thesis using assms by (simp add: npos_def to_size_def)
  next
    case False
    then have "str_find t ''boundary='' 0 + 9 \<le> length t" using str_find_bound [OF False] by simp
    then show ?thesis using to_size_le [of "int (str_find t ''boundary='' 0) + 9"] by simp
  qed
  show ?thesis using p by (simp add: separator_def substr_def)
qed

lemma parse_content_outcome:
  "(\<exists>req'. parse_content_fn req = Ret req') \<or> parse_content_fn req = Throw (RuntimeError ''invalid part header'')"
proof -
  obtain t r where h: "header ''Content-Type'' req = (t, r)" by (cases "header ''Content-Type'' req")
  show ?thesis
  proof (cases "rq_content req = [] \<or> t = [] \<or> strings_are_equal_n t ''application/x-www-form-urlencoded'' 33 \<or>
      \<not> strings_are_equal_n ''multipart/form-data'' t 19")
    case True
    then show ?thesis using form_loop_total [of r "rq_content r" 0] h by (auto simp: parse_content_fn_def)
  next
    case False
    have "19 \<le> length t" using False by (simp add: strings_are_equal_n_iff)
    from separator_total [OF this] obtain u w where
      u: "separator t (str_find t ''boundary='' 0) nl = Ret (''--'' @ u @ nl)"
      "separator t (str_find t ''boundary='' 0) (''--'' @ nl) = Ret (''--'' @ w @ ''--'' @ nl)" by meson
    let ?sep = "''--'' @ u @ nl" and ?sep2 = "''--'' @ w @ ''--'' @ nl"
    let ?old = "to_size (int (str_find (rq_content r) ?sep 0) + int (length ?sep))"
    have step: "parse_content_fn req = xbind (parts_loop (Suc (length (rq_content r))) r (rq_content r) ?sep ?old) (\<lambda>(req, old_pos).
        if str_find (rq_content req) ?sep2 old_pos \<noteq> npos
        then xbind (substr (rq_content req) old_pos (str_find (rq_content req) ?sep2 old_pos - old_pos)) (\<lambda>d. parse_multipart_content req d)
        else Ret req)"
    proof -
      have c: "(rq_content req = []) = False" "(t = [] \<or> strings_are_equal_n t ''application/x-www-form-urlencoded'' 33) = False"
        "strings_are_equal_n ''multipart/form-data'' t 19 = True" using False by auto
      show ?thesis unfolding parse_content_fn_def h prod.case c if_True if_False Let_def u xbind.simps ..
    qed
    have fuel: "length (rq_content r) - ?old < Suc (length (rq_content r))" by simp
    consider req' p where "parts_loop (Suc (length (rq_content r))) r (rq_content r) ?sep ?old = Ret (req', p)"
      | "parts_loop (Suc (length (rq_content r))) r (rq_content r) ?sep ?old = Throw (RuntimeError ''invalid part header'')"
      using parts_loop_outcome [OF _ fuel, of ?sep r] by auto
    then show ?thesis
    proof cases
      case 1
      show ?thesis
      proof (cases "str_find (rq_content req') ?sep2 p = npos")
        case True
        then show ?thesis unfolding step 1 by simp
      next
        case False
        then have "p \<le> length (rq_content req')" using str_find_bound [OF False] by simp
        then show ?thesis unfolding step 1 using False
            parse_multipart_content_outcome [of req' "take (str_find (rq_content req') ?sep2 p - p) (drop p (rq_content req'))"]
          by (simp add: substr_def)
      qed
    next
      case 2
      show ?thesis unfolding step 2 by simp
    qed
  qed
qed

section \<open>Properties\<close>

text \<open>
  C38. Round trip of form data: a body of percent-encoded names and values joined by equals signs
  and ampersands, sent with no content type or as url-encoded form, adds exactly those names and
  values, whatever bytes they hold, in order, to the parameters of the request.
\<close>
theorem form_roundtrip:
  assumes "rq_content req = form_text ps" "ps \<noteq> []" "length (form_text ps) < npos"
    "form_type (value_of ''Content-Type'' (headers req))"
  shows "\<exists>req'. parse_content_fn req = Ret req' \<and> params req' = params req @ pairs ps"
proof -
  have ne: "form_text ps \<noteq> []" using assms(2) by (cases ps rule: form_text.cases) auto
  define r where "r = snd (header ''Content-Type'' req)"
  have r: "rq_content r = form_text ps" "params r = params req" using assms(1) by (simp_all add: r_def)
  have h: "header ''Content-Type'' req = (value_of ''Content-Type'' (headers req), r)" unfolding r_def by (simp add: prod_eq_iff)
  have "parse_content_fn req = form_loop r (form_text ps) 0"
    using assms(1,4) ne r(1) by (simp add: parse_content_fn_def h form_type_def)
  then show ?thesis using form_loop_text [of "form_text ps" "[]" ps r] assms(2,3) r(2) by simp
qed

theorem form_roundtrip_witness:
  "\<exists>req'. parse_content_fn (new_request\<lparr>rq_content := ''a=%26%3D&=x%20y''\<rparr>) = Ret req' \<and>
     params req' = [\<lparr>nv_name = ''a'', nv_value = ''&=''\<rparr>, \<lparr>nv_name = '''', nv_value = ''x y''\<rparr>]"
proof -
  have e: "percent_encode ''a'' = ''a''" "percent_encode ''&='' = ''%26%3D''" "percent_encode '''' = ''''" "percent_encode ''x y'' = ''x%20y''"
    by (simp_all add: percent_encode_def unreserved_def c_isalnum_def c_isalpha_def c_isdigit_def char2hex_def schar_def to_char_def char_of_def bit_0 Let_def)
  have t: "form_text [(''a'', ''&=''), ('''', ''x y'')] = ''a=%26%3D&=x%20y''" by (simp add: e)
  show ?thesis
    using form_roundtrip [of "new_request\<lparr>rq_content := ''a=%26%3D&=x%20y''\<rparr>" "[(''a'', ''&=''), ('''', ''x y'')]"]
    unfolding t by (simp add: new_request_def value_of_def form_type_def npos_def)
qed

text \<open>
  The cookies of a request are the pairs of its Cookie header, in order: names without
  equals sign and semicolon that do not start with white space, values without semicolon, joined
  by semicolon and space.
\<close>
theorem cookies_roundtrip:
  assumes "value_of ''Cookie'' (headers req) = cookie_text cs" "cs \<noteq> []" "cookies_ok cs" "length (cookie_text cs) < npos"
  shows "\<exists>req'. parse_cookies req = Ret req' \<and> cookies req' = cookies req @ pairs cs"
proof -
  have ne: "cookie_text cs \<noteq> []" using assms(2) by (cases cs rule: cookie_text.cases) auto
  define r where "r = snd (header ''Cookie'' req)"
  have h: "header ''Cookie'' req = (cookie_text cs, r)" "cookies r = cookies req"
    unfolding r_def using assms(1) by (simp_all add: prod_eq_iff)
  show ?thesis using cookies_loop_text [of "cookie_text cs" "[]" "[]" cs r] assms ne h by (simp add: parse_cookies_def)
qed

theorem cookies_roundtrip_witness:
  "\<exists>req'. parse_cookies (new_request\<lparr>headers := [name_value ''Cookie'' ''a=1; b=''], cookies := []\<rparr>) = Ret req' \<and>
     cookies req' = [\<lparr>nv_name = ''a'', nv_value = ''1''\<rparr>, \<lparr>nv_name = ''b'', nv_value = ''''\<rparr>]"
proof -
  have "cookies_ok [(''a'', ''1''), (''b'', '''')]" by (simp add: cookies_ok_def c_isspace_def)
  then show ?thesis
    using cookies_roundtrip [of "new_request\<lparr>headers := [name_value ''Cookie'' ''a=1; b=''], cookies := []\<rparr>" "[(''a'', ''1''), (''b'', '''')]"]
    by (simp add: value_of_def npos_def)
qed


text \<open>
  A request line with an empty target (two spaces after the method) is accepted by the
  parser, and splitting its path then erases the first element of an empty vector.
\<close>
theorem empty_target_undefined:
  assumes "head_ok ''GET'' [] [] a b hs"
  shows "\<exists>st req. parse method_start new_request (head_text ''GET'' [] [] a b hs @ tail) = Ret (st, req, Yes, tail) \<and>
    parse_params req = Undefined"
proof -
  let ?req = "head_request ''GET'' [] [] a b hs"
  have sel: "rq_method ?req = ''GET''" "rq_uri ?req = []" "rest_params ?req = []"
    by (simp_all add: head_request_def new_request_def target_text_def)
  have "parse method_start new_request (head_text ''GET'' [] [] a b hs @ tail) = Ret (expecting_newline_3, ?req, Yes, tail)"
    using parse_head [OF assms, of tail] sel by (simp add: eval_step)
  moreover have "parse_params ?req = Undefined" using sel by (simp add: parse_params_def split.simps)
  ultimately show ?thesis by blast
qed

theorem empty_target_undefined_witness:
  "\<exists>st req. parse method_start new_request (''GET  HTTP/1.1'' @ nl @ nl) = Ret (st, req, Yes, []) \<and> parse_params req = Undefined"
proof -
  have "\<forall>c \<in> set ''GET''. c_isalnum c" by (simp add: c_isalnum_def c_isalpha_def)
  then have h: "head_ok ''GET'' [] [] 1 1 []" using token_alnum by (simp add: head_ok_def query_ok_def headers_ok_def)
  have t: "head_text ''GET'' [] [] 1 1 [] @ [] = ''GET  HTTP/1.1'' @ nl @ nl"
    by (simp add: head_text_def target_text_def version_text_def header_text_def dec_eval)
  show ?thesis using empty_target_undefined [OF h, of "[]", unfolded t] .
qed

end
