(* ===== verification/Connection.thy ===== *)
theory Connection
  imports Service Request_Content
begin

text \<open>
  A client connection, \<^verbatim>\<open>src/src/connection.cpp\<close> and \<^verbatim>\<open>connection_ssl.cpp\<close>: the handlers of the
  asynchronous operations on the socket. At most one operation is outstanding; a handler starts
  the next one, or none, and then the connection ends. The page functions, the file system, the
  compressor and the address of the peer are parameters. An exception that leaves a handler
  leaves \<^verbatim>\<open>io_service::run\<close> in a thread and ends the process.
\<close>

section \<open>Handlers\<close>

record service =
  sv_fs :: "string \<Rightarrow> string option"
  sv_gzip :: "string \<Rightarrow> string"
  sv_run :: "page_func \<Rightarrow> config \<Rightarrow> request \<Rightarrow> response \<Rightarrow> (config \<times> request \<times> response) cpp"
  sv_remote :: "(string \<times> nat) cpp"

datatype pending = Handshake_pending | Read_pending | Write_pending | Nothing_pending

text \<open>\<open>sent\<close> are the byte strings given to \<^verbatim>\<open>async_write\<close>, in order.\<close>

record connection =
  conn_parser :: state
  conn_request :: request
  conn_response :: response
  pending :: pending
  sent :: "string list"

text \<open>\<open>g\<close> is the byte that happens to be in \<^verbatim>\<open>connection_option\<close>: no constructor writes it.\<close>

definition new_connection :: "char \<Rightarrow> connection" where
  "new_connection g = \<lparr>conn_parser = method_start, conn_request = new_request\<lparr>connection_option := g\<rparr>, conn_response = new_response,
     pending = Nothing_pending, sent = []\<rparr>"

definition do_read :: "connection \<Rightarrow> connection" where
  "do_read c = c\<lparr>pending := Read_pending\<rparr>"

definition do_write :: "connection \<Rightarrow> connection" where
  "do_write c = c\<lparr>pending := Write_pending, sent := sent c @ [concat (to_buffers (conn_response c))]\<rparr>"

definition start_conn :: "connection \<Rightarrow> connection" where
  "start_conn c = do_read c"

text \<open>What the handler does with a complete request.\<close>

definition answer :: "service \<Rightarrow> config \<Rightarrow> request \<Rightarrow> response \<Rightarrow> (config \<times> request \<times> response) cpp" where
  "answer sv cfg req res =
     xbind (sv_remote sv) (\<lambda>(addr, port).
     let req = parse_connection_header (req\<lparr>remote_addr := addr, remote_port := port\<rparr>) in
     xbind (parse_params req) (\<lambda>req.
     xbind (parse_cookies req) (\<lambda>req.
     xbind (parse_content_fn req) (\<lambda>req.
     handle_request (sv_fs sv) (sv_gzip sv) (sv_run sv) cfg req res))))"

text \<open>The handler of a read; what the parser left of the chunk is ignored.\<close>

definition on_read :: "(service \<Rightarrow> config \<Rightarrow> request \<Rightarrow> response \<Rightarrow> (config \<times> request \<times> response) cpp) \<Rightarrow> service \<Rightarrow>
    config \<Rightarrow> connection \<Rightarrow> bool \<Rightarrow> string \<Rightarrow> (config \<times> connection) cpp" where
  "on_read ans sv cfg c e chunk =
     (if e then Ret (cfg, c\<lparr>pending := Nothing_pending\<rparr>)
      else
        xbind (parse (conn_parser c) (conn_request c) chunk) (\<lambda>(st, req, result, _).
        case result of
          Yes \<Rightarrow> xbind (ans sv cfg req (conn_response c)) (\<lambda>(cfg, req, res).
                   Ret (cfg, do_write (c\<lparr>conn_parser := st, conn_request := req, conn_response := res\<rparr>)))
        | No \<Rightarrow> Ret (cfg, do_write (c\<lparr>conn_parser := st, conn_request := req, conn_response := static_response st_bad_request\<rparr>))
        | Indeterminate \<Rightarrow> Ret (cfg, do_read (c\<lparr>conn_parser := st, conn_request := req\<rparr>))))"

definition restart_conn :: "connection \<Rightarrow> connection" where
  "restart_conn c = do_read (c\<lparr>conn_parser := reset (conn_parser c), conn_request := new_request, conn_response := new_response\<rparr>)"

definition on_write :: "connection \<Rightarrow> bool \<Rightarrow> connection" where
  "on_write c e =
     (if e then c\<lparr>pending := Nothing_pending\<rparr>
      else if connection_option (conn_request c) = CHR ''c'' then c\<lparr>pending := Nothing_pending\<rparr>
      else restart_conn c)"

text \<open>The encrypted connection starts with a handshake, does not look at the connection header and never closes.\<close>

definition start_ssl :: "connection \<Rightarrow> connection" where
  "start_ssl c = c\<lparr>pending := Handshake_pending\<rparr>"

definition on_handshake :: "connection \<Rightarrow> bool \<Rightarrow> connection" where
  "on_handshake c e = (if e then c\<lparr>pending := Nothing_pending\<rparr> else do_read c)"

definition answer_ssl :: "service \<Rightarrow> config \<Rightarrow> request \<Rightarrow> response \<Rightarrow> (config \<times> request \<times> response) cpp" where
  "answer_ssl sv cfg req res =
     xbind (sv_remote sv) (\<lambda>(addr, port).
     xbind (parse_params (req\<lparr>remote_addr := addr, remote_port := port\<rparr>)) (\<lambda>req.
     xbind (parse_cookies req) (\<lambda>req.
     xbind (parse_content_fn req) (\<lambda>req.
     handle_request (sv_fs sv) (sv_gzip sv) (sv_run sv) cfg req res))))"

definition on_write_ssl :: "connection \<Rightarrow> bool \<Rightarrow> connection" where
  "on_write_ssl c e = (if e then c\<lparr>pending := Nothing_pending\<rparr> else restart_conn c)"

section \<open>Events\<close>

text \<open>
  The completion of the outstanding operation, with its error flag; a read brings at most as
  many bytes as the buffer holds.
\<close>

datatype event = Handshaken bool | Received bool string | Written bool

datatype world = Alive config connection | Terminated | Lost

fun outcome :: "(config \<times> connection) cpp \<Rightarrow> world" where
  "outcome (Ret (cfg, c)) = Alive cfg c"
| "outcome (Throw e) = Terminated"
| "outcome Undefined = Lost"

inductive conn_step :: "service \<Rightarrow> world \<Rightarrow> event \<Rightarrow> world \<Rightarrow> bool" for sv where
  received: "pending c = Read_pending \<Longrightarrow> length chunk \<le> 8192 \<Longrightarrow>
     conn_step sv (Alive cfg c) (Received e chunk) (outcome (on_read answer sv cfg c e chunk))"
| written: "pending c = Write_pending \<Longrightarrow> conn_step sv (Alive cfg c) (Written e) (Alive cfg (on_write c e))"

inductive ssl_step :: "service \<Rightarrow> world \<Rightarrow> event \<Rightarrow> world \<Rightarrow> bool" for sv where
  handshaken_ssl: "pending c = Handshake_pending \<Longrightarrow> ssl_step sv (Alive cfg c) (Handshaken e) (Alive cfg (on_handshake c e))"
| received_ssl: "pending c = Read_pending \<Longrightarrow> length chunk \<le> 8192 \<Longrightarrow>
     ssl_step sv (Alive cfg c) (Received e chunk) (outcome (on_read answer_ssl sv cfg c e chunk))"
| written_ssl: "pending c = Write_pending \<Longrightarrow> ssl_step sv (Alive cfg c) (Written e) (Alive cfg (on_write_ssl c e))"

inductive runs :: "(world \<Rightarrow> event \<Rightarrow> world \<Rightarrow> bool) \<Rightarrow> world \<Rightarrow> event list \<Rightarrow> world \<Rightarrow> bool" for st where
  runs_none: "runs st w [] w"
| runs_more: "st w e w' \<Longrightarrow> runs st w' es w'' \<Longrightarrow> runs st w (e # es) w''"

inductive_cases step_cases: "conn_step sv (Alive cfg c) e w"
inductive_cases step_dead [elim!]: "conn_step sv Terminated e w" "conn_step sv Lost e w"
inductive_cases step_ssl_cases: "ssl_step sv (Alive cfg c) e w"
inductive_cases step_ssl_dead [elim!]: "ssl_step sv Terminated e w" "ssl_step sv Lost e w"
inductive_simps runs_Nil [simp]: "runs st w [] w'"
inductive_simps runs_Cons: "runs st w (e # es) w'"

lemma runs_append: "runs st w (es @ fs) w' \<longleftrightarrow> (\<exists>w1. runs st w es w1 \<and> runs st w1 fs w')"
  by (induction es arbitrary: w) (auto simp: runs_Cons)

section \<open>The byte nobody initialises\<close>

lemma char_step_option:
  "char_step st (req\<lparr>connection_option := g\<rparr>) c =
   xbind (char_step st req c) (\<lambda>(st, req, r). Ret (st, req\<lparr>connection_option := g\<rparr>, r))"
  by (cases st) (simp_all add: char_step_def dispatch_def once_def step_defs upd_back_def header_def lookup_nv_def take_content_def set_content_length_def Let_def split: option.splits)

lemma parse_option:
  "parser_inv st req \<Longrightarrow> parse st (req\<lparr>connection_option := g\<rparr>) s =
   xbind (parse st req s) (\<lambda>(st, req, r, rest). Ret (st, req\<lparr>connection_option := g\<rparr>, r, rest))"
proof (induction s arbitrary: st req)
  case (Cons c s)
  obtain st1 req1 r1 where c: "char_step st req c = Ret (st1, req1, r1)" "parser_inv st1 req1"
    using char_step_ok [OF Cons.prems] by blast
  have "st \<noteq> param_value_start" using Cons.prems by (simp add: parser_inv_def)
  then show ?case using Cons.IH [OF c(2)] c(1) by (simp add: parse_char next_char_def char_step_option)
qed simp

lemma parser_inv_option [simp]: "parser_inv st (req\<lparr>connection_option := g\<rparr>) = parser_inv st req"
  by (simp add: parser_inv_def)

lemma parse_chunks_option:
  assumes "parser_inv st req"
  shows "parse_chunks st (req\<lparr>connection_option := g\<rparr>) chs =
   xbind (parse_chunks st req chs) (\<lambda>(st, req, r, rest). Ret (st, req\<lparr>connection_option := g\<rparr>, r, rest))"
  using assms by (simp add: parse_chunks_concat parse_option)

lemma answer_option: "answer sv cfg (req\<lparr>connection_option := g\<rparr>) res = answer sv cfg req res"
proof -
  have "parse_connection_header (req\<lparr>connection_option := g, remote_addr := a, remote_port := p\<rparr>) =
      parse_connection_header (req\<lparr>remote_addr := a, remote_port := p\<rparr>)" for a p
    by (simp add: parse_connection_header_def header_def Let_def)
  then show ?thesis by (simp add: answer_def Let_def)
qed

section \<open>One request\<close>

record message =
  msg_method :: string
  msg_path :: string
  msg_query :: "(string \<times> string) list"
  msg_major :: nat
  msg_minor :: nat
  msg_headers :: "(string \<times> string) list"
  msg_body :: string

definition message_ok :: "message \<Rightarrow> bool" where
  "message_ok m \<longleftrightarrow> head_ok (msg_method m) (msg_path m) (msg_query m) (msg_major m) (msg_minor m) (msg_headers m) \<and>
     (msg_method m = ''GET'' \<and> msg_body m = [] \<or> msg_method m = ''POST'' \<and> body_ok (msg_body m) (msg_headers m))"

definition message_text :: "message \<Rightarrow> string" where
  "message_text m = head_text (msg_method m) (msg_path m) (msg_query m) (msg_major m) (msg_minor m) (msg_headers m) @ msg_body m"

definition message_request :: "message \<Rightarrow> request" where
  "message_request m = (head_request (msg_method m) (msg_path m) (msg_query m) (msg_major m) (msg_minor m) (msg_headers m))\<lparr>
     rq_content := msg_body m, content_length := int (length (msg_body m))\<rparr>"

text \<open>A message in the chunks the socket delivers.\<close>

definition delivered :: "message \<Rightarrow> string list \<Rightarrow> bool" where
  "delivered m chs \<longleftrightarrow> message_ok m \<and> concat chs = message_text m \<and> chs \<noteq> [] \<and> last chs \<noteq> [] \<and> (\<forall>ch \<in> set chs. length ch \<le> 8192)"

lemma parse_delivered:
  assumes "delivered m chs"
  shows "\<exists>st. parse_chunks method_start (new_request\<lparr>connection_option := g\<rparr>) chs =
    Ret (st, (message_request m)\<lparr>connection_option := g\<rparr>, Yes, [])"
  using assms parse_request [of "msg_method m" "msg_path m" "msg_query m" "msg_major m" "msg_minor m" "msg_headers m" "msg_body m" chs "[]"]
  by (auto simp: delivered_def message_ok_def message_text_def message_request_def parse_chunks_option [OF parser_inv_start])

text \<open>The reads of a request that is complete with its last chunk.\<close>

lemma runs_reads:
  assumes "parse_chunks (conn_parser c) (conn_request c) chs = Ret (st', req', Yes, [])" "parser_inv (conn_parser c) (conn_request c)"
    "pending c = Read_pending" "chs \<noteq> []" "last chs \<noteq> []" "\<forall>ch \<in> set chs. length ch \<le> 8192"
  shows "runs (conn_step sv) (Alive cfg c) (map (Received False) chs)
    (outcome (xbind (answer sv cfg req' (conn_response c)) (\<lambda>(cfg, req, res).
       Ret (cfg, do_write (c\<lparr>conn_parser := st', conn_request := req, conn_response := res\<rparr>)))))"
  using assms
proof (induction chs arbitrary: c)
  case (Cons ch chs)
  obtain st1 req1 r rest where p: "parse (conn_parser c) (conn_request c) ch = Ret (st1, req1, r, rest)" "parser_inv st1 req1"
    using parse_ok [OF Cons.prems(2)] by blast
  have st: "conn_step sv (Alive cfg c) (Received False ch) (outcome (on_read answer sv cfg c False ch))"
    using Cons.prems by (auto intro: conn_step.received)
  show ?case
  proof (cases "r = Indeterminate")
    case True
    define c' where "c' = do_read (c\<lparr>conn_parser := st1, conn_request := req1\<rparr>)"
    have c': "conn_parser c' = st1" "conn_request c' = req1" "pending c' = Read_pending" "conn_response c' = conn_response c"
      by (simp_all add: c'_def do_read_def)
    have w: "do_write (c'\<lparr>conn_parser := st', conn_request := rq, conn_response := rs\<rparr>) = do_write (c\<lparr>conn_parser := st', conn_request := rq, conn_response := rs\<rparr>)" for rq rs
      by (simp add: c'_def do_read_def do_write_def)
    have chs: "chs \<noteq> []" "parse_chunks st1 req1 chs = Ret (st', req', Yes, [])" using Cons.prems(1) p(1) True by auto
    have on: "on_read answer sv cfg c False ch = Ret (cfg, c')" using p(1) True by (simp add: on_read_def c'_def)
    have "last chs \<noteq> []" "\<forall>ch \<in> set chs. length ch \<le> 8192" using Cons.prems(5,6) chs by auto
    note ih = Cons.IH [of c', unfolded c' w, OF chs(2) p(2) refl chs(1) this]
    show ?thesis unfolding list.map using st [unfolded on outcome.simps] ih by (rule runs_more)
  next
    case False
    then have "chs = []" "st1 = st'" "req1 = req'" "r = Yes"
      using Cons.prems(1,5) p(1) last_in_set [of chs] by (auto split: if_splits)
    then have on: "on_read answer sv cfg c False ch = xbind (answer sv cfg req' (conn_response c)) (\<lambda>(cfg, req, res).
        Ret (cfg, do_write (c\<lparr>conn_parser := st', conn_request := req, conn_response := res\<rparr>)))"
      using p(1) by (simp add: on_read_def)
    show ?thesis unfolding \<open>chs = []\<close> list.map using st [unfolded on] by (rule runs_more) (rule runs_none)
  qed
qed simp

section \<open>A dialogue\<close>

text \<open>
  The specification: the requests are answered one after the other on the same configuration,
  until one asks for the connection to be final.
\<close>

inductive serves :: "service \<Rightarrow> config \<Rightarrow> message list \<Rightarrow> response list \<Rightarrow> config \<Rightarrow> bool \<Rightarrow> bool" for sv where
  serves_none: "serves sv cfg [] [] cfg False"
| serves_keep: "answer sv cfg (message_request m) new_response = Ret (cfg1, req, res) \<Longrightarrow> connection_option req \<noteq> CHR ''c'' \<Longrightarrow>
     serves sv cfg1 ms rs cfg2 final \<Longrightarrow> serves sv cfg (m # ms) (res # rs) cfg2 final"
| serves_close: "answer sv cfg (message_request m) new_response = Ret (cfg1, req, res) \<Longrightarrow> connection_option req = CHR ''c'' \<Longrightarrow>
     serves sv cfg [m] [res] cfg1 True"

definition idle :: "connection \<Rightarrow> bool" where
  "idle c \<longleftrightarrow> (\<exists>g. conn_parser c = method_start \<and> conn_request c = new_request\<lparr>connection_option := g\<rparr> \<and>
     conn_response c = new_response \<and> pending c = Read_pending)"

definition exchange :: "string list \<Rightarrow> event list" where
  "exchange chs = map (Received False) chs @ [Written False]"

lemma exchange_runs:
  assumes "delivered m chs" "idle c" "answer sv cfg (message_request m) new_response = Ret (cfg', req, res)"
  shows "\<exists>c'. runs (conn_step sv) (Alive cfg c) (exchange chs) (Alive cfg' c') \<and> sent c' = sent c @ [wire res] \<and>
    (if connection_option req = CHR ''c'' then pending c' = Nothing_pending else idle c')"
proof -
  obtain g where c: "conn_parser c = method_start" "conn_request c = new_request\<lparr>connection_option := g\<rparr>"
      "conn_response c = new_response" "pending c = Read_pending" using assms(2) by (auto simp: idle_def)
  obtain st where st: "parse_chunks method_start (new_request\<lparr>connection_option := g\<rparr>) chs =
      Ret (st, (message_request m)\<lparr>connection_option := g\<rparr>, Yes, [])" using parse_delivered [OF assms(1)] by blast
  define c1 where "c1 = do_write (c\<lparr>conn_parser := st, conn_request := req, conn_response := res\<rparr>)"
  have "runs (conn_step sv) (Alive cfg c) (map (Received False) chs) (Alive cfg' c1)"
    using runs_reads [of c chs st "(message_request m)\<lparr>connection_option := g\<rparr>" sv cfg] st c assms(1,3) parser_inv_start
    by (simp add: delivered_def answer_option c1_def)
  moreover have "conn_step sv (Alive cfg' c1) (Written False) (Alive cfg' (on_write c1 False))"
    by (rule conn_step.written) (simp add: c1_def do_write_def)
  ultimately have "runs (conn_step sv) (Alive cfg c) (exchange chs) (Alive cfg' (on_write c1 False))"
    unfolding exchange_def runs_append by (blast intro: runs_more runs_none)
  moreover have "sent (on_write c1 False) = sent c @ [wire res]"
    by (simp add: on_write_def restart_conn_def c1_def do_write_def do_read_def wire_def)
  moreover have "if connection_option req = CHR ''c'' then pending (on_write c1 False) = Nothing_pending else idle (on_write c1 False)"
    by (auto simp: on_write_def restart_conn_def c1_def do_write_def do_read_def idle_def reset_def new_request_def)
  ultimately show ?thesis by blast
qed

lemma dialogue_runs:
  assumes "serves sv cfg ms rs cfg' final" "list_all2 delivered ms chss" "idle c"
  shows "\<exists>c'. runs (conn_step sv) (Alive cfg c) (concat (map exchange chss)) (Alive cfg' c') \<and>
    sent c' = sent c @ map wire rs \<and> (if final then pending c' = Nothing_pending else idle c')"
  using assms
proof (induction arbitrary: chss c rule: serves.induct)
  case (serves_keep cfg m cfg1 req res ms rs cfg2 final)
  then obtain chs chss' where chss: "chss = chs # chss'" "delivered m chs" "list_all2 delivered ms chss'"
    by (auto simp: list_all2_Cons1)
  obtain c1 where c1: "runs (conn_step sv) (Alive cfg c) (exchange chs) (Alive cfg1 c1)" "sent c1 = sent c @ [wire res]" "idle c1"
    using exchange_runs [OF chss(2) serves_keep.prems(2) serves_keep.hyps(1)] serves_keep.hyps(2) by auto
  show ?case using serves_keep.IH [OF chss(3) c1(3)] c1(1,2) by (fastforce simp: chss(1) runs_append)
next
  case (serves_close cfg m cfg1 req res)
  then obtain chs where chs: "chss = [chs]" "delivered m chs" by (auto simp: list_all2_Cons1)
  show ?case using exchange_runs [OF chs(2) serves_close.prems(2) serves_close.hyps(1)] serves_close.hyps(2) by (auto simp: chs(1))
qed auto

section \<open>Whatever arrives\<close>

lemma parse_cookie_total: "\<exists>req'. parse_cookie req d = Ret req'"
  using str_find_bound [of d "''=''" 0] length_takeWhile_le [of c_isspace d]
  by (cases "str_find d ''='' 0 = npos") (simp_all add: parse_cookie_def substr_def Let_def)

lemma cookies_loop_total: "old_pos \<le> length data \<Longrightarrow> \<exists>req'. cookies_loop req data old_pos = Ret req'"
proof (induction req data old_pos rule: cookies_loop.induct)
  case (1 req data old_pos)
  define pos where "pos = str_find data '';'' old_pos"
  show ?case
  proof (cases "pos = npos")
    case True
    then show ?thesis using 1(2) parse_cookie_total [of req "take npos (drop old_pos data)"]
      by (subst cookies_loop.simps) (simp add: pos_def [symmetric] substr_def)
  next
    case False
    have b: "old_pos \<le> pos" "pos + 1 \<le> length data" using str_find_bound [OF False [unfolded pos_def]] by (simp_all add: pos_def)
    have s: "substr data old_pos (pos - old_pos) = Ret (take (pos - old_pos) (drop old_pos data))" using 1(2) by (simp add: substr_def)
    obtain req1 where r: "parse_cookie req (take (pos - old_pos) (drop old_pos data)) = Ret req1" using parse_cookie_total by blast
    show ?thesis using 1(1) [OF pos_def False s r b(2)] False s r
      by (subst cookies_loop.simps) (simp add: pos_def [symmetric])
  qed
qed

lemma parse_cookies_total: "\<exists>req'. parse_cookies req = Ret req'"
  using cookies_loop_total [of 0] by (simp add: parse_cookies_def case_prod_unfold)

lemma parse_params_cases:
  assumes "rest_params req = []"
  shows "if rq_uri req = [] then parse_params req = Undefined else \<exists>req'. parse_params req = Ret req'"
  using assms percent_decode_Nil [of "rq_uri req"] by (auto simp: parse_params_def Let_def split.simps)

lemma connection_header_keeps: "rest_params (parse_connection_header req) = rest_params req" "rq_uri (parse_connection_header req) = rq_uri req"
  by (simp_all add: parse_connection_header_def Let_def case_prod_unfold)

definition settings_ok :: "config \<Rightarrow> bool" where
  "settings_ok cfg \<longleftrightarrow> access_granted cfg = [] \<and> access_denied cfg = [] \<and> doc_root cfg \<noteq> []"

lemma settings_ok_same: "same_settings cfg cfg' \<Longrightarrow> settings_ok cfg' = settings_ok cfg"
  unfolding same_settings_def settings_ok_def by (cases cfg, cases cfg') auto

definition good_response :: "response \<Rightarrow> bool" where
  "good_response res \<longleftrightarrow> list_all clean_field (res_headers res) \<and> framed res"

lemma answer_cases:
  assumes "settings_ok cfg" "pages_ok (sv_run sv)" "sv_remote sv = Ret (a, p)" "rest_params req = []"
  shows "(\<exists>cfg' req' res'. answer sv cfg req new_response = Ret (cfg', req', res') \<and> good_response res' \<and> settings_ok cfg') \<or>
    answer sv cfg req new_response = Throw (RuntimeError ''invalid part header'') \<or> (answer sv cfg req new_response = Undefined \<and> rq_uri req = [])"
proof -
  define r where "r = parse_connection_header (req\<lparr>remote_addr := a, remote_port := p\<rparr>)"
  have r: "rest_params r = []" "rq_uri r = rq_uri req" using assms(4) by (simp_all add: r_def connection_header_keeps)
  have ans: "answer sv cfg req new_response = xbind (parse_params r) (\<lambda>req. xbind (parse_cookies req) (\<lambda>req. xbind (parse_content_fn req) (\<lambda>req.
      handle_request (sv_fs sv) (sv_gzip sv) (sv_run sv) cfg req new_response)))"
    by (simp add: answer_def assms(3) r_def)
  show ?thesis
  proof (cases "rq_uri req = []")
    case True
    then show ?thesis using parse_params_cases [OF r(1)] r(2) ans by simp
  next
    case False
    then obtain r1 r2 where r12: "parse_params r = Ret r1" "parse_cookies r1 = Ret r2"
      using parse_params_cases [OF r(1)] r(2) parse_cookies_total by (metis (no_types))
    from parse_content_outcome [of r2] show ?thesis
    proof
      assume "\<exists>req'. parse_content_fn r2 = Ret req'"
      then obtain r3 where r3: "parse_content_fn r2 = Ret r3" by blast
      obtain cfg' req' res' where "handle_request (sv_fs sv) (sv_gzip sv) (sv_run sv) cfg r3 new_response = Ret (cfg', req', res')"
          "good_response res'" "settings_ok cfg'"
        using handle_request_good [of cfg "sv_run sv" "sv_fs sv" "sv_gzip sv" r3] assms(1,2) settings_ok_same
        by (metis settings_ok_def good_response_def)
      then show ?thesis using ans r12 r3 by simp
    qed (use ans r12 in simp)
  qed
qed

lemma parse_rest_params:
  "parser_inv st req \<Longrightarrow> parse st req s = Ret (st', req', r, rest) \<Longrightarrow> rest_params req' = rest_params req"
proof (induction s arbitrary: st req)
  case (Cons c s)
  obtain st1 req1 r1 where c: "char_step st req c = Ret (st1, req1, r1)" "parser_inv st1 req1"
    using char_step_ok [OF Cons.prems(1)] by blast
  have "st \<noteq> param_value_start" using Cons.prems(1) by (simp add: parser_inv_def)
  then have "next_char (Ret (st1, req1, r1)) s = Ret (st', req', r, rest)" using Cons.prems(2) c(1) by (simp add: parse_char)
  moreover have "rest_params req1 = rest_params req" using c(1)
    by (cases st) (auto simp: char_step_def dispatch_def once_def step_defs upd_back_def header_def lookup_nv_def take_content_def
        set_content_length_def Let_def split: if_splits option.splits)
  ultimately show ?case using Cons.IH [OF c(2)] by (auto simp: next_char_def split: if_splits)
qed simp

definition conn_inv :: "config \<Rightarrow> connection \<Rightarrow> bool" where
  "conn_inv cfg c \<longleftrightarrow> settings_ok cfg \<and>
     (pending c = Read_pending \<longrightarrow> parser_inv (conn_parser c) (conn_request c) \<and> conn_response c = new_response \<and> rest_params (conn_request c) = []) \<and>
     (\<forall>w \<in> set (sent c). \<exists>res. w = wire res \<and> good_response res)"

fun world_inv :: "world \<Rightarrow> bool" where
  "world_inv (Alive cfg c) = conn_inv cfg c"
| "world_inv _ = True"

lemma static_good: "good_response (static_response s)"
  by (simp add: good_response_def static_clean static_framed)

lemma conn_inv_write:
  assumes "conn_inv cfg c" "settings_ok cfg'" "good_response res"
  shows "conn_inv cfg' (do_write (c\<lparr>conn_parser := st, conn_request := req, conn_response := res\<rparr>))"
  using assms by (auto simp: conn_inv_def do_write_def wire_def)

lemma read_outcomes:
  assumes inv: "conn_inv cfg c" "pending c = Read_pending" and env: "pages_ok (sv_run sv)" "sv_remote sv = Ret (a, p)"
  shows "(\<exists>cfg' c'. on_read answer sv cfg c e chunk = Ret (cfg', c') \<and> conn_inv cfg' c') \<or>
    (\<exists>st req rest. \<not> e \<and> parse (conn_parser c) (conn_request c) chunk = Ret (st, req, Yes, rest) \<and>
       (on_read answer sv cfg c e chunk = Throw (RuntimeError ''invalid part header'') \<or>
        on_read answer sv cfg c e chunk = Undefined \<and> rq_uri req = []))"
proof (cases e)
  case True
  then show ?thesis using inv by (simp add: on_read_def conn_inv_def)
next
  case False
  have c: "parser_inv (conn_parser c) (conn_request c)" "conn_response c = new_response" "rest_params (conn_request c) = []" "settings_ok cfg"
    using inv by (simp_all add: conn_inv_def)
  obtain st req r rest where p: "parse (conn_parser c) (conn_request c) chunk = Ret (st, req, r, rest)" "parser_inv st req"
    using parse_ok [OF c(1)] by blast
  have rp: "rest_params req = []" using parse_rest_params [OF c(1) p(1)] c(3) by simp
  show ?thesis
  proof (cases r)
    case Yes
    then show ?thesis using answer_cases [OF c(4) env rp] p(1) False c(2) conn_inv_write [OF inv(1)]
      by (auto simp: on_read_def)
  next
    case No
    then show ?thesis using p(1) False conn_inv_write [OF inv(1) c(4) static_good] by (simp add: on_read_def)
  next
    case Indeterminate
    then show ?thesis using p False c rp inv(1) by (simp add: on_read_def do_read_def conn_inv_def)
  qed
qed

lemma write_inv: "conn_inv cfg c \<Longrightarrow> conn_inv cfg (on_write c e)"
  by (auto simp: conn_inv_def on_write_def restart_conn_def do_read_def reset_def parser_inv_start new_request_def)

lemma conn_start_inv: "settings_ok cfg \<Longrightarrow> conn_inv cfg (start_conn (new_connection g))"
  by (simp add: conn_inv_def start_conn_def do_read_def new_connection_def parser_inv_start) (simp add: new_request_def)

lemma step_inv:
  assumes "conn_step sv w ev w'" "world_inv w" "pages_ok (sv_run sv)" "sv_remote sv = Ret (a, p)"
  shows "world_inv w'"
  using assms
proof cases
  case (received c chunk cfg e)
  then show ?thesis using read_outcomes [of cfg c sv a p e chunk] assms(2-) by auto
next
  case (written c cfg e)
  then show ?thesis using write_inv [of cfg c e] assms(2) by simp
qed

lemma runs_inv:
  assumes "runs (conn_step sv) w es w'" "world_inv w" "pages_ok (sv_run sv)" "sv_remote sv = Ret (a, p)"
  shows "world_inv w'"
  using assms by (induction rule: runs.induct) (auto dest: step_inv)

text \<open>A client that takes one response after the other from the stream.\<close>

fun receive_n :: "nat \<Rightarrow> string \<Rightarrow> (string \<times> name_value list \<times> string) list" where
  "receive_n 0 w = []"
| "receive_n (Suc n) w = (case receive w of (l, hs, b, rest) \<Rightarrow> (l @ [CHR 0x0D, CHR 0x0A], hs, b) # receive_n n rest)"

lemma receive_n_wires:
  "\<forall>res \<in> set rs. good_response res \<Longrightarrow>
   receive_n (length rs) (concat (map wire rs)) = map (\<lambda>r. (to_buffer (status r), res_headers r, res_content r)) rs"
proof (induction rs)
  case (Cons r rs)
  have "\<exists>l. receive (wire r @ concat (map wire rs)) = (l, res_headers r, res_content r, concat (map wire rs)) \<and>
      to_buffer (status r) = l @ [CHR 0x0D, CHR 0x0A]"
    using Cons.prems by (intro receive_wire) (simp_all add: good_response_def)
  then show ?case using Cons by auto
qed simp

lemma wires_of: "\<forall>w \<in> set ws. \<exists>res. w = wire res \<and> good_response res \<Longrightarrow> \<exists>rs. ws = map wire rs \<and> (\<forall>res \<in> set rs. good_response res)"
proof (induction ws)
  case (Cons w ws)
  then obtain r rs where "w = wire r" "good_response r" "ws = map wire rs" "\<forall>res \<in> set rs. good_response res" by auto
  then show ?case by (intro exI [of _ "r # rs"]) simp
qed simp

definition hello :: message where
  "hello = \<lparr>msg_method = ''GET'', msg_path = ''/hi'', msg_query = [], msg_major = 1, msg_minor = 0, msg_headers = [], msg_body = []\<rparr>"

definition hello_service :: service where
  "hello_service = \<lparr>sv_fs = (\<lambda>p. if p = ''/www//hi'' then Some ''hello'' else None), sv_gzip = (\<lambda>s. s),
     sv_run = (\<lambda>f cfg req res. Throw OutOfRange), sv_remote = Ret (''127.0.0.1'', 4000)\<rparr>"

definition hello_config :: config where
  "hello_config = new_config\<lparr>doc_root := ''/www/''\<rparr>"

lemma hello_ok: "delivered hello [''GET /hi HTTP'', ''/1.0'' @ nl @ nl]" "delivered hello [message_text hello]"
proof -
  have "\<forall>c \<in> set ''GET''. c_isalnum c" by (simp add: c_isalnum_def c_isalpha_def)
  then have "message_ok hello" using token_alnum
    by (simp add: message_ok_def hello_def head_ok_def query_ok_def headers_ok_def path_char_def text_char_def is_ctl_def schar_def)
  moreover have "message_text hello = ''GET /hi HTTP/1.0'' @ nl @ nl"
    by (simp add: message_text_def hello_def head_text_def target_text_def version_text_def header_text_def dec_eval)
  ultimately show "delivered hello [''GET /hi HTTP'', ''/1.0'' @ nl @ nl]" "delivered hello [message_text hello]"
    by (simp_all add: delivered_def)
qed

lemma hello_answer:
  "\<exists>req res. answer hello_service hello_config (message_request hello) new_response = Ret (hello_config, req, res) \<and>
     connection_option req = CHR ''c'' \<and> res_content res = ''hello''"
proof -
  have d: "percent_decode ''/hi'' = ''/hi''" by simp
  have sp: "split ''/hi'' (CHR ''/'') = [[], ''hi'']" by (simp add: split.simps)
  show ?thesis
    by (simp add: answer_def hello_service_def hello_config_def message_request_def hello_def head_request_def target_text_def
        new_request_def parse_connection_header_def header_def lookup_nv_def parse_params_def d sp parse_cookies_def parse_content_fn_def
        handle_request_def handle_try_def is_access_granted_def is_access_denied_def new_config_def str_find_def npos_def prefix_def
        get_func_def routes_def get_file_def get_extension_def find_last_of_def fill_response_def push_header_def new_response_def Let_def)
qed

section \<open>Properties\<close>



text \<open>
  C26. Whatever bytes a client sends, in whatever chunks and with whatever errors of the socket,
  the bytes sent back are a sequence of complete responses: a client that follows the announced
  lengths gets the status line, the fields and the content of each of them.
\<close>
theorem connection_stream_framed:
  assumes "runs (conn_step sv) (Alive cfg (start_conn (new_connection g))) es (Alive cfg' c)"
    "settings_ok cfg" "pages_ok (sv_run sv)" "sv_remote sv = Ret (a, p)"
  shows "\<exists>rs. sent c = map wire rs \<and>
    receive_n (length rs) (concat (sent c)) = map (\<lambda>r. (to_buffer (status r), res_headers r, res_content r)) rs"
proof -
  have "conn_inv cfg' c" using runs_inv [OF assms(1) _ assms(3,4)] conn_start_inv [OF assms(2)] by simp
  then obtain rs where "sent c = map wire rs" "\<forall>res \<in> set rs. good_response res"
    using wires_of [of "sent c"] unfolding conn_inv_def by blast
  then show ?thesis using receive_n_wires by auto
qed

lemma hello_env: "settings_ok hello_config" "pages_ok (sv_run hello_service)" "sv_remote hello_service = Ret (''127.0.0.1'', 4000)"
  by (simp_all add: settings_ok_def hello_config_def new_config_def pages_ok_def hello_service_def)

lemma bad_byte_run:
  "runs (conn_step hello_service) (Alive hello_config (start_conn (new_connection NUL))) [Received False '' '']
     (Alive hello_config (do_write ((start_conn (new_connection NUL))\<lparr>conn_response := static_response st_bad_request\<rparr>)))"
proof -
  let ?c = "start_conn (new_connection NUL)"
  have c: "pending ?c = Read_pending" "conn_parser ?c = method_start" by (simp_all add: start_conn_def do_read_def new_connection_def)
  have p: "parse method_start (conn_request ?c) '' '' = Ret (method_start, conn_request ?c, No, [])"
    by (simp add: eval_step is_tspecial_def schar_def)
  have "conn_step hello_service (Alive hello_config ?c) (Received False '' '') (outcome (on_read answer hello_service hello_config ?c False '' ''))"
    by (rule conn_step.received) (simp_all add: c)
  moreover have "?c\<lparr>conn_parser := method_start, conn_request := conn_request ?c\<rparr> = ?c" using c by simp
  ultimately show ?thesis using c p by (auto simp: on_read_def runs_Cons)
qed

theorem connection_stream_framed_witness:
  "receive_n 1 (wire (static_response st_bad_request)) =
     [(to_buffer st_bad_request, res_headers (static_response st_bad_request), static_page st_bad_request)]"
proof -
  let ?c = "do_write ((start_conn (new_connection NUL))\<lparr>conn_response := static_response st_bad_request\<rparr>)"
  have s: "sent ?c = [wire (static_response st_bad_request)]"
    by (simp add: do_write_def start_conn_def do_read_def new_connection_def wire_def)
  obtain rs where rs: "sent ?c = map wire rs" "receive_n (length rs) (concat (sent ?c)) = map (\<lambda>r. (to_buffer (status r), res_headers r, res_content r)) rs"
    using connection_stream_framed [OF bad_byte_run hello_env] by blast
  obtain l where l: "receive (wire (static_response st_bad_request)) = (l, res_headers (static_response st_bad_request), static_page st_bad_request, [])"
      "to_buffer st_bad_request = l @ [CHR 0x0D, CHR 0x0A]"
    using receive_wire [OF static_clean static_framed, of st_bad_request "[]"] by (auto simp: static_response_def)
  have "length rs = 1" using rs(1) s by (metis length_map length_Cons list.size(3) One_nat_def)
  then show ?thesis using rs(2) l s by simp
qed



text \<open>
  Requests sent without waiting are lost: when more bytes arrive in the same read after a
  complete request, the connection does exactly what it does without them.
\<close>
theorem connection_drops_pipelined:
  assumes "delivered m [message_text m]" "idle c"
  shows "on_read answer sv cfg c False (message_text m @ extra) = on_read answer sv cfg c False (message_text m)"
proof -
  obtain g where c: "conn_parser c = method_start" "conn_request c = new_request\<lparr>connection_option := g\<rparr>" using assms(2) by (auto simp: idle_def)
  obtain st where st: "parse method_start (new_request\<lparr>connection_option := g\<rparr>) (message_text m) =
      Ret (st, (message_request m)\<lparr>connection_option := g\<rparr>, Yes, [])"
    using parse_delivered [OF assms(1), of g] by (auto split: if_splits)
  have "parse method_start (new_request\<lparr>connection_option := g\<rparr>) (message_text m @ extra) =
      Ret (st, (message_request m)\<lparr>connection_option := g\<rparr>, Yes, extra)"
    using parse_append [OF parser_inv_start, of _ "message_text m" extra] st by simp
  then show ?thesis using st c by (simp add: on_read_def)
qed

theorem connection_drops_pipelined_witness:
  "on_read answer hello_service hello_config (start_conn (new_connection NUL)) False (message_text hello @ message_text hello) =
   on_read answer hello_service hello_config (start_conn (new_connection NUL)) False (message_text hello)"
  by (rule connection_drops_pipelined [OF hello_ok(2)]) (auto simp: idle_def start_conn_def new_connection_def do_read_def)

end
