(* ===== verification/Session.thy ===== *)
theory Session
  imports Response Config
begin

text \<open>
  The sessions of \<^verbatim>\<open>src/src/session.cpp\<close>: name/value pairs kept in a cookie of the client, signed
  with an MD5 digest over the pairs and a secret key. The digest function, the archive format,
  the clock and the bytes of the identifier, which the code does not initialise, are parameters.
\<close>

section \<open>The digest\<close>

text \<open>\<^verbatim>\<open>sprintf("%02x")\<close> of a byte.\<close>

definition lower_hex :: "nat \<Rightarrow> char" where
  "lower_hex d = char_of (if d < 10 then 48 + d else 87 + d)"

definition md5_digest :: "(string \<Rightarrow> nat list) \<Rightarrow> string \<Rightarrow> string" where
  "md5_digest md5 str = concat (map (\<lambda>b. [lower_hex (b div 16), lower_hex (b mod 16)]) (md5 (takeWhile (\<lambda>c. c \<noteq> NUL) str)))"

section \<open>State\<close>

text \<open>The clock is read at most once in each of \<^verbatim>\<open>load\<close>, \<^verbatim>\<open>update\<close> and \<^verbatim>\<open>get_curr_tm\<close>.\<close>

record session_world =
  sw_md5 :: "string \<Rightarrow> nat list"
  sw_save :: "name_value list \<Rightarrow> string"
  sw_load :: "string \<Rightarrow> name_value list cpp"
  sw_uuid :: string
  sw_now_load :: int
  sw_now_update :: int
  sw_now_curr :: int

record session =
  sess :: "name_value list"
  sess_req :: request
  sess_res :: response

definition get :: "string \<Rightarrow> session \<Rightarrow> string \<times> session" where
  "get name s = (case lookup_nv name (sess s) of (v, nvs) \<Rightarrow> (v, s\<lparr>sess := nvs\<rparr>))"

definition get_curr_tm :: "session_world \<Rightarrow> string" where
  "get_curr_tm w = dec_int (sw_now_curr w)"

definition get_last_tm :: "session \<Rightarrow> int \<times> session" where
  "get_last_tm s = (case get ''last_tm'' s of (v, s) \<Rightarrow> (strto (- 9223372036854775808) 9223372036854775807 v, s))"

definition get_curr_ip :: "session \<Rightarrow> string" where
  "get_curr_ip s = remote_addr (sess_req s)"

definition get_last_ip :: "session \<Rightarrow> string \<times> session" where
  "get_last_ip s = get ''last_ip'' s"

definition get_curr_ua :: "session \<Rightarrow> string \<times> session" where
  "get_curr_ua s = (case header ''User-Agent'' (sess_req s) of (v, req) \<Rightarrow> (take 120 v, s\<lparr>sess_req := req\<rparr>))"

definition get_last_ua :: "session \<Rightarrow> string \<times> session" where
  "get_last_ua s = get ''last_ua'' s"

definition serialize_and_set :: "session_world \<Rightarrow> config \<Rightarrow> session \<Rightarrow> session" where
  "serialize_and_set w cfg s =
     (let cookie_value = percent_encode (sw_save w (sess s));
          cookie_value = cookie_value @ md5_digest (sw_md5 w) (cookie_value @ encrypt_key cfg)
      in s\<lparr>sess_res := set_cookie (sess_cookie cfg) cookie_value (sess_res s)\<rparr>)"

definition put :: "session_world \<Rightarrow> config \<Rightarrow> string \<Rightarrow> string \<Rightarrow> session \<Rightarrow> session" where
  "put w cfg name value s = serialize_and_set w cfg (s\<lparr>sess := assign_nv name value (sess s)\<rparr>)"

section \<open>Loading\<close>

definition reject :: "config \<Rightarrow> session \<Rightarrow> (bool \<times> session) cpp" where
  "reject cfg s = Ret (False, s\<lparr>sess_res := delete_cookie (sess_cookie cfg) (sess_res s)\<rparr>)"

definition session_names :: "string list" where
  "session_names = [''sess_id'', ''last_tm'', ''last_ip'', ''last_ua'']"

text \<open>The checks on a session that was read.\<close>

definition check_loaded :: "session_world \<Rightarrow> config \<Rightarrow> session \<Rightarrow> (bool \<times> session) cpp" where
  "check_loaded w cfg s =
     (if \<not> list_all (\<lambda>key. find_name key (sess s) \<noteq> None) session_names then reject cfg s
      else case get_last_tm s of (last_tm, s) \<Rightarrow>
      if real_of_int (sw_now_load w - last_tm) > expiry_sec cfg then reject cfg s
      else case (if validate_ip cfg then get_last_ip s else (get_curr_ip s, s)) of (ip, s) \<Rightarrow>
      if get_curr_ip s \<noteq> ip then reject cfg s
      else case (if validate_ua cfg then (case get_curr_ua s of (now_ua, s) \<Rightarrow> case get_last_ua s of (old, s) \<Rightarrow> (now_ua \<noteq> old, s)) else (False, s)) of (differ, s) \<Rightarrow>
      if differ then reject cfg s
      else Ret (True, s))"

definition load :: "session_world \<Rightarrow> config \<Rightarrow> session \<Rightarrow> (bool \<times> session) cpp" where
  "load w cfg s =
     (case cookie (sess_cookie cfg) (sess_req s) of (session_cookie, req) \<Rightarrow>
      let s = s\<lparr>sess_req := req\<rparr> in
      if session_cookie = [] then Ret (False, s)
      else
        let cut = to_size (int (length session_cookie) - 32) in
        xbind (substr session_cookie cut npos) (\<lambda>session_md5.
        xbind (substr session_cookie 0 cut) (\<lambda>session_str.
        if session_md5 \<noteq> md5_digest (sw_md5 w) (session_str @ encrypt_key cfg) then reject cfg s
        else xbind (sw_load w (percent_decode session_str)) (\<lambda>nvs. check_loaded w cfg (s\<lparr>sess := nvs\<rparr>)))))"

definition create :: "session_world \<Rightarrow> config \<Rightarrow> session \<Rightarrow> session" where
  "create w cfg s =
     (let sess_id = md5_digest (sw_md5 w) (sw_uuid w);
          (ua, s) = get_curr_ua s
      in serialize_and_set w cfg (s\<lparr>sess := [name_value ''sess_id'' sess_id, name_value ''last_tm'' (get_curr_tm w),
           name_value ''last_ip'' (get_curr_ip s), name_value ''last_ua'' ua]\<rparr>))"

definition update :: "session_world \<Rightarrow> config \<Rightarrow> session \<Rightarrow> session" where
  "update w cfg s =
     (case get_last_tm s of (last_tm, s) \<Rightarrow>
      if real_of_int (sw_now_update w - last_tm) < update_sec cfg then s
      else
        let new_sess_id = sw_uuid w @ get_curr_ip s;
            s = put w cfg ''sess_id'' (md5_digest (sw_md5 w) new_sess_id) s;
            s = put w cfg ''last_tm'' (get_curr_tm w) s
        in serialize_and_set w cfg s)"

definition new_session :: "session_world \<Rightarrow> config \<Rightarrow> request \<Rightarrow> response \<Rightarrow> session cpp" where
  "new_session w cfg req res =
     xbind (load w cfg \<lparr>sess = [], sess_req = req, sess_res = res\<rparr>) (\<lambda>(ok, s).
     Ret (if \<not> ok then create w cfg s else update w cfg s))"

section \<open>Signed cookies\<close>

definition session_value :: "session_world \<Rightarrow> config \<Rightarrow> name_value list \<Rightarrow> string" where
  "session_value w cfg nvs =
     (let v = percent_encode (sw_save w nvs) in v @ md5_digest (sw_md5 w) (v @ encrypt_key cfg))"

lemma length_md5_digest: "length (md5 (takeWhile (\<lambda>c. c \<noteq> NUL) s)) = 16 \<Longrightarrow> length (md5_digest md5 s) = 32"
  by (simp add: md5_digest_def length_concat comp_def sum_list_triv)

lemma serialize_value: "value_of (sess_cookie cfg) (res_cookies (sess_res (serialize_and_set w cfg s))) = session_value w cfg (sess s)"
  by (simp add: serialize_and_set_def session_value_def set_cookie_def value_of_assign Let_def)

lemma serialize_sess [simp]: "sess (serialize_and_set w cfg s) = sess s" "sess_req (serialize_and_set w cfg s) = sess_req s"
  by (simp_all add: serialize_and_set_def Let_def)

lemma find_name_value_of: "find_name n nvs \<noteq> None \<Longrightarrow> lookup_nv n nvs = (value_of n nvs, nvs)"
  by (auto simp: lookup_nv_def value_of_def)

text \<open>What a session in the hands of the server has passed.\<close>

definition fresh_enough :: "session_world \<Rightarrow> config \<Rightarrow> request \<Rightarrow> name_value list \<Rightarrow> bool" where
  "fresh_enough w cfg req nvs \<longleftrightarrow>
     list_all (\<lambda>key. find_name key nvs \<noteq> None) session_names \<and>
     real_of_int (sw_now_load w - strto (- 9223372036854775808) 9223372036854775807 (value_of ''last_tm'' nvs)) \<le> expiry_sec cfg \<and>
     (validate_ip cfg \<longrightarrow> value_of ''last_ip'' nvs = remote_addr req) \<and>
     (validate_ua cfg \<longrightarrow> value_of ''last_ua'' nvs = take 120 (value_of ''User-Agent'' (headers req)))"

lemma check_loaded_iff:
  "\<exists>s'. check_loaded w cfg s = Ret (fresh_enough w cfg (sess_req s) (sess s), s') \<and>
     (fresh_enough w cfg (sess_req s) (sess s) \<longrightarrow> sess s' = sess s)"
proof (cases "list_all (\<lambda>key. find_name key (sess s) \<noteq> None) session_names")
  case True
  then have k: "find_name ''last_tm'' (sess s) \<noteq> None" "find_name ''last_ip'' (sess s) \<noteq> None" "find_name ''last_ua'' (sess s) \<noteq> None"
    by (simp_all add: session_names_def)
  show ?thesis using True find_name_value_of [OF k(1)] find_name_value_of [OF k(2)] find_name_value_of [OF k(3)]
    by (auto simp: check_loaded_def fresh_enough_def get_last_tm_def get_last_ip_def get_last_ua_def get_curr_ip_def get_curr_ua_def
        get_def reject_def header_def case_prod_unfold Let_def)
qed (simp add: check_loaded_def fresh_enough_def reject_def)

lemma load_long:
  assumes v: "value_of (sess_cookie cfg) (cookies (sess_req s)) = str @ mac" "length mac = 32" and len: "length str + 32 < npos"
    and req: "req = snd (cookie (sess_cookie cfg) (sess_req s))"
  shows "load w cfg s = (if mac \<noteq> md5_digest (sw_md5 w) (str @ encrypt_key cfg) then reject cfg (s\<lparr>sess_req := req\<rparr>)
    else xbind (sw_load w (percent_decode str)) (\<lambda>nvs. check_loaded w cfg (s\<lparr>sess_req := req, sess := nvs\<rparr>)))"
proof -
  have cut: "to_size (int (length (str @ mac)) - 32) = length str" using v(2) len by (simp add: npos_def to_size_id)
  have c: "cookie (sess_cookie cfg) (sess_req s) = (str @ mac, req)" using v(1) req by (simp add: cookie_def case_prod_unfold)
  have ne: "str @ mac \<noteq> []" using v(2) by auto
  have sub: "substr (str @ mac) (length str) npos = Ret mac" "substr (str @ mac) 0 (length str) = Ret str"
    using v(2) by (simp_all add: substr_def npos_def)
  show ?thesis unfolding load_def c prod.case Let_def cut sub xbind.simps by (subst if_not_P [OF ne]) (rule refl)
qed

lemma load_short:
  assumes "value_of (sess_cookie cfg) (cookies (sess_req s)) = v" "v \<noteq> []" "length v < 32"
  shows "load w cfg s = Throw OutOfRange"
proof -
  have "(int (length v) - 32 + 18446744073709551616) mod 18446744073709551616 = int (length v) - 32 + 18446744073709551616"
    using assms(3) by (intro mod_pos_pos_trivial) auto
  then have "(int (length v) - 32) mod 18446744073709551616 = int (length v) - 32 + 18446744073709551616"
    by (simp only: mod_add_self2)
  then have "to_size (int (length v) - 32) = nat (int (length v) - 32 + 18446744073709551616)" by (simp add: to_size_def)
  then have "length v < to_size (int (length v) - 32)" using assms(3) by simp
  then show ?thesis using assms(1,2) by (simp add: load_def cookie_def case_prod_unfold Let_def substr_def)
qed

lemma cookie_keeps [simp]: "remote_addr (snd (cookie n req)) = remote_addr req" "headers (snd (cookie n req)) = headers req"
  by (simp_all add: cookie_def case_prod_unfold)

lemma fresh_enough_cookie: "fresh_enough w cfg (snd (cookie n req)) nvs = fresh_enough w cfg req nvs"
  by (simp add: fresh_enough_def)

lemma load_value:
  assumes "value_of (sess_cookie cfg) (cookies req) = session_value w cfg nvs" "length (session_value w cfg nvs) < npos"
    and md5: "\<And>x. length (sw_md5 w x) = 16" and archive: "\<And>nvs. sw_load w (sw_save w nvs) = Ret nvs"
  shows "\<exists>s'. load w cfg \<lparr>sess = old, sess_req = req, sess_res = res\<rparr> = Ret (fresh_enough w cfg req nvs, s') \<and>
    (fresh_enough w cfg req nvs \<longrightarrow> sess s' = nvs)"
proof -
  let ?v = "percent_encode (sw_save w nvs)" and ?s = "\<lparr>sess = nvs, sess_req = snd (cookie (sess_cookie cfg) req), sess_res = res\<rparr>"
  have "length (md5_digest (sw_md5 w) (?v @ encrypt_key cfg)) = 32" by (rule length_md5_digest) (rule md5)
  then have "load w cfg \<lparr>sess = old, sess_req = req, sess_res = res\<rparr> = check_loaded w cfg ?s"
    using load_long [of cfg "\<lparr>sess = old, sess_req = req, sess_res = res\<rparr>" ?v "md5_digest (sw_md5 w) (?v @ encrypt_key cfg)" _ w, OF _ _ _ refl]
      assms(1,2) archive percent_decode_encode [of "sw_save w nvs" "[]"]
    by (simp add: session_value_def Let_def)
  then show ?thesis using check_loaded_iff [of w cfg ?s] by (simp add: fresh_enough_cookie)
qed

section \<open>A sample archive\<close>

text \<open>Each string is written with its length in unary before it.\<close>

definition save_string :: "string \<Rightarrow> string" where
  "save_string s = replicate (length s) (CHR ''x'') @ CHR '':'' # s"

definition read_string :: "string \<Rightarrow> string \<times> string" where
  "read_string t = (let n = length (takeWhile (\<lambda>c. c \<noteq> CHR '':'') t) in (take n (drop (Suc n) t), drop (Suc (n + n)) t))"

definition save_pairs :: "name_value list \<Rightarrow> string" where
  "save_pairs nvs = concat (map (\<lambda>nv. save_string (nv_name nv) @ save_string (nv_value nv)) nvs)"

fun read_pairs :: "nat \<Rightarrow> string \<Rightarrow> name_value list" where
  "read_pairs 0 t = []"
| "read_pairs (Suc k) t =
     (if t = [] then []
      else case read_string t of (a, t) \<Rightarrow> case read_string t of (b, t) \<Rightarrow> name_value a b # read_pairs k t)"

lemma read_save_string: "read_string (save_string s @ t) = (s, t)"
  by (simp add: read_string_def save_string_def takeWhile_append Let_def)

lemma read_save_pairs: "length nvs \<le> k \<Longrightarrow> read_pairs k (save_pairs nvs) = nvs"
proof (induction nvs arbitrary: k)
  case Nil
  then show ?case by (cases k) (simp_all add: save_pairs_def)
next
  case (Cons nv nvs)
  then obtain j where j: "k = Suc j" "length nvs \<le> j" by (cases k) auto
  have "save_pairs (nv # nvs) = save_string (nv_name nv) @ save_string (nv_value nv) @ save_pairs nvs" by (simp add: save_pairs_def)
  moreover have "save_string (nv_name nv) \<noteq> []" by (simp add: save_string_def)
  ultimately show ?case using Cons.IH [OF j(2)] by (simp add: j(1) read_save_string name_value_def)
qed

lemma length_save_pairs: "length nvs \<le> length (save_pairs nvs)"
  by (induction nvs) (auto simp: save_pairs_def save_string_def)

definition sample_session_world :: session_world where
  "sample_session_world = \<lparr>sw_md5 = (\<lambda>s. replicate 16 (length s mod 256)), sw_save = save_pairs,
     sw_load = (\<lambda>t. Ret (read_pairs (length t) t)), sw_uuid = [], sw_now_load = 10, sw_now_update = 10, sw_now_curr = 10\<rparr>"

lemma sample_session_world_ok:
  "\<forall>x. length (sw_md5 sample_session_world x) = 16"
  "\<forall>nvs. sw_load sample_session_world (sw_save sample_session_world nvs) = Ret nvs"
  by (simp_all add: sample_session_world_def read_save_pairs length_save_pairs)

definition sample_session_config :: config where
  "sample_session_config = new_config\<lparr>encrypt_key := ''k'', sess_cookie := ''s'', expiry_sec := 100\<rparr>"

definition sample_pairs :: "name_value list" where
  "sample_pairs = map (\<lambda>n. name_value n ''1'') session_names"

definition sample_value :: string where
  "sample_value = session_value sample_session_world sample_session_config sample_pairs"

lemma sample_value_short: "length sample_value < npos"
proof -
  have "length (percent_encode s) \<le> 3 * length s" for s
    by (induction s) (auto simp: percent_encode_def char2hex_def Let_def)
  from this [of "save_pairs sample_pairs"]
  have "length (percent_encode (save_pairs sample_pairs)) \<le> 300"
    by (simp add: save_pairs_def sample_pairs_def session_names_def save_string_def)
  moreover have "length (md5_digest (sw_md5 sample_session_world) x) = 32" for x
    by (rule length_md5_digest) (simp add: sample_session_world_def)
  ultimately show ?thesis
    by (simp add: sample_value_def session_value_def Let_def npos_def) (simp add: sample_session_world_def)
qed

lemma sample_fresh: "fresh_enough sample_session_world sample_session_config req sample_pairs"
proof -
  have "strto (- 9223372036854775808) 9223372036854775807 ''1'' = 1" using strto_dec_nat [of _ 1] by (simp add: dec_eval)
  then show ?thesis
    by (simp add: fresh_enough_def sample_pairs_def session_names_def value_of_def sample_session_world_def sample_session_config_def new_config_def)
qed

section \<open>Properties\<close>

text \<open>
  C25. A session survives the trip to the client and back: when the next request carries the value
  that the server set for the session cookie, the session loads exactly the pairs that were
  stored, whatever bytes they hold, provided that it has not expired and that the address and the
  user agent are the stored ones where the configuration asks for that; otherwise it is refused.
  The archive is assumed to read back what it wrote, the digest to have 16 bytes.
\<close>
theorem session_roundtrip:
  assumes "value_of (sess_cookie cfg) (cookies req) = value_of (sess_cookie cfg) (res_cookies (sess_res (serialize_and_set w cfg s)))"
    "length (value_of (sess_cookie cfg) (cookies req)) < npos" "\<forall>x. length (sw_md5 w x) = 16" "\<forall>nvs. sw_load w (sw_save w nvs) = Ret nvs"
  shows "\<exists>s'. load w cfg \<lparr>sess = [], sess_req = req, sess_res = res\<rparr> = Ret (fresh_enough w cfg req (sess s), s') \<and>
    (fresh_enough w cfg req (sess s) \<longrightarrow> sess s' = sess s)"
  using load_value [of cfg req w "sess s" "[]" res] assms by (simp add: serialize_value)

theorem session_roundtrip_witness:
  "\<exists>s'. load sample_session_world sample_session_config
      \<lparr>sess = [], sess_req = new_request\<lparr>cookies := [name_value ''s'' sample_value]\<rparr>, sess_res = new_response\<rparr> = Ret (True, s') \<and>
    sess s' = sample_pairs"
proof -
  let ?s = "\<lparr>sess = sample_pairs, sess_req = new_request, sess_res = new_response\<rparr>"
  have "value_of (sess_cookie sample_session_config) (cookies (new_request\<lparr>cookies := [name_value ''s'' sample_value]\<rparr>)) = sample_value"
    by (simp add: sample_session_config_def value_of_def)
  then show ?thesis
    using session_roundtrip [of sample_session_config "new_request\<lparr>cookies := [name_value ''s'' sample_value]\<rparr>" sample_session_world ?s new_response]
      sample_session_world_ok sample_value_short sample_fresh by (simp add: serialize_value sample_value_def)
qed

text \<open>
  C15. Only signed sessions are accepted: when a cookie is loaded, its last 32 bytes are the digest
  of the rest and the secret key, the session is what the archive reads from the decoded rest,
  and it is complete, not expired and bound to the client as configured.
\<close>
theorem session_load_sound:
  assumes "load w cfg \<lparr>sess = [], sess_req = req, sess_res = res\<rparr> = Ret (True, s')" "length (value_of (sess_cookie cfg) (cookies req)) < npos"
  shows "\<exists>str nvs. value_of (sess_cookie cfg) (cookies req) = str @ md5_digest (sw_md5 w) (str @ encrypt_key cfg) \<and>
    sw_load w (percent_decode str) = Ret nvs \<and> sess s' = nvs \<and> fresh_enough w cfg req nvs"
proof -
  let ?s = "\<lparr>sess = [], sess_req = req, sess_res = res\<rparr>" and ?v = "value_of (sess_cookie cfg) (cookies req)"
  have "?v \<noteq> []" using assms(1) by (auto simp: load_def cookie_def case_prod_unfold)
  moreover have "\<not> (?v \<noteq> [] \<and> length ?v < 32)" using load_short [of cfg ?s ?v w] assms(1) by auto
  ultimately have l: "32 \<le> length ?v" by simp
  define str mac where "str = take (length ?v - 32) ?v" and "mac = drop (length ?v - 32) ?v"
  have v: "?v = str @ mac" "length mac = 32" using l by (simp_all add: str_def mac_def)
  have load: "load w cfg ?s = (if mac \<noteq> md5_digest (sw_md5 w) (str @ encrypt_key cfg) then reject cfg (?s\<lparr>sess_req := snd (cookie (sess_cookie cfg) req)\<rparr>)
    else xbind (sw_load w (percent_decode str)) (\<lambda>nvs. check_loaded w cfg (?s\<lparr>sess_req := snd (cookie (sess_cookie cfg) req), sess := nvs\<rparr>)))"
    by (rule load_long) (use v assms(2) in \<open>simp_all\<close>)
  then have m: "mac = md5_digest (sw_md5 w) (str @ encrypt_key cfg)" using assms(1) by (metis reject_def cpp.inject prod.inject)
  then have "xbind (sw_load w (percent_decode str)) (\<lambda>nvs. check_loaded w cfg (?s\<lparr>sess_req := snd (cookie (sess_cookie cfg) req), sess := nvs\<rparr>)) = Ret (True, s')"
    using load assms(1) by simp
  then obtain nvs where n: "sw_load w (percent_decode str) = Ret nvs"
      "check_loaded w cfg (?s\<lparr>sess_req := snd (cookie (sess_cookie cfg) req), sess := nvs\<rparr>) = Ret (True, s')"
    unfolding xbind_eq_Ret by blast
  show ?thesis
    using m n v(1) check_loaded_iff [of w cfg "?s\<lparr>sess_req := snd (cookie (sess_cookie cfg) req), sess := nvs\<rparr>"]
    by (auto simp: fresh_enough_cookie)
qed

theorem session_load_sound_witness:
  "\<exists>str nvs. sample_value = str @ md5_digest (sw_md5 sample_session_world) (str @ ''k'') \<and>
    sw_load sample_session_world (percent_decode str) = Ret nvs \<and> fresh_enough sample_session_world sample_session_config (new_request\<lparr>cookies := [name_value ''s'' sample_value]\<rparr>) nvs"
proof -
  let ?req = "new_request\<lparr>cookies := [name_value ''s'' sample_value]\<rparr>"
  have v: "value_of (sess_cookie sample_session_config) (cookies ?req) = sample_value" by (simp add: sample_session_config_def value_of_def)
  then obtain s' where "load sample_session_world sample_session_config \<lparr>sess = [], sess_req = ?req, sess_res = new_response\<rparr> = Ret (True, s')"
    using load_value [of sample_session_config ?req sample_session_world sample_pairs "[]" new_response] sample_session_world_ok sample_value_short sample_fresh
    by (auto simp: sample_value_def)
  then show ?thesis using session_load_sound v sample_value_short by (fastforce simp: sample_session_config_def)
qed

text \<open>
  A non-empty session cookie shorter than a digest makes the constructor of the session throw
  \<^verbatim>\<open>std::out_of_range\<close>: the position it computes wraps around. The cookie is not deleted, so the
  client keeps getting the error.
\<close>
theorem session_short_cookie_throws:
  assumes "value_of (sess_cookie cfg) (cookies req) \<noteq> []" "length (value_of (sess_cookie cfg) (cookies req)) < 32"
  shows "new_session w cfg req res = Throw OutOfRange"
  using load_short [of cfg "\<lparr>sess = [], sess_req = req, sess_res = res\<rparr>" "value_of (sess_cookie cfg) (cookies req)" w] assms
  by (simp add: new_session_def)

theorem session_short_cookie_throws_witness:
  "new_session sample_session_world sample_session_config (new_request\<lparr>cookies := [name_value ''s'' ''x'']\<rparr>) new_response = Throw OutOfRange"
  by (rule session_short_cookie_throws) (simp_all add: sample_session_config_def value_of_def)

end
