(* ===== verification/Spec2Isabelle.thy ===== *)
theory Spec2Isabelle
  imports Sds_Split Async_Subscribe Redis3m Mysqlpp_Datetime Mysqlpp_Values Mysqlpp_Rows Scoped Server Connection Session
begin

text \<open>
  This library verifies waspp, a web server framework written in C++ (\<^verbatim>\<open>src/src\<close>), and the Redis
  client in C that it is built with (\<^verbatim>\<open>src/win/hiredis\<close>).

  \<^bold>\<open>The program.\<close> The server accepts connections; the handlers of a connection feed the bytes that
  arrive to a request parser, parse the path, cookies, parameters and body of a complete request,
  call the request handler (a page function or a static file), and send the buffers of the
  response. Page functions use sessions kept in signed cookies, and pools of connections to MySQL
  and Redis shards, which the threads of the server share. The configuration is read from a JSON
  file, and what the threads log is written by a thread of its own. A Redis connection is a context of hiredis: commands are formatted into an output buffer of
  the type \<^verbatim>\<open>sds\<close>, written to the socket, and the bytes that come back are fed to an incremental
  reader, which builds reply objects; the asynchronous client does the same from an event loop, with
  a queue of callbacks and two hash tables of subscriptions.

  \<^bold>\<open>Machine model.\<close> \<open>C_Prelude\<close> and \<open>Cpp_Prelude\<close> fix how C and C++ are read: integers of the LLP64
  model with their wrap-around written out, blocks of memory with checked accesses, results that are
  a value, a null pointer or a fault in C, and a value, an exception or undefined behaviour in C++. What the
  allocator answers is a parameter that every theorem quantifies over. \<open>Cpp_Time\<close> adds broken-down times
  with \<^verbatim>\<open>strftime\<close> and \<^verbatim>\<open>sscanf\<close>. \<open>Interfaces\<close> holds the
  contracts between components as locales (finite maps, queues, containers), which the component
  theories interpret on their own definitions; \<open>Reply\<close> has the contract of a table of reply
  callbacks, \<open>Scoped\<close> that of the objects kept in a pool.

  \<^bold>\<open>The Redis client.\<close>
  \<^item> \<open>Sds\<close>, \<open>Sds_Text\<close>, \<open>Sds_Edit\<close>, \<open>Sds_Split\<close>: \<^verbatim>\<open>sds.c\<close>, one definition per function. The
    representation invariant, the abstraction to byte strings, every operation as an operation on
    byte strings, no access outside the block; joining undoes splitting, and splitting undoes
    quoting.
  \<^item> \<open>Dict\<close>: \<^verbatim>\<open>dict.c\<close>. The chained table implements a finite map through all growth steps, iteration
    visits each entry once, and the destructors run once each.
  \<^item> \<open>Reader\<close>: \<^verbatim>\<open>read.c\<close>. \<open>Reader_Lex\<close> and \<open>Reader_Stream\<close> show that the reader behaves as a machine
    on the stream of bytes: it is safe on any input, and the chunks do not matter.
    \<open>Reader_Roundtrip\<close> and \<open>Reply\<close> (the reply objects of \<^verbatim>\<open>hiredis.c\<close>) show that the encoding of
    any replies is delivered as these replies.
  \<^item> \<open>Format\<close>: command formatting of \<^verbatim>\<open>hiredis.c\<close>, against the words a format denotes; a command
    cannot be forged through an argument.
  \<^item> \<open>Context\<close>: the functions on \<^verbatim>\<open>redisContext\<close> over a socket given by the outcomes of its calls.
    Every byte is sent once and in order, and pipelined replies come back in order.
  \<^item> \<open>Net\<close>: \<^verbatim>\<open>net.c\<close> (the POSIX branches) and the connecting functions of \<^verbatim>\<open>hiredis.c\<close>. What a
    connect leaves behind on every outcome of the system calls and of the resolver.
  \<^item> \<open>Async\<close>: \<^verbatim>\<open>async.c\<close>, the callbacks being a parameter. \<open>Async_Delivery\<close>: no callback is lost,
    none runs twice or out of turn, and against a server that answers each gets its reply.
    \<open>Async_Subscribe\<close>: a subscriber is told every message of its channels, in order and once.
  \<^item> \<open>Redis3m\<close>: \<^verbatim>\<open>redis3m.hpp\<close>, the C++ classes around the blocking client. Replies come back as values, in
    order, and no reply object is leaked.

  \<^bold>\<open>The web server.\<close>
  \<^item> \<open>Utility\<close>: \<^verbatim>\<open>utility.cpp\<close>; percent and base64 coding are inverted by decoding.
  \<^item> \<open>Request\<close>, \<open>Request_Parser\<close>: \<^verbatim>\<open>request.hpp\<close>, \<^verbatim>\<open>request_parser.hpp\<close>, one step per state.
    \<open>Request_Stream\<close>: safety on any input, independence of the chunks, and the round trip from a
    request to its text and back.
  \<^item> \<open>Request_Content\<close>: \<^verbatim>\<open>request_parser.cpp\<close>; path, cookies, forms and multipart bodies.
  \<^item> \<open>Config\<close>: \<^verbatim>\<open>config.cpp\<close>. \<open>Response\<close>: \<^verbatim>\<open>response.cpp\<close>.
  \<^item> \<open>Request_Handler\<close>: \<^verbatim>\<open>mime_types.hpp\<close>, \<^verbatim>\<open>router.cpp\<close>, \<^verbatim>\<open>request_handler.cpp\<close>. \<open>Service\<close>: no file
    outside the document root is read, and a client can cut the response.
  \<^item> \<open>Connection\<close>: \<^verbatim>\<open>connection.cpp\<close>, \<^verbatim>\<open>connection_ssl.cpp\<close>; the handlers as steps over the events of a
    socket. Requests are answered in order, and what is sent is always a sequence of responses.
  \<^item> \<open>Session\<close>: \<^verbatim>\<open>session.cpp\<close>. \<open>Pool\<close>: \<^verbatim>\<open>dbconn_pool.cpp\<close>, \<^verbatim>\<open>redis_pool.cpp\<close> as threads whose atomic
    steps interleave. \<open>Database\<close>: the shards of \<^verbatim>\<open>database.cpp\<close> and \<^verbatim>\<open>redis.cpp\<close>.
  \<^item> \<open>Logger\<close>: \<^verbatim>\<open>logger.cpp\<close>; the messages of all threads pass a queue to a background thread, which
    writes and rotates the file. The files hold exactly the lines that were logged, in order, under
    any interleaving.
  \<^item> \<open>Server\<close>: \<^verbatim>\<open>main.cpp\<close>, \<^verbatim>\<open>server.cpp\<close> and \<^verbatim>\<open>server_ssl.cpp\<close>; nothing is served before
    configuration, log and pools are ready, and what is accepted is served, up to the first signal.
  \<^item> \<open>Mysqlpp\<close>: the classes of \<^verbatim>\<open>mysqlpp.hpp\<close>, \<^verbatim>\<open>mysqlpp_connection.cpp\<close>, \<^verbatim>\<open>mysqlpp_statement.cpp\<close> and
    \<^verbatim>\<open>mysqlpp_result.cpp\<close> over the MySQL client library, a table of functions. \<open>Mysqlpp_Handles\<close>: the
    handles of the library are those of the objects a connection owns, and the destructor frees
    each once, unless a page deletes them as well, as the unique pointers of \<^verbatim>\<open>dbconn_pool.hpp\<close> do. \<open>Mysqlpp_Values\<close>: parameters are bound with their types, and a keyword stays in its
    literal. \<open>Mysqlpp_Rows\<close>: rows are read back as they were delivered. \<open>Mysqlpp_Datetime\<close>: the
    structure \<^verbatim>\<open>datetime\<close>, whose texts are read back as the same time.
  \<^item> \<open>Scoped\<close>: the objects \<^verbatim>\<open>scoped_db\<close>, where pool and wrapper meet. Connections come back to the pool
    clean, and no handle is left when it is destroyed.

  This theory adds the property that spans formatting, the blocking client and the reader.

  \<^bold>\<open>Bounds and fuel.\<close> Loops with a measure are total functions. Fuel remains where the bound
  is a property of the data: the reader runs one round per byte it holds (\<open>process_loop\<close>, enough by
  \<open>process_loop_refines\<close>), freeing a reply descends at most as deep as the heap has addresses
  (\<open>free_laid_out\<close>), the callbacks of a freed context are at most as many as were queued
  (\<open>run_replies_total\<close>), and the loop over replies takes at least a byte per round
  (\<open>processCallbacks_total\<close>). The loop over the rows of a procedure has fuel because the library may
  deliver rows for ever; the theorem on handles holds for any fuel, the one on rows for any that exceeds their number. The values of replies are read to depth 9, the size of the task
  stack of the reader. A socket is a finite list of outcomes; a call beyond it blocks. Sizes are
  bounded by \<open>sds_fits\<close>, the largest string whose growth does not overflow an \<^verbatim>\<open>int\<close>.

  \<^bold>\<open>Not modelled.\<close> The Windows branches of \<^verbatim>\<open>net.c\<close>, which differ in the system calls;
  what Asio does below the events it reports, threads and sockets included; the initialisation of the
  libraries of MySQL and OpenSSL; \<^verbatim>\<open>md5_digest\<close> and \<^verbatim>\<open>gzip_str\<close>, which only call OpenSSL and Boost; the page functions
  (\<^verbatim>\<open>route_dir_*.cpp\<close>), which are SQL and HTML text and parameters here; \<^verbatim>\<open>url_conn.cpp\<close> and
  \<^verbatim>\<open>performance_checker.cpp\<close>, calls of libcurl and of the clock; the tests, examples and event loop
  adapters of hiredis. Boost, OpenSSL, the MySQL client, the file system and the clock are
  parameters of the definitions that use them. The properties on subscribers take callbacks that
  issue no requests, and those on replies connections without subscriptions; \<^verbatim>\<open>MONITOR\<close> is modelled
  in \<open>Async\<close> only.
\<close>

section \<open>A command end to end\<close>

lemma words_carried:
  assumes "sds_fits (length (command_text ws))"
  shows "resp_ok (Multi (map Bulk ws)) \<and> lines_fit (Multi (map Bulk ws)) \<and> depth (Multi (map Bulk ws)) \<le> 8 \<and>
    canon (Multi (map Bulk ws)) = Multi (map Bulk ws)"
proof -
  have lim: "length (command_text ws) \<le> 2147483647" using assms by (simp add: sds_fits_def)
  have "length (bulk_text x) \<le> length (concat (map bulk_text ws))" if "x \<in> set ws" for x
    using that by (induction ws) auto
  then have "length x \<le> 2147483647" if "x \<in> set ws" for x
    using that lim length_bulk_text [of x] head_len [of ws] by fastforce
  moreover have "length ws \<le> 2147483647" using length_command_ge [of ws] lim by simp
  moreover have "fold max (map (\<lambda>_. 0) ws) (0 :: nat) = 0" by (induction ws) simp_all
  ultimately show ?thesis by (simp add: list_all_iff comp_def)
qed

text \<open>
  C2. A command makes its way to the server and back. On a new blocking connection
  \<^verbatim>\<open>redisCommand\<close> with a template of literal texts and arguments returns; a server that reads the
  bytes it has sent with the protocol reader, in any pieces, finds exactly one request, the array
  of the words of the template with the arguments as they are; and the object returned to the
  caller stands for the reply the server sent, in whatever pieces it arrived.
\<close>
theorem command_end_to_end:
  assumes "redisConnectFd fd w0 = Ok (Some c, w)" "env_ok w0" "heap_ok (w_heap w0)" "w_sent w0 = []"
    "template_ok pss" "\<forall>x \<in> set (template_words pss). sds_fits (length x)"
    "sds_fits (length (encode (Multi (map Bulk (template_words pss)))))"
    "writes_ok (w_writes w0)" "length (encode (Multi (map Bulk (template_words pss)))) \<le> capacity (w_writes w0)"
    "reads_ok (w_reads w0)" "data (w_reads w0) = encode v" "sds_fits (length (encode v))"
    "resp_ok v" "lines_fit v" "depth v \<le> 8"
  shows "\<exists>p c' w'. redisCommand dbl c w (template_format pss) (template_args pss) = Ok (p, c', w') \<and>
    reply_value 9 (hp_objs (w_heap w')) p = Some (canon v) \<and>
    (\<forall>e r ts h. redisReaderCreate e = Ok r \<and> concat ts = w_sent w' \<and> ts \<noteq> [] \<and> heap_ok h \<longrightarrow>
      (\<exists>q r' h'. run_chunks (\<lambda>_. plenty) 0 r ts h = Ok ([q], r', h') \<and>
         reply_value 9 (hp_objs h') q = Some (Multi (map Bulk (template_words pss)))))"
proof -
  let ?ws = "template_words pss"
  note f = redisConnectFd_fresh [OF assms(1)] and wc = words_carried [of ?ws]
  have sz: "sds_fits (length (command_text ?ws))" using assms(7) by (simp add: command_text_encode)
  obtain r where r: "ready c w r" "rest_of r = []" using fresh_ready [OF assms(1,2,8,10)] assms(11,12) by auto
  have "heap_ok (w_heap w)" "length (command_text ?ws) \<le> capacity (w_writes w)" "data (w_reads w) = encode v"
    using assms(3,9,11) f(6,7,9) by (simp_all add: command_text_encode)
  from redisCommand_step [OF r f(2) this(1) ref_words_template [OF assms(5), of dbl] assms(6) sz this(2,3) assms(13-15)]
  obtain p c' w' where run: "redisCommand dbl c w (template_format pss) (template_args pss) = Ok (p, c', w')"
    "reply_value 9 (hp_objs (w_heap w')) p = Some (canon v)" "w_sent w' = w_sent w @ command_text ?ws"
    by blast
  have sent: "w_sent w' = concat (map encode [Multi (map Bulk ?ws)])" using run(3) f(5) assms(4) by (simp add: command_text_encode)
  have "\<exists>q r' h'. run_chunks (\<lambda>_. plenty) 0 s ts h = Ok ([q], r', h') \<and> reply_value 9 (hp_objs h') q = Some (Multi (map Bulk ?ws))"
    if "redisReaderCreate e = Ok s" "concat ts = w_sent w'" "ts \<noteq> []" "heap_ok h" for e s ts h
  proof -
    have "sds_fits (length (concat ts))" using that(2) sent assms(7) by simp
    from replies_roundtrip [OF that(1) that(2) [unfolded sent] that(3) _ this that(4), of "\<lambda>_. plenty"] wc [OF sz]
    have "\<exists>ps r' h'. run_chunks (\<lambda>_. plenty) 0 s ts h = Ok (ps, r', h') \<and>
      map (reply_value 9 (hp_objs h')) ps = [Some (canon (Multi (map Bulk ?ws)))]"
      by (simp del: run_chunks.simps canon.simps resp_ok.simps lines_fit.simps depth.simps) (elim exE conjE, intro exI conjI)
    then obtain ps r' h' where "run_chunks (\<lambda>_. plenty) 0 s ts h = Ok (ps, r', h')"
      "map (reply_value 9 (hp_objs h')) ps = [Some (Multi (map Bulk ?ws))]" using wc [OF sz] by auto
    then show ?thesis by (auto simp: map_eq_Cons_conv)
  qed
  then show ?thesis using run by blast
qed

theorem command_end_to_end_witness:
  "\<exists>c w p c' w'. redisConnectFd 3 (example_world\<lparr>w_reads := [Inr (''+O''), Inr (''K'' @ crlf)]\<rparr>) = Ok (Some c, w) \<and>
     redisCommand (\<lambda>_ (_ :: unit). []) c w ''SET %b'' [VStr [CR, LF, NUL], VSize 3] = Ok (p, c', w') \<and>
     reply_value 9 (hp_objs (w_heap w')) p = Some (Status ''OK'')"
proof -
  let ?w = "example_world\<lparr>w_reads := [Inr (''+O''), Inr (''K'' @ crlf)]\<rparr>"
  define pss where "pss = [[Lit ''SET''], [PBin [CR, LF, NUL]]]"
  have f: "template_format pss = ''SET %b''" "template_args pss = [VStr [CR, LF, NUL], VSize 3 :: unit vararg]"
    by (simp_all add: pss_def template_args_def)
  have t: "template_words pss = [''SET'', [CR, LF, NUL]]" "template_ok pss" by (simp_all add: pss_def template_words_def template_ok_def)
  obtain c w where c: "redisConnectFd 3 ?w = Ok (Some c, w)" using connect_plenty [of ?w 3] by (auto simp: example_world_def)
  have "\<exists>p c' w'. redisCommand (\<lambda>_ (_ :: unit). []) c w (template_format pss) (template_args pss) = Ok (p, c', w') \<and>
    reply_value 9 (hp_objs (w_heap w')) p = Some (canon (Status ''OK'')) \<and>
    (\<forall>e r ts h. redisReaderCreate e = Ok r \<and> concat ts = w_sent w' \<and> ts \<noteq> [] \<and> heap_ok h \<longrightarrow>
      (\<exists>q r' h'. run_chunks (\<lambda>_. plenty) 0 r ts h = Ok ([q], r', h') \<and>
         reply_value 9 (hp_objs h') q = Some (Multi (map Bulk (template_words pss)))))"
    by (rule command_end_to_end [OF c])
      (simp_all add: example_world_def env_ok_def empty_heap_ok t crlf_def sds_fits_def SDS_MAX_PREALLOC_def dec_eval find_crlf.simps)
  then show ?thesis using c f by auto
qed

end
